(* ===== verification/Prelude.thy ===== *)
theory Prelude
  imports Main "HOL-Library.Word" "HOL-Library.Monad_Syntax"
begin

text \<open>
  Shared vocabulary of the development: the machine types of the 32-bit target (\<open>types.h\<close>),
  bounds-checked arrays, and the generic lemmas on them that the component theories use.
  A C access outside an array is undefined behaviour; the model makes it the value \<open>None\<close>, so
  that "never leaves the array" is a statement about results.
\<close>

unbundle bit_operations_syntax

section \<open>Machine types\<close>

type_synonym byte = "8 word"
type_synonym u16 = "16 word"
type_synonym u32 = "32 word"

text \<open>Named collections: facts about checked arrays, and decompositions of option results.\<close>

named_theorems array_simps
named_theorems c_arith

section \<open>Checked arrays\<close>

definition aget :: "'a list \<Rightarrow> nat \<Rightarrow> 'a option" where
  "aget xs i = (if i < length xs then Some (xs ! i) else None)"

definition aset :: "'a list \<Rightarrow> nat \<Rightarrow> 'a \<Rightarrow> 'a list option" where
  "aset xs i v = (if i < length xs then Some (xs[i := v]) else None)"

lemma aget_in [array_simps]: "i < length xs \<Longrightarrow> aget xs i = Some (xs ! i)"
  by (simp add: aget_def)

lemma aget_out [array_simps]: "length xs \<le> i \<Longrightarrow> aget xs i = None"
  by (simp add: aget_def)

lemma aset_in [array_simps]: "i < length xs \<Longrightarrow> aset xs i v = Some (xs[i := v])"
  by (simp add: aset_def)

lemma aset_out [array_simps]: "length xs \<le> i \<Longrightarrow> aset xs i v = None"
  by (simp add: aset_def)

lemma aget_eq_Some: "aget xs i = Some v \<longleftrightarrow> i < length xs \<and> v = xs ! i"
  by (auto simp: aget_def)

lemma aset_eq_Some: "aset xs i v = Some ys \<longleftrightarrow> i < length xs \<and> ys = xs[i := v]"
  by (auto simp: aset_def)

section \<open>Slices of arrays\<close>

text \<open>\<open>overlay buf off ys\<close> is \<open>buf\<close> with the elements from \<open>off\<close> on overwritten by \<open>ys\<close>.\<close>

definition overlay :: "'a list \<Rightarrow> nat \<Rightarrow> 'a list \<Rightarrow> 'a list" where
  "overlay buf off ys = take off buf @ ys @ drop (off + length ys) buf"

definition segment :: "'a list \<Rightarrow> nat \<Rightarrow> nat \<Rightarrow> 'a list" where
  "segment buf off n = take n (drop off buf)"

lemma length_overlay [simp]:
  "off + length ys \<le> length buf \<Longrightarrow> length (overlay buf off ys) = length buf"
  by (simp add: overlay_def)

lemma length_segment [simp]: "off + n \<le> length buf \<Longrightarrow> length (segment buf off n) = n"
  by (simp add: segment_def)

lemma overlay_Nil [simp]: "off \<le> length buf \<Longrightarrow> overlay buf off [] = buf"
  by (simp add: overlay_def)

lemma overlay_snoc:
  "off + length ys < length buf \<Longrightarrow>
   (overlay buf off ys)[off + length ys := y] = overlay buf off (ys @ [y])"
  by (simp add: overlay_def list_update_append drop_update_swap Cons_nth_drop_Suc [symmetric])

lemma overlay_step:
  "off < length str \<Longrightarrow> overlay (str[off := c]) (off + 1) ys = overlay str off (c # ys)"
  by (simp add: overlay_def upd_conv_take_nth_drop min_def ac_simps)

lemma overlay_overlay_append:
  "off + length ys + length zs \<le> length buf \<Longrightarrow>
   overlay (overlay buf off ys) (off + length ys) zs = overlay buf off (ys @ zs)"
  by (simp add: overlay_def ac_simps)

lemma take_overlay:
  "n = length ys \<Longrightarrow> take n (overlay buf 0 ys) = ys"
  by (simp add: overlay_def)

lemma segment_overlay [simp]:
  "off + length ys \<le> length buf \<Longrightarrow> segment (overlay buf off ys) off (length ys) = ys"
  by (simp add: segment_def overlay_def)

lemma nth_overlay:
  assumes "off + length ys \<le> length buf"
  shows "overlay buf off ys ! i =
    (if i < off then buf ! i else if i < off + length ys then ys ! (i - off) else buf ! i)"
  using assms by (auto simp: overlay_def nth_append)

lemma segment_nth [simp]: "off + n \<le> length buf \<Longrightarrow> i < n \<Longrightarrow> segment buf off n ! i = buf ! (off + i)"
  by (simp add: segment_def)

lemma overlay_eqI:
  assumes "length xs = length buf" and "off + length ys \<le> length buf"
    and "\<And>i. i < off \<Longrightarrow> xs ! i = buf ! i"
    and "\<And>i. i < length ys \<Longrightarrow> xs ! (off + i) = ys ! i"
    and "\<And>i. off + length ys \<le> i \<Longrightarrow> i < length buf \<Longrightarrow> xs ! i = buf ! i"
  shows "xs = overlay buf off ys"
proof (rule nth_equalityI)
  show "length xs = length (overlay buf off ys)" using assms(1,2) by simp
next
  fix i assume "i < length xs"
  with assms(1) have i: "i < length buf" by simp
  show "xs ! i = overlay buf off ys ! i"
    using assms(2,3,5) i assms(4) [of "i - off"] by (auto simp: nth_overlay not_less less_diff_conv2)
qed

section \<open>Word arithmetic\<close>

lemma unat_of_nat_u32 [c_arith]: "n < 2 ^ 32 \<Longrightarrow> unat (of_nat n :: u32) = n"
  by (simp add: unat_of_nat take_bit_nat_eq_self)

lemma unat_u32_lt [simp]: "unat (x :: u32) < 4294967296"
  using unsigned_less [of x] by simp

lemma unat_u32_pow: "unat (x :: u32) < 2 ^ 32" "unat (x :: u32) \<le> 2 ^ 32"
proof -
  show "unat x < 2 ^ 32" by simp
  then show "unat x \<le> 2 ^ 32" by (rule less_imp_le)
qed

lemma unat_byte_lt [simp]: "unat (x :: byte) < 256"
  using unsigned_less [of x] by simp

lemma unat_u32_div [c_arith]: "unat (a div b :: u32) = unat a div unat b"
  by (simp add: unat_div_distrib)

lemma unat_u32_mod [c_arith]: "unat (a mod b :: u32) = unat a mod unat b"
  by (simp add: unat_mod_distrib)

lemma unat_u32_plus [c_arith]: "unat (a + b :: u32) = (unat a + unat b) mod 2 ^ 32"
  by (simp add: unat_word_ariths)

lemma unat_u32_times [c_arith]: "unat (a * b :: u32) = unat a * unat b mod 2 ^ 32"
  by (simp add: unat_word_ariths)

lemma unat_u32_minus: "b \<le> a \<Longrightarrow> unat (a - b :: u32) = unat a - unat b"
  by (simp add: unat_sub word_le_nat_alt)

lemma u32_of_nat_inj: "a < 2 ^ 32 \<Longrightarrow> b < 2 ^ 32 \<Longrightarrow> (of_nat a :: u32) = of_nat b \<longleftrightarrow> a = b"
  by (metis unat_of_nat_u32)

section \<open>Signed readings\<close>

lemma uint_u32_lt: "uint (x :: u32) < 2 ^ 32"
  using uint_lt2p [of x] by simp

lemma sint_u32: "sint (x :: u32) = (if uint x < 2 ^ 31 then uint x else uint x - 2 ^ 32)"
proof -
  have eq: "sint x = (uint x + 2 ^ 31) mod 2 ^ 32 - 2 ^ 31"
    by (simp add: sint_uint signed_take_bit_eq_take_bit_shift take_bit_eq_mod)
  show ?thesis
  proof (cases "uint x < 2 ^ 31")
    case True
    then show ?thesis unfolding eq by simp
  next
    case False
    have "(uint x + 2 ^ 31) mod 2 ^ 32 = (uint x - 2 ^ 31) mod 2 ^ 32"
      using mod_add_self2 [of "uint x - 2 ^ 31" "2 ^ 32"] by (simp add: add.commute)
    also have "\<dots> = uint x - 2 ^ 31"
      using False uint_u32_lt [of x] by (intro mod_pos_pos_trivial) auto
    finally show ?thesis using False unfolding eq by simp
  qed
qed

lemma sint_small: "unat (n :: u32) < 2 ^ 31 \<Longrightarrow> sint n = int (unat n)"
proof -
  assume "unat n < 2 ^ 31"
  then have "int (unat n) < int (2 ^ 31)" by (simp only: of_nat_less_iff)
  then show ?thesis by (simp add: sint_u32)
qed


lemma uint_u32_uminus: "uint (- x :: u32) = (if x = 0 then 0 else 2 ^ 32 - uint x)"
proof (cases "x = 0")
  case False
  then have "0 < uint x" using uint_0_iff [of x] uint_ge_0 [of x] by linarith
  then have "(- uint x + 2 ^ 32) mod 2 ^ 32 = - uint x + 2 ^ 32"
    using uint_u32_lt [of x] by (intro mod_pos_pos_trivial) auto
  then show ?thesis using False by (simp add: uint_word_ariths)
qed simp
text \<open>Unsigned division traps on a zero divisor (the x86 divide error): \<open>None\<close>.\<close>

lemma unat_u32_uminus: "x \<noteq> 0 \<Longrightarrow> unat (- x :: u32) = 2 ^ 32 - unat x"
proof -
  assume "x \<noteq> 0"
  then have "uint (- x) = 2 ^ 32 - uint x" by (simp only: uint_u32_uminus if_False)
  then have "unat (- x) = nat (2 ^ 32 - uint x)" by (simp only: unat_eq_nat_uint)
  also have "\<dots> = nat (2 ^ 32) - nat (uint x)" by (rule nat_diff_distrib') simp_all
  finally show ?thesis by (simp only: unat_eq_nat_uint) simp
qed

lemma unat_u32_Suc:
  assumes "x \<noteq> (-1 :: u32)"
  shows "unat (x + 1) = unat x + 1"
proof -
  have "unat x \<noteq> 4294967295"
  proof
    assume "unat x = 4294967295"
    then have "unat x = unat (- 1 :: u32)" using unat_u32_uminus [of 1] by simp
    with assms show False by (simp only: word_unat_eq_iff)
  qed
  moreover have "unat x < 4294967296" by (rule unat_u32_lt)
  ultimately have "unat x + 1 < 4294967296" by linarith
  then show ?thesis by (simp add: unat_u32_plus)
qed

lemma u32_less_Suc: "x \<noteq> (-1 :: u32) \<Longrightarrow> x < x + 1"
  by (simp add: word_less_nat_alt unat_u32_Suc)

lemma and_not_mask: "and x (not (mask n)) = (x :: u32) - take_bit n x"
proof -
  have "and x (not (mask n)) = push_bit n (drop_bit n x)"
    by (rule bit_eqI) (auto simp: bit_simps)
  then show ?thesis using bits_ident [of n x] by (metis add_diff_cancel_right')
qed

definition udiv :: "u32 \<Rightarrow> u32 \<Rightarrow> u32 option" where
  "udiv a b = (if b = 0 then None else Some (a div b))"

lemma udiv_eq_Some [simp]: "udiv a b = Some q \<longleftrightarrow> b \<noteq> 0 \<and> q = a div b"
  by (auto simp: udiv_def)

section \<open>Counting loops\<close>

text \<open>\<open>for (i = lo; i < hi; i++) body\<close> with a body that may fail.\<close>

function for_loop :: "nat \<Rightarrow> nat \<Rightarrow> (nat \<Rightarrow> 's \<Rightarrow> 's option) \<Rightarrow> 's \<Rightarrow> 's option" where
  "for_loop i hi body s =
     (if i < hi then do { s \<leftarrow> body i s; for_loop (i + 1) hi body s } else Some s)"
  by pat_completeness auto
termination
  by (relation "measure (\<lambda>(i, hi, body, s). hi - i)") auto

declare for_loop.simps [simp del]

lemma for_loop_done [simp]: "hi \<le> i \<Longrightarrow> for_loop i hi body s = Some s"
  by (simp add: for_loop.simps [of i])

lemma for_loop_step:
  "i < hi \<Longrightarrow> for_loop i hi body s = body i s \<bind> for_loop (i + 1) hi body"
  by (simp add: for_loop.simps [of i])

text \<open>The invariant rule: the loop returns, and the invariant holds at the end.\<close>

lemma for_loop_rule:
  assumes "P lo s" and "lo \<le> hi"
    and "\<And>i s. lo \<le> i \<Longrightarrow> i < hi \<Longrightarrow> P i s \<Longrightarrow> \<exists>s'. body i s = Some s' \<and> P (i + 1) s'"
  shows "\<exists>s'. for_loop lo hi body s = Some s' \<and> P hi s'"
  using assms
proof (induction "hi - lo" arbitrary: lo s)
  case 0
  then show ?case by simp
next
  case (Suc n)
  then have lo: "lo < hi" by simp
  with Suc.prems obtain s' where s': "body lo s = Some s'" "P (lo + 1) s'" by blast
  have "\<exists>s''. for_loop (lo + 1) hi body s' = Some s'' \<and> P hi s''"
    using Suc.hyps(2) lo s'(2) Suc.prems(3) by (intro Suc.hyps(1)) auto
  with s' lo show ?case by (simp add: for_loop_step)
qed

text \<open>The same for a loop that is known to have returned.\<close>

lemma for_loop_inv:
  assumes "for_loop lo hi body s = Some s'" and "P lo s" and "lo \<le> hi"
    and "\<And>i s s'. lo \<le> i \<Longrightarrow> i < hi \<Longrightarrow> P i s \<Longrightarrow> body i s = Some s' \<Longrightarrow> P (i + 1) s'"
  shows "P hi s'"
  using assms
proof (induction "hi - lo" arbitrary: lo s)
  case 0
  then show ?case by simp
next
  case (Suc n)
  then have lo: "lo < hi" by simp
  with Suc.prems(1) obtain s1 where s1: "body lo s = Some s1" "for_loop (lo + 1) hi body s1 = Some s'"
    by (auto simp: for_loop_step bind_eq_Some_conv)
  show ?case
    by (rule Suc.hyps(1) [OF _ s1(2)]) (use Suc.hyps(2) Suc.prems(2-4) lo s1(1) in auto)
qed

lemma nth_update_if: "xs[i := x] ! j = (if i = j \<and> j < length xs then x else xs ! j)"
  by (cases "i < length xs") (auto simp: nth_list_update list_update_beyond)

text \<open>The guard \<open>x + y < x\<close> of the code detects the wrap-around.\<close>

lemma no_wrap_u32:
  assumes "\<not> x + y < (x :: u32)"
  shows "unat (x + y) = unat x + unat y"
proof (rule ccontr)
  assume n: "unat (x + y) \<noteq> unat x + unat y"
  have "unat (x + y) = (if unat x + unat y < 2 ^ 32 then unat x + unat y else unat x + unat y - 2 ^ 32)"
    using unat_plus_if' [of x y] by simp
  moreover have "unat x \<le> unat (x + y)" using assms by (simp add: word_less_nat_alt)
  ultimately have "unat x \<le> unat x + unat y - 2 ^ 32" "\<not> unat x + unat y < 2 ^ 32" using n by (auto split: if_splits)
  with unat_u32_pow(1) [of y] show False by linarith
qed

section \<open>The first matching entry of a table\<close>

text \<open>\<open>for(p = table; p < &table[N]; p++) if(P(p)) ...\<close>, leaving the loop at the first match.\<close>

fun find_first :: "('a \<Rightarrow> bool) \<Rightarrow> 'a list \<Rightarrow> nat option" where
  "find_first P [] = None"
| "find_first P (x # xs) = (if P x then Some 0 else map_option Suc (find_first P xs))"

lemma find_first_SomeD:
  "find_first P xs = Some i \<Longrightarrow> i < length xs \<and> P (xs ! i) \<and> (\<forall>j < i. \<not> P (xs ! j))"
proof (induction xs arbitrary: i)
  case (Cons x xs)
  then show ?case
    by (cases "P x") (auto simp: less_Suc_eq_0_disj)
qed simp

lemma find_first_None: "find_first P xs = None \<longleftrightarrow> (\<forall>x \<in> set xs. \<not> P x)"
  by (induction xs) auto

lemma find_first_Some:
  "find_first P xs = Some i \<longleftrightarrow> i < length xs \<and> P (xs ! i) \<and> (\<forall>j < i. \<not> P (xs ! j))"
proof
  assume r: "i < length xs \<and> P (xs ! i) \<and> (\<forall>j < i. \<not> P (xs ! j))"
  then have "xs ! i \<in> set xs" "P (xs ! i)" by simp_all
  then obtain k where k: "find_first P xs = Some k" using find_first_None by fastforce
  then have "k = i" using find_first_SomeD [OF k] r by (metis nat_neq_iff)
  with k show "find_first P xs = Some i" by simp
qed (rule find_first_SomeD)

section \<open>Invariants of transition systems\<close>

text \<open>The step relations of the development share this interface: an invariant that holds at the start
  and is kept by every step holds in every reachable state.\<close>

locale transition_invariant =
  fixes start :: "'s \<Rightarrow> bool" and step :: "'s \<Rightarrow> 's \<Rightarrow> bool" and inv :: "'s \<Rightarrow> bool"
  assumes start_inv: "start s \<Longrightarrow> inv s"
    and step_inv: "step s s' \<Longrightarrow> inv s \<Longrightarrow> inv s'"
begin

lemma steps_inv: "step\<^sup>*\<^sup>* s s' \<Longrightarrow> inv s \<Longrightarrow> inv s'"
  by (induction rule: rtranclp_induct) (auto intro: step_inv)

lemma reachable_inv: "start s \<Longrightarrow> step\<^sup>*\<^sup>* s s' \<Longrightarrow> inv s'"
  using steps_inv start_inv by blast

end

end
