(* ===== verification/UserUtils.thy ===== *)
theory UserUtils
  imports Prelude
begin

text \<open>
  The helper routines of the experiment programs (\<open>xv6-add_FAIRNESS/user/utils.c\<close>): decimal
  formatting and parsing, file names built from process ids, the linear congruential generator,
  and the readers of the statistics files. A \<open>char *\<close> into a buffer is the buffer with an offset;
  every access is checked, so a result \<open>None\<close> means that the routine left its buffer. A statistics
  file is what \<open>open\<close> and \<open>read\<close> give: \<open>None\<close> when it cannot be opened, else its bytes.
\<close>

section \<open>Decimal notation, the reference\<close>

fun decimal :: "nat \<Rightarrow> byte list" where
  "decimal n = (if n < 10 then [48 + of_nat n] else decimal (n div 10) @ [48 + of_nat (n mod 10)])"

declare decimal.simps [simp del]

definition is_digit :: "byte \<Rightarrow> bool" where
  "is_digit c \<longleftrightarrow> 48 \<le> c \<and> c \<le> 57"

section \<open>reverse_string and int_to_str\<close>

function reverse_loop :: "byte list \<Rightarrow> nat \<Rightarrow> int \<Rightarrow> int \<Rightarrow> byte list option" where
  "reverse_loop str off i j =
     (if i < j then do {
        temp \<leftarrow> aget str (off + nat i);
        y \<leftarrow> aget str (off + nat j);
        str \<leftarrow> aset str (off + nat i) y;
        str \<leftarrow> aset str (off + nat j) temp;
        reverse_loop str off (i + 1) (j - 1)
      } else Some str)"
  by pat_completeness auto
termination
  by (relation "measure (\<lambda>(str, off, i, j). nat (j - i))") auto

declare reverse_loop.simps [simp del]

definition reverse_string :: "byte list \<Rightarrow> nat \<Rightarrow> int \<Rightarrow> byte list option" where
  "reverse_string str off len = reverse_loop str off 0 (len - 1)"

function digits_loop :: "u32 \<Rightarrow> nat \<Rightarrow> byte list \<Rightarrow> nat \<Rightarrow> (nat \<times> byte list) option" where
  "digits_loop num i str off =
     (if num > 0 then do {
        str \<leftarrow> aset str (off + i) (ucast (48 + num mod 10));
        digits_loop (num div 10) (i + 1) str off
      } else Some (i, str))"
  by pat_completeness auto
termination
  by (relation "measure (\<lambda>(num, i, str, off). unat num)") (auto simp: c_arith word_less_nat_alt)

declare digits_loop.simps [simp del]

definition int_to_str :: "u32 \<Rightarrow> byte list \<Rightarrow> nat \<Rightarrow> (nat \<times> byte list) option" where
  "int_to_str num str off = do {
     (i, str) \<leftarrow>
       (if num = 0 then do { str \<leftarrow> aset str off 48; Some (1, str) }
        else do {
          (i, str) \<leftarrow> digits_loop num 0 str off;
          str \<leftarrow> reverse_string str off (int i);
          Some (i, str)
        });
     str \<leftarrow> aset str (off + i) 0;
     Some (i, str)
   }"

section \<open>build_filename\<close>

function copy_prefix :: "byte list \<Rightarrow> byte list \<Rightarrow> nat \<Rightarrow> (byte list \<times> nat) option" where
  "copy_prefix filename prefix i = do {
     c \<leftarrow> aget prefix i;
     (if c \<noteq> 0 then do {
        filename \<leftarrow> aset filename i c;
        copy_prefix filename prefix (i + 1)
      } else Some (filename, i))
   }"
  by pat_completeness auto
termination
  by (relation "measure (\<lambda>(filename, prefix, i). length prefix - i)") (auto simp: aget_eq_Some)

declare copy_prefix.simps [simp del]

function copy_digits :: "byte list \<Rightarrow> nat \<Rightarrow> byte list \<Rightarrow> nat \<Rightarrow> nat \<Rightarrow> (byte list \<times> nat) option" where
  "copy_digits filename i pid_str j pid_len =
     (if j < pid_len then do {
        c \<leftarrow> aget pid_str j;
        filename \<leftarrow> aset filename i c;
        copy_digits filename (i + 1) pid_str (j + 1) pid_len
      } else Some (filename, i))"
  by pat_completeness auto
termination
  by (relation "measure (\<lambda>(filename, i, pid_str, j, pid_len). pid_len - j)") auto

declare copy_digits.simps [simp del]

text \<open>\<open>prefix\<close> is the literal with its terminating zero; the local \<open>pid_str\<close> is written before it
  is read, so its initial contents do not matter.\<close>

definition build_filename :: "byte list \<Rightarrow> u32 \<Rightarrow> byte list \<Rightarrow> byte list option" where
  "build_filename filename pid prefix = do {
     (filename, i) \<leftarrow> copy_prefix filename prefix 0;
     (pid_len, pid_str) \<leftarrow> int_to_str pid (replicate 12 0) 0;
     (filename, i) \<leftarrow> copy_digits filename i pid_str 0 pid_len;
     filename \<leftarrow> aset filename i 46;
     filename \<leftarrow> aset filename (i + 1) 116;
     filename \<leftarrow> aset filename (i + 2) 120;
     filename \<leftarrow> aset filename (i + 3) 116;
     aset filename (i + 4) 0
   }"

section \<open>The generator\<close>

text \<open>The global \<open>seed\<close> is passed and returned.\<close>

definition initial_seed :: u32 where
  "initial_seed = 123456789"

definition custom_srand :: "u32 \<Rightarrow> u32 \<Rightarrow> u32" where
  "custom_srand new_seed seed = new_seed"

definition custom_rand :: "u32 \<Rightarrow> u32 \<times> u32" where
  "custom_rand seed =
     (let seed = seed * 1103515245 + 12345 in ((seed div 65536) mod 32768, seed))"

section \<open>Parsing and printing numbers\<close>

function atoi_loop :: "byte list \<Rightarrow> nat \<Rightarrow> u32 \<Rightarrow> u32 option" where
  "atoi_loop str s n = do {
     c \<leftarrow> aget str s;
     (if 48 \<le> c \<and> c \<le> 57 then atoi_loop str (s + 1) (n * 10 + (ucast c - 48)) else Some n)
   }"
  by pat_completeness auto
termination
  by (relation "measure (\<lambda>(str, s, n). length str - s)") (auto simp: aget_eq_Some)

declare atoi_loop.simps [simp del]

definition custom_atoi :: "byte list \<Rightarrow> nat \<Rightarrow> u32 option" where
  "custom_atoi str s = atoi_loop str s 0"

text \<open>\<open>print_with_leading_zeros\<close>: the bytes handed to \<open>printf\<close>. The index runs from 5 down to 0;
  the argument \<open>width\<close> is not used by the code.\<close>

fun leading_zeros_loop :: "nat \<Rightarrow> u32 \<Rightarrow> byte list \<Rightarrow> byte list option" where
  "leading_zeros_loop 0 number buffer = Some buffer"
| "leading_zeros_loop (Suc i) number buffer = do {
     buffer \<leftarrow> aset buffer i (ucast (48 + number mod 10));
     leading_zeros_loop i (number div 10) buffer
   }"

definition print_with_leading_zeros :: "u32 \<Rightarrow> int \<Rightarrow> byte list option" where
  "print_with_leading_zeros number width = do {
     buffer \<leftarrow> aset (replicate 7 0) 6 0;
     buffer \<leftarrow> leading_zeros_loop 6 number buffer;
     Some (takeWhile (\<lambda>c. c \<noteq> 0) buffer)
   }"

section \<open>Readers of the statistics files\<close>

record io_stats =
  write_time :: u32
  read_time :: u32
  delete_time :: u32
  alloc_time :: u32
  free_time :: u32

text \<open>\<open>while (buffer[i] != ' ' && buffer[i] != 0) i++; if (buffer[i] == ' ') i++;\<close>\<close>

function skip_to_space :: "byte list \<Rightarrow> nat \<Rightarrow> nat option" where
  "skip_to_space buffer i = do {
     c \<leftarrow> aget buffer i;
     (if c \<noteq> 32 \<and> c \<noteq> 0 then skip_to_space buffer (i + 1) else Some i)
   }"
  by pat_completeness auto
termination
  by (relation "measure (\<lambda>(buffer, i). length buffer - i)") (auto simp: aget_eq_Some)

declare skip_to_space.simps [simp del]

definition skip_field :: "byte list \<Rightarrow> nat \<Rightarrow> nat option" where
  "skip_field buffer i = do {
     i \<leftarrow> skip_to_space buffer i;
     c \<leftarrow> aget buffer i;
     Some (if c = 32 then i + 1 else i)
   }"

text \<open>
  The file handed to the readers is \<open>None\<close> when \<open>open\<close> fails, and otherwise the bytes stored in
  it, of which \<open>read\<close> returns as many as the buffer less one holds. The results are the values of
  the out-parameters, unchanged on the early returns.
\<close>

definition read_mem_stats :: "byte list option \<Rightarrow> u32 \<times> u32 \<Rightarrow> (u32 \<times> u32) option" where
  "read_mem_stats file old =
     (case file of
        None \<Rightarrow> Some old
      | Some bytes \<Rightarrow>
          (let data = take 99 bytes; n = length data in
           if n = 0 then Some old
           else do {
             buffer \<leftarrow> aset (overlay (replicate 100 0) 0 data) n 0;
             a \<leftarrow> custom_atoi buffer 0;
             i \<leftarrow> skip_field buffer 0;
             f \<leftarrow> custom_atoi buffer i;
             Some (a, f)
           }))"

definition read_stats :: "byte list option \<Rightarrow> io_stats \<Rightarrow> io_stats option" where
  "read_stats file old =
     (case file of
        None \<Rightarrow> Some old
      | Some bytes \<Rightarrow>
          (let data = take 149 bytes; n = length data in
           if n = 0 then Some old
           else do {
             buffer \<leftarrow> aset (overlay (replicate 150 0) 0 data) n 0;
             w \<leftarrow> custom_atoi buffer 0;
             i \<leftarrow> skip_field buffer 0;
             r \<leftarrow> custom_atoi buffer i;
             i \<leftarrow> skip_field buffer i;
             d \<leftarrow> custom_atoi buffer i;
             i \<leftarrow> skip_field buffer i;
             a \<leftarrow> custom_atoi buffer i;
             i \<leftarrow> skip_field buffer i;
             f \<leftarrow> custom_atoi buffer i;
             Some \<lparr>write_time = w, read_time = r, delete_time = d, alloc_time = a, free_time = f\<rparr>
           }))"

section \<open>calculate_scaled_ratio\<close>

definition calculate_scaled_ratio :: "u32 \<Rightarrow> u32 \<Rightarrow> u32 \<Rightarrow> u32 \<Rightarrow> u32 option" where
  "calculate_scaled_ratio a b c scale =
     (if c = 0 \<or> b = 0 then Some 0
      else do {
        a_scaled \<leftarrow> udiv a b;
        let remainder_a = a mod b;
        temp \<leftarrow> udiv (a_scaled * a_scaled * scale) c;
        adj1 \<leftarrow> udiv (2 * a_scaled * remainder_a * scale) c;
        adj2 \<leftarrow> udiv (remainder_a * remainder_a * scale) (b * b * c);
        Some (temp + (adj1 + adj2))
      })"

section \<open>Lemmas: decimal notation\<close>

lemma length_decimal_pos [simp]: "0 < length (decimal n)"
  by (subst decimal.simps) simp

lemma decimal_not_Nil [simp]: "decimal n \<noteq> []"
  using length_decimal_pos [of n] by fastforce

lemma length_decimal_le: "n < 10 ^ k \<Longrightarrow> 0 < k \<Longrightarrow> length (decimal n) \<le> k"
proof (induction k arbitrary: n)
  case 0
  then show ?case by simp
next
  case (Suc k)
  show ?case
  proof (cases "n < 10")
    case True
    then show ?thesis by (simp add: decimal.simps [of n])
  next
    case False
    with Suc.prems have "0 < k" by (cases k) auto
    moreover from Suc.prems have "n div 10 < 10 ^ k" by (simp add: less_mult_imp_div_less)
    ultimately have "length (decimal (n div 10)) \<le> k" using Suc.IH by blast
    with False show ?thesis by (simp add: decimal.simps [of n])
  qed
qed

lemma length_decimal_u32: "length (decimal (unat (x :: u32))) \<le> 10"
proof -
  have "unat x < 10 ^ 10" by (rule less_trans [OF unat_u32_lt]) simp
  then show ?thesis by (rule length_decimal_le) simp
qed

lemma is_digit_48_plus: "d < 10 \<Longrightarrow> is_digit (48 + of_nat d)"
proof -
  assume "d < 10"
  then have "d \<in> {0,1,2,3,4,5,6,7,8,9}" by auto
  then show ?thesis by (auto simp: is_digit_def)
qed

lemma decimal_digits: "c \<in> set (decimal n) \<Longrightarrow> is_digit c"
proof (induction n rule: decimal.induct)
  case (1 n)
  then show ?case by (auto simp: decimal.simps [of n] is_digit_48_plus split: if_splits)
qed

lemma not_digit_0 [simp]: "\<not> is_digit 0"
  by (simp add: is_digit_def)

lemma digit_byte:
  assumes "d < 10"
  shows "(ucast (48 + of_nat d :: u32) :: byte) = 48 + of_nat d"
proof -
  from assms have "d \<in> {0,1,2,3,4,5,6,7,8,9}" by auto
  then show ?thesis by auto
qed

section \<open>Lemmas: formatting\<close>

lemma reverse_loop_spec:
  assumes "0 \<le> i" and "i < j \<Longrightarrow> off + nat j < length str"
  shows "\<exists>str'. reverse_loop str off i j = Some str' \<and> length str' = length str \<and>
    (\<forall>k < length str. str' ! k =
       (if int off + i \<le> int k \<and> int k \<le> int off + j
        then str ! nat (2 * int off + i + j - int k) else str ! k))"
  using assms
proof (induction str off i j rule: reverse_loop.induct)
  case (1 str off i j)
  show ?case
  proof (cases "i < j")
    case False
    then have "\<And>k. int off + i \<le> int k \<Longrightarrow> int k \<le> int off + j \<Longrightarrow> nat (2 * int off + i + j - int k) = k"
      by auto
    with False show ?thesis by (simp add: reverse_loop.simps [of str off i j])
  next
    case True
    let ?a = "off + nat i" and ?b = "off + nat j"
    from True "1.prems" have b: "?b < length str" and ab: "?a < ?b" by auto
    let ?str = "str[?a := str ! ?b, ?b := str ! ?a]"
    have bind: "aget str ?a = Some (str ! ?a)" "aget str ?b = Some (str ! ?b)"
      "aset str ?a (str ! ?b) = Some (str[?a := str ! ?b])"
      "aset (str[?a := str ! ?b]) ?b (str ! ?a) = Some ?str"
      using ab b less_trans [OF ab b] by (simp_all add: array_simps)
    have unfold: "reverse_loop str off i j = reverse_loop ?str off (i + 1) (j - 1)"
      using True by (simp add: reverse_loop.simps [of str off i j] bind)
    have "i + 1 < j - 1 \<Longrightarrow> off + nat (j - 1) < length ?str"
      using b by simp
    moreover have "0 \<le> i + 1" using "1.prems"(1) by simp
    ultimately obtain str' where r: "reverse_loop ?str off (i + 1) (j - 1) = Some str'"
        and len: "length str' = length ?str"
        and nth': "\<forall>k < length ?str. str' ! k =
          (if int off + (i + 1) \<le> int k \<and> int k \<le> int off + (j - 1)
           then ?str ! nat (2 * int off + (i + 1) + (j - 1) - int k) else ?str ! k)"
      using "1.IH" [OF True bind(1,2,3,4)] by blast
    have shift: "2 * int off + (i + 1) + (j - 1) - int k = 2 * int off + i + j - int k" for k
      by simp
    have nth: "str' ! k = (if int off + (i + 1) \<le> int k \<and> int k \<le> int off + (j - 1)
        then ?str ! nat (2 * int off + i + j - int k) else ?str ! k)" if "k < length str" for k
      using nth' that unfolding shift by simp
    have "str' ! k = (if int off + i \<le> int k \<and> int k \<le> int off + j
        then str ! nat (2 * int off + i + j - int k) else str ! k)" if k: "k < length str" for k
    proof (cases "k = ?a \<or> k = ?b")
      case True
      then show ?thesis
      proof
        assume "k = ?a"
        moreover from this have "nat (2 * int off + i + j - int k) = ?b"
          using "1.prems"(1) \<open>i < j\<close> by simp
        ultimately show ?thesis using nth [OF k] ab b "1.prems"(1) by simp
      next
        assume "k = ?b"
        moreover from this have "nat (2 * int off + i + j - int k) = ?a"
          using "1.prems"(1) \<open>i < j\<close> by simp
        ultimately show ?thesis using nth [OF k] ab b "1.prems"(1) by simp
      qed
    next
      case False
      with "1.prems"(1) True have "(int off + (i + 1) \<le> int k \<and> int k \<le> int off + (j - 1)) =
        (int off + i \<le> int k \<and> int k \<le> int off + j)" by linarith
      moreover have "?str ! k = str ! k" using False by simp
      moreover have "?str ! nat (2 * int off + i + j - int k) = str ! nat (2 * int off + i + j - int k)"
        if "int off + (i + 1) \<le> int k" "int k \<le> int off + (j - 1)"
      proof -
        have "nat (2 * int off + i + j - int k) \<noteq> ?a" "nat (2 * int off + i + j - int k) \<noteq> ?b"
          using that "1.prems"(1) True by linarith+
        then show ?thesis by simp
      qed
      ultimately show ?thesis using nth [OF k] by auto
    qed
    then show ?thesis using unfold r len by simp
  qed
qed

lemma reverse_string_segment:
  assumes "off + n \<le> length str"
  shows "reverse_string str off (int n) = Some (overlay str off (rev (segment str off n)))"
proof -
  have "0 < int n - 1 \<Longrightarrow> off + nat (int n - 1) < length str" using assms by linarith
  from reverse_loop_spec [OF order_refl this]
  obtain str' where r: "reverse_loop str off 0 (int n - 1) = Some str'"
    and len: "length str' = length str"
    and nth: "\<And>k. k < length str \<Longrightarrow> str' ! k =
       (if int off \<le> int k \<and> int k \<le> int off + (int n - 1)
        then str ! nat (2 * int off + (int n - 1) - int k) else str ! k)"
    by auto
  have "str' = overlay str off (rev (segment str off n))"
  proof (rule overlay_eqI)
    fix i assume i: "i < length (rev (segment str off n))"
    with assms have "i < n" by simp
    then have "nat (2 * int off + (int n - 1) - int (off + i)) = off + (n - Suc i)" by linarith
    with nth [of "off + i"] \<open>i < n\<close> assms
    show "str' ! (off + i) = rev (segment str off n) ! i" by (simp add: rev_nth)
  qed (use assms len nth in auto)
  with r show ?thesis by (simp add: reverse_string_def)
qed

definition digits_of :: "nat \<Rightarrow> byte list" where
  "digits_of n = (if n = 0 then [] else decimal n)"

lemma digits_of_step: "n > 0 \<Longrightarrow> digits_of n = digits_of (n div 10) @ [48 + of_nat (n mod 10)]"
  by (auto simp: digits_of_def decimal.simps [of n] dest: div_eq_0_iff [THEN iffD1])

lemma u32_mod_10: "(num :: u32) mod 10 = of_nat (unat num mod 10)"
proof -
  have "unat num mod 10 < 2 ^ 32" by (rule less_trans [OF mod_less_divisor]) simp_all
  then have "unat (of_nat (unat num mod 10) :: u32) = unat num mod 10" by (rule unat_of_nat_u32)
  then show ?thesis by (simp add: word_unat_eq_iff unat_u32_mod)
qed

lemma digits_loop_spec:
  assumes "off + i + length (digits_of (unat num)) \<le> length str"
  shows "digits_loop num i str off =
    Some (i + length (digits_of (unat num)), overlay str (off + i) (rev (digits_of (unat num))))"
  using assms
proof (induction num i str off rule: digits_loop.induct)
  case (1 num i str off)
  show ?case
  proof (cases "num > 0")
    case False
    then have "num = 0" using word_gt_0 [of num] by blast
    with "1.prems" show ?thesis by (simp add: digits_loop.simps [of 0 i str off] digits_of_def)
  next
    case True
    let ?c = "ucast (48 + num mod 10) :: byte"
    have pos: "unat num > 0" using True by (simp add: word_less_nat_alt)
    have step: "digits_of (unat num) = digits_of (unat (num div 10)) @ [?c]"
    proof -
      have "num mod 10 = of_nat (unat num mod 10)"
by (rule u32_mod_10)
      then have "?c = 48 + of_nat (unat num mod 10)" by (simp add: digit_byte)
      with digits_of_step [OF pos] show ?thesis by (simp add: unat_u32_div)
    qed
    have in_bounds: "off + i < length str" using "1.prems" step by simp
    let ?str = "str[off + i := ?c]"
    have "digits_loop (num div 10) (i + 1) ?str off =
      Some (i + 1 + length (digits_of (unat (num div 10))),
        overlay ?str (off + (i + 1)) (rev (digits_of (unat (num div 10)))))"
      using "1.IH" [OF True] "1.prems" step in_bounds by (simp add: array_simps)
    moreover have "overlay ?str (off + (i + 1)) ys = overlay str (off + i) (?c # ys)" for ys
      using overlay_step [OF in_bounds, of ?c ys] by (simp add: add.assoc)
    ultimately show ?thesis
      using True in_bounds step by (simp add: digits_loop.simps [of num i str off] array_simps)
  qed
qed

lemma copy_prefix_spec:
  assumes "i \<le> length cs" and "0 \<notin> set cs" and "length cs \<le> length filename"
  shows "copy_prefix filename (cs @ [0]) i =
    Some (overlay filename i (drop i cs), length cs)"
  using assms
proof (induction "length cs - i" arbitrary: i filename)
  case 0
  then have "i = length cs" by simp
  with 0 show ?case
    by (simp add: copy_prefix.simps [of filename "cs @ [0]" "length cs"] array_simps nth_append)
next
  case (Suc n)
  then have i: "i < length cs" by simp
  then have c: "cs ! i \<noteq> 0" using Suc.prems(2) by (metis nth_mem)
  have "copy_prefix (filename[i := cs ! i]) (cs @ [0]) (i + 1) =
    Some (overlay (filename[i := cs ! i]) (i + 1) (drop (i + 1) cs), length cs)"
    using Suc by (intro Suc.hyps(1)) auto
  moreover have "overlay (filename[i := cs ! i]) (i + 1) (drop (i + 1) cs) = overlay filename i (drop i cs)"
    using i Suc.prems(3) overlay_step [of i filename "cs ! i" "drop (i + 1) cs"]
    by (simp add: Cons_nth_drop_Suc)
  ultimately show ?case
    using i c Suc.prems by (simp add: copy_prefix.simps [of filename "cs @ [0]" i] array_simps nth_append)
qed

lemma int_to_str_spec:
  assumes "off + length (decimal (unat num)) < length str"
  shows "int_to_str num str off =
    Some (length (decimal (unat num)), overlay str off (decimal (unat num) @ [0]))"
proof -
  let ?ds = "decimal (unat num)"
  have last: "aset (overlay str off ?ds) (off + length ?ds) 0 = Some (overlay str off (?ds @ [0]))"
    using assms by (simp add: overlay_snoc array_simps)
  show ?thesis
  proof (cases "num = 0")
    case True
    then have ds: "?ds = [48]" by (simp add: decimal.simps)
    have "aset str off 48 = Some (overlay str off [48])"
      using overlay_snoc [of off "[]" str 48] assms ds by (simp add: array_simps)
    with last ds have "(aset str off 48 \<bind> (\<lambda>str. aset str (off + 1) 0)) =
        Some (overlay str off (?ds @ [0]))" by simp
    then have "(aset str off 48 \<bind> (\<lambda>str. aset str (off + 1) 0) \<bind> (\<lambda>str. Some (1, str))) =
        Some (1, overlay str off (?ds @ [0]))" by simp
    with True ds show ?thesis by (simp add: int_to_str_def Option.bind_assoc One_nat_def [symmetric] del: One_nat_def)
  next
    case False
    then have ds: "digits_of (unat num) = ?ds" by (simp add: digits_of_def unat_eq_zero)
    have "digits_loop num 0 str off = Some (length ?ds, overlay str off (rev ?ds))"
      using digits_loop_spec [of off 0 num str] ds assms by simp
    moreover have "reverse_string (overlay str off (rev ?ds)) off (int (length ?ds)) =
        Some (overlay str off ?ds)"
      using assms segment_overlay [of off "rev ?ds" str]
      by (subst reverse_string_segment) (simp_all add: overlay_def)
    ultimately show ?thesis using False last by (simp add: int_to_str_def)
  qed
qed

lemma copy_digits_spec:
  assumes "j \<le> n" and "n \<le> length ds" and "i + (n - j) \<le> length filename"
  shows "copy_digits filename i ds j n = Some (overlay filename i (drop j (take n ds)), i + (n - j))"
  using assms
proof (induction "n - j" arbitrary: i j filename)
  case 0
  then have "j = n" by simp
  with 0 show ?case by (simp add: copy_digits.simps [of filename i ds n n])
next
  case (Suc m)
  then have j: "j < n" and i: "i < length filename" by auto
  have "copy_digits (filename[i := ds ! j]) (i + 1) ds (j + 1) n =
    Some (overlay (filename[i := ds ! j]) (i + 1) (drop (j + 1) (take n ds)), i + 1 + (n - (j + 1)))"
    using Suc by (intro Suc.hyps(1)) auto
  moreover have "overlay (filename[i := ds ! j]) (i + 1) (drop (j + 1) (take n ds)) =
      overlay filename i (drop j (take n ds))"
    using i j Suc.prems(2) overlay_step [of i filename "ds ! j" "drop (j + 1) (take n ds)"]
    by (simp add: Cons_nth_drop_Suc [of j "take n ds", symmetric])
  ultimately show ?case
    using i j Suc.prems by (simp add: copy_digits.simps [of filename i ds j n] array_simps)
qed

text \<open>The name that \<open>build_filename\<close> produces.\<close>

definition filename_of :: "byte list \<Rightarrow> u32 \<Rightarrow> byte list" where
  "filename_of cs pid = cs @ decimal (unat pid) @ [46, 116, 120, 116]"

lemma overlay_grow:
  "off + length ys < length buf \<Longrightarrow>
   aset (overlay buf off ys) (off + length ys) y = Some (overlay buf off (ys @ [y]))"
  by (simp add: overlay_snoc array_simps)

lemma build_filename_spec:
  assumes "0 \<notin> set cs" and "length (filename_of cs pid) < length filename"
  shows "build_filename filename pid (cs @ [0]) = Some (overlay filename 0 (filename_of cs pid @ [0]))"
proof -
  let ?ds = "decimal (unat pid)"
  have len: "length ?ds \<le> 10" by (rule length_decimal_u32)
  have fits: "length cs + length ?ds + 4 < length filename" using assms(2) by (simp add: filename_of_def)
  let ?str = "overlay (replicate 12 0) 0 (?ds @ [0])"
  have "copy_prefix filename (cs @ [0]) 0 = Some (overlay filename 0 cs, length cs)"
    using copy_prefix_spec [of 0 cs filename] assms(1) fits by simp
  moreover have "int_to_str pid (replicate 12 0) 0 = Some (length ?ds, ?str)"
    using len int_to_str_spec [of 0 pid "replicate 12 0"] by simp
  moreover have "take (length ?ds) ?str = ?ds" by (simp add: overlay_def)
  then have "copy_digits (overlay filename 0 cs) (length cs) ?str 0 (length ?ds) =
      Some (overlay filename 0 (cs @ ?ds), length cs + length ?ds)"
    using fits len copy_digits_spec [of 0 "length ?ds" ?str "length cs" "overlay filename 0 cs"]
      overlay_overlay_append [of 0 cs ?ds filename] by simp
  moreover have put: "aset (overlay filename 0 (cs @ ?ds @ ys)) k y =
      Some (overlay filename 0 (cs @ ?ds @ ys @ [y]))"
    if "k = length cs + length ?ds + length ys" and "length ys < 5" for ys k y
    using overlay_grow [of 0 "cs @ ?ds @ ys" filename y] fits that by (simp add: ac_simps)
  ultimately show ?thesis
    using put [of _ "[]" 46]
    by (simp add: build_filename_def filename_of_def put [of _ "[46]", simplified]
        put [of _ "[46, 116]", simplified] put [of _ "[46, 116, 120]", simplified]
        put [of _ "[46, 116, 120, 116]", simplified])
qed

lemma decimal_value:
  "foldl (\<lambda>v c. v * 10 + (unat (c :: byte) - 48)) 0 (decimal n) = n"
proof (induction n rule: decimal.induct)
  case (1 n)
  have digit: "unat (48 + of_nat d :: byte) = 48 + d" if "d < 10" for d :: nat
  proof -
    from that have "d \<in> {0,1,2,3,4,5,6,7,8,9}" by auto
    then show ?thesis by auto
  qed
  show ?case
    by (cases "n < 10") (simp_all add: decimal.simps [of n] digit 1)
qed

lemma decimal_inject: "decimal m = decimal n \<Longrightarrow> m = n"
  by (metis decimal_value)

lemma filename_of_inject:
  assumes "filename_of cs p = filename_of cs q"
  shows "p = q"
proof -
  from assms have "decimal (unat p) = decimal (unat q)" by (simp add: filename_of_def)
  then show ?thesis by (auto dest: decimal_inject simp: word_unat_eq_iff)
qed

section \<open>Lemmas: parsing\<close>

text \<open>The value a digit string denotes, as the \<open>int\<close> the parser computes (modulo \<open>2 ^ 32\<close>).\<close>

definition digits_value :: "byte list \<Rightarrow> u32 \<Rightarrow> u32" where
  "digits_value ds n = foldl (\<lambda>n c. n * 10 + (ucast c - 48)) n ds"

lemma atoi_loop_run:
  assumes "segment buf off (length ds) = ds" and "off + length ds < length buf"
    and "\<And>c. c \<in> set ds \<Longrightarrow> is_digit c" and "\<not> is_digit (buf ! (off + length ds))"
  shows "atoi_loop buf off n = Some (digits_value ds n)"
  using assms
proof (induction ds arbitrary: off n)
  case Nil
  then show ?case by (auto simp: atoi_loop.simps [of buf off] array_simps digits_value_def is_digit_def)
next
  case (Cons d ds)
  from Cons.prems(2) have off: "off < length buf" by simp
  have d: "buf ! off = d"
    using Cons.prems(1,2) segment_nth [of off "length (d # ds)" buf 0] by simp
  have "segment buf (off + 1) (length ds) = ds"
    using Cons.prems(1) off by (simp add: segment_def Cons_nth_drop_Suc [OF off, symmetric])
  then have "atoi_loop buf (off + 1) (n * 10 + (ucast d - 48)) = Some (digits_value ds (n * 10 + (ucast d - 48)))"
    using Cons.prems by (intro Cons.IH) auto
  moreover have "is_digit d" using Cons.prems(3) by simp
  ultimately show ?case
    using off d by (simp add: atoi_loop.simps [of buf off n] array_simps digits_value_def is_digit_def)
qed

lemma digits_value_append: "digits_value (xs @ ys) n = digits_value ys (digits_value xs n)"
  by (simp add: digits_value_def)

lemma digits_value_decimal: "digits_value (decimal n) 0 = of_nat n"
proof (induction n rule: decimal.induct)
  case (1 n)
  have digit: "(ucast (48 + of_nat d :: byte) :: u32) - 48 = of_nat d" if "d < 10" for d :: nat
  proof -
    from that have "d \<in> {0,1,2,3,4,5,6,7,8,9}" by auto
    then show ?thesis by auto
  qed
  show ?case
  proof (cases "n < 10")
    case True
    then show ?thesis by (simp add: decimal.simps [of n] digits_value_def digit)
  next
    case False
    have "(of_nat n :: u32) = of_nat (n div 10 * 10 + n mod 10)" by simp
    also have "\<dots> = of_nat (n div 10) * 10 + of_nat (n mod 10)"
      unfolding of_nat_add of_nat_mult by simp
    finally show ?thesis
      using False 1 by (simp add: decimal.simps [of n] digits_value_append)
        (simp add: digits_value_def digit)
  qed
qed

text \<open>A decimal field of a text, followed by something that is not a digit.\<close>

definition field_at :: "byte list \<Rightarrow> nat \<Rightarrow> u32 \<Rightarrow> bool" where
  "field_at buf off x \<longleftrightarrow> off + length (decimal (unat x)) < length buf \<and>
     segment buf off (length (decimal (unat x))) = decimal (unat x) \<and>
     \<not> is_digit (buf ! (off + length (decimal (unat x))))"

lemma custom_atoi_field: "field_at buf off x \<Longrightarrow> custom_atoi buf off = Some x"
  unfolding custom_atoi_def field_at_def
  by (subst atoi_loop_run [of buf off "decimal (unat x)"])
    (auto simp: decimal_digits digits_value_decimal)

lemma skip_to_space_run:
  assumes "segment buf off (length ds) = ds" and "off + length ds < length buf"
    and "\<And>c. c \<in> set ds \<Longrightarrow> is_digit c"
    and "buf ! (off + length ds) = 32 \<or> buf ! (off + length ds) = 0"
  shows "skip_to_space buf off = Some (off + length ds)"
  using assms
proof (induction ds arbitrary: off)
  case Nil
  then show ?case by (auto simp: skip_to_space.simps [of buf off] array_simps)
next
  case (Cons d ds)
  from Cons.prems(2) have off: "off < length buf" by simp
  have d: "buf ! off = d"
    using Cons.prems(1,2) segment_nth [of off "length (d # ds)" buf 0] by simp
  have "segment buf (off + 1) (length ds) = ds"
    using Cons.prems(1) off by (simp add: segment_def Cons_nth_drop_Suc [OF off, symmetric])
  then have "skip_to_space buf (off + 1) = Some (off + 1 + length ds)"
    using Cons.prems by (intro Cons.IH) auto
  moreover have "is_digit d" using Cons.prems(3) by simp
  then have "d \<noteq> 32" "d \<noteq> 0" by (auto simp: is_digit_def)
  ultimately show ?case
    using off d by (simp add: skip_to_space.simps [of buf off] array_simps)
qed

lemma skip_field_field:
  assumes "field_at buf off x" and "buf ! (off + length (decimal (unat x))) = 32"
  shows "skip_field buf off = Some (off + length (decimal (unat x)) + 1)"
  using assms skip_to_space_run [of buf off "decimal (unat x)"]
  by (auto simp: skip_field_def field_at_def decimal_digits array_simps)

section \<open>Lemmas: generator and leading zeros\<close>

lemma custom_rand_range: "unat (fst (custom_rand seed)) < 32768"
  by (simp add: custom_rand_def Let_def unat_u32_mod)

lemma leading_zeros_loop_spec:
  assumes "n \<le> length buffer"
  shows "leading_zeros_loop n number buffer =
    Some (map (\<lambda>k. 48 + of_nat (unat number div 10 ^ (n - Suc k) mod 10)) [0..<n] @ drop n buffer)"
  using assms
proof (induction n arbitrary: number buffer)
  case 0
  then show ?case by simp
next
  case (Suc n)
  let ?c = "ucast (48 + number mod 10) :: byte"
  have c: "?c = 48 + of_nat (unat number mod 10)"
    using digit_byte [of "unat number mod 10"] by (simp add: u32_mod_10 [symmetric])
  have "leading_zeros_loop n (number div 10) (buffer[n := ?c]) =
    Some (map (\<lambda>k. 48 + of_nat (unat number div 10 ^ (n - k) mod 10)) [0..<n] @ drop n (buffer[n := ?c]))"
  proof -
    have "unat (number div 10) div 10 ^ (n - Suc k) = unat number div 10 ^ (n - k)" if "k < n" for k
      using that by (simp add: unat_u32_div div_mult2_eq [symmetric] Suc_diff_Suc power_Suc [symmetric] del: power_Suc)
    then have "map (\<lambda>k. 48 + of_nat (unat (number div 10) div 10 ^ (n - Suc k) mod 10)) [0..<n] =
        map (\<lambda>k. 48 + of_nat (unat number div 10 ^ (n - k) mod 10) :: byte) [0..<n]" by simp
    then show ?thesis using Suc.IH [of "buffer[n := ?c]" "number div 10"] Suc.prems by simp
  qed
  moreover have "drop n (buffer[n := ?c]) = ?c # drop (Suc n) buffer"
    using Suc.prems by (simp add: drop_update_swap Cons_nth_drop_Suc [symmetric])
  ultimately show ?case using Suc.prems c by (simp add: array_simps)
qed

section \<open>Fields of a text\<close>

lemma overlay_replace_last:
  "length ys < length buf \<Longrightarrow>
   aset (overlay buf 0 (ys @ [z])) (length ys) c = Some (overlay buf 0 (ys @ [c]))"
  by (simp add: aset_def overlay_def list_update_append)

text \<open>\<open>n += int_to_str(x, buffer + n); buffer[n++] = c\<close> on a buffer that holds \<open>pre\<close>.\<close>

lemma put_number:
  assumes "length pre + length (decimal (unat x)) < length buf"
  shows "int_to_str x (overlay buf 0 pre) (length pre) =
    Some (length (decimal (unat x)), overlay buf 0 (pre @ decimal (unat x) @ [0]))"
  using int_to_str_spec [of "length pre" x "overlay buf 0 pre"] assms
    overlay_overlay_append [of 0 pre "decimal (unat x) @ [0]" buf]
  by simp

lemma put_separator:
  assumes "length pre + length ds < length buf"
  shows "aset (overlay buf 0 (pre @ ds @ [0])) (length pre + length ds) c =
    Some (overlay buf 0 (pre @ ds @ [c]))"
  using overlay_replace_last [of "pre @ ds" buf 0 c] assms by simp

lemma field_at_append:
  "\<not> is_digit c \<Longrightarrow> field_at (xs @ decimal (unat x) @ c # ys) (length xs) x"
  by (simp add: field_at_def segment_def nth_append)

lemma atoi_append:
  "\<not> is_digit c \<Longrightarrow> custom_atoi (xs @ decimal (unat x) @ c # ys) (length xs) = Some x"
  by (rule custom_atoi_field [OF field_at_append])

lemma skip_field_append:
  "skip_field (xs @ decimal (unat (x :: u32)) @ 32 # ys) (length xs) =
    Some (length xs + length (decimal (unat x)) + 1)"
  by (rule skip_field_field [OF field_at_append]) (simp_all add: is_digit_def nth_append)

text \<open>The two facts a reader needs of one field of a text \<open>t\<close>.\<close>

lemma read_number:
  "t = pre @ decimal (unat x) @ c # rest \<Longrightarrow> \<not> is_digit c \<Longrightarrow> custom_atoi t (length pre) = Some x"
  by (metis atoi_append)

lemma skip_number:
  "t = pre @ decimal (unat (x :: u32)) @ 32 # rest \<Longrightarrow>
   skip_field t (length pre) = Some (length (pre @ decimal (unat x) @ [32]))"
  by (simp only: skip_field_append) simp

lemma stats_buffer:
  assumes "length data < n"
  shows "aset (overlay (replicate n 0) 0 data) (length data) 0 = Some (data @ replicate (n - length data) 0)"
  using assms by (simp add: aset_def overlay_def list_update_append) (cases "n - length data"; simp)

section \<open>Properties\<close>

text \<open>\<open>int_to_str\<close> writes the decimal digits of an unsigned number and a terminating zero at the
  given place of the buffer, touches nothing else, and returns the number of digits; no access is out
  of bounds as soon as the digits and the zero fit, for which eleven bytes are always enough.\<close>

theorem int_to_str_correct:
  assumes "off + length (decimal (unat num)) < length str"
  shows "int_to_str num str off =
      Some (length (decimal (unat num)), overlay str off (decimal (unat num) @ [0])) \<and>
    length (decimal (unat num)) \<le> 10"
  using int_to_str_spec [OF assms] length_decimal_u32 by blast

theorem int_to_str_correct_witness:
  "int_to_str 402 (replicate 5 7) 1 = Some (3, [7, 52, 48, 50, 0])"
proof -
  have "1 + length (decimal (unat (402 :: u32))) < length (replicate 5 (7 :: byte))" by code_simp
  moreover have "overlay (replicate 5 7) 1 (decimal (unat (402 :: u32)) @ [0]) = [7, 52, 48, 50, 0]" by code_simp
  moreover have "length (decimal (unat (402 :: u32))) = 3" by code_simp
  ultimately show ?thesis using int_to_str_correct [of 1 402 "replicate 5 7"] by metis
qed

text \<open>\<open>build_filename\<close> puts the prefix, the decimal pid, \<open>.txt\<close> and a zero into the caller's
  buffer without an access out of bounds when the name fits, and the names of different pids differ,
  so the statistics file of one process is never that of another.\<close>

theorem build_filename_names:
  assumes "0 \<notin> set cs" and "length (filename_of cs pid) < length buf" and "pid \<noteq> pid'"
  shows "build_filename buf pid (cs @ [0]) = Some (overlay buf 0 (filename_of cs pid @ [0])) \<and>
    filename_of cs pid \<noteq> filename_of cs pid'"
  using build_filename_spec [OF assms(1,2)] filename_of_inject assms(3) by blast

theorem build_filename_names_witness:
  "build_filename (replicate 8 1) 42 [115, 0] = Some [115, 52, 50, 46, 116, 120, 116, 0]"
proof -
  have "length (filename_of [115] 42) < length (replicate 8 (1 :: byte))" by code_simp
  moreover have "overlay (replicate 8 1) 0 (filename_of [115] 42 @ [0]) = [115, 52, 50, 46, 116, 120, 116, 0]"
    by code_simp
  moreover have "(0 :: byte) \<notin> set [115]" "(42 :: u32) \<noteq> 7" by simp_all
  ultimately show ?thesis
    using build_filename_names [of "[115]" 42 "replicate 8 1" 7] by (metis append_Cons append_Nil)
qed

end
