(* ===== verification/CpuBound.thy ===== *)
theory CpuBound
  imports UserUtils
begin

text \<open>
  The CPU-bound process (\<open>xv6-add_FAIRNESS/user/cpu_bound.c\<close>): a random weighted graph and
  Dijkstra's algorithm on its adjacency matrix. An \<open>int **\<close> matrix is a list of rows, and every
  access is checked. The \<open>int\<close> entries are integers of the 32-bit range and the one sum the program takes of
  them wraps (\<open>int32\<close>), as the generated code does; the lemmas state how large weights may be for this sum to
  be exact. Shortest paths are specified by weighted walks.
\<close>

definition INFTY :: int where "INFTY = 1000000"

text \<open>A sum of two \<open>int\<close> values, cut to 32 bits in two's complement.\<close>

definition int32 :: "int \<Rightarrow> int" where
  "int32 x = signed_take_bit 31 x"

lemma int32_exact: "- 2147483648 \<le> x \<Longrightarrow> x < 2147483648 \<Longrightarrow> int32 x = x"
  unfolding int32_def by (rule signed_take_bit_int_eq_self) simp_all

section \<open>The program\<close>

definition mat_set :: "int list list \<Rightarrow> nat \<Rightarrow> nat \<Rightarrow> int \<Rightarrow> int list list option" where
  "mat_set graph i j x = do {
     row \<leftarrow> aget graph i;
     row \<leftarrow> aset row j x;
     aset graph i row
   }"

definition mat_get :: "int list list \<Rightarrow> nat \<Rightarrow> nat \<Rightarrow> int option" where
  "mat_get graph i j = do { row \<leftarrow> aget graph i; aget row j }"

definition clear_graph :: "nat \<Rightarrow> int list list \<Rightarrow> int list list option" where
  "clear_graph vertices =
     for_loop 0 vertices (\<lambda>i.
       for_loop 0 vertices (\<lambda>j graph.
         if i \<noteq> j then mat_set graph i j INFTY else mat_set graph i j 0))"

definition add_random_edge :: "nat \<Rightarrow> int list list \<times> u32 \<Rightarrow> (int list list \<times> u32) option" where
  "add_random_edge vertices = (\<lambda>(graph, seed). do {
     let (r, seed) = custom_rand seed;
     let u = unat (r mod of_nat vertices);
     let (r, seed) = custom_rand seed;
     let v = unat (r mod of_nat vertices);
     let (r, seed) = custom_rand seed;
     let weight = 1 + int (unat (r mod 20));
     graph \<leftarrow> (if u \<noteq> v then mat_set graph u v weight else Some graph);
     Some (graph, seed)
   })"

definition initialize_random_graph ::
  "int list list \<Rightarrow> nat \<Rightarrow> nat \<Rightarrow> u32 \<Rightarrow> (int list list \<times> u32) option" where
  "initialize_random_graph graph vertices edges seed = do {
     graph \<leftarrow> clear_graph vertices graph;
     for_loop 0 edges (\<lambda>i. add_random_edge vertices) (graph, seed)
   }"

definition min_distance :: "int list \<Rightarrow> int list \<Rightarrow> nat \<Rightarrow> int option" where
  "min_distance dist visited vertices = do {
     (min, min_index) \<leftarrow> for_loop 0 vertices (\<lambda>v (min, min_index). do {
         vis \<leftarrow> aget visited v;
         d \<leftarrow> aget dist v;
         Some (if vis = 0 \<and> d \<le> min then (d, int v) else (min, min_index))
       }) (INFTY, -1);
     Some min_index
   }"

definition relax :: "int list list \<Rightarrow> int list \<Rightarrow> nat \<Rightarrow> nat \<Rightarrow> int list \<Rightarrow> int list option" where
  "relax graph visited u v dist = do {
     vis \<leftarrow> aget visited v;
     w \<leftarrow> mat_get graph u v;
     du \<leftarrow> aget dist u;
     dv \<leftarrow> aget dist v;
     (if vis = 0 \<and> w \<noteq> INFTY \<and> du \<noteq> INFTY \<and> int32 (du + w) < dv
      then aset dist v (int32 (du + w)) else Some dist)
   }"

text \<open>One round; a negative index (\<open>min_distance\<close> found no vertex) would index outside \<open>visited\<close>.\<close>

definition dijkstra_round ::
  "int list list \<Rightarrow> nat \<Rightarrow> int list \<times> int list \<Rightarrow> (int list \<times> int list) option" where
  "dijkstra_round graph vertices = (\<lambda>(dist, visited). do {
     u \<leftarrow> min_distance dist visited vertices;
     (if u < 0 then None
      else do {
        visited \<leftarrow> aset visited (nat u) 1;
        dist \<leftarrow> for_loop 0 vertices (relax graph visited (nat u)) dist;
        Some (dist, visited)
      })
   })"

definition dijkstra ::
  "int list list \<Rightarrow> int list \<Rightarrow> int list \<Rightarrow> nat \<Rightarrow> nat \<Rightarrow> (int list \<times> int list) option" where
  "dijkstra graph dist visited src vertices = do {
     (dist, visited) \<leftarrow> for_loop 0 vertices (\<lambda>i (dist, visited). do {
         dist \<leftarrow> aset dist i INFTY;
         visited \<leftarrow> aset visited i 0;
         Some (dist, visited)
       }) (dist, visited);
     dist \<leftarrow> aset dist src 0;
     for_loop 0 (vertices - 1) (\<lambda>count. dijkstra_round graph vertices) (dist, visited)
   }"

section \<open>Specification\<close>

definition matrix :: "nat \<Rightarrow> int list list \<Rightarrow> bool" where
  "matrix n g \<longleftrightarrow> length g = n \<and> (\<forall>row \<in> set g. length row = n)"

text \<open>A weighted walk along the present edges (those whose entry is not \<open>INFTY\<close>).\<close>

inductive walk :: "int list list \<Rightarrow> nat \<Rightarrow> nat \<Rightarrow> int \<Rightarrow> bool" for g s where
  start: "walk g s s 0"
| step: "walk g s u w \<Longrightarrow> u < length g \<Longrightarrow> v < length g \<Longrightarrow> g ! u ! v \<noteq> INFTY \<Longrightarrow>
    walk g s v (w + g ! u ! v)"

text \<open>Weights for which no sum of \<open>dijkstra\<close> leaves the range of \<open>int\<close>: a distance is at most \<open>INFTY\<close>.\<close>

definition weights :: "int list list \<Rightarrow> bool" where
  "weights g \<longleftrightarrow> (\<forall>row \<in> set g. \<forall>x \<in> set row. 0 \<le> x \<and> x \<le> 2147483647 - INFTY)"

text \<open>What \<open>dijkstra\<close> leaves for the vertex \<open>v\<close>: the length of a shortest walk if there is a walk shorter than
  \<open>INFTY\<close>, and \<open>INFTY\<close> exactly if there is none.\<close>

definition shortest :: "int list list \<Rightarrow> nat \<Rightarrow> nat \<Rightarrow> int \<Rightarrow> bool" where
  "shortest g s v d \<longleftrightarrow> (if \<exists>w < INFTY. walk g s v w then walk g s v d \<and> (\<forall>w. walk g s v w \<longrightarrow> d \<le> w) else d = INFTY)"

lemma shortestI:
  assumes "d \<le> INFTY" "d \<noteq> INFTY \<Longrightarrow> walk g s v d" "\<And>w. walk g s v w \<Longrightarrow> d \<le> w"
  shows "shortest g s v d"
proof (cases "\<exists>w < INFTY. walk g s v w")
  case True
  then have "d \<noteq> INFTY" using assms(3) by fastforce
  then show ?thesis using True assms(2,3) by (simp add: shortest_def)
next
  case False
  then have "d = INFTY" using assms(1,2) by (meson order_le_imp_less_or_eq)
  then show ?thesis using False unfolding shortest_def by (simp only: if_False)
qed

section \<open>Matrix and loop lemmas\<close>

lemma matrix_length: "matrix n g \<Longrightarrow> length g = n"
  by (simp add: matrix_def)

lemma matrix_row: "matrix n g \<Longrightarrow> i < n \<Longrightarrow> length (g ! i) = n"
  by (simp add: matrix_def)

lemma mat_get_in: "matrix n g \<Longrightarrow> i < n \<Longrightarrow> j < n \<Longrightarrow> mat_get g i j = Some (g ! i ! j)"
  by (simp add: mat_get_def array_simps matrix_length matrix_row)

lemma mat_set_in:
  "matrix n g \<Longrightarrow> i < n \<Longrightarrow> j < n \<Longrightarrow> mat_set g i j x = Some (g[i := (g ! i)[j := x]])"
  by (simp add: mat_set_def array_simps matrix_length matrix_row)

lemma matrix_update:
  "matrix n g \<Longrightarrow> i < n \<Longrightarrow> matrix n (g[i := (g ! i)[j := x]])"
  by (auto simp: matrix_def dest!: set_update_subset_insert [THEN subsetD])

lemma matrix_update_nth:
  "matrix n g \<Longrightarrow> i < n \<Longrightarrow> j < n \<Longrightarrow> a < n \<Longrightarrow> b < n \<Longrightarrow>
   g[i := (g ! i)[j := x]] ! a ! b = (if a = i \<and> b = j then x else g ! a ! b)"
  by (auto simp: nth_list_update matrix_length matrix_row)

lemma min_distance_spec:
  assumes "length dist = n" and "length visited = n"
    and "\<And>v. v < n \<Longrightarrow> dist ! v \<le> INFTY" and "\<exists>v < n. visited ! v = 0"
  obtains u where "min_distance dist visited n = Some (int u)" and "u < n" and "visited ! u = 0"
    and "\<And>v. v < n \<Longrightarrow> visited ! v = 0 \<Longrightarrow> dist ! u \<le> dist ! v"
proof -
  let ?body = "\<lambda>v (min, min_index). do {
         vis \<leftarrow> aget visited v; d \<leftarrow> aget dist v;
         Some (if vis = 0 \<and> d \<le> min then (d, int v) else (min, min_index)) }"
  let ?P = "\<lambda>i (min, k). (k = - 1 \<and> min = INFTY \<and> (\<forall>v < i. visited ! v \<noteq> 0)) \<or>
    (\<exists>u < i. k = int u \<and> visited ! u = 0 \<and> min = dist ! u \<and>
       (\<forall>v < i. visited ! v = 0 \<longrightarrow> dist ! u \<le> dist ! v))"
  have step: "\<exists>s'. ?body i s = Some s' \<and> ?P (i + 1) s'" if "i < n" "?P i s" for i s
  proof (cases s)
    case (Pair m k)
    show ?thesis
    proof (cases "visited ! i = 0 \<and> dist ! i \<le> m")
      case True
      then have "?P (i + 1) (dist ! i, int i)"
        using that Pair by (auto simp: less_Suc_eq intro!: exI [of _ i])
      with True Pair that assms(1,2) show ?thesis by (simp add: array_simps)
    next
      case False
      then have "?P (i + 1) (m, k)"
        using that Pair assms(3) [of i] by (force simp: less_Suc_eq)
      with False Pair that assms(1,2) show ?thesis by (auto simp add: array_simps)
    qed
  qed
  have "\<exists>s'. for_loop 0 n ?body (INFTY, - 1) = Some s' \<and> ?P n s'"
    by (rule for_loop_rule [where P = ?P]) (use step in auto)
  then obtain m k where run: "for_loop 0 n ?body (INFTY, - 1) = Some (m, k)" and P: "?P n (m, k)"
    by auto
  from P assms(4) obtain u where u: "u < n" "k = int u" "visited ! u = 0"
    "\<And>v. v < n \<Longrightarrow> visited ! v = 0 \<Longrightarrow> dist ! u \<le> dist ! v"
    by auto
  from run u(2) have "min_distance dist visited n = Some (int u)"
    by (simp add: min_distance_def)
  with u that show thesis by blast
qed

section \<open>The relaxation loop\<close>

lemma weights_nth: "weights g \<Longrightarrow> matrix n g \<Longrightarrow> u < n \<Longrightarrow> v < n \<Longrightarrow> 0 \<le> g ! u ! v \<and> g ! u ! v \<le> 2147483647 - INFTY"
  unfolding weights_def by (metis matrix_length matrix_row nth_mem)

lemma sum_exact:
  assumes "weights g" "matrix n g" "u < n" "v < n" "0 \<le> d" "d \<le> INFTY"
  shows "int32 (d + g ! u ! v) = d + g ! u ! v"
  using weights_nth [OF assms(1-4)] assms(5,6) by (intro int32_exact) (simp_all add: INFTY_def)

definition relaxed :: "int list list \<Rightarrow> int list \<Rightarrow> int list \<Rightarrow> nat \<Rightarrow> nat \<Rightarrow> int" where
  "relaxed g visited dist u v =
     (if visited ! v = 0 \<and> g ! u ! v \<noteq> INFTY \<and> dist ! u \<noteq> INFTY \<and> dist ! u + g ! u ! v < dist ! v
      then dist ! u + g ! u ! v else dist ! v)"

lemma relax_loop:
  assumes g: "matrix n g" "weights g" and len: "length visited = n" "length dist = n"
    and u: "u < n" "visited ! u \<noteq> 0" "0 \<le> dist ! u" "dist ! u \<le> INFTY"
  obtains dist' where "for_loop 0 n (relax g visited u) dist = Some dist'"
    and "length dist' = n" and "\<And>v. v < n \<Longrightarrow> dist' ! v = relaxed g visited dist u v"
proof -
  let ?P = "\<lambda>i d. length d = n \<and> (\<forall>v < n. d ! v = (if v < i then relaxed g visited dist u v else dist ! v))"
  have step: "\<exists>d'. relax g visited u i d = Some d' \<and> ?P (i + 1) d'" if "i < n" "?P i d" for i d
  proof -
    have du: "d ! u = dist ! u" using that u(1,2) by (simp add: relaxed_def)
    have di: "d ! i = dist ! i" using that by simp
    have r: "relax g visited u i d = Some (if relaxed g visited dist u i = dist ! i then d
        else d[i := relaxed g visited dist u i])"
      using that len u(1,2) du di sum_exact [OF g(2,1) u(1) that(1) u(3,4)]
      by (auto simp: relax_def array_simps mat_get_in [OF g(1)] relaxed_def)
    show ?thesis
    proof (intro exI conjI)
      show "relax g visited u i d = Some (if relaxed g visited dist u i = dist ! i then d
        else d[i := relaxed g visited dist u i])" by (rule r)
    qed (use that in \<open>auto simp: less_Suc_eq nth_list_update\<close>)
  qed
  have "\<exists>d'. for_loop 0 n (relax g visited u) dist = Some d' \<and> ?P n d'"
    by (rule for_loop_rule [where P = ?P]) (use step len in auto)
  with that show thesis by auto
qed

section \<open>The invariant of Dijkstra's algorithm\<close>

definition dijkstra_inv :: "int list list \<Rightarrow> nat \<Rightarrow> nat \<Rightarrow> nat \<Rightarrow> int list \<times> int list \<Rightarrow> bool" where
  "dijkstra_inv g n s count = (\<lambda>(dist, visited).
     length dist = n \<and> length visited = n \<and>
     (\<forall>v < n. 0 \<le> dist ! v \<and> dist ! v \<le> INFTY) \<and> dist ! s = 0 \<and>
     (\<forall>v < n. dist ! v \<noteq> INFTY \<longrightarrow> walk g s v (dist ! v)) \<and>
     (\<forall>u < n. \<forall>v < n. visited ! u \<noteq> 0 \<and> dist ! u \<noteq> INFTY \<and> g ! u ! v \<noteq> INFTY \<longrightarrow>
        dist ! v \<le> dist ! u + g ! u ! v) \<and>
     (\<forall>u < n. \<forall>v < n. visited ! u \<noteq> 0 \<and> visited ! v = 0 \<longrightarrow> dist ! u \<le> dist ! v) \<and>
     card {v. v < n \<and> visited ! v \<noteq> 0} = count)"

lemma dijkstra_round_inv:
  assumes g: "matrix n g" "weights g" and s: "s < n"
    and inv: "dijkstra_inv g n s count st" and count: "count < n"
  shows "\<exists>st'. dijkstra_round g n st = Some st' \<and> dijkstra_inv g n s (count + 1) st'"
proof (cases st)
  case (Pair dist visited)
  have len: "length dist = n" "length visited = n"
    and range: "\<And>v. v < n \<Longrightarrow> 0 \<le> dist ! v" "\<And>v. v < n \<Longrightarrow> dist ! v \<le> INFTY"
    and src: "dist ! s = 0"
    and walks: "\<And>v. v < n \<Longrightarrow> dist ! v \<noteq> INFTY \<Longrightarrow> walk g s v (dist ! v)"
    and closed: "\<And>u v. u < n \<Longrightarrow> v < n \<Longrightarrow> visited ! u \<noteq> 0 \<Longrightarrow> dist ! u \<noteq> INFTY \<Longrightarrow>
        g ! u ! v \<noteq> INFTY \<Longrightarrow> dist ! v \<le> dist ! u + g ! u ! v"
    and front: "\<And>u v. u < n \<Longrightarrow> v < n \<Longrightarrow> visited ! u \<noteq> 0 \<Longrightarrow> visited ! v = 0 \<Longrightarrow> dist ! u \<le> dist ! v"
    and card: "card {v. v < n \<and> visited ! v \<noteq> 0} = count"
    using inv Pair by (auto simp: dijkstra_inv_def)
  have "\<exists>v < n. visited ! v = 0"
  proof (rule ccontr)
    assume "\<not> (\<exists>v < n. visited ! v = 0)"
    then have "{v. v < n \<and> visited ! v \<noteq> 0} = {..<n}" by auto
    with card count show False by simp
  qed
  from min_distance_spec [OF len range(2) this] obtain u where
    min: "min_distance dist visited n = Some (int u)" and u: "u < n" "visited ! u = 0"
    and least: "\<And>v. v < n \<Longrightarrow> visited ! v = 0 \<Longrightarrow> dist ! u \<le> dist ! v" by blast
  let ?vis = "visited[u := 1]"
  have vis: "?vis ! v \<noteq> 0 \<longleftrightarrow> v = u \<or> visited ! v \<noteq> 0" if "v < n" for v
    using that u len by (auto simp: nth_list_update)
  from relax_loop [of n g ?vis dist u] g len u range [OF u(1)] obtain dist' where
    loop: "for_loop 0 n (relax g ?vis u) dist = Some dist'" and len': "length dist' = n"
    and dist': "\<And>v. v < n \<Longrightarrow> dist' ! v = relaxed g ?vis dist u v" by auto
  have nn: "\<And>a b. a < n \<Longrightarrow> b < n \<Longrightarrow> 0 \<le> g ! a ! b" using weights_nth [OF g(2) g(1)] by blast
  have dist'_u: "dist' ! u = dist ! u" using dist' [OF u(1)] vis [OF u(1)] by (simp add: relaxed_def)
  have old: "dist' ! v = dist ! v" if "v < n" "?vis ! v \<noteq> 0" for v
    using dist' [OF that(1)] that(2) by (simp add: relaxed_def)
  have le: "dist' ! v \<le> dist ! v" if "v < n" for v
    using dist' [OF that] by (auto simp: relaxed_def)
  have ge: "min (dist ! v) (dist ! u) \<le> dist' ! v" if "v < n" for v
    using dist' [OF that] nn [OF u(1) that] by (auto simp: relaxed_def)
  have "dijkstra_inv g n s (count + 1) (dist', ?vis)"
    unfolding dijkstra_inv_def split
  proof (intro conjI allI impI)
    fix v assume v: "v < n"
    show "0 \<le> dist' ! v" using ge [OF v] range(1) [OF v] range(1) [OF u(1)] by linarith
    show "dist' ! v \<le> INFTY" using le [OF v] range(2) [OF v] by linarith
    assume fin: "dist' ! v \<noteq> INFTY"
    show "walk g s v (dist' ! v)"
    proof (cases "dist' ! v = dist ! v")
      case True
      with fin walks [OF v] show ?thesis by simp
    next
      case False
      with dist' [OF v] have "g ! u ! v \<noteq> INFTY" "dist ! u \<noteq> INFTY" "dist' ! v = dist ! u + g ! u ! v"
        by (auto simp: relaxed_def split: if_splits)
      with walks [OF u(1)] u v matrix_length [OF g(1)] show ?thesis
        using walk.step [of g s u "dist ! u" v] by simp
    qed
  next
    show "dist' ! s = 0" using le [OF s] ge [OF s] src range(1) [OF u(1)] by linarith
  next
    fix a b assume ab: "a < n" "b < n"
      and h: "?vis ! a \<noteq> 0 \<and> dist' ! a \<noteq> INFTY \<and> g ! a ! b \<noteq> INFTY"
    have a: "dist' ! a = dist ! a" using old ab h by blast
    show "dist' ! b \<le> dist' ! a + g ! a ! b"
    proof (cases "a = u")
      case False
      with vis [OF ab(1)] h have "visited ! a \<noteq> 0" by blast
      with closed [OF ab] h a le [OF ab(2)] show ?thesis by simp
    next
      case True
      show ?thesis
      proof (cases "?vis ! b = 0")
        case True
        with dist' [OF ab(2)] h a \<open>a = u\<close> show ?thesis by (auto simp: relaxed_def)
      next
        case False
        with vis [OF ab(2)] have "b = u \<or> visited ! b \<noteq> 0" by blast
        then have "dist ! b \<le> dist ! u" using front [OF ab(2) u(1) _ u(2)] by auto
        with old [OF ab(2) False] a \<open>a = u\<close> nn [OF ab] show ?thesis by simp
      qed
    qed
  next
    fix a b assume ab: "a < n" "b < n" and h: "?vis ! a \<noteq> 0 \<and> ?vis ! b = 0"
    from h vis [OF ab(2)] have b: "b \<noteq> u" "visited ! b = 0" by auto
    from h vis [OF ab(1)] have "a = u \<or> visited ! a \<noteq> 0" by blast
    then have "dist ! a \<le> dist ! u" using front [OF ab(1) u(1) _ u(2)] by auto
    moreover have "dist ! u \<le> dist ! b" using least [OF ab(2) b(2)] .
    moreover have "dist' ! a = dist ! a" using old [OF ab(1)] h by blast
    ultimately show "dist' ! a \<le> dist' ! b" using ge [OF ab(2)] by linarith
  next
    have "{v. v < n \<and> ?vis ! v \<noteq> 0} = insert u {v. v < n \<and> visited ! v \<noteq> 0}"
      using vis u(1) by auto
    then show "card {v. v < n \<and> ?vis ! v \<noteq> 0} = count + 1" using u card by simp
  qed (use len len' in simp_all)
  moreover have "dijkstra_round g n st = Some (dist', ?vis)"
    using Pair min u len loop by (simp add: dijkstra_round_def array_simps)
  ultimately show ?thesis by blast
qed

lemma dijkstra_init:
  fixes dist visited :: "int list"
  assumes "length dist = n" and "length visited = n"
  shows "\<exists>st. for_loop 0 n (\<lambda>i (dist, visited). do {
         dist \<leftarrow> aset dist i INFTY; visited \<leftarrow> aset visited i 0; Some (dist, visited) }) (dist, visited)
       = Some st \<and> st = (replicate n INFTY, replicate n 0)"
proof -
  let ?body = "\<lambda>i (dist, visited). do {
         dist \<leftarrow> aset dist i INFTY; visited \<leftarrow> aset visited i (0::int); Some (dist, visited) }"
  let ?P = "\<lambda>i (d, v). length d = n \<and> length v = n \<and> (\<forall>k < i. d ! k = INFTY \<and> v ! k = 0)"
  have "\<exists>st. for_loop 0 n ?body (dist, visited) = Some st \<and> ?P n st"
    by (rule for_loop_rule [where P = ?P])
      (use assms in \<open>auto simp: array_simps nth_list_update less_Suc_eq\<close>)
  moreover have "st = (replicate n INFTY, replicate n 0)" if "?P n st" for st
    using that by (auto intro!: nth_equalityI)
  ultimately show ?thesis by blast
qed

lemma dijkstra_final:
  assumes g: "matrix n g" "weights g" and s: "s < n" and inv: "dijkstra_inv g n s (n - 1) (dist, visited)"
    and walk: "walk g s v w" and v: "v < n"
  shows "dist ! v \<le> w"
proof -
  have range: "\<And>v. v < n \<Longrightarrow> dist ! v \<le> INFTY" and src: "dist ! s = 0"
    and closed: "\<And>u v. u < n \<Longrightarrow> v < n \<Longrightarrow> visited ! u \<noteq> 0 \<Longrightarrow> dist ! u \<noteq> INFTY \<Longrightarrow>
        g ! u ! v \<noteq> INFTY \<Longrightarrow> dist ! v \<le> dist ! u + g ! u ! v"
    and front: "\<And>u v. u < n \<Longrightarrow> v < n \<Longrightarrow> visited ! u \<noteq> 0 \<Longrightarrow> visited ! v = 0 \<Longrightarrow> dist ! u \<le> dist ! v"
    and card: "card {v. v < n \<and> visited ! v \<noteq> 0} = n - 1"
    using inv by (auto simp: dijkstra_inv_def)
  have nn: "\<And>a b. a < n \<Longrightarrow> b < n \<Longrightarrow> 0 \<le> g ! a ! b" using weights_nth [OF g(2) g(1)] by blast
  have one_left: "a = b" if "a < n" "b < n" "visited ! a = 0" "visited ! b = 0" for a b
  proof (rule ccontr)
    assume "a \<noteq> b"
    have "{v. v < n \<and> visited ! v \<noteq> 0} \<subseteq> {..<n} - {a, b}" using that by auto
    then have "card {v. v < n \<and> visited ! v \<noteq> 0} \<le> card ({..<n} - {a, b})" by (intro card_mono) auto
    also have "\<dots> = n - 2" using that \<open>a \<noteq> b\<close> by (simp add: card_Diff_subset)
    finally show False using card that \<open>a \<noteq> b\<close> by simp
  qed
  have closed': "dist ! b \<le> dist ! a + g ! a ! b"
    if ab: "a < n" "b < n" and h: "dist ! a \<noteq> INFTY" "g ! a ! b \<noteq> INFTY" for a b
  proof (cases "visited ! a = 0")
    case False with closed ab h show ?thesis by blast
  next
    case True
    then have "dist ! b \<le> dist ! a" using front [OF ab(2,1)] one_left [OF ab] by (cases "visited ! b = 0") auto
    with nn [OF ab] show ?thesis by simp
  qed
  show ?thesis
    using walk v
  proof (induction rule: walk.induct)
    case start
    then show ?case using src by simp
  next
    case (step u w v)
    have uv: "u < n" "v < n" using step.hyps(2,3) matrix_length [OF g(1)] by auto
    show ?case
    proof (cases "dist ! u = INFTY")
      case True
      with step.IH [OF uv(1)] range [OF uv(2)] nn [OF uv] show ?thesis by linarith
    next
      case False
      with closed' [OF uv False step.hyps(4)] step.IH [OF uv(1)] show ?thesis by linarith
    qed
  qed
qed

lemma dijkstra_shortest_aux:
  assumes g: "matrix n g" "weights g" and s: "s < n"
    and len: "length dist = n" "length visited = n"
  shows "\<exists>dist' visited'. dijkstra g dist visited s n = Some (dist', visited') \<and> length dist' = n \<and>
    (\<forall>v < n. shortest g s v (dist' ! v))"
proof -
  let ?st0 = "((replicate n INFTY)[s := 0], replicate n 0 :: int list)"
  have "\<exists>st. for_loop 0 (n - 1) (\<lambda>count. dijkstra_round g n) ?st0 = Some st \<and> dijkstra_inv g n s (n - 1) st"
  proof (rule for_loop_rule [where P = "\<lambda>i. dijkstra_inv g n s i"])
    show "dijkstra_inv g n s 0 ?st0"
      using s by (auto simp: dijkstra_inv_def nth_list_update INFTY_def intro: walk.start)
  qed (use dijkstra_round_inv [OF g s] in auto)
  then obtain d v where loop: "for_loop 0 (n - 1) (\<lambda>count. dijkstra_round g n) ?st0 = Some (d, v)"
    and inv: "dijkstra_inv g n s (n - 1) (d, v)" by auto
  have "dijkstra g dist visited s n = Some (d, v)"
    using dijkstra_init [OF len] loop s by (simp add: dijkstra_def array_simps)
  moreover have w: "\<forall>v < n. d ! v \<le> INFTY \<and> (d ! v \<noteq> INFTY \<longrightarrow> walk g s v (d ! v))"
    and "length d = n" using inv by (auto simp: dijkstra_inv_def)
  moreover have "shortest g s v (d ! v)" if v: "v < n" for v
  proof (rule shortestI)
    show "d ! v \<le> INFTY" "d ! v \<noteq> INFTY \<Longrightarrow> walk g s v (d ! v)" using w v by blast+
    show "d ! v \<le> x" if "walk g s v x" for x by (rule dijkstra_final [OF g s inv that v])
  qed
  ultimately show ?thesis by blast
qed

section \<open>The random graph\<close>

definition entry_ok :: "nat \<Rightarrow> nat \<Rightarrow> int \<Rightarrow> bool" where
  "entry_ok i j x \<longleftrightarrow> (if i = j then x = 0 else 1 \<le> x \<and> x \<le> 20 \<or> x = INFTY)"

definition graph_entries :: "nat \<Rightarrow> int list list \<Rightarrow> bool" where
  "graph_entries n g \<longleftrightarrow> matrix n g \<and> (\<forall>i < n. \<forall>j < n. entry_ok i j (g ! i ! j))"

lemma graph_entries_weights:
  assumes "graph_entries n g"
  shows "weights g"
proof -
  have m: "matrix n g" using assms by (simp add: graph_entries_def)
  have "0 \<le> g ! i ! j \<and> g ! i ! j \<le> 2147483647 - INFTY" if "i < n" "j < n" for i j
    using assms that by (fastforce simp: graph_entries_def entry_ok_def INFTY_def split: if_splits)
  then show ?thesis
    unfolding weights_def by (auto simp: in_set_conv_nth matrix_length [OF m] matrix_row [OF m])
qed

lemma clear_graph_spec:
  assumes "matrix n g"
  shows "\<exists>g'. clear_graph n g = Some g' \<and> matrix n g' \<and>
    (\<forall>a < n. \<forall>b < n. g' ! a ! b = (if a = b then 0 else INFTY))"
proof -
  let ?cell = "\<lambda>a b. if a = b then 0 else INFTY"
  let ?P = "\<lambda>i h. matrix n h \<and> (\<forall>a < i. \<forall>b < n. h ! a ! b = ?cell a b)"
  let ?row = "\<lambda>i j h. if i \<noteq> j then mat_set h i j INFTY else mat_set h i j 0"
  have row: "\<exists>h'. for_loop 0 n (?row i) h = Some h' \<and> ?P (i + 1) h'" if i: "i < n" and P: "?P i h" for i h
  proof -
    let ?Q = "\<lambda>j h. ?P i h \<and> (\<forall>b < j. h ! i ! b = ?cell i b)"
    have "\<exists>h'. for_loop 0 n (?row i) h = Some h' \<and> ?Q n h'"
    proof (rule for_loop_rule [where P = ?Q])
      fix j h assume j: "j < n" and Q: "?Q j h"
      have "?row i j h = Some (h[i := (h ! i)[j := ?cell i j]])"
        using mat_set_in [of n h i j] Q i j by (cases "i = j") simp_all
      moreover have "?Q (j + 1) (h[i := (h ! i)[j := ?cell i j]])"
        using Q i j by (auto simp: matrix_update matrix_update_nth less_Suc_eq)
      ultimately show "\<exists>h'. ?row i j h = Some h' \<and> ?Q (j + 1) h'" by blast
    qed (use P in auto)
    then show ?thesis by (auto simp: less_Suc_eq)
  qed
  have "\<exists>g'. for_loop 0 n (\<lambda>i. for_loop 0 n (?row i)) g = Some g' \<and> ?P n g'"
    by (rule for_loop_rule [where P = ?P]) (use assms row in auto)
  then show ?thesis by (auto simp: clear_graph_def)
qed

lemma add_random_edge_entries:
  assumes "graph_entries n g" and "0 < n" and "n < 2 ^ 32"
  shows "\<exists>g' seed'. add_random_edge n (g, seed) = Some (g', seed') \<and> graph_entries n g'"
proof -
  obtain r1 s1 where r1: "custom_rand seed = (r1, s1)" by force
  obtain r2 s2 where r2: "custom_rand s1 = (r2, s2)" by force
  obtain r3 s3 where r3: "custom_rand s2 = (r3, s3)" by force
  let ?u = "unat (r1 mod of_nat n)" and ?v = "unat (r2 mod of_nat n)"
  let ?w = "1 + int (unat (r3 mod 20))"
  have uv: "?u < n" "?v < n" using assms(2,3) by (simp_all add: unat_u32_mod unat_of_nat_u32)
  have "unat (r3 mod 20) < 20" by (simp add: unat_u32_mod)
  then have w: "1 \<le> ?w \<and> ?w \<le> 20" by linarith
  have m: "matrix n g" using assms(1) by (simp add: graph_entries_def)
  show ?thesis
  proof (cases "?u = ?v")
    case True
    then show ?thesis using assms(1) r1 r2 r3 by (simp add: add_random_edge_def Let_def)
  next
    case False
    let ?g = "g[?u := (g ! ?u)[?v := ?w]]"
    have "entry_ok ?u ?v ?w" using w False unfolding entry_ok_def by simp
    moreover have "\<forall>i < n. \<forall>j < n. entry_ok i j (g ! i ! j)"
      using assms(1) by (simp add: graph_entries_def)
    ultimately have "graph_entries n ?g"
      using m uv unfolding graph_entries_def by (simp add: matrix_update matrix_update_nth)
    then show ?thesis
      using r1 r2 r3 False mat_set_in [OF m uv] by (simp add: add_random_edge_def Let_def)
  qed
qed

lemma initialize_random_graph_entries:
  assumes "matrix n g" and "0 < n" and "n < 2 ^ 32"
  shows "\<exists>g' seed'. initialize_random_graph g n edges seed = Some (g', seed') \<and> graph_entries n g'"
proof -
  from clear_graph_spec [OF assms(1)] obtain g0 where g0: "clear_graph n g = Some g0" "graph_entries n g0"
    by (auto simp: graph_entries_def entry_ok_def)
  have "\<exists>st. for_loop 0 edges (\<lambda>i. add_random_edge n) (g0, seed) = Some st \<and> graph_entries n (fst st)"
  proof (rule for_loop_rule [where P = "\<lambda>i st. graph_entries n (fst st)"])
    fix i :: nat and st :: "int list list \<times> u32" assume "graph_entries n (fst st)"
    with add_random_edge_entries [OF this assms(2,3), of "snd st"]
    show "\<exists>s'. add_random_edge n st = Some s' \<and> graph_entries n (fst s')" by auto
  qed (use g0 in auto)
  with g0 show ?thesis by (auto simp: initialize_random_graph_def)
qed

section \<open>generate_and_solve_graph\<close>

text \<open>
  \<open>ok k\<close> says whether the \<open>k\<close>-th \<open>malloc\<close> of the call succeeds (0: the row table, \<open>1 .. n\<close>: the
  rows, then \<open>dist\<close> and \<open>visited\<close>) and \<open>t0 .. t3\<close> are the four \<open>uptime\<close> results. The row table is
  written before any result is tested, and the rows are never tested: a null table or a null row is
  dereferenced, which is \<open>None\<close>. The first component says whether the error message was printed.
\<close>

definition generate_and_solve_graph ::
  "(nat \<Rightarrow> bool) \<Rightarrow> u32 \<times> u32 \<times> u32 \<times> u32 \<Rightarrow> u32 \<Rightarrow> u32 \<Rightarrow> u32 \<Rightarrow>
   (bool \<times> int list \<times> u32 \<times> u32 \<times> u32) option" where
  "generate_and_solve_graph ok = (\<lambda>(t0, t1, t2, t3) total_alloc_time total_free_time seed. do {
     let (r, seed) = custom_rand seed;
     let vertices = 100 + unat (r mod 100);
     let (r, seed) = custom_rand seed;
     let edges = 50 + unat (r mod 350);
     _ \<leftarrow> (if ok 0 then Some () else None);
     let total_alloc_time = total_alloc_time + (t1 - t0);
     (if \<not> ok (vertices + 1) \<or> \<not> ok (vertices + 2)
      then Some (True, [], total_alloc_time, total_free_time, seed)
      else do {
        _ \<leftarrow> (if \<forall>i \<in> set [1..<vertices + 1]. ok i then Some () else None);
        (graph, seed) \<leftarrow>
          initialize_random_graph (replicate vertices (replicate vertices 0)) vertices edges seed;
        let (r, seed) = custom_rand seed;
        let src = unat (r mod of_nat vertices);
        (dist, visited) \<leftarrow> dijkstra graph (replicate vertices 0) (replicate vertices 0) src vertices;
        let total_free_time = total_free_time + (t3 - t2);
        Some (False, dist, total_alloc_time, total_free_time, seed)
      })
   })"

definition write_mem_stats :: "u32 \<Rightarrow> u32 \<Rightarrow> byte list option" where
  "write_mem_stats total_alloc_time total_free_time = do {
     let buffer = replicate 100 0;
     (k, buffer) \<leftarrow> int_to_str total_alloc_time buffer 0;
     let n = k;
     buffer \<leftarrow> aset buffer n 32;
     let n = n + 1;
     (k, buffer) \<leftarrow> int_to_str total_free_time buffer n;
     let n = n + k;
     buffer \<leftarrow> aset buffer n 10;
     let n = n + 1;
     Some (take n buffer)
   }"

lemma write_mem_stats_spec:
  "write_mem_stats a f = Some (decimal (unat a) @ [32] @ decimal (unat f) @ [10])"
proof -
  let ?a = "decimal (unat a)" and ?f = "decimal (unat f)" and ?b = "replicate 100 (0 :: byte)"
  have len: "length ?a \<le> 10" "length ?f \<le> 10" by (rule length_decimal_u32)+
  then show ?thesis
    using put_number [of "[]" a ?b] put_separator [of "[]" ?a ?b 32]
      put_number [of "?a @ [32]" f ?b] put_separator [of "?a @ [32]" ?f ?b 10]
    by (simp add: write_mem_stats_def Let_def) (simp add: overlay_def)
qed

lemma mem_stats_roundtrip:
  assumes "write_mem_stats a f = Some bytes"
  shows "read_mem_stats (Some bytes) old = Some (a, f)"
proof -
  let ?a = "decimal (unat a)" and ?f = "decimal (unat f)"
  have bytes: "bytes = ?a @ 32 # ?f @ [10]" using assms write_mem_stats_spec by simp
  have len: "length bytes \<le> 22"
    using length_decimal_u32 [of a] length_decimal_u32 [of f] bytes by simp
  let ?buf = "bytes @ replicate (100 - length bytes) 0"
  have "custom_atoi ?buf 0 = Some a"
    using atoi_append [of 32 "[]" a "?f @ 10 # replicate (100 - length bytes) 0"] bytes by (simp add: is_digit_def)
  moreover have "skip_field ?buf 0 = Some (length ?a + 1)"
    using skip_field_append [of "[]" a "?f @ 10 # replicate (100 - length bytes) 0"] bytes by simp
  moreover have "custom_atoi ?buf (length ?a + 1) = Some f"
    using atoi_append [of 10 "?a @ [32]" f "replicate (100 - length bytes) 0"] bytes by (simp add: is_digit_def)
  moreover have "bytes \<noteq> []" using bytes by simp
  moreover have "aset (overlay (replicate 100 0) 0 bytes) (length bytes) 0 = Some ?buf"
    by (rule stats_buffer) (use len in simp)
  ultimately show ?thesis using len by (simp add: read_mem_stats_def Let_def)
qed

section \<open>Properties\<close>

text \<open>The bound on the weights is needed: here the sum at vertex 1 wraps and vertex 2, at distance 2147483648,
  gets a negative distance.\<close>

lemma weights_bound_needed:
  "dijkstra [[0, 1, INFTY], [INFTY, 0, 2147483647], [INFTY, INFTY, 0]] [0, 0, 0] [0, 0, 0] 0 3 = Some ([0, 1, -2147483648], [1, 1, 0])"
  by code_simp

text \<open>C23: on every graph with weights from 0 to the largest \<open>int\<close> less \<open>INF\<close>, \<open>dijkstra\<close> returns, and the
  distance it leaves for a vertex is the length of a shortest walk from the source when there is a walk shorter
  than \<open>INF\<close>, and \<open>INF\<close> when there is none.\<close>

theorem dijkstra_shortest:
  assumes "matrix n g" "weights g" "s < n" "length dist = n" "length visited = n"
  shows "\<exists>dist' visited'. dijkstra g dist visited s n = Some (dist', visited') \<and> length dist' = n \<and>
    (\<forall>v < n. if \<exists>w < INFTY. walk g s v w
       then walk g s v (dist' ! v) \<and> (\<forall>w. walk g s v w \<longrightarrow> dist' ! v \<le> w) else dist' ! v = INFTY)"
  using dijkstra_shortest_aux [OF assms] unfolding shortest_def .

theorem dijkstra_shortest_witness:
  "\<exists>dist' visited'. dijkstra [[0, 7, 2], [INFTY, 0, 1], [INFTY, 3, 0]] [0, 0, 0] [0, 0, 0] 0 3 =
      Some (dist', visited') \<and> length dist' = 3 \<and> dist' ! 1 \<le> 5"
proof -
  let ?g = "[[0, 7, 2], [INFTY, 0, 1], [INFTY, 3, 0]]"
  have "walk ?g 0 1 (0 + ?g ! 0 ! 2 + ?g ! 2 ! 1)"
    by (intro walk.step walk.start) (simp_all add: INFTY_def)
  then have w: "walk ?g 0 1 5" by (simp add: numeral_eq_Suc)
  have i: "5 < INFTY" by (simp add: INFTY_def)
  have "matrix 3 ?g" "weights ?g" by (simp_all add: matrix_def weights_def INFTY_def)
  moreover have "(0 :: nat) < 3" "(1 :: nat) < 3" "length [0, 0, 0 :: int] = 3" by simp_all
  ultimately show ?thesis using dijkstra_shortest [of 3 ?g 0 "[0, 0, 0]" "[0, 0, 0]"] w i by metis
qed

text \<open>C25: when every \<open>malloc\<close> succeeds, \<open>generate_and_solve_graph\<close> returns for every seed: the first two
  random numbers choose 100 to 199 vertices and 50 to 399 edges, \<open>initialize_random_graph\<close> returns a graph with a
  zero diagonal and weights in \<open>1 .. 20\<close> or \<open>INF\<close>, the next random number chooses the source, no access
  leaves the matrix, and the distances left are the shortest in this very graph from this very source.\<close>

theorem generate_and_solve_graph_total:
  assumes "\<And>k. ok k" and "custom_rand seed = (r1, s1)" and "custom_rand s1 = (r2, s2)"
    and "n = 100 + unat (r1 mod 100)" and "edges = 50 + unat (r2 mod 350)"
  shows "\<exists>g s3 dist. initialize_random_graph (replicate n (replicate n 0)) n edges s2 = Some (g, s3) \<and>
    graph_entries n g \<and> unat (fst (custom_rand s3) mod of_nat n) < n \<and>
    generate_and_solve_graph ok (t0, t1, t2, t3) a f seed =
      Some (False, dist, a + (t1 - t0), f + (t3 - t2), snd (custom_rand s3)) \<and> length dist = n \<and>
    (\<forall>v < n. shortest g (unat (fst (custom_rand s3) mod of_nat n)) v (dist ! v))"
proof -
  have n: "100 \<le> n" "n < 200" using assms(4) by (simp_all add: unat_u32_mod)
  then have n32: "n < 2 ^ 32" by simp
  let ?m = "replicate n (replicate n (0 :: int))"
  have "matrix n ?m" by (simp add: matrix_def)
  then obtain g s3 where g: "initialize_random_graph ?m n edges s2 = Some (g, s3)" "graph_entries n g"
    using initialize_random_graph_entries [of n ?m edges s2] n n32 by auto
  obtain r4 s4 where r4: "custom_rand s3 = (r4, s4)" by force
  let ?src = "unat (r4 mod of_nat n)"
  have "unat (of_nat n :: u32) = n" by (rule unat_of_nat_u32) (rule n32)
  then have src: "?src < n" using n by (simp only: unat_u32_mod) simp
  obtain dist v where d: "dijkstra g (replicate n 0) (replicate n 0) ?src n = Some (dist, v)"
    "length dist = n" "\<forall>v < n. shortest g ?src v (dist ! v)"
    using dijkstra_shortest_aux [of n g ?src "replicate n 0" "replicate n 0"] g(2) src
      graph_entries_weights [OF g(2)] by (auto simp: graph_entries_def)
  have "generate_and_solve_graph ok (t0, t1, t2, t3) a f seed =
      Some (False, dist, a + (t1 - t0), f + (t3 - t2), s4)"
    using assms r4 g(1) d(1) by (simp add: generate_and_solve_graph_def Let_def)
  with g src d(2,3) r4 show ?thesis by auto
qed

theorem generate_and_solve_graph_total_witness:
  "\<exists>dist seed'. generate_and_solve_graph (\<lambda>k. True) (1, 3, 5, 6) 10 20 7 =
    Some (False, dist, 12, 21, seed')"
  using generate_and_solve_graph_total [where ok = "\<lambda>k. True" and seed = 7 and ?t0.0 = 1 and ?t1.0 = 3 and ?t2.0 = 5
      and ?t3.0 = 6 and a = 10 and f = 20, OF TrueI surjective_pairing surjective_pairing refl refl] by fastforce

end
