(* ===== verification/IoBound.thy ===== *)
theory IoBound
  imports UserUtils "HOL-Library.Multiset"
begin

text \<open>
  The data handling of the I/O-bound process (\<open>xv6-add_FAIRNESS/user/io_bound.c\<close>): the random
  lines it writes, the permutation of the line pointers, and the statistics record it leaves for
  \<open>run_experiment\<close>. The record is shown to be read back unchanged by \<open>read_stats\<close>.
\<close>

definition NUM_LINES :: nat where "NUM_LINES = 20"
definition LINE_LENGTH :: nat where "LINE_LENGTH = 50"

section \<open>generate_random_line\<close>

definition generate_random_line :: "byte list \<Rightarrow> u32 \<Rightarrow> (byte list \<times> u32) option" where
  "generate_random_line line seed = do {
     (line, seed) \<leftarrow> for_loop 0 (LINE_LENGTH - 1) (\<lambda>i (line, seed). do {
         let (r, seed) = custom_rand seed;
         line \<leftarrow> aset line i (ucast (65 + r mod 26));
         Some (line, seed)
       }) (line, seed);
     line \<leftarrow> aset line (LINE_LENGTH - 1) 0;
     Some (line, seed)
   }"

section \<open>The permutation of the lines\<close>

text \<open>Ten random swaps of the line pointers, in \<open>perform_io_operations\<close>.\<close>

definition swap_lines :: "'a list \<times> u32 \<Rightarrow> ('a list \<times> u32) option" where
  "swap_lines = (\<lambda>(lines, seed). do {
     let (r, seed) = custom_rand seed;
     let idx1 = unat (r mod of_nat NUM_LINES);
     let (r, seed) = custom_rand seed;
     let idx2 = unat (r mod of_nat NUM_LINES);
     temp \<leftarrow> aget lines idx1;
     x \<leftarrow> aget lines idx2;
     lines \<leftarrow> aset lines idx1 x;
     lines \<leftarrow> aset lines idx2 temp;
     Some (lines, seed)
   })"

definition permute_lines :: "'a list \<Rightarrow> u32 \<Rightarrow> ('a list \<times> u32) option" where
  "permute_lines lines seed = for_loop 0 10 (\<lambda>i. swap_lines) (lines, seed)"

section \<open>write_times_to_file\<close>

text \<open>
  \<open>opened\<close> is whether \<open>open\<close> returned a descriptor. The result is the return value with the bytes
  handed to \<open>write\<close>.
\<close>

definition write_times_to_file ::
  "bool \<Rightarrow> u32 \<Rightarrow> u32 \<Rightarrow> u32 \<Rightarrow> u32 \<Rightarrow> u32 \<Rightarrow> (int \<times> byte list) option" where
  "write_times_to_file opened w r d a f =
     (if \<not> opened then Some (-1, [])
      else do {
        let buffer = replicate 150 0;
        let n = 0;
        (k, buffer) \<leftarrow> int_to_str w buffer n;
        let n = n + k;
        buffer \<leftarrow> aset buffer n 32;
        let n = n + 1;
        (k, buffer) \<leftarrow> int_to_str r buffer n;
        let n = n + k;
        buffer \<leftarrow> aset buffer n 32;
        let n = n + 1;
        (k, buffer) \<leftarrow> int_to_str d buffer n;
        let n = n + k;
        buffer \<leftarrow> aset buffer n 32;
        let n = n + 1;
        (k, buffer) \<leftarrow> int_to_str a buffer n;
        let n = n + k;
        buffer \<leftarrow> aset buffer n 32;
        let n = n + 1;
        (k, buffer) \<leftarrow> int_to_str f buffer n;
        let n = n + k;
        buffer \<leftarrow> aset buffer n 10;
        let n = n + 1;
        Some (0, take n buffer)
      })"

section \<open>Lemmas\<close>

lemma upper_case_byte:
  assumes "unat (k :: u32) < 26"
  shows "65 \<le> (ucast (65 + k) :: byte) \<and> (ucast (65 + k) :: byte) \<le> 90"
proof -
  have "unat (65 + k) = 65 + unat k" using assms by (simp add: unat_u32_plus)
  then have "unat (ucast (65 + k) :: byte) = 65 + unat k"
    using assms by (simp add: unsigned_ucast_eq take_bit_eq_mod)
  then show ?thesis using assms by (simp add: word_le_nat_alt)
qed

lemma generate_random_line_spec:
  assumes "LINE_LENGTH \<le> length line"
  shows "\<exists>line' seed'. generate_random_line line seed = Some (line', seed') \<and> length line' = length line \<and>
    (\<forall>i < LINE_LENGTH - 1. 65 \<le> line' ! i \<and> line' ! i \<le> 90) \<and> line' ! (LINE_LENGTH - 1) = 0"
proof -
  let ?body = "\<lambda>i (line, seed). do {
         let (r, seed) = custom_rand seed;
         line \<leftarrow> aset line i (ucast (65 + r mod 26) :: byte);
         Some (line, seed) }"
  let ?P = "\<lambda>i (l :: byte list, seed :: u32). length l = length line \<and> (\<forall>k < i. 65 \<le> l ! k \<and> l ! k \<le> 90)"
  have "\<exists>s'. for_loop 0 (LINE_LENGTH - 1) ?body (line, seed) = Some s' \<and> ?P (LINE_LENGTH - 1) s'"
  proof (rule for_loop_rule [where P = ?P])
    fix i s assume i: "i < LINE_LENGTH - 1" and P: "?P i s"
    obtain l sd where s: "s = (l, sd)" by force
    obtain r sd' where r: "custom_rand sd = (r, sd')" by force
    let ?c = "ucast (65 + r mod 26) :: byte"
    have "unat (r mod 26) < 26" by (simp add: unat_u32_mod)
    then have c: "65 \<le> ?c \<and> ?c \<le> 90" by (rule upper_case_byte)
    have "i < length l" using i P s assms by auto
    with c P s have "?P (i + 1) (l[i := ?c], sd')" by (auto simp: nth_list_update less_Suc_eq)
    moreover have "?body i s = Some (l[i := ?c], sd')"
      using s r \<open>i < length l\<close> by (simp add: array_simps Let_def)
    ultimately show "\<exists>s'. ?body i s = Some s' \<and> ?P (i + 1) s'" by blast
  qed auto
  then obtain l sd where "for_loop 0 (LINE_LENGTH - 1) ?body (line, seed) = Some (l, sd)"
    and "?P (LINE_LENGTH - 1) (l, sd)" by auto
  with assms show ?thesis
    by (auto simp: generate_random_line_def array_simps LINE_LENGTH_def)
qed

lemma permute_lines_spec:
  assumes "length lines = NUM_LINES"
  shows "\<exists>lines' seed'. permute_lines lines seed = Some (lines', seed') \<and>
    length lines' = NUM_LINES \<and> mset lines' = mset lines"
proof -
  let ?P = "\<lambda>i (l, seed :: u32). length l = NUM_LINES \<and> mset l = mset lines"
  have "\<exists>s'. for_loop 0 10 (\<lambda>i. swap_lines) (lines, seed) = Some s' \<and> ?P 10 s'"
  proof (rule for_loop_rule [where P = ?P])
    fix i :: nat and s assume P: "?P i s"
    obtain l sd where s: "s = (l, sd)" by force
    obtain r sd' where r: "custom_rand sd = (r, sd')" by force
    obtain q sd'' where q: "custom_rand sd' = (q, sd'')" by force
    let ?a = "unat (r mod of_nat NUM_LINES)" and ?b = "unat (q mod of_nat NUM_LINES)"
    have "?a < NUM_LINES" "?b < NUM_LINES" by (simp_all add: unat_u32_mod NUM_LINES_def)
    with P s have ab: "?a < length l" "?b < length l" by auto
    let ?l = "l[?a := l ! ?b, ?b := l ! ?a]"
    have "mset ?l = mset l" using mset_swap [OF ab(2,1)] by simp
    with P s have "?P (i + 1) (?l, sd'')" by auto
    moreover have "swap_lines s = Some (?l, sd'')"
      using s r q ab by (simp add: swap_lines_def array_simps Let_def)
    ultimately show "\<exists>s'. swap_lines s = Some s' \<and> ?P (i + 1) s'" by blast
  qed (use assms in auto)
  then show ?thesis by (auto simp: permute_lines_def)
qed

definition stats_text :: "u32 \<Rightarrow> u32 \<Rightarrow> u32 \<Rightarrow> u32 \<Rightarrow> u32 \<Rightarrow> byte list" where
  "stats_text w r d a f = decimal (unat w) @ 32 # decimal (unat r) @ 32 # decimal (unat d) @ 32 #
     decimal (unat a) @ 32 # decimal (unat f) @ [10]"

lemma write_times_spec: "write_times_to_file True w r d a f = Some (0, stats_text w r d a f)"
proof -
  let ?b = "replicate 150 (0 :: byte)"
  let ?w = "decimal (unat w)" and ?r = "decimal (unat r)" and ?d = "decimal (unat d)"
    and ?a = "decimal (unat a)" and ?f = "decimal (unat f)"
  have len: "length ?w \<le> 10" "length ?r \<le> 10" "length ?d \<le> 10" "length ?a \<le> 10" "length ?f \<le> 10"
    by (rule length_decimal_u32)+
  let ?p1 = "?w @ [32]" let ?p2 = "?p1 @ ?r @ [32]" let ?p3 = "?p2 @ ?d @ [32]" let ?p4 = "?p3 @ ?a @ [32]"
  show ?thesis
    using len put_number [of "[]" w ?b] put_separator [of "[]" ?w ?b 32]
      put_number [of ?p1 r ?b] put_separator [of ?p1 ?r ?b 32]
      put_number [of ?p2 d ?b] put_separator [of ?p2 ?d ?b 32]
      put_number [of ?p3 a ?b] put_separator [of ?p3 ?a ?b 32]
      put_number [of ?p4 f ?b] put_separator [of ?p4 ?f ?b 10]
    by (simp add: write_times_to_file_def Let_def add.assoc take_overlay stats_text_def)
qed

lemma read_stats_text:
  "read_stats (Some (stats_text w r d a f)) old =
    Some \<lparr>write_time = w, read_time = r, delete_time = d, alloc_time = a, free_time = f\<rparr>"
proof -
  let ?w = "decimal (unat w)" and ?r = "decimal (unat r)" and ?d = "decimal (unat d)"
    and ?a = "decimal (unat a)" and ?f = "decimal (unat f)"
  let ?t = "stats_text w r d a f"
  have "length ?w \<le> 10" "length ?r \<le> 10" "length ?d \<le> 10" "length ?a \<le> 10" "length ?f \<le> 10"
    by (rule length_decimal_u32)+
  then have len: "length ?t \<le> 55" by (simp add: stats_text_def)
  let ?z = "replicate (150 - length ?t) (0 :: byte)"
  have buf: "aset (overlay (replicate 150 0) 0 ?t) (length ?t) 0 = Some (?t @ ?z)"
    by (rule stats_buffer) (use len in simp)
  have ne: "?t \<noteq> []" by (simp add: stats_text_def)
  have nd: "\<not> is_digit 32" "\<not> is_digit 10" by (simp_all add: is_digit_def)
  let ?p1 = "?w @ [32]" let ?p2 = "?p1 @ ?r @ [32]" let ?p3 = "?p2 @ ?d @ [32]" let ?p4 = "?p3 @ ?a @ [32]"
  have t1: "?t @ ?z = [] @ ?w @ 32 # ?r @ 32 # ?d @ 32 # ?a @ 32 # ?f @ 10 # ?z"
    and t2: "?t @ ?z = ?p1 @ ?r @ 32 # ?d @ 32 # ?a @ 32 # ?f @ 10 # ?z"
    and t3: "?t @ ?z = ?p2 @ ?d @ 32 # ?a @ 32 # ?f @ 10 # ?z"
    and t4: "?t @ ?z = ?p3 @ ?a @ 32 # ?f @ 10 # ?z"
    and t5: "?t @ ?z = ?p4 @ ?f @ 10 # ?z"
    by (simp_all add: stats_text_def)
  have tk: "take 149 ?t = ?t" using len by simp
  show ?thesis
    using read_number [OF t1 nd(1)] skip_number [OF t1] read_number [OF t2 nd(1)] skip_number [OF t2]
      read_number [OF t3 nd(1)] skip_number [OF t3] read_number [OF t4 nd(1)] skip_number [OF t4]
      read_number [OF t5 nd(2)]
    by (simp add: read_stats_def Let_def add.assoc tk buf ne)
qed

section \<open>Properties\<close>

text \<open>What \<open>write_times_to_file\<close> writes for five times is read back by \<open>read_stats\<close> as those five
  times, for all 32-bit values: the writer's buffer of 150 bytes is large enough, and the reader finds
  every field.\<close>

theorem times_roundtrip:
  "\<exists>text. write_times_to_file True w r d a f = Some (0, text) \<and>
    read_stats (Some text) old =
      Some \<lparr>write_time = w, read_time = r, delete_time = d, alloc_time = a, free_time = f\<rparr>"
  using write_times_spec read_stats_text by blast

text \<open>\<open>permute_lines\<close> never leaves the table of lines and only reorders it: no line is lost or
  duplicated, whatever the seed.\<close>

theorem permute_lines_permutes:
  assumes "length lines = NUM_LINES"
  shows "\<exists>lines' seed'. permute_lines lines seed = Some (lines', seed') \<and> mset lines' = mset lines"
  using permute_lines_spec [OF assms] by blast

theorem permute_lines_permutes_witness:
  "\<exists>lines' seed'. permute_lines [0..<20] 5 = Some (lines', seed') \<and> mset lines' = mset [0..<20]"
  by (rule permute_lines_permutes) (simp add: NUM_LINES_def)

end
