(* ===== verification/Printf.thy ===== *)
theory Printf
  imports UserUtils
begin

text \<open>
  Formatted output: the user library (\<open>printf.c\<close>) and the number formatting and format loop of the
  kernel console (\<open>printint\<close> and \<open>cprintf\<close> of \<open>console.c\<close>). Output is the list of bytes written.
  The variadic arguments are the list of words above the format, a string argument being the string
  a pointer leads to (\<open>None\<close> for the null pointer); reading an argument that is not there, or of the
  other kind, is undefined behaviour, \<open>None\<close>.
\<close>

datatype arg = Num u32 | Str "byte list option"

definition bytes :: "string \<Rightarrow> byte list" where
  "bytes = map of_char"

definition upper_digits :: "byte list" where
  "upper_digits = [48, 49, 50, 51, 52, 53, 54, 55, 56, 57, 65, 66, 67, 68, 69, 70, 0]"

definition lower_digits :: "byte list" where
  "lower_digits = [48, 49, 50, 51, 52, 53, 54, 55, 56, 57, 97, 98, 99, 100, 101, 102, 0]"

section \<open>printint\<close>

text \<open>\<open>do { buf[i++] = digits[x % base]; } while ((x /= base) != 0);\<close> A base of 0 traps, and the
  loop always ends, since it returns or leaves \<open>buf\<close>.\<close>

function printint_digits :: "byte list \<Rightarrow> u32 \<Rightarrow> u32 \<Rightarrow> nat \<Rightarrow> byte list \<Rightarrow> (nat \<times> byte list) option" where
  "printint_digits digits x base i buf = do {
     q \<leftarrow> udiv x base;
     c \<leftarrow> aget digits (unat (x mod base));
     buf \<leftarrow> aset buf i c;
     (if q \<noteq> 0 then printint_digits digits q base (i + 1) buf else Some (i + 1, buf))
   }"
  by pat_completeness auto
termination
  by (relation "measure (\<lambda>(digits, x, base, i, buf). length buf - i)") (auto simp: aset_eq_Some)

declare printint_digits.simps [simp del]

text \<open>\<open>while (--i >= 0) putc(buf[i]);\<close>\<close>

fun put_reversed :: "nat \<Rightarrow> byte list \<Rightarrow> byte list option" where
  "put_reversed 0 buf = Some []"
| "put_reversed (Suc i) buf = do {
     c \<leftarrow> aget buf i;
     out \<leftarrow> put_reversed i buf;
     Some (c # out)
   }"

definition printint :: "u32 \<Rightarrow> u32 \<Rightarrow> bool \<Rightarrow> byte list option" where
  "printint xx base signd = do {
     let (neg, x) = (if signd \<and> sint xx < 0 then (True, - xx) else (False, xx));
     (i, buf) \<leftarrow> printint_digits upper_digits x base 0 (replicate 16 0);
     (i, buf) \<leftarrow> (if neg then do { buf \<leftarrow> aset buf i 45; Some (i + 1, buf) } else Some (i, buf));
     put_reversed i buf
   }"

definition console_printint :: "u32 \<Rightarrow> u32 \<Rightarrow> bool \<Rightarrow> byte list option" where
  "console_printint xx base sign = do {
     let sign' = (sign \<and> sint xx < 0);
     let x = (if sign' then - xx else xx);
     (i, buf) \<leftarrow> printint_digits lower_digits x base 0 (replicate 16 0);
     (i, buf) \<leftarrow> (if sign' then do { buf \<leftarrow> aset buf i 45; Some (i + 1, buf) } else Some (i, buf));
     put_reversed i buf
   }"

section \<open>The format loops\<close>

definition null_string :: "byte list" where
  "null_string = [40, 110, 117, 108, 108, 41]"

fun string_of :: "byte list option \<Rightarrow> byte list" where
  "string_of None = null_string"
| "string_of (Some s) = s"

text \<open>The user \<open>printf\<close>; the flag is \<open>state == '%'\<close>. The format is the bytes before its zero.\<close>

fun printf_loop :: "byte list \<Rightarrow> bool \<Rightarrow> arg list \<Rightarrow> byte list option" where
  "printf_loop [] st ap = Some []"
| "printf_loop (c # fmt) False ap =
     (if c = 37 then printf_loop fmt True ap
      else do { out \<leftarrow> printf_loop fmt False ap; Some (c # out) })"
| "printf_loop (c # fmt) True ap =
     (if c = 100 then
        (case ap of
           Num n # ap \<Rightarrow> do { o1 \<leftarrow> printint n 10 True; o2 \<leftarrow> printf_loop fmt False ap; Some (o1 @ o2) }
         | _ \<Rightarrow> None)
      else if c = 120 \<or> c = 112 then
        (case ap of
           Num n # ap \<Rightarrow> do { o1 \<leftarrow> printint n 16 False; o2 \<leftarrow> printf_loop fmt False ap; Some (o1 @ o2) }
         | _ \<Rightarrow> None)
      else if c = 115 then
        (case ap of
           Str s # ap \<Rightarrow> do { o2 \<leftarrow> printf_loop fmt False ap; Some (string_of s @ o2) }
         | _ \<Rightarrow> None)
      else if c = 99 then
        (case ap of
           Num n # ap \<Rightarrow> do { o2 \<leftarrow> printf_loop fmt False ap; Some (ucast n # o2) }
         | _ \<Rightarrow> None)
      else if c = 37 then do { o2 \<leftarrow> printf_loop fmt False ap; Some (c # o2) }
      else do { o2 \<leftarrow> printf_loop fmt False ap; Some (37 # c # o2) })"

definition printf :: "byte list \<Rightarrow> arg list \<Rightarrow> byte list option" where
  "printf fmt ap = printf_loop fmt False ap"

text \<open>The kernel \<open>cprintf\<close>: \<open>fmt == 0\<close> panics, a \<open>%\<close> at the end of the format ends the loop, and
  there is no \<open>%c\<close>.\<close>

fun cprintf_loop :: "byte list \<Rightarrow> arg list \<Rightarrow> byte list option" where
  "cprintf_loop [] argp = Some []"
| "cprintf_loop (c # fmt) argp =
     (if c \<noteq> 37 then do { out \<leftarrow> cprintf_loop fmt argp; Some (c # out) }
      else case fmt of
        [] \<Rightarrow> Some []
      | d # fmt \<Rightarrow>
          (if d = 100 then
             (case argp of
                Num n # argp \<Rightarrow>
                  do { o1 \<leftarrow> console_printint n 10 True; o2 \<leftarrow> cprintf_loop fmt argp; Some (o1 @ o2) }
              | _ \<Rightarrow> None)
           else if d = 120 \<or> d = 112 then
             (case argp of
                Num n # argp \<Rightarrow>
                  do { o1 \<leftarrow> console_printint n 16 False; o2 \<leftarrow> cprintf_loop fmt argp; Some (o1 @ o2) }
              | _ \<Rightarrow> None)
           else if d = 115 then
             (case argp of
                Str s # argp \<Rightarrow> do { o2 \<leftarrow> cprintf_loop fmt argp; Some (string_of s @ o2) }
              | _ \<Rightarrow> None)
           else if d = 37 then do { o2 \<leftarrow> cprintf_loop fmt argp; Some (37 # o2) }
           else do { o2 \<leftarrow> cprintf_loop fmt argp; Some (37 # d # o2) }))"

section \<open>Reference: numerals in a base\<close>

function in_base :: "byte list \<Rightarrow> nat \<Rightarrow> nat \<Rightarrow> byte list" where
  "in_base ds b n = (if n < b \<or> b < 2 then [ds ! n] else in_base ds b (n div b) @ [ds ! (n mod b)])"
  by pat_completeness auto
termination
  by (relation "measure (\<lambda>(ds, b, n). n)") auto

declare in_base.simps [simp del]

definition signed_numeral :: "byte list \<Rightarrow> nat \<Rightarrow> int \<Rightarrow> byte list" where
  "signed_numeral ds b k = (if k < 0 then 45 # in_base ds b (nat (- k)) else in_base ds b (nat k))"

section \<open>Lemmas\<close>

lemma length_in_base_pos [simp]: "0 < length (in_base ds b n)"
  by (subst in_base.simps) simp

lemma length_in_base: "2 \<le> b \<Longrightarrow> n < b ^ k \<Longrightarrow> 0 < k \<Longrightarrow> length (in_base ds b n) \<le> k"
proof (induction k arbitrary: n)
  case 0
  then show ?case by simp
next
  case (Suc k)
  show ?case
  proof (cases "n < b")
    case True
    then show ?thesis by (simp add: in_base.simps [of ds b n])
  next
    case False
    with Suc.prems have "0 < k" by (cases k) auto
    moreover from Suc.prems have "n div b < b ^ k" by (simp add: less_mult_imp_div_less mult.commute)
    ultimately have "length (in_base ds b (n div b)) \<le> k" using Suc by blast
    with False Suc.prems(1) show ?thesis by (simp add: in_base.simps [of ds b n])
  qed
qed

lemma printint_digits_spec:
  assumes "2 \<le> unat base" and "unat base \<le> length digits"
    and "i + length (in_base digits (unat base) (unat x)) \<le> length buf"
  shows "printint_digits digits x base i buf =
    Some (i + length (in_base digits (unat base) (unat x)),
      overlay buf i (rev (in_base digits (unat base) (unat x))))"
  using assms
proof (induction "unat x" arbitrary: x i buf rule: less_induct)
  case less
  let ?b = "unat base" and ?d = "digits ! unat (x mod base)"
  have base: "base \<noteq> 0" using less.prems(1) by auto
  have i: "i < length buf" using less.prems(3) length_in_base_pos [of digits ?b "unat x"] by linarith
  have lt: "unat (x mod base) < length digits"
    using less.prems(1,2) mod_less_divisor [of ?b "unat x"] unfolding unat_u32_mod by linarith
  have unfold: "printint_digits digits x base i buf =
      (if x div base \<noteq> 0 then printint_digits digits (x div base) base (i + 1) (buf[i := ?d])
       else Some (i + 1, buf[i := ?d]))"
    using base i lt by (simp add: printint_digits.simps [of digits x] udiv_def array_simps)
  have q: "x div base = 0 \<longleftrightarrow> unat x < ?b"
    using less.prems(1) by (simp add: unat_eq_zero [symmetric] unat_u32_div div_eq_0_iff)
  show ?case
  proof (cases "unat x < ?b")
    case True
    then have "in_base digits ?b (unat x) = [?d]"
      by (simp add: in_base.simps [of digits ?b "unat x"] unat_u32_mod)
    with True q unfold i show ?thesis by (simp add: overlay_def upd_conv_take_nth_drop)
  next
    case False
    have eq: "in_base digits ?b (unat x) = in_base digits ?b (unat (x div base)) @ [?d]"
      using False less.prems(1) by (simp add: in_base.simps [of digits ?b "unat x"] unat_u32_mod unat_u32_div)
    have "unat (x div base) < unat x"
      using False less.prems(1) by (simp add: unat_u32_div)
    then have "printint_digits digits (x div base) base (i + 1) (buf[i := ?d]) =
      Some (i + 1 + length (in_base digits ?b (unat (x div base))),
        overlay (buf[i := ?d]) (i + 1) (rev (in_base digits ?b (unat (x div base)))))"
      using less.prems eq by (intro less.hyps) auto
    with False q unfold eq i show ?thesis by (simp add: overlay_step [simplified])
  qed
qed

lemma put_reversed_spec: "i \<le> length buf \<Longrightarrow> put_reversed i buf = Some (rev (take i buf))"
  by (induction i) (simp_all add: array_simps take_Suc_conv_app_nth)

lemma printint_buf:
  assumes "2 \<le> unat base" and "unat base \<le> length digits" and "length (in_base digits (unat base) (unat x)) < 16"
  shows "do {
     (i, buf) \<leftarrow> printint_digits digits x base 0 (replicate 16 0);
     (i, buf) \<leftarrow> (if neg then do { buf \<leftarrow> aset buf i 45; Some (i + 1, buf) } else Some (i, buf));
     put_reversed i buf
   } = Some ((if neg then [45] else []) @ in_base digits (unat base) (unat x))"
proof -
  let ?ds = "in_base digits (unat base) (unat x)"
  let ?buf = "overlay (replicate 16 0) 0 (rev ?ds)"
  have "printint_digits digits x base 0 (replicate 16 0) = Some (length ?ds, ?buf)"
    using printint_digits_spec [of base digits 0 x "replicate 16 0"] assms by simp
  moreover have "aset ?buf (length ?ds) 45 = Some (overlay (replicate 16 0) 0 (rev ?ds @ [45]))"
    using assms(3) overlay_snoc [of 0 "rev ?ds" "replicate 16 0" 45] by (simp add: array_simps)
  moreover have "put_reversed (length ?ds) ?buf = Some ?ds"
    using assms(3) by (simp add: put_reversed_spec take_overlay)
  moreover have "put_reversed (Suc (length ?ds)) (overlay (replicate 16 0) 0 (rev ?ds @ [45])) = Some (45 # ?ds)"
    using assms(3) put_reversed_spec [of "Suc (length ?ds)" "overlay (replicate 16 0) 0 (rev ?ds @ [45])"]
    by (simp add: take_overlay)
  ultimately show ?thesis by simp
qed

lemma unat_neg_sint:
  assumes "sint (xx :: u32) < 0"
  shows "unat (- xx) = nat (- sint xx)"
proof -
  from assms have "\<not> uint xx < 2 ^ 31" and "xx \<noteq> 0" using sint_u32 [of xx] by auto
  then have "uint (- xx) = - sint xx" unfolding sint_u32 uint_u32_uminus by simp
  then show ?thesis by (simp only: unat_eq_nat_uint)
qed

lemma unat_pos_sint:
  assumes "0 \<le> sint (xx :: u32)"
  shows "unat xx = nat (sint xx)"
proof -
  have "uint xx < 2 ^ 31" using assms sint_u32 [of xx] uint_u32_lt [of xx] by (cases "uint xx < 2 ^ 31") auto
  then have "uint xx = sint xx" unfolding sint_u32 by simp
  then show ?thesis by (simp only: unat_eq_nat_uint)
qed

lemma length_in_base_16:
  assumes "10 \<le> b"
  shows "length (in_base ds b (unat (x :: u32))) < 16"
proof -
  have "unat x < 10 ^ 10" by (rule less_trans [OF unat_u32_lt]) simp
  also have "(10 :: nat) ^ 10 \<le> b ^ 10" using assms by (rule power_mono) simp
  finally have "length (in_base ds b (unat x)) \<le> 10" using assms by (intro length_in_base) auto
  then show ?thesis by simp
qed

lemma length_digit_tables [simp]: "length upper_digits = 17" "length lower_digits = 17"
  by (simp_all add: upper_digits_def lower_digits_def)

lemma printint_signed:
  "printint xx 10 True = Some (signed_numeral upper_digits 10 (sint xx))"
  using printint_buf [of 10 upper_digits "- xx" True, OF _ _ length_in_base_16] printint_buf [of 10 upper_digits xx False, OF _ _ length_in_base_16]
  by (cases "sint xx < 0")
    (simp_all add: printint_def signed_numeral_def length_in_base_16 unat_neg_sint unat_pos_sint not_less)

lemma printint_hex:
  "printint xx 16 False = Some (in_base upper_digits 16 (unat xx))"
  using printint_buf [of 16 upper_digits xx False, OF _ _ length_in_base_16]
  by (simp add: printint_def length_in_base_16)

lemma console_printint_signed:
  "console_printint xx 10 True = Some (signed_numeral lower_digits 10 (sint xx))"
  using printint_buf [of 10 lower_digits "- xx" True, OF _ _ length_in_base_16] printint_buf [of 10 lower_digits xx False, OF _ _ length_in_base_16]
  by (cases "sint xx < 0")
    (simp_all add: console_printint_def signed_numeral_def length_in_base_16 unat_neg_sint unat_pos_sint not_less)

lemma console_printint_hex:
  "console_printint xx 16 False = Some (in_base lower_digits 16 (unat xx))"
  using printint_buf [of 16 lower_digits xx False, OF _ _ length_in_base_16]
  by (simp add: console_printint_def length_in_base_16)

section \<open>Properties\<close>

text \<open>For every 32-bit argument the user and the kernel \<open>printint\<close> print the same number: the signed
  decimal numeral for \<open>%d\<close> (the most negative value included, whose negation overflows) and the
  hexadecimal numeral for \<open>%x\<close>, in upper-case digits in \<open>printf.c\<close> and lower-case digits in
  \<open>console.c\<close>; the 16-byte digit buffer is never exceeded.\<close>

theorem printint_numerals:
  "printint xx 10 True = Some (signed_numeral upper_digits 10 (sint xx)) \<and>
   printint xx 16 False = Some (in_base upper_digits 16 (unat xx)) \<and>
   console_printint xx 10 True = Some (signed_numeral lower_digits 10 (sint xx)) \<and>
   console_printint xx 16 False = Some (in_base lower_digits 16 (unat xx))"
  by (intro conjI printint_signed printint_hex console_printint_signed console_printint_hex)

end
