(* ===== verification/Experiment.thy ===== *)
theory Experiment
  imports Printf
begin

text \<open>
  The experiment driver (\<open>xv6-add_FAIRNESS/user/run_experiment.c\<close>): it starts the CPU-bound and
  I/O-bound children, waits for them, collects their statistics files and computes the four
  metrics. System calls are the fields of a record \<open>os\<close> of state transformers on an arbitrary
  environment, so that every definition is executable for a concrete environment and every lemma
  holds for all of them. Arithmetic is that of \<open>unsigned int\<close>.
\<close>

definition MAX_PROCS :: nat where "MAX_PROCS = 20"
definition SCALE_FACTOR :: u32 where "SCALE_FACTOR = 1000000"

record 'e os =
  os_fork :: "'e \<Rightarrow> u32 \<times> 'e"
  os_wait :: "'e \<Rightarrow> u32 \<times> 'e"
  os_uptime :: "'e \<Rightarrow> u32 \<times> 'e"
  os_sleep :: "u32 \<Rightarrow> 'e \<Rightarrow> 'e"
  os_print :: "byte list \<Rightarrow> 'e \<Rightarrow> 'e"
  os_read_file :: "byte list \<Rightarrow> 'e \<Rightarrow> byte list option \<times> 'e"
  os_unlink :: "byte list \<Rightarrow> 'e \<Rightarrow> 'e"

section \<open>Starting the children\<close>

text \<open>The local arrays of \<open>run_experiment\<close>; an execution time is \<open>None\<close> until it is assigned.\<close>

record run_state =
  pids :: "u32 list"
  pid_index :: nat
  start_times :: "u32 list"
  end_times :: "u32 list"
  execution_times :: "u32 option list"
  completed :: u32

definition initial_run :: run_state where
  "initial_run = \<lparr>pids = replicate MAX_PROCS 0, pid_index = 0, start_times = replicate MAX_PROCS 0,
     end_times = replicate MAX_PROCS 0, execution_times = replicate MAX_PROCS None, completed = 0\<rparr>"

text \<open>\<open>fork\<close> returns twice: in the child, which runs another program, and in the parent.\<close>

datatype 'e flow = Child string 'e | Parent run_state 'e

definition max_procs_message :: "byte list" where
  "max_procs_message = bytes ''N'' @ [195, 186] @ bytes ''mero m'' @ [195, 161] @
     bytes ''ximo de processos atingido'' @ [10]"

definition spawn :: "'e os \<Rightarrow> string \<Rightarrow> string \<Rightarrow> run_state \<Rightarrow> 'e \<Rightarrow> 'e flow option" where
  "spawn os prog error st e = do {
     let (pid, e) = os_fork os e;
     (if pid = 0 then Some (Child prog e)
      else if 0 < sint pid then
        (if pid_index st < MAX_PROCS then do {
           ps \<leftarrow> aset (pids st) (pid_index st) pid;
           let (t, e) = os_uptime os e;
           ts \<leftarrow> aset (start_times st) (pid_index st) t;
           Some (Parent (st\<lparr>pids := ps, start_times := ts, pid_index := pid_index st + 1\<rparr>) e)
         } else Some (Parent st (os_print os max_procs_message e)))
      else Some (Parent st (os_print os (bytes error @ [10]) e)))
   }"

function spawn_loop :: "'e os \<Rightarrow> nat \<Rightarrow> nat \<Rightarrow> nat \<Rightarrow> run_state \<Rightarrow> 'e \<Rightarrow> 'e flow option" where
  "spawn_loop os cpu_bound_procs io_bound_procs i st e =
     (if i < cpu_bound_procs \<or> i < io_bound_procs then do {
        r \<leftarrow> (if i < cpu_bound_procs then spawn os ''cpu_bound'' ''Erro ao criar processo CPU-bound'' st e
             else Some (Parent st e));
        case r of
          Child p e \<Rightarrow> Some (Child p e)
        | Parent st e \<Rightarrow> do {
            r \<leftarrow> (if i < io_bound_procs then spawn os ''io_bound'' ''Erro ao criar processo IO-bound'' st e
                 else Some (Parent st e));
            case r of
              Child p e \<Rightarrow> Some (Child p e)
            | Parent st e \<Rightarrow>
                spawn_loop os cpu_bound_procs io_bound_procs (i + 1) st (os_sleep os 20 e)
          }
      } else Some (Parent st e))"
  by pat_completeness auto
termination
  by (relation "measure (\<lambda>(os, c, io, i, st, e). max c io - i)") auto

declare spawn_loop.simps [simp del]

section \<open>Waiting for the children\<close>

text \<open>The first index below \<open>n\<close> that holds \<open>pid\<close>, or -1.\<close>

fun find_pid :: "u32 list \<Rightarrow> nat \<Rightarrow> nat \<Rightarrow> u32 \<Rightarrow> int" where
  "find_pid [] j n pid = -1"
| "find_pid (p # ps) j n pid =
     (if j < n then (if p = pid then int j else find_pid ps (j + 1) n pid) else -1)"

definition wait_one :: "'e os \<Rightarrow> run_state \<times> 'e \<Rightarrow> (run_state \<times> 'e) option" where
  "wait_one os = (\<lambda>(st, e). do {
     let (wait_pid, e) = os_wait os e;
     let idx = find_pid (pids st) 0 (pid_index st) wait_pid;
     (if idx \<noteq> -1 then do {
        let (t, e) = os_uptime os e;
        ends \<leftarrow> aset (end_times st) (nat idx) t;
        start \<leftarrow> aget (start_times st) (nat idx);
        execs \<leftarrow> aset (execution_times st) (nat idx) (Some (t - start));
        Some (st\<lparr>end_times := ends, execution_times := execs, completed := completed st + 1\<rparr>, e)
      } else
        do {
          txt \<leftarrow> printf (bytes ''PID desconhecido %d recebido do wait()'' @ [10]) [Num wait_pid];
          Some (st, os_print os txt e)
        })
   })"

definition wait_loop :: "'e os \<Rightarrow> run_state \<Rightarrow> 'e \<Rightarrow> (run_state \<times> 'e) option" where
  "wait_loop os st e = for_loop 0 (pid_index st) (\<lambda>i. wait_one os) (st, e)"

section \<open>Collecting the statistics\<close>

record totals =
  total_write :: u32
  total_read :: u32
  total_delete :: u32
  total_alloc :: u32
  total_free :: u32
  num_io :: u32
  num_cpu :: u32

definition zero_totals :: totals where
  "zero_totals = \<lparr>total_write = 0, total_read = 0, total_delete = 0, total_alloc = 0, total_free = 0,
     num_io = 0, num_cpu = 0\<rparr>"

definition zero_stats :: io_stats where
  "zero_stats = \<lparr>write_time = 0, read_time = 0, delete_time = 0, alloc_time = 0, free_time = 0\<rparr>"

definition c_name :: "byte list \<Rightarrow> byte list" where
  "c_name = takeWhile (\<lambda>c. c \<noteq> 0)"

definition collect_one :: "'e os \<Rightarrow> u32 \<Rightarrow> totals \<times> 'e \<Rightarrow> (totals \<times> 'e) option" where
  "collect_one os pid = (\<lambda>(t, e). do {
     name \<leftarrow> build_filename (replicate 32 0) pid (bytes ''stats_'' @ [0]);
     let (file, e) = os_read_file os (c_name name) e;
     s \<leftarrow> read_stats file zero_stats;
     (if write_time s > 0 \<or> read_time s > 0 \<or> delete_time s > 0 then
        Some (t\<lparr>total_write := total_write t + write_time s,
               total_read := total_read t + read_time s,
               total_delete := total_delete t + delete_time s,
               total_alloc := total_alloc t + alloc_time s,
               total_free := total_free t + free_time s,
               num_io := num_io t + 1\<rparr>, os_unlink os (c_name name) e)
      else do {
        name \<leftarrow> build_filename name pid (bytes ''stats_mem_'' @ [0]);
        let (file, e) = os_read_file os (c_name name) e;
        (a, f) \<leftarrow> read_mem_stats file (0, 0);
        (if a > 0 \<or> f > 0 then
           Some (t\<lparr>total_alloc := total_alloc t + a, total_free := total_free t + f,
                  num_cpu := num_cpu t + 1\<rparr>, os_unlink os (c_name name) e)
         else Some (t, e))
      })
   })"

definition collect_stats :: "'e os \<Rightarrow> run_state \<Rightarrow> 'e \<Rightarrow> (totals \<times> 'e) option" where
  "collect_stats os st e =
     for_loop 0 (pid_index st) (\<lambda>i (t, e). do { pid \<leftarrow> aget (pids st) i; collect_one os pid (t, e) })
       (zero_totals, e)"

section \<open>The metrics\<close>

text \<open>What each metric prints, as the bytes sent to \<open>printf\<close>; \<open>None\<close> marks undefined behaviour.\<close>

definition print_metric :: "string \<Rightarrow> u32 \<Rightarrow> byte list option" where
  "print_metric label v = do {
     ds \<leftarrow> print_with_leading_zeros (v mod SCALE_FACTOR) 6;
     Some (bytes label @ bytes '': 0.'' @ ds @ [10])
   }"

record metrics =
  min_throughput :: u32
  max_throughput :: u32
  norm_throughput :: u32
  E_fs_scaled :: u32
  M_over_scaled :: u32
  J_cpu_scaled :: u32

definition initial_metrics :: metrics where
  "initial_metrics = \<lparr>min_throughput = -1, max_throughput = 0, norm_throughput = 0,
     E_fs_scaled = 0, M_over_scaled = 0, J_cpu_scaled = 0\<rparr>"

definition throughput_metric :: "u32 \<Rightarrow> u32 \<Rightarrow> metrics \<Rightarrow> (metrics \<times> byte list) option" where
  "throughput_metric total_processes_completed execution_time m = do {
     (cur, out) \<leftarrow>
       (if 0 < sint execution_time then do {
          q \<leftarrow> udiv (total_processes_completed * SCALE_FACTOR) execution_time;
          Some (q, [])
        } else Some (0, bytes ''Execution time is zero, cannot calculate throughput'' @ [10]));
     let m = (if cur < min_throughput m then m\<lparr>min_throughput := cur\<rparr> else m);
     let m = (if cur > max_throughput m then m\<lparr>max_throughput := cur\<rparr> else m);
     (if max_throughput m > min_throughput m then do {
        let numerator = (cur - min_throughput m) * SCALE_FACTOR;
        let denominator = max_throughput m - min_throughput m;
        (if denominator > 0 then do {
           q \<leftarrow> udiv numerator denominator;
           let n = SCALE_FACTOR - q;
           let n = (if n > SCALE_FACTOR then SCALE_FACTOR else n);
           txt \<leftarrow> print_metric ''Normalized Throughput'' n;
           Some (m\<lparr>norm_throughput := n\<rparr>, out @ txt)
         } else Some (m, out @ bytes ''Denominator for throughput normalization is zero'' @ [10]))
      } else Some (m, out))
   }"

definition fs_metric :: "totals \<Rightarrow> metrics \<Rightarrow> (metrics \<times> byte list) option" where
  "fs_metric t m =
     (if 0 < sint (num_io t) then
        (let total_io_time = total_write t + total_read t + total_delete t in
         if total_io_time > 0 then do {
           e \<leftarrow> udiv SCALE_FACTOR total_io_time;
           txt \<leftarrow> print_metric ''E_fs (File System Efficiency)'' e;
           Some (m\<lparr>E_fs_scaled := e\<rparr>, txt)
         } else Some (m, bytes ''Total time for file system operations is zero'' @ [10]))
      else Some (m, bytes ''No io_bound processes stats collected'' @ [10]))"

definition memory_metric :: "totals \<Rightarrow> metrics \<Rightarrow> (metrics \<times> byte list) option" where
  "memory_metric t m =
     (let total_mem_time = total_alloc t + total_free t in
      if total_mem_time > 0 then do {
        v \<leftarrow> udiv SCALE_FACTOR total_mem_time;
        txt \<leftarrow> print_metric ''M_over (Memory Management Overhead)'' v;
        Some (m\<lparr>M_over_scaled := v\<rparr>, txt)
      } else Some (m, bytes ''Total time for memory management is zero'' @ [10]))"

definition sum_times :: "u32 option list \<Rightarrow> nat \<Rightarrow> (u32 \<times> u32) option" where
  "sum_times ts n = for_loop 0 n (\<lambda>i (sum, sum_sq). do {
     x \<leftarrow> aget ts i;
     x \<leftarrow> x;
     Some (sum + x, sum_sq + x * x)
   }) (0, 0)"

definition fairness_metric :: "u32 option list \<Rightarrow> nat \<Rightarrow> metrics \<Rightarrow> (metrics \<times> byte list) option" where
  "fairness_metric ts n m = do {
     (sum_exec_times, sum_exec_times_sq) \<leftarrow> sum_times ts n;
     (if sum_exec_times_sq > 0 then do {
        let sum_exec_times_scaled = sum_exec_times * SCALE_FACTOR;
        let numerator = sum_exec_times * sum_exec_times_scaled;
        let denominator = of_nat n * sum_exec_times_sq;
        (if denominator > 0 then do {
           j \<leftarrow> udiv numerator denominator;
           let j = (if j > SCALE_FACTOR then SCALE_FACTOR else j);
           txt \<leftarrow> print_metric ''J_cpu (Process Fairness)'' j;
           Some (m\<lparr>J_cpu_scaled := j\<rparr>, txt)
         } else Some (m, bytes ''Cannot compute J_cpu, denominator is zero'' @ [10]))
      } else Some (m, bytes ''Cannot compute J_cpu, sum of execution times squared is zero'' @ [10]))
   }"

text \<open>\<open>S_perform\<close>, in \<open>main\<close>: \<open>None\<close> in the pair when it could not be calculated.\<close>

definition system_performance :: "metrics \<Rightarrow> (u32 option \<times> byte list) option" where
  "system_performance m =
     (if norm_throughput m > 0 \<and> J_cpu_scaled m > 0 \<and> E_fs_scaled m > 0 \<and> M_over_scaled m > 0 then do {
        let s = norm_throughput m div 4 + J_cpu_scaled m div 4 + E_fs_scaled m div 4 + M_over_scaled m div 4;
        let s = (if s > SCALE_FACTOR then SCALE_FACTOR else s);
        txt \<leftarrow> print_metric ''Overall System Performance (S_perform)'' s;
        Some (Some s, txt)
      } else Some (None, bytes ''Could not calculate the Overall System Performance'' @ [10]))"

section \<open>A round, and the program\<close>

datatype 'e round = InChild string 'e | Done metrics 'e

definition run_experiment :: "'e os \<Rightarrow> nat \<Rightarrow> nat \<Rightarrow> metrics \<Rightarrow> 'e \<Rightarrow> 'e round option" where
  "run_experiment os cpu_bound_procs io_bound_procs m e = do {
     let (start_time, e) = os_uptime os e;
     r \<leftarrow> spawn_loop os cpu_bound_procs io_bound_procs 0 initial_run e;
     case r of
       Child p e \<Rightarrow> Some (InChild p e)
     | Parent st e \<Rightarrow> do {
         (st, e) \<leftarrow> wait_loop os st e;
         let (end_time, e) = os_uptime os e;
         let execution_time = end_time - start_time;
         (t, e) \<leftarrow> collect_stats os st e;
         (m, out) \<leftarrow> throughput_metric (completed st) execution_time m;
         let e = os_print os out e;
         (m, out) \<leftarrow> fs_metric t m;
         let e = os_print os out e;
         (m, out) \<leftarrow> memory_metric t m;
         let e = os_print os out e;
         (m, out) \<leftarrow> fairness_metric (execution_times st) (pid_index st) m;
         let e = os_print os out e;
         txt \<leftarrow> printf (bytes ''Execution time of the round: %d ticks'' @ [10]) [Num execution_time];
         Some (Done m (os_print os txt e))
       }
   }"

text \<open>\<open>main\<close>: the optional argument, and the rounds. A bad argument is
  reported and ends the program before the first round.\<close>

definition cpu_bound_argument :: "byte list option \<Rightarrow> (u32 + byte list) option" where
  "cpu_bound_argument arg =
     (case arg of
        None \<Rightarrow> Some (Inl 10)
      | Some s \<Rightarrow> do {
          n \<leftarrow> custom_atoi s 0;
          (if sint n < 6 \<or> sint n > 14
           then Some (Inr (bytes ''Number of CPU-bound processes must be between 6 and 14'' @ [10]))
           else Some (Inl n))
        })"

definition print_performance :: "'e os \<Rightarrow> metrics \<Rightarrow> 'e \<Rightarrow> 'e option" where
  "print_performance os m e = do {
     (s, out) \<leftarrow> system_performance m;
     let e = os_print os out e;
     Some (os_print os (bytes ''-----------------------------------------'' @ [10]) e)
   }"

fun rounds :: "'e os \<Rightarrow> nat \<Rightarrow> nat \<Rightarrow> nat \<Rightarrow> nat \<Rightarrow> metrics \<Rightarrow> 'e \<Rightarrow> 'e round option" where
  "rounds os 0 i cpu_bound_procs io_bound_procs m e = Some (Done m e)"
| "rounds os (Suc n) i cpu_bound_procs io_bound_procs m e = do {
     txt \<leftarrow> printf (bytes ''Round %d'' @ [10]) [Num (of_nat (i + 1))];
     let e = os_print os txt e;
     r \<leftarrow> run_experiment os cpu_bound_procs io_bound_procs m e;
     case r of
       InChild p e \<Rightarrow> Some (InChild p e)
     | Done m e \<Rightarrow> do {
         e \<leftarrow> print_performance os m e;
         rounds os n (i + 1) cpu_bound_procs io_bound_procs m e
       }
   }"

definition experiment_main :: "'e os \<Rightarrow> byte list option \<Rightarrow> 'e \<Rightarrow> 'e round option" where
  "experiment_main os arg e = do {
     r \<leftarrow> cpu_bound_argument arg;
     case r of
       Inr msg \<Rightarrow> Some (Done initial_metrics (os_print os msg e))
     | Inl n \<Rightarrow> rounds os 30 0 (unat n) (unat (20 - n)) initial_metrics e
   }"

section \<open>Lemmas: the fairness index\<close>

lemma two_mult_le: "2 * a * b \<le> a * a + b * (b :: nat)"
proof (cases "a \<le> b")
  case True
  then obtain d where "b = a + d" using le_Suc_ex by blast
  then show ?thesis by (simp add: algebra_simps)
next
  case False
  then obtain d where "a = b + d" using le_Suc_ex by (metis nat_le_linear)
  then show ?thesis by (simp add: algebra_simps)
qed

lemma cross_terms: "2 * a * sum_list xs \<le> length xs * (a * a) + sum_list (map (\<lambda>x. x * x) (xs :: nat list))"
proof (induction xs)
  case Nil
  then show ?case by simp
next
  case (Cons x xs)
  with two_mult_le [of a x] show ?case by (simp add: algebra_simps)
qed

lemma cauchy_schwarz: "sum_list xs * sum_list xs \<le> length xs * sum_list (map (\<lambda>x. x * x) (xs :: nat list))"
proof (induction xs)
  case Nil
  then show ?case by simp
next
  case (Cons x xs)
  with cross_terms [of x xs] show ?case by (simp add: algebra_simps)
qed

definition sum_sq :: "nat list \<Rightarrow> nat" where
  "sum_sq xs = sum_list (map (\<lambda>x. x * x) xs)"

lemma sum_times_spec:
  assumes "ts = map Some xs @ rest"
  shows "sum_times ts (length xs) = Some (sum_list xs, sum_list (map (\<lambda>x. x * x) xs))"
proof -
  let ?body = "\<lambda>i (sum, sum_sq). do { x \<leftarrow> aget ts i; x \<leftarrow> x; Some (sum + x, sum_sq + x * x) }"
  let ?P = "\<lambda>i (a, b). a = sum_list (take i xs) \<and> b = sum_list (map (\<lambda>x. x * x) (take i xs))"
  have "\<exists>s. for_loop 0 (length xs) ?body (0, 0) = Some s \<and> ?P (length xs) s"
  proof (rule for_loop_rule [where P = ?P])
    fix i s assume i: "i < length xs" and P: "?P i s"
    have "aget ts i = Some (Some (xs ! i))" using i assms by (simp add: aget_def nth_append)
    with P i show "\<exists>s'. ?body i s = Some s' \<and> ?P (i + 1) s'"
      by (cases s) (simp add: take_Suc_conv_app_nth)
  qed auto
  then show ?thesis by (auto simp: sum_times_def)
qed

lemma unat_sum_list:
  "sum_list (map unat xs) < 2 ^ 32 \<Longrightarrow> unat (sum_list (xs :: u32 list)) = sum_list (map unat xs)"
  by (induction xs) (simp_all add: unat_u32_plus)

lemma unat_sum_sq:
  "sum_sq (map unat xs) < 2 ^ 32 \<Longrightarrow>
   unat (sum_list (map (\<lambda>x. x * x) (xs :: u32 list))) = sum_sq (map unat xs)"
proof (induction xs)
  case Nil
  then show ?case by (simp add: sum_sq_def)
next
  case (Cons x xs)
  then have "unat x * unat x + sum_sq (map unat xs) < 2 ^ 32" by (simp add: sum_sq_def)
  moreover from this Cons.IH have "unat (sum_list (map (\<lambda>x. x * x) xs)) = sum_sq (map unat xs)" by simp
  ultimately show ?case
    by (simp add: unat_u32_plus unat_u32_times sum_sq_def)
qed

lemma print_leading_zeros_Some: "\<exists>ds. print_with_leading_zeros v w = Some ds"
  by (simp add: print_with_leading_zeros_def array_simps leading_zeros_loop_spec)

lemma print_metric_Some: "\<exists>txt. print_metric label v = Some txt"
  using print_leading_zeros_Some [of "v mod SCALE_FACTOR" 6] by (auto simp: print_metric_def)

lemma fairness_exact:
  assumes ts: "ts = map Some xs @ rest"
    and nz: "0 < sum_list (map unat xs)"
    and small: "sum_list (map unat xs) * sum_list (map unat xs) * 1000000 < 2 ^ 32"
    and small': "length xs * sum_sq (map unat xs) < 2 ^ 32"
  shows "\<exists>m' out. fairness_metric ts (length xs) m = Some (m', out) \<and>
    unat (J_cpu_scaled m') =
      sum_list (map unat xs) * sum_list (map unat xs) * 1000000 div (length xs * sum_sq (map unat xs)) \<and>
    unat (J_cpu_scaled m') \<le> 1000000"
proof -
  let ?s = "sum_list (map unat xs)" and ?q = "sum_sq (map unat xs)" and ?n = "length xs"
  have n: "0 < ?n" using nz by (cases xs) auto
  have cs: "?s * ?s \<le> ?n * ?q" using cauchy_schwarz [of "map unat xs"] by (simp add: sum_sq_def)
  have q: "0 < ?q" using cs nz by (metis gr0I le_zero_eq mult_is_0 neq0_conv)
  have s1: "?s \<le> ?s * ?s" using nz by (cases ?s) auto
  have "?q \<le> ?n * ?q" "?n \<le> ?n * ?q" using n q by (cases ?n; cases ?q; simp)+
  then have "?s < 2 ^ 32" "?q < 2 ^ 32" "?n < 2 ^ 32" "?s * 1000000 < 2 ^ 32"
    using small small' s1 by linarith+
  then have us: "unat (sum_list xs) = ?s" and uq: "unat (sum_list (map (\<lambda>x. x * x) xs)) = ?q"
    and un: "unat (of_nat ?n :: u32) = ?n"
    and us2: "unat (sum_list xs * SCALE_FACTOR) = ?s * 1000000"
    by (simp_all add: unat_sum_list unat_sum_sq unat_of_nat_u32 unat_u32_times SCALE_FACTOR_def)
  have num: "unat (sum_list xs * (sum_list xs * SCALE_FACTOR)) = ?s * ?s * 1000000"
    using small by (simp only: unat_u32_times [of "sum_list xs" "sum_list xs * SCALE_FACTOR"] us us2) (simp add: mult.assoc)
  have den: "unat (of_nat ?n * sum_list (map (\<lambda>x. x * x) xs)) = ?n * ?q"
    using small' by (simp only: unat_u32_times un uq) simp
  let ?j = "(sum_list xs * (sum_list xs * SCALE_FACTOR)) div (of_nat ?n * sum_list (map (\<lambda>x. x * x) xs))"
  have j: "unat ?j = ?s * ?s * 1000000 div (?n * ?q)" by (simp only: unat_u32_div num den)
  have le: "?s * ?s * 1000000 div (?n * ?q) \<le> 1000000"
    using cs n q by (metis div_le_mono div_mult_self1_is_m mult_le_mono1 nat_0_less_mult_iff)
  have "\<not> ?j > SCALE_FACTOR" using j le by (simp add: word_less_nat_alt SCALE_FACTOR_def)
  moreover have "sum_list (map (\<lambda>x. x * x) xs) > 0" using uq q by (simp add: word_less_nat_alt)
  moreover have "of_nat ?n * sum_list (map (\<lambda>x. x * x) xs) > (0 :: u32)"
    using den n q by (simp add: word_less_nat_alt del: unat_u32_times)
  moreover obtain tx where "print_metric ''J_cpu (Process Fairness)'' ?j = Some tx"
    using print_metric_Some by blast
  ultimately have "fairness_metric ts ?n m = Some (m\<lparr>J_cpu_scaled := ?j\<rparr>, tx)"
    using sum_times_spec [OF ts] by (simp add: fairness_metric_def Let_def udiv_def word_gt_0)
  with j le show ?thesis by simp
qed

section \<open>Lemmas: bounds of the metrics\<close>

definition metrics_ok :: "metrics \<Rightarrow> bool" where
  "metrics_ok m \<longleftrightarrow> norm_throughput m \<le> SCALE_FACTOR \<and> E_fs_scaled m \<le> SCALE_FACTOR \<and>
     M_over_scaled m \<le> SCALE_FACTOR \<and> J_cpu_scaled m \<le> SCALE_FACTOR"

lemma div_le_self_u32: "(a :: u32) div b \<le> a"
  by (simp add: word_le_nat_alt unat_u32_div)

lemma metrics_ok_initial: "metrics_ok initial_metrics"
  by (simp add: metrics_ok_def initial_metrics_def)

lemma throughput_metric_ok:
  "throughput_metric n t m = Some (m', out) \<Longrightarrow> metrics_ok m \<Longrightarrow> metrics_ok m'"
  by (auto simp: throughput_metric_def metrics_ok_def Let_def bind_eq_Some_conv split: if_splits)

lemma fs_metric_ok: "fs_metric t m = Some (m', out) \<Longrightarrow> metrics_ok m \<Longrightarrow> metrics_ok m'"
  by (auto simp: fs_metric_def metrics_ok_def Let_def bind_eq_Some_conv div_le_self_u32 split: if_splits)

lemma memory_metric_ok: "memory_metric t m = Some (m', out) \<Longrightarrow> metrics_ok m \<Longrightarrow> metrics_ok m'"
  by (auto simp: memory_metric_def metrics_ok_def Let_def bind_eq_Some_conv div_le_self_u32 split: if_splits)

lemma fairness_metric_ok: "fairness_metric ts n m = Some (m', out) \<Longrightarrow> metrics_ok m \<Longrightarrow> metrics_ok m'"
  by (auto simp: fairness_metric_def metrics_ok_def Let_def bind_eq_Some_conv split: if_splits)

lemma quarter_sum:
  assumes "metrics_ok m"
  shows "norm_throughput m div 4 + J_cpu_scaled m div 4 + E_fs_scaled m div 4 + M_over_scaled m div 4 \<le> SCALE_FACTOR"
    and "unat (norm_throughput m div 4 + J_cpu_scaled m div 4 + E_fs_scaled m div 4 + M_over_scaled m div 4) =
      unat (norm_throughput m) div 4 + unat (J_cpu_scaled m) div 4 + unat (E_fs_scaled m) div 4 +
      unat (M_over_scaled m) div 4"
proof -
  have le: "unat (norm_throughput m) \<le> 1000000" "unat (J_cpu_scaled m) \<le> 1000000"
      "unat (E_fs_scaled m) \<le> 1000000" "unat (M_over_scaled m) \<le> 1000000"
    using assms by (simp_all add: metrics_ok_def word_le_nat_alt SCALE_FACTOR_def)
  then show eq: "unat (norm_throughput m div 4 + J_cpu_scaled m div 4 + E_fs_scaled m div 4 + M_over_scaled m div 4) =
      unat (norm_throughput m) div 4 + unat (J_cpu_scaled m) div 4 + unat (E_fs_scaled m) div 4 +
      unat (M_over_scaled m) div 4"
    by (simp add: unat_u32_plus unat_u32_div)
  show "norm_throughput m div 4 + J_cpu_scaled m div 4 + E_fs_scaled m div 4 + M_over_scaled m div 4 \<le> SCALE_FACTOR"
    using le unfolding word_le_nat_alt eq by (simp add: SCALE_FACTOR_def)
qed

text \<open>The range of throughputs seen so far brackets the current one.\<close>

lemma throughput_metric_range:
  assumes "throughput_metric n t m = Some (m', out)" and "0 < sint t"
  shows "min_throughput m' \<le> n * SCALE_FACTOR div t" and "n * SCALE_FACTOR div t \<le> max_throughput m'"
    and "min_throughput m' \<le> min_throughput m" and "max_throughput m \<le> max_throughput m'"
  using assms
  by (auto simp: throughput_metric_def Let_def bind_eq_Some_conv not_less split: if_splits)

section \<open>Lemmas: waiting\<close>

text \<open>The process ids that the \<open>wait\<close> calls of the loop return, in order.\<close>

fun wait_results :: "'e os \<Rightarrow> nat \<Rightarrow> run_state \<times> 'e \<Rightarrow> u32 list" where
  "wait_results os 0 s = []"
| "wait_results os (Suc n) s = fst (os_wait os (snd s)) #
     (case wait_one os s of Some s' \<Rightarrow> wait_results os n s' | None \<Rightarrow> [])"

lemma find_pid_spec:
  "pid \<in> set (take (n - j) ps) \<Longrightarrow> \<exists>k. find_pid ps j n pid = int (j + k) \<and> k < n - j \<and> k < length ps \<and> ps ! k = pid"
proof (induction ps arbitrary: j)
  case Nil
  then show ?case by simp
next
  case (Cons p ps)
  then have j: "j < n" by (cases "n - j") auto
  show ?case
  proof (cases "p = pid")
    case True
    with j show ?thesis by (auto intro!: exI [of _ 0])
  next
    case False
    with Cons.prems j have "pid \<in> set (take (n - (j + 1)) ps)"
      using Suc_diff_Suc [OF j] by (metis Suc_eq_plus1 set_ConsD take_Suc_Cons)
    from Cons.IH [OF this] obtain k where
      "find_pid ps (j + 1) n pid = int (j + 1 + k)" "k < n - (j + 1)" "k < length ps" "ps ! k = pid" by blast
    with False j show ?thesis by (auto intro!: exI [of _ "Suc k"])
  qed
qed

text \<open>The state of the arrays while the children are being collected.\<close>

definition run_ok :: "run_state \<Rightarrow> bool" where
  "run_ok st \<longleftrightarrow> pid_index st \<le> MAX_PROCS \<and> length (pids st) = MAX_PROCS \<and> length (start_times st) = MAX_PROCS \<and>
     length (end_times st) = MAX_PROCS \<and> length (execution_times st) = MAX_PROCS"

lemma run_ok_initial: "run_ok initial_run"
  by (simp add: run_ok_def initial_run_def)

lemma wait_one_known:
  assumes "run_ok st" and "distinct (take (pid_index st) (pids st))"
    and "fst (os_wait os e) \<in> set (take (pid_index st) (pids st))"
  shows "\<exists>k st' e'. wait_one os (st, e) = Some (st', e') \<and> run_ok st' \<and> k < pid_index st \<and>
    pids st ! k = fst (os_wait os e) \<and> pids st' = pids st \<and> pid_index st' = pid_index st \<and>
    start_times st' = start_times st \<and> completed st' = completed st + 1 \<and>
    (\<exists>t. execution_times st' = (execution_times st)[k := Some t])"
proof -
  obtain pid e1 where w: "os_wait os e = (pid, e1)" by force
  with assms(3) find_pid_spec [of pid "pid_index st" 0 "pids st"] obtain k where
    k: "find_pid (pids st) 0 (pid_index st) pid = int k" "k < pid_index st" "pids st ! k = pid" by auto
  obtain t e2 where u: "os_uptime os e1 = (t, e2)" by force
  have "k < MAX_PROCS" using k(2) assms(1) by (simp add: run_ok_def)
  with w k u assms(1) show ?thesis
    by (auto simp: wait_one_def array_simps run_ok_def Let_def intro!: exI [of _ k])
qed

text \<open>
  If the \<open>wait\<close> calls return the recorded children, each once, then the loop returns with every
  execution time assigned. The invariant: the pids still to come are those whose time is missing.
\<close>

definition missing :: "run_state \<Rightarrow> nat set" where
  "missing st = {k. k < pid_index st \<and> execution_times st ! k = None}"

lemma wait_loop_gen:
  assumes "run_ok st" and "distinct (take (pid_index st) (pids st))"
    and "n = card (missing st)" and "distinct (wait_results os n (st, e))"
    and "set (wait_results os n (st, e)) = (\<lambda>k. pids st ! k) ` missing st"
    and "k0 + n = hi"
  shows "\<exists>st' e'. for_loop k0 hi (\<lambda>i. wait_one os) (st, e) = Some (st', e') \<and> run_ok st' \<and>
    pid_index st' = pid_index st \<and> missing st' = {} \<and> completed st' = completed st + of_nat n"
  using assms
proof (induction n arbitrary: st e k0)
  case 0
  have "finite (missing st)" by (simp add: missing_def)
  with 0 show ?case by auto
next
  case (Suc n)
  let ?P = "take (pid_index st) (pids st)"
  let ?pid = "fst (os_wait os e)"
  have len: "pid_index st \<le> length (pids st)" using Suc.prems(1) by (simp add: run_ok_def)
  have fin: "finite (missing st)" by (simp add: missing_def)
  have "?pid \<in> set (wait_results os (Suc n) (st, e))" by simp
  then obtain m where m: "m \<in> missing st" "pids st ! m = ?pid" unfolding Suc.prems(5) by auto
  then have "m < pid_index st" by (simp add: missing_def)
  then have "?pid \<in> set ?P" using m(2) len by (auto simp: in_set_conv_nth)
  from wait_one_known [OF Suc.prems(1,2) this] obtain k st1 e1 where
    one: "wait_one os (st, e) = Some (st1, e1)" and ok1: "run_ok st1" and k: "k < pid_index st"
    and same: "pids st1 = pids st" "pid_index st1 = pid_index st" and pk: "pids st ! k = ?pid"
    and c1: "completed st1 = completed st + 1"
    and upd: "\<exists>t. execution_times st1 = (execution_times st)[k := Some t]" by blast
  have inj: "i = j" if "i < pid_index st" "j < pid_index st" "pids st ! i = pids st ! j" for i j
    using Suc.prems(2) that len by (simp add: distinct_conv_nth) (metis nth_take)
  have km: "k = m" using inj [OF k \<open>m < pid_index st\<close>] pk m(2) by simp
  have "k < length (execution_times st)" using k Suc.prems(1) by (simp add: run_ok_def)
  with upd same have miss: "missing st1 = missing st - {k}"
    by (auto simp: missing_def nth_list_update split: if_splits)
  have card: "n = card (missing st1)" using Suc.prems(3) fin m(1) km miss by simp
  let ?rest = "wait_results os n (st1, e1)"
  have res: "wait_results os (Suc n) (st, e) = ?pid # ?rest" using one by simp
  have "set ?rest = (\<lambda>k. pids st1 ! k) ` missing st1"
  proof -
    have "set ?rest = (\<lambda>k. pids st ! k) ` missing st - {?pid}"
      using Suc.prems(4,5) unfolding res by auto
    also have "\<dots> = (\<lambda>k. pids st ! k) ` (missing st - {k})"
      using pk inj k by (auto simp: missing_def)
    finally show ?thesis using miss same by simp
  qed
  moreover have "distinct ?rest" using Suc.prems(4) unfolding res by simp
  moreover have "distinct (take (pid_index st1) (pids st1))" using Suc.prems(2) same by simp
  moreover have "k0 + 1 + n = hi" using Suc.prems(6) by simp
  ultimately obtain st' e' where "for_loop (k0 + 1) hi (\<lambda>i. wait_one os) (st1, e1) = Some (st', e')"
    "run_ok st'" "pid_index st' = pid_index st1" "missing st' = {}"
    "completed st' = completed st1 + of_nat n"
    using Suc.IH [OF ok1 _ card, of e1 "k0 + 1"] by blast
  moreover have "for_loop k0 hi (\<lambda>i. wait_one os) (st, e) = for_loop (k0 + 1) hi (\<lambda>i. wait_one os) (st1, e1)"
    using for_loop_step [of k0 hi "\<lambda>i. wait_one os" "(st, e)"] one Suc.prems(6) by simp
  ultimately show ?case using c1 same by simp
qed

lemma sum_times_total:
  assumes "n \<le> length ts" and "\<And>k. k < n \<Longrightarrow> ts ! k \<noteq> None"
  shows "\<exists>s. sum_times ts n = Some s"
proof -
  have "map (\<lambda>x. Some (the x)) (take n ts) = take n ts"
    by (rule map_idI) (use assms in \<open>force simp: in_set_conv_nth\<close>)
  then have "ts = map Some (map the (take n ts)) @ drop n ts" by (simp add: o_def)
  from sum_times_spec [OF this] assms(1) show ?thesis by auto
qed

lemma fairness_metric_total:
  assumes "n \<le> length ts" and "\<And>k. k < n \<Longrightarrow> ts ! k \<noteq> None"
  shows "\<exists>r. fairness_metric ts n m = Some r"
proof -
  obtain a b where sums: "sum_times ts n = Some (a, b)" using sum_times_total [OF assms] by auto
  obtain f where "\<And>j. print_metric ''J_cpu (Process Fairness)'' j = Some (f j)"
    using print_metric_Some by metis
  with sums show ?thesis by (simp add: fairness_metric_def Let_def udiv_def)
qed

section \<open>Properties\<close>

text \<open>C24: while the sum of the \<open>n\<close> execution times is small enough for the 32-bit products not to wrap,
  \<open>J_cpu_scaled\<close> is exactly Jain's fairness index of the times in millionths, rounded down, and it
  never exceeds \<open>SCALE_FACTOR\<close>, so the clamp in the code is not what bounds it.\<close>

theorem fairness_is_jain:
  assumes "ts = map Some xs @ rest" and "0 < sum_list (map unat xs)"
    and "sum_list (map unat xs) * sum_list (map unat xs) * 1000000 < 2 ^ 32"
    and "length xs * sum_sq (map unat xs) < 2 ^ 32"
  shows "\<exists>m' out. fairness_metric ts (length xs) m = Some (m', out) \<and>
    unat (J_cpu_scaled m') =
      sum_list (map unat xs) * sum_list (map unat xs) * 1000000 div (length xs * sum_sq (map unat xs)) \<and>
    unat (J_cpu_scaled m') \<le> 1000000"
  by (rule fairness_exact [OF assms])

theorem fairness_is_jain_witness:
  "\<exists>m' out. fairness_metric (map Some [10, 20, 30] @ [None]) 3 initial_metrics = Some (m', out) \<and>
    unat (J_cpu_scaled m') = 857142"
proof -
  define xs :: "u32 list" where "xs = [10, 20, 30]"
  have "sum_list (map unat xs) = 60" "sum_sq (map unat xs) = 1400" "length xs = 3"
    by (simp_all add: xs_def sum_sq_def)
  then show ?thesis
    using fairness_is_jain [of "map Some xs @ [None]" xs "[None]" initial_metrics]
    by (auto simp: xs_def [symmetric])
qed

lemma fairness_metric_value:
  assumes "ts = map Some xs @ rest" and "s = sum_list xs" and "q = sum_list (map (\<lambda>x. x * x) xs)"
    and "q \<noteq> 0" and "of_nat (length xs) * q \<noteq> 0"
    and "j = (s * (s * SCALE_FACTOR)) div (of_nat (length xs) * q)" and "j \<le> SCALE_FACTOR"
  shows "\<exists>out. fairness_metric ts (length xs) m = Some (m\<lparr>J_cpu_scaled := j\<rparr>, out)"
proof -
  obtain tx where "print_metric ''J_cpu (Process Fairness)'' j = Some tx" using print_metric_Some by blast
  moreover have "sum_times ts (length xs) = Some (s, q)" using sum_times_spec [OF assms(1)] assms(2,3) by simp
  moreover have "udiv (s * (s * SCALE_FACTOR)) (of_nat (length xs) * q) = Some j" "\<not> SCALE_FACTOR < j"
    using assms(5,6,7) by (simp_all add: udiv_def)
  ultimately show ?thesis
    using assms(4,5) by (simp add: fairness_metric_def Let_def word_gt_0 del: udiv_eq_Some)
qed

text \<open>The bound on the times is needed: with twenty processes of 100 ticks each, a perfectly fair
  schedule whose index is 1, the 32-bit product wraps and the code computes 346 millionths.\<close>

lemma fairness_overflow:
  "\<exists>out. fairness_metric (replicate 20 (Some 100)) 20 initial_metrics =
    Some (initial_metrics\<lparr>J_cpu_scaled := 346\<rparr>, out)"
  using fairness_metric_value [of "replicate 20 (Some 100)" "replicate 20 100" "[]" 2000 200000 346 initial_metrics]
  by (simp add: SCALE_FACTOR_def sum_list_replicate)

lemma flow_case_Done:
  "(case y of Child p e \<Rightarrow> Some (InChild p e) | Parent st e \<Rightarrow> f st e) = Some (Done a b) \<longleftrightarrow>
    (\<exists>st e. y = Parent st e \<and> f st e = Some (Done a b))"
  by (cases y) auto

lemma run_experiment_metrics_ok:
  assumes "run_experiment os c io m e = Some (Done m' e')" and "metrics_ok m"
  shows "metrics_ok m'"
  using assms
  by (auto simp: run_experiment_def Let_def bind_eq_Some_conv case_prod_beta flow_case_Done
      dest!: throughput_metric_ok fs_metric_ok memory_metric_ok fairness_metric_ok)

text \<open>A round that starts with all four metrics at most \<open>SCALE_FACTOR\<close> ends with all four at most
  \<open>SCALE_FACTOR\<close>, however the children behave; and \<open>S_perform\<close>, the sum of the four quarters, is then
  at most \<open>SCALE_FACTOR\<close>, so its clamp never changes it and the sum does not wrap.\<close>

theorem round_keeps_metrics_in_range:
  assumes "run_experiment os c io m e = Some (Done m' e')" and "metrics_ok m"
    and "system_performance m' = Some (Some s, out)"
  shows "metrics_ok m' \<and> s \<le> SCALE_FACTOR \<and>
    unat s = unat (norm_throughput m') div 4 + unat (J_cpu_scaled m') div 4 +
      unat (E_fs_scaled m') div 4 + unat (M_over_scaled m') div 4"
proof -
  have ok: "metrics_ok m'" by (rule run_experiment_metrics_ok [OF assms(1,2)])
  have "s = norm_throughput m' div 4 + J_cpu_scaled m' div 4 + E_fs_scaled m' div 4 + M_over_scaled m' div 4"
    using assms(3) quarter_sum(1) [OF ok]
    by (auto simp: system_performance_def Let_def bind_eq_Some_conv split: if_splits)
  with quarter_sum [OF ok] ok show ?thesis by simp
qed

text \<open>If the \<open>wait\<close> calls return the recorded children, each once and in any order, the waiting loop
  returns with the execution time of every child assigned, the completed count advanced by the number
  of children, and the fairness computation that follows reads no unassigned time.\<close>

theorem wait_loop_collects_all:
  assumes "run_ok st" and "distinct (take (pid_index st) (pids st))"
    and "missing st = {..<pid_index st}"
    and "distinct (wait_results os (pid_index st) (st, e))"
    and "set (wait_results os (pid_index st) (st, e)) = set (take (pid_index st) (pids st))"
  shows "\<exists>st' e'. wait_loop os st e = Some (st', e') \<and> completed st' = completed st + of_nat (pid_index st) \<and>
    (\<forall>k < pid_index st. execution_times st' ! k \<noteq> None) \<and>
    fairness_metric (execution_times st') (pid_index st') m \<noteq> None"
proof -
  have len: "pid_index st \<le> length (pids st)" using assms(1) by (simp add: run_ok_def)
  have "set (take (pid_index st) (pids st)) = (\<lambda>k. pids st ! k) ` {..<pid_index st}"
    using nth_image [OF len] by (simp add: lessThan_atLeast0)
  then have "set (wait_results os (pid_index st) (st, e)) = (\<lambda>k. pids st ! k) ` missing st"
    by (simp only: assms(3,5))
  moreover have "pid_index st = card (missing st)" by (simp only: assms(3) card_lessThan)
  ultimately obtain st' e' where
    w: "for_loop 0 (pid_index st) (\<lambda>i. wait_one os) (st, e) = Some (st', e')" "run_ok st'"
      "pid_index st' = pid_index st" "missing st' = {}" "completed st' = completed st + of_nat (pid_index st)"
    using wait_loop_gen [OF assms(1,2) _ assms(4), of 0 "pid_index st"] by (metis add_0)
  then have all: "execution_times st' ! k \<noteq> None" if "k < pid_index st" for k
    using that by (auto simp: missing_def)
  have "pid_index st' \<le> length (execution_times st')" using w(2) by (simp add: run_ok_def)
  then obtain r where "fairness_metric (execution_times st') (pid_index st') m = Some r"
    using fairness_metric_total [of "pid_index st'" "execution_times st'" m] all w(3) by auto
  then have "fairness_metric (execution_times st') (pid_index st') m \<noteq> None" by simp
  moreover have "\<forall>k < pid_index st. execution_times st' ! k \<noteq> None" using all by blast
  ultimately show ?thesis
    unfolding wait_loop_def by (intro exI [of _ st'] exI [of _ e'] conjI w(1,5))
qed

text \<open>A small environment for the witnesses: the clock is the state, one child with pid 5.\<close>

definition clock_os :: "u32 os" where
  "clock_os = \<lparr>os_fork = (\<lambda>e. (5, e)), os_wait = (\<lambda>e. (5, e)), os_uptime = (\<lambda>e. (e, e + 3)),
     os_sleep = (\<lambda>n e. e + n), os_print = (\<lambda>_ e. e), os_read_file = (\<lambda>_ e. (None, e)),
     os_unlink = (\<lambda>_ e. e)\<rparr>"

lemma wait_loop_collects_all_witness:
  "\<exists>st' e'. wait_loop clock_os (initial_run\<lparr>pids := 5 # replicate 19 0, pid_index := 1\<rparr>) 7 = Some (st', e') \<and>
    completed st' = 1"
proof -
  let ?st = "initial_run\<lparr>pids := 5 # replicate 19 0, pid_index := 1\<rparr>"
  have st: "pid_index ?st = 1" "take 1 (pids ?st) = [5]" "completed ?st = 0"
    "execution_times ?st = replicate MAX_PROCS None" by (simp_all add: initial_run_def)
  have ok: "run_ok ?st" by (simp add: run_ok_def initial_run_def MAX_PROCS_def)
  have w: "wait_results clock_os 1 (?st, 7) = [5]" by code_simp
  have "missing ?st = {..<pid_index ?st}" by (auto simp: missing_def initial_run_def MAX_PROCS_def)
  from wait_loop_collects_all [of ?st clock_os 7 initial_metrics, unfolded st w, OF ok _ this [unfolded st]]
  show ?thesis by auto
qed

lemma round_keeps_metrics_in_range_witness:
  "\<exists>m' e'. run_experiment clock_os 1 0
      \<lparr>min_throughput = 1, max_throughput = 9, norm_throughput = 5, E_fs_scaled = 9, M_over_scaled = 8,
       J_cpu_scaled = 7\<rparr> 0 = Some (Done m' e') \<and> metrics_ok m'"
proof -
  let ?m = "\<lparr>min_throughput = 1, max_throughput = 9, norm_throughput = 5, E_fs_scaled = 9, M_over_scaled = 8,
       J_cpu_scaled = 7\<rparr>"
  have ok: "metrics_ok ?m" by (simp add: metrics_ok_def SCALE_FACTOR_def)
  have "case run_experiment clock_os 1 0 ?m 0 of Some (Done m' e') \<Rightarrow>
      (case system_performance m' of Some (Some s, out) \<Rightarrow> True | _ \<Rightarrow> False) | _ \<Rightarrow> False" by code_simp
  then obtain m' e' s out where r: "run_experiment clock_os 1 0 ?m 0 = Some (Done m' e')"
    and s: "system_performance m' = Some (Some s, out)"
    by (auto split: option.splits round.splits prod.splits)
  from round_keeps_metrics_in_range [OF r ok s] r show ?thesis
    by (intro exI [of _ m'] exI [of _ e'] conjI) (simp_all only:)
qed

end
