(* ===== verification/CMem.thy ===== *)
theory CMem
  imports Prelude
begin

text \<open>
  Flat byte-addressed memory of the 32-bit kernel, and the routines of \<open>string.c\<close> and \<open>ulib.c\<close>
  on it. A pointer is a 32-bit word and pointer arithmetic wraps. Loops that count down an unsigned
  \<open>n\<close> recurse on its value; the scans for a terminating zero may run for ever in C and are partial
  functions whose value \<open>None\<close> means that they do not return. The lemmas give each routine its
  meaning on whole blocks of memory, overlapping blocks included.
\<close>

type_synonym mem = "u32 \<Rightarrow> byte"

section \<open>Words in memory\<close>

definition load32 :: "mem \<Rightarrow> u32 \<Rightarrow> u32" where
  "load32 m a = ucast (m a) OR push_bit 8 (ucast (m (a + 1))) OR push_bit 16 (ucast (m (a + 2)))
     OR push_bit 24 (ucast (m (a + 3)))"

definition store32 :: "mem \<Rightarrow> u32 \<Rightarrow> u32 \<Rightarrow> mem" where
  "store32 m a v = m(a := ucast v, a + 1 := ucast (drop_bit 8 v), a + 2 := ucast (drop_bit 16 v),
     a + 3 := ucast (drop_bit 24 v))"

section \<open>string.c\<close>

text \<open>\<open>rep stosb\<close> and \<open>rep stosl\<close> (\<open>x86.h\<close>).\<close>

fun stosb :: "mem \<Rightarrow> u32 \<Rightarrow> byte \<Rightarrow> nat \<Rightarrow> mem" where
  "stosb m addr data 0 = m"
| "stosb m addr data (Suc cnt) = stosb (m(addr := data)) (addr + 1) data cnt"

fun stosl :: "mem \<Rightarrow> u32 \<Rightarrow> u32 \<Rightarrow> nat \<Rightarrow> mem" where
  "stosl m addr data 0 = m"
| "stosl m addr data (Suc cnt) = stosl (store32 m addr data) (addr + 4) data cnt"

text \<open>\<open>c &= 0xFF; (c<<24)|(c<<16)|(c<<8)|c\<close>\<close>

definition fill_word :: "u32 \<Rightarrow> u32" where
  "fill_word c = (let c = c AND 255 in push_bit 24 c OR push_bit 16 c OR push_bit 8 c OR c)"

definition memset :: "mem \<Rightarrow> u32 \<Rightarrow> u32 \<Rightarrow> u32 \<Rightarrow> mem" where
  "memset m dst c n =
     (if dst mod 4 = 0 \<and> n mod 4 = 0 then stosl m dst (fill_word c) (unat (n div 4))
      else stosb m dst (ucast c) (unat n))"

fun memcmp_loop :: "mem \<Rightarrow> u32 \<Rightarrow> u32 \<Rightarrow> nat \<Rightarrow> int" where
  "memcmp_loop m s1 s2 0 = 0"
| "memcmp_loop m s1 s2 (Suc n) =
     (if m s1 \<noteq> m s2 then uint (m s1) - uint (m s2) else memcmp_loop m (s1 + 1) (s2 + 1) n)"

definition memcmp :: "mem \<Rightarrow> u32 \<Rightarrow> u32 \<Rightarrow> u32 \<Rightarrow> int" where
  "memcmp m v1 v2 n = memcmp_loop m v1 v2 (unat n)"

fun move_down :: "mem \<Rightarrow> u32 \<Rightarrow> u32 \<Rightarrow> nat \<Rightarrow> mem" where
  "move_down m d s 0 = m"
| "move_down m d s (Suc n) = move_down (m(d - 1 := m (s - 1))) (d - 1) (s - 1) n"

fun move_up :: "mem \<Rightarrow> u32 \<Rightarrow> u32 \<Rightarrow> nat \<Rightarrow> mem" where
  "move_up m d s 0 = m"
| "move_up m d s (Suc n) = move_up (m(d := m s)) (d + 1) (s + 1) n"

definition memmove :: "mem \<Rightarrow> u32 \<Rightarrow> u32 \<Rightarrow> u32 \<Rightarrow> mem" where
  "memmove m dst src n =
     (if src < dst \<and> src + n > dst then move_down m (dst + n) (src + n) (unat n)
      else move_up m dst src (unat n))"

fun strncmp_loop :: "mem \<Rightarrow> u32 \<Rightarrow> u32 \<Rightarrow> nat \<Rightarrow> int" where
  "strncmp_loop m p q 0 = 0"
| "strncmp_loop m p q (Suc n) =
     (if m p \<noteq> 0 \<and> m p = m q then strncmp_loop m (p + 1) (q + 1) n else uint (m p) - uint (m q))"

definition strncmp :: "mem \<Rightarrow> u32 \<Rightarrow> u32 \<Rightarrow> u32 \<Rightarrow> int" where
  "strncmp m p q n = strncmp_loop m p q (unat n)"

text \<open>
  \<open>strncpy\<close>: \<open>copy_nonzero\<close> is the first loop, which stops after the zero it copies or when the
  count is used up, and returns the remaining count and pointer; the second loop fills with zeros.
\<close>

fun copy_nonzero :: "mem \<Rightarrow> u32 \<Rightarrow> u32 \<Rightarrow> nat \<Rightarrow> mem \<times> u32 \<times> nat" where
  "copy_nonzero m s t 0 = (m, s, 0)"
| "copy_nonzero m s t (Suc n) =
     (let m' = m(s := m t) in if m t \<noteq> 0 then copy_nonzero m' (s + 1) (t + 1) n else (m', s + 1, n))"

definition strncpy :: "mem \<Rightarrow> u32 \<Rightarrow> u32 \<Rightarrow> int \<Rightarrow> mem" where
  "strncpy m s t n = (case copy_nonzero m s t (nat n) of (m, s, k) \<Rightarrow> stosb m s 0 k)"

fun safe_copy :: "mem \<Rightarrow> u32 \<Rightarrow> u32 \<Rightarrow> nat \<Rightarrow> mem" where
  "safe_copy m s t 0 = m(s := 0)"
| "safe_copy m s t (Suc n) =
     (let m' = m(s := m t) in
      if m t \<noteq> 0 then safe_copy m' (s + 1) (t + 1) n else m'(s + 1 := 0))"

definition safestrcpy :: "mem \<Rightarrow> u32 \<Rightarrow> u32 \<Rightarrow> int \<Rightarrow> mem" where
  "safestrcpy m s t n = (if n \<le> 0 then m else safe_copy m s t (nat (n - 1)))"

partial_function (option) strlen_loop :: "mem \<Rightarrow> u32 \<Rightarrow> u32 \<Rightarrow> u32 option" where
  "strlen_loop m s n = (if m (s + n) = 0 then Some n else strlen_loop m s (n + 1))"

definition strlen :: "mem \<Rightarrow> u32 \<Rightarrow> u32 option" where
  "strlen m s = strlen_loop m s 0"

section \<open>ulib.c\<close>

partial_function (option) strcpy_loop :: "mem \<Rightarrow> u32 \<Rightarrow> u32 \<Rightarrow> mem option" where
  "strcpy_loop m s t = (let m' = m(s := m t) in
     if m t \<noteq> 0 then strcpy_loop m' (s + 1) (t + 1) else Some m')"

definition strcpy :: "mem \<Rightarrow> u32 \<Rightarrow> u32 \<Rightarrow> mem option" where
  "strcpy m s t = strcpy_loop m s t"

partial_function (option) strcmp :: "mem \<Rightarrow> u32 \<Rightarrow> u32 \<Rightarrow> int option" where
  "strcmp m p q =
     (if m p \<noteq> 0 \<and> m p = m q then strcmp m (p + 1) (q + 1) else Some (uint (m p) - uint (m q)))"

text \<open>\<open>strchr\<close> returns the null pointer 0 when the character does not occur.\<close>

partial_function (option) strchr :: "mem \<Rightarrow> u32 \<Rightarrow> byte \<Rightarrow> u32 option" where
  "strchr m s c = (if m s = 0 then Some 0 else if m s = c then Some s else strchr m (s + 1) c)"

partial_function (option) atoi_from :: "mem \<Rightarrow> u32 \<Rightarrow> u32 \<Rightarrow> u32 option" where
  "atoi_from m s n =
     (if 48 \<le> m s \<and> m s \<le> 57 then atoi_from m (s + 1) (n * 10 + ucast (m s) - 48) else Some n)"

definition atoi :: "mem \<Rightarrow> u32 \<Rightarrow> u32 option" where
  "atoi m s = atoi_from m s 0"

definition ulib_memset :: "mem \<Rightarrow> u32 \<Rightarrow> u32 \<Rightarrow> u32 \<Rightarrow> mem" where
  "ulib_memset m dst c n = stosb m dst (ucast c) (unat n)"

definition ulib_memmove :: "mem \<Rightarrow> u32 \<Rightarrow> u32 \<Rightarrow> int \<Rightarrow> mem" where
  "ulib_memmove m vdst vsrc n = move_up m vdst vsrc (nat n)"

section \<open>Blocks of memory\<close>

text \<open>\<open>in_block a p n\<close>: the address \<open>a\<close> is one of the \<open>n\<close> bytes from \<open>p\<close> (offsets wrap).\<close>

definition in_block :: "u32 \<Rightarrow> u32 \<Rightarrow> nat \<Rightarrow> bool" where
  "in_block a p n \<longleftrightarrow> unat (a - p) < n"

definition bytes_at :: "mem \<Rightarrow> u32 \<Rightarrow> nat \<Rightarrow> byte list" where
  "bytes_at m p n = map (\<lambda>i. m (p + of_nat i)) [0..<n]"

lemma unat_pred_u32: "x \<noteq> 0 \<Longrightarrow> unat (x - 1 :: u32) = unat x - 1"
  by (subst unat_u32_minus) (simp_all add: word_le_nat_alt unat_gt_0 Suc_leI)

lemma in_block_Suc:
  assumes "n < 2 ^ 32"
  shows "in_block a p (Suc n) \<longleftrightarrow> a = p \<or> in_block a (p + 1) n"
proof (cases "a = p")
  case True
  then show ?thesis by (simp add: in_block_def)
next
  case False
  then have "a - p \<noteq> 0" by simp
  moreover have "a - (p + 1) = (a - p) - 1" by simp
  ultimately have "unat (a - (p + 1)) = unat (a - p) - 1" and "0 < unat (a - p)"
    using unat_pred_u32 [of "a - p"] by (simp_all only: unat_gt_0 not_False_eq_True simp_thms)
  with False show ?thesis unfolding in_block_def by auto
qed

lemma in_block_0 [simp]: "\<not> in_block a p 0"
  by (simp add: in_block_def)

lemma not_in_block_start:
  assumes "n < 2 ^ 32"
  shows "\<not> in_block p (p + 1) n"
proof -
  have "unat (- 1 :: u32) = 2 ^ 32 - 1" by (simp add: unat_eq_nat_uint uint_u32_uminus)
  with assms show ?thesis by (simp add: in_block_def)
qed

lemma in_block_offset: "i < n \<Longrightarrow> n \<le> 2 ^ 32 \<Longrightarrow> in_block (p + of_nat i) p n"
  by (simp add: in_block_def unat_of_nat_u32)

lemma in_block_exists: "in_block a p n \<Longrightarrow> \<exists>i < n. a = p + of_nat i"
  unfolding in_block_def by (rule exI [of _ "unat (a - p)"]) simp

section \<open>Lemmas: filling\<close>

lemma stosb_spec:
  assumes "n \<le> 2 ^ 32"
  shows "stosb m p c n a = (if in_block a p n then c else m a)"
  using assms
proof (induction n arbitrary: m p)
  case 0
  then show ?case by simp
next
  case (Suc n)
  then show ?case by (auto simp: in_block_Suc not_in_block_start)
qed

lemma load32_stored: "load32 (store32 m a v) a = v"
proof -
  have ne: "a + 1 \<noteq> a" "a + 2 \<noteq> a" "a + 3 \<noteq> a" "a + 2 \<noteq> a + 1" "a + 3 \<noteq> a + 1" "a + 3 \<noteq> a + 2"
    by (simp_all add: add_left_cancel)
  have "load32 (store32 m a v) a = ucast (ucast v :: byte) OR push_bit 8 (ucast (ucast (drop_bit 8 v) :: byte))
      OR push_bit 16 (ucast (ucast (drop_bit 16 v) :: byte)) OR push_bit 24 (ucast (ucast (drop_bit 24 v) :: byte))"
    using ne by (simp add: load32_def store32_def)
  also have "\<dots> = v"
  proof (rule bit_word_eqI)
    fix k assume k: "k < LENGTH(32)"
    consider "k < 8" | "8 \<le> k" "k < 16" | "16 \<le> k" "k < 24" | "24 \<le> k" by linarith
    then show "bit ((ucast (ucast v :: byte) :: u32) OR push_bit 8 (ucast (ucast (drop_bit 8 v) :: byte))
      OR push_bit 16 (ucast (ucast (drop_bit 16 v) :: byte))
      OR push_bit 24 (ucast (ucast (drop_bit 24 v) :: byte))) k = bit v k"
      using k by cases (auto simp: bit_simps)
  qed
  finally show ?thesis .
qed

lemma load32_cong:
  "m' a = m a \<Longrightarrow> m' (a + 1) = m (a + 1) \<Longrightarrow> m' (a + 2) = m (a + 2) \<Longrightarrow> m' (a + 3) = m (a + 3) \<Longrightarrow>
   load32 m' a = load32 m a"
  by (simp add: load32_def)

text \<open>Zeroing memory by words is zeroing it by bytes, as in every kernel call with \<open>c = 0\<close>; and a
  word filled with one byte value stores that value four times.\<close>

lemma and_255: "c AND 255 = take_bit 8 (c :: u32)"
  by (simp add: take_bit_eq_mask mask_eq_exp_minus_1)

lemma bit_fill_word:
  "bit (fill_word c) k \<longleftrightarrow> k < 32 \<and> bit c (k mod 8)"
proof (cases "k < 32")
  case True
  consider "k < 8" | "8 \<le> k" "k < 16" | "16 \<le> k" "k < 24" | "24 \<le> k" by linarith
  then have "k mod 8 = (if k < 8 then k else if k < 16 then k - 8 else if k < 24 then k - 16 else k - 24)"
    using True by cases (simp_all add: mod_if)
  with True show ?thesis
    unfolding fill_word_def Let_def and_255 bit_or_iff bit_push_bit_iff bit_take_bit_iff
    by (auto split: if_splits)
next
  case False
  then show ?thesis by (simp add: impossible_bit)
qed

lemma fill_word_bytes:
  "(ucast (fill_word c) :: byte) = ucast c" "(ucast (drop_bit 8 (fill_word c)) :: byte) = ucast c"
  "(ucast (drop_bit 16 (fill_word c)) :: byte) = ucast c"
  "(ucast (drop_bit 24 (fill_word c)) :: byte) = ucast c"
proof -
  have "(8 + n) mod 8 = n" "(16 + n) mod 8 = n" "(24 + n) mod 8 = n" if "n < 8" for n :: nat
    using that by presburger+
  then show "(ucast (fill_word c) :: byte) = ucast c" "(ucast (drop_bit 8 (fill_word c)) :: byte) = ucast c"
    "(ucast (drop_bit 16 (fill_word c)) :: byte) = ucast c"
    "(ucast (drop_bit 24 (fill_word c)) :: byte) = ucast c"
    by (auto intro!: bit_word_eqI simp: bit_simps bit_fill_word)
qed

lemma stosb_4:
  "stosb m p c (4 + k) = stosb (m(p := c, p + 1 := c, p + 2 := c, p + 3 := c)) (p + 4) c k"
proof -
  have "4 + k = Suc (Suc (Suc (Suc k)))" by simp
  moreover have "p + 1 + 1 = p + 2" "p + 1 + 1 + 1 = p + 3" "p + 1 + 1 + 1 + 1 = p + 4"
    by (simp_all add: add.assoc)
  ultimately show ?thesis by (simp only: stosb.simps)
qed

lemma stosl_spec:
  assumes "4 * k \<le> 2 ^ 32"
  shows "stosl m p (fill_word c) k = stosb m p (ucast c) (4 * k)"
  using assms
proof (induction k arbitrary: m p)
  case 0
  then show ?case by simp
next
  case (Suc k)
  have "4 * Suc k = 4 + 4 * k" by simp
  moreover have "store32 m p (fill_word c) = m(p := ucast c, p + 1 := ucast c, p + 2 := ucast c, p + 3 := ucast c)"
    by (simp only: store32_def fill_word_bytes)
  ultimately show ?case
    using Suc.IH Suc.prems by (simp only: stosl.simps stosb_4)
qed

lemma memset_spec:
  "memset m dst c n a = (if in_block a dst (unat n) then ucast c else m a)"
proof -
  have n: "unat n \<le> 2 ^ 32" by (rule unat_u32_pow)
  show ?thesis
  proof (cases "dst mod 4 = 0 \<and> n mod 4 = 0")
    case True
    then have "unat n mod 4 = 0" using unat_u32_mod [of n 4] by simp
    then have "4 * (unat n div 4) = unat n" by presburger
    then have "4 * unat (n div 4) = unat n" by (simp add: unat_u32_div)
    with True n show ?thesis
      by (simp add: memset_def stosl_spec) (simp add: stosb_spec)
  next
    case False
    with n show ?thesis by (auto simp add: memset_def stosb_spec)
  qed
qed

section \<open>Lemmas: copying\<close>

lemma move_up_spec:
  assumes "n < 2 ^ 32" and "\<And>i. 0 < i \<Longrightarrow> i < n \<Longrightarrow> s + of_nat i \<noteq> d"
  shows "move_up m d s n a = (if in_block a d n then m (s + (a - d)) else m a)"
  using assms
proof (induction n arbitrary: m d s)
  case 0
  then show ?case by simp
next
  case (Suc n)
  have IH: "move_up (m(d := m s)) (d + 1) (s + 1) n a =
      (if in_block a (d + 1) n then (m(d := m s)) (s + 1 + (a - (d + 1))) else (m(d := m s)) a)"
  proof (rule Suc.IH)
    fix i assume i: "0 < i" "i < n"
    show "s + 1 + of_nat i \<noteq> d + 1" using Suc.prems(2) [of i] i by (auto simp: algebra_simps)
  qed (use Suc.prems in simp)
  show ?case
  proof (cases "in_block a (d + 1) n")
    case True
    then obtain i where i: "i < n" "a = d + 1 + of_nat i" using in_block_exists by blast
    have "s + of_nat (Suc i) \<noteq> d" using Suc.prems(2) [of "Suc i"] i by simp
    then have "s + (a - d) \<noteq> d" using i(2) by (simp add: algebra_simps)
    moreover have "s + 1 + (a - (d + 1)) = s + (a - d)" by simp
    ultimately show ?thesis using IH True Suc.prems(1) by (simp add: in_block_Suc)
  next
    case False
    with IH Suc.prems(1) show ?thesis by (simp add: in_block_Suc)
  qed
qed

lemma in_block_last:
  assumes "n < 2 ^ 32"
  shows "in_block a p (Suc n) \<longleftrightarrow> a = p + of_nat n \<or> in_block a p n"
proof -
  have "unat (a - p) = n \<longleftrightarrow> a = p + of_nat n"
  proof
    assume "unat (a - p) = n"
    then have "of_nat n = a - p" by auto
    then show "a = p + of_nat n" by simp
  next
    assume "a = p + of_nat n"
    with assms show "unat (a - p) = n" by (simp add: unat_of_nat_u32)
  qed
  then show ?thesis unfolding in_block_def less_Suc_eq by blast
qed

lemma move_down_spec:
  assumes "n < 2 ^ 32" and "\<And>i. 0 < i \<Longrightarrow> i < n \<Longrightarrow> d + of_nat i \<noteq> s"
  shows "move_down m (d + of_nat n) (s + of_nat n) n a = (if in_block a d n then m (s + (a - d)) else m a)"
  using assms
proof (induction n arbitrary: m)
  case 0
  then show ?case by simp
next
  case (Suc n)
  let ?m = "m(d + of_nat n := m (s + of_nat n))"
  have IH: "move_down ?m (d + of_nat n) (s + of_nat n) n a = (if in_block a d n then ?m (s + (a - d)) else ?m a)"
    by (rule Suc.IH) (use Suc.prems in auto)
  have unfold: "move_down m (d + of_nat (Suc n)) (s + of_nat (Suc n)) (Suc n) =
      move_down ?m (d + of_nat n) (s + of_nat n) n" by (simp add: algebra_simps)
  show ?case
  proof (cases "in_block a d n")
    case True
    then obtain i where i: "i < n" "a = d + of_nat i" using in_block_exists by blast
    have "s + of_nat i \<noteq> d + of_nat n"
    proof
      assume eq: "s + of_nat i = d + of_nat n"
      have "d + of_nat (n - i) = d + of_nat n - of_nat i" using i by (simp add: of_nat_diff)
      then have "d + of_nat (n - i) = s" using eq by (metis add_diff_cancel_right')
      with Suc.prems(2) [of "n - i"] i show False by auto
    qed
    with i(2) have "s + (a - d) \<noteq> d + of_nat n" by simp
    with IH True unfold Suc.prems(1) show ?thesis by (simp add: in_block_last)
  next
    case False
    with IH unfold Suc.prems(1) show ?thesis by (auto simp: in_block_last)
  qed
qed

text \<open>\<open>memmove\<close> copies the old contents of the source, overlapping blocks included.\<close>

lemma memmove_copies:
  assumes d: "unat dst + unat n \<le> 2 ^ 32" and s: "unat src + unat n < 2 ^ 32"
  shows "memmove m dst src n a = (if in_block a dst (unat n) then m (src + (a - dst)) else m a)"
proof -
  have n: "unat n < 2 ^ 32" by (rule unat_u32_pow)
  have sn: "unat (src + of_nat i) = unat src + i" if "i \<le> unat n" for i
    using s that n by (simp add: unat_u32_plus unat_of_nat_u32)
  have nn: "of_nat (unat n) = n" by simp
  show ?thesis
  proof (cases "src < dst \<and> src + n > dst")
    case True
    have "dst + of_nat i \<noteq> src" if i: "0 < i" "i < unat n" for i
    proof
      assume eq: "dst + of_nat i = src"
      have "unat (dst + of_nat i) = unat dst + i"
        using d i n by (simp add: unat_u32_plus unat_of_nat_u32)
      with eq True show False by (simp add: word_less_nat_alt)
    qed
    then have "move_down m (dst + of_nat (unat n)) (src + of_nat (unat n)) (unat n) a =
        (if in_block a dst (unat n) then m (src + (a - dst)) else m a)"
      using n by (intro move_down_spec) auto
    then show ?thesis using True by (simp add: memmove_def)
  next
    case False
    have "src + of_nat i \<noteq> dst" if i: "0 < i" "i < unat n" for i
    proof
      assume eq: "src + of_nat i = dst"
      then have "unat dst = unat src + i" using sn [of i] i by simp
      moreover have "unat (src + n) = unat src + unat n" using sn [of "unat n"] nn by simp
      ultimately show False using False i by (simp add: word_less_nat_alt)
    qed
    then have "move_up m dst src (unat n) a = (if in_block a dst (unat n) then m (src + (a - dst)) else m a)"
      using n by (intro move_up_spec) auto
    with False show ?thesis unfolding memmove_def by (simp only: if_False)
  qed
qed

section \<open>Properties\<close>

text \<open>\<open>memmove\<close> copies the block the source held before the call, also when source and
  destination overlap in either direction, and changes no other byte (blocks that do not wrap around
  the end of the address space).\<close>

theorem memmove_overlapping:
  assumes "unat dst + unat n \<le> 2 ^ 32" and "unat src + unat n < 2 ^ 32"
  shows "memmove m dst src n a = (if in_block a dst (unat n) then m (src + (a - dst)) else m a)"
  by (rule memmove_copies [OF assms])

theorem memmove_overlapping_witness:
  "memmove (\<lambda>a. ucast a) 5 3 4 6 = 4 \<and> memmove (\<lambda>a. ucast a) 3 5 4 3 = 5"
  using memmove_overlapping [of 5 4 3 "\<lambda>a. ucast a" 6] memmove_overlapping [of 3 4 5 "\<lambda>a. ucast a" 3]
  by (simp add: in_block_def)

text \<open>\<open>memset\<close> fills exactly the \<open>n\<close> bytes with the low byte of \<open>c\<close>, whether it stores words or
  bytes.\<close>

theorem memset_fills:
  "memset m dst c n a = (if in_block a dst (unat n) then ucast c else m a)"
  by (rule memset_spec)

end
