(* ===== verification/Spinlock.thy ===== *)
theory Spinlock
  imports Prelude
begin

text \<open>
  Interrupt nesting and spin locks (\<open>spinlock.c\<close>). A processor is a record of the fields that
  \<open>pushcli\<close> and \<open>popcli\<close> use and of its interrupt flag; a lock is the record of \<open>spinlock.h\<close> without
  the recorded call stack, which is debugging output. A panic is \<open>None\<close>. The first part is the code as
  one processor runs it, where spinning on a lock that nobody releases does not return (\<open>None\<close> of a
  partial function); the second part interleaves any number of processors step by step on one lock.
\<close>

section \<open>Interrupt nesting\<close>

record cpu =
  ncli :: int
  intena :: bool
  if_flag :: bool

definition pushcli :: "cpu \<Rightarrow> cpu" where
  "pushcli c = (
     let eflags = if_flag c;
         c = c\<lparr>if_flag := False\<rparr>;
         c = (if ncli c = 0 then c\<lparr>intena := eflags\<rparr> else c)
     in c\<lparr>ncli := ncli c + 1\<rparr>)"

definition popcli :: "cpu \<Rightarrow> cpu option" where
  "popcli c =
     (if if_flag c then None
      else
        let c = c\<lparr>ncli := ncli c - 1\<rparr> in
        if ncli c < 0 then None
        else if ncli c = 0 \<and> intena c then Some (c\<lparr>if_flag := True\<rparr>)
        else Some c)"

section \<open>Locks\<close>

record spinlock =
  locked :: u32
  lk_name :: string
  lk_cpu :: "nat option"

definition initlock :: "string \<Rightarrow> spinlock" where
  "initlock name = \<lparr>locked = 0, lk_name = name, lk_cpu = None\<rparr>"

text \<open>\<open>holding\<close>, on processor \<open>me\<close>.\<close>

definition holding :: "nat \<Rightarrow> spinlock \<Rightarrow> cpu \<Rightarrow> (bool \<times> cpu) option" where
  "holding me lk c = do {
     let c = pushcli c;
     let r = (locked lk \<noteq> 0 \<and> lk_cpu lk = Some me);
     c \<leftarrow> popcli c;
     Some (r, c)
   }"

text \<open>The atomic exchange of \<open>x86.h\<close> on the \<open>locked\<close> word, and the loop around it.\<close>

definition xchg :: "spinlock \<Rightarrow> u32 \<Rightarrow> u32 \<times> spinlock" where
  "xchg lk newval = (locked lk, lk\<lparr>locked := newval\<rparr>)"

partial_function (option) spin :: "spinlock \<Rightarrow> spinlock option" where
  "spin lk = (let (old, lk) = xchg lk 1 in if old \<noteq> 0 then spin lk else Some lk)"

definition acquire :: "nat \<Rightarrow> spinlock \<Rightarrow> cpu \<Rightarrow> (spinlock \<times> cpu) option" where
  "acquire me lk c = do {
     let c = pushcli c;
     (h, c) \<leftarrow> holding me lk c;
     (if h then None
      else do {
        lk \<leftarrow> spin lk;
        Some (lk\<lparr>lk_cpu := Some me\<rparr>, c)
      })
   }"

definition release :: "nat \<Rightarrow> spinlock \<Rightarrow> cpu \<Rightarrow> (spinlock \<times> cpu) option" where
  "release me lk c = do {
     (h, c) \<leftarrow> holding me lk c;
     (if \<not> h then None
      else do {
        let lk = lk\<lparr>lk_cpu := None\<rparr>;
        let lk = lk\<lparr>locked := 0\<rparr>;
        c \<leftarrow> popcli c;
        Some (lk, c)
      })
   }"

section \<open>Lemmas: nesting\<close>

text \<open>\<open>cpu_ok\<close>: the nesting count is not negative, and interrupts are off inside a nest.\<close>

definition cpu_ok :: "cpu \<Rightarrow> bool" where
  "cpu_ok c \<longleftrightarrow> 0 \<le> ncli c \<and> (0 < ncli c \<longrightarrow> \<not> if_flag c)"

text \<open>What \<open>pushcli\<close> saves: the interrupt flag to restore when the count returns to zero.\<close>

definition saved_if :: "cpu \<Rightarrow> bool" where
  "saved_if c = (if ncli c = 0 then if_flag c else intena c)"

lemma pushcli_ok: "cpu_ok c \<Longrightarrow> cpu_ok (pushcli c)"
  by (simp add: cpu_ok_def pushcli_def Let_def)

lemma popcli_ok: "popcli c = Some c' \<Longrightarrow> cpu_ok c'"
  by (auto simp: popcli_def cpu_ok_def Let_def split: if_splits)

lemma ncli_pushcli [simp]: "ncli (pushcli c) = ncli c + 1"
  by (simp add: pushcli_def Let_def)

lemma if_flag_pushcli [simp]: "\<not> if_flag (pushcli c)"
  by (simp add: pushcli_def Let_def)

lemma saved_if_pushcli [simp]: "cpu_ok c \<Longrightarrow> saved_if (pushcli c) = saved_if c"
  by (simp add: pushcli_def Let_def saved_if_def cpu_ok_def)

lemma popcli_Some:
  "cpu_ok c \<Longrightarrow> 0 < ncli c \<Longrightarrow>
   \<exists>c'. popcli c = Some c' \<and> ncli c' = ncli c - 1 \<and> saved_if c' = saved_if c \<and> cpu_ok c'"
  by (auto simp: popcli_def cpu_ok_def saved_if_def Let_def)

text \<open>Outside a nest the state of a processor is determined by its flag, up to the stale \<open>intena\<close>.\<close>

definition same_nesting :: "cpu \<Rightarrow> cpu \<Rightarrow> bool" where
  "same_nesting c c' \<longleftrightarrow> ncli c' = ncli c \<and> if_flag c' = if_flag c \<and> (0 < ncli c \<longrightarrow> intena c' = intena c)"

lemma same_nesting_refl [simp]: "same_nesting c c"
  by (simp add: same_nesting_def)

lemma same_nesting_trans: "same_nesting a b \<Longrightarrow> same_nesting b c \<Longrightarrow> same_nesting a c"
  by (simp add: same_nesting_def)

lemma cpu_ok_same_nesting: "same_nesting c c' \<Longrightarrow> cpu_ok c \<Longrightarrow> cpu_ok c'"
  by (simp add: same_nesting_def cpu_ok_def)

lemma popcli_pushcli:
  assumes "cpu_ok c"
  shows "\<exists>c'. popcli (pushcli c) = Some c' \<and> same_nesting c c'"
  using assms by (cases "ncli c = 0") (auto simp: popcli_def pushcli_def Let_def same_nesting_def cpu_ok_def)

lemma pushcli_same_nesting:
  "same_nesting c c' \<Longrightarrow> same_nesting (pushcli c) (pushcli c')"
  by (auto simp: pushcli_def Let_def same_nesting_def)

lemma popcli_same_nesting:
  "same_nesting c c' \<Longrightarrow> 0 < ncli c \<Longrightarrow> popcli c = Some d \<Longrightarrow> \<exists>d'. popcli c' = Some d' \<and> same_nesting d d'"
  by (auto simp: popcli_def Let_def same_nesting_def split: if_splits)

text \<open>The exact effect of a matched pair: outside a nest the stale \<open>intena\<close> is refreshed.\<close>

definition popped :: "cpu \<Rightarrow> cpu" where
  "popped c = (if ncli c = 0 then c\<lparr>intena := if_flag c\<rparr> else c)"

lemma popcli_pushcli_exact: "cpu_ok c \<Longrightarrow> popcli (pushcli c) = Some (popped c)"
  by (cases c) (auto simp: popcli_def pushcli_def Let_def popped_def cpu_ok_def)

lemma popped_simps [simp]:
  "cpu_ok (popped c) \<longleftrightarrow> cpu_ok c" "pushcli (popped c) = pushcli c" "popped (popped c) = popped c"
  "ncli (popped c) = ncli c" "if_flag (popped c) = if_flag c"
  by (simp_all add: popped_def cpu_ok_def pushcli_def Let_def)

section \<open>Lemmas: a lock on one processor\<close>

declare spin.simps [simp del]

lemma spin_free: "locked lk = 0 \<Longrightarrow> spin lk = Some (lk\<lparr>locked := 1\<rparr>)"
  by (simp add: spin.simps [of lk] xchg_def)

text \<open>\<open>popcli\<close> after \<open>pushcli\<close> inside a nest is the identity.\<close>

lemma popcli_pushcli_nested: "cpu_ok c \<Longrightarrow> 0 < ncli c \<Longrightarrow> popcli (pushcli c) = Some c"
  by (auto simp: popcli_def pushcli_def Let_def cpu_ok_def)

lemma holding_spec:
  "cpu_ok c \<Longrightarrow> \<exists>c'. holding me lk c = Some (locked lk \<noteq> 0 \<and> lk_cpu lk = Some me, c') \<and> same_nesting c c'"
  using popcli_pushcli [of c] by (auto simp: holding_def)

lemma holding_nested:
  "cpu_ok c \<Longrightarrow> 0 < ncli c \<Longrightarrow> holding me lk c = Some (locked lk \<noteq> 0 \<and> lk_cpu lk = Some me, c)"
  by (simp add: holding_def popcli_pushcli_nested)

definition lock_free :: "spinlock \<Rightarrow> bool" where
  "lock_free lk \<longleftrightarrow> locked lk = 0 \<and> lk_cpu lk = None"

definition held_by :: "nat \<Rightarrow> spinlock \<Rightarrow> bool" where
  "held_by me lk \<longleftrightarrow> locked lk = 1 \<and> lk_cpu lk = Some me"

lemma acquire_free:
  assumes "lock_free lk" and "cpu_ok c"
  shows "acquire me lk c = Some (lk\<lparr>locked := 1, lk_cpu := Some me\<rparr>, pushcli c)"
  using assms holding_nested [of "pushcli c" me lk]
  by (simp add: acquire_def spin_free lock_free_def pushcli_ok cpu_ok_def [of c])

lemma acquire_held_panics:
  assumes "held_by me lk" and "cpu_ok c"
  shows "acquire me lk c = None"
  using assms holding_nested [of "pushcli c" me lk]
  by (simp add: acquire_def held_by_def pushcli_ok cpu_ok_def [of c])

lemma release_held:
  assumes "held_by me lk" and "cpu_ok c" and "0 < ncli c"
  shows "\<exists>c'. release me lk c = Some (lk\<lparr>locked := 0, lk_cpu := None\<rparr>, c') \<and> popcli c = Some c'"
  using assms popcli_Some [of c] by (auto simp: release_def holding_nested held_by_def)

lemma release_not_held_panics:
  assumes "\<not> (locked lk \<noteq> 0 \<and> lk_cpu lk = Some me)" and "cpu_ok c"
  shows "release me lk c = None"
  using assms holding_spec [of c me lk] by (auto simp: release_def)

text \<open>A critical section restores the lock and the interrupt state.\<close>

lemma release_acquire:
  assumes "lock_free lk" and "cpu_ok c"
  shows "\<exists>c'. release me (lk\<lparr>locked := 1, lk_cpu := Some me\<rparr>) (pushcli c) = Some (lk, c') \<and> same_nesting c c'"
proof -
  have "held_by me (lk\<lparr>locked := 1, lk_cpu := Some me\<rparr>)" by (simp add: held_by_def)
  moreover have "0 < ncli (pushcli c)" using assms(2) by (simp add: cpu_ok_def)
  moreover obtain c' where "popcli (pushcli c) = Some c'" "same_nesting c c'"
    using popcli_pushcli [OF assms(2)] by blast
  moreover have "lk\<lparr>locked := 0, lk_cpu := None\<rparr> = lk" using assms(1) by (simp add: lock_free_def)
  ultimately show ?thesis
    using release_held [of me "lk\<lparr>locked := 1, lk_cpu := Some me\<rparr>" "pushcli c"] pushcli_ok [OF assms(2)] by auto
qed

section \<open>Many processors\<close>

text \<open>
  Where a processor is: outside, spinning in \<open>acquire\<close>, past the exchange that got the lock, in the
  critical section, and the three points of \<open>release\<close> after its check, after clearing the owner and
  after storing the zero. One step is one shared access of the code; \<open>holding\<close> is one step because
  only processor \<open>i\<close> itself makes the owner field equal to \<open>i\<close>.
\<close>

datatype phase = Outside | Spinning | Acquired | Critical | Checked | Cleared | Stored

record multi =
  m_lock :: spinlock
  m_cpus :: "nat \<Rightarrow> cpu"
  m_pc :: "nat \<Rightarrow> phase"
  m_panic :: bool

definition move :: "nat \<Rightarrow> phase \<Rightarrow> cpu \<Rightarrow> multi \<Rightarrow> multi" where
  "move i p c s = s\<lparr>m_cpus := (m_cpus s)(i := c), m_pc := (m_pc s)(i := p)\<rparr>"

inductive lock_step :: "multi \<Rightarrow> multi \<Rightarrow> bool" where
  outside: "m_pc s i = Outside \<Longrightarrow> cpu_ok c \<Longrightarrow> lock_step s (move i Outside c s)"
| enter: "m_pc s i = Outside \<Longrightarrow> holding i (m_lock s) (pushcli (m_cpus s i)) = Some (False, c) \<Longrightarrow>
    lock_step s (move i Spinning c s)"
| enter_panic: "m_pc s i = Outside \<Longrightarrow> holding i (m_lock s) (pushcli (m_cpus s i)) = Some (True, c) \<Longrightarrow>
    lock_step s (s\<lparr>m_panic := True\<rparr>)"
| busy: "m_pc s i = Spinning \<Longrightarrow> xchg (m_lock s) 1 = (old, lk) \<Longrightarrow> old \<noteq> 0 \<Longrightarrow>
    lock_step s (s\<lparr>m_lock := lk\<rparr>)"
| got: "m_pc s i = Spinning \<Longrightarrow> xchg (m_lock s) 1 = (0, lk) \<Longrightarrow>
    lock_step s (move i Acquired (m_cpus s i) (s\<lparr>m_lock := lk\<rparr>))"
| set_cpu: "m_pc s i = Acquired \<Longrightarrow>
    lock_step s (move i Critical (m_cpus s i) (s\<lparr>m_lock := m_lock s\<lparr>lk_cpu := Some i\<rparr>\<rparr>))"
| check: "m_pc s i = Critical \<Longrightarrow> holding i (m_lock s) (m_cpus s i) = Some (True, c) \<Longrightarrow>
    lock_step s (move i Checked c s)"
| check_panic: "m_pc s i = Critical \<Longrightarrow> holding i (m_lock s) (m_cpus s i) = Some (False, c) \<Longrightarrow>
    lock_step s (s\<lparr>m_panic := True\<rparr>)"
| clear_cpu: "m_pc s i = Checked \<Longrightarrow>
    lock_step s (move i Cleared (m_cpus s i) (s\<lparr>m_lock := m_lock s\<lparr>lk_cpu := None\<rparr>\<rparr>))"
| store_zero: "m_pc s i = Cleared \<Longrightarrow>
    lock_step s (move i Stored (m_cpus s i) (s\<lparr>m_lock := m_lock s\<lparr>locked := 0\<rparr>\<rparr>))"
| leave: "m_pc s i = Stored \<Longrightarrow> popcli (m_cpus s i) = Some c \<Longrightarrow> lock_step s (move i Outside c s)"
| leave_panic: "m_pc s i = Stored \<Longrightarrow> popcli (m_cpus s i) = None \<Longrightarrow>
    lock_step s (s\<lparr>m_panic := True\<rparr>)"

definition multi_init :: "multi \<Rightarrow> bool" where
  "multi_init s \<longleftrightarrow> lock_free (m_lock s) \<and> (\<forall>i. m_pc s i = Outside \<and> cpu_ok (m_cpus s i)) \<and> \<not> m_panic s"

definition owning :: "phase \<Rightarrow> bool" where
  "owning p \<longleftrightarrow> p = Acquired \<or> p = Critical \<or> p = Checked \<or> p = Cleared"

definition lock_inv :: "multi \<Rightarrow> bool" where
  "lock_inv s \<longleftrightarrow> \<not> m_panic s \<and>
     (\<forall>i. cpu_ok (m_cpus s i) \<and> (m_pc s i \<noteq> Outside \<longrightarrow> 0 < ncli (m_cpus s i))) \<and>
     (\<forall>i j. owning (m_pc s i) \<longrightarrow> owning (m_pc s j) \<longrightarrow> i = j) \<and>
     (locked (m_lock s) \<noteq> 0 \<longleftrightarrow> (\<exists>i. owning (m_pc s i))) \<and>
     (\<forall>i. lk_cpu (m_lock s) = Some i \<longleftrightarrow> m_pc s i = Critical \<or> m_pc s i = Checked)"

lemma owning_simps [simp]:
  "\<not> owning Outside" "\<not> owning Spinning" "owning Acquired" "owning Critical" "owning Checked"
  "owning Cleared" "\<not> owning Stored"
  by (simp_all add: owning_def)

lemma lock_invI:
  assumes "\<not> m_panic s"
    and "\<And>i. cpu_ok (m_cpus s i)" and "\<And>i. m_pc s i \<noteq> Outside \<Longrightarrow> 0 < ncli (m_cpus s i)"
    and "\<And>i j. owning (m_pc s i) \<Longrightarrow> owning (m_pc s j) \<Longrightarrow> i = j"
    and "locked (m_lock s) \<noteq> 0 \<longleftrightarrow> (\<exists>i. owning (m_pc s i))"
    and "\<And>i. lk_cpu (m_lock s) = Some i \<longleftrightarrow> m_pc s i = Critical \<or> m_pc s i = Checked"
  shows "lock_inv s"
  using assms unfolding lock_inv_def by blast

lemma lock_invD:
  assumes "lock_inv s"
  shows "\<not> m_panic s" "cpu_ok (m_cpus s i)" "m_pc s i \<noteq> Outside \<Longrightarrow> 0 < ncli (m_cpus s i)"
    and "owning (m_pc s i) \<Longrightarrow> owning (m_pc s j) \<Longrightarrow> i = j"
    and "locked (m_lock s) \<noteq> 0 \<longleftrightarrow> (\<exists>i. owning (m_pc s i))"
    and "lk_cpu (m_lock s) = Some i \<longleftrightarrow> m_pc s i = Critical \<or> m_pc s i = Checked"
  using assms unfolding lock_inv_def by blast+

lemma lock_inv_init: "multi_init s \<Longrightarrow> lock_inv s"
  by (rule lock_invI) (auto simp: multi_init_def lock_free_def)

lemma move_simps [simp]:
  "m_lock (move i p c s) = m_lock s" "m_panic (move i p c s) = m_panic s"
  "m_pc (move i p c s) j = (if j = i then p else m_pc s j)"
  "m_cpus (move i p c s) j = (if j = i then c else m_cpus s j)"
  by (simp_all add: move_def)

lemma holding_inside:
  "cpu_ok c \<Longrightarrow> 0 < ncli c \<Longrightarrow> holding i lk c = Some (b, c') \<longleftrightarrow>
    b = (locked lk \<noteq> 0 \<and> lk_cpu lk = Some i) \<and> c' = c"
  by (auto simp: holding_nested)

lemma lock_step_inv:
  assumes "lock_step s s'" and inv: "lock_inv s"
  shows "lock_inv s'"
  using assms(1)
proof cases
  note D = lock_invD [OF inv]
  case (outside i c)
  then have "owning (m_pc s j) \<Longrightarrow> j \<noteq> i" for j by auto
  with outside show ?thesis by (intro lock_invI) (use D in \<open>auto split: if_splits\<close>)
next
  note D = lock_invD [OF inv]
  case (enter i c)
  have "cpu_ok (pushcli (m_cpus s i))" "0 < ncli (pushcli (m_cpus s i))"
    using D(2) [of i] by (auto simp: pushcli_ok cpu_ok_def [of "m_cpus s i"])
  with enter have "c = pushcli (m_cpus s i)" "cpu_ok c" "0 < ncli c" by (auto simp: holding_inside)
  moreover have "owning (m_pc s j) \<Longrightarrow> j \<noteq> i" for j using enter by auto
  ultimately show ?thesis using enter by (intro lock_invI) (use D in \<open>auto split: if_splits\<close>)
next
  note D = lock_invD [OF inv]
  case (enter_panic i c)
  have "cpu_ok (pushcli (m_cpus s i))" "0 < ncli (pushcli (m_cpus s i))"
    using D(2) [of i] by (auto simp: pushcli_ok cpu_ok_def [of "m_cpus s i"])
  with enter_panic have "lk_cpu (m_lock s) = Some i" by (simp add: holding_inside)
  with D(6) [of i] enter_panic show ?thesis by simp
next
  note D = lock_invD [OF inv]
  case (busy i old lk)
  then show ?thesis by (intro lock_invI) (use D in \<open>auto simp: xchg_def\<close>)
next
  note D = lock_invD [OF inv]
  case (got i lk)
  then have free: "\<not> owning (m_pc s j)" for j using D(5) by (auto simp: xchg_def)
  then show ?thesis using got by (intro lock_invI) (use D in \<open>auto simp: xchg_def split: if_splits\<close>)
next
  note D = lock_invD [OF inv]
  case (set_cpu i)
  then have own: "owning (m_pc s i)" by simp
  then have only: "owning (m_pc s j) \<Longrightarrow> j = i" for j using D(4) [of i j] by blast
  have "locked (m_lock s) \<noteq> 0" using D(5) own by blast
  moreover have "m_pc s j \<noteq> Critical \<and> m_pc s j \<noteq> Checked" if "j \<noteq> i" for j using only [of j] that by auto
  ultimately show ?thesis using set_cpu only by (intro lock_invI) (use D in \<open>auto split: if_splits\<close>)
next
  note D = lock_invD [OF inv]
  case (check i c)
  then have own: "owning (m_pc s i)" by simp
  then have only: "owning (m_pc s j) \<Longrightarrow> j = i" for j using D(4) [of i j] by blast
  have "locked (m_lock s) \<noteq> 0" using D(5) own by blast
  moreover have "c = m_cpus s i" using check D(2,3) [of i] by (simp add: holding_inside)
  ultimately show ?thesis using check only by (intro lock_invI) (use D in \<open>auto split: if_splits\<close>)
next
  note D = lock_invD [OF inv]
  case (check_panic i c)
  then have "owning (m_pc s i)" by simp
  then have "locked (m_lock s) \<noteq> 0" using D(5) by blast
  moreover have "lk_cpu (m_lock s) = Some i" using check_panic D(6) [of i] by simp
  ultimately show ?thesis using check_panic D(2,3) [of i] by (simp add: holding_inside)
next
  note D = lock_invD [OF inv]
  case (clear_cpu i)
  then have own: "owning (m_pc s i)" by simp
  then have only: "owning (m_pc s j) \<Longrightarrow> j = i" for j using D(4) [of i j] by blast
  have "locked (m_lock s) \<noteq> 0" using D(5) own by blast
  moreover have "m_pc s j \<noteq> Critical \<and> m_pc s j \<noteq> Checked" if "j \<noteq> i" for j using only [of j] that by auto
  ultimately show ?thesis using clear_cpu only by (intro lock_invI) (use D in \<open>auto split: if_splits\<close>)
next
  note D = lock_invD [OF inv]
  case (store_zero i)
  then have only: "owning (m_pc s j) \<Longrightarrow> j = i" for j using D(4) [of i j] by simp
  then show ?thesis using store_zero by (intro lock_invI) (use D in \<open>auto split: if_splits\<close>)
next
  note D = lock_invD [OF inv]
  case (leave i c)
  then have "cpu_ok c" using popcli_ok by blast
  moreover have "owning (m_pc s j) \<Longrightarrow> j \<noteq> i" for j using leave by auto
  ultimately show ?thesis using leave by (intro lock_invI) (use D in \<open>auto split: if_splits\<close>)
next
  note D = lock_invD [OF inv]
  case (leave_panic i)
  then show ?thesis using popcli_Some [OF D(2) [of i]] D(3) [of i] by simp
qed

interpretation lock_system: transition_invariant multi_init lock_step lock_inv
  by unfold_locales (simp_all add: lock_inv_init lock_step_inv)

section \<open>Properties\<close>

text \<open>C28: however many processors run \<open>acquire\<close> and \<open>release\<close> on a lock in whatever interleaving, two
  of them are never in the critical section at once, the one that is there has interrupts off, the
  lock records it as the owner, and none of the checks in \<open>acquire\<close>, \<open>release\<close> and \<open>popcli\<close> panics.\<close>

theorem mutual_exclusion:
  assumes "multi_init s" and "lock_step\<^sup>*\<^sup>* s s'" and "m_pc s' i = Critical"
  shows "\<not> m_panic s' \<and> (\<forall>j. m_pc s' j = Critical \<longrightarrow> j = i) \<and> \<not> if_flag (m_cpus s' i) \<and>
    lk_cpu (m_lock s') = Some i \<and> locked (m_lock s') \<noteq> 0"
proof -
  have "lock_inv s'" by (rule lock_system.reachable_inv [OF assms(1,2)])
  note D = lock_invD [OF this]
  have "\<not> if_flag (m_cpus s' i)" using D(2,3) [of i] assms(3) by (simp add: cpu_ok_def)
  moreover have "locked (m_lock s') \<noteq> 0" using D(5) assms(3) by (metis owning_simps(4))
  moreover have "\<forall>j. m_pc s' j = Critical \<longrightarrow> j = i" using D(4) assms(3) by (metis owning_simps(4))
  ultimately show ?thesis using D(1) D(6) [of i] assms(3) by blast
qed

definition one_spinner :: multi where
  "one_spinner = \<lparr>m_lock = initlock ''l'', m_cpus = (\<lambda>i. \<lparr>ncli = 0, intena = False, if_flag = True\<rparr>),
     m_pc = (\<lambda>i. Outside), m_panic = False\<rparr>"

theorem mutual_exclusion_witness:
  "\<exists>s. lock_step\<^sup>*\<^sup>* one_spinner s \<and> m_pc s 3 = Critical \<and> lk_cpu (m_lock s) = Some 3"
proof -
  let ?c = "pushcli (m_cpus one_spinner 3)"
  have init: "multi_init one_spinner"
    by (simp add: multi_init_def one_spinner_def initlock_def lock_free_def cpu_ok_def)
  have "holding 3 (m_lock one_spinner) ?c = Some (False, ?c)"
    by (simp add: one_spinner_def initlock_def holding_def pushcli_def popcli_def Let_def)
  then have 1: "lock_step one_spinner (move 3 Spinning ?c one_spinner)" (is "lock_step _ ?s1")
    by (intro lock_step.enter) (simp_all add: one_spinner_def)
  obtain lk where x: "xchg (m_lock ?s1) 1 = (0, lk)"
    by (simp add: xchg_def one_spinner_def initlock_def)
  then have 2: "lock_step ?s1 (move 3 Acquired (m_cpus ?s1 3) (?s1\<lparr>m_lock := lk\<rparr>))" (is "lock_step _ ?s2")
    by (intro lock_step.got) simp_all
  have 3: "lock_step ?s2 (move 3 Critical (m_cpus ?s2 3) (?s2\<lparr>m_lock := m_lock ?s2\<lparr>lk_cpu := Some 3\<rparr>\<rparr>))"
    (is "lock_step _ ?s3") by (rule lock_step.set_cpu) simp
  have r: "lock_step\<^sup>*\<^sup>* one_spinner ?s3" using 1 2 3 by (meson converse_rtranclp_into_rtranclp rtranclp.rtrancl_refl)
  moreover have pc: "m_pc ?s3 3 = Critical" by simp
  ultimately show ?thesis using mutual_exclusion [OF init r pc] by blast
qed

text \<open>\<open>pushcli\<close> and \<open>popcli\<close> are matched: an acquire and the release of the same lock, with any
  balanced use of other locks between them, leave the nesting count and the interrupt flag as they were, and
  the lock free, so interrupts come back exactly when the outermost lock is released.\<close>

theorem critical_section_restores:
  assumes "lock_free lk" and "cpu_ok c"
  shows "\<exists>lk1 c1. acquire me lk c = Some (lk1, c1) \<and> held_by me lk1 \<and> \<not> if_flag c1 \<and> ncli c1 = ncli c + 1 \<and>
    (\<forall>c2. same_nesting c1 c2 \<longrightarrow> (\<exists>c3. release me lk1 c2 = Some (lk, c3) \<and> same_nesting c c3))"
proof -
  let ?lk = "lk\<lparr>locked := 1, lk_cpu := Some me\<rparr>"
  have n: "0 < ncli (pushcli c)" using assms(2) by (simp add: cpu_ok_def)
  have "\<exists>c3. release me ?lk c2 = Some (lk, c3) \<and> same_nesting c c3" if sn: "same_nesting (pushcli c) c2" for c2
  proof -
    obtain c' where c': "popcli (pushcli c) = Some c'" "same_nesting c c'" using popcli_pushcli [OF assms(2)] by blast
    obtain c3 where "popcli c2 = Some c3" "same_nesting c' c3"
      using popcli_same_nesting [OF sn n c'(1)] by blast
    moreover have "cpu_ok c2" "0 < ncli c2"
      using cpu_ok_same_nesting [OF sn pushcli_ok [OF assms(2)]] sn n by (simp_all add: same_nesting_def)
    moreover have "lk\<lparr>locked := 0, lk_cpu := None\<rparr> = lk" using assms(1) by (simp add: lock_free_def)
    ultimately show ?thesis
      using release_held [of me ?lk c2] same_nesting_trans [OF c'(2)] by (auto simp: held_by_def)
  qed
  then show ?thesis using acquire_free [OF assms] by (auto simp: held_by_def)
qed

theorem critical_section_restores_witness:
  "\<exists>lk1 c1. acquire 0 (initlock ''kmem'') \<lparr>ncli = 0, intena = False, if_flag = True\<rparr> = Some (lk1, c1) \<and> ncli c1 = 1"
  using critical_section_restores [of "initlock ''kmem''" "\<lparr>ncli = 0, intena = False, if_flag = True\<rparr>" 0]
  by (auto simp: lock_free_def initlock_def cpu_ok_def)

end
