(* ===== verification/Kalloc.thy ===== *)
theory Kalloc
  imports CMem Spinlock
begin

text \<open>
  The physical page allocator (\<open>kalloc.c\<close>, with the layout constants of \<open>memlayout.h\<close> and \<open>mmu.h\<close>).
  The free list is threaded through the pages themselves: the first word of a free page is the address
  of the next. The state is the kernel's memory, the record \<open>kmem\<close> and the processor that runs. The
  first address after the kernel, \<open>end\<close>, comes from the linker and is the parameter \<open>kend\<close>; \<open>me\<close> is
  the number of the processor. A panic is \<open>None\<close>. The interface \<open>page_allocator\<close> states what the rest
  of the kernel relies on, and is interpreted on these definitions.
\<close>

section \<open>Memory layout\<close>

definition PGSIZE :: u32 where "PGSIZE = 4096"
definition KERNBASE :: u32 where "KERNBASE = 0x80000000"
definition PHYSTOP :: u32 where "PHYSTOP = 0xE000000"

definition V2P :: "u32 \<Rightarrow> u32" where "V2P a = a - KERNBASE"
definition P2V :: "u32 \<Rightarrow> u32" where "P2V a = a + KERNBASE"

definition PGROUNDUP :: "u32 \<Rightarrow> u32" where "PGROUNDUP sz = and (sz + PGSIZE - 1) (not (PGSIZE - 1))"
definition PGROUNDDOWN :: "u32 \<Rightarrow> u32" where "PGROUNDDOWN a = and a (not (PGSIZE - 1))"

section \<open>The allocator\<close>

record kmem =
  k_lock :: spinlock
  use_lock :: bool
  freelist :: u32

record kmachine =
  ram :: mem
  kmem :: kmem
  kcpu :: cpu

text \<open>The two conditional lock calls of \<open>kalloc\<close> and \<open>kfree\<close>.\<close>

definition kmem_acquire :: "nat \<Rightarrow> kmachine \<Rightarrow> kmachine option" where
  "kmem_acquire me s =
     (if use_lock (kmem s) then do {
        (lk, c) \<leftarrow> acquire me (k_lock (kmem s)) (kcpu s);
        Some (s\<lparr>kmem := (kmem s)\<lparr>k_lock := lk\<rparr>, kcpu := c\<rparr>)
      } else Some s)"

definition kmem_release :: "nat \<Rightarrow> kmachine \<Rightarrow> kmachine option" where
  "kmem_release me s =
     (if use_lock (kmem s) then do {
        (lk, c) \<leftarrow> release me (k_lock (kmem s)) (kcpu s);
        Some (s\<lparr>kmem := (kmem s)\<lparr>k_lock := lk\<rparr>, kcpu := c\<rparr>)
      } else Some s)"

definition kfree :: "u32 \<Rightarrow> nat \<Rightarrow> u32 \<Rightarrow> kmachine \<Rightarrow> kmachine option" where
  "kfree kend me v s =
     (if v mod PGSIZE \<noteq> 0 \<or> v < kend \<or> V2P v \<ge> PHYSTOP then None
      else do {
        let s = s\<lparr>ram := memset (ram s) v 1 PGSIZE\<rparr>;
        s \<leftarrow> kmem_acquire me s;
        let s = s\<lparr>ram := store32 (ram s) v (freelist (kmem s))\<rparr>;
        let s = s\<lparr>kmem := (kmem s)\<lparr>freelist := v\<rparr>\<rparr>;
        kmem_release me s
      })"

definition kalloc :: "nat \<Rightarrow> kmachine \<Rightarrow> (u32 \<times> kmachine) option" where
  "kalloc me s = do {
     s \<leftarrow> kmem_acquire me s;
     let r = freelist (kmem s);
     let s = (if r \<noteq> 0 then s\<lparr>kmem := (kmem s)\<lparr>freelist := load32 (ram s) r\<rparr>\<rparr> else s);
     s \<leftarrow> kmem_release me s;
     Some (r, s)
   }"

partial_function (option) freerange_loop :: "u32 \<Rightarrow> nat \<Rightarrow> u32 \<Rightarrow> u32 \<Rightarrow> kmachine \<Rightarrow> kmachine option" where
  "freerange_loop kend me vend p s =
     (if p + PGSIZE \<le> vend
      then Option.bind (kfree kend me p s) (\<lambda>s. freerange_loop kend me vend (p + PGSIZE) s)
      else Some s)"

definition freerange :: "u32 \<Rightarrow> nat \<Rightarrow> u32 \<Rightarrow> u32 \<Rightarrow> kmachine \<Rightarrow> kmachine option" where
  "freerange kend me vstart vend s = freerange_loop kend me vend (PGROUNDUP vstart) s"

definition kinit1 :: "u32 \<Rightarrow> nat \<Rightarrow> u32 \<Rightarrow> u32 \<Rightarrow> kmachine \<Rightarrow> kmachine option" where
  "kinit1 kend me vstart vend s =
     freerange kend me vstart vend (s\<lparr>kmem := (kmem s)\<lparr>k_lock := initlock ''kmem'', use_lock := False\<rparr>\<rparr>)"

definition kinit2 :: "u32 \<Rightarrow> nat \<Rightarrow> u32 \<Rightarrow> u32 \<Rightarrow> kmachine \<Rightarrow> kmachine option" where
  "kinit2 kend me vstart vend s = do {
     s \<leftarrow> freerange kend me vstart vend s;
     Some (s\<lparr>kmem := (kmem s)\<lparr>use_lock := True\<rparr>\<rparr>)
   }"

section \<open>Lemmas: pages\<close>

definition page_ok :: "u32 \<Rightarrow> u32 \<Rightarrow> bool" where
  "page_ok kend p \<longleftrightarrow> p mod PGSIZE = 0 \<and> kend \<le> p \<and> V2P p < PHYSTOP"

lemma page_ok_nonzero: "page_ok kend p \<Longrightarrow> p \<noteq> 0"
  by (auto simp: page_ok_def V2P_def KERNBASE_def PHYSTOP_def word_less_nat_alt)

lemma page_ok_aligned: "page_ok kend p \<Longrightarrow> unat p mod 4096 = 0"
  using unat_u32_mod [of p 4096] by (simp add: page_ok_def PGSIZE_def)

lemma in_page:
  assumes "unat p mod 4096 = 0"
  shows "in_block a p 4096 \<longleftrightarrow> unat a div 4096 = unat p div 4096"
proof (cases "p \<le> a")
  case True
  then have "unat (a - p) = unat a - unat p" "unat p \<le> unat a"
    by (simp_all add: unat_u32_minus word_le_nat_alt)
  moreover obtain k where "unat p = 4096 * k" using assms by blast
  ultimately show ?thesis by (auto simp: in_block_def)
next
  case False
  then have lt: "unat a < unat p" by (simp add: word_le_nat_alt)
  have "unat (p - a) = unat p - unat a" using False by (intro unat_u32_minus) simp
  moreover have "p - a \<noteq> 0" using False by auto
  then have "unat (a - p) = 2 ^ 32 - unat (p - a)" using unat_u32_uminus [of "p - a"] by simp
  ultimately have "unat (a - p) = 4294967296 - (unat p - unat a)" by simp
  moreover obtain k where k: "unat p = 4096 * k" using assms by blast
  moreover have "k < 1048576" using unat_u32_lt [of p] k by simp
  ultimately have "\<not> unat (a - p) < 4096" using lt by linarith
  moreover have "unat a div 4096 < unat p div 4096"
    using lt k by (simp add: less_mult_imp_div_less mult.commute)
  ultimately show ?thesis by (simp add: in_block_def)
qed

lemma pages_disjoint:
  assumes "unat p mod 4096 = 0" "unat q mod 4096 = 0" "p \<noteq> q" "in_block a p 4096"
  shows "\<not> in_block a q 4096"
proof
  assume "in_block a q 4096"
  then have "unat p div 4096 = unat q div 4096" using assms by (simp add: in_page)
  then have "unat p = unat q" using assms(1,2) by (metis mult_div_mod_eq)
  with assms(3) show False by (simp add: word_unat_eq_iff)
qed

lemma in_block_first_word:
  "in_block p p 4096" "in_block (p + 1) p 4096" "in_block (p + 2) p 4096" "in_block (p + 3) p 4096"
  by (simp_all add: in_block_def)

lemma store32_other:
  "a \<noteq> p \<Longrightarrow> a \<noteq> p + 1 \<Longrightarrow> a \<noteq> p + 2 \<Longrightarrow> a \<noteq> p + 3 \<Longrightarrow> store32 m p v a = m a"
  by (simp add: store32_def)

lemma store32_outside: "\<not> in_block a p 4096 \<Longrightarrow> store32 m p v a = m a"
  using in_block_first_word [of p] by (intro store32_other) auto

section \<open>Lemmas: the free list\<close>

text \<open>The list of free pages that starts at \<open>p\<close>.\<close>

fun free_chain :: "mem \<Rightarrow> u32 \<Rightarrow> u32 list \<Rightarrow> bool" where
  "free_chain m p [] \<longleftrightarrow> p = 0"
| "free_chain m p (q # qs) \<longleftrightarrow> p = q \<and> p \<noteq> 0 \<and> free_chain m (load32 m p) qs"

lemma free_chain_cong:
  assumes "\<And>q. q \<in> set ps \<Longrightarrow> load32 m' q = load32 m q"
  shows "free_chain m' p ps = free_chain m p ps"
  using assms by (induction ps arbitrary: p) auto

text \<open>The state represents the list \<open>ps\<close> of free pages.\<close>

definition kmem_rep :: "u32 \<Rightarrow> kmachine \<Rightarrow> u32 list \<Rightarrow> bool" where
  "kmem_rep kend s ps \<longleftrightarrow> free_chain (ram s) (freelist (kmem s)) ps \<and> distinct ps \<and>
     (\<forall>p \<in> set ps. page_ok kend p) \<and> lock_free (k_lock (kmem s)) \<and> cpu_ok (kcpu s)"

lemma load32_frame:
  assumes "\<And>a. \<not> in_block a v 4096 \<Longrightarrow> m' a = m a"
    and "unat v mod 4096 = 0" "unat q mod 4096 = 0" "q \<noteq> v"
  shows "load32 m' q = load32 m q"
proof -
  have "\<not> in_block a v 4096" if "in_block a q 4096" for a
    using pages_disjoint [OF assms(3,2,4) that] .
  then show ?thesis using in_block_first_word [of q] assms(1) by (intro load32_cong) blast+
qed

text \<open>The lock calls: they cannot fail on a free lock, and change nothing else. \<open>entered\<close> is the state
  between them.\<close>

definition entered :: "nat \<Rightarrow> spinlock \<Rightarrow> cpu \<Rightarrow> kmachine \<Rightarrow> bool" where
  "entered me lk c s \<longleftrightarrow>
     (if use_lock (kmem s) then k_lock (kmem s) = lk\<lparr>locked := 1, lk_cpu := Some me\<rparr> \<and> kcpu s = pushcli c
      else k_lock (kmem s) = lk \<and> kcpu s = c)"

lemma kmem_acquire_spec:
  assumes "lock_free (k_lock (kmem s))" "cpu_ok (kcpu s)"
  shows "\<exists>s'. kmem_acquire me s = Some s' \<and> ram s' = ram s \<and> freelist (kmem s') = freelist (kmem s) \<and>
    use_lock (kmem s') = use_lock (kmem s) \<and> entered me (k_lock (kmem s)) (kcpu s) s'"
  using acquire_free [OF assms, of me] by (simp add: kmem_acquire_def entered_def)

lemma kmem_release_spec:
  assumes "lock_free lk" "cpu_ok c" "entered me lk c s"
  shows "\<exists>s'. kmem_release me s = Some s' \<and> ram s' = ram s \<and> freelist (kmem s') = freelist (kmem s) \<and>
    use_lock (kmem s') = use_lock (kmem s) \<and> k_lock (kmem s') = lk \<and> same_nesting c (kcpu s')"
  using release_acquire [OF assms(1,2), of me] assms(3)
  by (cases "use_lock (kmem s)") (auto simp: kmem_release_def entered_def)

lemma kalloc_frame:
  assumes "kmem_rep kend s ps"
  shows "\<exists>s'. kalloc me s = Some (freelist (kmem s), s') \<and> ram s' = ram s \<and>
    (freelist (kmem s) \<noteq> 0 \<longrightarrow> freelist (kmem s') = load32 (ram s) (freelist (kmem s))) \<and>
    (freelist (kmem s) = 0 \<longrightarrow> freelist (kmem s') = 0) \<and>
    use_lock (kmem s') = use_lock (kmem s) \<and> k_lock (kmem s') = k_lock (kmem s) \<and> same_nesting (kcpu s) (kcpu s')"
proof -
  have lf: "lock_free (k_lock (kmem s))" "cpu_ok (kcpu s)" using assms by (simp_all add: kmem_rep_def)
  obtain s1 where a: "kmem_acquire me s = Some s1" "ram s1 = ram s" "freelist (kmem s1) = freelist (kmem s)"
    "use_lock (kmem s1) = use_lock (kmem s)" "entered me (k_lock (kmem s)) (kcpu s) s1"
    using kmem_acquire_spec [OF lf] by blast
  let ?r = "freelist (kmem s1)"
  let ?s2 = "if ?r \<noteq> 0 then s1\<lparr>kmem := (kmem s1)\<lparr>freelist := load32 (ram s1) ?r\<rparr>\<rparr> else s1"
  have "entered me (k_lock (kmem s)) (kcpu s) ?s2" using a(5) by (simp add: entered_def)
  from kmem_release_spec [OF lf this] obtain s' where r: "kmem_release me ?s2 = Some s'" "ram s' = ram ?s2"
    "freelist (kmem s') = freelist (kmem ?s2)" "use_lock (kmem s') = use_lock (kmem ?s2)"
    "k_lock (kmem s') = k_lock (kmem s)" "same_nesting (kcpu s) (kcpu s')" by blast
  have "kalloc me s = Some (?r, s')" using a(1) r(1) by (simp add: kalloc_def)
  with a r show ?thesis by (intro exI [of _ s']) simp
qed

lemma kalloc_empty:
  assumes "kmem_rep kend s []"
  shows "\<exists>s'. kalloc me s = Some (0, s') \<and> kmem_rep kend s' [] \<and> ram s' = ram s"
  using kalloc_frame [OF assms, of me] assms
  by (auto simp: kmem_rep_def intro: cpu_ok_same_nesting)

lemma kalloc_page:
  assumes "kmem_rep kend s (p # ps)"
  shows "\<exists>s'. kalloc me s = Some (p, s') \<and> kmem_rep kend s' ps \<and> ram s' = ram s"
  using kalloc_frame [OF assms, of me] assms
  by (auto simp: kmem_rep_def intro: cpu_ok_same_nesting)

lemma kfree_page:
  assumes rep: "kmem_rep kend s ps" and v: "page_ok kend v" and fresh: "v \<notin> set ps"
  shows "\<exists>s'. kfree kend me v s = Some s' \<and> kmem_rep kend s' (v # ps) \<and>
    (\<forall>a. \<not> in_block a v 4096 \<longrightarrow> ram s' a = ram s a) \<and> (\<forall>i. 4 \<le> i \<and> i < 4096 \<longrightarrow> ram s' (v + of_nat i) = 1)"
proof -
  have lf: "lock_free (k_lock (kmem s))" "cpu_ok (kcpu s)" using rep by (simp_all add: kmem_rep_def)
  let ?m = "memset (ram s) v 1 PGSIZE"
  let ?s0 = "s\<lparr>ram := ?m\<rparr>"
  obtain s1 where a: "kmem_acquire me ?s0 = Some s1" "ram s1 = ?m" "freelist (kmem s1) = freelist (kmem s)"
    "use_lock (kmem s1) = use_lock (kmem s)" "entered me (k_lock (kmem s)) (kcpu s) s1"
    using kmem_acquire_spec [of ?s0 me] lf by auto
  let ?m' = "store32 ?m v (freelist (kmem s))"
  let ?s2 = "s1\<lparr>ram := ?m'\<rparr>"
  let ?s3 = "?s2\<lparr>kmem := (kmem ?s2)\<lparr>freelist := v\<rparr>\<rparr>"
  have "entered me (k_lock (kmem s)) (kcpu s) ?s3" using a(5) by (simp add: entered_def)
  from kmem_release_spec [OF lf this] obtain s' where r: "kmem_release me ?s3 = Some s'" "ram s' = ?m'"
    "freelist (kmem s') = v" "k_lock (kmem s') = k_lock (kmem s)" "same_nesting (kcpu s) (kcpu s')" by auto
  have "\<not> (v mod PGSIZE \<noteq> 0 \<or> v < kend \<or> V2P v \<ge> PHYSTOP)" using v by (auto simp: page_ok_def)
  then have run: "kfree kend me v s = Some s'" using a(1,2,3) r(1) by (simp add: kfree_def Let_def)
  have frame: "?m' a = ram s a" if "\<not> in_block a v 4096" for a
    using that by (simp add: store32_outside memset_spec PGSIZE_def)
  have "load32 ?m' q = load32 (ram s) q" if "q \<in> set ps" for q
    using that rep fresh page_ok_aligned [OF v]
    by (intro load32_frame [OF frame]) (auto simp: kmem_rep_def page_ok_aligned)
  then have "free_chain ?m' (freelist (kmem s)) ps"
    using rep free_chain_cong [of ps ?m' "ram s"] by (simp add: kmem_rep_def)
  then have "kmem_rep kend s' (v # ps)"
    using rep v fresh r page_ok_nonzero [OF v] cpu_ok_same_nesting [OF r(5)]
    by (simp add: kmem_rep_def load32_stored)
  moreover have "?m' (v + of_nat i) = 1" if "4 \<le> i" "i < 4096" for i
  proof -
    have "unat (of_nat i :: u32) = i" by (rule unat_of_nat_u32) (use that in simp)
    then have "of_nat i \<noteq> (0 :: u32)" "of_nat i \<noteq> (1 :: u32)" "of_nat i \<noteq> (2 :: u32)" "of_nat i \<noteq> (3 :: u32)"
      using that by auto
    then have "?m' (v + of_nat i) = ?m (v + of_nat i)" by (intro store32_other) simp_all
    also have "\<dots> = 1" using that in_block_offset [of i 4096 v] by (simp add: memset_spec PGSIZE_def)
    finally show ?thesis .
  qed
  ultimately show ?thesis using run frame r(2) by auto
qed

lemma kfree_panics:
  assumes "\<not> page_ok kend v"
  shows "kfree kend me v s = None"
proof -
  have "v mod PGSIZE \<noteq> 0 \<or> v < kend \<or> V2P v \<ge> PHYSTOP"
    using assms unfolding page_ok_def by (metis not_less)
  then show ?thesis unfolding kfree_def by (rule if_P)
qed

section \<open>The interface of the allocator\<close>

text \<open>
  What the callers of \<open>kalloc\<close> and \<open>kfree\<close> rely on: \<open>rep s ps\<close> says that \<open>ps\<close> are the free pages,
  \<open>contents\<close> is the memory. A page that \<open>alloc\<close> returns was free and is valid, and only the memory of
  the page given to \<open>free\<close> changes.
\<close>

fun alloc_many :: "('s \<Rightarrow> (u32 \<times> 's) option) \<Rightarrow> nat \<Rightarrow> 's \<Rightarrow> (u32 list \<times> 's) option" where
  "alloc_many alloc 0 s = Some ([], s)"
| "alloc_many alloc (Suc n) s = do {
     (p, s) \<leftarrow> alloc s;
     (ps, s) \<leftarrow> alloc_many alloc n s;
     Some (p # ps, s)
   }"

fun free_many :: "(u32 \<Rightarrow> 's \<Rightarrow> 's option) \<Rightarrow> u32 list \<Rightarrow> 's \<Rightarrow> 's option" where
  "free_many free [] s = Some s"
| "free_many free (p # ps) s = Option.bind (free p s) (free_many free ps)"

locale page_allocator =
  fixes alloc :: "'s \<Rightarrow> (u32 \<times> 's) option"
    and free :: "u32 \<Rightarrow> 's \<Rightarrow> 's option"
    and rep :: "'s \<Rightarrow> u32 list \<Rightarrow> bool"
    and valid :: "u32 \<Rightarrow> bool"
    and contents :: "'s \<Rightarrow> mem"
  assumes alloc_empty: "rep s [] \<Longrightarrow> \<exists>s'. alloc s = Some (0, s') \<and> rep s' [] \<and> contents s' = contents s"
    and alloc_page: "rep s (p # ps) \<Longrightarrow> \<exists>s'. alloc s = Some (p, s') \<and> rep s' ps \<and> contents s' = contents s"
    and free_page: "rep s ps \<Longrightarrow> valid p \<Longrightarrow> p \<notin> set ps \<Longrightarrow>
      \<exists>s'. free p s = Some s' \<and> rep s' (p # ps) \<and> (\<forall>a. \<not> in_block a p 4096 \<longrightarrow> contents s' a = contents s a)"
    and free_invalid: "\<not> valid p \<Longrightarrow> free p s = None"
    and rep_distinct: "rep s ps \<Longrightarrow> distinct ps"
    and rep_valid: "rep s ps \<Longrightarrow> p \<in> set ps \<Longrightarrow> valid p"
    and valid_nonzero: "valid p \<Longrightarrow> p \<noteq> 0"
    and valid_disjoint: "valid p \<Longrightarrow> valid q \<Longrightarrow> p \<noteq> q \<Longrightarrow> in_block a p 4096 \<Longrightarrow> \<not> in_block a q 4096"
begin

lemma alloc_many_pages:
  "rep s ps \<Longrightarrow> n \<le> length ps \<Longrightarrow>
   \<exists>s'. alloc_many alloc n s = Some (take n ps, s') \<and> rep s' (drop n ps) \<and> contents s' = contents s"
proof (induction n arbitrary: s ps)
  case 0
  then show ?case by simp
next
  case (Suc n)
  then obtain p qs where ps: "ps = p # qs" by (cases ps) auto
  with Suc.prems(1) alloc_page obtain s1 where s1: "alloc s = Some (p, s1)" "rep s1 qs" "contents s1 = contents s"
    by blast
  with Suc.IH [OF s1(2)] Suc.prems(2) ps show ?case by auto
qed

lemma alloc_many_exhausted:
  assumes "rep s ps"
  shows "\<exists>s'. alloc_many alloc (length ps + k) s = Some (ps @ replicate k 0, s') \<and> rep s' []"
  using assms
proof (induction ps arbitrary: s)
  case Nil
  then show ?case
  proof (induction k arbitrary: s)
    case (Suc k)
    from alloc_empty [OF Suc.prems] obtain s1 where "alloc s = Some (0, s1)" "rep s1 []" by blast
    with Suc.IH [of s1] show ?case by auto
  qed simp
next
  case (Cons p ps)
  from alloc_page [OF Cons.prems] obtain s1 where "alloc s = Some (p, s1)" "rep s1 ps" by blast
  with Cons.IH [of s1] show ?case by auto
qed

text \<open>A page in use keeps its contents while other pages are freed.\<close>

lemma free_many_pages:
  assumes "rep s ps" and "\<And>p. p \<in> set qs \<Longrightarrow> valid p" and "distinct qs" and "set qs \<inter> set ps = {}"
  shows "\<exists>s'. free_many free qs s = Some s' \<and> rep s' (rev qs @ ps) \<and>
    (\<forall>p a. valid p \<longrightarrow> p \<notin> set qs \<longrightarrow> in_block a p 4096 \<longrightarrow> contents s' a = contents s a)"
  using assms
proof (induction qs arbitrary: s ps)
  case Nil
  then show ?case by auto
next
  case (Cons q qs)
  from free_page [of s ps q] Cons.prems obtain s1 where s1: "free q s = Some s1" "rep s1 (q # ps)"
    "\<forall>a. \<not> in_block a q 4096 \<longrightarrow> contents s1 a = contents s a" by auto
  with Cons.prems obtain s' where s': "free_many free qs s1 = Some s'" "rep s' (rev qs @ q # ps)"
    "\<forall>p a. valid p \<longrightarrow> p \<notin> set qs \<longrightarrow> in_block a p 4096 \<longrightarrow> contents s' a = contents s1 a"
    using Cons.IH [of s1 "q # ps"] by auto
  have "contents s' a = contents s a" if "valid p" "p \<notin> set (q # qs)" "in_block a p 4096" for p a
    using that s1(3) s'(3) valid_disjoint [of p q a] Cons.prems(2) [of q] by auto
  with s1(1) s' show ?case by auto
qed

end

interpretation kpages: page_allocator "kalloc me" "kfree kend me" "kmem_rep kend" "page_ok kend" ram
  for kend me
proof
  show "\<exists>s'. kalloc me s = Some (0, s') \<and> kmem_rep kend s' [] \<and> ram s' = ram s" if "kmem_rep kend s []" for s
    by (rule kalloc_empty [OF that])
  show "\<exists>s'. kalloc me s = Some (p, s') \<and> kmem_rep kend s' ps \<and> ram s' = ram s"
    if "kmem_rep kend s (p # ps)" for s p ps by (rule kalloc_page [OF that])
  show "\<exists>s'. kfree kend me p s = Some s' \<and> kmem_rep kend s' (p # ps) \<and>
      (\<forall>a. \<not> in_block a p 4096 \<longrightarrow> ram s' a = ram s a)"
    if "kmem_rep kend s ps" "page_ok kend p" "p \<notin> set ps" for s ps p using kfree_page [OF that] by blast
  show "\<not> in_block a q 4096" if "page_ok kend p" "page_ok kend q" "p \<noteq> q" "in_block a p 4096" for p q a
    using pages_disjoint [OF page_ok_aligned [OF that(1)] page_ok_aligned [OF that(2)] that(3,4)] .
qed (auto simp: kmem_rep_def page_ok_nonzero kfree_panics)

section \<open>Lemmas: initialisation\<close>

lemma and_not_4095: "and x (not 4095) = (x :: u32) - x mod 4096"
proof -
  have "(4095 :: u32) = mask 12" by (simp add: mask_eq_exp_minus_1)
  moreover have "take_bit 12 x = x mod 4096" by (simp add: take_bit_eq_mod)
  ultimately show ?thesis by (simp only: and_not_mask)
qed

lemma unat_and_not_4095: "unat (and x (not 4095) :: u32) = unat x div 4096 * 4096"
proof -
  have "unat (x mod 4096) = unat x mod 4096" by (simp add: unat_u32_mod)
  moreover have "x mod 4096 \<le> x" by (simp add: word_le_nat_alt unat_u32_mod)
  ultimately show ?thesis by (simp only: and_not_4095 unat_u32_minus) (simp add: minus_mod_eq_div_mult)
qed

lemma unat_PGROUNDDOWN: "unat (PGROUNDDOWN a) = unat a div 4096 * 4096"
proof -
  have "(4096 :: u32) - 1 = 4095" by simp
  then show ?thesis unfolding PGROUNDDOWN_def PGSIZE_def by (simp only: unat_and_not_4095)
qed

lemma unat_PGROUNDUP:
  assumes "unat a + 4095 < 2 ^ 32"
  shows "unat (PGROUNDUP a) = (unat a + 4095) div 4096 * 4096"
proof -
  have "unat (a + 4095) = unat a + 4095" using assms by (simp add: unat_u32_plus)
  moreover have "a + 4096 - 1 = a + 4095" "(4096 :: u32) - 1 = 4095" by simp_all
  then have "PGROUNDUP a = and (a + 4095) (not 4095)" by (simp only: PGROUNDUP_def PGSIZE_def)
  ultimately show ?thesis using unat_and_not_4095 [of "a + 4095"] by simp
qed

declare freerange_loop.simps [simp del]

lemma freerange_loop_spec:
  assumes "kmem_rep kend s ps" and "\<And>i. i < n \<Longrightarrow> page_ok kend (p + of_nat i * PGSIZE)"
    and "\<And>i. i < n \<Longrightarrow> p + of_nat i * PGSIZE \<notin> set ps"
    and "0 < n \<Longrightarrow> unat p + 4096 * n \<le> unat vend" and "unat vend < unat p + 4096 * (n + 1)"
    and "unat p + 4096 * (n + 1) < 2 ^ 32"
  shows "\<exists>s'. freerange_loop kend me vend p s = Some s' \<and>
    kmem_rep kend s' (rev (map (\<lambda>i. p + of_nat i * PGSIZE) [0..<n]) @ ps)"
  using assms
proof (induction n arbitrary: p s ps)
  case 0
  then have "\<not> p + PGSIZE \<le> vend" by (simp add: word_le_nat_alt unat_u32_plus PGSIZE_def)
  then show ?case using 0 by (simp add: freerange_loop.simps [of kend me vend p])
next
  case (Suc n)
  have p1: "unat (p + PGSIZE) = unat p + 4096" using Suc.prems(6) by (simp add: unat_u32_plus PGSIZE_def)
  have le: "p + PGSIZE \<le> vend" using Suc.prems(4) by (simp add: word_le_nat_alt p1)
  from kfree_page [of kend s ps p me] Suc.prems(1) Suc.prems(2) [of 0] Suc.prems(3) [of 0]
  obtain s1 where s1: "kfree kend me p s = Some s1" "kmem_rep kend s1 (p # ps)" by auto
  have shift: "p + PGSIZE + of_nat i * PGSIZE = p + of_nat (Suc i) * PGSIZE" for i by (simp add: algebra_simps)
  have ne: "p + PGSIZE + of_nat i * PGSIZE \<noteq> p" if "i < n" for i
  proof -
    have "unat (of_nat (Suc i) * PGSIZE) = Suc i * 4096"
      using that Suc.prems(6) by (simp add: unat_u32_times unat_of_nat_u32 PGSIZE_def del: of_nat_Suc)
    then have "of_nat (Suc i) * PGSIZE \<noteq> 0" by auto
    then show ?thesis unfolding shift by simp
  qed
  have "\<exists>s'. freerange_loop kend me vend (p + PGSIZE) s1 = Some s' \<and>
      kmem_rep kend s' (rev (map (\<lambda>i. p + PGSIZE + of_nat i * PGSIZE) [0..<n]) @ p # ps)"
  proof (rule Suc.IH [OF s1(2)])
    fix i assume i: "i < n"
    show "page_ok kend (p + PGSIZE + of_nat i * PGSIZE)" unfolding shift by (rule Suc.prems(2)) (use i in simp)
    show "p + PGSIZE + of_nat i * PGSIZE \<notin> set (p # ps)"
      using ne [OF i] Suc.prems(3) [of "Suc i"] i unfolding shift by simp
  qed (use p1 Suc.prems in simp_all)
  moreover have "rev (map (\<lambda>i. p + of_nat i * PGSIZE) [0..<Suc n]) @ ps =
      rev (map (\<lambda>i. p + PGSIZE + of_nat i * PGSIZE) [0..<n]) @ p # ps"
    unfolding shift by (simp add: map_Suc_upt [symmetric] upt_conv_Cons o_def del: upt_Suc)
  ultimately show ?case using le s1(1) by (simp add: freerange_loop.simps [of kend me vend p])
qed

lemma kinit1_pages:
  assumes "kend \<le> vstart" and "KERNBASE \<le> vstart" and "vend \<le> KERNBASE + PHYSTOP"
    and "vstart \<le> vend" and "freelist (kmem s) = 0" and "cpu_ok (kcpu s)"
  shows "\<exists>s' ps. kinit1 kend me vstart vend s = Some s' \<and> kmem_rep kend s' ps \<and>
    set ps = {p. p mod PGSIZE = 0 \<and> vstart \<le> p \<and> unat p + 4096 \<le> unat vend}"
proof -
  let ?s = "s\<lparr>kmem := (kmem s)\<lparr>k_lock := initlock ''kmem'', use_lock := False\<rparr>\<rparr>"
  have rep: "kmem_rep kend ?s []"
    using assms(5,6) by (simp add: kmem_rep_def lock_free_def initlock_def)
  have vend: "unat vend \<le> 2382364672" using assms(3) by (simp add: KERNBASE_def PHYSTOP_def word_le_nat_alt)
  have vs: "unat vstart \<le> unat vend" "2147483648 \<le> unat vstart"
    using assms(2,4) by (simp_all add: word_le_nat_alt KERNBASE_def)
  define k where "k = (unat vstart + 4095) div 4096"
  have P: "unat (PGROUNDUP vstart) = k * 4096"
    using unat_PGROUNDUP [of vstart] vend vs by (simp add: k_def)
  have k1: "unat vstart \<le> k * 4096" and k2: "k * 4096 < unat vstart + 4096"
    using div_mult_mod_eq [of "unat vstart + 4095" 4096] mod_less_divisor [of 4096 "unat vstart + 4095"]
    unfolding k_def by linarith+
  define n where "n = (unat vend - k * 4096) div 4096"
  have n: "n * 4096 + (unat vend - k * 4096) mod 4096 = unat vend - k * 4096"
    unfolding n_def by (rule div_mult_mod_eq)
  have r: "(unat vend - k * 4096) mod 4096 < 4096" by simp
  have n1: "k * 4096 + 4096 * n \<le> unat vend" if "0 < n" using n that by linarith
  have "unat vend \<le> k * 4096 + (unat vend - k * 4096)" by simp
  then have n2: "unat vend < k * 4096 + 4096 * (n + 1)" using n r by simp
  let ?page = "\<lambda>i. PGROUNDUP vstart + of_nat i * PGSIZE"
  have up: "unat (?page i) = (k + i) * 4096" if "i < n" for i
  proof -
    have "k * 4096 + i * 4096 < 2382364672" using n1 that vend by linarith
    then have "unat (of_nat i * PGSIZE) = i * 4096"
      by (simp add: unat_u32_times unat_of_nat_u32 PGSIZE_def)
    with P \<open>k * 4096 + i * 4096 < 2382364672\<close> show ?thesis by (simp add: unat_u32_plus)
  qed
  have ok: "page_ok kend (?page i)" if i: "i < n" for i
  proof -
    have b: "(k + i) * 4096 + 4096 \<le> unat vend" using n1 i by (simp add: algebra_simps)
    have "?page i mod PGSIZE = 0"
      using up [OF i] by (simp add: word_unat_eq_iff unat_u32_mod PGSIZE_def)
    moreover have "kend \<le> ?page i"
      using up [OF i] k1 assms(1) by (simp add: word_le_nat_alt)
    moreover have "V2P (?page i) < PHYSTOP"
    proof -
      have "KERNBASE \<le> ?page i" using up [OF i] k1 vs by (simp add: word_le_nat_alt KERNBASE_def)
      then have "unat (V2P (?page i)) = (k + i) * 4096 - 2147483648"
        unfolding V2P_def by (simp only: unat_u32_minus up [OF i]) (simp add: KERNBASE_def)
      with b vend show ?thesis by (simp add: word_less_nat_alt PHYSTOP_def)
    qed
    ultimately show ?thesis by (simp add: page_ok_def)
  qed
  have lim: "k * 4096 + 4096 * (n + 1) < 2 ^ 32"
    using n1 k2 vend vs by (cases "n = 0") auto
  from freerange_loop_spec [OF rep ok, of n vend me] obtain s' where
    s': "freerange_loop kend me vend (PGROUNDUP vstart) ?s = Some s'" "kmem_rep kend s' (rev (map ?page [0..<n]))"
    using P n1 n2 lim by auto
  have "set (rev (map ?page [0..<n])) = {p. p mod PGSIZE = 0 \<and> vstart \<le> p \<and> unat p + 4096 \<le> unat vend}"
  proof (intro equalityI subsetI)
    fix p assume "p \<in> set (rev (map ?page [0..<n]))"
    then obtain i where i: "i < n" "p = ?page i" by auto
    then show "p \<in> {p. p mod PGSIZE = 0 \<and> vstart \<le> p \<and> unat p + 4096 \<le> unat vend}"
      using ok [OF i(1)] up [OF i(1)] k1 n1 by (auto simp: page_ok_def word_le_nat_alt algebra_simps)
  next
    fix p assume "p \<in> {p. p mod PGSIZE = 0 \<and> vstart \<le> p \<and> unat p + 4096 \<le> unat vend}"
    then have p: "unat p mod 4096 = 0" "unat vstart \<le> unat p" "unat p + 4096 \<le> unat vend"
      using unat_u32_mod [of p 4096] by (simp_all add: PGSIZE_def word_le_nat_alt)
    obtain j where j: "unat p = j * 4096" using p(1) by (metis div_mult_mod_eq add_0_right)
    have "k * 4096 < (j + 1) * 4096" using k2 p(2) j by (simp add: algebra_simps)
    then have "k \<le> j" by simp
    moreover have "(j + 1) * 4096 < (k + n + 1) * 4096" using p(3) j n2 by (simp add: algebra_simps)
    then have "j < k + n" by simp
    ultimately have i: "j - k < n" and "p = ?page (j - k)"
      using up [of "j - k"] j by (auto simp: word_unat_eq_iff)
    then show "p \<in> set (rev (map ?page [0..<n]))" by auto
  qed
  moreover have "kinit1 kend me vstart vend s = Some s'" using s'(1) by (simp add: kinit1_def freerange_def)
  ultimately show ?thesis using s'(2) by blast
qed

section \<open>Properties\<close>

text \<open>C31: from a state with the free pages \<open>ps\<close>, \<open>kalloc\<close> called \<open>n\<close> times hands out the first \<open>n\<close> of
  them, each once, page-aligned, inside physical memory and disjoint, without touching memory; when the
  pages are used up it returns 0; and giving the pages back with \<open>kfree\<close> makes them free again while
  every page still in use keeps its contents.\<close>

theorem kalloc_kfree_pages:
  assumes "kmem_rep kend s ps" and "n \<le> length ps"
  shows "\<exists>s1. alloc_many (kalloc me) n s = Some (take n ps, s1) \<and> ram s1 = ram s \<and>
    distinct (take n ps) \<and> (\<forall>p \<in> set ps. page_ok kend p) \<and>
    (\<exists>s2. alloc_many (kalloc me) (length ps - n + 1) s1 = Some (drop n ps @ [0], s2)) \<and>
    (\<exists>s2. free_many (kfree kend me) (take n ps) s1 = Some s2 \<and> kmem_rep kend s2 (rev (take n ps) @ drop n ps) \<and>
      (\<forall>p a. page_ok kend p \<longrightarrow> p \<notin> set (take n ps) \<longrightarrow> in_block a p 4096 \<longrightarrow> ram s2 a = ram s1 a))"
proof -
  from kpages.alloc_many_pages [OF assms] obtain s1 where
    s1: "alloc_many (kalloc me) n s = Some (take n ps, s1)" "kmem_rep kend s1 (drop n ps)" "ram s1 = ram s" by blast
  have d: "distinct (take n ps)" "set (take n ps) \<inter> set (drop n ps) = {}" and v: "\<forall>p \<in> set ps. page_ok kend p"
    using kpages.rep_distinct [OF assms(1)] kpages.rep_valid [OF assms(1)] by (auto simp: set_take_disj_set_drop_if_distinct)
  have "\<exists>s2. alloc_many (kalloc me) (length ps - n + 1) s1 = Some (drop n ps @ [0], s2)"
    using kpages.alloc_many_exhausted [OF s1(2), of me 1] by auto
  moreover have "p \<in> set (take n ps) \<Longrightarrow> page_ok kend p" for p using v by (auto dest: in_set_takeD)
  then have "\<exists>s2. free_many (kfree kend me) (take n ps) s1 = Some s2 \<and> kmem_rep kend s2 (rev (take n ps) @ drop n ps) \<and>
      (\<forall>p a. page_ok kend p \<longrightarrow> p \<notin> set (take n ps) \<longrightarrow> in_block a p 4096 \<longrightarrow> ram s2 a = ram s1 a)"
    by (rule kpages.free_many_pages [OF s1(2) _ d])
  ultimately show ?thesis using s1(1,3) d(1) v by blast
qed

text \<open>\<open>kinit1\<close> on a range above the kernel and below \<open>PHYSTOP\<close> terminates without a panic and the
  free pages are then exactly the whole pages inside the range, each once.\<close>

theorem kinit1_frees_range:
  assumes "kend \<le> vstart" "KERNBASE \<le> vstart" "vend \<le> KERNBASE + PHYSTOP" "vstart \<le> vend"
    and "freelist (kmem s) = 0" "cpu_ok (kcpu s)"
  shows "\<exists>s' ps. kinit1 kend me vstart vend s = Some s' \<and> kmem_rep kend s' ps \<and>
    set ps = {p. p mod PGSIZE = 0 \<and> vstart \<le> p \<and> unat p + 4096 \<le> unat vend}"
  by (rule kinit1_pages [OF assms])

definition boot_machine :: kmachine where
  "boot_machine = \<lparr>ram = (\<lambda>a. 0), kmem = \<lparr>k_lock = initlock ''kmem'', use_lock = False, freelist = 0\<rparr>,
     kcpu = \<lparr>ncli = 1, intena = False, if_flag = False\<rparr>\<rparr>"

lemma kmem_rep_boot: "kmem_rep kend boot_machine []"
  by (simp add: kmem_rep_def boot_machine_def lock_free_def initlock_def cpu_ok_def)

theorem kinit1_frees_range_witness:
  "\<exists>s' ps. kinit1 0x80100000 0 0x80100010 0x80103000 boot_machine = Some s' \<and> kmem_rep 0x80100000 s' ps \<and>
    0x80101000 \<in> set ps"
proof -
  have "\<exists>s' ps. kinit1 0x80100000 0 0x80100010 0x80103000 boot_machine = Some s' \<and> kmem_rep 0x80100000 s' ps \<and>
      set ps = {p. p mod PGSIZE = 0 \<and> 0x80100010 \<le> p \<and> unat p + 4096 \<le> unat (0x80103000 :: u32)}"
    by (rule kinit1_frees_range) (simp_all add: KERNBASE_def PHYSTOP_def boot_machine_def cpu_ok_def)
  then obtain s' ps where "kinit1 0x80100000 0 0x80100010 0x80103000 boot_machine = Some s'"
    "kmem_rep 0x80100000 s' ps"
    and ps: "set ps = {p. p mod PGSIZE = 0 \<and> 0x80100010 \<le> p \<and> unat p + 4096 \<le> unat (0x80103000 :: u32)}"
    by blast
  moreover have "0x80101000 \<in> set ps" unfolding ps by (simp add: PGSIZE_def)
  ultimately show ?thesis by blast
qed

theorem kalloc_kfree_pages_witness:
  "\<exists>s s1. kmem_rep 0x80100000 s [0x80101000] \<and> alloc_many (kalloc 0) 1 s = Some ([0x80101000], s1)"
proof -
  have "page_ok 0x80100000 0x80101000" by (simp add: page_ok_def PGSIZE_def V2P_def KERNBASE_def PHYSTOP_def)
  from kfree_page [OF kmem_rep_boot this, of 0] obtain s where "kmem_rep 0x80100000 s [0x80101000]" by auto
  with kalloc_kfree_pages [OF this, of 1 0] show ?thesis by auto
qed

end
