(* ===== verification/Proc.thy ===== *)
theory Proc
  imports Kalloc Printf
begin

text \<open>
  Processes (\<open>proc.c\<close>, \<open>proc.h\<close>). A process pointer is an index into the table of \<open>NPROC\<close> entries,
  and the null pointer is \<open>None\<close>. A function that gives up the processor in \<open>sched\<close> is split there:
  the part before the context switch returns the state in which the scheduler continues, the part
  after it starts from the state in which the process is resumed. The services that \<open>proc.c\<close> calls in
  other components (pages, address spaces, files, inodes, the log) are the fields of a record of
  functions on an environment, which the definitions thread through in the order of the calls. A
  panic or the use of a null pointer is \<open>None\<close>.
\<close>

section \<open>Data\<close>

definition NPROC :: nat where "NPROC = 64"
definition NOFILE :: nat where "NOFILE = 16"

datatype procstate = UNUSED | EMBRYO | SLEEPING | RUNNABLE | RUNNING | ZOMBIE

text \<open>What a process sleeps on: an address, of a process table entry or of another object.\<close>

datatype channel = NoChan | ProcAt nat | Object u32

record trapframe =
  tf_edi :: u32
  tf_esi :: u32
  tf_ebp :: u32
  tf_oesp :: u32
  tf_ebx :: u32
  tf_edx :: u32
  tf_ecx :: u32
  tf_eax :: u32
  tf_gs :: u16
  tf_fs :: u16
  tf_es :: u16
  tf_ds :: u16
  tf_trapno :: u32
  tf_err :: u32
  tf_eip :: u32
  tf_cs :: u16
  tf_eflags :: u32
  tf_esp :: u32
  tf_ss :: u16

definition zero_trapframe :: trapframe where
  "zero_trapframe = \<lparr>tf_edi = 0, tf_esi = 0, tf_ebp = 0, tf_oesp = 0, tf_ebx = 0, tf_edx = 0, tf_ecx = 0,
     tf_eax = 0, tf_gs = 0, tf_fs = 0, tf_es = 0, tf_ds = 0, tf_trapno = 0, tf_err = 0, tf_eip = 0,
     tf_cs = 0, tf_eflags = 0, tf_esp = 0, tf_ss = 0\<rparr>"

text \<open>Where a kernel context continues: \<open>forkret\<close> for a new process, otherwise inside \<open>sched\<close>.\<close>

datatype code_address = Forkret | Trapret | In_sched

record kcontext =
  ctx_edi :: u32
  ctx_esi :: u32
  ctx_ebx :: u32
  ctx_ebp :: u32
  ctx_eip :: code_address

definition zero_context :: "code_address \<Rightarrow> kcontext" where
  "zero_context eip = \<lparr>ctx_edi = 0, ctx_esi = 0, ctx_ebx = 0, ctx_ebp = 0, ctx_eip = eip\<rparr>"

record proc =
  sz :: u32
  pgdir :: u32
  kstack :: u32
  state :: procstate
  pid :: u32
  parent :: "nat option"
  tf :: trapframe
  ret_address :: code_address
  ctx :: kcontext
  chan :: channel
  killed :: bool
  ofile :: "nat option list"
  cwd :: "nat option"
  name :: "byte list"
  priority :: int

text \<open>The services of the other components. A file is an index of the file table, an inode an index of
  the inode table.\<close>

record 'e services =
  sv_kalloc :: "'e \<Rightarrow> u32 \<times> 'e"
  sv_kfree :: "u32 \<Rightarrow> 'e \<Rightarrow> 'e option"
  sv_setupkvm :: "'e \<Rightarrow> u32 \<times> 'e"
  sv_inituvm :: "u32 \<Rightarrow> 'e \<Rightarrow> 'e option"
  sv_allocuvm :: "u32 \<Rightarrow> u32 \<Rightarrow> u32 \<Rightarrow> 'e \<Rightarrow> (u32 \<times> 'e) option"
  sv_deallocuvm :: "u32 \<Rightarrow> u32 \<Rightarrow> u32 \<Rightarrow> 'e \<Rightarrow> (u32 \<times> 'e) option"
  sv_copyuvm :: "u32 \<Rightarrow> u32 \<Rightarrow> 'e \<Rightarrow> (u32 \<times> 'e) option"
  sv_freevm :: "u32 \<Rightarrow> 'e \<Rightarrow> 'e option"
  sv_switchuvm :: "proc \<Rightarrow> 'e \<Rightarrow> 'e option"
  sv_switchkvm :: "'e \<Rightarrow> 'e"
  sv_filedup :: "nat \<Rightarrow> 'e \<Rightarrow> 'e option"
  sv_fileclose :: "nat \<Rightarrow> 'e \<Rightarrow> 'e option"
  sv_idup :: "nat option \<Rightarrow> 'e \<Rightarrow> 'e option"
  sv_iput :: "nat option \<Rightarrow> 'e \<Rightarrow> 'e option"
  sv_namei :: "string \<Rightarrow> 'e \<Rightarrow> nat option \<times> 'e"
  sv_begin_op :: "'e \<Rightarrow> 'e"
  sv_end_op :: "'e \<Rightarrow> 'e"
  sv_iinit :: "'e \<Rightarrow> 'e"
  sv_initlog :: "'e \<Rightarrow> 'e"

text \<open>The state of \<open>proc.c\<close>, the processor that runs, and the rest of the kernel.\<close>

record 'e kstate =
  ptable :: "proc list"
  pt_lock :: spinlock
  initproc :: "nat option"
  nextpid :: u32
  first_forkret :: bool
  pcpu :: cpu
  cur :: "nat option"
  env :: 'e

definition upd :: "nat \<Rightarrow> (proc \<Rightarrow> proc) \<Rightarrow> 'e kstate \<Rightarrow> 'e kstate" where
  "upd i f s = s\<lparr>ptable := (ptable s)[i := f (ptable s ! i)]\<rparr>"

definition lock_ptable :: "nat \<Rightarrow> 'e kstate \<Rightarrow> 'e kstate option" where
  "lock_ptable me s = do {
     (lk, c) \<leftarrow> acquire me (pt_lock s) (pcpu s);
     Some (s\<lparr>pt_lock := lk, pcpu := c\<rparr>)
   }"

definition unlock_ptable :: "nat \<Rightarrow> 'e kstate \<Rightarrow> 'e kstate option" where
  "unlock_ptable me s = do {
     (lk, c) \<leftarrow> release me (pt_lock s) (pcpu s);
     Some (s\<lparr>pt_lock := lk, pcpu := c\<rparr>)
   }"

section \<open>Identity of processor and process\<close>

text \<open>\<open>mycpu\<close> searches the table of APIC ids; \<open>None\<close> is either of its panics.\<close>

definition mycpu :: "byte list \<Rightarrow> byte \<Rightarrow> cpu \<Rightarrow> nat option" where
  "mycpu apicids lapicid c = (if if_flag c then None else find_first (\<lambda>a. a = lapicid) apicids)"

definition myproc :: "'e kstate \<Rightarrow> (nat option \<times> 'e kstate) option" where
  "myproc s = do {
     let c = pushcli (pcpu s);
     let p = cur s;
     c \<leftarrow> popcli c;
     Some (p, s\<lparr>pcpu := c\<rparr>)
   }"

section \<open>Creating processes\<close>

definition pinit :: "'e kstate \<Rightarrow> 'e kstate" where
  "pinit s = s\<lparr>pt_lock := initlock ''ptable''\<rparr>"

text \<open>\<open>allocproc\<close>: the trap frame keeps whatever the new stack page holds until the caller fills it.\<close>

definition allocproc :: "'e services \<Rightarrow> nat \<Rightarrow> 'e kstate \<Rightarrow> (nat option \<times> 'e kstate) option" where
  "allocproc sv me s = do {
     s \<leftarrow> lock_ptable me s;
     case find_first (\<lambda>p. state p = UNUSED) (ptable s) of
       None \<Rightarrow> do {
         s \<leftarrow> unlock_ptable me s;
         Some (None, s)
       }
     | Some i \<Rightarrow> do {
         let s = upd i (\<lambda>p. p\<lparr>state := EMBRYO, pid := nextpid s, priority := 10\<rparr>) s;
         let s = s\<lparr>nextpid := nextpid s + 1\<rparr>;
         s \<leftarrow> unlock_ptable me s;
         let (k, e) = sv_kalloc sv (env s);
         let s = upd i (\<lambda>p. p\<lparr>kstack := k\<rparr>) (s\<lparr>env := e\<rparr>);
         (if k = 0 then Some (None, upd i (\<lambda>p. p\<lparr>state := UNUSED\<rparr>) s)
          else Some (Some i, upd i (\<lambda>p. p\<lparr>ret_address := Trapret, ctx := zero_context Forkret\<rparr>) s))
       }
   }"

definition user_trapframe :: trapframe where
  "user_trapframe = zero_trapframe\<lparr>tf_cs := 27, tf_ds := 35, tf_es := 35, tf_ss := 35,
     tf_eflags := 0x200, tf_esp := PGSIZE, tf_eip := 0\<rparr>"

text \<open>A name of at most 15 characters in a field of 16 bytes, as \<open>safestrcpy\<close> leaves it.\<close>

definition proc_name :: "byte list \<Rightarrow> byte list" where
  "proc_name s = take 15 (takeWhile (\<lambda>c. c \<noteq> 0) s)"

definition userinit :: "'e services \<Rightarrow> nat \<Rightarrow> 'e kstate \<Rightarrow> 'e kstate option" where
  "userinit sv me s = do {
     (p, s) \<leftarrow> allocproc sv me s;
     let s = s\<lparr>initproc := p\<rparr>;
     i \<leftarrow> p;
     let (pd, e) = sv_setupkvm sv (env s);
     let s = upd i (\<lambda>p. p\<lparr>pgdir := pd\<rparr>) (s\<lparr>env := e\<rparr>);
     (if pd = 0 then None
      else do {
        e \<leftarrow> sv_inituvm sv pd (env s);
        let s = upd i (\<lambda>p. p\<lparr>sz := PGSIZE, tf := user_trapframe,
          name := proc_name (bytes ''initcode'')\<rparr>) (s\<lparr>env := e\<rparr>);
        let (c, e) = sv_namei sv ''/'' (env s);
        let s = upd i (\<lambda>p. p\<lparr>cwd := c\<rparr>) (s\<lparr>env := e\<rparr>);
        s \<leftarrow> lock_ptable me s;
        unlock_ptable me (upd i (\<lambda>p. p\<lparr>state := RUNNABLE\<rparr>) s)
      })
   }"

definition growproc :: "'e services \<Rightarrow> int \<Rightarrow> 'e kstate \<Rightarrow> (int \<times> 'e kstate) option" where
  "growproc sv n s = do {
     (p, s) \<leftarrow> myproc s;
     i \<leftarrow> p;
     let cp = ptable s ! i;
     (r, e) \<leftarrow>
       (if 0 < n then do {
          (r, e) \<leftarrow> sv_allocuvm sv (pgdir cp) (sz cp) (sz cp + of_int n) (env s);
          Some (if r = 0 then None else Some r, e)
        } else if n < 0 then do {
          (r, e) \<leftarrow> sv_deallocuvm sv (pgdir cp) (sz cp) (sz cp + of_int n) (env s);
          Some (if r = 0 then None else Some r, e)
        } else Some (Some (sz cp), env s));
     let s = s\<lparr>env := e\<rparr>;
     case r of
       None \<Rightarrow> Some (-1, s)
     | Some newsz \<Rightarrow> do {
         let s = upd i (\<lambda>p. p\<lparr>sz := newsz\<rparr>) s;
         e \<leftarrow> sv_switchuvm sv (ptable s ! i) (env s);
         Some (0, s\<lparr>env := e\<rparr>)
       }
   }"

text \<open>The loop of \<open>fork\<close> over the open files.\<close>

fun dup_files :: "'e services \<Rightarrow> nat option list \<Rightarrow> nat option list \<Rightarrow> 'e \<Rightarrow> (nat option list \<times> 'e) option" where
  "dup_files sv (Some f # fs) (g # gs) e = do {
     e \<leftarrow> sv_filedup sv f e;
     (rest, e) \<leftarrow> dup_files sv fs gs e;
     Some (Some f # rest, e)
   }"
| "dup_files sv (None # fs) (g # gs) e = do {
     (rest, e) \<leftarrow> dup_files sv fs gs e;
     Some (g # rest, e)
   }"
| "dup_files sv fs gs e = Some (gs, e)"

definition fork :: "'e services \<Rightarrow> nat \<Rightarrow> 'e kstate \<Rightarrow> (u32 \<times> 'e kstate) option" where
  "fork sv me s = do {
     (p, s) \<leftarrow> myproc s;
     cp \<leftarrow> p;
     (np, s) \<leftarrow> allocproc sv me s;
     case np of
       None \<Rightarrow> Some (-1, s)
     | Some n \<Rightarrow> do {
         (pd, e) \<leftarrow> sv_copyuvm sv (pgdir (ptable s ! cp)) (sz (ptable s ! cp)) (env s);
         let s = upd n (\<lambda>q. q\<lparr>pgdir := pd\<rparr>) (s\<lparr>env := e\<rparr>);
         (if pd = 0 then do {
            e \<leftarrow> sv_kfree sv (kstack (ptable s ! n)) (env s);
            Some (-1, upd n (\<lambda>q. q\<lparr>kstack := 0, state := UNUSED\<rparr>) (s\<lparr>env := e\<rparr>))
          } else do {
            let c = ptable s ! cp;
            let s = upd n (\<lambda>q. q\<lparr>sz := sz c, parent := Some cp, tf := (tf c)\<lparr>tf_eax := 0\<rparr>\<rparr>) s;
            (fs, e) \<leftarrow> dup_files sv (ofile c) (ofile (ptable s ! n)) (env s);
            let s = upd n (\<lambda>q. q\<lparr>ofile := fs\<rparr>) (s\<lparr>env := e\<rparr>);
            e \<leftarrow> sv_idup sv (cwd c) (env s);
            let s = upd n (\<lambda>q. q\<lparr>cwd := cwd c, name := proc_name (name c)\<rparr>) (s\<lparr>env := e\<rparr>);
            let pid = pid (ptable s ! n);
            s \<leftarrow> lock_ptable me s;
            s \<leftarrow> unlock_ptable me (upd n (\<lambda>q. q\<lparr>state := RUNNABLE\<rparr>) s);
            Some (pid, s)
          })
       }
   }"

section \<open>Scheduling\<close>

text \<open>\<open>sched\<close> up to the context switch: the checks, and the value of \<open>intena\<close> that the resumed process
  restores. \<open>swtch\<close> saves the callee-saved registers; of the saved context only the place where it
  continues is modelled.\<close>

definition sched_out :: "nat \<Rightarrow> 'e kstate \<Rightarrow> (bool \<times> 'e kstate) option" where
  "sched_out me s = do {
     (p, s) \<leftarrow> myproc s;
     (h, c) \<leftarrow> holding me (pt_lock s) (pcpu s);
     let s = s\<lparr>pcpu := c\<rparr>;
     (if \<not> h then None
      else if ncli (pcpu s) \<noteq> 1 then None
      else do {
        i \<leftarrow> p;
        (if state (ptable s ! i) = RUNNING then None
         else if if_flag (pcpu s) then None
         else Some (intena (pcpu s), upd i (\<lambda>p. p\<lparr>ctx := (ctx p)\<lparr>ctx_eip := In_sched\<rparr>\<rparr>) s))
      })
   }"

definition sched_in :: "bool \<Rightarrow> 'e kstate \<Rightarrow> 'e kstate" where
  "sched_in ia s = s\<lparr>pcpu := (pcpu s)\<lparr>intena := ia\<rparr>\<rparr>"

text \<open>The loop of \<open>scheduler\<close> over the table: the best entry so far.\<close>

definition better :: "proc list \<Rightarrow> nat \<Rightarrow> nat option \<Rightarrow> nat option" where
  "better t i best =
     (if state (t ! i) \<noteq> RUNNABLE then best
      else case best of
        None \<Rightarrow> Some i
      | Some b \<Rightarrow> if priority (t ! i) < priority (t ! b) then Some i else best)"

definition pick :: "proc list \<Rightarrow> nat option" where
  "pick t = fold (better t) [0..<length t] None"

text \<open>Before its endless loop \<open>scheduler\<close> decrements the positive priorities of the runnable
  processes, once, without the lock.\<close>

definition age :: "proc \<Rightarrow> proc" where
  "age p = (if state p = RUNNABLE \<and> 0 < priority p then p\<lparr>priority := priority p - 1\<rparr> else p)"

definition scheduler_start :: "'e kstate \<Rightarrow> 'e kstate" where
  "scheduler_start s = s\<lparr>cur := None, ptable := map age (ptable s)\<rparr>"

text \<open>One round of the endless loop, up to the switch to the chosen process, and the rest of the
  round after the process has switched back.\<close>

definition scheduler_out :: "'e services \<Rightarrow> nat \<Rightarrow> 'e kstate \<Rightarrow> (nat option \<times> 'e kstate) option" where
  "scheduler_out sv me s = do {
     let s = s\<lparr>pcpu := (pcpu s)\<lparr>if_flag := True\<rparr>\<rparr>;
     s \<leftarrow> lock_ptable me s;
     case pick (ptable s) of
       None \<Rightarrow> do {
         s \<leftarrow> unlock_ptable me s;
         Some (None, s)
       }
     | Some i \<Rightarrow> do {
         let s = s\<lparr>cur := Some i\<rparr>;
         e \<leftarrow> sv_switchuvm sv (ptable s ! i) (env s);
         Some (Some i, upd i (\<lambda>p. p\<lparr>state := RUNNING\<rparr>) (s\<lparr>env := e\<rparr>))
       }
   }"

definition scheduler_back :: "'e services \<Rightarrow> nat \<Rightarrow> 'e kstate \<Rightarrow> 'e kstate option" where
  "scheduler_back sv me s = unlock_ptable me (s\<lparr>env := sv_switchkvm sv (env s), cur := None\<rparr>)"

definition yield_out :: "nat \<Rightarrow> 'e kstate \<Rightarrow> (bool \<times> 'e kstate) option" where
  "yield_out me s = do {
     s \<leftarrow> lock_ptable me s;
     (p, s) \<leftarrow> myproc s;
     i \<leftarrow> p;
     let s = (if 0 < priority (ptable s ! i) then upd i (\<lambda>p. p\<lparr>priority := priority p - 1\<rparr>) s else s);
     sched_out me (upd i (\<lambda>p. p\<lparr>state := RUNNABLE\<rparr>) s)
   }"

definition yield_in :: "nat \<Rightarrow> bool \<Rightarrow> 'e kstate \<Rightarrow> 'e kstate option" where
  "yield_in me ia s = unlock_ptable me (sched_in ia s)"

definition forkret :: "'e services \<Rightarrow> nat \<Rightarrow> 'e kstate \<Rightarrow> 'e kstate option" where
  "forkret sv me s = do {
     s \<leftarrow> unlock_ptable me s;
     Some (if first_forkret s then s\<lparr>first_forkret := False, env := sv_initlog sv (sv_iinit sv (env s))\<rparr> else s)
   }"

section \<open>Sleeping and waking\<close>

text \<open>\<open>sleep\<close> with the lock of the condition: \<open>None\<close> stands for \<open>&ptable.lock\<close> itself.\<close>

definition sleep_out ::
  "nat \<Rightarrow> channel \<Rightarrow> spinlock option \<Rightarrow> 'e kstate \<Rightarrow> (spinlock option \<times> bool \<times> 'e kstate) option" where
  "sleep_out me ch lk s = do {
     (p, s) \<leftarrow> myproc s;
     i \<leftarrow> p;
     (lk, s) \<leftarrow>
       (case lk of
          None \<Rightarrow> Some (None, s)
        | Some l \<Rightarrow> do {
            s \<leftarrow> lock_ptable me s;
            (l, c) \<leftarrow> release me l (pcpu s);
            Some (Some l, s\<lparr>pcpu := c\<rparr>)
          });
     let s = upd i (\<lambda>p. p\<lparr>chan := ch, state := SLEEPING\<rparr>) s;
     (ia, s) \<leftarrow> sched_out me s;
     Some (lk, ia, s)
   }"

definition sleep_in ::
  "nat \<Rightarrow> nat \<Rightarrow> spinlock option \<Rightarrow> bool \<Rightarrow> 'e kstate \<Rightarrow> (spinlock option \<times> 'e kstate) option" where
  "sleep_in me i lk ia s = do {
     let s = upd i (\<lambda>p. p\<lparr>chan := NoChan\<rparr>) (sched_in ia s);
     case lk of
       None \<Rightarrow> Some (None, s)
     | Some l \<Rightarrow> do {
         s \<leftarrow> unlock_ptable me s;
         (l, c) \<leftarrow> acquire me l (pcpu s);
         Some (Some l, s\<lparr>pcpu := c\<rparr>)
       }
   }"

definition wake :: "channel \<Rightarrow> proc \<Rightarrow> proc" where
  "wake ch p = (if state p = SLEEPING \<and> chan p = ch then p\<lparr>state := RUNNABLE\<rparr> else p)"

definition wakeup1 :: "channel \<Rightarrow> 'e kstate \<Rightarrow> 'e kstate" where
  "wakeup1 ch s = s\<lparr>ptable := map (wake ch) (ptable s)\<rparr>"

definition wakeup :: "nat \<Rightarrow> channel \<Rightarrow> 'e kstate \<Rightarrow> 'e kstate option" where
  "wakeup me ch s = do {
     s \<leftarrow> lock_ptable me s;
     unlock_ptable me (wakeup1 ch s)
   }"

section \<open>Ending and waiting\<close>

fun close_files :: "'e services \<Rightarrow> nat option list \<Rightarrow> 'e \<Rightarrow> (nat option list \<times> 'e) option" where
  "close_files sv [] e = Some ([], e)"
| "close_files sv (f # fs) e = do {
     e \<leftarrow> (case f of None \<Rightarrow> Some e | Some f \<Rightarrow> sv_fileclose sv f e);
     (rest, e) \<leftarrow> close_files sv fs e;
     Some (None # rest, e)
   }"

text \<open>The address of a process table entry as a channel; the null pointer is no channel.\<close>

definition chan_of :: "nat option \<Rightarrow> channel" where
  "chan_of p = (case p of None \<Rightarrow> NoChan | Some i \<Rightarrow> ProcAt i)"

definition reparent_one :: "nat \<Rightarrow> nat \<Rightarrow> 'e kstate \<Rightarrow> 'e kstate" where
  "reparent_one i j s =
     (if parent (ptable s ! j) = Some i then
        let s = upd j (\<lambda>p. p\<lparr>parent := initproc s\<rparr>) s in
        if state (ptable s ! j) = ZOMBIE then wakeup1 (chan_of (initproc s)) s else s
      else s)"

definition exit :: "'e services \<Rightarrow> nat \<Rightarrow> 'e kstate \<Rightarrow> (bool \<times> 'e kstate) option" where
  "exit sv me s = do {
     (p, s) \<leftarrow> myproc s;
     i \<leftarrow> p;
     (if initproc s = Some i then None
      else do {
        (fs, e) \<leftarrow> close_files sv (ofile (ptable s ! i)) (env s);
        let s = upd i (\<lambda>p. p\<lparr>ofile := fs\<rparr>) (s\<lparr>env := e\<rparr>);
        let e = sv_begin_op sv (env s);
        e \<leftarrow> sv_iput sv (cwd (ptable s ! i)) e;
        let s = upd i (\<lambda>p. p\<lparr>cwd := None\<rparr>) (s\<lparr>env := sv_end_op sv e\<rparr>);
        s \<leftarrow> lock_ptable me s;
        let s = wakeup1 (chan_of (parent (ptable s ! i))) s;
        let s = fold (reparent_one i) [0..<length (ptable s)] s;
        sched_out me (upd i (\<lambda>p. p\<lparr>state := ZOMBIE\<rparr>) s)
      })
   }"

text \<open>One pass of the endless loop of \<open>wait\<close>, the lock held: a zombie child is reaped, or there is
  nothing to wait for, or the process goes to sleep and a later pass starts when it is woken.\<close>

datatype wait_result = Reaped u32 | No_children | Asleep bool

definition is_child :: "nat \<Rightarrow> proc \<Rightarrow> bool" where
  "is_child i p \<longleftrightarrow> parent p = Some i"

definition wait_pass :: "'e services \<Rightarrow> nat \<Rightarrow> nat \<Rightarrow> 'e kstate \<Rightarrow> (wait_result \<times> 'e kstate) option" where
  "wait_pass sv me i s =
     (case find_first (\<lambda>p. is_child i p \<and> state p = ZOMBIE) (ptable s) of
        Some j \<Rightarrow> do {
          let p = ptable s ! j;
          e \<leftarrow> sv_kfree sv (kstack p) (env s);
          e \<leftarrow> sv_freevm sv (pgdir p) e;
          let s = upd j (\<lambda>p. p\<lparr>kstack := 0, pid := 0, parent := None, name := [], killed := False,
            state := UNUSED\<rparr>) (s\<lparr>env := e\<rparr>);
          s \<leftarrow> unlock_ptable me s;
          Some (Reaped (pid p), s)
        }
      | None \<Rightarrow>
          if \<not> list_ex (is_child i) (ptable s) \<or> killed (ptable s ! i) then do {
            s \<leftarrow> unlock_ptable me s;
            Some (No_children, s)
          } else do {
            (lk, ia, s) \<leftarrow> sleep_out me (ProcAt i) None s;
            Some (Asleep ia, s)
          })"

definition wait_start :: "'e services \<Rightarrow> nat \<Rightarrow> 'e kstate \<Rightarrow> (wait_result \<times> 'e kstate) option" where
  "wait_start sv me s = do {
     (p, s) \<leftarrow> myproc s;
     i \<leftarrow> p;
     s \<leftarrow> lock_ptable me s;
     wait_pass sv me i s
   }"

definition wait_resumed :: "'e services \<Rightarrow> nat \<Rightarrow> nat \<Rightarrow> bool \<Rightarrow> 'e kstate \<Rightarrow> (wait_result \<times> 'e kstate) option" where
  "wait_resumed sv me i ia s = do {
     (lk, s) \<leftarrow> sleep_in me i None ia s;
     wait_pass sv me i s
   }"

section \<open>Operations on a process id\<close>

definition setpriority :: "nat \<Rightarrow> u32 \<Rightarrow> int \<Rightarrow> 'e kstate \<Rightarrow> (int \<times> 'e kstate) option" where
  "setpriority me p prio s = do {
     s \<leftarrow> lock_ptable me s;
     case find_first (\<lambda>q. pid q = p) (ptable s) of
       Some i \<Rightarrow> do {
         s \<leftarrow> unlock_ptable me (upd i (\<lambda>q. q\<lparr>priority := prio\<rparr>) s);
         Some (0, s)
       }
     | None \<Rightarrow> do {
         s \<leftarrow> unlock_ptable me s;
         Some (-1, s)
       }
   }"

definition kill :: "nat \<Rightarrow> u32 \<Rightarrow> 'e kstate \<Rightarrow> (int \<times> 'e kstate) option" where
  "kill me p s = do {
     s \<leftarrow> lock_ptable me s;
     case find_first (\<lambda>q. pid q = p) (ptable s) of
       Some i \<Rightarrow> do {
         let s = upd i (\<lambda>q. q\<lparr>killed := True\<rparr>) s;
         let s = (if state (ptable s ! i) = SLEEPING then upd i (\<lambda>q. q\<lparr>state := RUNNABLE\<rparr>) s else s);
         s \<leftarrow> unlock_ptable me s;
         Some (0, s)
       }
     | None \<Rightarrow> do {
         s \<leftarrow> unlock_ptable me s;
         Some (-1, s)
       }
   }"

text \<open>\<open>procdump\<close>: the bytes printed. The saved program counters of a sleeping process come from a walk
  over its stack and are the argument \<open>pcs\<close>.\<close>

fun state_name :: "procstate \<Rightarrow> string" where
  "state_name UNUSED = ''unused''"
| "state_name EMBRYO = ''embryo''"
| "state_name SLEEPING = ''sleep ''"
| "state_name RUNNABLE = ''runble''"
| "state_name RUNNING = ''run   ''"
| "state_name ZOMBIE = ''zombie''"

fun print_pcs :: "u32 list \<Rightarrow> byte list option" where
  "print_pcs [] = Some []"
| "print_pcs (pc # pcs) =
     (if pc = 0 then Some []
      else do {
        t \<leftarrow> cprintf_loop (bytes '' %p'') [Num pc];
        u \<leftarrow> print_pcs pcs;
        Some (t @ u)
      })"

fun procdump :: "(nat \<Rightarrow> u32 list) \<Rightarrow> nat \<Rightarrow> proc list \<Rightarrow> byte list option" where
  "procdump pcs i [] = Some []"
| "procdump pcs i (p # ps) =
     (if state p = UNUSED then procdump pcs (i + 1) ps
      else do {
        t \<leftarrow> cprintf_loop (bytes ''%d %s %s'')
          [Num (pid p), Str (Some (bytes (state_name (state p)))), Str (Some (name p))];
        u \<leftarrow> (if state p = SLEEPING then print_pcs (take 10 (pcs i)) else Some []);
        rest \<leftarrow> procdump pcs (i + 1) ps;
        Some (t @ u @ [10] @ rest)
      })"

end
