(* ===== verification/ProcLemmas.thy ===== *)
theory ProcLemmas
  imports Proc
begin

text \<open>
  The process table operations computed: on a state whose table lock is free each operation of
  \<open>Proc\<close> returns, and its result is given explicitly.
\<close>

named_theorems kernel_simps \<open>exact results of the operations on a quiet state\<close>

definition quiet :: "'e kstate \<Rightarrow> bool" where
  "quiet s \<longleftrightarrow> lock_free (pt_lock s) \<and> cpu_ok (pcpu s)"

text \<open>The lock as processor \<open>me\<close> holds it, and the state between \<open>acquire\<close> and \<open>release\<close>.\<close>

definition held :: "nat \<Rightarrow> spinlock \<Rightarrow> spinlock" where
  "held me lk = lk\<lparr>locked := 1, lk_cpu := Some me\<rparr>"

definition enter :: "nat \<Rightarrow> 'e kstate \<Rightarrow> 'e kstate" where
  "enter me s = s\<lparr>pt_lock := held me (pt_lock s), pcpu := pushcli (pcpu s)\<rparr>"

definition leave :: "spinlock \<Rightarrow> cpu \<Rightarrow> 'e kstate \<Rightarrow> 'e kstate" where
  "leave lk c s = s\<lparr>pt_lock := lk, pcpu := popped c\<rparr>"

lemma enter_simps [simp]:
  "ptable (enter me s) = ptable s" "initproc (enter me s) = initproc s" "nextpid (enter me s) = nextpid s"
  "first_forkret (enter me s) = first_forkret s" "cur (enter me s) = cur s" "env (enter me s) = env s"
  "pt_lock (enter me s) = held me (pt_lock s)" "pcpu (enter me s) = pushcli (pcpu s)"
  by (simp_all add: enter_def)

lemma leave_simps [simp]:
  "ptable (leave lk c s) = ptable s" "initproc (leave lk c s) = initproc s" "nextpid (leave lk c s) = nextpid s"
  "first_forkret (leave lk c s) = first_forkret s" "cur (leave lk c s) = cur s" "env (leave lk c s) = env s"
  "pt_lock (leave lk c s) = lk" "pcpu (leave lk c s) = popped c"
  by (simp_all add: leave_def)

lemma upd_simps [simp]:
  "ptable (upd i f s) = (ptable s)[i := f (ptable s ! i)]" "initproc (upd i f s) = initproc s"
  "nextpid (upd i f s) = nextpid s" "first_forkret (upd i f s) = first_forkret s" "cur (upd i f s) = cur s"
  "env (upd i f s) = env s" "pt_lock (upd i f s) = pt_lock s" "pcpu (upd i f s) = pcpu s"
  by (simp_all add: upd_def)

lemma wakeup1_simps [simp]:
  "ptable (wakeup1 ch s) = map (wake ch) (ptable s)" "initproc (wakeup1 ch s) = initproc s"
  "nextpid (wakeup1 ch s) = nextpid s" "first_forkret (wakeup1 ch s) = first_forkret s"
  "cur (wakeup1 ch s) = cur s" "env (wakeup1 ch s) = env s" "pt_lock (wakeup1 ch s) = pt_lock s"
  "pcpu (wakeup1 ch s) = pcpu s"
  by (simp_all add: wakeup1_def)

lemma lock_ptable_quiet [kernel_simps]: "quiet s \<Longrightarrow> lock_ptable me s = Some (enter me s)"
  by (simp add: lock_ptable_def quiet_def acquire_free enter_def held_def)

lemma unlock_ptable_held:
  assumes "pt_lock s = held me lk" "pcpu s = pushcli c" "lock_free lk" "cpu_ok c"
  shows "unlock_ptable me s = Some (leave lk c s)"
proof -
  have "held_by me (held me lk)" by (simp add: held_by_def held_def)
  moreover have "(held me lk)\<lparr>locked := 0, lk_cpu := None\<rparr> = lk" using assms(3) by (simp add: held_def lock_free_def)
  moreover have "0 < ncli (pushcli c)" using assms(4) by (simp add: cpu_ok_def)
  ultimately show ?thesis
    using release_held [of me "held me lk" "pushcli c"] assms popcli_pushcli_exact [OF assms(4)] pushcli_ok [OF assms(4)]
    by (simp add: unlock_ptable_def leave_def)
qed

lemma myproc_quiet [kernel_simps]: "cpu_ok (pcpu s) \<Longrightarrow> myproc s = Some (cur s, s\<lparr>pcpu := popped (pcpu s)\<rparr>)"
  by (simp add: myproc_def popcli_pushcli_exact)

lemma popped_nested: "0 < ncli c \<Longrightarrow> popped c = c"
  by (simp add: popped_def)

lemma quiet_popped [simp]: "quiet (s\<lparr>pcpu := popped (pcpu s)\<rparr>) = quiet s"
  by (simp add: quiet_def)

lemma quiet_leave: "lock_free lk \<Longrightarrow> cpu_ok c \<Longrightarrow> quiet (leave lk c s)"
  by (simp add: quiet_def)

text \<open>The checks of \<open>sched\<close> hold when the table lock is the only one held and the process is no
  longer marked running.\<close>

lemma sched_out_held:
  assumes "pt_lock s = held me lk" "pcpu s = pushcli c" "cpu_ok c" "ncli c = 0"
    and "cur s = Some i" "state (ptable s ! i) \<noteq> RUNNING"
  shows "sched_out me s = Some (if_flag c, upd i (\<lambda>p. p\<lparr>ctx := (ctx p)\<lparr>ctx_eip := In_sched\<rparr>\<rparr>) s)"
proof -
  have ok: "cpu_ok (pushcli c)" by (rule pushcli_ok [OF assms(3)])
  moreover have "ncli (pushcli c) = 1" "intena (pushcli c) = if_flag c"
    using assms(4) by (simp_all add: pushcli_def Let_def)
  moreover have "popped (pushcli c) = pushcli c" using ok using assms(4) by (simp add: popped_nested)
  moreover have "s\<lparr>pcpu := pushcli c\<rparr> = s" using assms(2) by (intro kstate.equality) simp_all
  ultimately show ?thesis
    using assms holding_nested [of "pushcli c" me "held me lk"]
    by (simp add: sched_out_def myproc_quiet held_def)
qed

section \<open>The operations on a quiet state\<close>

lemma wakeup_quiet:
  "quiet s \<Longrightarrow> wakeup me ch s = Some (leave (pt_lock s) (pcpu s) (wakeup1 ch (enter me s)))"
  by (simp add: wakeup_def kernel_simps quiet_def unlock_ptable_held)

lemma kill_quiet:
  assumes "quiet s"
  shows "\<exists>s'. kill me p s = Some (if \<exists>q \<in> set (ptable s). pid q = p then 0 else -1, s') \<and> quiet s' \<and>
    ncli (pcpu s') = ncli (pcpu s) \<and> cur s' = cur s \<and> initproc s' = initproc s \<and> nextpid s' = nextpid s \<and> env s' = env s \<and>
    ptable s' = (case find_first (\<lambda>q. pid q = p) (ptable s) of
      None \<Rightarrow> ptable s
    | Some i \<Rightarrow> (ptable s)[i := (ptable s ! i)\<lparr>killed := True,
        state := if state (ptable s ! i) = SLEEPING then RUNNABLE else state (ptable s ! i)\<rparr>])"
proof (cases "find_first (\<lambda>q. pid q = p) (ptable s)")
  case None
  then have "\<not> (\<exists>q \<in> set (ptable s). pid q = p)" by (simp add: find_first_None)
  with None assms show ?thesis
    by (simp add: kill_def kernel_simps quiet_def unlock_ptable_held)
next
  case (Some i)
  then have i: "i < length (ptable s)" "pid (ptable s ! i) = p" by (simp_all add: find_first_Some)
  then have "\<exists>q \<in> set (ptable s). pid q = p" using nth_mem by blast
  with Some i assms show ?thesis
    by (cases "state (ptable s ! i) = SLEEPING")
      (simp_all add: kill_def kernel_simps quiet_def unlock_ptable_held)
qed

lemma setpriority_quiet:
  assumes "quiet s"
  shows "\<exists>s'. setpriority me p v s = Some (if \<exists>q \<in> set (ptable s). pid q = p then 0 else -1, s') \<and> quiet s' \<and>
    ncli (pcpu s') = ncli (pcpu s) \<and> cur s' = cur s \<and> initproc s' = initproc s \<and> nextpid s' = nextpid s \<and> env s' = env s \<and>
    ptable s' = (case find_first (\<lambda>q. pid q = p) (ptable s) of
      None \<Rightarrow> ptable s | Some i \<Rightarrow> (ptable s)[i := (ptable s ! i)\<lparr>priority := v\<rparr>])"
proof (cases "find_first (\<lambda>q. pid q = p) (ptable s)")
  case None
  then have "\<not> (\<exists>q \<in> set (ptable s). pid q = p)" by (simp add: find_first_None)
  with None assms show ?thesis
    by (simp add: setpriority_def kernel_simps quiet_def unlock_ptable_held)
next
  case (Some i)
  then have i: "i < length (ptable s)" "pid (ptable s ! i) = p" by (simp_all add: find_first_Some)
  then have "\<exists>q \<in> set (ptable s). pid q = p" using nth_mem by blast
  with Some i assms show ?thesis
    by (simp add: setpriority_def kernel_simps quiet_def unlock_ptable_held)
qed

lemma yield_out_quiet:
  assumes "quiet s" "ncli (pcpu s) = 0" "cur s = Some i" "i < length (ptable s)"
  shows "\<exists>s'. yield_out me s = Some (if_flag (pcpu s), s') \<and>
    pt_lock s' = held me (pt_lock s) \<and> pcpu s' = pushcli (pcpu s) \<and>
    cur s' = cur s \<and> initproc s' = initproc s \<and> nextpid s' = nextpid s \<and> env s' = env s \<and>
    ptable s' = (ptable s)[i := (ptable s ! i)\<lparr>
      priority := if 0 < priority (ptable s ! i) then priority (ptable s ! i) - 1 else priority (ptable s ! i),
      state := RUNNABLE,
      ctx := (ctx (ptable s ! i))\<lparr>ctx_eip := In_sched\<rparr>\<rparr>]"
proof -
  have n: "popped (pushcli (pcpu s)) = pushcli (pcpu s)" using assms(2) by (simp add: popped_nested)
  have ok: "cpu_ok (pcpu s)" "cpu_ok (pushcli (pcpu s))" using assms(1) pushcli_ok by (auto simp: quiet_def)
  have e: "(enter me s)\<lparr>pcpu := pushcli (pcpu s)\<rparr> = enter me s" by (intro kstate.equality) simp_all
  show ?thesis
    using assms n e ok
    by (cases "0 < priority (ptable s ! i)")
      (simp_all add: yield_out_def kernel_simps sched_out_held [of _ me "pt_lock s" "pcpu s" i])
qed

text \<open>What \<open>yield\<close> and \<open>sleep\<close> do after the process is resumed, with the lock held by the scheduler.\<close>

lemma sched_in_held:
  assumes "pcpu s = pushcli c" "ncli c = 0" "cpu_ok c"
  shows "sched_in (if_flag c) s = s"
  using assms by (intro kstate.equality) (simp_all add: sched_in_def pushcli_def Let_def)

text \<open>A processor outside every lock with its interrupt flag set to \<open>b\<close>.\<close>

definition cpu_at :: "bool \<Rightarrow> cpu \<Rightarrow> cpu" where
  "cpu_at b c = c\<lparr>if_flag := b, intena := b\<rparr>"

lemma sched_in_any:
  assumes "pcpu s = pushcli c" "ncli c = 0" "cpu_ok c"
  shows "sched_in b s = s\<lparr>pcpu := pushcli (cpu_at b c)\<rparr>"
  using assms by (intro kstate.equality) (simp_all add: sched_in_def pushcli_def Let_def cpu_at_def)

lemma cpu_at_simps [simp]: "ncli (cpu_at b c) = ncli c" "if_flag (cpu_at b c) = b" "intena (cpu_at b c) = b"
  by (simp_all add: cpu_at_def)

lemma cpu_at_ok: "ncli c = 0 \<Longrightarrow> cpu_ok (cpu_at b c)"
  by (simp add: cpu_ok_def)

lemma yield_in_held:
  assumes "pt_lock s = held me lk" "pcpu s = pushcli c" "lock_free lk" "cpu_ok c" "ncli c = 0"
  shows "yield_in me b s = Some (leave lk (cpu_at b c) s)"
  using assms
  by (simp add: yield_in_def sched_in_any [of s c] cpu_at_ok
      unlock_ptable_held [of "s\<lparr>pcpu := pushcli (cpu_at b c)\<rparr>" me lk "cpu_at b c"] leave_def)

lemma sleep_out_ptable:
  assumes "pt_lock s = held me lk" "pcpu s = pushcli c" "cpu_ok c" "ncli c = 0"
    and "cur s = Some i" "i < length (ptable s)"
  shows "sleep_out me ch None s = Some (None, if_flag c,
    upd i (\<lambda>p. p\<lparr>chan := ch, state := SLEEPING, ctx := (ctx p)\<lparr>ctx_eip := In_sched\<rparr>\<rparr>) s)"
proof -
  have ok: "cpu_ok (pushcli c)" by (rule pushcli_ok [OF assms(3)])
  have n: "popped (pushcli c) = pushcli c" using assms(4) by (simp add: popped_nested)
  have e: "s\<lparr>pcpu := pushcli c\<rparr> = s" using assms(2) by (intro kstate.equality) simp_all
  have "sched_out me (upd i (\<lambda>p. p\<lparr>chan := ch, state := SLEEPING\<rparr>) s) =
      Some (if_flag c, upd i (\<lambda>p. p\<lparr>chan := ch, state := SLEEPING, ctx := (ctx p)\<lparr>ctx_eip := In_sched\<rparr>\<rparr>) s)"
    using assms by (simp add: sched_out_held [of _ me lk c i] upd_def)
  moreover have "myproc s = Some (Some i, s)"
    using myproc_quiet [of s] ok unfolding assms(2,5) n e by simp
  ultimately show ?thesis by (simp add: sleep_out_def)
qed

lemma sleep_in_ptable:
  assumes "pcpu s = pushcli c" "cpu_ok c" "ncli c = 0"
  shows "sleep_in me i None b s = Some (None, upd i (\<lambda>p. p\<lparr>chan := NoChan\<rparr>) (s\<lparr>pcpu := pushcli (cpu_at b c)\<rparr>))"
  using assms by (simp add: sleep_in_def sched_in_any)

section \<open>Choosing a process\<close>

definition best_below :: "proc list \<Rightarrow> nat \<Rightarrow> nat option \<Rightarrow> bool" where
  "best_below t n b \<longleftrightarrow>
     (case b of
        None \<Rightarrow> \<forall>j < n. state (t ! j) \<noteq> RUNNABLE
      | Some i \<Rightarrow> i < n \<and> state (t ! i) = RUNNABLE \<and>
          (\<forall>j < n. state (t ! j) = RUNNABLE \<longrightarrow> priority (t ! i) \<le> priority (t ! j) \<and>
            (j < i \<longrightarrow> priority (t ! i) < priority (t ! j))))"

lemma best_below_fold: "best_below t n (fold (better t) [0..<n] None)"
proof (induction n)
  case 0
  then show ?case by (simp add: best_below_def)
next
  case (Suc n)
  then show ?case
    by (auto simp: best_below_def better_def less_Suc_eq split: option.splits; fastforce)
qed

lemma pick_spec: "best_below t (length t) (pick t)"
  unfolding pick_def by (rule best_below_fold)

lemma best_below_unique: "best_below t n b \<Longrightarrow> best_below t n b' \<Longrightarrow> b = b'"
  unfolding best_below_def by (cases b; cases b') (auto, metis linorder_less_linear not_less)

lemma pick_eqI:
  assumes "i < length t" "state (t ! i) = RUNNABLE"
    and "\<And>j. j < length t \<Longrightarrow> state (t ! j) = RUNNABLE \<Longrightarrow>
      priority (t ! i) \<le> priority (t ! j) \<and> (j < i \<longrightarrow> priority (t ! i) < priority (t ! j))"
  shows "pick t = Some i"
proof -
  have "best_below t (length t) (Some i)" using assms by (simp add: best_below_def)
  then show ?thesis using best_below_unique pick_spec by blast
qed

text \<open>A round of the scheduler up to the switch, on a processor that holds no lock.\<close>

lemma scheduler_out_quiet:
  assumes "quiet s" "ncli (pcpu s) = 0" and sw: "\<And>p e. sv_switchuvm sv p e \<noteq> None"
  shows "case pick (ptable s) of
      None \<Rightarrow> \<exists>s'. scheduler_out sv me s = Some (None, s') \<and> quiet s' \<and> ncli (pcpu s') = 0 \<and> ptable s' = ptable s \<and>
        cur s' = cur s \<and> initproc s' = initproc s \<and> nextpid s' = nextpid s \<and> env s' = env s
    | Some i \<Rightarrow> \<exists>s' c. scheduler_out sv me s = Some (Some i, s') \<and>
        ptable s' = (ptable s)[i := (ptable s ! i)\<lparr>state := RUNNING\<rparr>] \<and> cur s' = Some i \<and>
        pt_lock s' = held me (pt_lock s) \<and> pcpu s' = pushcli c \<and> cpu_ok c \<and> ncli c = 0 \<and>
        initproc s' = initproc s \<and> nextpid s' = nextpid s"
proof -
  let ?s = "s\<lparr>pcpu := (pcpu s)\<lparr>if_flag := True\<rparr>\<rparr>"
  have q: "quiet ?s" using assms(1,2) by (simp add: quiet_def cpu_ok_def)
  show ?thesis
  proof (cases "pick (ptable s)")
    case None
    then show ?thesis
      using q assms(2) by (simp add: scheduler_out_def kernel_simps unlock_ptable_held quiet_def)
  next
    case (Some i)
    obtain e where "sv_switchuvm sv (ptable s ! i) (env s) = Some e"
      using sw by blast
    with Some q show ?thesis
      using assms(2) by (auto simp: scheduler_out_def kernel_simps quiet_def
          intro!: exI [of _ "(pcpu s)\<lparr>if_flag := True\<rparr>"])
  qed
qed

lemma scheduler_back_held:
  assumes "pt_lock s = held me lk" "pcpu s = pushcli c" "lock_free lk" "cpu_ok c" "ncli c = 0"
  shows "\<exists>s'. scheduler_back sv me s = Some s' \<and> quiet s' \<and> ncli (pcpu s') = 0 \<and> ptable s' = ptable s \<and>
    cur s' = None \<and> initproc s' = initproc s \<and> nextpid s' = nextpid s"
  using assms by (simp add: scheduler_back_def unlock_ptable_held quiet_def)

section \<open>Creating and ending\<close>

lemma allocproc_quiet:
  assumes "quiet s"
  shows "case find_first (\<lambda>p. state p = UNUSED) (ptable s) of
      None \<Rightarrow> \<exists>s'. allocproc sv me s = Some (None, s') \<and> quiet s' \<and> pcpu s' = popped (pcpu s) \<and> ptable s' = ptable s \<and>
        cur s' = cur s \<and> initproc s' = initproc s \<and> nextpid s' = nextpid s \<and> env s' = env s
    | Some i \<Rightarrow> \<exists>s'. allocproc sv me s = Some (if fst (sv_kalloc sv (env s)) = 0 then None else Some i, s') \<and>
        quiet s' \<and> pcpu s' = popped (pcpu s) \<and> cur s' = cur s \<and> initproc s' = initproc s \<and> nextpid s' = nextpid s + 1 \<and>
        env s' = snd (sv_kalloc sv (env s)) \<and>
        ptable s' = (ptable s)[i :=
          (if fst (sv_kalloc sv (env s)) = 0
           then (ptable s ! i)\<lparr>pid := nextpid s, priority := 10, kstack := 0, state := UNUSED\<rparr>
           else (ptable s ! i)\<lparr>state := EMBRYO, pid := nextpid s, priority := 10, kstack := fst (sv_kalloc sv (env s)),
             ret_address := Trapret, ctx := zero_context Forkret\<rparr>)]"
proof (cases "find_first (\<lambda>p. state p = UNUSED) (ptable s)")
  case None
  then show ?thesis
    using assms by (simp add: allocproc_def kernel_simps unlock_ptable_held quiet_def)
next
  case (Some i)
  then have i: "i < length (ptable s)" by (simp add: find_first_Some)
  obtain k e where "sv_kalloc sv (env s) = (k, e)" by force
  with Some i assms show ?thesis
    by (cases "k = 0") (simp_all add: allocproc_def kernel_simps unlock_ptable_held quiet_def)
qed

text \<open>The services return: what the other components promise on the arguments \<open>proc.c\<close> gives them.\<close>

definition services_ok :: "'e services \<Rightarrow> bool" where
  "services_ok sv \<longleftrightarrow>
     (\<forall>a e. sv_kfree sv a e \<noteq> None) \<and> (\<forall>p n e. sv_copyuvm sv p n e \<noteq> None) \<and> (\<forall>p e. sv_freevm sv p e \<noteq> None) \<and>
     (\<forall>p e. sv_switchuvm sv p e \<noteq> None) \<and> (\<forall>f e. sv_filedup sv f e \<noteq> None) \<and> (\<forall>f e. sv_fileclose sv f e \<noteq> None) \<and>
     (\<forall>i e. sv_idup sv i e \<noteq> None) \<and> (\<forall>i e. sv_iput sv i e \<noteq> None)"

lemma services_okD:
  assumes "services_ok sv"
  shows "\<exists>e'. sv_kfree sv a e = Some e'" "\<exists>r. sv_copyuvm sv pd n e = Some r" "\<exists>e'. sv_freevm sv pd e = Some e'"
    "\<exists>e'. sv_switchuvm sv p e = Some e'" "\<exists>e'. sv_filedup sv f e = Some e'" "\<exists>e'. sv_fileclose sv f e = Some e'"
    "\<exists>e'. sv_idup sv i e = Some e'" "\<exists>e'. sv_iput sv i e = Some e'"
  using assms unfolding services_ok_def by blast+

lemma dup_files_spec:
  assumes "services_ok sv" "length fs = length gs"
  shows "\<exists>e'. dup_files sv fs gs e = Some (map2 (\<lambda>f g. case f of None \<Rightarrow> g | Some x \<Rightarrow> Some x) fs gs, e')"
  using assms(2)
proof (induction fs gs arbitrary: e rule: list_induct2)
  case (Cons f fs g gs)
  show ?case
  proof (cases f)
    case None
    then show ?thesis using Cons.IH [of e] by auto
  next
    case (Some x)
    obtain e1 where e1: "sv_filedup sv x e = Some e1" using services_okD(5) [OF assms(1)] by blast
    with Cons.IH [of e1] Some show ?thesis by auto
  qed
qed simp

lemma dup_files_fresh:
  assumes "services_ok sv" "length fs = n"
  shows "\<exists>e'. dup_files sv fs (replicate n None) e = Some (fs, e')"
proof -
  have "map2 (\<lambda>f g. case f of None \<Rightarrow> g | Some x \<Rightarrow> Some x) fs (replicate (length fs) None) = fs"
    by (rule nth_equalityI) (auto split: option.split)
  with dup_files_spec [OF assms(1), of fs "replicate n None" e] assms(2) show ?thesis by simp
qed

text \<open>One reference more for every open descriptor, in the order of the descriptors.\<close>

fun dup_each :: "'e services \<Rightarrow> nat option list \<Rightarrow> 'e \<Rightarrow> 'e option" where
  "dup_each sv [] e = Some e"
| "dup_each sv (None # fs) e = dup_each sv fs e"
| "dup_each sv (Some f # fs) e = do { e \<leftarrow> sv_filedup sv f e; dup_each sv fs e }"

lemma dup_files_each: "dup_files sv fs gs e = Some (hs, e') \<Longrightarrow> length gs = length fs \<Longrightarrow> dup_each sv fs e = Some e'"
proof (induction sv fs gs e arbitrary: hs rule: dup_files.induct)
  case (1 sv f fs g gs e)
  from 1(2) obtain e1 hs' where e1: "sv_filedup sv f e = Some e1" "dup_files sv fs gs e1 = Some (hs', e')"
    by (auto simp: bind_eq_Some_conv)
  then show ?case using 1(1) [OF e1] 1(3) by simp
qed (auto simp: bind_eq_Some_conv)

lemma close_files_spec:
  assumes "services_ok sv"
  shows "\<exists>e'. close_files sv fs e = Some (replicate (length fs) None, e')"
proof (induction fs arbitrary: e)
  case (Cons f fs)
  obtain e1 where "(case f of None \<Rightarrow> Some e | Some f \<Rightarrow> sv_fileclose sv f e) = Some e1"
    using services_okD(6) [OF assms] by (cases f) auto
  with Cons.IH [of e1] show ?case by auto
qed simp

text \<open>The outcomes of \<open>fork\<close>: no free slot, no page for the stack, no copy of the memory, and a child.\<close>

definition forked_child :: "proc \<Rightarrow> nat \<Rightarrow> u32 \<Rightarrow> u32 \<Rightarrow> u32 \<Rightarrow> proc \<Rightarrow> proc" where
  "forked_child c i np k pd p = p\<lparr>pid := np, priority := 10, kstack := k, ret_address := Trapret,
     ctx := zero_context Forkret, pgdir := pd, sz := sz c, parent := Some i, tf := (tf c)\<lparr>tf_eax := 0\<rparr>,
     ofile := ofile c, cwd := cwd c, name := proc_name (name c), state := RUNNABLE\<rparr>"

definition no_stack :: "u32 \<Rightarrow> proc \<Rightarrow> proc" where
  "no_stack np p = p\<lparr>pid := np, priority := 10, kstack := 0\<rparr>"

definition no_copy :: "u32 \<Rightarrow> proc \<Rightarrow> proc" where
  "no_copy np p = p\<lparr>pid := np, priority := 10, kstack := 0, ret_address := Trapret, ctx := zero_context Forkret, pgdir := 0\<rparr>"

lemma still_unused:
  assumes "state p = UNUSED"
  shows "p\<lparr>pid := np, priority := 10, kstack := 0, state := UNUSED\<rparr> = no_stack np p"
    "p\<lparr>pid := np, priority := 10, ret_address := Trapret, ctx := zero_context Forkret, pgdir := 0, kstack := 0,
       state := UNUSED\<rparr> = no_copy np p"
  using assms by (auto intro!: proc.equality simp: no_stack_def no_copy_def)

definition fork_outcome :: "'e services \<Rightarrow> 'e kstate \<Rightarrow> nat \<Rightarrow> u32 \<Rightarrow> 'e kstate \<Rightarrow> bool" where
  "fork_outcome sv s i r s' \<longleftrightarrow>
     (let p = ptable s ! i in
      case find_first (\<lambda>p. state p = UNUSED) (ptable s) of
        None \<Rightarrow> r = -1 \<and> ptable s' = ptable s \<and> nextpid s' = nextpid s \<and> env s' = env s
      | Some n \<Rightarrow> nextpid s' = nextpid s + 1 \<and>
          (let (k, e1) = sv_kalloc sv (env s) in
           if k = 0 then r = -1 \<and> ptable s' = (ptable s)[n := no_stack (nextpid s) (ptable s ! n)] \<and> env s' = e1
           else \<exists>pd e2. sv_copyuvm sv (pgdir p) (sz p) e1 = Some (pd, e2) \<and>
             (if pd = 0 then r = -1 \<and> ptable s' = (ptable s)[n := no_copy (nextpid s) (ptable s ! n)] \<and>
                sv_kfree sv k e2 = Some (env s')
              else r = nextpid s \<and> ptable s' = (ptable s)[n := forked_child p i (nextpid s) k pd (ptable s ! n)] \<and>
                (\<exists>e3. dup_each sv (ofile p) e2 = Some e3 \<and> sv_idup sv (cwd p) e3 = Some (env s')))))"

text \<open>What the rest of the table sees of it.\<close>

lemma fork_outcome_cases:
  assumes "fork_outcome sv s i r s'"
  obtains (unchanged) "ptable s' = ptable s" "nextpid s' = nextpid s"
  | (failed) n p' where "find_first (\<lambda>p. state p = UNUSED) (ptable s) = Some n" "nextpid s' = nextpid s + 1"
      "ptable s' = (ptable s)[n := p']" "state p' = state (ptable s ! n)" "parent p' = parent (ptable s ! n)"
      "ofile p' = ofile (ptable s ! n)"
  | (child) n k pd where "find_first (\<lambda>p. state p = UNUSED) (ptable s) = Some n" "nextpid s' = nextpid s + 1"
      "ptable s' = (ptable s)[n := forked_child (ptable s ! i) i (nextpid s) k pd (ptable s ! n)]"
proof (cases "find_first (\<lambda>p. state p = UNUSED) (ptable s)")
  case None
  then show ?thesis using assms unchanged by (simp add: fork_outcome_def)
next
  case (Some n)
  obtain k e1 where k: "sv_kalloc sv (env s) = (k, e1)" by force
  show ?thesis
  proof (cases "k = 0")
    case True
    then show ?thesis
      using assms Some k failed [OF Some, of "no_stack (nextpid s) (ptable s ! n)"] by (simp add: fork_outcome_def no_stack_def)
  next
    case False
    then obtain pd e2 where "sv_copyuvm sv (pgdir (ptable s ! i)) (sz (ptable s ! i)) e1 = Some (pd, e2)"
      using assms Some k by (auto simp: fork_outcome_def Let_def)
    then show ?thesis
      using assms Some k False failed [OF Some, of "no_copy (nextpid s) (ptable s ! n)"] child [OF Some, of k pd]
      by (cases "pd = 0") (auto simp: fork_outcome_def no_copy_def Let_def)
  qed
qed

lemma fork_quiet:
  assumes sv: "services_ok sv" and q: "quiet s" and i: "cur s = Some i" "i < length (ptable s)"
    and run: "state (ptable s ! i) \<noteq> UNUSED" and len: "length (ofile (ptable s ! i)) = NOFILE"
    and fresh: "\<And>p. p \<in> set (ptable s) \<Longrightarrow> state p = UNUSED \<Longrightarrow> ofile p = replicate NOFILE None"
  shows "\<exists>r s'. fork sv me s = Some (r, s') \<and> quiet s' \<and> ncli (pcpu s') = ncli (pcpu s) \<and> cur s' = cur s \<and>
    initproc s' = initproc s \<and> fork_outcome sv s i r s'"
proof -
  let ?s = "s\<lparr>pcpu := popped (pcpu s)\<rparr>"
  have q': "quiet ?s" using q by simp
  have my: "myproc s = Some (Some i, ?s)" using myproc_quiet [of s] q i(1) by (simp add: quiet_def)
  show ?thesis
  proof (cases "find_first (\<lambda>p. state p = UNUSED) (ptable s)")
    case None
    then show ?thesis using allocproc_quiet [OF q', of sv me] my by (auto simp: fork_def fork_outcome_def)
  next
    case (Some n)
    then have n: "n < length (ptable s)" "state (ptable s ! n) = UNUSED" by (simp_all add: find_first_Some)
    then have ne: "n \<noteq> i" using run by auto
    have fresh_n: "ofile (ptable s ! n) = replicate NOFILE None" using fresh n by simp
    obtain k e where k: "sv_kalloc sv (env s) = (k, e)" by force
    show ?thesis
    proof (cases "k = 0")
      case True
      with allocproc_quiet [OF q', of sv me] Some k obtain s1 where
        "allocproc sv me ?s = Some (None, s1)" "quiet s1" "pcpu s1 = popped (pcpu s)" "cur s1 = cur s"
        "initproc s1 = initproc s" and s1: "nextpid s1 = nextpid s + 1" "env s1 = e"
        "ptable s1 = (ptable s)[n := (ptable s ! n)\<lparr>pid := nextpid s, priority := 10, kstack := 0, state := UNUSED\<rparr>]"
        by auto
      moreover have "fork_outcome sv s i (-1) s1"
        using Some k True s1 still_unused(1) [OF n(2)] by (simp add: fork_outcome_def)
      ultimately show ?thesis using my by (simp add: fork_def)
    next
      case False
      from allocproc_quiet [OF q', of sv me] Some k False obtain s1 where
        a: "allocproc sv me ?s = Some (Some n, s1)" and s1: "quiet s1" "pcpu s1 = popped (pcpu s)" "cur s1 = cur s"
          "initproc s1 = initproc s" "nextpid s1 = nextpid s + 1" "env s1 = e"
          "ptable s1 = (ptable s)[n := (ptable s ! n)\<lparr>state := EMBRYO, pid := nextpid s, priority := 10, kstack := k,
             ret_address := Trapret, ctx := zero_context Forkret\<rparr>]" by auto
      let ?c = "ptable s ! i"
      obtain pd e2 where pd: "sv_copyuvm sv (pgdir ?c) (sz ?c) e = Some (pd, e2)"
        using services_okD(2) [OF sv] by fastforce
      let ?s2 = "upd n (\<lambda>q. q\<lparr>pgdir := pd\<rparr>) (s1\<lparr>env := e2\<rparr>)"
      show ?thesis
      proof (cases "pd = 0")
        case True
        obtain e3 where "sv_kfree sv k e2 = Some e3" using services_okD(1) [OF sv] by blast
        with True my a s1 pd n ne have
          "fork sv me s = Some (-1, upd n (\<lambda>q. q\<lparr>kstack := 0, state := UNUSED\<rparr>) (?s2\<lparr>env := e3\<rparr>))"
          (is "_ = Some (_, ?s3)") by (simp add: fork_def)
        moreover have "fork_outcome sv s i (-1) ?s3"
          using Some k True \<open>k \<noteq> 0\<close> s1 n pd \<open>sv_kfree sv k e2 = Some e3\<close>
          by (simp add: fork_outcome_def still_unused(2) [OF n(2)])
        ultimately show ?thesis using s1 q by (simp add: quiet_def)
      next
        case False
        obtain e3 where e3: "dup_files sv (ofile ?c) (replicate NOFILE None) e2 = Some (ofile ?c, e3)"
          using dup_files_fresh [OF sv len] by blast
        obtain e4 where e4: "sv_idup sv (cwd ?c) e3 = Some e4" using services_okD(7) [OF sv] by blast
        have "\<exists>s'. fork sv me s = Some (nextpid s, s') \<and> quiet s' \<and> pcpu s' = popped (pcpu s) \<and> cur s' = cur s \<and>
            initproc s' = initproc s \<and> nextpid s' = nextpid s + 1 \<and> env s' = e4 \<and>
            ptable s' = (ptable s)[n := forked_child ?c i (nextpid s) k pd (ptable s ! n)]"
          using False my a s1 pd e3 e4 n ne fresh_n
          by (simp add: fork_def kernel_simps quiet_def unlock_ptable_held forked_child_def Let_def)
        moreover have "dup_each sv (ofile ?c) e2 = Some e3" using dup_files_each [OF e3] len by simp
        ultimately show ?thesis
          using Some k False \<open>k \<noteq> 0\<close> pd e4 by (auto simp: fork_outcome_def)
      qed
    qed
  qed
qed

text \<open>\<open>exit\<close>: the wake-up of the parent, and the loop that gives the children to init.\<close>

definition adopted :: "nat \<Rightarrow> nat option \<Rightarrow> proc \<Rightarrow> proc" where
  "adopted i ip p = (if parent p = Some i then p\<lparr>parent := ip\<rparr> else p)"

lemma wake_simps [simp]:
  "parent (wake ch p) = parent p" "pid (wake ch p) = pid p" "ofile (wake ch p) = ofile p" "chan (wake ch p) = chan p"
  "priority (wake ch p) = priority p" "killed (wake ch p) = killed p" "ctx (wake ch p) = ctx p" "name (wake ch p) = name p"
  "cwd (wake ch p) = cwd p" "kstack (wake ch p) = kstack p"
  "state (wake ch p) = (if state p = SLEEPING \<and> chan p = ch then RUNNABLE else state p)"
  by (simp_all add: wake_def)

lemma adopted_simps [simp]:
  "state (adopted i ip p) = state p" "pid (adopted i ip p) = pid p" "ofile (adopted i ip p) = ofile p"
  "chan (adopted i ip p) = chan p" "parent (adopted i ip p) = (if parent p = Some i then ip else parent p)"
  "priority (adopted i ip p) = priority p" "killed (adopted i ip p) = killed p" "ctx (adopted i ip p) = ctx p"
  "cwd (adopted i ip p) = cwd p" "name (adopted i ip p) = name p" "kstack (adopted i ip p) = kstack p"
  by (simp_all add: adopted_def)

lemma adopted_wake: "adopted i ip (wake ch p) = wake ch (adopted i ip p)"
  by (simp add: adopted_def wake_def)

lemma wake_idem: "wake ch (wake ch p) = wake ch p"
  by (simp add: wake_def)

definition zombie_child :: "nat \<Rightarrow> proc \<Rightarrow> bool" where
  "zombie_child i p \<longleftrightarrow> parent p = Some i \<and> state p = ZOMBIE"

text \<open>The table after the first \<open>m\<close> iterations.\<close>

definition reparented :: "nat \<Rightarrow> nat option \<Rightarrow> nat \<Rightarrow> proc list \<Rightarrow> proc list" where
  "reparented i ip m t =
     map (\<lambda>j. let p = (if j < m then adopted i ip (t ! j) else t ! j) in
       if \<exists>k < m. zombie_child i (t ! k) then wake (chan_of ip) p else p) [0..<length t]"

lemma reparented_step:
  assumes "m < length t" and "ptable s = reparented i (initproc s) m t"
  shows "ptable (reparent_one i m s) = reparented i (initproc s) (Suc m) t"
proof (rule nth_equalityI)
  have len: "length (ptable s) = length t" using assms(2) by (simp add: reparented_def)
  then show "length (ptable (reparent_one i m s)) = length (reparented i (initproc s) (Suc m) t)"
    by (simp add: reparent_one_def reparented_def Let_def)
  fix j assume "j < length (ptable (reparent_one i m s))"
  then have j: "j < length t" using len by (simp add: reparent_one_def Let_def split: if_splits)
  let ?w = "\<exists>k < m. zombie_child i (t ! k)"
  have at: "ptable s ! k = (let p = (if k < m then adopted i (initproc s) (t ! k) else t ! k) in
      if ?w then wake (chan_of (initproc s)) p else p)" if "k < length t" for k
    using that assms(2) by (simp add: reparented_def)
  have m: "parent (ptable s ! m) = parent (t ! m)" "state (ptable s ! m) = ZOMBIE \<longleftrightarrow> state (t ! m) = ZOMBIE"
    using at [OF assms(1)] by (auto simp: Let_def)
  have suc: "(\<exists>k < Suc m. zombie_child i (t ! k)) \<longleftrightarrow> ?w \<or> zombie_child i (t ! m)"
    by (auto simp: less_Suc_eq)
  show "ptable (reparent_one i m s) ! j = reparented i (initproc s) (Suc m) t ! j"
  proof (cases "parent (t ! m) = Some i")
    case False
    then have "reparent_one i m s = s" using m by (simp add: reparent_one_def)
    moreover have "\<not> zombie_child i (t ! m)" using False by (simp add: zombie_child_def)
    ultimately show ?thesis
      using at [OF j] suc False j by (auto simp: reparented_def less_Suc_eq adopted_def Let_def)
  next
    case True
    have z: "zombie_child i (t ! m) \<longleftrightarrow> state (t ! m) = ZOMBIE" using True by (simp add: zombie_child_def)
    have "(ptable s ! m)\<lparr>parent := initproc s\<rparr> = adopted i (initproc s) (ptable s ! m)"
      using True m(1) by (simp add: adopted_def)
    then have "ptable (reparent_one i m s) ! j =
        (let p = (if j = m then adopted i (initproc s) (ptable s ! j) else ptable s ! j) in
         if state (t ! m) = ZOMBIE then wake (chan_of (initproc s)) p else p)"
      using True m assms(1) j len by (simp add: reparent_one_def Let_def nth_list_update)
    also have "\<dots> = (let p = (if j < Suc m then adopted i (initproc s) (t ! j) else t ! j) in
        if ?w \<or> zombie_child i (t ! m) then wake (chan_of (initproc s)) p else p)"
      unfolding at [OF j] z
      by (cases "j = m"; cases "j < m") (auto simp: Let_def adopted_wake wake_idem less_Suc_eq)
    also have "\<dots> = reparented i (initproc s) (Suc m) t ! j"
      unfolding suc [symmetric] using j by (simp add: reparented_def)
    finally show ?thesis .
  qed
qed

lemma reparent_one_frame:
  "initproc (reparent_one i m s) = initproc s" "nextpid (reparent_one i m s) = nextpid s"
  "cur (reparent_one i m s) = cur s" "env (reparent_one i m s) = env s" "pt_lock (reparent_one i m s) = pt_lock s"
  "pcpu (reparent_one i m s) = pcpu s"
  by (simp_all add: reparent_one_def Let_def)

lemma reparent_loop:
  assumes "m \<le> length (ptable s)"
  shows "let s' = fold (reparent_one i) [0..<m] s in
    ptable s' = reparented i (initproc s) m (ptable s) \<and> initproc s' = initproc s \<and> nextpid s' = nextpid s \<and>
    cur s' = cur s \<and> env s' = env s \<and> pt_lock s' = pt_lock s \<and> pcpu s' = pcpu s"
  using assms
proof (induction m)
  case 0
  have "reparented i (initproc s) 0 (ptable s) = ptable s"
    by (rule nth_equalityI) (simp_all add: reparented_def)
  then show ?case by simp
next
  case (Suc m)
  let ?s = "fold (reparent_one i) [0..<m] s"
  have IH: "ptable ?s = reparented i (initproc s) m (ptable s)" "initproc ?s = initproc s" "nextpid ?s = nextpid s"
    "cur ?s = cur s" "env ?s = env s" "pt_lock ?s = pt_lock s" "pcpu ?s = pcpu s"
    using Suc by (simp_all add: Let_def)
  have "ptable (reparent_one i m ?s) = reparented i (initproc s) (Suc m) (ptable s)"
    using reparented_step [of m "ptable s" ?s i] IH Suc.prems by simp
  then show ?case using IH by (simp add: reparent_one_frame)
qed

text \<open>What \<open>exit\<close> of process \<open>i\<close> does to the table entry \<open>j\<close>.\<close>

definition exit_entry :: "nat \<Rightarrow> nat option \<Rightarrow> proc list \<Rightarrow> nat \<Rightarrow> proc" where
  "exit_entry i ip t j =
     (let p = adopted i ip (wake (chan_of (parent (t ! i))) (t ! j)) in
      if \<exists>k < length t. zombie_child i (t ! k) then wake (chan_of ip) p else p)"

lemma exit_quiet:
  assumes sv: "services_ok sv" and q: "quiet s" and n: "ncli (pcpu s) = 0"
    and i: "cur s = Some i" "i < length (ptable s)" and run: "state (ptable s ! i) = RUNNING"
    and noinit: "initproc s \<noteq> Some i" and self: "parent (ptable s ! i) \<noteq> Some i"
  shows "\<exists>s'. exit sv me s = Some (if_flag (pcpu s), s') \<and> pt_lock s' = held me (pt_lock s) \<and> pcpu s' = pushcli (pcpu s) \<and>
    cur s' = cur s \<and> initproc s' = initproc s \<and> nextpid s' = nextpid s \<and> length (ptable s') = length (ptable s) \<and>
    (\<forall>j < length (ptable s). j \<noteq> i \<longrightarrow> ptable s' ! j = exit_entry i (initproc s) (ptable s) j) \<and>
    state (ptable s' ! i) = ZOMBIE \<and> ofile (ptable s' ! i) = replicate (length (ofile (ptable s ! i))) None \<and>
    cwd (ptable s' ! i) = None \<and> pid (ptable s' ! i) = pid (ptable s ! i) \<and>
    parent (ptable s' ! i) = parent (ptable s ! i)"
proof -
  let ?s = "s\<lparr>pcpu := popped (pcpu s)\<rparr>"
  let ?p = "ptable s ! i"
  have my: "myproc s = Some (Some i, ?s)" using myproc_quiet [of s] q i(1) by (simp add: quiet_def)
  obtain e1 where e1: "close_files sv (ofile ?p) (env s) = Some (replicate (length (ofile ?p)) None, e1)"
    using close_files_spec [OF sv] by blast
  obtain e2 where e2: "sv_iput sv (cwd ?p) (sv_begin_op sv e1) = Some e2" using services_okD(8) [OF sv] by blast
  let ?s1 = "upd i (\<lambda>p. p\<lparr>cwd := None\<rparr>) ((upd i (\<lambda>p. p\<lparr>ofile := replicate (length (ofile ?p)) None\<rparr>)
    (?s\<lparr>env := e1\<rparr>))\<lparr>env := sv_end_op sv e2\<rparr>)"
  have q1: "quiet ?s1" using q by (simp add: quiet_def)
  define s2 where "s2 = wakeup1 (chan_of (parent (ptable (enter me ?s1) ! i))) (enter me ?s1)"
  let ?s3 = "fold (reparent_one i) [0..<length (ptable s2)] s2"
  have s2: "initproc s2 = initproc s" "nextpid s2 = nextpid s" "cur s2 = cur s" "pt_lock s2 = held me (pt_lock s)"
    "pcpu s2 = pushcli (pcpu s)" "length (ptable s2) = length (ptable s)" by (simp_all add: s2_def)
  have par: "parent (ptable (enter me ?s1) ! i) = parent ?p" using i(2) by simp
  have t2: "ptable s2 ! j = (if j = i then wake (chan_of (parent ?p))
      (?p\<lparr>ofile := replicate (length (ofile ?p)) None, cwd := None\<rparr>) else wake (chan_of (parent ?p)) (ptable s ! j))"
    if "j < length (ptable s)" for j
    using that i(2) unfolding s2_def par by simp
  have loop: "ptable ?s3 = reparented i (initproc s) (length (ptable s)) (ptable s2)" "initproc ?s3 = initproc s"
    "nextpid ?s3 = nextpid s" "cur ?s3 = cur s" "pt_lock ?s3 = held me (pt_lock s)" "pcpu ?s3 = pushcli (pcpu s)"
    using reparent_loop [of "length (ptable s2)" s2 i] s2 by (simp_all add: Let_def)
  have z: "(\<exists>k < length (ptable s). zombie_child i (ptable s2 ! k)) \<longleftrightarrow>
      (\<exists>k < length (ptable s). zombie_child i (ptable s ! k))"
  proof -
    have "zombie_child i (ptable s2 ! k) \<longleftrightarrow> zombie_child i (ptable s ! k)" if "k < length (ptable s)" for k
      using t2 [OF that] self by (auto simp: zombie_child_def split: if_splits)
    then show ?thesis by auto
  qed
  have len: "length (ptable ?s3) = length (ptable s)" using loop(1) s2(6) by (simp add: reparented_def)
  have t3: "ptable ?s3 ! j = exit_entry i (initproc s) (ptable s) j" if "j < length (ptable s)" "j \<noteq> i" for j
    using that t2 z loop(1) s2(6) by (auto simp: reparented_def exit_entry_def Let_def)
  have ti: "state (ptable ?s3 ! i) = RUNNING" "ofile (ptable ?s3 ! i) = replicate (length (ofile ?p)) None"
    "cwd (ptable ?s3 ! i) = None" "pid (ptable ?s3 ! i) = pid ?p" "parent (ptable ?s3 ! i) = parent ?p"
    using t2 [OF i(2)] i(2) loop(1) run self s2(6) by (simp_all add: reparented_def Let_def)
  have "exit sv me s = sched_out me (upd i (\<lambda>p. p\<lparr>state := ZOMBIE\<rparr>) ?s3)"
    using my e1 e2 i(2) noinit lock_ptable_quiet [OF q1, of me] by (simp add: exit_def Let_def s2_def)
  also have "\<dots> = Some (if_flag (pcpu s), upd i (\<lambda>p. p\<lparr>ctx := (ctx p)\<lparr>ctx_eip := In_sched\<rparr>\<rparr>)
      (upd i (\<lambda>p. p\<lparr>state := ZOMBIE\<rparr>) ?s3))"
    by (rule sched_out_held [where lk = "pt_lock s"]) (use loop q n i len in \<open>simp_all add: quiet_def\<close>)
  finally have ex: "exit sv me s = Some (if_flag (pcpu s), upd i (\<lambda>p. p\<lparr>ctx := (ctx p)\<lparr>ctx_eip := In_sched\<rparr>\<rparr>)
      (upd i (\<lambda>p. p\<lparr>state := ZOMBIE\<rparr>) ?s3))" .
  show ?thesis unfolding ex using loop len t3 ti i(2) by simp
qed

text \<open>One pass of \<open>wait\<close> with the lock held.\<close>

definition wait_outcome :: "'e services \<Rightarrow> nat \<Rightarrow> 'e kstate \<Rightarrow> bool \<Rightarrow> wait_result \<Rightarrow> 'e kstate \<Rightarrow> bool" where
  "wait_outcome sv i s b r s' \<longleftrightarrow>
     (case find_first (\<lambda>p. is_child i p \<and> state p = ZOMBIE) (ptable s) of
        Some j \<Rightarrow> r = Reaped (pid (ptable s ! j)) \<and> ptable s' = (ptable s)[j := (ptable s ! j)\<lparr>kstack := 0, pid := 0,
          parent := None, name := [], killed := False, state := UNUSED\<rparr>] \<and>
          (\<exists>e. sv_kfree sv (kstack (ptable s ! j)) (env s) = Some e \<and> sv_freevm sv (pgdir (ptable s ! j)) e = Some (env s'))
      | None \<Rightarrow> env s' = env s \<and>
          (if \<not> list_ex (is_child i) (ptable s) \<or> killed (ptable s ! i)
          then r = No_children \<and> ptable s' = ptable s
          else r = Asleep b \<and> ptable s' = (ptable s)[i := (ptable s ! i)\<lparr>chan := ProcAt i, state := SLEEPING,
            ctx := (ctx (ptable s ! i))\<lparr>ctx_eip := In_sched\<rparr>\<rparr>]))"

lemma wait_outcome_cong:
  "ptable s1 = ptable s2 \<Longrightarrow> env s1 = env s2 \<Longrightarrow> wait_outcome sv i s1 b r s' \<longleftrightarrow> wait_outcome sv i s2 b r s'"
  unfolding wait_outcome_def by (simp only:)

lemma wait_pass_held:
  assumes sv: "services_ok sv" and h: "pt_lock s = held me lk" "pcpu s = pushcli c" "lock_free lk" "cpu_ok c" "ncli c = 0"
    and i: "cur s = Some i" "i < length (ptable s)"
  shows "\<exists>r s'. wait_pass sv me i s = Some (r, s') \<and> wait_outcome sv i s (if_flag c) r s' \<and> cur s' = cur s \<and>
    initproc s' = initproc s \<and> nextpid s' = nextpid s \<and>
    (if \<exists>b. r = Asleep b then pt_lock s' = held me lk \<and> pcpu s' = pushcli c
     else pt_lock s' = lk \<and> pcpu s' = popped c)"
proof (cases "find_first (\<lambda>p. is_child i p \<and> state p = ZOMBIE) (ptable s)")
  case (Some j)
  obtain e1 where e1: "sv_kfree sv (kstack (ptable s ! j)) (env s) = Some e1" using services_okD(1) [OF sv] by blast
  obtain e2 where e2: "sv_freevm sv (pgdir (ptable s ! j)) e1 = Some e2" using services_okD(3) [OF sv] by blast
  show ?thesis
    using Some e1 e2 h by (simp add: wait_pass_def wait_outcome_def unlock_ptable_held Let_def)
next
  case None
  show ?thesis
  proof (cases "\<not> list_ex (is_child i) (ptable s) \<or> killed (ptable s ! i)")
    case True
    then show ?thesis using None h by (auto simp: wait_pass_def wait_outcome_def unlock_ptable_held)
  next
    case False
    have "sleep_out me (ProcAt i) None s = Some (None, if_flag c,
        upd i (\<lambda>p. p\<lparr>chan := ProcAt i, state := SLEEPING, ctx := (ctx p)\<lparr>ctx_eip := In_sched\<rparr>\<rparr>) s)"
      by (rule sleep_out_ptable [OF h(1,2,4,5) i])
    with None False h show ?thesis by (simp add: wait_pass_def wait_outcome_def)
  qed
qed

lemma wait_start_quiet:
  assumes sv: "services_ok sv" and q: "quiet s" "ncli (pcpu s) = 0" and i: "cur s = Some i" "i < length (ptable s)"
  shows "\<exists>r s'. wait_start sv me s = Some (r, s') \<and> wait_outcome sv i s (if_flag (pcpu s)) r s' \<and> cur s' = cur s \<and>
    initproc s' = initproc s \<and> nextpid s' = nextpid s \<and>
    (if \<exists>b. r = Asleep b then pt_lock s' = held me (pt_lock s) \<and> pcpu s' = pushcli (pcpu s) else quiet s' \<and> ncli (pcpu s') = 0)"
proof -
  let ?s = "s\<lparr>pcpu := popped (pcpu s)\<rparr>"
  have my: "myproc s = Some (Some i, ?s)" using myproc_quiet [of s] q(1) i(1) by (simp add: quiet_def)
  have lock: "lock_ptable me ?s = Some (enter me ?s)" by (rule lock_ptable_quiet) (use q in simp)
  obtain r s' where w: "wait_pass sv me i (enter me ?s) = Some (r, s')" "wait_outcome sv i (enter me ?s) (if_flag (pcpu s)) r s'"
    "cur s' = cur s" "initproc s' = initproc s" "nextpid s' = nextpid s"
    "if \<exists>b. r = Asleep b then pt_lock s' = held me (pt_lock s) \<and> pcpu s' = pushcli (pcpu s)
     else pt_lock s' = pt_lock s \<and> pcpu s' = popped (pcpu s)"
    using wait_pass_held [OF sv, of "enter me ?s" me "pt_lock s" "pcpu s" i] q i by (auto simp: quiet_def)
  have "wait_outcome sv i s (if_flag (pcpu s)) r s'"
    using w(2) by (subst wait_outcome_cong [of _ "enter me ?s"]) simp_all
  moreover have "wait_start sv me s = Some (r, s')" using my lock w(1) by (simp add: wait_start_def)
  ultimately show ?thesis using w q by (auto simp: quiet_def)
qed

lemma wait_resumed_held:
  assumes sv: "services_ok sv" and h: "pt_lock s = held me lk" "pcpu s = pushcli c" "lock_free lk" "cpu_ok c" "ncli c = 0"
    and i: "cur s = Some i" "i < length (ptable s)"
  defines "s1 \<equiv> upd i (\<lambda>p. p\<lparr>chan := NoChan\<rparr>) s"
  shows "\<exists>r s'. wait_resumed sv me i b s = Some (r, s') \<and> wait_outcome sv i s1 b r s' \<and> cur s' = cur s \<and>
    initproc s' = initproc s \<and> nextpid s' = nextpid s \<and>
    (if \<exists>b. r = Asleep b then pt_lock s' = held me lk \<and> pcpu s' = pushcli (cpu_at b c)
     else pt_lock s' = lk \<and> pcpu s' = popped (cpu_at b c))"
proof -
  let ?s = "upd i (\<lambda>p. p\<lparr>chan := NoChan\<rparr>) (s\<lparr>pcpu := pushcli (cpu_at b c)\<rparr>)"
  obtain r s' where w: "wait_pass sv me i ?s = Some (r, s')" "wait_outcome sv i ?s b r s'"
    "cur s' = cur s" "initproc s' = initproc s" "nextpid s' = nextpid s"
    "if \<exists>b. r = Asleep b then pt_lock s' = held me lk \<and> pcpu s' = pushcli (cpu_at b c)
     else pt_lock s' = lk \<and> pcpu s' = popped (cpu_at b c)"
    using wait_pass_held [OF sv, of ?s me lk "cpu_at b c" i] h i cpu_at_ok [of c b] by auto
  have "wait_outcome sv i s1 b r s'"
    using w(2) by (subst wait_outcome_cong [of _ ?s]) (simp_all add: s1_def)
  then show ?thesis
    using w sleep_in_ptable [OF h(2,4,5), of me i b] by (auto simp: wait_resumed_def)
qed

end
