(* ===== verification/ProcSystem.thy ===== *)
theory ProcSystem
  imports ProcLemmas
begin

text \<open>
  The process subsystem as a state machine: one processor alternates between the scheduler and the
  kernel code of processes, each operation of \<open>Proc\<close> being one step. The invariant of the process
  table and the absence of panics hold in every reachable state.
\<close>

section \<open>Steps\<close>

text \<open>Where a process that is not running continues when it is scheduled: in \<open>yield\<close>, in the loop of
  \<open>wait\<close>, or in \<open>sleep\<close> with the lock to take again. A new process starts in \<open>forkret\<close>.\<close>

datatype resume = In_yield bool | In_wait bool | In_sleep bool spinlock

text \<open>\<open>wrapped\<close> records that \<open>nextpid\<close> has been counted through all 32-bit values.\<close>

record 'e system =
  ks :: "'e kstate"
  running :: "nat option"
  resumes :: "nat \<Rightarrow> resume"
  wrapped :: bool

text \<open>What the other system calls do to the entry of their process: \<open>exec\<close> replaces its memory, name and
  registers, the file calls its open files and its directory.\<close>

definition own_fields :: "u32 \<Rightarrow> u32 \<Rightarrow> trapframe \<Rightarrow> nat option list \<Rightarrow> nat option \<Rightarrow> byte list \<Rightarrow> proc \<Rightarrow> proc" where
  "own_fields n pd t fs c nm p = p\<lparr>sz := n, pgdir := pd, tf := t, ofile := fs, cwd := c, name := nm\<rparr>"

definition starts_in_forkret :: "'e kstate \<Rightarrow> nat \<Rightarrow> bool" where
  "starts_in_forkret s i \<longleftrightarrow> ctx_eip (ctx (ptable s ! i)) = Forkret"

inductive sys_step :: "'e services \<Rightarrow> nat \<Rightarrow> 'e system \<Rightarrow> 'e system \<Rightarrow> bool" for sv me where
  idle: "running y = None \<Longrightarrow> scheduler_out sv me (ks y) = Some (None, s) \<Longrightarrow>
    sys_step sv me y (y\<lparr>ks := s\<rparr>)"
| run_new: "running y = None \<Longrightarrow> scheduler_out sv me (ks y) = Some (Some i, s1) \<Longrightarrow> starts_in_forkret s1 i \<Longrightarrow>
    forkret sv me s1 = Some s2 \<Longrightarrow> sys_step sv me y (y\<lparr>ks := s2, running := Some i\<rparr>)"
| run_yield: "running y = None \<Longrightarrow> scheduler_out sv me (ks y) = Some (Some i, s1) \<Longrightarrow> \<not> starts_in_forkret s1 i \<Longrightarrow>
    resumes y i = In_yield b \<Longrightarrow> yield_in me b s1 = Some s2 \<Longrightarrow>
    sys_step sv me y (y\<lparr>ks := s2, running := Some i\<rparr>)"
| run_wait: "running y = None \<Longrightarrow> scheduler_out sv me (ks y) = Some (Some i, s1) \<Longrightarrow> \<not> starts_in_forkret s1 i \<Longrightarrow>
    resumes y i = In_wait b \<Longrightarrow> wait_resumed sv me i b s1 = Some (r, s2) \<Longrightarrow> \<not> (\<exists>b. r = Asleep b) \<Longrightarrow>
    sys_step sv me y (y\<lparr>ks := s2, running := Some i\<rparr>)"
| run_wait_again: "running y = None \<Longrightarrow> scheduler_out sv me (ks y) = Some (Some i, s1) \<Longrightarrow>
    \<not> starts_in_forkret s1 i \<Longrightarrow> resumes y i = In_wait b \<Longrightarrow> wait_resumed sv me i b s1 = Some (Asleep b', s2) \<Longrightarrow>
    scheduler_back sv me s2 = Some s3 \<Longrightarrow>
    sys_step sv me y (y\<lparr>ks := s3, resumes := (resumes y)(i := In_wait b')\<rparr>)"
| run_sleep: "running y = None \<Longrightarrow> scheduler_out sv me (ks y) = Some (Some i, s1) \<Longrightarrow> \<not> starts_in_forkret s1 i \<Longrightarrow>
    resumes y i = In_sleep b lk \<Longrightarrow> sleep_in me i (Some lk) b s1 = Some (Some lk', s2) \<Longrightarrow>
    release me lk' (pcpu s2) = Some (lk'', c) \<Longrightarrow>
    sys_step sv me y (y\<lparr>ks := s2\<lparr>pcpu := c\<rparr>, running := Some i\<rparr>)"
| user: "running y = Some i \<Longrightarrow> sys_step sv me y (y\<lparr>ks := (ks y)\<lparr>pcpu := cpu_at b (pcpu (ks y))\<rparr>\<rparr>)"
| own: "running y = Some i \<Longrightarrow> length fs = NOFILE \<Longrightarrow>
    sys_step sv me y (y\<lparr>ks := upd i (own_fields n pd t fs c nm) ((ks y)\<lparr>env := e\<rparr>)\<rparr>)"
| growproc: "running y = Some i \<Longrightarrow> growproc sv n (ks y) = Some (r, s) \<Longrightarrow> sys_step sv me y (y\<lparr>ks := s\<rparr>)"
| fork: "running y = Some i \<Longrightarrow> fork sv me (ks y) = Some (r, s) \<Longrightarrow>
    sys_step sv me y (y\<lparr>ks := s, wrapped := (wrapped y \<or> nextpid s = 0)\<rparr>)"
| yield: "running y = Some i \<Longrightarrow> yield_out me (ks y) = Some (b, s1) \<Longrightarrow> scheduler_back sv me s1 = Some s2 \<Longrightarrow>
    sys_step sv me y (y\<lparr>ks := s2, running := None, resumes := (resumes y)(i := In_yield b)\<rparr>)"
| wait: "running y = Some i \<Longrightarrow> wait_start sv me (ks y) = Some (r, s) \<Longrightarrow> \<not> (\<exists>b. r = Asleep b) \<Longrightarrow>
    sys_step sv me y (y\<lparr>ks := s\<rparr>)"
| wait_sleep: "running y = Some i \<Longrightarrow> wait_start sv me (ks y) = Some (Asleep b, s1) \<Longrightarrow>
    scheduler_back sv me s1 = Some s2 \<Longrightarrow>
    sys_step sv me y (y\<lparr>ks := s2, running := None, resumes := (resumes y)(i := In_wait b)\<rparr>)"
| sleep: "running y = Some i \<Longrightarrow> lock_free lk \<Longrightarrow> acquire me lk (pcpu (ks y)) = Some (lk1, c) \<Longrightarrow>
    sleep_out me ch (Some lk1) ((ks y)\<lparr>pcpu := c\<rparr>) = Some (Some lk2, b, s1) \<Longrightarrow> scheduler_back sv me s1 = Some s2 \<Longrightarrow>
    sys_step sv me y (y\<lparr>ks := s2, running := None, resumes := (resumes y)(i := In_sleep b lk2)\<rparr>)"
| exit: "running y = Some i \<Longrightarrow> initproc (ks y) \<noteq> Some i \<Longrightarrow> exit sv me (ks y) = Some (b, s1) \<Longrightarrow>
    scheduler_back sv me s1 = Some s2 \<Longrightarrow> sys_step sv me y (y\<lparr>ks := s2, running := None\<rparr>)"
| wakeup: "wakeup me ch (ks y) = Some s \<Longrightarrow> sys_step sv me y (y\<lparr>ks := s\<rparr>)"
| kill: "kill me p (ks y) = Some (r, s) \<Longrightarrow> sys_step sv me y (y\<lparr>ks := s\<rparr>)"
| setpriority: "setpriority me p v (ks y) = Some (r, s) \<Longrightarrow> sys_step sv me y (y\<lparr>ks := s\<rparr>)"

section \<open>The invariant\<close>

definition is_live :: "procstate \<Rightarrow> bool" where
  "is_live st \<longleftrightarrow> st = SLEEPING \<or> st = RUNNABLE \<or> st = RUNNING"

lemma is_live_simps [simp]:
  "\<not> is_live UNUSED" "\<not> is_live EMBRYO" "is_live SLEEPING" "is_live RUNNABLE" "is_live RUNNING" "\<not> is_live ZOMBIE"
  by (simp_all add: is_live_def)

definition live :: "proc list \<Rightarrow> nat \<Rightarrow> bool" where
  "live t j \<longleftrightarrow> j < length t \<and> is_live (state (t ! j))"

text \<open>\<open>np\<close> bounds the pids handed out; it is \<open>None\<close> when they have wrapped and may repeat.\<close>

definition entry_ok :: "nat option \<Rightarrow> nat option \<Rightarrow> u32 option \<Rightarrow> proc list \<Rightarrow> nat \<Rightarrow> bool" where
  "entry_ok c ip np t i \<longleftrightarrow>
     state (t ! i) \<noteq> EMBRYO \<and> length (ofile (t ! i)) = NOFILE \<and> (state (t ! i) = RUNNING \<longleftrightarrow> c = Some i) \<and>
     (state (t ! i) = UNUSED \<longrightarrow> parent (t ! i) = None) \<and>
     (\<not> is_live (state (t ! i)) \<longrightarrow> ofile (t ! i) = replicate NOFILE None) \<and>
     (\<forall>n. np = Some n \<and> state (t ! i) \<noteq> UNUSED \<longrightarrow> pid (t ! i) \<noteq> 0 \<and> pid (t ! i) < n) \<and>
     (\<forall>j. parent (t ! i) = Some j \<longrightarrow> live t j \<and> j \<noteq> i) \<and>
     (state (t ! i) \<noteq> UNUSED \<and> ip \<noteq> Some i \<longrightarrow> parent (t ! i) \<noteq> None)"

definition unique_pids :: "proc list \<Rightarrow> bool" where
  "unique_pids t \<longleftrightarrow> (\<forall>i < length t. \<forall>j < length t. state (t ! i) \<noteq> UNUSED \<longrightarrow> state (t ! j) \<noteq> UNUSED \<longrightarrow>
     pid (t ! i) = pid (t ! j) \<longrightarrow> i = j)"

definition table_ok :: "nat option \<Rightarrow> nat option \<Rightarrow> u32 option \<Rightarrow> proc list \<Rightarrow> bool" where
  "table_ok c ip np t \<longleftrightarrow> length t = NPROC \<and> (\<forall>i < NPROC. entry_ok c ip np t i) \<and> (np \<noteq> None \<longrightarrow> unique_pids t) \<and>
     (\<exists>k. ip = Some k \<and> live t k \<and> parent (t ! k) = None) \<and> (\<forall>i. c = Some i \<longrightarrow> i < NPROC)"

definition resumes_ok :: "(nat \<Rightarrow> resume) \<Rightarrow> bool" where
  "resumes_ok r \<longleftrightarrow> (\<forall>i b lk. r i = In_sleep b lk \<longrightarrow> lock_free lk)"

lemma resumes_ok_update [simp]:
  "resumes_ok r \<Longrightarrow> resumes_ok (r(i := In_yield b))" "resumes_ok r \<Longrightarrow> resumes_ok (r(i := In_wait b))"
  "resumes_ok r \<Longrightarrow> lock_free lk \<Longrightarrow> resumes_ok (r(i := In_sleep b lk))"
  by (auto simp: resumes_ok_def)

definition pid_bound :: "bool \<Rightarrow> u32 \<Rightarrow> u32 option" where
  "pid_bound w np = (if w then None else Some np)"

definition sys_inv :: "'e system \<Rightarrow> bool" where
  "sys_inv y \<longleftrightarrow> quiet (ks y) \<and> ncli (pcpu (ks y)) = 0 \<and> cur (ks y) = running y \<and>
     resumes_ok (resumes y) \<and>
     table_ok (running y) (initproc (ks y)) (pid_bound (wrapped y) (nextpid (ks y))) (ptable (ks y))"

lemma table_okD:
  assumes "table_ok c ip np t"
  shows "length t = NPROC" "i < NPROC \<Longrightarrow> entry_ok c ip np t i" "np \<noteq> None \<Longrightarrow> unique_pids t"
    "\<exists>k. ip = Some k \<and> live t k \<and> parent (t ! k) = None" "c = Some i \<Longrightarrow> i < NPROC"
  using assms unfolding table_ok_def by blast+

text \<open>Changes between the three live states, of the files of a live process, and of fields the invariant does
  not mention.\<close>

definition same_core :: "proc \<Rightarrow> proc \<Rightarrow> bool" where
  "same_core p q \<longleftrightarrow> pid q = pid p \<and> parent q = parent p \<and>
     (ofile q = ofile p \<or> is_live (state p) \<and> length (ofile q) = length (ofile p)) \<and>
     (state q = state p \<or> is_live (state p) \<and> is_live (state q))"

lemma same_core_refl [simp]: "same_core p p"
  by (simp add: same_core_def)

lemma same_core_live:
  "same_core p q \<Longrightarrow> is_live (state q) = is_live (state p) \<and> (state q = UNUSED \<longleftrightarrow> state p = UNUSED) \<and>
    (state q = EMBRYO \<longleftrightarrow> state p = EMBRYO) \<and> (state q = ZOMBIE \<longleftrightarrow> state p = ZOMBIE)"
  by (auto simp: same_core_def)

lemma table_ok_live_change:
  assumes ok: "table_ok c ip np t" and len: "length t' = length t"
    and core: "\<And>j. j < NPROC \<Longrightarrow> same_core (t ! j) (t' ! j)"
    and run: "\<And>j. j < NPROC \<Longrightarrow> state (t' ! j) = RUNNING \<longleftrightarrow> c' = Some j"
    and c': "\<And>j. c' = Some j \<Longrightarrow> j < NPROC"
  shows "table_ok c' ip np t'"
proof -
  note D = table_okD [OF ok]
  have live: "live t' j = live t j" for j
    using core [of j] same_core_live [of "t ! j" "t' ! j"] len D(1) by (auto simp: live_def)
  have "entry_ok c' ip np t' i" if i: "i < NPROC" for i
  proof -
    have "pid (t' ! i) = pid (t ! i)" "parent (t' ! i) = parent (t ! i)" "length (ofile (t' ! i)) = length (ofile (t ! i))"
      "\<not> is_live (state (t ! i)) \<Longrightarrow> ofile (t' ! i) = ofile (t ! i)"
      using core [OF i] by (auto simp: same_core_def)
    moreover have "is_live (state (t' ! i)) = is_live (state (t ! i))" "state (t' ! i) = UNUSED \<longleftrightarrow> state (t ! i) = UNUSED"
      "state (t' ! i) = EMBRYO \<longleftrightarrow> state (t ! i) = EMBRYO"
      using same_core_live [OF core [OF i]] by simp_all
    ultimately show ?thesis
      using D(2) [OF i] unfolding entry_ok_def by (simp only: run [OF i] live simp_thms) blast
  qed
  moreover have "unique_pids t'" if "np \<noteq> None"
  proof -
    have "pid (t' ! i) = pid (t ! i) \<and> (state (t' ! i) = UNUSED \<longleftrightarrow> state (t ! i) = UNUSED)" if "i < length t" for i
      using core [of i] same_core_live [of "t ! i" "t' ! i"] that D(1) by (simp add: same_core_def)
    then show ?thesis using D(3) [OF that] len unfolding unique_pids_def by metis
  qed
  moreover obtain k where k: "ip = Some k" "live t k" "parent (t ! k) = None" using D(4) by blast
  then have "k < NPROC" using D(1) by (simp add: live_def)
  then have "parent (t' ! k) = None" using core [of k] k(3) by (simp add: same_core_def)
  ultimately show ?thesis using k live len D(1) c' by (auto simp: table_ok_def)
qed

text \<open>The other four changes: a child is entered, a slot of a failed \<open>fork\<close> keeps a stale pid, a zombie
  is reaped, and a process exits.\<close>

text \<open>A bound that is not smaller, or none.\<close>

definition bound_le :: "u32 option \<Rightarrow> u32 option \<Rightarrow> bool" where
  "bound_le np np' \<longleftrightarrow> (\<forall>b. np' = Some b \<longrightarrow> (\<exists>a. np = Some a \<and> a \<le> b))"

lemma bound_le_refl [simp]: "bound_le np np"
  by (simp add: bound_le_def)

lemma bound_le_None: "bound_le np np' \<Longrightarrow> np' \<noteq> None \<Longrightarrow> np \<noteq> None"
  by (auto simp: bound_le_def)

lemma entry_ok_other:
  assumes "entry_ok c ip np t i" and "t' ! i = t ! i"
    and "\<And>j. live t j \<Longrightarrow> live t' j" and "bound_le np np'"
  shows "entry_ok c ip np' t' i"
  using assms by (fastforce simp: entry_ok_def bound_le_def)

lemma table_ok_unused:
  assumes ok: "table_ok c ip np t" and n: "n < NPROC" "\<not> is_live (state (t ! n))"
    and p: "state p = UNUSED" "parent p = None" "ofile p = replicate NOFILE None" and np: "bound_le np np'"
  shows "table_ok c ip np' (t[n := p])"
proof -
  note D = table_okD [OF ok]
  have live: "live (t[n := p]) j = live t j" for j
    using n p by (cases "j = n") (auto simp: live_def)
  have "entry_ok c ip np' (t[n := p]) i" if i: "i < NPROC" for i
  proof (cases "i = n")
    case False
    then show ?thesis by (intro entry_ok_other [OF D(2) [OF i] _ _ np]) (simp_all add: live)
  next
    case True
    then show ?thesis using D(1) D(2) [OF n(1)] n p by (auto simp: entry_ok_def)
  qed
  moreover have "unique_pids (t[n := p])" if "np' \<noteq> None"
    using D(1) D(3) [OF bound_le_None [OF np that]] p(1) n(1) unfolding unique_pids_def
    by (auto simp: nth_list_update split: if_splits)
  moreover obtain k where k: "ip = Some k" "live t k" "parent (t ! k) = None" using D(4) by blast
  then have "k \<noteq> n" using n(2) by (auto simp: live_def)
  ultimately show ?thesis using k live D(1,5) unfolding table_ok_def by auto
qed

lemma table_ok_child:
  assumes ok: "table_ok c ip np t" and n: "n < NPROC" "state (t ! n) = UNUSED"
    and np: "np' = Some (np1 + 1) \<and> np = Some np1 \<and> np1 \<noteq> -1 \<or> np' = None"
    and i: "live t i"
    and p: "state p = RUNNABLE" "pid p = np1" "parent p = Some i" "length (ofile p) = NOFILE"
  shows "table_ok c ip np' (t[n := p])"
proof -
  note D = table_okD [OF ok]
  have lt: "np1 < np1 + 1" "np = Some np1" if "np' = Some b" for b
    using u32_less_Suc [of np1] np that by auto
  have bl: "bound_le np np'" using np u32_less_Suc [of np1] by (auto simp: bound_le_def)
  have live: "live t j \<Longrightarrow> live (t[n := p]) j" for j
    using p(1) by (cases "j = n") (auto simp: live_def)
  have ne: "i \<noteq> n" using i n(2) by (auto simp: live_def)
  obtain k where k: "ip = Some k" "live t k" "parent (t ! k) = None" using D(4) by blast
  then have kn: "k \<noteq> n" "k < NPROC" using n(2) D(1) by (auto simp: live_def)
  have np0: "np1 \<noteq> 0" if "np' = Some b" for b
  proof -
    have "pid (t ! k) < np1" using D(2) [OF kn(2)] k(2) lt(2) [OF that] by (auto simp: entry_ok_def live_def)
    then show ?thesis by auto
  qed
  have "entry_ok c ip np' (t[n := p]) j" if j: "j < NPROC" for j
  proof (cases "j = n")
    case False
    then show ?thesis by (intro entry_ok_other [OF D(2) [OF j] _ live bl]) simp_all
  next
    case True
    have "c \<noteq> Some n" using D(2) [OF n(1)] n(2) by (auto simp: entry_ok_def)
    then show ?thesis using True D(1) n(1) p live [OF i] ne lt np np0 by (auto simp: entry_ok_def)
  qed
  moreover have "unique_pids (t[n := p])" if np': "np' \<noteq> None"
  proof -
    have npS: "np = Some np1" using np np' by blast
    then have uq: "unique_pids t" using D(3) by simp
    have "pid (t ! j) \<noteq> np1" if "j < NPROC" "state (t ! j) \<noteq> UNUSED" for j
      using D(2) [OF that(1)] that(2) npS by (auto simp: entry_ok_def)
    then have new: "state (t ! j) = UNUSED" if "j < NPROC" "pid (t ! j) = pid p" for j using that p(2) by blast
    show ?thesis unfolding unique_pids_def
    proof (intro allI impI)
      fix i j
      assume "i < length (t[n := p])" "j < length (t[n := p])" "state (t[n := p] ! i) \<noteq> UNUSED"
        "state (t[n := p] ! j) \<noteq> UNUSED" "pid (t[n := p] ! i) = pid (t[n := p] ! j)"
      then show "i = j"
        using D(1) uq n(1) new [of i] new [of j] unfolding unique_pids_def
        by (cases "i = n"; cases "j = n") simp_all
    qed
  qed
  ultimately show ?thesis using k kn live D(1,5) unfolding table_ok_def by auto
qed

lemma exit_entry_simps:
  "pid (exit_entry i ip t j) = pid (t ! j)" "ofile (exit_entry i ip t j) = ofile (t ! j)"
  "parent (exit_entry i ip t j) = (if parent (t ! j) = Some i then ip else parent (t ! j))"
  by (simp_all add: exit_entry_def Let_def)

lemma exit_entry_state:
  "state (exit_entry i ip t j) = state (t ! j) \<or>
    state (t ! j) = SLEEPING \<and> state (exit_entry i ip t j) = RUNNABLE"
  by (simp add: exit_entry_def Let_def)

lemma table_ok_exit:
  assumes ok: "table_ok (Some i) ip np t" and ip: "ip \<noteq> Some i" and len: "length t' = length t"
    and other: "\<And>j. j < NPROC \<Longrightarrow> j \<noteq> i \<Longrightarrow> t' ! j = exit_entry i ip t j"
    and self: "state (t' ! i) = ZOMBIE" "ofile (t' ! i) = replicate NOFILE None" "pid (t' ! i) = pid (t ! i)"
      "parent (t' ! i) = parent (t ! i)"
  shows "table_ok None ip np t'"
proof -
  note D = table_okD [OF ok]
  have i: "i < NPROC" using D(5) by blast
  have ri: "state (t ! i) = RUNNING" using D(2) [OF i] by (simp add: entry_ok_def)
  obtain k where k: "ip = Some k" "live t k" "parent (t ! k) = None" using D(4) by blast
  have kn: "k < NPROC" "k \<noteq> i" using k D(1) ip by (auto simp: live_def)
  have st: "state (t' ! j) = state (t ! j) \<or> state (t ! j) = SLEEPING \<and> state (t' ! j) = RUNNABLE"
    if "j < NPROC" "j \<noteq> i" for j
    using other [OF that] exit_entry_state [of i ip t j] by simp
  have live: "live t' j" if "live t j" "j \<noteq> i" for j
    using that st [of j] len D(1) by (auto simp: live_def)
  have "entry_ok None ip np t' j" if j: "j < NPROC" for j
  proof (cases "j = i")
    case True
    have "\<And>a. parent (t ! i) = Some a \<Longrightarrow> live t' a \<and> a \<noteq> i"
      using D(2) [OF i] live by (auto simp: entry_ok_def)
    then show ?thesis using True self D(2) [OF i] ri ip by (auto simp: entry_ok_def)
  next
    case False
    have p: "parent (t' ! j) = (if parent (t ! j) = Some i then ip else parent (t ! j))"
      and same: "pid (t' ! j) = pid (t ! j)" "ofile (t' ! j) = ofile (t ! j)"
      using other [OF j False] by (simp_all add: exit_entry_simps)
    have E: "state (t ! j) \<noteq> EMBRYO" "length (ofile (t ! j)) = NOFILE" "state (t ! j) \<noteq> RUNNING"
      "state (t ! j) = UNUSED \<Longrightarrow> parent (t ! j) = None" "\<not> is_live (state (t ! j)) \<Longrightarrow> ofile (t ! j) = replicate NOFILE None"
      "\<And>n. np = Some n \<Longrightarrow> state (t ! j) \<noteq> UNUSED \<Longrightarrow> pid (t ! j) \<noteq> 0 \<and> pid (t ! j) < n"
      "\<And>a. parent (t ! j) = Some a \<Longrightarrow> live t a \<and> a \<noteq> j" "state (t ! j) \<noteq> UNUSED \<Longrightarrow> ip \<noteq> Some j \<Longrightarrow> parent (t ! j) \<noteq> None"
      using D(2) [OF j] False by (auto simp: entry_ok_def)
    have pa: "live t' a \<and> a \<noteq> j" if "parent (t' ! j) = Some a" for a
    proof (cases "parent (t ! j) = Some i")
      case True
      then have "a = k" using that p k(1) by simp
      moreover have "k \<noteq> j" using True k(3) by auto
      ultimately show ?thesis using live [OF k(2) kn(2)] by simp
    next
      case False
      then have "parent (t ! j) = Some a" using that p by simp
      then show ?thesis using E(7) [of a] live [of a] False by auto
    qed
    show ?thesis
      using st [OF j False] E p same pa k(1) by (auto simp: entry_ok_def)
  qed
  moreover have "unique_pids t'" if "np \<noteq> None"
  proof -
    have "pid (t' ! j) = pid (t ! j) \<and> (state (t' ! j) = UNUSED \<longleftrightarrow> state (t ! j) = UNUSED)" if "j < length t" for j
      using that D(1) st [of j] other [of j] self ri by (cases "j = i") (auto simp: exit_entry_simps)
    then show ?thesis using D(3) [OF that] len unfolding unique_pids_def by metis
  qed
  moreover have "parent (t' ! k) = None" using other [OF kn] k(3) by (simp add: exit_entry_simps)
  ultimately show ?thesis using k(1) live [OF k(2) kn(2)] len D(1) unfolding table_ok_def by auto
qed

section \<open>Every step keeps the invariant\<close>

lemma sys_invD:
  assumes "sys_inv y"
  shows "quiet (ks y)" "ncli (pcpu (ks y)) = 0" "cur (ks y) = running y"
    "resumes_ok (resumes y)"
    "table_ok (running y) (initproc (ks y)) (pid_bound (wrapped y) (nextpid (ks y))) (ptable (ks y))"
  using assms unfolding sys_inv_def by blast+

lemma sys_invI:
  assumes "quiet (ks y)" "ncli (pcpu (ks y)) = 0" "cur (ks y) = running y"
    and "resumes_ok (resumes y)"
    and "table_ok (running y) (initproc (ks y)) (pid_bound (wrapped y) (nextpid (ks y))) (ptable (ks y))"
  shows "sys_inv y"
  using assms unfolding sys_inv_def by blast

text \<open>The state in which the scheduler has switched to process \<open>i\<close>.\<close>

definition switched :: "nat \<Rightarrow> spinlock \<Rightarrow> nat \<Rightarrow> bool \<Rightarrow> 'e kstate \<Rightarrow> bool" where
  "switched me lk i w s \<longleftrightarrow> pt_lock s = held me lk \<and> lock_free lk \<and> (\<exists>c. pcpu s = pushcli c \<and> cpu_ok c \<and> ncli c = 0) \<and>
     cur s = Some i \<and> i < NPROC \<and> table_ok (Some i) (initproc s) (pid_bound w (nextpid s)) (ptable s)"

lemma pick_switch:
  assumes sv: "services_ok sv" and inv: "sys_inv y" and idle: "running y = None"
    and out: "scheduler_out sv me (ks y) = Some (Some i, s)"
  shows "switched me (pt_lock (ks y)) i (wrapped y) s"
proof -
  note D = sys_invD [OF inv]
  note T = table_okD [OF D(5)]
  have sw: "\<And>p e. sv_switchuvm sv p e \<noteq> None" using services_okD(4) [OF sv] by fastforce
  have "pick (ptable (ks y)) = Some i" and s: "ptable s = (ptable (ks y))[i := (ptable (ks y) ! i)\<lparr>state := RUNNING\<rparr>]"
    "cur s = Some i" "pt_lock s = held me (pt_lock (ks y))" "\<exists>c. pcpu s = pushcli c \<and> cpu_ok c \<and> ncli c = 0"
    "initproc s = initproc (ks y)" "nextpid s = nextpid (ks y)"
    using scheduler_out_quiet [OF D(1,2) sw, of me] out by (auto split: option.splits)
  then have i: "i < NPROC" "state (ptable (ks y) ! i) = RUNNABLE"
    using pick_spec [of "ptable (ks y)"] T(1) by (simp_all add: best_below_def)
  have notrun: "state (ptable (ks y) ! j) \<noteq> RUNNING" if "j < NPROC" for j
    using T(2) [OF that] idle by (simp add: entry_ok_def)
  have "table_ok (Some i) (initproc (ks y)) (pid_bound (wrapped y) (nextpid (ks y))) (ptable s)"
    by (rule table_ok_live_change [OF D(5)]) (use s(1) i T(1) notrun in \<open>auto simp: same_core_def nth_list_update\<close>)
  then show ?thesis using s i D(1) by (simp add: switched_def quiet_def)
qed

lemma switched_update:
  assumes sw: "switched me lk i w s" and same: "same_core (ptable s ! i) p"
  shows "table_ok (if state p = RUNNING then Some i else None) (initproc s) (pid_bound w (nextpid s)) ((ptable s)[i := p])"
proof -
  have ok: "table_ok (Some i) (initproc s) (pid_bound w (nextpid s)) (ptable s)" and i: "i < NPROC"
    using sw by (simp_all add: switched_def)
  note T = table_okD [OF ok]
  show ?thesis
    by (rule table_ok_live_change [OF ok])
      (use T(1) T(2) i same in \<open>auto simp: nth_list_update entry_ok_def split: if_splits\<close>)
qed

lemma back_inv:
  assumes h: "pt_lock s1 = held me lk" "pcpu s1 = pushcli c" "lock_free lk" "cpu_ok c" "ncli c = 0"
    and ok: "table_ok None (initproc s1) (pid_bound (wrapped y) (nextpid s1)) (ptable s1)" and bk: "scheduler_back sv me s1 = Some s2"
    and res: "resumes_ok r"
  shows "sys_inv (y\<lparr>ks := s2, running := None, resumes := r\<rparr>)"
  using scheduler_back_held [OF h, of sv] bk ok res by (auto simp: sys_inv_def)

lemma process_inv:
  assumes "quiet s" "ncli (pcpu s) = 0" "cur s = Some i" "table_ok (Some i) (initproc s) (pid_bound (wrapped y) (nextpid s)) (ptable s)"
    and res: "resumes_ok (resumes y)"
  shows "sys_inv (y\<lparr>ks := s, running := Some i\<rparr>)"
  using assms by (simp add: sys_inv_def)

lemma wait_outcome_table:
  assumes ok: "table_ok (Some i) ip np (ptable s)" and w: "wait_outcome sv i s b r s'"
  shows "table_ok (if \<exists>b. r = Asleep b then None else Some i) ip np (ptable s')"
proof (cases "find_first (\<lambda>p. is_child i p \<and> state p = ZOMBIE) (ptable s)")
  case (Some j)
  note T = table_okD [OF ok]
  from Some have j: "j < NPROC" "state (ptable s ! j) = ZOMBIE" using T(1) by (simp_all add: find_first_Some)
  then have "ofile (ptable s ! j) = replicate NOFILE None" using T(2) [OF j(1)] by (simp add: entry_ok_def)
  with j have "table_ok (Some i) ip np ((ptable s)[j := (ptable s ! j)\<lparr>kstack := 0, pid := 0, parent := None,
      name := [], killed := False, state := UNUSED\<rparr>])"
    by (intro table_ok_unused [OF ok]) simp_all
  then show ?thesis using w Some by (simp add: wait_outcome_def)
next
  case None
  note T = table_okD [OF ok]
  show ?thesis
  proof (cases "\<not> list_ex (is_child i) (ptable s) \<or> killed (ptable s ! i)")
    case True
    then show ?thesis using w None ok by (auto simp: wait_outcome_def)
  next
    case False
    have i: "i < NPROC" using T(5) by blast
    have ri: "state (ptable s ! i) = RUNNING" using T(2) [OF i] by (simp add: entry_ok_def)
    have lv: "is_live (state (ptable s ! i))" unfolding ri by simp
    have nr: "state (ptable s ! j) = RUNNING \<longleftrightarrow> i = j" if "j < NPROC" for j
      using T(2) [OF that] by (simp add: entry_ok_def)
    have "table_ok None ip np ((ptable s)[i := (ptable s ! i)\<lparr>chan := ProcAt i, state := SLEEPING,
        ctx := (ctx (ptable s ! i))\<lparr>ctx_eip := In_sched\<rparr>\<rparr>])"
      by (intro table_ok_live_change [OF ok])
        (use T(1) i lv nr in \<open>auto simp: nth_list_update same_core_def\<close>)
    then show ?thesis using w None False by (simp add: wait_outcome_def)
  qed
qed

lemma forkret_switched:
  assumes "switched me lk i w s" "forkret sv me s = Some s'"
  shows "quiet s' \<and> ncli (pcpu s') = 0 \<and> cur s' = Some i \<and> table_ok (Some i) (initproc s') (pid_bound w (nextpid s')) (ptable s')"
  using assms by (auto simp: switched_def forkret_def unlock_ptable_held quiet_def)

lemma yield_in_switched:
  assumes "switched me lk i w s" "yield_in me b s = Some s'"
  shows "quiet s' \<and> ncli (pcpu s') = 0 \<and> cur s' = Some i \<and> table_ok (Some i) (initproc s') (pid_bound w (nextpid s')) (ptable s')"
  using assms by (auto simp: switched_def yield_in_held quiet_def cpu_at_ok)

lemma nochan_switched:
  assumes "switched me lk i w s"
  shows "table_ok (Some i) (initproc s) (pid_bound w (nextpid s)) ((ptable s)[i := (ptable s ! i)\<lparr>chan := NoChan\<rparr>])"
proof -
  have ok: "table_ok (Some i) (initproc s) (pid_bound w (nextpid s)) (ptable s)" and i: "i < NPROC"
    using assms by (simp_all add: switched_def)
  have "state (ptable s ! i) = RUNNING" using table_okD(2) [OF ok i] by (simp add: entry_ok_def)
  then show ?thesis
    using switched_update [OF assms, of "(ptable s ! i)\<lparr>chan := NoChan\<rparr>"] by (simp add: same_core_def)
qed

lemma wait_resumed_switched:
  assumes sv: "services_ok sv" and sw: "switched me lk i w s" and w: "wait_resumed sv me i b s = Some (r, s')"
  shows "cur s' = Some i \<and> table_ok (if \<exists>b. r = Asleep b then None else Some i) (initproc s') (pid_bound w (nextpid s')) (ptable s') \<and>
    (if \<exists>b. r = Asleep b then \<exists>c. pt_lock s' = held me lk \<and> lock_free lk \<and> pcpu s' = pushcli c \<and> cpu_ok c \<and> ncli c = 0
     else quiet s' \<and> ncli (pcpu s') = 0)"
proof -
  obtain c where h: "pt_lock s = held me lk" "pcpu s = pushcli c" "lock_free lk" "cpu_ok c" "ncli c = 0"
    and i: "cur s = Some i" "i < NPROC" and ok: "table_ok (Some i) (initproc s) (pid_bound w (nextpid s)) (ptable s)"
    using sw by (auto simp: switched_def)
  have len: "i < length (ptable s)" using i(2) table_okD(1) [OF ok] by simp
  let ?s1 = "upd i (\<lambda>p. p\<lparr>chan := NoChan\<rparr>) s"
  have o: "wait_outcome sv i ?s1 b r s'" "cur s' = cur s" "initproc s' = initproc s" "nextpid s' = nextpid s"
    "if \<exists>b. r = Asleep b then pt_lock s' = held me lk \<and> pcpu s' = pushcli (cpu_at b c)
     else pt_lock s' = lk \<and> pcpu s' = popped (cpu_at b c)"
    using wait_resumed_held [OF sv h i(1) len, of b] w by auto
  have "table_ok (Some i) (initproc s) (pid_bound w (nextpid s)) (ptable ?s1)" using nochan_switched [OF sw] by simp
  from wait_outcome_table [OF this o(1)] show ?thesis
    using o i h cpu_at_ok [of c b] by (auto simp: quiet_def split: if_splits)
qed

lemma sleep_in_switched:
  assumes sw: "switched me lk i w s" and l: "lock_free l" and w: "sleep_in me i (Some l) b s = Some (Some l', s')"
    and rel: "release me l' (pcpu s') = Some (l'', c')"
  shows "quiet (s'\<lparr>pcpu := c'\<rparr>) \<and> ncli c' = 0 \<and> cur s' = Some i \<and>
    table_ok (Some i) (initproc s') (pid_bound w (nextpid s')) (ptable s')"
proof -
  obtain c where h: "pt_lock s = held me lk" "pcpu s = pushcli c" "lock_free lk" "cpu_ok c" "ncli c = 0"
    and i: "cur s = Some i" using sw by (auto simp: switched_def)
  let ?s1 = "upd i (\<lambda>p. p\<lparr>chan := NoChan\<rparr>) (s\<lparr>pcpu := pushcli (cpu_at b c)\<rparr>)"
  have u: "unlock_ptable me ?s1 = Some (leave lk (cpu_at b c) ?s1)"
    by (rule unlock_ptable_held) (use h cpu_at_ok [of c b] in simp_all)
  have c0: "cpu_ok (popped (cpu_at b c))" "ncli (popped (cpu_at b c)) = 0" using h cpu_at_ok [of c b] by simp_all
  have a: "acquire me l (popped (cpu_at b c)) = Some (l\<lparr>locked := 1, lk_cpu := Some me\<rparr>, pushcli (popped (cpu_at b c)))"
    by (rule acquire_free [OF l c0(1)])
  have s': "l' = l\<lparr>locked := 1, lk_cpu := Some me\<rparr>" "s' = (leave lk (cpu_at b c) ?s1)\<lparr>pcpu := pushcli (popped (cpu_at b c))\<rparr>"
    using w u a sched_in_any [OF h(2,5,4), of b] by (auto simp: sleep_in_def)
  have "\<exists>c'. release me l' (pushcli (popped (cpu_at b c))) = Some (l, c') \<and> same_nesting (popped (cpu_at b c)) c'"
    unfolding s'(1) by (rule release_acquire [OF l c0(1)])
  then have sn: "same_nesting (popped (cpu_at b c)) c'" using rel s'(2) by auto
  have "cpu_ok c'" by (rule cpu_ok_same_nesting [OF sn c0(1)])
  moreover have "ncli c' = 0" using sn c0(2) by (simp add: same_nesting_def)
  ultimately have "cpu_ok c'" "ncli c' = 0" by simp_all
  then show ?thesis using s'(2) h(3) i nochan_switched [OF sw] by (simp add: quiet_def)
qed

lemma kstate_pcpu_simps:
  "quiet (s\<lparr>pcpu := c\<rparr>) \<longleftrightarrow> lock_free (pt_lock s) \<and> cpu_ok c"
  by (simp add: quiet_def)

lemma same_core_wake: "same_core p (wake ch p)"
  by (simp add: same_core_def)

lemma growproc_quiet:
  assumes q: "quiet s" "ncli (pcpu s) = 0" and i: "cur s = Some i" "i < length (ptable s)"
    and g: "growproc sv n s = Some (r, s')"
  shows "\<exists>v. quiet s' \<and> ncli (pcpu s') = 0 \<and> cur s' = cur s \<and> initproc s' = initproc s \<and> nextpid s' = nextpid s \<and>
    ptable s' = (ptable s)[i := (ptable s ! i)\<lparr>sz := v\<rparr>]"
proof -
  have my: "myproc s = Some (Some i, s\<lparr>pcpu := popped (pcpu s)\<rparr>)" using myproc_quiet [of s] q i by (simp add: quiet_def)
  have same: "(ptable s)[i := (ptable s ! i)\<lparr>sz := sz (ptable s ! i)\<rparr>] = ptable s" by simp
  have "\<exists>a. (case a of (ro, e) \<Rightarrow> (case ro of
      None \<Rightarrow> Some (-1, s\<lparr>pcpu := popped (pcpu s), env := e\<rparr>)
    | Some v \<Rightarrow> sv_switchuvm sv (ptable (upd i (\<lambda>p. p\<lparr>sz := v\<rparr>) (s\<lparr>pcpu := popped (pcpu s), env := e\<rparr>)) ! i)
          (env (upd i (\<lambda>p. p\<lparr>sz := v\<rparr>) (s\<lparr>pcpu := popped (pcpu s), env := e\<rparr>))) \<bind>
        (\<lambda>e'. Some (0, (upd i (\<lambda>p. p\<lparr>sz := v\<rparr>) (s\<lparr>pcpu := popped (pcpu s), env := e\<rparr>))\<lparr>env := e'\<rparr>)))) = Some (r, s')"
    using g unfolding growproc_def my Let_def
    by (simp only: bind.bind_lunit bind_eq_Some_conv [of "if _ then _ else _"] prod.case) blast
  then obtain ro e where c: "(case ro of
      None \<Rightarrow> Some (-1, s\<lparr>pcpu := popped (pcpu s), env := e\<rparr>)
    | Some v \<Rightarrow> sv_switchuvm sv (ptable (upd i (\<lambda>p. p\<lparr>sz := v\<rparr>) (s\<lparr>pcpu := popped (pcpu s), env := e\<rparr>)) ! i)
          (env (upd i (\<lambda>p. p\<lparr>sz := v\<rparr>) (s\<lparr>pcpu := popped (pcpu s), env := e\<rparr>))) \<bind>
        (\<lambda>e'. Some (0, (upd i (\<lambda>p. p\<lparr>sz := v\<rparr>) (s\<lparr>pcpu := popped (pcpu s), env := e\<rparr>))\<lparr>env := e'\<rparr>))) = Some (r, s')"
    by auto
  show ?thesis
  proof (cases ro)
    case None
    then show ?thesis using g c q same by (intro exI [of _ "sz (ptable s ! i)"]) (auto simp: quiet_def)
  next
    case (Some v)
    then show ?thesis using g c q by (auto simp: quiet_def bind_eq_Some_conv Let_def)
  qed
qed

lemma growproc_returns:
  assumes sv: "services_ok sv" and q: "quiet s" and i: "cur s = Some i"
    and al: "\<And>a b c e. sv_allocuvm sv a b c e \<noteq> None" "\<And>a b c e. sv_deallocuvm sv a b c e \<noteq> None"
  shows "growproc sv n s \<noteq> None"
proof -
  have my: "myproc s = Some (Some i, s\<lparr>pcpu := popped (pcpu s)\<rparr>)" using myproc_quiet [of s] q i by (simp add: quiet_def)
  let ?p = "ptable s ! i"
  obtain ra ea where a: "sv_allocuvm sv (pgdir ?p) (sz ?p) (sz ?p + of_int n) (env s) = Some (ra, ea)" using al(1) by fastforce
  obtain rd ed where d: "sv_deallocuvm sv (pgdir ?p) (sz ?p) (sz ?p + of_int n) (env s) = Some (rd, ed)" using al(2) by fastforce
  have sw: "sv_switchuvm sv p e \<bind> (\<lambda>e. Some (f e)) \<noteq> None" for p e and f :: "'a \<Rightarrow> int \<times> 'a kstate"
    using services_okD(4) [OF sv, of p e] by auto
  show ?thesis using my a d sw
    by (cases "0 < n"; cases "n < 0"; cases "ra = 0"; cases "rd = 0") (simp_all add: growproc_def Let_def del: not_None_eq)
qed

lemma sleep_out_quiet:
  assumes q: "quiet s" "ncli (pcpu s) = 0" and i: "cur s = Some i" "i < length (ptable s)"
    and l: "lock_free l"
  shows "\<exists>l1 c s'. acquire me l (pcpu s) = Some (l1, c) \<and> sleep_out me ch (Some l1) (s\<lparr>pcpu := c\<rparr>) = Some (Some l, if_flag (pcpu s), s') \<and>
    pt_lock s' = held me (pt_lock s) \<and> pcpu s' = pushcli (pcpu s) \<and>
    cur s' = cur s \<and> initproc s' = initproc s \<and> nextpid s' = nextpid s \<and>
    ptable s' = (ptable s)[i := (ptable s ! i)\<lparr>chan := ch, state := SLEEPING,
      ctx := (ctx (ptable s ! i))\<lparr>ctx_eip := In_sched\<rparr>\<rparr>]"
proof -
  have ok: "cpu_ok (pcpu s)" "lock_free (pt_lock s)" using q(1) by (simp_all add: quiet_def)
  define l1 where l1: "l1 = l\<lparr>locked := 1, lk_cpu := Some me\<rparr>"
  let ?c1 = "pushcli (pcpu s)"
  have acq: "acquire me l (pcpu s) = Some (l1, ?c1)" using acquire_free [OF l ok(1), of me] l1 by simp
  have c1: "cpu_ok ?c1" "ncli ?c1 = 1" "popped ?c1 = ?c1"
    using ok q(2) pushcli_ok by (auto simp: popped_nested)
  let ?s1 = "s\<lparr>pcpu := ?c1\<rparr>"
  have my: "myproc ?s1 = Some (Some i, ?s1)"
    using myproc_quiet [of ?s1] c1 i(1) by simp
  have lk: "lock_ptable me ?s1 = Some (enter me ?s1)"
    by (rule lock_ptable_quiet) (use ok c1 in \<open>simp add: quiet_def\<close>)
  have r: "release me l1 (pushcli ?c1) = Some (l, ?c1)"
  proof -
    have "held_by me l1" using l1 by (simp add: held_by_def)
    moreover have "l1\<lparr>locked := 0, lk_cpu := None\<rparr> = l" using l1 l by (simp add: lock_free_def)
    ultimately show ?thesis
      using release_held [of me l1 "pushcli ?c1"] pushcli_ok [OF c1(1)] c1 popcli_pushcli_exact [OF c1(1)] by simp
  qed
  let ?s2 = "upd i (\<lambda>p. p\<lparr>chan := ch, state := SLEEPING\<rparr>) ((enter me ?s1)\<lparr>pcpu := ?c1\<rparr>)"
  have so: "sched_out me ?s2 = Some (if_flag (pcpu s), upd i (\<lambda>p. p\<lparr>ctx := (ctx p)\<lparr>ctx_eip := In_sched\<rparr>\<rparr>) ?s2)"
    by (rule sched_out_held [where lk = "pt_lock s"]) (use ok q(2) i in simp_all)
  have "sleep_out me ch (Some l1) ?s1 =
      Some (Some l, if_flag (pcpu s), upd i (\<lambda>p. p\<lparr>ctx := (ctx p)\<lparr>ctx_eip := In_sched\<rparr>\<rparr>) ?s2)"
    using my lk r so by (simp add: sleep_out_def)
  with acq i(2) show ?thesis by simp
qed

lemma sys_step_inv:
  assumes sv: "services_ok sv" and step: "sys_step sv me y y'" and inv: "sys_inv y"
  shows "sys_inv y'"
proof -
  note D = sys_invD [OF inv]
  note T = table_okD [OF D(5)]
  have len: "i < length (ptable (ks y))" if "running y = Some i" for i using T(1) T(5) [OF that] by simp
  have sw: "\<And>p e. sv_switchuvm sv p e \<noteq> None" using services_okD(4) [OF sv] by fastforce
  have run: "running y = Some j \<longleftrightarrow> state (ptable (ks y) ! j) = RUNNING" if "j < NPROC" for j
    using T(2) [OF that] by (auto simp: entry_ok_def)
  from step show ?thesis
  proof cases
    case (idle s)
    have "pick (ptable (ks y)) = None" "quiet s \<and> ncli (pcpu s) = 0 \<and> ptable s = ptable (ks y) \<and>
        cur s = cur (ks y) \<and> initproc s = initproc (ks y) \<and> nextpid s = nextpid (ks y)"
      using scheduler_out_quiet [OF D(1,2) sw, of me] idle(3) by (auto split: option.splits)
    with idle D show ?thesis by (auto simp: sys_inv_def)
  next
    case (run_new i s1 s2)
    from forkret_switched [OF pick_switch [OF sv inv run_new(2,3)] run_new(5)] run_new(1) D(4)
    show ?thesis by (auto intro: process_inv)
  next
    case (run_yield i s1 b s2)
    from yield_in_switched [OF pick_switch [OF sv inv run_yield(2,3)] run_yield(6)] run_yield(1) D(4)
    show ?thesis by (auto intro: process_inv)
  next
    case (run_wait i s1 b r s2)
    from wait_resumed_switched [OF sv pick_switch [OF sv inv run_wait(2,3)] run_wait(6)] run_wait(1,7) D(4)
    show ?thesis by (auto intro: process_inv)
  next
    case (run_wait_again i s1 b b' s2 s3)
    from wait_resumed_switched [OF sv pick_switch [OF sv inv run_wait_again(2,3)] run_wait_again(6)]
    obtain c where h: "pt_lock s2 = held me (pt_lock (ks y))" "pcpu s2 = pushcli c" "lock_free (pt_lock (ks y))"
      "cpu_ok c" "ncli c = 0" and ok: "table_ok None (initproc s2) (pid_bound (wrapped y) (nextpid s2)) (ptable s2)" by auto
    have "y' = y\<lparr>ks := s3, running := None, resumes := (resumes y)(i := In_wait b')\<rparr>"
      using run_wait_again(1,2) by (intro system.equality) simp_all
    then show ?thesis
      using back_inv [OF h ok run_wait_again(7), where r = "(resumes y)(i := In_wait b')"] D(4) by simp
  next
    case (run_sleep i s1 b lk lk' s2 lk'' c)
    have "lock_free lk" using D(4) run_sleep(5) by (auto simp: resumes_ok_def)
    with sleep_in_switched [OF pick_switch [OF sv inv run_sleep(2,3)] _ run_sleep(6,7)] run_sleep(1) D(4)
    show ?thesis by (auto intro!: process_inv)
  next
    case (user i b)
    then show ?thesis using D by (auto simp: sys_inv_def quiet_def cpu_at_ok)
  next
    case (own i fs n pd tf' c nm e)
    have i: "i < NPROC" using T(5) [OF own(2)] .
    have ei: "is_live (state (ptable (ks y) ! i))" "length (ofile (ptable (ks y) ! i)) = NOFILE"
      using T(2) [OF i] own(2) by (simp_all add: entry_ok_def)
    have "table_ok (running y) (initproc (ks y)) (pid_bound (wrapped y) (nextpid (ks y)))
        ((ptable (ks y))[i := own_fields n pd tf' fs c nm (ptable (ks y) ! i)])"
      by (rule table_ok_live_change [OF D(5)])
        (use ei i T(1) T(5) own(3) run in \<open>auto simp: nth_list_update same_core_def own_fields_def split: if_splits\<close>)
    then show ?thesis using own(1) D by (simp add: sys_inv_def quiet_def)
  next
    case (growproc i n r s)
    have i: "i < NPROC" using T(5) [OF growproc(2)] .
    have cur: "cur (ks y) = Some i" using D(3) growproc(2) by simp
    obtain v where g: "quiet s" "ncli (pcpu s) = 0" "cur s = cur (ks y)" "initproc s = initproc (ks y)" "nextpid s = nextpid (ks y)"
      "ptable s = (ptable (ks y))[i := (ptable (ks y) ! i)\<lparr>sz := v\<rparr>]"
      using growproc_quiet [OF D(1,2) cur len [OF growproc(2)] growproc(3)] by blast
    have "table_ok (running y) (initproc s) (pid_bound (wrapped y) (nextpid s)) (ptable s)"
      unfolding g(4,5)
      by (rule table_ok_live_change [OF D(5)])
        (use g(6) i T(1) T(5) run in \<open>auto simp: nth_list_update same_core_def split: if_splits\<close>)
    then show ?thesis using growproc(1) g D by (simp add: sys_inv_def)
  next
    case (fork i r s)
    have i: "i < NPROC" using T(5) [OF fork(2)] .
    have ei: "state (ptable (ks y) ! i) = RUNNING" "length (ofile (ptable (ks y) ! i)) = NOFILE"
      using T(2) [OF i] fork(2) by (simp_all add: entry_ok_def)
    have fresh: "ofile p = replicate NOFILE None" if p: "p \<in> set (ptable (ks y))" "state p = UNUSED" for p
    proof -
      obtain k where "k < NPROC" "p = ptable (ks y) ! k" using p(1) T(1) by (auto simp: in_set_conv_nth)
      then show ?thesis using T(2) [of k] p(2) by (simp add: entry_ok_def)
    qed
    have cur: "cur (ks y) = Some i" using D(3) fork(2) by simp
    have "state (ptable (ks y) ! i) \<noteq> UNUSED" using ei(1) by simp
    from fork_quiet [OF sv D(1) cur len [OF fork(2)] this ei(2) fresh, of me] fork(3)
    have s: "quiet s" "ncli (pcpu s) = ncli (pcpu (ks y))" "cur s = cur (ks y)" "initproc s = initproc (ks y)"
      "fork_outcome sv (ks y) i r s" by simp_all
    let ?np = "pid_bound (wrapped y) (nextpid (ks y))" and ?np' = "pid_bound (wrapped y \<or> nextpid s = 0) (nextpid s)"
    have wrap: "nextpid (ks y) + 1 \<noteq> 0 \<Longrightarrow> nextpid (ks y) \<noteq> -1" by auto
    have free: "n < NPROC" "state (ptable (ks y) ! n) = UNUSED" if "find_first (\<lambda>p. state p = UNUSED) (ptable (ks y)) = Some n" for n
      using that T(1) by (simp_all add: find_first_Some)
    from s(5) have "table_ok (running y) (initproc s) ?np' (ptable s)"
    proof (cases rule: fork_outcome_cases)
      case unchanged
      have "table_ok c ip a t \<Longrightarrow> bound_le a b \<Longrightarrow> table_ok c ip b t" for c ip a b t
        using entry_ok_other [of c ip a t _ t b] bound_le_None [of a b] unfolding table_ok_def by blast
      moreover have "bound_le ?np ?np'" using unchanged(2) by (simp add: pid_bound_def bound_le_def)
      ultimately show ?thesis using unchanged s(4) D(5) by metis
    next
      case (failed n p')
      note n = free [OF failed(1)]
      have en: "parent (ptable (ks y) ! n) = None" "ofile (ptable (ks y) ! n) = replicate NOFILE None"
        using T(2) [OF n(1)] n(2) by (simp_all add: entry_ok_def)
      have le: "bound_le ?np ?np'"
        using failed(2) u32_less_Suc [OF wrap] by (auto simp: pid_bound_def bound_le_def)
      show ?thesis
        using table_ok_unused [OF D(5) n(1) _ _ _ _ le, of p'] failed(3-6) n(2) en s(4) by simp
    next
      case (child n k pd)
      note n = free [OF child(1)]
      have live: "live (ptable (ks y)) i" using ei(1) i T(1) by (simp add: live_def)
      have "?np' = Some (nextpid (ks y) + 1) \<and> ?np = Some (nextpid (ks y)) \<and> nextpid (ks y) \<noteq> -1 \<or> ?np' = None"
        using child(2) wrap by (simp add: pid_bound_def)
      from table_ok_child [OF D(5) n this live, of "forked_child (ptable (ks y) ! i) i (nextpid (ks y)) k pd (ptable (ks y) ! n)"]
      show ?thesis using child(3) s(4) ei(2) by (simp add: forked_child_def)
    qed
    then show ?thesis using fork(1) s D by (auto simp: sys_inv_def)
  next
    case (yield i b s1 s2)
    have i: "i < NPROC" using T(5) [OF yield(2)] .
    have ri: "is_live (state (ptable (ks y) ! i))" using T(2) [OF i] yield(2) by (simp add: entry_ok_def)
    have nr: "state (ptable (ks y) ! j) = RUNNING \<longleftrightarrow> i = j" if "j < NPROC" for j
      using T(2) [OF that] yield(2) by (simp add: entry_ok_def)
    have cur: "cur (ks y) = Some i" using D(3) yield(2) by simp
    obtain s' where s': "yield_out me (ks y) = Some (if_flag (pcpu (ks y)), s')" "pt_lock s' = held me (pt_lock (ks y))"
      "pcpu s' = pushcli (pcpu (ks y))" "initproc s' = initproc (ks y)" "nextpid s' = nextpid (ks y)"
      and "\<exists>pr. ptable s' = (ptable (ks y))[i := (ptable (ks y) ! i)\<lparr>priority := pr, state := RUNNABLE,
        ctx := (ctx (ptable (ks y) ! i))\<lparr>ctx_eip := In_sched\<rparr>\<rparr>]"
      using yield_out_quiet [OF D(1,2) cur len [OF yield(2)], of me] by blast
    moreover have "s' = s1" using s'(1) yield(3) by simp
    ultimately have s: "pt_lock s1 = held me (pt_lock (ks y))" "pcpu s1 = pushcli (pcpu (ks y))"
      "initproc s1 = initproc (ks y)" "nextpid s1 = nextpid (ks y)"
      "\<exists>pr. ptable s1 = (ptable (ks y))[i := (ptable (ks y) ! i)\<lparr>priority := pr, state := RUNNABLE,
        ctx := (ctx (ptable (ks y) ! i))\<lparr>ctx_eip := In_sched\<rparr>\<rparr>]" by blast+
    have "table_ok None (initproc s1) (pid_bound (wrapped y) (nextpid s1)) (ptable s1)"
      unfolding s(3,4)
      by (rule table_ok_live_change [OF D(5)]) (use s(5) ri nr i T(1) in \<open>auto simp: nth_list_update same_core_def split: if_splits\<close>)
    then show ?thesis
      using back_inv [OF s(1,2) _ _ D(2) _ yield(4), where r = "(resumes y)(i := In_yield b)" and y = y] D(1,4) yield(1)
      by (auto simp: quiet_def split: if_splits)
  next
    case (wait i r s)
    have o: "wait_outcome sv i (ks y) (if_flag (pcpu (ks y))) r s" "cur s = cur (ks y)" "initproc s = initproc (ks y)"
      "nextpid s = nextpid (ks y)" "quiet s" "ncli (pcpu s) = 0"
      using wait_start_quiet [OF sv D(1,2) _ len [OF wait(2)], of me] wait(2,3,4) D(3) by auto
    show ?thesis
      using wait_outcome_table [OF _ o(1)] D o wait by (auto simp: sys_inv_def)
  next
    case (wait_sleep i b s1 s2)
    have o: "wait_outcome sv i (ks y) (if_flag (pcpu (ks y))) (Asleep b) s1" "initproc s1 = initproc (ks y)"
      "nextpid s1 = nextpid (ks y)" "pt_lock s1 = held me (pt_lock (ks y))" "pcpu s1 = pushcli (pcpu (ks y))"
      using wait_start_quiet [OF sv D(1,2) _ len [OF wait_sleep(2)], of me] wait_sleep(2,3) D(3) by auto
    have "table_ok None (initproc s1) (pid_bound (wrapped y) (nextpid s1)) (ptable s1)"
      using wait_outcome_table [OF _ o(1)] D(5) wait_sleep(2) o(2,3) by auto
    then show ?thesis
      using back_inv [OF o(4,5) _ _ D(2) _ wait_sleep(4), where r = "(resumes y)(i := In_wait b)" and y = y] D(1,4) wait_sleep(1)
      by (auto simp: quiet_def split: if_splits)
  next
    case (sleep i lk lk1 c ch lk2 b s1 s2)
    have i: "i < NPROC" using T(5) [OF sleep(2)] .
    have ri: "is_live (state (ptable (ks y) ! i))" using T(2) [OF i] sleep(2) by (simp add: entry_ok_def)
    have nr: "state (ptable (ks y) ! j) = RUNNING \<longleftrightarrow> i = j" if "j < NPROC" for j
      using T(2) [OF that] sleep(2) by (simp add: entry_ok_def)
    define c1 where "c1 = pcpu (ks y)"
    have s: "lk2 = lk" "pt_lock s1 = held me (pt_lock (ks y))" "pcpu s1 = pushcli c1" "cpu_ok c1" "ncli c1 = 0"
      "initproc s1 = initproc (ks y)" "nextpid s1 = nextpid (ks y)"
      "ptable s1 = (ptable (ks y))[i := (ptable (ks y) ! i)\<lparr>chan := ch, state := SLEEPING,
        ctx := (ctx (ptable (ks y) ! i))\<lparr>ctx_eip := In_sched\<rparr>\<rparr>]"
      using sleep_out_quiet [OF D(1,2) _ len [OF sleep(2)] sleep(3), of me ch] sleep(2,4,5) D(1-3)
      by (auto simp: c1_def quiet_def)
    have "table_ok None (initproc s1) (pid_bound (wrapped y) (nextpid s1)) (ptable s1)"
      unfolding s(6,7)
      by (rule table_ok_live_change [OF D(5)]) (use s(8) ri nr i T(1) in \<open>auto simp: nth_list_update same_core_def split: if_splits\<close>)
    then show ?thesis
      using back_inv [OF s(2,3) _ s(4,5) _ sleep(6), where r = "(resumes y)(i := In_sleep b lk2)" and y = y] D(1,4) sleep(1,3) s(1)
      by (auto simp: quiet_def split: if_splits)
  next
    case (exit i b s1 s2)
    have i: "i < NPROC" using T(5) [OF exit(2)] .
    have ei: "state (ptable (ks y) ! i) = RUNNING" "length (ofile (ptable (ks y) ! i)) = NOFILE"
      "parent (ptable (ks y) ! i) \<noteq> Some i"
      using T(2) [OF i] exit(2) by (auto simp: entry_ok_def)
    obtain s where s: "pt_lock s1 = held me (pt_lock (ks y))" "pcpu s1 = pushcli (pcpu (ks y))" "initproc s1 = initproc (ks y)"
      "nextpid s1 = nextpid (ks y)" "length (ptable s1) = length (ptable (ks y))"
      "\<forall>j < length (ptable (ks y)). j \<noteq> i \<longrightarrow> ptable s1 ! j = exit_entry i (initproc (ks y)) (ptable (ks y)) j"
      "state (ptable s1 ! i) = ZOMBIE" "ofile (ptable s1 ! i) = replicate (length (ofile (ptable (ks y) ! i))) None"
      "pid (ptable s1 ! i) = pid (ptable (ks y) ! i)" "parent (ptable s1 ! i) = parent (ptable (ks y) ! i)"
      using exit_quiet [OF sv D(1,2) _ len [OF exit(2)] ei(1) exit(3) ei(3), of me] exit(2,4) D(3) by auto
    have "table_ok None (initproc s1) (pid_bound (wrapped y) (nextpid s1)) (ptable s1)"
      unfolding s(3,4)
      by (rule table_ok_exit [OF _ exit(3) s(5)]) (use D(5) exit(2) s T(1) ei(2) in auto)
    then show ?thesis
      using back_inv [OF s(1,2) _ _ D(2) _ exit(5), where r = "resumes y" and y = y] D(1,4) exit(1)
      by (auto simp: quiet_def)
  next
    case (wakeup ch s)
    have "s = leave (pt_lock (ks y)) (pcpu (ks y)) (wakeup1 ch (enter me (ks y)))"
      using wakeup_quiet [OF D(1), of me ch] wakeup(2) by simp
    moreover have "table_ok (running y) (initproc (ks y)) (pid_bound (wrapped y) (nextpid (ks y))) (map (wake ch) (ptable (ks y)))"
      by (rule table_ok_live_change [OF D(5)])
        (use T(1) T(5) run in \<open>auto simp: same_core_wake split: if_splits\<close>)
    ultimately show ?thesis using wakeup(1) D by (auto simp: sys_inv_def quiet_def)
  next
    case (kill p r s)
    from kill_quiet [OF D(1), of me p] kill(2) have
      s: "quiet s" "ncli (pcpu s) = ncli (pcpu (ks y))" "cur s = cur (ks y)" "initproc s = initproc (ks y)" "nextpid s = nextpid (ks y)" and
      t: "ptable s = (case find_first (\<lambda>q. pid q = p) (ptable (ks y)) of None \<Rightarrow> ptable (ks y)
        | Some i \<Rightarrow> (ptable (ks y))[i := (ptable (ks y) ! i)\<lparr>killed := True, state :=
            if state (ptable (ks y) ! i) = SLEEPING then RUNNABLE else state (ptable (ks y) ! i)\<rparr>])" by auto
    have "table_ok (running y) (initproc (ks y)) (pid_bound (wrapped y) (nextpid (ks y))) (ptable s)"
      by (rule table_ok_live_change [OF D(5)])
        (use t T(1) T(5) run in \<open>auto simp: same_core_def nth_update_if split: option.splits if_splits\<close>)
    then show ?thesis using kill s D by (auto simp: sys_inv_def)
  next
    case (setpriority p v r s)
    from setpriority_quiet [OF D(1), of me p v] setpriority(2) have
      s: "quiet s" "ncli (pcpu s) = ncli (pcpu (ks y))" "cur s = cur (ks y)" "initproc s = initproc (ks y)" "nextpid s = nextpid (ks y)" and
      t: "ptable s = (case find_first (\<lambda>q. pid q = p) (ptable (ks y)) of None \<Rightarrow> ptable (ks y)
        | Some i \<Rightarrow> (ptable (ks y))[i := (ptable (ks y) ! i)\<lparr>priority := v\<rparr>])" by auto
    have "table_ok (running y) (initproc (ks y)) (pid_bound (wrapped y) (nextpid (ks y))) (ptable s)"
      by (rule table_ok_live_change [OF D(5)])
        (use t T(1) T(5) run in \<open>auto simp: same_core_def nth_update_if split: option.splits if_splits\<close>)
    then show ?thesis using setpriority s D by (auto simp: sys_inv_def)
  qed
qed

section \<open>The start, and reachable states\<close>

definition zero_proc :: proc where
  "zero_proc = \<lparr>sz = 0, pgdir = 0, kstack = 0, state = UNUSED, pid = 0, parent = None, tf = zero_trapframe,
     ret_address = Forkret, ctx = zero_context Forkret, chan = NoChan, killed = False, ofile = replicate NOFILE None,
     cwd = None, name = [], priority = 0\<rparr>"

text \<open>The data of \<open>proc.c\<close> as the kernel is loaded, on a processor with interrupts off.\<close>

definition boot_kstate :: "'e \<Rightarrow> 'e kstate" where
  "boot_kstate e = \<lparr>ptable = replicate NPROC zero_proc, pt_lock = initlock [], initproc = None, nextpid = 1,
     first_forkret = True, pcpu = \<lparr>ncli = 0, intena = False, if_flag = False\<rparr>, cur = None, env = e\<rparr>"

definition sys_start :: "'e services \<Rightarrow> nat \<Rightarrow> 'e system \<Rightarrow> bool" where
  "sys_start sv me y \<longleftrightarrow> running y = None \<and> \<not> wrapped y \<and> resumes y = (\<lambda>i. In_yield False) \<and>
     (\<exists>e s. userinit sv me (pinit (boot_kstate e)) = Some s \<and> ks y = scheduler_start s)"

lemma same_core_age: "same_core p (age p)"
  by (simp add: same_core_def age_def)

lemma boot_table: "find_first (\<lambda>p. state p = UNUSED) (replicate NPROC zero_proc) = Some 0"
  by (simp add: NPROC_def zero_proc_def numeral_eq_Suc)

lemma userinit_inv:
  assumes "userinit sv me (pinit (boot_kstate e)) = Some s"
  shows "quiet s \<and> ncli (pcpu s) = 0 \<and> cur s = None \<and> table_ok None (initproc s) (pid_bound False (nextpid s)) (ptable s)"
proof -
  let ?s = "pinit (boot_kstate e)"
  have q: "quiet ?s" by (simp add: quiet_def pinit_def boot_kstate_def lock_free_def initlock_def cpu_ok_def)
  have f: "find_first (\<lambda>p. state p = UNUSED) (ptable ?s) = Some 0"
    using boot_table by (simp add: pinit_def boot_kstate_def)
  obtain k e1 where k: "sv_kalloc sv (env ?s) = (k, e1)" by force
  have k0: "k \<noteq> 0"
    using assms allocproc_quiet [OF q, of sv me] f k by (auto simp: userinit_def)
  obtain s1 where a: "allocproc sv me ?s = Some (Some 0, s1)" "quiet s1" "pcpu s1 = popped (pcpu ?s)" "cur s1 = None"
    "nextpid s1 = 2" "ptable s1 = (ptable ?s)[0 := (ptable ?s ! 0)\<lparr>state := EMBRYO, pid := 1, priority := 10, kstack := k,
        ret_address := Trapret, ctx := zero_context Forkret\<rparr>]"
    using allocproc_quiet [OF q, of sv me] f k k0 by (auto simp: pinit_def boot_kstate_def)
  have n: "ncli (pcpu s1) = 0" using a(3) by (simp add: pinit_def boot_kstate_def)
  let ?s1 = "s1\<lparr>initproc := Some 0\<rparr>"
  obtain pd e2 where pd: "sv_setupkvm sv (env s1) = (pd, e2)" by force
  with assms a(1) have "pd \<noteq> 0" by (auto simp: userinit_def)
  moreover obtain e3 where e3: "sv_inituvm sv pd e2 = Some e3"
    using assms a(1) pd by (auto simp: userinit_def Let_def bind_eq_Some_conv split: if_splits)
  moreover obtain cw e4 where "sv_namei sv ''/'' e3 = (cw, e4)" by force
  moreover define s2 where "s2 = upd 0 (\<lambda>p. p\<lparr>cwd := cw\<rparr>) ((upd 0 (\<lambda>p. p\<lparr>sz := PGSIZE, tf := user_trapframe,
    name := proc_name (bytes ''initcode'')\<rparr>) ((upd 0 (\<lambda>p. p\<lparr>pgdir := pd\<rparr>) (?s1\<lparr>env := e2\<rparr>))\<lparr>env := e3\<rparr>))\<lparr>env := e4\<rparr>)"
  moreover have "quiet s2" using a(2) by (simp add: s2_def quiet_def)
  ultimately have "userinit sv me ?s = unlock_ptable me (upd 0 (\<lambda>p. p\<lparr>state := RUNNABLE\<rparr>) (enter me s2))"
    using a(1) pd lock_ptable_quiet [of s2 me] by (simp add: userinit_def)
  also have "\<dots> = Some (leave (pt_lock s2) (pcpu s2) (upd 0 (\<lambda>p. p\<lparr>state := RUNNABLE\<rparr>) (enter me s2)))"
    using \<open>quiet s2\<close> by (simp add: unlock_ptable_held quiet_def)
  finally have s_eq: "s = leave (pt_lock s2) (pcpu s2) (upd 0 (\<lambda>p. p\<lparr>state := RUNNABLE\<rparr>) (enter me s2))"
    using assms by simp
  have len: "0 < length (ptable s1)" using a(6) by (simp add: pinit_def boot_kstate_def NPROC_def)
  have s: "quiet s" "ncli (pcpu s) = 0" "cur s = None" "initproc s = Some 0" "nextpid s = 2"
    using \<open>quiet s2\<close> n a by (simp_all add: s_eq s2_def quiet_def)
  have s6: "ptable s = (ptable s1)[0 := (ptable s1 ! 0)\<lparr>pgdir := pd, sz := PGSIZE, tf := user_trapframe,
      name := proc_name (bytes ''initcode''), cwd := cw, state := RUNNABLE\<rparr>]"
    using len by (simp add: s_eq s2_def)
  obtain p where p: "ptable s = (replicate NPROC zero_proc)[0 := p]" "state p = RUNNABLE" "pid p = 1" "parent p = None"
    "ofile p = replicate NOFILE None"
    using s6 len by (simp add: a(6) pinit_def boot_kstate_def zero_proc_def)
  have entry: "ptable s ! j = (if j = 0 then p else zero_proc)" if "j < NPROC" for j
    using that p(1) by (auto simp: nth_list_update NPROC_def)
  have lens: "length (ptable s) = NPROC" and unused: "state zero_proc = UNUSED"
    using p(1) by (simp_all add: zero_proc_def)
  have "table_ok None (Some 0) (Some 2) (ptable s)"
    unfolding table_ok_def
  proof (intro conjI allI impI)
    show "length (ptable s) = NPROC" by (rule lens)
    show "entry_ok None (Some 0) (Some 2) (ptable s) i" if "i < NPROC" for i
      using entry [OF that] p(2-5) by (cases "i = 0") (auto simp: entry_ok_def zero_proc_def)
    show "unique_pids (ptable s)"
      using entry unused lens unfolding unique_pids_def by metis
    have "(0 :: nat) < NPROC" by (simp add: NPROC_def)
    then show "\<exists>k. Some 0 = Some k \<and> live (ptable s) k \<and> parent (ptable s ! k) = None"
      using entry [of 0] p(2,4) lens by (auto simp: live_def)
  qed simp
  with s show ?thesis by (simp add: pid_bound_def)
qed

lemma sys_start_inv: "sys_start sv me y \<Longrightarrow> sys_inv y"
proof -
  assume "sys_start sv me y"
  then obtain e s where y: "running y = None" "\<not> wrapped y" "resumes y = (\<lambda>i. In_yield False)" "ks y = scheduler_start s"
    and u: "userinit sv me (pinit (boot_kstate e)) = Some s" by (auto simp: sys_start_def)
  note s = userinit_inv [OF u]
  then have ok: "table_ok None (initproc s) (pid_bound False (nextpid s)) (ptable s)" by simp
  have "table_ok None (initproc s) (pid_bound False (nextpid s)) (map age (ptable s))"
    by (rule table_ok_live_change [OF ok])
      (use table_okD(1,2) [OF ok] in \<open>auto simp: same_core_def entry_ok_def age_def\<close>)
  with s y show ?thesis by (auto simp: sys_inv_def scheduler_start_def quiet_def resumes_ok_def)
qed

interpretation proc_system: transition_invariant "\<lambda>y. services_ok sv \<and> sys_start sv me y" "sys_step sv me"
  "\<lambda>y. services_ok sv \<longrightarrow> sys_inv y" for sv me
  by unfold_locales (auto intro: sys_start_inv sys_step_inv)

text \<open>No operation panics: whatever is called in the state returns, and whoever gives up the processor gets it
  to the scheduler. A chosen process is resumed where it was, from \<open>sleep\<close> with a lock that is free again; the
  running one may call any operation, and \<open>exit\<close> panics only for init. \<open>growproc\<close> returns when the two functions
  of \<open>vm.c\<close> it calls do.\<close>

definition resumes_safely :: "'e services \<Rightarrow> nat \<Rightarrow> nat \<Rightarrow> 'e kstate \<Rightarrow> bool" where
  "resumes_safely sv me i s \<longleftrightarrow> forkret sv me s \<noteq> None \<and> (\<forall>b. yield_in me b s \<noteq> None) \<and>
     (\<forall>b. \<exists>r s2. wait_resumed sv me i b s = Some (r, s2) \<and> ((\<exists>b. r = Asleep b) \<longrightarrow> scheduler_back sv me s2 \<noteq> None)) \<and>
     (\<forall>b lk. lock_free lk \<longrightarrow> (\<exists>lk' s2. sleep_in me i (Some lk) b s = Some (Some lk', s2) \<and> release me lk' (pcpu s2) \<noteq> None))"

definition runs_safely :: "'e services \<Rightarrow> nat \<Rightarrow> nat \<Rightarrow> 'e kstate \<Rightarrow> bool" where
  "runs_safely sv me i s \<longleftrightarrow> fork sv me s \<noteq> None \<and>
     (\<exists>b s1. yield_out me s = Some (b, s1) \<and> scheduler_back sv me s1 \<noteq> None) \<and>
     (\<exists>r s1. wait_start sv me s = Some (r, s1) \<and> ((\<exists>b. r = Asleep b) \<longrightarrow> scheduler_back sv me s1 \<noteq> None)) \<and>
     (\<forall>ch lk. lock_free lk \<longrightarrow> (\<exists>lk1 c lk2 b s1. acquire me lk (pcpu s) = Some (lk1, c) \<and>
        sleep_out me ch (Some lk1) (s\<lparr>pcpu := c\<rparr>) = Some (Some lk2, b, s1) \<and> scheduler_back sv me s1 \<noteq> None)) \<and>
     (if initproc s = Some i then exit sv me s = None
      else \<exists>b s1. exit sv me s = Some (b, s1) \<and> scheduler_back sv me s1 \<noteq> None) \<and>
     ((\<forall>a b c e. sv_allocuvm sv a b c e \<noteq> None \<and> sv_deallocuvm sv a b c e \<noteq> None) \<longrightarrow> (\<forall>n. growproc sv n s \<noteq> None))"

definition no_panic :: "'e services \<Rightarrow> nat \<Rightarrow> 'e system \<Rightarrow> bool" where
  "no_panic sv me y \<longleftrightarrow>
     (running y = None \<longrightarrow> (\<exists>c s. scheduler_out sv me (ks y) = Some (c, s) \<and> (\<forall>i. c = Some i \<longrightarrow> resumes_safely sv me i s))) \<and>
     (\<forall>i. running y = Some i \<longrightarrow> runs_safely sv me i (ks y)) \<and>
     (\<forall>ch. wakeup me ch (ks y) \<noteq> None) \<and> (\<forall>p. kill me p (ks y) \<noteq> None) \<and>
     (\<forall>p v. setpriority me p v (ks y) \<noteq> None)"

lemma back_returns:
  assumes "pt_lock s = held me lk" "pcpu s = pushcli c" "lock_free lk" "cpu_ok c" "ncli c = 0"
  shows "scheduler_back sv me s \<noteq> None"
  using scheduler_back_held [OF assms, of sv] by auto

lemma switched_resumes:
  assumes sv: "services_ok sv" and sw: "switched me lk i w s"
  shows "resumes_safely sv me i s"
proof -
  obtain c where h: "pt_lock s = held me lk" "pcpu s = pushcli c" "lock_free lk" "cpu_ok c" "ncli c = 0" "cur s = Some i"
    using sw by (auto simp: switched_def)
  have "table_ok (Some i) (initproc s) (pid_bound w (nextpid s)) (ptable s)" using sw by (simp add: switched_def)
  then have len: "i < length (ptable s)" using table_okD(1,5) by metis
  have "\<exists>r s2. wait_resumed sv me i b s = Some (r, s2) \<and> ((\<exists>b. r = Asleep b) \<longrightarrow> scheduler_back sv me s2 \<noteq> None)" for b
  proof -
    obtain r s2 where r: "wait_resumed sv me i b s = Some (r, s2)"
      "(\<exists>b. r = Asleep b) \<longrightarrow> pt_lock s2 = held me lk \<and> pcpu s2 = pushcli (cpu_at b c)"
      using wait_resumed_held [OF sv h len, of b] by (auto split: if_splits)
    then show ?thesis using back_returns [of s2 me lk "cpu_at b c" sv] h(3,5) cpu_at_ok [OF h(5), of b] by auto
  qed
  moreover have "\<exists>l' s2. sleep_in me i (Some l) b s = Some (Some l', s2) \<and> release me l' (pcpu s2) \<noteq> None"
    if l: "lock_free l" for b l
  proof -
    let ?c = "popped (cpu_at b c)"
    have c0: "cpu_ok ?c" using cpu_at_ok [OF h(5), of b] by simp
    have u: "unlock_ptable me (upd i (\<lambda>p. p\<lparr>chan := NoChan\<rparr>) (s\<lparr>pcpu := pushcli (cpu_at b c)\<rparr>)) =
        Some (leave lk (cpu_at b c) (upd i (\<lambda>p. p\<lparr>chan := NoChan\<rparr>) (s\<lparr>pcpu := pushcli (cpu_at b c)\<rparr>)))"
      by (rule unlock_ptable_held) (use h cpu_at_ok [OF h(5), of b] in simp_all)
    have "\<exists>s2. sleep_in me i (Some l) b s = Some (Some (l\<lparr>locked := 1, lk_cpu := Some me\<rparr>), s2) \<and> pcpu s2 = pushcli ?c"
      using u acquire_free [OF l c0, of me] sched_in_any [OF h(2,5,4), of b] by (simp add: sleep_in_def)
    then show ?thesis using release_acquire [OF l c0, of me] by fastforce
  qed
  ultimately show ?thesis
    using h by (simp add: resumes_safely_def forkret_def unlock_ptable_held yield_in_held)
qed

lemma running_safe:
  assumes sv: "services_ok sv" and inv: "sys_inv y" and r: "running y = Some i"
  shows "runs_safely sv me i (ks y)"
proof -
  note D = sys_invD [OF inv]
  note T = table_okD [OF D(5)]
  have i: "i < NPROC" using T(5) [OF r] .
  have len: "i < length (ptable (ks y))" using T(1) i by simp
  have ei: "state (ptable (ks y) ! i) = RUNNING" "length (ofile (ptable (ks y) ! i)) = NOFILE"
    "parent (ptable (ks y) ! i) \<noteq> Some i" using T(2) [OF i] r by (auto simp: entry_ok_def)
  have cur: "cur (ks y) = Some i" using D(3) r by simp
  have fresh: "ofile p = replicate NOFILE None" if p: "p \<in> set (ptable (ks y))" "state p = UNUSED" for p
  proof -
    obtain k where "k < NPROC" "p = ptable (ks y) ! k" using p(1) T(1) by (auto simp: in_set_conv_nth)
    then show ?thesis using T(2) [of k] p(2) by (simp add: entry_ok_def)
  qed
  have q: "lock_free (pt_lock (ks y))" "cpu_ok (pcpu (ks y))" using D(1) by (simp_all add: quiet_def)
  note bk = back_returns [OF _ _ q D(2)]
  have ne: "state (ptable (ks y) ! i) \<noteq> UNUSED" using ei(1) by simp
  obtain r' s' where "fork sv me (ks y) = Some (r', s')" using fork_quiet [OF sv D(1) cur len ne ei(2) fresh, of me] by blast
  then have 1: "fork sv me (ks y) \<noteq> None" by simp
  have 2: "\<exists>b s1. yield_out me (ks y) = Some (b, s1) \<and> scheduler_back sv me s1 \<noteq> None"
    using yield_out_quiet [OF D(1,2) cur len, of me] bk by blast
  have 3: "\<exists>r s1. wait_start sv me (ks y) = Some (r, s1) \<and> ((\<exists>b. r = Asleep b) \<longrightarrow> scheduler_back sv me s1 \<noteq> None)"
  proof -
    obtain r s1 where "wait_start sv me (ks y) = Some (r, s1)"
      "if \<exists>b. r = Asleep b then pt_lock s1 = held me (pt_lock (ks y)) \<and> pcpu s1 = pushcli (pcpu (ks y)) else quiet s1 \<and> ncli (pcpu s1) = 0"
      using wait_start_quiet [OF sv D(1,2) cur len, of me] by blast
    then show ?thesis using bk by auto
  qed
  have 4: "\<exists>lk1 c lk2 b s1. acquire me lk (pcpu (ks y)) = Some (lk1, c) \<and>
      sleep_out me ch (Some lk1) ((ks y)\<lparr>pcpu := c\<rparr>) = Some (Some lk2, b, s1) \<and> scheduler_back sv me s1 \<noteq> None"
    if "lock_free lk" for ch lk using sleep_out_quiet [OF D(1,2) cur len that, of me ch] bk by blast
  have 5: "if initproc (ks y) = Some i then exit sv me (ks y) = None
      else \<exists>b s1. exit sv me (ks y) = Some (b, s1) \<and> scheduler_back sv me s1 \<noteq> None"
  proof (cases "initproc (ks y) = Some i")
    case True
    then show ?thesis using myproc_quiet [OF q(2)] cur by (simp add: exit_def)
  next
    case False
    then show ?thesis using exit_quiet [OF sv D(1,2) cur len ei(1) False ei(3), of me] bk
      by (simp only: if_False) blast
  qed
  have 6: "growproc sv n (ks y) \<noteq> None"
    if "\<forall>a b c e. sv_allocuvm sv a b c e \<noteq> None \<and> sv_deallocuvm sv a b c e \<noteq> None" for n
    by (rule growproc_returns [OF sv D(1) cur]) (use that in blast)+
  show ?thesis unfolding runs_safely_def using 1 2 3 4 5 6 by blast
qed

lemma sys_inv_no_panic:
  assumes sv: "services_ok sv" and inv: "sys_inv y"
  shows "no_panic sv me y"
proof -
  note D = sys_invD [OF inv]
  have sw: "\<And>p e. sv_switchuvm sv p e \<noteq> None" using services_okD(4) [OF sv] by fastforce
  have "\<exists>c s. scheduler_out sv me (ks y) = Some (c, s) \<and> (\<forall>i. c = Some i \<longrightarrow> resumes_safely sv me i s)" if r: "running y = None"
  proof -
    obtain c s where c: "scheduler_out sv me (ks y) = Some (c, s)"
      using scheduler_out_quiet [OF D(1,2) sw, of me] by (auto split: option.splits)
    then show ?thesis using pick_switch [OF sv inv r] switched_resumes [OF sv] by blast
  qed
  then show ?thesis
    unfolding no_panic_def
    using running_safe [OF sv inv] wakeup_quiet [OF D(1), of me] kill_quiet [OF D(1), of me] setpriority_quiet [OF D(1), of me]
    by fastforce
qed

end
