(* ===== verification/Scheduling.thy ===== *)
theory Scheduling
  imports ProcSystem
begin

text \<open>
  The two schedulers of the repository. \<open>xv6-add_FAIRNESS/proc.c\<close> picks the runnable process with the
  smallest priority number (\<open>pick\<close> in \<open>Proc\<close>); \<open>xv6-funciona_sem_metrica/proc.c\<close> keeps the round
  robin of xv6, modelled here. The properties of \<open>proc.c\<close> follow: the choice of the scheduler, what it
  means for processes that only yield, the functional behaviour of the operations, and the invariant
  and absence of panics of the whole subsystem.
\<close>

section \<open>Round robin (xv6-funciona\_sem\_metrica)\<close>

text \<open>
  One pass of the inner loop of \<open>scheduler\<close> with the lock held. \<open>runs i s\<close> is what happens between the
  switch to process \<open>i\<close> and its switch back, which ends with the lock held again. The result also
  records the processes that were run, in order.
\<close>

definition rr_dispatch ::
  "'e services \<Rightarrow> (nat \<Rightarrow> 'e kstate \<Rightarrow> 'e kstate option) \<Rightarrow> nat \<Rightarrow> 'e kstate \<Rightarrow> 'e kstate option" where
  "rr_dispatch sv runs i s = do {
     let s = s\<lparr>cur := Some i\<rparr>;
     e \<leftarrow> sv_switchuvm sv (ptable s ! i) (env s);
     let s = upd i (\<lambda>p. p\<lparr>state := RUNNING\<rparr>) (s\<lparr>env := e\<rparr>);
     s \<leftarrow> runs i s;
     Some (s\<lparr>env := sv_switchkvm sv (env s), cur := None\<rparr>)
   }"

fun rr_scan ::
  "'e services \<Rightarrow> (nat \<Rightarrow> 'e kstate \<Rightarrow> 'e kstate option) \<Rightarrow> nat list \<Rightarrow> 'e kstate \<Rightarrow> (nat list \<times> 'e kstate) option" where
  "rr_scan sv runs [] s = Some ([], s)"
| "rr_scan sv runs (i # is) s =
     (if state (ptable s ! i) \<noteq> RUNNABLE then rr_scan sv runs is s
      else do {
        s \<leftarrow> rr_dispatch sv runs i s;
        (chosen, s) \<leftarrow> rr_scan sv runs is s;
        Some (i # chosen, s)
      })"

definition rr_pass ::
  "'e services \<Rightarrow> (nat \<Rightarrow> 'e kstate \<Rightarrow> 'e kstate option) \<Rightarrow> nat \<Rightarrow> 'e kstate \<Rightarrow> (nat list \<times> 'e kstate) option" where
  "rr_pass sv runs me s = do {
     let s = s\<lparr>pcpu := (pcpu s)\<lparr>if_flag := True\<rparr>\<rparr>;
     s \<leftarrow> lock_ptable me s;
     (chosen, s) \<leftarrow> rr_scan sv runs [0..<NPROC] s;
     s \<leftarrow> unlock_ptable me s;
     Some (chosen, s)
   }"

definition rr_yield_out :: "nat \<Rightarrow> 'e kstate \<Rightarrow> (bool \<times> 'e kstate) option" where
  "rr_yield_out me s = do {
     s \<leftarrow> lock_ptable me s;
     (p, s) \<leftarrow> myproc s;
     i \<leftarrow> p;
     sched_out me (upd i (\<lambda>p. p\<lparr>state := RUNNABLE\<rparr>) s)
   }"

text \<open>Running a process does not make another runnable process wait: only the process itself leaves
  the runnable states.\<close>

definition keeps_others_runnable :: "(nat \<Rightarrow> 'e kstate \<Rightarrow> 'e kstate option) \<Rightarrow> bool" where
  "keeps_others_runnable runs \<longleftrightarrow>
     (\<forall>i s s'. runs i s = Some s' \<longrightarrow> length (ptable s') = length (ptable s) \<and>
       (\<forall>j < length (ptable s). j \<noteq> i \<longrightarrow> state (ptable s ! j) = RUNNABLE \<longrightarrow> state (ptable s' ! j) = RUNNABLE))"

lemma rr_dispatch_others:
  assumes "keeps_others_runnable runs" "rr_dispatch sv runs i s = Some s'"
  shows "length (ptable s') = length (ptable s) \<and>
    (\<forall>j < length (ptable s). j \<noteq> i \<longrightarrow> state (ptable s ! j) = RUNNABLE \<longrightarrow> state (ptable s' ! j) = RUNNABLE)"
proof -
  obtain e s1 where e: "sv_switchuvm sv (ptable s ! i) (env s) = Some e"
    and r: "runs i (upd i (\<lambda>p. p\<lparr>state := RUNNING\<rparr>) (s\<lparr>cur := Some i, env := e\<rparr>)) = Some s1"
    and s': "ptable s' = ptable s1"
    using assms(2) by (auto simp: rr_dispatch_def Let_def bind_eq_Some_conv)
  with assms(1) [unfolded keeps_others_runnable_def, rule_format, OF r] show ?thesis by simp
qed

lemma rr_scan_runs:
  assumes "keeps_others_runnable runs" "rr_scan sv runs is s = Some (chosen, s')" "distinct is"
    and "set is \<subseteq> {..<length (ptable s)}"
  shows "set chosen \<subseteq> set is \<and> distinct chosen \<and> (\<forall>j \<in> set is. state (ptable s ! j) = RUNNABLE \<longrightarrow> j \<in> set chosen)"
  using assms(2-)
proof (induction "is" arbitrary: s chosen)
  case Nil
  then show ?case by simp
next
  case (Cons i "is")
  show ?case
  proof (cases "state (ptable s ! i) = RUNNABLE")
    case False
    then show ?thesis using Cons.IH [of s chosen] Cons.prems by auto
  next
    case True
    then obtain s1 chosen' where d: "rr_dispatch sv runs i s = Some s1" and r: "rr_scan sv runs is s1 = Some (chosen', s')"
      and chosen: "chosen = i # chosen'" using Cons.prems(1) by (auto simp: bind_eq_Some_conv)
    note o = rr_dispatch_others [OF assms(1) d]
    have "set chosen' \<subseteq> set is \<and> distinct chosen' \<and> (\<forall>j \<in> set is. state (ptable s1 ! j) = RUNNABLE \<longrightarrow> j \<in> set chosen')"
      by (rule Cons.IH [OF r]) (use Cons.prems o in auto)
    moreover have "state (ptable s1 ! j) = RUNNABLE" if "j \<in> set is" "state (ptable s ! j) = RUNNABLE" for j
      using o that Cons.prems(2,3) by auto
    ultimately show ?thesis using chosen Cons.prems(2) by auto
  qed
qed

section \<open>Rounds in which the chosen process only yields\<close>

text \<open>\<open>n\<close> rounds of the priority scheduler in which the chosen process, resumed in \<open>yield\<close>, calls
  \<open>yield\<close> again; the result lists the choices.\<close>

fun yield_rounds :: "'e services \<Rightarrow> nat \<Rightarrow> nat \<Rightarrow> 'e kstate \<Rightarrow> (nat list \<times> 'e kstate) option" where
  "yield_rounds sv me 0 s = Some ([], s)"
| "yield_rounds sv me (Suc n) s = do {
     (p, s) \<leftarrow> scheduler_out sv me s;
     i \<leftarrow> p;
     s \<leftarrow> yield_in me True s;
     (b, s) \<leftarrow> yield_out me s;
     s \<leftarrow> scheduler_back sv me s;
     (is, s) \<leftarrow> yield_rounds sv me n s;
     Some (i # is, s)
   }"

lemma yield_round:
  assumes sv: "services_ok sv" and q: "quiet s" "ncli (pcpu s) = 0" and p: "pick (ptable s) = Some i"
  shows "\<exists>s1 s2 b s3 s4. scheduler_out sv me s = Some (Some i, s1) \<and> yield_in me True s1 = Some s2 \<and>
    yield_out me s2 = Some (b, s3) \<and> scheduler_back sv me s3 = Some s4 \<and>
    quiet s4 \<and> ncli (pcpu s4) = 0 \<and> pick (ptable s4) = Some i \<and> length (ptable s4) = length (ptable s) \<and>
    (\<forall>j. j \<noteq> i \<longrightarrow> ptable s4 ! j = ptable s ! j)"
proof -
  have best: "i < length (ptable s)" "state (ptable s ! i) = RUNNABLE"
    "\<And>j. j < length (ptable s) \<Longrightarrow> state (ptable s ! j) = RUNNABLE \<Longrightarrow>
      priority (ptable s ! i) \<le> priority (ptable s ! j) \<and> (j < i \<longrightarrow> priority (ptable s ! i) < priority (ptable s ! j))"
    using pick_spec [of "ptable s"] p by (simp_all add: best_below_def)
  have sw: "\<And>p e. sv_switchuvm sv p e \<noteq> None" using services_okD(4) [OF sv] by fastforce
  obtain s1 c where s1: "scheduler_out sv me s = Some (Some i, s1)"
    "ptable s1 = (ptable s)[i := (ptable s ! i)\<lparr>state := RUNNING\<rparr>]" "cur s1 = Some i"
    "pt_lock s1 = held me (pt_lock s)" "pcpu s1 = pushcli c" "cpu_ok c" "ncli c = 0"
    using scheduler_out_quiet [OF q sw, of me] p by auto
  have lf: "lock_free (pt_lock s)" using q(1) by (simp add: quiet_def)
  let ?s2 = "leave (pt_lock s) (cpu_at True c) s1"
  have s2: "yield_in me True s1 = Some ?s2" by (rule yield_in_held [OF s1(4,5) lf s1(6,7)])
  have q2: "quiet ?s2" "ncli (pcpu ?s2) = 0" "cur ?s2 = Some i" "i < length (ptable ?s2)"
    using lf s1 best(1) cpu_at_ok [of c True] by (simp_all add: quiet_def)
  obtain s3 where s3: "yield_out me ?s2 = Some (if_flag (pcpu ?s2), s3)" "pt_lock s3 = held me (pt_lock ?s2)"
    "pcpu s3 = pushcli (pcpu ?s2)"
    "ptable s3 = (ptable ?s2)[i := (ptable ?s2 ! i)\<lparr>
      priority := if 0 < priority (ptable ?s2 ! i) then priority (ptable ?s2 ! i) - 1 else priority (ptable ?s2 ! i),
      state := RUNNABLE, ctx := (ctx (ptable ?s2 ! i))\<lparr>ctx_eip := In_sched\<rparr>\<rparr>]"
    using yield_out_quiet [OF q2, of me] by blast
  have ok2: "lock_free (pt_lock ?s2)" "cpu_ok (pcpu ?s2)" using q2(1) by (simp_all add: quiet_def)
  obtain s4 where s4: "scheduler_back sv me s3 = Some s4" "quiet s4" "ncli (pcpu s4) = 0" "ptable s4 = ptable s3"
    using scheduler_back_held [OF s3(2,3) ok2 q2(2), of sv] by blast
  have len: "length (ptable s4) = length (ptable s)" using s4(4) s3(4) s1(2) by simp
  have i4: "state (ptable s4 ! i) = RUNNABLE" "priority (ptable s4 ! i) \<le> priority (ptable s ! i)"
    using s4(4) s3(4) s1(2) best(1) by simp_all
  have other: "ptable s4 ! j = ptable s ! j" if "j \<noteq> i" for j
    using that s4(4) s3(4) s1(2) by simp
  have "pick (ptable s4) = Some i"
  proof (rule pick_eqI)
    show "i < length (ptable s4)" using best(1) len by simp
    fix j assume j: "j < length (ptable s4)" "state (ptable s4 ! j) = RUNNABLE"
    show "priority (ptable s4 ! i) \<le> priority (ptable s4 ! j) \<and>
        (j < i \<longrightarrow> priority (ptable s4 ! i) < priority (ptable s4 ! j))"
    proof (cases "j = i")
      case False
      then show ?thesis using best(3) [of j] i4(2) other [of j] j len by fastforce
    qed simp
  qed (rule i4(1))
  with s1(1) s2 s3(1) s4 len other show ?thesis by blast
qed

lemma yield_rounds_same:
  assumes sv: "services_ok sv" and "quiet s" "ncli (pcpu s) = 0" "pick (ptable s) = Some i"
  shows "\<exists>s'. yield_rounds sv me n s = Some (replicate n i, s') \<and> (\<forall>j. j \<noteq> i \<longrightarrow> ptable s' ! j = ptable s ! j)"
  using assms(2-)
proof (induction n arbitrary: s)
  case 0
  then show ?case by simp
next
  case (Suc n)
  from yield_round [OF sv Suc.prems, of me] obtain s1 s2 b s3 s4 where
    r: "scheduler_out sv me s = Some (Some i, s1)" "yield_in me True s1 = Some s2" "yield_out me s2 = Some (b, s3)"
      "scheduler_back sv me s3 = Some s4" "quiet s4" "ncli (pcpu s4) = 0" "pick (ptable s4) = Some i"
      "\<forall>j. j \<noteq> i \<longrightarrow> ptable s4 ! j = ptable s ! j" by blast
  from Suc.IH [OF r(5,6,7)] obtain s' where "yield_rounds sv me n s4 = Some (replicate n i, s')"
    "\<forall>j. j \<noteq> i \<longrightarrow> ptable s' ! j = ptable s4 ! j" by blast
  with r show ?case by auto
qed

section \<open>Example services and states\<close>

text \<open>Services that always succeed, for the witnesses.\<close>

definition plain_services :: "unit services" where
  "plain_services = \<lparr>sv_kalloc = (\<lambda>e. (4096, e)), sv_kfree = (\<lambda>a e. Some e), sv_setupkvm = (\<lambda>e. (8192, e)),
     sv_inituvm = (\<lambda>p e. Some e), sv_allocuvm = (\<lambda>p a b e. Some (b, e)), sv_deallocuvm = (\<lambda>p a b e. Some (b, e)),
     sv_copyuvm = (\<lambda>p n e. Some (12288, e)), sv_freevm = (\<lambda>p e. Some e), sv_switchuvm = (\<lambda>p e. Some e),
     sv_switchkvm = (\<lambda>e. e), sv_filedup = (\<lambda>f e. Some e), sv_fileclose = (\<lambda>f e. Some e), sv_idup = (\<lambda>i e. Some e),
     sv_iput = (\<lambda>i e. Some e), sv_namei = (\<lambda>s e. (Some 0, e)), sv_begin_op = (\<lambda>e. e), sv_end_op = (\<lambda>e. e),
     sv_iinit = (\<lambda>e. e), sv_initlog = (\<lambda>e. e)\<rparr>"

lemma plain_services_ok: "services_ok plain_services"
  by (simp add: services_ok_def plain_services_def)

text \<open>A state with the given table on a processor that runs the given process.\<close>

definition example_state :: "proc list \<Rightarrow> nat option \<Rightarrow> unit kstate" where
  "example_state t c = (boot_kstate ())\<lparr>ptable := t, cur := c, initproc := Some 0, nextpid := 7\<rparr>"

definition example_proc :: "procstate \<Rightarrow> u32 \<Rightarrow> nat option \<Rightarrow> int \<Rightarrow> proc" where
  "example_proc st p pa pr = zero_proc\<lparr>state := st, pid := p, parent := pa, priority := pr\<rparr>"

lemma example_simps [simp]:
  "quiet (example_state t c)" "ncli (pcpu (example_state t c)) = 0" "cur (example_state t c) = c"
  "ptable (example_state t c) = t" "initproc (example_state t c) = Some 0" "nextpid (example_state t c) = 7"
  "state (example_proc st p pa pr) = st" "pid (example_proc st p pa pr) = p" "parent (example_proc st p pa pr) = pa"
  "priority (example_proc st p pa pr) = pr" "ofile (example_proc st p pa pr) = replicate NOFILE None"
  "chan (example_proc st p pa pr) = NoChan" "killed (example_proc st p pa pr) = False"
  by (simp_all add: example_state_def example_proc_def zero_proc_def boot_kstate_def quiet_def lock_free_def
      initlock_def cpu_ok_def)

section \<open>Properties\<close>

text \<open>C26: on one processor, in every state that the process subsystem reaches from \<open>userinit\<close>, by any sequence of
  scheduler rounds, \<open>fork\<close>, \<open>exit\<close>, \<open>wait\<close>, \<open>sleep\<close>, \<open>wakeup\<close>, \<open>yield\<close>, \<open>kill\<close>, \<open>growproc\<close>, \<open>setpriority\<close> and
  changes of the files and the memory of the running process, the table is well formed (the processor's process is
  the only running one, every process but init has a live parent, free slots and zombies hold no files, and until
  \<open>nextpid\<close> has wrapped the pids of used slots are distinct and below it), the table lock is free between
  operations, and no check in these functions panics: each of them returns, and resumes its process, except
  \<open>exit\<close> called by init.\<close>

theorem process_system_safe:
  assumes "services_ok sv" and "sys_start sv me y0" and "(sys_step sv me)\<^sup>*\<^sup>* y0 y"
  shows "table_ok (running y) (initproc (ks y)) (if wrapped y then None else Some (nextpid (ks y))) (ptable (ks y)) \<and>
    quiet (ks y) \<and> cur (ks y) = running y \<and> no_panic sv me y"
proof -
  have inv: "sys_inv y" using proc_system.reachable_inv [OF conjI [OF assms(1,2)] assms(3)] assms(1) by blast
  show ?thesis using sys_invD(1,3,5) [OF inv] sys_inv_no_panic [OF assms(1) inv, of me] unfolding pid_bound_def by blast
qed

lemma plain_userinit: "\<exists>s. userinit plain_services 0 (pinit (boot_kstate ())) = Some s"
proof -
  let ?s = "pinit (boot_kstate ())"
  have q: "quiet ?s" by (simp add: quiet_def pinit_def boot_kstate_def lock_free_def initlock_def cpu_ok_def)
  have f: "find_first (\<lambda>p. state p = UNUSED) (ptable ?s) = Some 0"
    using boot_table by (simp add: pinit_def boot_kstate_def)
  obtain s1 where s1: "allocproc plain_services 0 ?s = Some (Some 0, s1)" "quiet s1"
    using allocproc_quiet [OF q, of plain_services 0] f by (auto simp: plain_services_def)
  then show ?thesis
    by (simp add: userinit_def plain_services_def kernel_simps quiet_def unlock_ptable_held)
qed

theorem process_system_safe_witness:
  "\<exists>y. sys_start plain_services 0 y \<and> no_panic plain_services 0 y"
proof -
  obtain s where s: "userinit plain_services 0 (pinit (boot_kstate ())) = Some s" using plain_userinit by blast
  let ?y = "\<lparr>ks = scheduler_start s, running = None, resumes = (\<lambda>i. In_yield False), wrapped = False\<rparr>"
  have "sys_start plain_services 0 ?y" using s unfolding sys_start_def by auto
  with process_system_safe [OF plain_services_ok this, of ?y] show ?thesis by blast
qed

text \<open>C27: \<open>scheduler\<close> runs a runnable process whose priority number is the smallest of all runnable ones,
  and of several with that number the one with the lowest index; it runs none only if none is
  runnable. The chosen entry becomes running and no other entry changes.\<close>

theorem scheduler_picks_smallest:
  assumes "services_ok sv" and "quiet s" and "ncli (pcpu s) = 0"
  shows "\<exists>c s'. scheduler_out sv me s = Some (c, s') \<and>
    (c = None \<longrightarrow> ptable s' = ptable s \<and> (\<forall>j < length (ptable s). state (ptable s ! j) \<noteq> RUNNABLE)) \<and>
    (\<forall>i. c = Some i \<longrightarrow> i < length (ptable s) \<and> state (ptable s ! i) = RUNNABLE \<and> cur s' = Some i \<and>
      ptable s' = (ptable s)[i := (ptable s ! i)\<lparr>state := RUNNING\<rparr>] \<and>
      (\<forall>j < length (ptable s). state (ptable s ! j) = RUNNABLE \<longrightarrow>
        priority (ptable s ! i) \<le> priority (ptable s ! j) \<and> (j < i \<longrightarrow> priority (ptable s ! i) < priority (ptable s ! j))))"
proof -
  have sw: "\<And>p e. sv_switchuvm sv p e \<noteq> None" using services_okD(4) [OF assms(1)] by fastforce
  note out = scheduler_out_quiet [OF assms(2,3) sw, of me] and best = pick_spec [of "ptable s"]
  show ?thesis
  proof (cases "pick (ptable s)")
    case None
    with out best show ?thesis by (auto simp: best_below_def)
  next
    case (Some i)
    with out best show ?thesis by (auto simp: best_below_def)
  qed
qed

theorem scheduler_picks_smallest_witness:
  "\<exists>s'. scheduler_out plain_services 0 (example_state [example_proc SLEEPING 1 None 0, example_proc RUNNABLE 2 (Some 0) 9,
      example_proc RUNNABLE 3 (Some 0) 4] None) = Some (Some 2, s')"
proof -
  let ?s = "example_state [example_proc SLEEPING 1 None 0, example_proc RUNNABLE 2 (Some 0) 9,
      example_proc RUNNABLE 3 (Some 0) 4] None"
  obtain c s' where c: "scheduler_out plain_services 0 ?s = Some (c, s')"
    "c = None \<longrightarrow> (\<forall>j < length (ptable ?s). state (ptable ?s ! j) \<noteq> RUNNABLE)"
    "\<forall>i. c = Some i \<longrightarrow> i < length (ptable ?s) \<and> state (ptable ?s ! i) = RUNNABLE \<and>
      (\<forall>j < length (ptable ?s). state (ptable ?s ! j) = RUNNABLE \<longrightarrow> priority (ptable ?s ! i) \<le> priority (ptable ?s ! j))"
    using scheduler_picks_smallest [OF plain_services_ok, of ?s 0] by auto
  have "state (ptable ?s ! 2) = RUNNABLE" "2 < length (ptable ?s)" "priority (ptable ?s ! 2) = 4" by simp_all
  then obtain i where i: "c = Some i" "i < 3" "state (ptable ?s ! i) = RUNNABLE" "priority (ptable ?s ! i) \<le> 4"
    using c(2,3) by (cases c) (force, fastforce)
  then have "i = 2" by (auto simp: less_Suc_eq numeral_eq_Suc)
  with c(1) i(1) show ?thesis by auto
qed

text \<open>C29: with the priority scheduler a process that only yields keeps the processor for ever: \<open>yield\<close>
  lowers its priority number, so the process chosen once is chosen in every later round and no entry
  of any other process ever changes, however long it has been runnable.\<close>

theorem yielding_process_starves_others:
  assumes "services_ok sv" and "quiet s" and "ncli (pcpu s) = 0" and "pick (ptable s) = Some i"
  shows "\<exists>s'. yield_rounds sv me n s = Some (replicate n i, s') \<and> (\<forall>j. j \<noteq> i \<longrightarrow> ptable s' ! j = ptable s ! j)"
  by (rule yield_rounds_same [OF assms])

theorem yielding_process_starves_others_witness:
  "\<exists>s'. yield_rounds plain_services 0 1000 (example_state [example_proc SLEEPING 1 None 0,
      example_proc RUNNABLE 2 (Some 0) 10, example_proc RUNNABLE 3 (Some 0) 10] None) = Some (replicate 1000 1, s') \<and>
    ptable s' ! 2 = example_proc RUNNABLE 3 (Some 0) 10"
proof -
  let ?s = "example_state [example_proc SLEEPING 1 None 0, example_proc RUNNABLE 2 (Some 0) 10,
      example_proc RUNNABLE 3 (Some 0) 10] None"
  have "pick (ptable ?s) = Some 1" by (simp add: pick_def better_def numeral_eq_Suc)
  from yielding_process_starves_others [OF plain_services_ok _ _ this, of 0 1000] show ?thesis by auto
qed

text \<open>C30: one pass of the round-robin scheduler of \<open>xv6-funciona_sem_metrica\<close> runs every process that is
  runnable when the pass begins, each once, provided that a process that runs does not stop another
  one: no runnable process waits longer than one pass.\<close>

theorem round_robin_pass_fair:
  assumes "keeps_others_runnable runs" and "rr_pass sv runs me s = Some (chosen, s')"
    and "quiet s" and "ncli (pcpu s) = 0" and "length (ptable s) = NPROC"
  shows "distinct chosen \<and> (\<forall>j < NPROC. state (ptable s ! j) = RUNNABLE \<longrightarrow> j \<in> set chosen)"
proof -
  let ?s = "s\<lparr>pcpu := (pcpu s)\<lparr>if_flag := True\<rparr>\<rparr>"
  have "quiet ?s" using assms(3,4) by (simp add: quiet_def cpu_ok_def)
  then obtain s1 where "rr_scan sv runs [0..<NPROC] (enter me ?s) = Some (chosen, s1)"
    using assms(2) by (auto simp: rr_pass_def kernel_simps bind_eq_Some_conv)
  from rr_scan_runs [OF assms(1) this] assms(5) show ?thesis by (auto simp: atLeast0LessThan)
qed

theorem round_robin_pass_fair_witness:
  "\<exists>chosen s'. rr_pass plain_services (\<lambda>i s. Some (upd i (\<lambda>p. p\<lparr>state := RUNNABLE\<rparr>) s)) 0
      (example_state (replicate NPROC (example_proc RUNNABLE 2 (Some 0) 10)) None) = Some (chosen, s') \<and> 63 \<in> set chosen"
proof -
  let ?r = "\<lambda>i s. Some (upd i (\<lambda>p. p\<lparr>state := RUNNABLE\<rparr>) s) :: unit kstate option"
  let ?s = "example_state (replicate NPROC (example_proc RUNNABLE 2 (Some 0) 10)) None"
  have k: "keeps_others_runnable ?r" by (auto simp: keeps_others_runnable_def nth_list_update)
  have d: "\<exists>s'. rr_dispatch plain_services ?r i s = Some s' \<and> pt_lock s' = pt_lock s \<and> pcpu s' = pcpu s" for i s
    by (simp add: rr_dispatch_def plain_services_def)
  have scan: "\<exists>chosen s'. rr_scan plain_services ?r is s = Some (chosen, s') \<and> pt_lock s' = pt_lock s \<and> pcpu s' = pcpu s" for "is" s
  proof (induction "is" arbitrary: s)
    case (Cons i "is")
    obtain s1 where "rr_dispatch plain_services ?r i s = Some s1" "pt_lock s1 = pt_lock s" "pcpu s1 = pcpu s" using d by blast
    with Cons.IH [of s1] Cons.IH [of s] show ?case by auto
  qed simp
  have q: "quiet (?s\<lparr>pcpu := (pcpu ?s)\<lparr>if_flag := True\<rparr>\<rparr>)"
    by (simp add: quiet_def cpu_ok_def example_state_def boot_kstate_def lock_free_def initlock_def)
  obtain chosen s1 where "rr_scan plain_services ?r [0..<NPROC] (enter 0 (?s\<lparr>pcpu := (pcpu ?s)\<lparr>if_flag := True\<rparr>\<rparr>)) = Some (chosen, s1)"
    "pt_lock s1 = held 0 (pt_lock ?s)" "pcpu s1 = pushcli ((pcpu ?s)\<lparr>if_flag := True\<rparr>)"
    using scan [of "[0..<NPROC]" "enter 0 (?s\<lparr>pcpu := (pcpu ?s)\<lparr>if_flag := True\<rparr>\<rparr>)"] by auto
  then have r: "\<exists>s'. rr_pass plain_services ?r 0 ?s = Some (chosen, s')"
    using q unlock_ptable_held [of s1 0 "pt_lock ?s" "(pcpu ?s)\<lparr>if_flag := True\<rparr>"]
    by (simp add: rr_pass_def kernel_simps quiet_def)
  then obtain s' where r: "rr_pass plain_services ?r 0 ?s = Some (chosen, s')" by blast
  have "63 < NPROC" by (simp add: NPROC_def)
  then have "63 \<in> set chosen" using round_robin_pass_fair [OF k r] by simp
  with r show ?thesis by blast
qed

text \<open>C32: \<open>fork\<close> uses the first free slot of the table. Without one it returns -1 and changes nothing. Without a
  page for the stack, or without a copy of the caller's memory of exactly the caller's size, it returns -1, the
  slot stays free (it keeps the new pid and priority) and the stack page is given back. Otherwise it takes one
  reference more to each open file, in order, and to the directory, returns the next pid and makes the slot a
  runnable child of the caller with the copied memory and the caller's size, files, directory, name and registers,
  with \<open>eax\<close> zero. No other entry changes.\<close>

theorem fork_copies_parent:
  assumes "services_ok sv" and "quiet s" and "cur s = Some i" and "i < length (ptable s)"
    and "state (ptable s ! i) \<noteq> UNUSED" and "length (ofile (ptable s ! i)) = NOFILE"
    and "\<And>p. p \<in> set (ptable s) \<Longrightarrow> state p = UNUSED \<Longrightarrow> ofile p = replicate NOFILE None"
  shows "\<exists>r s'. fork sv me s = Some (r, s') \<and> quiet s' \<and>
    (let p = ptable s ! i in
     case find_first (\<lambda>p. state p = UNUSED) (ptable s) of
       None \<Rightarrow> r = -1 \<and> ptable s' = ptable s \<and> nextpid s' = nextpid s \<and> env s' = env s
     | Some n \<Rightarrow> let q = (ptable s ! n)\<lparr>pid := nextpid s, priority := 10\<rparr> in
         nextpid s' = nextpid s + 1 \<and>
         (let (k, e1) = sv_kalloc sv (env s) in
          if k = 0 then r = -1 \<and> ptable s' = (ptable s)[n := q\<lparr>kstack := 0\<rparr>] \<and> env s' = e1
          else \<exists>pd e2. sv_copyuvm sv (pgdir p) (sz p) e1 = Some (pd, e2) \<and>
            (if pd = 0 then r = -1 \<and>
               ptable s' = (ptable s)[n := q\<lparr>kstack := 0, ret_address := Trapret, ctx := zero_context Forkret, pgdir := 0\<rparr>] \<and>
               sv_kfree sv k e2 = Some (env s')
             else r = nextpid s \<and>
               ptable s' = (ptable s)[n := q\<lparr>kstack := k, ret_address := Trapret, ctx := zero_context Forkret, pgdir := pd,
                 sz := sz p, parent := Some i, tf := (tf p)\<lparr>tf_eax := 0\<rparr>, ofile := ofile p, cwd := cwd p,
                 name := proc_name (name p), state := RUNNABLE\<rparr>] \<and>
               (\<exists>e3. dup_each sv (ofile p) e2 = Some e3 \<and> sv_idup sv (cwd p) e3 = Some (env s')))))"
proof -
  obtain r s' where f: "fork sv me s = Some (r, s')" "quiet s'" "fork_outcome sv s i r s'"
    using fork_quiet [OF assms(1-6), of me] assms(7) by blast
  from f(3) show ?thesis
    unfolding fork_outcome_def no_stack_def no_copy_def forked_child_def Let_def
    by (intro exI [of _ r] exI [of _ s'] conjI f(1,2)) simp
qed

theorem fork_copies_parent_witness:
  "\<exists>s'. fork plain_services 0 (example_state [example_proc RUNNING 1 None 10, example_proc UNUSED 0 None 0] (Some 0)) =
     Some (7, s') \<and> parent (ptable s' ! 1) = Some 0 \<and> pgdir (ptable s' ! 1) = 12288 \<and> state (ptable s' ! 1) = RUNNABLE"
proof -
  let ?s = "example_state [example_proc RUNNING 1 None 10, example_proc UNUSED 0 None 0] (Some 0)"
  have f: "\<And>p. p \<in> set (ptable ?s) \<Longrightarrow> ofile p = replicate NOFILE None" by auto
  have "find_first (\<lambda>p. state p = UNUSED) (ptable ?s) = Some 1" by simp
  moreover have "sv_kalloc plain_services e = (4096, e)" "sv_copyuvm plain_services a n e = Some (12288, e)" for a n e
    by (simp_all add: plain_services_def)
  ultimately show ?thesis
    using fork_copies_parent [OF plain_services_ok, of ?s 0 0] f by (auto simp: Let_def)
qed

text \<open>C33: \<open>exit\<close> of a running process other than init returns to the scheduler with the lock held, leaves
  the process a zombie without files or directory whose pid and parent are kept, wakes a parent that
  sleeps in \<open>wait\<close>, and gives every child to init.\<close>

theorem exit_leaves_zombie:
  assumes "services_ok sv" and "quiet s" and "ncli (pcpu s) = 0" and "cur s = Some i" and "i < length (ptable s)"
    and "state (ptable s ! i) = RUNNING" and "initproc s \<noteq> Some i" and "parent (ptable s ! i) = Some q" and "q \<noteq> i"
    and "q < length (ptable s)" and "state (ptable s ! q) = SLEEPING" and "chan (ptable s ! q) = ProcAt q"
  shows "\<exists>b s'. exit sv me s = Some (b, s') \<and> state (ptable s' ! i) = ZOMBIE \<and>
    (\<forall>f \<in> set (ofile (ptable s' ! i)). f = None) \<and> cwd (ptable s' ! i) = None \<and>
    pid (ptable s' ! i) = pid (ptable s ! i) \<and> parent (ptable s' ! i) = Some q \<and> state (ptable s' ! q) = RUNNABLE \<and>
    (\<forall>j < length (ptable s). j \<noteq> i \<longrightarrow> parent (ptable s' ! j) =
       (if parent (ptable s ! j) = Some i then initproc s else parent (ptable s ! j)))"
proof -
  have self: "parent (ptable s ! i) \<noteq> Some i" using assms(8,9) by simp
  obtain s' where s': "exit sv me s = Some (if_flag (pcpu s), s')"
    "\<forall>j < length (ptable s). j \<noteq> i \<longrightarrow> ptable s' ! j = exit_entry i (initproc s) (ptable s) j"
    "state (ptable s' ! i) = ZOMBIE" "ofile (ptable s' ! i) = replicate (length (ofile (ptable s ! i))) None"
    "cwd (ptable s' ! i) = None" "pid (ptable s' ! i) = pid (ptable s ! i)"
    "parent (ptable s' ! i) = parent (ptable s ! i)"
    using exit_quiet [OF assms(1-7) self, of me] by blast
  have "state (ptable s' ! q) = RUNNABLE"
    using s'(2) assms(8-12) by (simp add: exit_entry_def Let_def chan_of_def)
  moreover have "\<forall>j < length (ptable s). j \<noteq> i \<longrightarrow> parent (ptable s' ! j) =
       (if parent (ptable s ! j) = Some i then initproc s else parent (ptable s ! j))"
    using s'(2) by (simp add: exit_entry_def Let_def)
  ultimately show ?thesis using s' assms(8) by auto
qed

theorem exit_leaves_zombie_witness:
  "\<exists>b s'. exit plain_services 0 (example_state [(example_proc SLEEPING 1 None 10)\<lparr>chan := ProcAt 0\<rparr>,
     example_proc RUNNING 2 (Some 0) 10, example_proc RUNNABLE 3 (Some 1) 10] (Some 1)) = Some (b, s') \<and>
     state (ptable s' ! 0) = RUNNABLE \<and> parent (ptable s' ! 2) = Some 0"
proof -
  let ?s = "example_state [(example_proc SLEEPING 1 None 10)\<lparr>chan := ProcAt 0\<rparr>,
     example_proc RUNNING 2 (Some 0) 10, example_proc RUNNABLE 3 (Some 1) 10] (Some 1)"
  obtain b s' where "exit plain_services 0 ?s = Some (b, s')" "state (ptable s' ! 0) = RUNNABLE"
    "\<forall>j < length (ptable ?s). j \<noteq> 1 \<longrightarrow> parent (ptable s' ! j) =
       (if parent (ptable ?s ! j) = Some 1 then initproc ?s else parent (ptable ?s ! j))"
    using exit_leaves_zombie [OF plain_services_ok, of ?s 1 0 0] by auto
  moreover from this(3) have "parent (ptable s' ! 2) = Some 0" by simp
  ultimately show ?thesis by blast
qed

text \<open>C34: \<open>wait\<close> returns the pid of the first zombie child in the table, frees its stack, its memory and its
  entry and no other; without children, or when the caller was killed, it returns -1 and changes nothing; and otherwise the caller
  sleeps on its own entry, which is what \<open>exit\<close> of a child wakes.\<close>

theorem wait_reaps_or_sleeps:
  assumes "services_ok sv" and "quiet s" and "ncli (pcpu s) = 0" and "cur s = Some i" and "i < length (ptable s)"
  shows "\<exists>r s'. wait_start sv me s = Some (r, s') \<and>
    (if \<exists>p \<in> set (ptable s). parent p = Some i \<and> state p = ZOMBIE then
       (\<exists>j < length (ptable s). parent (ptable s ! j) = Some i \<and> state (ptable s ! j) = ZOMBIE \<and>
          (\<forall>k < j. \<not> (parent (ptable s ! k) = Some i \<and> state (ptable s ! k) = ZOMBIE)) \<and>
          r = Reaped (pid (ptable s ! j)) \<and> length (ptable s') = length (ptable s) \<and>
          (\<exists>e. sv_kfree sv (kstack (ptable s ! j)) (env s) = Some e \<and> sv_freevm sv (pgdir (ptable s ! j)) e = Some (env s')) \<and>
          kstack (ptable s' ! j) = 0 \<and>
          state (ptable s' ! j) = UNUSED \<and> pid (ptable s' ! j) = 0 \<and> parent (ptable s' ! j) = None \<and>
          \<not> killed (ptable s' ! j) \<and> (\<forall>k. k \<noteq> j \<longrightarrow> ptable s' ! k = ptable s ! k))
     else if (\<forall>p \<in> set (ptable s). parent p \<noteq> Some i) \<or> killed (ptable s ! i)
     then r = No_children \<and> ptable s' = ptable s \<and> env s' = env s
     else (\<exists>b. r = Asleep b) \<and> env s' = env s \<and> state (ptable s' ! i) = SLEEPING \<and> chan (ptable s' ! i) = ProcAt i \<and>
       (\<forall>k. k \<noteq> i \<longrightarrow> ptable s' ! k = ptable s ! k))"
proof -
  obtain r s' where w: "wait_start sv me s = Some (r, s')" "wait_outcome sv i s (if_flag (pcpu s)) r s'"
    using wait_start_quiet [OF assms, of me] by blast
  show ?thesis
  proof (cases "find_first (\<lambda>p. is_child i p \<and> state p = ZOMBIE) (ptable s)")
    case None
    then have "\<not> (\<exists>p \<in> set (ptable s). parent p = Some i \<and> state p = ZOMBIE)"
      by (auto simp: find_first_None is_child_def)
    with None w assms(5) show ?thesis
      by (auto simp: wait_outcome_def is_child_def list_ex_iff split: if_splits)
  next
    case (Some j)
    then have j: "j < length (ptable s)" "parent (ptable s ! j) = Some i" "state (ptable s ! j) = ZOMBIE"
      "\<forall>k < j. \<not> (parent (ptable s ! k) = Some i \<and> state (ptable s ! k) = ZOMBIE)"
      by (simp_all add: find_first_Some is_child_def)
    then have ex: "\<exists>p \<in> set (ptable s). parent p = Some i \<and> state p = ZOMBIE" using nth_mem by blast
    from w(2) Some have "r = Reaped (pid (ptable s ! j))"
      "ptable s' = (ptable s)[j := (ptable s ! j)\<lparr>kstack := 0, pid := 0, parent := None, name := [],
         killed := False, state := UNUSED\<rparr>]"
      "\<exists>e. sv_kfree sv (kstack (ptable s ! j)) (env s) = Some e \<and> sv_freevm sv (pgdir (ptable s ! j)) e = Some (env s')"
      by (simp_all add: wait_outcome_def)
    with w(1) j show ?thesis unfolding if_P [OF ex]
      by (intro exI [of _ r] exI [of _ s'] conjI exI [of _ j]) simp_all
  qed
qed

theorem wait_reaps_or_sleeps_witness:
  "\<exists>s'. wait_start plain_services 0 (example_state [example_proc RUNNING 1 None 10, example_proc ZOMBIE 5 (Some 0) 10,
       example_proc ZOMBIE 6 (Some 0) 10] (Some 0)) = Some (Reaped 5, s')"
proof -
  let ?s = "example_state [example_proc RUNNING 1 None 10, example_proc ZOMBIE 5 (Some 0) 10, example_proc ZOMBIE 6 (Some 0) 10] (Some 0)"
  obtain r s' j where w: "wait_start plain_services 0 ?s = Some (r, s')" and "j < 3" and j: "parent (ptable ?s ! j) = Some 0"
      "\<forall>k < j. \<not> (parent (ptable ?s ! k) = Some 0 \<and> state (ptable ?s ! k) = ZOMBIE)" "r = Reaped (pid (ptable ?s ! j))"
    using wait_reaps_or_sleeps [OF plain_services_ok, of ?s 0 0] by auto
  moreover from j(1) have "j \<noteq> 0" by (cases "j = 0") simp_all
  moreover have "j \<le> 1" using j(2) [rule_format, of 1] by (cases "1 < j") simp_all
  ultimately have "j = 1" by simp
  with w j(3) show ?thesis by simp
qed

text \<open>C36: \<open>kill(0)\<close> reports success whenever a free slot with pid 0 comes first: it marks that slot as
  killed, and \<open>allocproc\<close>, which does not clear the mark, then hands out a process that is killed
  before it has run.\<close>

theorem kill_zero_taints_next_process:
  assumes "quiet s" and "find_first (\<lambda>p. pid p = 0) (ptable s) = Some n"
    and "find_first (\<lambda>p. state p = UNUSED) (ptable s) = Some n" and "fst (sv_kalloc sv (env s)) \<noteq> 0"
  shows "\<exists>s1 s2. kill me 0 s = Some (0, s1) \<and> allocproc sv me s1 = Some (Some n, s2) \<and>
    killed (ptable s2 ! n) \<and> state (ptable s2 ! n) = EMBRYO \<and> pid (ptable s2 ! n) = nextpid s"
proof -
  have n: "n < length (ptable s)" "pid (ptable s ! n) = 0" "state (ptable s ! n) = UNUSED"
    "\<forall>j < n. state (ptable s ! j) \<noteq> UNUSED"
    using assms(2,3) by (simp_all add: find_first_Some)
  then have "\<exists>q \<in> set (ptable s). pid q = 0" using nth_mem by blast
  with kill_quiet [OF assms(1), of me 0] assms(2) n(3) obtain s1 where
    s1: "kill me 0 s = Some (0, s1)" "quiet s1" "nextpid s1 = nextpid s" "env s1 = env s"
      "ptable s1 = (ptable s)[n := (ptable s ! n)\<lparr>killed := True, state := UNUSED\<rparr>]" by auto
  have "find_first (\<lambda>p. state p = UNUSED) (ptable s1) = Some n"
    using n s1(5) by (simp add: find_first_Some)
  with allocproc_quiet [OF s1(2), of sv me] assms(4) s1(3-5) n(1) show ?thesis using s1(1) by auto
qed

theorem kill_zero_taints_next_process_witness:
  "\<exists>s1 s2. kill 0 0 (example_state [example_proc RUNNING 1 None 10, example_proc UNUSED 0 None 0] (Some 0)) = Some (0, s1) \<and>
     allocproc plain_services 0 s1 = Some (Some 1, s2) \<and> killed (ptable s2 ! 1)"
proof -
  let ?s = "example_state [example_proc RUNNING 1 None 10, example_proc UNUSED 0 None 0] (Some 0)"
  have "find_first (\<lambda>p. pid p = 0) (ptable ?s) = Some 1" "find_first (\<lambda>p. state p = UNUSED) (ptable ?s) = Some 1"
    "fst (sv_kalloc plain_services (env ?s)) \<noteq> 0" by (simp_all add: plain_services_def)
  from kill_zero_taints_next_process [OF _ this, of 0] show ?thesis by auto
qed

end
