(* ===== verification/Ring.thy ===== *)
theory Ring
  imports Prelude
begin

text \<open>
  Circular buffers with free-running 32-bit counters, as \<open>pipe.c\<close> and the console input use them: the
  counters count all elements ever put and taken and are reduced modulo the size only to index the
  array. Because the size divides \<open>2 ^ 32\<close>, the contents are right across the wrap-around of the
  counters.
\<close>

definition ring_contents :: "'a list \<Rightarrow> u32 \<Rightarrow> u32 \<Rightarrow> 'a list" where
  "ring_contents buf r w = map (\<lambda>i. buf ! ((unat r + i) mod length buf)) [0..<unat (w - r)]"

lemma ring_contents_empty [simp]: "ring_contents buf r r = []"
  by (simp add: ring_contents_def)

lemma length_ring_contents [simp]: "length (ring_contents buf r w) = unat (w - r)"
  by (simp add: ring_contents_def)

lemma u32_diff_Suc:
  assumes "unat (w - r) < n" and "n < 2 ^ 32"
  shows "unat (w + 1 - r :: u32) = unat (w - r) + 1"
proof -
  have e: "w + 1 - r = (w - r) + 1" by simp
  have "w - r \<noteq> -1"
  proof
    assume "w - r = -1"
    then have "unat (w - r) = 2 ^ 32 - 1" using unat_u32_uminus [of 1] by simp
    with assms show False by simp
  qed
  then show ?thesis unfolding e by (rule unat_u32_Suc)
qed

lemma u32_diff_pred:
  assumes "w \<noteq> r"
  shows "unat (w - (r + 1) :: u32) + 1 = unat (w - r)"
proof -
  have "unat (w - r) \<noteq> 0" using assms by (simp add: unat_eq_0)
  then have "(1 :: u32) \<le> w - r" by (simp add: word_le_nat_alt)
  then have "unat (w - r - 1) = unat (w - r) - 1" using unat_u32_minus [of 1 "w - r"] by simp
  moreover have "w - (r + 1) = w - r - 1" by simp
  ultimately have "unat (w - (r + 1)) = unat (w - r) - 1" by (simp only:)
  then show ?thesis using \<open>unat (w - r) \<noteq> 0\<close> by linarith
qed

lemma u32_shrink: "w \<noteq> e \<Longrightarrow> unat (e - 1 - w :: u32) + 1 = unat (e - w)"
  using u32_diff_pred [of e w] by (simp add: diff_diff_eq add.commute)

lemma ring_contents_newest:
  assumes "w \<noteq> e"
  shows "ring_contents buf w e =
    ring_contents buf w (e - 1) @ [buf ! ((unat w + unat (e - 1 - w)) mod length buf)]"
proof -
  have n: "unat (e - w) = Suc (unat (e - 1 - w))" using u32_shrink [OF assms] by simp
  show ?thesis unfolding ring_contents_def n by simp
qed

locale ring =
  fixes size :: nat
  assumes size_pos: "0 < size" and size_dvd: "size dvd 2 ^ 32" and size_less: "size < 2 ^ 32"
begin

lemma index_wrap: "unat (x :: u32) mod 2 ^ 32 mod size = unat x mod size"
  by simp

lemma index_plus: "unat (r + x :: u32) mod size = (unat r + unat x) mod size"
proof -
  have "unat (r + x) = (unat r + unat x) mod 2 ^ 32" by (simp add: unat_u32_plus)
  then show ?thesis using size_dvd by (simp add: mod_mod_cancel)
qed

lemma index_mod: "unat ((x :: u32) mod of_nat size) = unat x mod size"
  using size_less by (simp add: unat_u32_mod unat_of_nat_u32)

lemma index_bound: "unat (x :: u32) mod size < size"
  using size_pos by simp

lemma index_last:
  assumes "unat (w - r :: u32) = k"
  shows "unat w mod size = (unat r + k) mod size"
  using index_plus [of r "w - r"] assms by simp

text \<open>Taking the oldest element, putting a new one and dropping the newest.\<close>

lemma get:
  assumes "length buf = size" and "w \<noteq> r"
  shows "ring_contents buf r w = buf ! (unat r mod size) # ring_contents buf (r + 1) w"
proof -
  have n: "unat (w - r) = Suc (unat (w - (r + 1)))" using u32_diff_pred [OF assms(2)] by simp
  have "(unat (r + 1) + i) mod size = (unat r + Suc i) mod size" for i
  proof -
    have "(unat (r + 1) + i) mod size = (unat (r + 1) mod size + i) mod size" by (simp add: mod_add_left_eq)
    also have "\<dots> = ((unat r + 1) mod size + i) mod size" by (simp add: index_plus)
    finally show ?thesis by (simp add: mod_add_left_eq)
  qed
  then show ?thesis
    unfolding ring_contents_def n upt_conv_Cons [OF zero_less_Suc] assms(1)
    by (simp add: map_Suc_upt [symmetric] del: upt_Suc)
qed

lemma put:
  assumes "length buf = size" and "unat (w - r) < size"
  shows "ring_contents (buf[unat w mod size := c]) r (w + 1) = ring_contents buf r w @ [c]"
proof -
  have n: "unat (w + 1 - r) = Suc (unat (w - r))" using u32_diff_Suc [OF assms(2) size_less] by simp
  have last: "unat w mod size = (unat r + unat (w - r)) mod size" by (rule index_last) simp
  have "(unat r + i) mod size \<noteq> unat w mod size" if "i < unat (w - r)" for i
  proof
    assume "(unat r + i) mod size = unat w mod size"
    then have "(unat r + unat (w - r)) mod size = (unat r + i) mod size" by (simp only: last)
    then have "size dvd unat (w - r) - i"
      using that by (simp add: mod_eq_dvd_iff_nat)
    with that assms(2) show False by (simp add: nat_dvd_not_less)
  qed
  then have "buf[unat w mod size := c] ! ((unat r + i) mod size) = buf ! ((unat r + i) mod size)"
    if "i < unat (w - r)" for i using that by (metis nth_list_update_neq)
  moreover have "buf[unat w mod size := c] ! ((unat r + unat (w - r)) mod size) = c"
    using assms(1) size_pos by (simp add: last [symmetric])
  ultimately show ?thesis unfolding ring_contents_def n using assms(1) by simp
qed

lemma newest:
  assumes "length buf = size" and "w \<noteq> e"
  shows "ring_contents buf w e = ring_contents buf w (e - 1) @ [buf ! (unat (e - 1) mod size)]"
  using ring_contents_newest [OF assms(2), of buf] index_last [of "e - 1" w, OF refl] assms(1) by simp

lemma prefix:
  assumes "length buf = size" and "unat (w - r) \<le> unat (e - r)"
  shows "ring_contents buf r e = ring_contents buf r w @ ring_contents buf w e"
proof -
  have d: "unat (e - w) = unat (e - r) - unat (w - r)"
  proof -
    have "e - w = (e - r) - (w - r)" by simp
    moreover have "unat ((e - r) - (w - r)) = unat (e - r) - unat (w - r)"
      using assms(2) by (intro unat_u32_minus) (simp add: word_le_nat_alt)
    ultimately show ?thesis by simp
  qed
  have i: "(unat w + i) mod size = (unat r + (unat (w - r) + i)) mod size" for i
  proof -
    have "(unat w + i) mod size = (unat w mod size + i) mod size" by (simp add: mod_add_left_eq)
    also have "\<dots> = ((unat r + unat (w - r)) mod size + i) mod size" by (simp only: index_last [of w r, OF refl])
    finally show ?thesis by (simp add: mod_add_left_eq add.assoc)
  qed
  have "ring_contents buf r e = map (\<lambda>i. buf ! ((unat r + i) mod size)) [0..<unat (w - r) + unat (e - w)]"
    using assms d by (simp add: ring_contents_def)
  moreover have "map f [a..<a + n] = map (\<lambda>i. f (a + i)) [0..<n]" for f :: "nat \<Rightarrow> 'b" and a n
    by (rule nth_equalityI) simp_all
  ultimately show ?thesis
    using assms(1) i by (simp add: ring_contents_def upt_add_eq_append [of 0])
qed

end

end
