(* ===== verification/Pipe.thy ===== *)
theory Pipe
  imports Ring
begin

text \<open>
  Pipes (\<open>pipe.c\<close>). Each definition is the code between taking the pipe's lock and giving it up, in
  \<open>release\<close> or in \<open>sleep\<close>: such a piece runs without interference from other processes, and a
  process that is woken continues with the piece that starts at its loop condition. The channels that a
  piece wakes are part of its result. The step relation at the end lets any number of readers and
  writers interleave their pieces.
\<close>

section \<open>The code\<close>

definition PIPESIZE :: nat where "PIPESIZE = 512"

record pipe =
  data :: "byte list"
  nread :: u32
  nwrite :: u32
  readopen :: bool
  writeopen :: bool

text \<open>The addresses \<open>&p->nread\<close> and \<open>&p->nwrite\<close> that processes sleep on.\<close>

datatype pipe_chan = Nread | Nwrite

text \<open>How a piece ends: the call returns a value, or the process sleeps with this much left to do.\<close>

datatype write_result = Wrote int | Write_sleeps "byte list"
datatype read_result = Read int "byte list" | Read_sleeps

text \<open>The part of \<open>pipealloc\<close> that fills the page; the junk of \<open>kalloc\<close> stays in \<open>data\<close>.\<close>

definition pipeinit :: "pipe \<Rightarrow> pipe" where
  "pipeinit p = p\<lparr>readopen := True, writeopen := True, nwrite := 0, nread := 0\<rparr>"

text \<open>\<open>pipeclose\<close> also says whether it frees the page of the pipe.\<close>

definition pipeclose :: "bool \<Rightarrow> pipe \<Rightarrow> pipe_chan list \<times> bool \<times> pipe" where
  "pipeclose writable p =
     (let (w, p) = (if writable then ([Nread], p\<lparr>writeopen := False\<rparr>) else ([Nwrite], p\<lparr>readopen := False\<rparr>))
      in (w, \<not> readopen p \<and> \<not> writeopen p, p))"

text \<open>The loop of \<open>pipewrite\<close> over the bytes that are left; \<open>n\<close> is the value returned.\<close>

fun pipewrite :: "bool \<Rightarrow> int \<Rightarrow> byte list \<Rightarrow> pipe \<Rightarrow> write_result \<times> pipe_chan list \<times> pipe" where
  "pipewrite killed n [] p = (Wrote n, [Nread], p)"
| "pipewrite killed n (c # cs) p =
     (if nwrite p = nread p + of_nat PIPESIZE then
        if \<not> readopen p \<or> killed then (Wrote (-1), [], p)
        else (Write_sleeps (c # cs), [Nread], p)
      else pipewrite killed n cs (p\<lparr>data := (data p)[unat (nwrite p mod of_nat PIPESIZE) := c], nwrite := nwrite p + 1\<rparr>))"

text \<open>The copying loop of \<open>piperead\<close>: the bytes stored at \<open>addr\<close>.\<close>

fun piperead_copy :: "nat \<Rightarrow> pipe \<Rightarrow> byte list \<times> pipe" where
  "piperead_copy 0 p = ([], p)"
| "piperead_copy (Suc n) p =
     (if nread p = nwrite p then ([], p)
      else
        let c = data p ! unat (nread p mod of_nat PIPESIZE);
            (cs, p) = piperead_copy n (p\<lparr>nread := nread p + 1\<rparr>)
        in (c # cs, p))"

definition piperead :: "bool \<Rightarrow> int \<Rightarrow> pipe \<Rightarrow> read_result \<times> pipe_chan list \<times> pipe" where
  "piperead killed n p =
     (if nread p = nwrite p \<and> writeopen p then
        if killed then (Read (-1) [], [], p) else (Read_sleeps, [], p)
      else
        let (cs, p) = piperead_copy (nat n) p in (Read (int (length cs)) cs, [Nwrite], p))"

section \<open>Contents\<close>

interpretation pipe_ring: ring PIPESIZE
  by unfold_locales (simp_all add: PIPESIZE_def)

definition pipe_ok :: "pipe \<Rightarrow> bool" where
  "pipe_ok p \<longleftrightarrow> length (data p) = PIPESIZE \<and> unat (nwrite p - nread p) \<le> PIPESIZE"

definition contents :: "pipe \<Rightarrow> byte list" where
  "contents p = ring_contents (data p) (nread p) (nwrite p)"

lemma pipe_full: "pipe_ok p \<Longrightarrow> nwrite p = nread p + of_nat PIPESIZE \<longleftrightarrow> length (contents p) = PIPESIZE"
proof -
  have "nwrite p = nread p + of_nat PIPESIZE \<longleftrightarrow> nwrite p - nread p = of_nat PIPESIZE" by (auto simp: algebra_simps)
  also have "\<dots> \<longleftrightarrow> unat (nwrite p - nread p) = PIPESIZE"
    by (simp add: word_unat_eq_iff PIPESIZE_def)
  finally show ?thesis by (simp add: contents_def)
qed

lemma pipe_empty: "pipe_ok p \<Longrightarrow> nread p = nwrite p \<longleftrightarrow> contents p = []"
  unfolding contents_def by (metis length_0_conv length_ring_contents right_minus_eq unat_eq_0)

lemma pipe_put:
  fixes c :: byte
  assumes "pipe_ok p" "nwrite p \<noteq> nread p + of_nat PIPESIZE"
  defines "p' \<equiv> p\<lparr>data := (data p)[unat (nwrite p mod of_nat PIPESIZE) := c], nwrite := nwrite p + 1\<rparr>"
  shows "pipe_ok p'" "contents p' = contents p @ [c]"
proof -
  have len: "length (data p) = PIPESIZE" "unat (nwrite p - nread p) < PIPESIZE"
    using assms(1,2) pipe_full [OF assms(1)] by (simp_all add: pipe_ok_def contents_def)
  then have "unat (nwrite p + 1 - nread p) = unat (nwrite p - nread p) + 1"
    by (intro u32_diff_Suc [of _ _ PIPESIZE]) (simp_all add: PIPESIZE_def)
  with len show "pipe_ok p'" by (simp add: p'_def pipe_ok_def)
  show "contents p' = contents p @ [c]"
    using pipe_ring.put [OF len] by (simp add: p'_def contents_def pipe_ring.index_mod)
qed

lemma pipe_get:
  assumes "pipe_ok p" "nread p \<noteq> nwrite p"
  defines "p' \<equiv> p\<lparr>nread := nread p + 1\<rparr>"
  shows "pipe_ok p'" "contents p = data p ! unat (nread p mod of_nat PIPESIZE) # contents p'"
proof -
  have len: "length (data p) = PIPESIZE" using assms(1) by (simp add: pipe_ok_def)
  show "pipe_ok p'"
    using assms u32_diff_pred [of "nwrite p" "nread p"] by (simp add: p'_def pipe_ok_def)
  show "contents p = data p ! unat (nread p mod of_nat PIPESIZE) # contents p'"
    using pipe_ring.get [OF len, of "nwrite p" "nread p"] assms(2)
    by (simp add: p'_def contents_def pipe_ring.index_mod)
qed

text \<open>What a piece of \<open>pipewrite\<close> does: it appends the bytes it takes; what is left is what did not fit.\<close>

definition write_ends :: "bool \<Rightarrow> int \<Rightarrow> pipe \<Rightarrow> byte list \<Rightarrow> write_result \<Rightarrow> pipe_chan list \<Rightarrow> bool" where
  "write_ends k n p rest r w \<longleftrightarrow>
     (case r of
        Write_sleeps l \<Rightarrow> l = rest \<and> rest \<noteq> [] \<and> length (contents p) = PIPESIZE \<and> readopen p \<and> \<not> k \<and> w = [Nread]
      | Wrote m \<Rightarrow> (rest = [] \<and> m = n \<and> w = [Nread]) \<or>
          (rest \<noteq> [] \<and> m = -1 \<and> length (contents p) = PIPESIZE \<and> (\<not> readopen p \<or> k) \<and> w = []))"

lemma pipewrite_spec:
  assumes "pipe_ok p" "pipewrite k n cs p = (r, w, p')"
  shows "pipe_ok p' \<and> readopen p' = readopen p \<and> writeopen p' = writeopen p \<and> nread p' = nread p \<and>
    (\<exists>sent rest. cs = sent @ rest \<and> contents p' = contents p @ sent \<and> write_ends k n p' rest r w \<and>
       nwrite p' = nwrite p + of_nat (length sent))"
  using assms
proof (induction cs arbitrary: p)
  case Nil
  then show ?case by (auto simp: write_ends_def)
next
  case (Cons c cs)
  show ?case
  proof (cases "nwrite p = nread p + of_nat PIPESIZE")
    case True
    then have "length (contents p) = PIPESIZE" using pipe_full Cons.prems(1) by blast
    then have "p' = p" "write_ends k n p' (c # cs) r w"
      using Cons.prems True by (auto simp: write_ends_def split: if_splits)
    then show ?thesis using Cons.prems(1) by auto
  next
    case False
    let ?p = "p\<lparr>data := (data p)[unat (nwrite p mod of_nat PIPESIZE) := c], nwrite := nwrite p + 1\<rparr>"
    note put = pipe_put [OF Cons.prems(1) False, of c]
    have run: "pipewrite k n cs ?p = (r, w, p')" using Cons.prems(2) False by simp
    obtain sent rest where s: "cs = sent @ rest" "contents p' = contents ?p @ sent" "write_ends k n p' rest r w"
      "pipe_ok p'" "readopen p' = readopen p" "writeopen p' = writeopen p" "nread p' = nread p"
      "nwrite p' = nwrite p + 1 + of_nat (length sent)"
      using Cons.IH [OF put(1) run] by auto
    then have "c # cs = (c # sent) @ rest" "contents p' = contents p @ (c # sent)"
      "nwrite p' = nwrite p + of_nat (length (c # sent))" using put(2) by simp_all
    with s(3-) show ?thesis by blast
  qed
qed

lemma piperead_copy_spec:
  assumes "pipe_ok p" "piperead_copy n p = (cs, p')"
  shows "pipe_ok p' \<and> readopen p' = readopen p \<and> writeopen p' = writeopen p \<and> nwrite p' = nwrite p \<and>
    cs = take n (contents p) \<and> contents p' = drop n (contents p)"
  using assms
proof (induction n arbitrary: p cs)
  case 0
  then show ?case by simp
next
  case (Suc n)
  show ?case
  proof (cases "nread p = nwrite p")
    case True
    with Suc.prems pipe_empty [OF Suc.prems(1)] show ?thesis by auto
  next
    case False
    note get = pipe_get [OF Suc.prems(1) False]
    obtain cs1 where c1: "piperead_copy n (p\<lparr>nread := nread p + 1\<rparr>) = (cs1, p')"
      "cs = data p ! unat (nread p mod of_nat PIPESIZE) # cs1"
      using Suc.prems(2) False by (auto simp: Let_def split: prod.splits)
    from Suc.IH [OF get(1) c1(1)] c1(2) show ?thesis unfolding get(2) by simp
  qed
qed

section \<open>Readers and writers\<close>

text \<open>
  What a process is doing with the pipe: nothing, about to run a piece of a call, or asleep in one. A
  wake-up makes the sleepers of the channel runnable again. \<open>sent\<close> and \<open>received\<close> record the bytes
  that calls have put into and taken out of the pipe.
\<close>

datatype activity = Idle | Writing int "byte list" | Reading int | Asleep_writing int "byte list" | Asleep_reading int

record pipe_system =
  the_pipe :: pipe
  acts :: "nat \<Rightarrow> activity"
  sent :: "byte list"
  received :: "byte list"

fun woken :: "pipe_chan list \<Rightarrow> activity \<Rightarrow> activity" where
  "woken w (Asleep_writing n cs) = (if Nwrite \<in> set w then Writing n cs else Asleep_writing n cs)"
| "woken w (Asleep_reading n) = (if Nread \<in> set w then Reading n else Asleep_reading n)"
| "woken w a = a"

definition becomes :: "nat \<Rightarrow> activity \<Rightarrow> pipe_chan list \<Rightarrow> (nat \<Rightarrow> activity) \<Rightarrow> nat \<Rightarrow> activity" where
  "becomes i a w f = (\<lambda>j. if j = i then a else woken w (f j))"

fun after_write :: "int \<Rightarrow> write_result \<Rightarrow> activity" where
  "after_write n (Wrote m) = Idle"
| "after_write n (Write_sleeps l) = Asleep_writing n l"

fun after_read :: "int \<Rightarrow> read_result \<Rightarrow> activity" where
  "after_read n (Read m cs) = Idle"
| "after_read n Read_sleeps = Asleep_reading n"

fun bytes_read :: "read_result \<Rightarrow> byte list" where
  "bytes_read (Read m cs) = cs"
| "bytes_read Read_sleeps = []"

text \<open>With \<open>kills\<close> a process may have been killed when it runs a piece. An end is closed only by a
  process outside a call, when no call on that end is in progress: a process in a call holds its file open.\<close>

inductive pipe_step :: "bool \<Rightarrow> pipe_system \<Rightarrow> pipe_system \<Rightarrow> bool" for kills :: bool where
  call_write: "acts s i = Idle \<Longrightarrow> writeopen (the_pipe s) \<Longrightarrow> n = int (length cs) \<Longrightarrow>
    pipe_step kills s (s\<lparr>acts := (acts s)(i := Writing n cs)\<rparr>)"
| call_read: "acts s i = Idle \<Longrightarrow> readopen (the_pipe s) \<Longrightarrow>
    pipe_step kills s (s\<lparr>acts := (acts s)(i := Reading n)\<rparr>)"
| put: "acts s i = Writing n cs \<Longrightarrow> k \<longrightarrow> kills \<Longrightarrow> pipewrite k n cs (the_pipe s) = (r, w, p) \<Longrightarrow>
    pipe_step kills s (s\<lparr>the_pipe := p, acts := becomes i (after_write n r) w (acts s),
      sent := sent s @ take (unat (nwrite p - nwrite (the_pipe s))) cs\<rparr>)"
| get: "acts s i = Reading n \<Longrightarrow> k \<longrightarrow> kills \<Longrightarrow> piperead k n (the_pipe s) = (r, w, p) \<Longrightarrow>
    pipe_step kills s (s\<lparr>the_pipe := p, acts := becomes i (after_read n r) w (acts s),
      received := received s @ bytes_read r\<rparr>)"
| close_write: "(\<And>j n cs. acts s j \<noteq> Writing n cs \<and> acts s j \<noteq> Asleep_writing n cs) \<Longrightarrow>
    pipeclose True (the_pipe s) = (w, f, p) \<Longrightarrow>
    pipe_step kills s (s\<lparr>the_pipe := p, acts := (\<lambda>j. woken w (acts s j))\<rparr>)"
| close_read: "(\<And>j n. acts s j \<noteq> Reading n \<and> acts s j \<noteq> Asleep_reading n) \<Longrightarrow>
    pipeclose False (the_pipe s) = (w, f, p) \<Longrightarrow>
    pipe_step kills s (s\<lparr>the_pipe := p, acts := (\<lambda>j. woken w (acts s j))\<rparr>)"

section \<open>What holds in every interleaving\<close>

text \<open>Nobody sleeps for a reason that has gone: a reader sleeps on an empty pipe with a writer left, a
  writer on a full pipe with a reader left.\<close>

definition sleepers_ok :: "pipe_system \<Rightarrow> bool" where
  "sleepers_ok s \<longleftrightarrow>
     (\<forall>i n. acts s i = Asleep_reading n \<longrightarrow> contents (the_pipe s) = [] \<and> writeopen (the_pipe s)) \<and>
     (\<forall>i n cs. acts s i = Asleep_writing n cs \<longrightarrow> length (contents (the_pipe s)) = PIPESIZE \<and> readopen (the_pipe s))"

definition ends_ok :: "pipe_system \<Rightarrow> bool" where
  "ends_ok s \<longleftrightarrow>
     (\<forall>i n. acts s i = Reading n \<or> acts s i = Asleep_reading n \<longrightarrow> readopen (the_pipe s)) \<and>
     (\<forall>i n cs. acts s i = Writing n cs \<or> acts s i = Asleep_writing n cs \<longrightarrow> writeopen (the_pipe s))"

definition flow_ok :: "pipe_system \<Rightarrow> bool" where
  "flow_ok s \<longleftrightarrow> pipe_ok (the_pipe s) \<and> sent s = received s @ contents (the_pipe s)"

definition pipe_start :: "pipe_system \<Rightarrow> bool" where
  "pipe_start s \<longleftrightarrow> (\<exists>p. length (data p) = PIPESIZE \<and> the_pipe s = pipeinit p) \<and> (\<forall>i. acts s i = Idle) \<and>
     sent s = [] \<and> received s = []"

lemma woken_simps [simp]:
  "woken w a = Asleep_reading n \<longleftrightarrow> a = Asleep_reading n \<and> Nread \<notin> set w"
  "woken w a = Asleep_writing n cs \<longleftrightarrow> a = Asleep_writing n cs \<and> Nwrite \<notin> set w"
  "woken w a = Reading n \<longleftrightarrow> a = Reading n \<or> a = Asleep_reading n \<and> Nread \<in> set w"
  "woken w a = Writing n cs \<longleftrightarrow> a = Writing n cs \<or> a = Asleep_writing n cs \<and> Nwrite \<in> set w"
  by (cases a; auto)+

lemma becomes_no_wakeup [simp]: "becomes i a [] f = f(i := a)"
proof -
  have "woken [] b = b" for b by (cases b) simp_all
  then show ?thesis by (auto simp: becomes_def)
qed

lemma after_simps [simp]:
  "after_write n r = Asleep_writing m l \<longleftrightarrow> r = Write_sleeps l \<and> m = n" "after_write n r \<noteq> Asleep_reading m"
  "after_write n r \<noteq> Reading m" "after_write n r \<noteq> Writing m l"
  by (cases r; auto)+

lemma after_read_simps [simp]:
  "after_read n q = Asleep_reading m \<longleftrightarrow> q = Read_sleeps \<and> m = n" "after_read n q \<noteq> Asleep_writing m l"
  "after_read n q \<noteq> Reading m" "after_read n q \<noteq> Writing m l"
  by (cases q; auto)+

lemma piperead_spec:
  assumes "pipe_ok p" "piperead k n p = (r, w, p')"
  shows "pipe_ok p'" "readopen p' = readopen p" "writeopen p' = writeopen p"
    "contents p = bytes_read r @ contents p'"
    "r = Read_sleeps \<longleftrightarrow> contents p = [] \<and> writeopen p \<and> \<not> k"
    "contents p' = contents p \<or> w = [Nwrite]"
  using assms pipe_empty [OF assms(1)] piperead_copy_spec [OF assms(1), of "nat n"]
  by (auto simp: piperead_def Let_def split: if_splits prod.splits)

lemma pipewrite_flow:
  assumes ok: "pipe_ok p" and run: "pipewrite k n cs p = (r, w, p')"
  shows "pipe_ok p'" "readopen p' = readopen p" "writeopen p' = writeopen p"
    "contents p' = contents p @ take (unat (nwrite p' - nwrite p)) cs"
    "contents p' = contents p \<or> w = [Nread] \<or> (w = [] \<and> (\<not> readopen p \<or> k))"
    "r = Write_sleeps l \<Longrightarrow> length (contents p') = PIPESIZE \<and> readopen p \<and> w = [Nread]"
proof -
  obtain taken rest where t: "cs = taken @ rest" "contents p' = contents p @ taken" "write_ends k n p' rest r w"
    "nwrite p' = nwrite p + of_nat (length taken)" and o: "pipe_ok p'" "readopen p' = readopen p" "writeopen p' = writeopen p"
    using pipewrite_spec [OF assms] by blast
  have "length (contents p') \<le> PIPESIZE" using o(1) by (simp add: pipe_ok_def contents_def)
  then have "length taken < 2 ^ 32" using t(2) by (simp add: PIPESIZE_def)
  then have "unat (nwrite p' - nwrite p) = length taken" using t(4) by (simp add: unat_of_nat_u32)
  then show "contents p' = contents p @ take (unat (nwrite p' - nwrite p)) cs" using t(1,2) by simp
  show "pipe_ok p'" "readopen p' = readopen p" "writeopen p' = writeopen p" by (rule o)+
  show "contents p' = contents p \<or> w = [Nread] \<or> (w = [] \<and> (\<not> readopen p \<or> k))"
    using t(3) o(2) by (auto simp: write_ends_def split: write_result.splits)
  show "length (contents p') = PIPESIZE \<and> readopen p \<and> w = [Nread]" if "r = Write_sleeps l"
    using that t(3) o(2) by (simp add: write_ends_def)
qed

lemma pipeclose_simps:
  assumes "pipeclose b p = (w, f, p')"
  shows "contents p' = contents p" "pipe_ok p' = pipe_ok p" "w = (if b then [Nread] else [Nwrite])"
    "writeopen p' \<longleftrightarrow> writeopen p \<and> \<not> b" "readopen p' \<longleftrightarrow> readopen p \<and> b" "f \<longleftrightarrow> \<not> readopen p' \<and> \<not> writeopen p'"
  using assms by (auto simp: pipeclose_def contents_def pipe_ok_def split: if_splits)

lemma flow_step: "pipe_step kills s s' \<Longrightarrow> flow_ok s \<Longrightarrow> flow_ok s'"
proof (induction rule: pipe_step.induct)
  case (put s i n cs k r w p)
  then show ?case using pipewrite_flow [OF _ put(3)] by (simp add: flow_ok_def)
next
  case (get s i n k r w p)
  then show ?case using piperead_spec [OF _ get(3)] by (simp add: flow_ok_def)
qed (auto simp: flow_ok_def pipeclose_simps)

lemma ends_step: "pipe_step kills s s' \<Longrightarrow> flow_ok s \<Longrightarrow> ends_ok s \<Longrightarrow> ends_ok s'"
proof (induction rule: pipe_step.induct)
  case (put s i n cs k r w p)
  then show ?case using pipewrite_flow(2,3) [OF _ put(3)] by (auto simp: ends_ok_def flow_ok_def becomes_def)
next
  case (get s i n k r w p)
  then show ?case using piperead_spec(2,3) [OF _ get(3)] by (auto simp: ends_ok_def flow_ok_def becomes_def)
next
  case (close_write s w f p)
  note c = pipeclose_simps [OF close_write(2)]
  show ?case using close_write(1,4) c by (simp add: ends_ok_def)
next
  case (close_read s w f p)
  note c = pipeclose_simps [OF close_read(2)]
  show ?case using close_read(1,4) c by (simp add: ends_ok_def)
qed (auto simp: ends_ok_def split: if_splits)

lemma sleepers_step:
  "pipe_step kills s s' \<Longrightarrow> \<not> kills \<Longrightarrow> flow_ok s \<Longrightarrow> ends_ok s \<Longrightarrow> sleepers_ok s \<Longrightarrow> sleepers_ok s'"
proof (induction rule: pipe_step.induct)
  case (put s i n cs k r w p)
  then have ok: "pipe_ok (the_pipe s)" and nk: "\<not> k" by (auto simp: flow_ok_def)
  note f = pipewrite_flow [OF ok put(3)]
  have full: "length (contents p) = PIPESIZE" if "length (contents (the_pipe s)) = PIPESIZE"
  proof -
    have "length (contents (the_pipe s)) + min (length cs) (unat (nwrite p - nwrite (the_pipe s))) = length (contents p)"
      using f(4) by simp
    moreover have "length (contents p) \<le> PIPESIZE" using f(1) by (simp add: pipe_ok_def contents_def)
    ultimately show ?thesis using that by linarith
  qed
  have empty: "contents p = []" if "acts s j = Asleep_reading m" "Nread \<notin> set w" for j m
    using that f(5) nk put(6,7) by (auto simp: ends_ok_def sleepers_ok_def)
  show ?case
    using put(7) f(2,3,6) full empty unfolding sleepers_ok_def by (auto simp: becomes_def)
next
  case (get s i n k r w p)
  then have ok: "pipe_ok (the_pipe s)" by (simp add: flow_ok_def)
  note f = piperead_spec [OF ok get(3)]
  show ?case
    using get(7) f(2-6) unfolding sleepers_ok_def by (auto simp: becomes_def split: if_splits)
next
  case (close_write s w f p)
  note c = pipeclose_simps [OF close_write(2)]
  show ?case using close_write(1,6) c by (auto simp: sleepers_ok_def)
next
  case (close_read s w f p)
  note c = pipeclose_simps [OF close_read(2)]
  show ?case using close_read(1,6) c by (auto simp: sleepers_ok_def)
qed (auto simp: sleepers_ok_def split: if_splits)

lemma pipe_start_ok: "pipe_start s \<Longrightarrow> flow_ok s \<and> ends_ok s \<and> sleepers_ok s"
  by (auto simp: pipe_start_def flow_ok_def ends_ok_def sleepers_ok_def pipe_ok_def contents_def pipeinit_def)

interpretation pipe_flow: transition_invariant pipe_start "pipe_step kills" flow_ok
  by unfold_locales (simp_all add: pipe_start_ok flow_step)

interpretation pipe_sleepers: transition_invariant pipe_start "pipe_step False"
  "\<lambda>s. flow_ok s \<and> ends_ok s \<and> sleepers_ok s"
  using flow_step [of False] ends_step [of False] sleepers_step [of False] by unfold_locales (auto simp: pipe_start_ok)

section \<open>Properties\<close>

text \<open>C18: however any number of readers and writers interleave their calls on a pipe, killed or not, the
  bytes read so far are a prefix of the bytes written so far, in order, and what is missing is what
  the pipe holds, at most \<open>PIPESIZE\<close> bytes; the free-running counters may wrap around.\<close>

theorem pipe_is_fifo:
  assumes "pipe_start s" and "(pipe_step kills)\<^sup>*\<^sup>* s s'"
  shows "sent s' = received s' @ contents (the_pipe s') \<and> length (contents (the_pipe s')) \<le> PIPESIZE"
proof -
  have "flow_ok s'" by (rule pipe_flow.reachable_inv [OF assms])
  then show ?thesis by (simp add: flow_ok_def pipe_ok_def contents_def)
qed

definition fresh_pipe :: pipe_system where
  "fresh_pipe = \<lparr>the_pipe = pipeinit \<lparr>data = replicate PIPESIZE 1, nread = 0, nwrite = 0, readopen = False, writeopen = False\<rparr>,
     acts = (\<lambda>i. Idle), sent = [], received = []\<rparr>"

lemma fresh_pipe_start: "pipe_start fresh_pipe"
  unfolding pipe_start_def fresh_pipe_def
  by (auto intro!: exI [of _ "\<lparr>data = replicate PIPESIZE 1, nread = 0, nwrite = 0, readopen = False, writeopen = False\<rparr>"])

lemma fresh_write:
  assumes "length cs < 512"
  shows "\<exists>s. (pipe_step kills)\<^sup>*\<^sup>* fresh_pipe s \<and> sent s = cs \<and> acts s 1 = Idle"
proof -
  let ?s1 = "fresh_pipe\<lparr>acts := (acts fresh_pipe)(1 := Writing (int (length cs)) cs)\<rparr>"
  have 1: "pipe_step kills fresh_pipe ?s1"
    by (rule pipe_step.call_write) (simp_all add: fresh_pipe_def pipeinit_def)
  obtain r w p where r: "pipewrite False (int (length cs)) cs (the_pipe ?s1) = (r, w, p)" by (metis prod_cases3)
  have ok: "pipe_ok (the_pipe ?s1)" by (simp add: fresh_pipe_def pipe_ok_def pipeinit_def)
  have emp: "contents (the_pipe ?s1) = []" by (simp add: fresh_pipe_def pipeinit_def contents_def)
  obtain taken rest where t: "cs = taken @ rest" "contents p = taken" "write_ends False (int (length cs)) p rest r w"
    "nwrite p = nwrite (the_pipe ?s1) + of_nat (length taken)" "readopen p = readopen (the_pipe ?s1)"
    using pipewrite_spec [OF ok r] emp by auto
  have "rest = []" "r = Wrote (int (length cs))"
    using t assms by (auto simp: write_ends_def PIPESIZE_def fresh_pipe_def pipeinit_def split: write_result.splits)
  moreover have "unat (nwrite p - nwrite (the_pipe ?s1)) = length taken"
    using t(1,4) assms by (simp add: unat_of_nat_u32)
  ultimately have "pipe_step kills ?s1 (?s1\<lparr>the_pipe := p, acts := becomes 1 Idle w (acts ?s1), sent := sent ?s1 @ cs\<rparr>)"
    using pipe_step.put [of ?s1 1 "int (length cs)" cs False kills r w p] r t(1) by simp
  with 1 show ?thesis
    by (intro exI [of _ "?s1\<lparr>the_pipe := p, acts := becomes 1 Idle w (acts ?s1), sent := sent ?s1 @ cs\<rparr>"] conjI)
      (auto simp: fresh_pipe_def becomes_def intro: rtranclp.rtrancl_into_rtrancl)
qed

theorem pipe_is_fifo_witness:
  "\<exists>s. (pipe_step True)\<^sup>*\<^sup>* fresh_pipe s \<and> sent s = [104, 105] \<and> [104, 105] = received s @ contents (the_pipe s)"
proof -
  obtain s where "(pipe_step True)\<^sup>*\<^sup>* fresh_pipe s" "sent s = [104, 105]" using fresh_write [of "[104, 105]"] by auto
  with pipe_is_fifo [OF fresh_pipe_start this(1)] show ?thesis by auto
qed

text \<open>C19: as long as no process that uses the pipe is killed, no wake-up is lost: a process sleeps in
  \<open>piperead\<close> only while the pipe is empty and has a writer, and in \<open>pipewrite\<close> only while the pipe is
  full and has a reader, so never both.\<close>

theorem pipe_no_lost_wakeup:
  assumes "pipe_start s" and "(pipe_step False)\<^sup>*\<^sup>* s s'"
  shows "(\<forall>i n. acts s' i = Asleep_reading n \<longrightarrow> contents (the_pipe s') = [] \<and> writeopen (the_pipe s')) \<and>
    (\<forall>i n cs. acts s' i = Asleep_writing n cs \<longrightarrow> length (contents (the_pipe s')) = PIPESIZE \<and> readopen (the_pipe s')) \<and>
    \<not> (\<exists>i j n m cs. acts s' i = Asleep_reading n \<and> acts s' j = Asleep_writing m cs)"
proof -
  have "sleepers_ok s'" using pipe_sleepers.reachable_inv [OF assms] by blast
  then show ?thesis unfolding sleepers_ok_def by (auto simp: PIPESIZE_def)
qed

theorem pipe_no_lost_wakeup_witness:
  "\<exists>s. (pipe_step False)\<^sup>*\<^sup>* fresh_pipe s \<and> sent s = [7] \<and>
     (\<forall>i n. acts s i = Asleep_reading n \<longrightarrow> contents (the_pipe s) = [])"
proof -
  obtain s where "(pipe_step False)\<^sup>*\<^sup>* fresh_pipe s" "sent s = [7]" using fresh_write [of "[7]"] by auto
  moreover from pipe_no_lost_wakeup [OF fresh_pipe_start this(1)]
  have "\<forall>i n. acts s i = Asleep_reading n \<longrightarrow> contents (the_pipe s) = []" by blast
  ultimately show ?thesis by blast
qed

text \<open>When a writer is killed, a wake-up can be lost: it fills the pipe, sees that it was killed and
  returns without \<open>wakeup(&p->nread)\<close>, and a reader goes on sleeping although the pipe is full and both
  ends are open.\<close>

theorem killed_writer_loses_wakeup:
  "\<exists>s. (pipe_step True)\<^sup>*\<^sup>* fresh_pipe s \<and> acts s 2 = Asleep_reading 5 \<and> acts s 1 = Idle \<and>
     length (contents (the_pipe s)) = PIPESIZE \<and> readopen (the_pipe s) \<and> writeopen (the_pipe s)"
proof -
  let ?cs = "replicate 513 (0 :: byte)"
  let ?s1 = "fresh_pipe\<lparr>acts := (acts fresh_pipe)(2 := Reading 5)\<rparr>"
  let ?s2 = "?s1\<lparr>acts := (acts ?s1)(2 := Asleep_reading 5)\<rparr>"
  let ?s3 = "?s2\<lparr>acts := (acts ?s2)(1 := Writing 513 ?cs)\<rparr>"
  have 1: "pipe_step True fresh_pipe ?s1" by (rule pipe_step.call_read) (simp_all add: fresh_pipe_def pipeinit_def)
  have "piperead False 5 (the_pipe ?s1) = (Read_sleeps, [], the_pipe ?s1)"
    by (simp add: piperead_def fresh_pipe_def pipeinit_def)
  from pipe_step.get [OF _ _ this, of 2 True] have 2: "pipe_step True ?s1 ?s2"
    by (simp add: fresh_pipe_def)
  have 3: "pipe_step True ?s2 ?s3" by (rule pipe_step.call_write) (simp_all add: fresh_pipe_def pipeinit_def)
  obtain r w p where r: "pipewrite True 513 ?cs (the_pipe ?s3) = (r, w, p)" by (metis prod_cases3)
  have ok: "pipe_ok (the_pipe ?s3)" by (simp add: fresh_pipe_def pipe_ok_def pipeinit_def)
  obtain taken rest where t: "?cs = taken @ rest" "contents p = contents (the_pipe ?s3) @ taken" "write_ends True 513 p rest r w"
    "readopen p = readopen (the_pipe ?s3)" "writeopen p = writeopen (the_pipe ?s3)" "pipe_ok p"
    using pipewrite_spec [OF ok r] by blast
  have open_ends: "readopen p" "writeopen p" using t(4,5) by (simp_all add: fresh_pipe_def pipeinit_def)
  have "rest \<noteq> []"
  proof
    assume "rest = []"
    with t(1) have "length taken = 513" unfolding \<open>rest = []\<close> by (metis append_Nil2 length_replicate)
    moreover have "length taken \<le> length (contents p)" using t(2) by simp
    moreover have "length (contents p) \<le> 512" using t(6) by (simp add: pipe_ok_def contents_def PIPESIZE_def)
    ultimately show False by simp
  qed
  with t(3) have done_up: "r = Wrote (-1)" "w = []" "length (contents p) = PIPESIZE"
    by (auto simp: write_ends_def split: write_result.splits)
  let ?s4 = "?s3\<lparr>the_pipe := p, acts := becomes 1 Idle [] (acts ?s3),
      sent := sent ?s3 @ take (unat (nwrite p - nwrite (the_pipe ?s3))) ?cs\<rparr>"
  have 4: "pipe_step True ?s3 ?s4"
    using pipe_step.put [of ?s3 1 513 ?cs True True r w p] r done_up by simp
  have "(pipe_step True)\<^sup>*\<^sup>* fresh_pipe ?s4"
    using 1 2 3 4 by (meson converse_rtranclp_into_rtranclp rtranclp.rtrancl_refl)
  moreover have "acts ?s4 2 = Asleep_reading 5" "acts ?s4 1 = Idle" by simp_all
  ultimately show ?thesis using done_up open_ends by (intro exI [of _ ?s4]) simp
qed

end
