(* ===== verification/Console.thy ===== *)
theory Console
  imports Ring
begin

text \<open>
  The console (\<open>console.c\<close>): the display memory with its cursor, and the line discipline of the input
  buffer. \<open>consoleintr\<close> edits the line between the write and the edit index; a newline, a control-D or a
  full buffer commits it, and \<open>consoleread\<close> takes committed bytes. The lock \<open>cons.lock\<close> is held in
  each definition from its start to its end, or to the \<open>sleep\<close> at which it stops. What \<open>consputc\<close> is
  asked to print is recorded as a list of codes. The number formatting of \<open>cprintf\<close> is in \<open>Printf\<close>.
\<close>

section \<open>The display\<close>

definition BACKSPACE :: int where "BACKSPACE = 0x100"

record display =
  crt :: "u16 list"
  cursor :: nat

text \<open>The cursor register has 16 bits. \<open>None\<close> is the panic on a cursor outside the screen.\<close>

definition cgaputc :: "int \<Rightarrow> display \<Rightarrow> display option" where
  "cgaputc c d = do {
     let pos = int (cursor d);
     (mem, pos) \<leftarrow>
       (if c = 10 then Some (crt d, pos + (80 - pos mod 80))
        else if c = BACKSPACE then Some (crt d, if 0 < pos then pos - 1 else pos)
        else do {
          mem \<leftarrow> aset (crt d) (nat pos) (or (and (of_int c) 0xff) 0x0700);
          Some (mem, pos + 1)
        });
     (if pos < 0 \<or> 25 * 80 < pos then None
      else do {
        let (mem, pos) =
          (if 24 \<le> pos div 80
           then let mem = overlay mem 0 (segment mem 80 (23 * 80)); pos = pos - 80
                in (overlay mem (nat pos) (replicate (nat (24 * 80 - pos)) 0), pos)
           else (mem, pos));
        mem \<leftarrow> aset mem (nat pos) 0x0720;
        Some \<lparr>crt = mem, cursor = nat pos mod 2 ^ 16\<rparr>
      })
   }"

definition uart_codes :: "int \<Rightarrow> int list" where
  "uart_codes c = (if c = BACKSPACE then [8, 32, 8] else [c])"

text \<open>\<open>consputc\<close> before a panic: the codes sent to the serial port, and the display.\<close>

definition consputc :: "int \<Rightarrow> display \<Rightarrow> (int list \<times> display) option" where
  "consputc c d = do { d \<leftarrow> cgaputc c d; Some (uart_codes c, d) }"

fun consputs :: "int list \<Rightarrow> display \<Rightarrow> (int list \<times> display) option" where
  "consputs [] d = Some ([], d)"
| "consputs (c # cs) d = do {
     (u, d) \<leftarrow> consputc c d;
     (v, d) \<leftarrow> consputs cs d;
     Some (u @ v, d)
   }"

definition consolewrite :: "byte list \<Rightarrow> display \<Rightarrow> (int \<times> int list \<times> display) option" where
  "consolewrite buf d = do {
     (u, d) \<leftarrow> consputs (map uint buf) d;
     Some (int (length buf), u, d)
   }"

definition display_ok :: "display \<Rightarrow> bool" where
  "display_ok d \<longleftrightarrow> length (crt d) = 25 * 80 \<and> cursor d < 24 * 80"

lemma cgaputc_total:
  assumes "display_ok d"
  shows "\<exists>d'. cgaputc c d = Some d' \<and> display_ok d'"
proof -
  let ?pos = "int (cursor d)"
  have pos: "0 \<le> ?pos" "?pos < 1920" "length (crt d) = 2000" using assms by (simp_all add: display_ok_def)
  obtain mem p where mp: "(if c = 10 then Some (crt d, ?pos + (80 - ?pos mod 80))
      else if c = BACKSPACE then Some (crt d, if 0 < ?pos then ?pos - 1 else ?pos)
      else do {
        mem \<leftarrow> aset (crt d) (nat ?pos) (or (and (of_int c) 0xff) 0x0700);
        Some (mem, ?pos + 1)
      }) = Some (mem, p)" "length mem = 2000" "0 \<le> p" "p \<le> 1920"
  proof (cases "c = 10")
    case True
    have "?pos + (80 - ?pos mod 80) = 80 * (?pos div 80) + 80" using div_mult_mod_eq [of ?pos 80] by linarith
    moreover have "?pos div 80 \<le> 23" using pos(2) by linarith
    moreover have "0 \<le> ?pos div 80" using pos(1) by simp
    ultimately have b: "0 \<le> ?pos + (80 - ?pos mod 80)" "?pos + (80 - ?pos mod 80) \<le> 1920" by linarith+
    show thesis by (rule that [OF _ pos(3) b]) (simp add: True)
  next
    case False
    show thesis
    proof (cases "c = BACKSPACE")
      case True
      show thesis by (rule that [of "crt d" "if 0 < ?pos then ?pos - 1 else ?pos"]) (use True False pos in auto)
    next
      case nb: False
      show thesis
        by (rule that [of "(crt d)[nat ?pos := or (and (of_int c) 0xff) 0x0700]" "?pos + 1"])
          (use nb False pos in \<open>auto simp: aset_def\<close>)
    qed
  qed
  show ?thesis
  proof (cases "24 \<le> p div 80")
    case True
    with mp(4) have p: "p = 1920" by linarith
    then show ?thesis using mp by (simp add: cgaputc_def Let_def aset_def display_ok_def)
  next
    case False
    then have "p < 1920" by linarith
    with mp False show ?thesis by (simp add: cgaputc_def Let_def aset_def display_ok_def nat_less_iff)
  qed
qed

lemma consputs_total: "display_ok d \<Longrightarrow> \<exists>d'. consputs cs d = Some (concat (map uart_codes cs), d') \<and> display_ok d'"
proof (induction cs arbitrary: d)
  case (Cons c cs)
  obtain d1 where d1: "cgaputc c d = Some d1" "display_ok d1" using cgaputc_total [OF Cons.prems] by blast
  obtain d2 where "consputs cs d1 = Some (concat (map uart_codes cs), d2)" "display_ok d2"
    using Cons.IH [OF d1(2)] by blast
  with d1(1) show ?case by (simp add: consputc_def)
qed simp

section \<open>The input buffer\<close>

definition INPUT_BUF :: nat where "INPUT_BUF = 128"

record console_input =
  ibuf :: "byte list"
  ir :: u32
  iw :: u32
  ie :: u32

text \<open>The loop for control-U, and the codes it prints.\<close>

function kill_line :: "console_input \<Rightarrow> int list \<times> console_input" where
  "kill_line s =
     (if ie s \<noteq> iw s \<and> ibuf s ! unat ((ie s - 1) mod of_nat INPUT_BUF) \<noteq> 10
      then let (out, s) = kill_line (s\<lparr>ie := ie s - 1\<rparr>) in (BACKSPACE # out, s)
      else ([], s))"
  by pat_completeness auto


termination
proof (relation "measure (\<lambda>s. unat (ie s - iw s))")
  show "wf (measure (\<lambda>s :: console_input. unat (ie s - iw s)))" by simp
next
  fix s :: console_input
  assume "ie s \<noteq> iw s \<and> ibuf s ! unat ((ie s - 1) mod of_nat INPUT_BUF) \<noteq> 10"
  then have "unat (ie s - 1 - iw s) + 1 = unat (ie s - iw s)" by (intro u32_shrink) auto
  then show "(s\<lparr>ie := ie s - 1\<rparr>, s) \<in> measure (\<lambda>s. unat (ie s - iw s))" by simp
qed

declare kill_line.simps [simp del]

text \<open>One character: the codes printed, whether the readers are woken, and whether \<open>procdump\<close> is to run.\<close>

definition consoleintr_char :: "int \<Rightarrow> console_input \<Rightarrow> int list \<times> bool \<times> bool \<times> console_input" where
  "consoleintr_char c s =
     (if c = 16 then ([], False, True, s)
      else if c = 21 then let (out, s) = kill_line s in (out, False, False, s)
      else if c = 8 \<or> c = 127 then
        (if ie s \<noteq> iw s then ([BACKSPACE], False, False, s\<lparr>ie := ie s - 1\<rparr>) else ([], False, False, s))
      else if c \<noteq> 0 \<and> ie s - ir s < of_nat INPUT_BUF then
        let c = (if c = 13 then 10 else c);
            s = s\<lparr>ibuf := (ibuf s)[unat (ie s mod of_nat INPUT_BUF) := of_int c], ie := ie s + 1\<rparr>
        in if c = 10 \<or> c = 4 \<or> ie s = ir s + of_nat INPUT_BUF
           then ([c], True, False, s\<lparr>iw := ie s\<rparr>)
           else ([c], False, False, s)
      else ([], False, False, s))"

text \<open>The loop over the values of \<open>getc\<close>, which ends at the first negative one.\<close>

fun consoleintr :: "int list \<Rightarrow> console_input \<Rightarrow> int list \<times> bool \<times> bool \<times> console_input" where
  "consoleintr [] s = ([], False, False, s)"
| "consoleintr (c # cs) s =
     (if c < 0 then ([], False, False, s)
      else
        let (out, w, d, s) = consoleintr_char c s;
            (out', w', d', s) = consoleintr cs s
        in (out @ out', w \<or> w', d \<or> d', s))"

text \<open>\<open>consoleread\<close> from one check of the indices to its end or to the next \<open>sleep\<close>, with \<open>n\<close> bytes
  left to read: the bytes stored at \<open>dst\<close>.\<close>

datatype console_result = Done | Killed | Sleeps nat

fun consoleread_loop :: "bool \<Rightarrow> nat \<Rightarrow> nat \<Rightarrow> console_input \<Rightarrow> console_result \<times> byte list \<times> console_input" where
  "consoleread_loop killed target 0 s = (Done, [], s)"
| "consoleread_loop killed target (Suc n) s =
     (if ir s = iw s then (if killed then (Killed, [], s) else (Sleeps (Suc n), [], s))
      else
        let c = ibuf s ! unat (ir s mod of_nat INPUT_BUF);
            s = s\<lparr>ir := ir s + 1\<rparr>
        in if c = 4 then (Done, [], if Suc n < target then s\<lparr>ir := ir s - 1\<rparr> else s)
           else if c = 10 then (Done, [c], s)
           else let (r, cs, s) = consoleread_loop killed target n s in (r, c # cs, s))"

definition consoleread :: "bool \<Rightarrow> int \<Rightarrow> console_input \<Rightarrow> console_result \<times> byte list \<times> console_input" where
  "consoleread killed n s = consoleread_loop killed (nat n) (nat n) s"

section \<open>The line discipline\<close>

interpretation input_ring: ring INPUT_BUF
  by unfold_locales (simp_all add: INPUT_BUF_def)

definition committed :: "console_input \<Rightarrow> byte list" where
  "committed s = ring_contents (ibuf s) (ir s) (iw s)"

definition editing :: "console_input \<Rightarrow> byte list" where
  "editing s = ring_contents (ibuf s) (iw s) (ie s)"

definition input_ok :: "console_input \<Rightarrow> bool" where
  "input_ok s \<longleftrightarrow> length (ibuf s) = INPUT_BUF \<and> unat (iw s - ir s) \<le> unat (ie s - ir s) \<and>
     unat (ie s - ir s) \<le> INPUT_BUF \<and> 10 \<notin> set (editing s)"

text \<open>The specification on the committed bytes and the line being edited.\<close>

definition edit :: "int \<Rightarrow> byte list \<times> byte list \<Rightarrow> byte list \<times> byte list" where
  "edit c = (\<lambda>(d, l).
     if c = 16 then (d, l)
     else if c = 21 then (d, [])
     else if c = 8 \<or> c = 127 then (d, butlast l)
     else if c \<noteq> 0 \<and> length d + length l < INPUT_BUF then
       let c = (if c = 13 then 10 else c); l = l @ [of_int c] in
       if c = 10 \<or> c = 4 \<or> length d + length l = INPUT_BUF then (d @ l, []) else (d, l)
     else (d, l))"

lemma all_input:
  assumes "input_ok s"
  shows "ring_contents (ibuf s) (ir s) (ie s) = committed s @ editing s"
    "unat (ie s - ir s) = length (committed s) + length (editing s)"
proof -
  show r: "ring_contents (ibuf s) (ir s) (ie s) = committed s @ editing s"
    using assms input_ring.prefix [of "ibuf s" "iw s" "ir s" "ie s"] by (simp add: input_ok_def committed_def editing_def)
  then have "length (ring_contents (ibuf s) (ir s) (ie s)) = length (committed s @ editing s)" by (rule arg_cong)
  then show "unat (ie s - ir s) = length (committed s) + length (editing s)" by simp
qed

lemma editing_newest:
  assumes "length (ibuf s) = INPUT_BUF" "ie s \<noteq> iw s"
  shows "editing s = editing (s\<lparr>ie := ie s - 1\<rparr>) @ [ibuf s ! unat ((ie s - 1) mod of_nat INPUT_BUF)]"
proof -
  have "iw s \<noteq> ie s" using assms(2) by simp
  then show ?thesis
    using input_ring.newest [OF assms(1)] by (simp add: editing_def input_ring.index_mod)
qed

lemma editing_Nil: "editing s = [] \<longleftrightarrow> ie s = iw s"
  unfolding editing_def by (metis length_0_conv length_ring_contents right_minus_eq unat_eq_0)

lemma input_okI:
  assumes "length (ibuf s) = INPUT_BUF" "unat (ie s - ir s) = unat (iw s - ir s) + unat (ie s - iw s)"
    "unat (ie s - ir s) \<le> INPUT_BUF" "10 \<notin> set (editing s)"
  shows "input_ok s"
  using assms by (simp add: input_ok_def)

lemma input_okD:
  assumes "input_ok s"
  shows "length (ibuf s) = INPUT_BUF" "unat (ie s - ir s) = unat (iw s - ir s) + unat (ie s - iw s)"
    "unat (ie s - ir s) \<le> INPUT_BUF" "10 \<notin> set (editing s)"
  using assms all_input(2) [OF assms] by (simp_all add: input_ok_def committed_def editing_def)

lemma erase_one:
  assumes ok: "input_ok s" and ne: "ie s \<noteq> iw s"
  defines "s' \<equiv> s\<lparr>ie := ie s - 1\<rparr>"
  shows "input_ok s'" "committed s' = committed s" "editing s' = butlast (editing s)"
proof -
  note D = input_okD [OF ok]
  have e: "editing s = editing s' @ [ibuf s ! unat ((ie s - 1) mod of_nat INPUT_BUF)]"
    using editing_newest [OF D(1) ne] by (simp add: s'_def)
  then show "editing s' = butlast (editing s)" by simp
  have 1: "unat (ie s' - iw s') + 1 = unat (ie s - iw s)" using u32_shrink [of "iw s" "ie s"] ne by (simp add: s'_def)
  have "ie s \<noteq> ir s" using D(2) 1 by auto
  then have 2: "unat (ie s' - ir s') + 1 = unat (ie s - ir s)" using u32_shrink [of "ir s" "ie s"] by (simp add: s'_def)
  have 3: "iw s' = iw s" "ir s' = ir s" "ibuf s' = ibuf s" by (simp_all add: s'_def)
  have "10 \<notin> set (editing s')" using D(4) e by auto
  then show "input_ok s'" using D 1 2 3 by (intro input_okI) simp_all
  show "committed s' = committed s" by (simp add: committed_def s'_def)
qed

lemma kill_line_spec:
  assumes "input_ok s"
  shows "\<exists>out s'. kill_line s = (out, s') \<and> input_ok s' \<and> committed s' = committed s \<and> editing s' = [] \<and>
    ir s' = ir s \<and> out = replicate (length (editing s)) BACKSPACE"
  using assms
proof (induction s rule: kill_line.induct)
  case (1 s)
  note D = input_okD [OF 1(2)]
  show ?case
  proof (cases "ie s = iw s")
    case True
    then show ?thesis using 1(2) editing_Nil [of s] by (simp add: kill_line.simps [of s])
  next
    case False
    note e = erase_one [OF 1(2) False]
    have last: "editing s = editing (s\<lparr>ie := ie s - 1\<rparr>) @ [ibuf s ! unat ((ie s - 1) mod of_nat INPUT_BUF)]"
      by (rule editing_newest [OF D(1) False])
    then have guard: "ie s \<noteq> iw s \<and> ibuf s ! unat ((ie s - 1) mod of_nat INPUT_BUF) \<noteq> 10"
      using D(4) False by auto
    obtain out s' where "kill_line (s\<lparr>ie := ie s - 1\<rparr>) = (out, s')" "input_ok s'"
      "committed s' = committed (s\<lparr>ie := ie s - 1\<rparr>)" "editing s' = []" "ir s' = ir s"
      "out = replicate (length (editing (s\<lparr>ie := ie s - 1\<rparr>))) BACKSPACE"
      using 1(1) [OF guard e(1)] by auto
    then show ?thesis using guard e(2) last by (simp add: kill_line.simps [of s])
  qed
qed

text \<open>Storing a byte at the edit index.\<close>

lemma type_one:
  fixes c :: byte
  assumes ok: "input_ok s" and room: "unat (ie s - ir s) < INPUT_BUF"
  defines "s' \<equiv> s\<lparr>ibuf := (ibuf s)[unat (ie s mod of_nat INPUT_BUF) := c], ie := ie s + 1\<rparr>"
  shows "committed s' = committed s" "editing s' = editing s @ [c]" "length (ibuf s') = INPUT_BUF"
    "unat (ie s' - ir s') = unat (ie s - ir s) + 1" "unat (ie s' - iw s') = unat (ie s - iw s) + 1"
proof -
  note D = input_okD [OF ok]
  have 1: "unat (ie s + 1 - ir s) = unat (ie s - ir s) + 1" "unat (ie s + 1 - iw s) = unat (ie s - iw s) + 1"
    by (rule u32_diff_Suc [of _ _ INPUT_BUF]; use room D(2) in \<open>simp add: INPUT_BUF_def\<close>)+
  then show "unat (ie s' - ir s') = unat (ie s - ir s) + 1" "unat (ie s' - iw s') = unat (ie s - iw s) + 1"
    "length (ibuf s') = INPUT_BUF" using D(1) by (simp_all add: s'_def)
  have room': "unat (ie s - iw s) < INPUT_BUF" using room D(2) by simp
  show ed: "editing s' = editing s @ [c]"
    using input_ring.put [OF D(1) room', of c] by (simp add: editing_def s'_def input_ring.index_mod)
  have "ring_contents (ibuf s') (ir s') (ie s') = ring_contents (ibuf s) (ir s) (ie s) @ [c]"
    using input_ring.put [OF D(1) room, of c] by (simp add: s'_def input_ring.index_mod)
  moreover have "ring_contents (ibuf s') (ir s') (ie s') = committed s' @ editing s'"
    using input_ring.prefix [of "ibuf s'" "iw s'" "ir s'" "ie s'"] D(1,2) 1
    by (simp add: committed_def editing_def s'_def)
  ultimately show "committed s' = committed s"
    using ed all_input(1) [OF ok] by simp
qed

lemma u32_less_size: "x < of_nat INPUT_BUF \<longleftrightarrow> unat (x :: u32) < INPUT_BUF"
  by (simp add: word_less_nat_alt INPUT_BUF_def)

lemma u32_full: "a = b + of_nat INPUT_BUF \<longleftrightarrow> unat (a - b :: u32) = INPUT_BUF"
proof -
  have "a = b + of_nat INPUT_BUF \<longleftrightarrow> a - b = of_nat INPUT_BUF" by (auto simp: algebra_simps)
  also have "\<dots> \<longleftrightarrow> unat (a - b) = INPUT_BUF" by (simp add: word_unat_eq_iff INPUT_BUF_def)
  finally show ?thesis .
qed

lemma byte_newline: "0 \<le> c \<Longrightarrow> c < 256 \<Longrightarrow> (of_int c :: byte) = 10 \<longleftrightarrow> c = 10"
proof
  assume c: "0 \<le> c" "c < 256" "(of_int c :: byte) = 10"
  then have "uint (of_int c :: byte) = 10" by simp
  then show "c = 10" using c(1,2) by (simp add: uint_word_of_int)
qed simp

lemma consoleintr_char_spec:
  assumes ok: "input_ok s" and c: "0 \<le> c" "c < 256" "consoleintr_char c s = (out, w, d, s')"
  shows "input_ok s' \<and> (committed s', editing s') = edit c (committed s, editing s) \<and>
    ir s' = ir s \<and> (w \<longleftrightarrow> length (committed s) < length (committed s'))"
proof -
  note D = input_okD [OF ok]
  have len: "length (committed s) + length (editing s) = unat (ie s - ir s)" using all_input(2) [OF ok] by simp
  show ?thesis
  proof (cases "c = 16 \<or> c = 21 \<or> c = 8 \<or> c = 127")
    case True
    then show ?thesis
      using ok c(3) erase_one [OF ok] kill_line_spec [OF ok] editing_Nil [of s]
      by (auto simp: consoleintr_char_def edit_def split: if_splits prod.splits)
  next
    case False
    show ?thesis
    proof (cases "c \<noteq> 0 \<and> unat (ie s - ir s) < INPUT_BUF")
      case no: False
      then show ?thesis using False ok c(3) len by (auto simp: consoleintr_char_def edit_def u32_less_size split: if_splits)
    next
      case room: True
      define c1 where "c1 = (if c = 13 then 10 else c)"
      define s1 where "s1 = s\<lparr>ibuf := (ibuf s)[unat (ie s mod of_nat INPUT_BUF) := of_int c1], ie := ie s + 1\<rparr>"
      note T = type_one [OF ok conjunct2 [OF room], of "of_int c1", folded s1_def]
      have c1: "0 \<le> c1" "c1 < 256" using c(1,2) by (simp_all add: c1_def)
      have same: "iw s1 = iw s" "ir s1 = ir s" by (simp_all add: s1_def)
      have full: "ie s1 = ir s1 + of_nat INPUT_BUF \<longleftrightarrow> length (committed s) + length (editing s @ [of_int c1]) = INPUT_BUF"
        using T(4) len by (simp add: u32_full same)
      let ?commit = "c1 = 10 \<or> c1 = 4 \<or> ie s1 = ir s1 + of_nat INPUT_BUF"
      have run: "(out, w, d, s') = (if ?commit then ([c1], True, False, s1\<lparr>iw := ie s1\<rparr>) else ([c1], False, False, s1))"
        unfolding c(3) [symmetric] consoleintr_char_def c1_def s1_def
        using False room by (simp add: u32_less_size Let_def)
      have spec: "edit c (committed s, editing s) = (if ?commit then (committed s1 @ editing s1, []) else (committed s1, editing s1))"
        unfolding full T(1,2) using False room len by (simp add: edit_def Let_def c1_def)
      show ?thesis
      proof (cases ?commit)
        case True
        let ?s = "s1\<lparr>iw := ie s1\<rparr>"
        have s': "s' = ?s" "w" using run True by simp_all
        have e: "editing ?s = []" by (simp add: editing_def)
        have "ring_contents (ibuf s1) (ir s1) (ie s1) = committed s1 @ editing s1"
          using input_ring.prefix [of "ibuf s1" "iw s1" "ir s1" "ie s1"] T D same by (simp add: committed_def editing_def)
        then have co: "committed ?s = committed s1 @ editing s1" by (simp add: committed_def)
        have "input_ok ?s"
          using T(3,4) room e by (intro input_okI) (simp_all add: same)
        with s' e co spec True T(1,2) show ?thesis by (simp add: same)
      next
        case no: False
        have s': "s' = s1" "\<not> w" using run no by simp_all
        have "10 \<notin> set (editing s1)" using D(4) no T(2) byte_newline [OF c1] by auto
        then have "input_ok s1"
          using T(3-5) room D(2) by (intro input_okI) (simp_all add: same)
        with s' spec no T(1) show ?thesis by (simp add: same)
      qed
    qed
  qed
qed

lemma consoleintr_spec:
  assumes "input_ok s" "\<And>c. c \<in> set cs \<Longrightarrow> 0 \<le> c \<and> c < 256" "consoleintr cs s = (out, w, d, s')"
  shows "input_ok s' \<and> (committed s', editing s') = fold edit cs (committed s, editing s) \<and> ir s' = ir s"
  using assms
proof (induction cs arbitrary: s out w d)
  case Nil
  then show ?case by simp
next
  case (Cons c cs)
  obtain o1 w1 d1 s1 where 1: "consoleintr_char c s = (o1, w1, d1, s1)" by (metis prod_cases4)
  obtain o2 w2 d2 where 2: "consoleintr cs s1 = (o2, w2, d2, s')"
    using Cons.prems(2) [of c] Cons.prems(3) 1 by (auto simp: Let_def split: prod.splits)
  have c: "0 \<le> c" "c < 256" using Cons.prems(2) by auto
  note S = consoleintr_char_spec [OF Cons.prems(1) c 1]
  have "input_ok s' \<and> (committed s', editing s') = fold edit cs (committed s1, editing s1) \<and> ir s' = ir s1"
    by (rule Cons.IH [OF _ _ 2]) (use S Cons.prems(2) in auto)
  with S show ?case by simp
qed

text \<open>Taking one committed byte.\<close>

lemma take_one:
  assumes ok: "input_ok s" and ne: "committed s \<noteq> []"
  defines "s' \<equiv> s\<lparr>ir := ir s + 1\<rparr>"
  shows "ir s \<noteq> iw s" "input_ok s'" "editing s' = editing s"
    "committed s = ibuf s ! unat (ir s mod of_nat INPUT_BUF) # committed s'"
proof -
  note D = input_okD [OF ok]
  show w: "ir s \<noteq> iw s" using ne by (auto simp: committed_def)
  show "editing s' = editing s" by (simp add: editing_def s'_def)
  show "committed s = ibuf s ! unat (ir s mod of_nat INPUT_BUF) # committed s'"
    using input_ring.get [OF D(1), of "iw s" "ir s"] w by (simp add: committed_def s'_def input_ring.index_mod)
  have 1: "unat (iw s - (ir s + 1)) + 1 = unat (iw s - ir s)" using u32_diff_pred w by metis
  have "ie s \<noteq> ir s" using D(2) 1 by auto
  then have "unat (ie s - (ir s + 1)) + 1 = unat (ie s - ir s)" by (rule u32_diff_pred)
  then show "input_ok s'"
    using D 1 by (intro input_okI) (simp_all add: s'_def editing_def)
qed

lemma read_line:
  assumes "input_ok s" "committed s = cs @ 10 # rest" "4 \<notin> set cs" "10 \<notin> set cs" "length cs < n"
  shows "\<exists>s'. consoleread_loop k t n s = (Done, cs @ [10], s') \<and> input_ok s' \<and> committed s' = rest \<and> editing s' = editing s"
  using assms
proof (induction cs arbitrary: s n)
  case Nil
  then obtain m where n: "n = Suc m" by (cases n) auto
  have ne: "committed s \<noteq> []" using Nil.prems by simp
  note T = take_one [OF Nil.prems(1) ne]
  show ?case using T Nil.prems(2) n by simp
next
  case (Cons c cs)
  then obtain m where n: "n = Suc m" by (cases n) auto
  have ne: "committed s \<noteq> []" using Cons.prems by simp
  note T = take_one [OF Cons.prems(1) ne]
  have c: "ibuf s ! unat (ir s mod of_nat INPUT_BUF) = c" and rest: "committed (s\<lparr>ir := ir s + 1\<rparr>) = cs @ 10 # rest"
    using T(4) Cons.prems(2) by simp_all
  obtain s' where "consoleread_loop k t m (s\<lparr>ir := ir s + 1\<rparr>) = (Done, cs @ [10], s')" "input_ok s'"
    "committed s' = rest" "editing s' = editing s"
    using Cons.IH [OF T(2) rest, of m] Cons.prems n T(3) by auto
  then show ?case using T(1) c Cons.prems(3,4) n by auto
qed

text \<open>Characters that the line discipline does not interpret.\<close>

definition plain_char :: "byte \<Rightarrow> bool" where
  "plain_char c \<longleftrightarrow> c \<notin> {0, 4, 8, 10, 13, 16, 21, 127}"

lemma uint_byte_eq: "uint (c :: byte) = n \<longleftrightarrow> c = of_int n" if "0 \<le> n" "n < 256"
  using that by (auto simp: uint_word_of_int)

lemma edit_plain:
  assumes "plain_char c" "length d + length l + 1 < INPUT_BUF"
  shows "edit (uint c) (d, l) = (d, l @ [c])"
proof -
  have "uint c \<noteq> 16 \<and> uint c \<noteq> 21 \<and> uint c \<noteq> 8 \<and> uint c \<noteq> 127 \<and> uint c \<noteq> 0 \<and> uint c \<noteq> 13 \<and> uint c \<noteq> 10 \<and> uint c \<noteq> 4"
    using assms(1) by (auto simp: plain_char_def uint_byte_eq)
  then show ?thesis using assms(2) by (simp add: edit_def Let_def)
qed

lemma edit_line:
  assumes "\<And>c. c \<in> set cs \<Longrightarrow> plain_char c" "length d + length l + length cs < INPUT_BUF"
  shows "fold edit (map uint cs @ [13]) (d, l) = (d @ l @ cs @ [10], [])"
  using assms
proof (induction cs arbitrary: l)
  case Nil
  then show ?case by (simp add: edit_def Let_def)
next
  case (Cons c cs)
  have "edit (uint c) (d, l) = (d, l @ [c])" by (rule edit_plain) (use Cons.prems in auto)
  with Cons.IH [of "l @ [c]"] Cons.prems show ?case by simp
qed

section \<open>Properties\<close>

text \<open>C21: a line typed at the console is what \<open>consoleread\<close> returns, whatever was typed before it on the
  line and erased with control-U: starting with nothing committed, the bytes of the line arrive in
  order, ended by a newline although return was typed, and nothing stays in the buffer; the indices
  may have wrapped around.\<close>

theorem console_line_roundtrip:
  assumes "input_ok s" and "committed s = []" and "\<And>c. c \<in> set cs \<Longrightarrow> plain_char c"
    and "length cs < INPUT_BUF - 1" and "int (length cs) < n"
    and "consoleintr ([21] @ map uint cs @ [13]) s = (out, w, d, s')"
  shows "\<exists>s''. consoleread False n s' = (Done, cs @ [10], s'') \<and> input_ok s'' \<and> committed s'' = [] \<and> editing s'' = []"
proof -
  have range: "0 \<le> x \<and> x < 256" if "x \<in> set ([21] @ map uint cs @ [13])" for x :: int
    using that uint_lt2p [where 'a = 8] by auto
  have "fold edit ([21] @ map uint cs @ [13]) (committed s, editing s) = fold edit (map uint cs @ [13]) ([], [])"
    by (simp add: edit_def assms(2))
  also have "\<dots> = (cs @ [10], [])" using edit_line [of cs "[]" "[]"] assms(3,4) by simp
  finally have fin: "input_ok s'" "committed s' = cs @ 10 # []" "editing s' = []"
    using consoleintr_spec [OF assms(1) range assms(6)] by auto
  have "4 \<notin> set cs" "10 \<notin> set cs" using assms(3) by (auto simp: plain_char_def)
  from read_line [OF fin(1,2) this, of "nat n" False "nat n"] assms(5) fin(3) show ?thesis
    by (auto simp: consoleread_def)
qed

definition empty_input :: "u32 \<Rightarrow> console_input" where
  "empty_input i = \<lparr>ibuf = replicate INPUT_BUF 0, ir = i, iw = i, ie = i\<rparr>"

theorem console_line_roundtrip_witness:
  "\<exists>out w d s' s''. consoleintr [21, 108, 115, 13] (empty_input (-1)) = (out, w, d, s') \<and>
     consoleread False 100 s' = (Done, [108, 115, 10], s'')"
proof -
  have ok: "input_ok (empty_input (-1))" "committed (empty_input (-1)) = []"
    by (simp_all add: input_ok_def empty_input_def editing_def committed_def)
  have cs: "plain_char c" if "c \<in> set [108, 115]" for c using that by (auto simp: plain_char_def)
  obtain out w d s' where r: "consoleintr [21, 108, 115, 13] (empty_input (-1)) = (out, w, d, s')" by (metis prod_cases4)
  then have "consoleintr ([21] @ map uint [108, 115 :: byte] @ [13]) (empty_input (-1)) = (out, w, d, s')" by simp
  from console_line_roundtrip [OF ok cs _ _ this, of 100] obtain s'' where
    "consoleread False 100 s' = (Done, [108, 115] @ [10], s'')" by (auto simp: INPUT_BUF_def)
  with r show ?thesis by auto
qed

text \<open>C20: the interrupt handler implements a line editor on two lists, the committed bytes and the line
  being edited: control-U empties the line, backspace and delete drop its last byte, a newline, a
  control-D or a full buffer commits it, and no byte is stored once 128 are waiting; committed bytes
  are never changed.\<close>

theorem consoleintr_refines_editor:
  assumes "input_ok s" and "\<And>c. c \<in> set cs \<Longrightarrow> 0 \<le> c \<and> c < 256" and "consoleintr cs s = (out, w, d, s')"
  shows "input_ok s' \<and> (committed s', editing s') = fold edit cs (committed s, editing s)"
  using consoleintr_spec [OF assms] by blast

theorem consoleintr_refines_editor_witness:
  "\<exists>s'. (\<exists>out w d. consoleintr [97, 98, 8, 10] (empty_input 5) = (out, w, d, s')) \<and> committed s' = [97, 10]"
proof -
  have ok: "input_ok (empty_input 5)" "committed (empty_input 5) = []" "editing (empty_input 5) = []"
    by (simp_all add: input_ok_def empty_input_def editing_def committed_def)
  obtain out w d s' where r: "consoleintr [97, 98, 8, 10] (empty_input 5) = (out, w, d, s')" by (metis prod_cases4)
  have "0 \<le> c \<and> c < 256" if "c \<in> set [97, 98, 8, 10]" for c :: int using that by auto
  from consoleintr_refines_editor [OF ok(1) this r] have "committed s' = [97, 10]"
    by (simp add: ok edit_def INPUT_BUF_def)
  with r show ?thesis by blast
qed

text \<open>\<open>consputc\<close> never panics and never writes outside the display memory: whatever codes are
  printed, the cursor stays on the first 24 lines.\<close>

theorem console_output_total:
  assumes "length (crt d) = 25 * 80" and "cursor d < 24 * 80"
  shows "\<exists>d'. consputs cs d = Some (concat (map uart_codes cs), d') \<and> length (crt d') = 25 * 80 \<and> cursor d' < 24 * 80"
  using consputs_total [of d cs] assms by (auto simp: display_ok_def)

theorem console_output_total_witness:
  "\<exists>d'. consputs [65, BACKSPACE, 10] \<lparr>crt = replicate 2000 0, cursor = 1919\<rparr> = Some ([65, 8, 32, 8, 10], d') \<and> cursor d' < 1920"
  using console_output_total [of "\<lparr>crt = replicate 2000 0, cursor = 1919\<rparr>" "[65, BACKSPACE, 10]"]
  by (auto simp: uart_codes_def BACKSPACE_def simp del: consputs.simps)

end
