(* ===== verification/Kbd.thy ===== *)
theory Kbd
  imports Console Printf
begin

text \<open>
  The keyboard driver (\<open>kbd.c\<close>, with the tables of \<open>kbd.h\<close>). A read of the two ports of the controller is a
  pair of bytes, the status and the data; the static variable \<open>shift\<close> is passed along. The characters go to
  the line editor of \<open>Console\<close>.
\<close>

section \<open>Tables\<close>

unbundle bit_operations_syntax

definition KBS_DIB :: byte where "KBS_DIB = 1"
definition SHIFT :: u32 where "SHIFT = 1"
definition CTL :: u32 where "CTL = 2"
definition ALT :: u32 where "ALT = 4"
definition CAPSLOCK :: u32 where "CAPSLOCK = 8"
definition NUMLOCK :: u32 where "NUMLOCK = 16"
definition SCROLLLOCK :: u32 where "SCROLLLOCK = 32"
definition E0ESC :: u32 where "E0ESC = 64"

text \<open>An array of 256 bytes with its initialisers, the designated ones last.\<close>

definition designated :: "byte list \<Rightarrow> (nat \<times> byte) list \<Rightarrow> byte list" where
  "designated xs ds = fold (\<lambda>(i, v) t. t[i := v]) ds (xs @ replicate (256 - length xs) 0)"

text \<open>The arrays \<open>shiftcode\<close> and \<open>togglecode\<close>, as functions of the scan code.\<close>

definition shiftcode :: "byte \<Rightarrow> u32" where
  "shiftcode d = (if d = 0x1D \<or> d = 0x9D then CTL else if d = 0x2A \<or> d = 0x36 then SHIFT else if d = 0x38 \<or> d = 0xB8 then ALT else 0)"

definition togglecode :: "byte \<Rightarrow> u32" where
  "togglecode d = (if d = 0x3A then CAPSLOCK else if d = 0x45 then NUMLOCK else if d = 0x46 then SCROLLLOCK else 0)"

text \<open>The keys after an escape byte: enter and slash of the keypad, and the cursor keys \<open>KEY_UP\<close> to \<open>KEY_DEL\<close>.\<close>

definition special_keys :: "byte \<Rightarrow> byte \<Rightarrow> (nat \<times> byte) list" where
  "special_keys enter slash = [(0x9C, enter), (0xB5, slash), (0xC8, 0xE2), (0xD0, 0xE3), (0xC9, 0xE6), (0xD1, 0xE7), (0xCB, 0xE4),
     (0xCD, 0xE5), (0x97, 0xE0), (0xCF, 0xE1), (0xD2, 0xE8), (0xD3, 0xE9)]"

definition normalmap :: "byte list" where
  "normalmap = designated
     [0, 27, 49, 50, 51, 52, 53, 54, 55, 56, 57, 48, 45, 61, 8, 9,
      113, 119, 101, 114, 116, 121, 117, 105, 111, 112, 91, 93, 10, 0, 97, 115,
      100, 102, 103, 104, 106, 107, 108, 59, 39, 96, 0, 92, 122, 120, 99, 118,
      98, 110, 109, 44, 46, 47, 0, 42, 0, 32, 0, 0, 0, 0, 0, 0,
      0, 0, 0, 0, 0, 0, 0, 55, 56, 57, 45, 52, 53, 54, 43, 49,
      50, 51, 48, 46, 0, 0, 0, 0]
     (special_keys 10 47)"

definition shiftmap :: "byte list" where
  "shiftmap = designated
     [0, 27, 33, 64, 35, 36, 37, 94, 38, 42, 40, 41, 95, 43, 8, 9,
      81, 87, 69, 82, 84, 89, 85, 73, 79, 80, 123, 125, 10, 0, 65, 83,
      68, 70, 71, 72, 74, 75, 76, 58, 34, 126, 0, 124, 90, 88, 67, 86,
      66, 78, 77, 60, 62, 63, 0, 42, 0, 32, 0, 0, 0, 0, 0, 0,
      0, 0, 0, 0, 0, 0, 0, 55, 56, 57, 45, 52, 53, 54, 43, 49,
      50, 51, 48, 46, 0, 0, 0, 0]
     (special_keys 10 47)"

definition ctlmap :: "byte list" where
  "ctlmap = designated
     [0, 0, 0, 0, 0, 0, 0, 0, 0, 0, 0, 0, 0, 0, 0, 0,
      17, 23, 5, 18, 20, 25, 21, 9, 15, 16, 0, 0, 13, 0, 1, 19,
      4, 6, 7, 8, 10, 11, 12, 0, 0, 0, 0, 28, 26, 24, 3, 22,
      2, 14, 13, 0, 0, 239, 0, 0]
     (special_keys 13 239)"

definition charcode :: "byte list list" where
  "charcode = [normalmap, shiftmap, ctlmap, ctlmap]"

section \<open>The driver\<close>

definition kbdgetc :: "byte \<Rightarrow> byte \<Rightarrow> u32 \<Rightarrow> int \<times> u32" where
  "kbdgetc st data shift =
     (if st AND KBS_DIB = 0 then (-1, shift)
      else if data = 0xE0 then (0, shift OR E0ESC)
      else if data AND 0x80 \<noteq> 0 then
        let data = (if shift AND E0ESC \<noteq> 0 then data else data AND 0x7F)
        in (0, shift AND NOT (shiftcode data OR E0ESC))
      else
        let (data, shift) = (if shift AND E0ESC \<noteq> 0 then (data OR 0x80, shift AND NOT E0ESC) else (data, shift));
            shift = shift OR shiftcode data;
            shift = shift XOR togglecode data;
            c = ucast (charcode ! unat (shift AND (CTL OR SHIFT)) ! unat data) :: u32;
            c = (if shift AND CAPSLOCK \<noteq> 0 then
                   if 97 \<le> c \<and> c \<le> 122 then c + (65 - 97) else if 65 \<le> c \<and> c \<le> 90 then c + (97 - 65) else c
                 else c)
        in (sint c, shift))"

text \<open>The values that \<open>consoleintr\<close> reads, one for each read of the ports, up to the first negative one.\<close>

fun kbd_values :: "(byte \<times> byte) list \<Rightarrow> u32 \<Rightarrow> int list \<times> u32" where
  "kbd_values [] shift = ([], shift)"
| "kbd_values ((st, data) # ps) shift =
     (let (c, shift) = kbdgetc st data shift in
      if c < 0 then ([c], shift) else (let (cs, shift) = kbd_values ps shift in (c # cs, shift)))"

definition kbdintr :: "(byte \<times> byte) list \<Rightarrow> u32 \<Rightarrow> console_input \<Rightarrow> int list \<times> bool \<times> bool \<times> console_input \<times> u32" where
  "kbdintr ports shift s =
     (let (cs, shift) = kbd_values ports shift; (out, w, d, s) = consoleintr cs s in (out, w, d, s, shift))"

section \<open>Lemmas\<close>

lemma length_designated: "length xs \<le> 256 \<Longrightarrow> length (designated xs ds) = 256"
proof -
  have "length (fold (\<lambda>(i, v) t. t[i := v]) ds t) = length t" for t :: "byte list" by (induction ds arbitrary: t) auto
  then show "length xs \<le> 256 \<Longrightarrow> length (designated xs ds) = 256" by (simp add: designated_def)
qed

lemma below_128: "(x :: u32) < 128 \<longleftrightarrow> take_bit 7 x = x"
proof -
  have "take_bit 7 x = x \<longleftrightarrow> unat x mod 128 = unat x" by (simp add: take_bit_eq_mod word_unat_eq_iff unat_u32_mod)
  also have "\<dots> \<longleftrightarrow> unat x < 128" by (metis mod_less mod_less_divisor zero_less_numeral)
  finally show ?thesis by (simp add: word_less_nat_alt)
qed

lemma and_below: "take_bit 7 x = x \<Longrightarrow> take_bit 7 (x AND y) = x AND (y :: u32)"
proof (rule bit_word_eqI)
  fix n assume "take_bit 7 x = x"
  then have "bit x n \<Longrightarrow> n < 7" by (metis bit_take_bit_iff)
  then show "bit (take_bit 7 (x AND y)) n = bit (x AND y) n" by (auto simp: bit_simps)
qed

lemma codes_below: "take_bit 7 (shiftcode d) = shiftcode d" "take_bit 7 (togglecode d) = togglecode d" "take_bit 7 E0ESC = E0ESC"
  by (simp_all add: shiftcode_def togglecode_def SHIFT_def CTL_def ALT_def CAPSLOCK_def NUMLOCK_def SCROLLLOCK_def E0ESC_def)

lemma bit_tests: "x AND SHIFT \<noteq> 0 \<longleftrightarrow> bit x 0" "x AND CTL \<noteq> 0 \<longleftrightarrow> bit x 1" "x AND CAPSLOCK \<noteq> 0 \<longleftrightarrow> bit x 3"
  "x AND E0ESC \<noteq> 0 \<longleftrightarrow> bit x 6" for x :: u32
  using and_exp_eq_0_iff_not_bit [of x 0] and_exp_eq_0_iff_not_bit [of x 1] and_exp_eq_0_iff_not_bit [of x 3] and_exp_eq_0_iff_not_bit [of x 6]
  by (simp_all add: SHIFT_def CTL_def CAPSLOCK_def E0ESC_def)

text \<open>Which of the four arrays is used.\<close>

lemma charcode_at: "charcode ! unat (x AND (CTL OR SHIFT)) = (if bit x 1 then ctlmap else if bit x 0 then shiftmap else normalmap)"
proof -
  have "CTL OR SHIFT = (mask 2 :: u32)" by (simp add: CTL_def SHIFT_def mask_eq_exp_minus_1)
  then have m: "unat (x AND (CTL OR SHIFT)) = unat x mod 4"
    by (simp add: take_bit_eq_mask [symmetric] take_bit_eq_mod unat_u32_mod)
  have b: "bit x 0 \<longleftrightarrow> odd (unat x)" "bit x 1 \<longleftrightarrow> odd (unat x div 2)"
    by (simp_all add: bit_iff_odd odd_iff_mod_2_eq_one word_unat_eq_iff unat_u32_mod unat_u32_div)
  have "unat x mod 4 < 4" by simp
  then consider "unat x mod 4 = 0" | "unat x mod 4 = 1" | "unat x mod 4 = 2" | "unat x mod 4 = 3" by linarith
  then show ?thesis
  proof cases
    case 1
    then have "\<not> odd (unat x)" "\<not> odd (unat x div 2)" by presburger+
    then show ?thesis unfolding m 1 b by (simp add: charcode_def)
  next
    case 2
    then have "odd (unat x)" "\<not> odd (unat x div 2)" by presburger+
    then show ?thesis unfolding m 2 b by (simp add: charcode_def)
  next
    case 3
    then have "\<not> odd (unat x)" "odd (unat x div 2)" by presburger+
    then show ?thesis unfolding m 3 b by (simp add: charcode_def)
  next
    case 4
    then have "odd (unat x)" "odd (unat x div 2)" by presburger+
    then show ?thesis unfolding m 4 b by (simp add: charcode_def)
  qed
qed

definition swap_case :: "u32 \<Rightarrow> u32" where
  "swap_case c = (if 97 \<le> c \<and> c \<le> 122 then c + (65 - 97) else if 65 \<le> c \<and> c \<le> 90 then c + (97 - 65) else c)"

lemma swap_case_byte:
  assumes "c < 256"
  shows "swap_case c < 256"
proof -
  have "unat (c - 32) < 256" if "97 \<le> c" using that assms by (subst unat_u32_minus) (simp_all add: word_le_nat_alt word_less_nat_alt)
  moreover have "unat (c + 32) < 256" if "c \<le> 90" using that assms by (simp add: unat_u32_plus word_le_nat_alt)
  ultimately show ?thesis using assms by (simp add: swap_case_def word_less_nat_alt)
qed

lemma sint_byte: "c < 256 \<Longrightarrow> sint (c :: u32) = int (unat c) \<and> unat c < 256"
  by (subst sint_small) (simp_all add: word_less_nat_alt)

lemma ucast_byte_less: "(ucast (b :: byte) :: u32) < 256"
proof -
  have "unat (ucast b :: u32) = take_bit 32 (unat b)" by (simp add: unsigned_ucast_eq)
  also have "\<dots> \<le> unat b" by (rule take_bit_nat_less_eq_self)
  also have "\<dots> < 256" by simp
  finally show ?thesis by (simp add: word_less_nat_alt)
qed

lemma kbdgetc_types:
  assumes "shift < 128"
  shows "snd (kbdgetc st data shift) < 128"
    "st AND KBS_DIB = 0 \<Longrightarrow> fst (kbdgetc st data shift) = -1"
    "st AND KBS_DIB \<noteq> 0 \<Longrightarrow> 0 \<le> fst (kbdgetc st data shift) \<and> fst (kbdgetc st data shift) < 256"
proof -
  note B = assms [unfolded below_128]
  show "snd (kbdgetc st data shift) < 128"
    unfolding below_128 kbdgetc_def Let_def
    by (auto simp: and_below B take_bit_or take_bit_xor codes_below simp del: take_bit_and)
  show "fst (kbdgetc st data shift) = -1" if "st AND KBS_DIB = 0" using that by (simp add: kbdgetc_def)
  have r: "0 \<le> sint c \<and> sint c < 256" if "c < 256" for c :: u32
  proof -
    obtain n where n: "sint c = int n" "n < 256" using sint_byte [OF \<open>c < 256\<close>] by blast
    show ?thesis unfolding n(1) using n(2) by simp
  qed
  show "0 \<le> fst (kbdgetc st data shift) \<and> fst (kbdgetc st data shift) < 256" if "st AND KBS_DIB \<noteq> 0"
    using that r [OF swap_case_byte [OF ucast_byte_less]] r [OF ucast_byte_less]
    by (simp add: kbdgetc_def Let_def swap_case_def [symmetric])
qed

text \<open>The scan codes of the letter keys, with their letters.\<close>

definition letters :: "(byte \<times> byte) list" where
  "letters = zip (map of_nat ([16..<26] @ [30..<39] @ [44..<51])) (bytes ''qwertyuiopasdfghjklzxcvbnm'')"

lemma letter_tables:
  "list_all (\<lambda>(d, ch). d \<noteq> 0xE0 \<and> d AND 0x80 = 0 \<and> shiftcode d = 0 \<and> togglecode d = 0 \<and>
     sint (ucast (normalmap ! unat d) :: u32) = int (unat ch) \<and> sint (ucast (shiftmap ! unat d) :: u32) = int (unat ch) - 32 \<and>
     sint (swap_case (ucast (normalmap ! unat d))) = int (unat ch) - 32 \<and> sint (swap_case (ucast (shiftmap ! unat d))) = int (unat ch) \<and>
     sint (ucast (ctlmap ! unat d) :: u32) = int (unat ch) - 96 \<and> sint (swap_case (ucast (ctlmap ! unat d))) = int (unat ch) - 96) letters"
  by code_simp

text \<open>The home key has no entry in the tables: its scan code after the escape byte is \<open>0xC7\<close>, and \<open>0x97\<close> has one.\<close>

lemma home_key_ignored: "fst (kbdgetc 1 0x47 E0ESC) = 0 \<and> fst (kbdgetc 1 0x4F E0ESC) = 0xE1 \<and> fst (kbdgetc 1 0x48 E0ESC) = 0xE2"
  by code_simp

section \<open>Properties\<close>

text \<open>\<open>kbdgetc\<close> returns -1, exactly when the controller has no data, or a byte, and keeps the state of the
  modifiers within its seven bits.\<close>

theorem kbdgetc_typed:
  assumes "shift < 128"
  shows "snd (kbdgetc st data shift) < 128 \<and>
    (if st AND KBS_DIB = 0 then fst (kbdgetc st data shift) = -1
     else 0 \<le> fst (kbdgetc st data shift) \<and> fst (kbdgetc st data shift) < 256)"
  using kbdgetc_types [OF assms] by simp

theorem kbdgetc_typed_witness: "snd (kbdgetc 1 0x2A 0) < 128 \<and> 0 \<le> fst (kbdgetc 1 0x2A 0) \<and> fst (kbdgetc 1 0x2A 0) < 256"
  using kbdgetc_typed [of 0 1 "0x2A"] by (simp add: KBS_DIB_def)

text \<open>C39: With the control key down a letter key gives its control code (1 for a, 26 for z), whatever shift and caps
  lock are; otherwise it gives the upper-case letter when exactly one of shift and caps lock is on, and the lower-case
  letter when both or none are. It leaves the modifiers alone.\<close>

theorem kbdgetc_letter:
  assumes "(d, ch) \<in> set letters" and "shift AND E0ESC = 0"
  shows "kbdgetc 1 d shift =
    (int (unat ch) - (if shift AND CTL \<noteq> 0 then 96
       else if (shift AND SHIFT \<noteq> 0) \<noteq> (shift AND CAPSLOCK \<noteq> 0) then 32 else 0), shift)"
proof -
  have L: "d \<noteq> 0xE0" "d AND 0x80 = 0" "shiftcode d = 0" "togglecode d = 0" "sint (ucast (normalmap ! unat d) :: u32) = int (unat ch)"
    "sint (ucast (shiftmap ! unat d) :: u32) = int (unat ch) - 32" "sint (swap_case (ucast (normalmap ! unat d))) = int (unat ch) - 32"
    "sint (swap_case (ucast (shiftmap ! unat d))) = int (unat ch)"
    "sint (ucast (ctlmap ! unat d) :: u32) = int (unat ch) - 96" "sint (swap_case (ucast (ctlmap ! unat d))) = int (unat ch) - 96"
    using letter_tables assms(1) unfolding list_all_iff by blast+
  have c: "charcode ! unat (shift AND (CTL OR SHIFT)) =
      (if shift AND CTL \<noteq> 0 then ctlmap else if shift AND SHIFT \<noteq> 0 then shiftmap else normalmap)"
    using charcode_at [of shift] bit_tests(1,2) [of shift] by simp
  show ?thesis
    unfolding kbdgetc_def Let_def swap_case_def [symmetric] by (simp add: L KBS_DIB_def assms(2) c)
qed

theorem kbdgetc_letter_witness: "kbdgetc 1 0x1E SHIFT = (65, SHIFT) \<and> kbdgetc 1 0x2E 0xA = (3, 0xA)"
proof -
  have "(0x1E, 97) \<in> set letters" "(0x2E, 99) \<in> set letters" by code_simp+
  from kbdgetc_letter [OF this(1), of SHIFT] kbdgetc_letter [OF this(2), of "0xA"] show ?thesis
    by (simp add: E0ESC_def CTL_def SHIFT_def CAPSLOCK_def)
qed

end
