(* ===== verification/Sleeplock.thy ===== *)
theory Sleeplock
  imports Prelude
begin

text \<open>
  Sleep locks (\<open>sleeplock.c\<close>). Each definition is the code between taking the spin lock \<open>lk->lk\<close> and
  giving it up, in \<open>release\<close> or in \<open>sleep\<close>; a process woken from the sleep runs the attempt again. The
  step relation interleaves these pieces for any number of processes, named by their pids.
\<close>

record sleeplock =
  sl_locked :: u32
  sl_name :: string
  sl_pid :: u32

definition initsleeplock :: "string \<Rightarrow> sleeplock" where
  "initsleeplock n = \<lparr>sl_locked = 0, sl_name = n, sl_pid = 0\<rparr>"

text \<open>One attempt of \<open>acquiresleep\<close> by the process with pid \<open>p\<close>; \<open>None\<close> is that it goes to sleep on the lock.\<close>

definition acquiresleep :: "u32 \<Rightarrow> sleeplock \<Rightarrow> sleeplock option" where
  "acquiresleep p lk = (if sl_locked lk \<noteq> 0 then None else Some (lk\<lparr>sl_locked := 1, sl_pid := p\<rparr>))"

text \<open>\<open>releasesleep\<close> does not check its caller; it wakes every sleeper of the lock.\<close>

definition releasesleep :: "sleeplock \<Rightarrow> sleeplock" where
  "releasesleep lk = lk\<lparr>sl_locked := 0, sl_pid := 0\<rparr>"

definition holdingsleep :: "u32 \<Rightarrow> sleeplock \<Rightarrow> bool" where
  "holdingsleep p lk \<longleftrightarrow> sl_locked lk \<noteq> 0 \<and> sl_pid lk = p"

lemma acquiresleep_free [simp]: "sl_locked lk = 0 \<Longrightarrow> acquiresleep p lk = Some (lk\<lparr>sl_locked := 1, sl_pid := p\<rparr>)"
  by (simp add: acquiresleep_def)

section \<open>Any number of processes\<close>

datatype sl_phase = Away | Trying | Asleep_on | Inside

record sl_system =
  sl_lock :: sleeplock
  sl_phase :: "u32 \<Rightarrow> sl_phase"

definition sl_wake :: "(u32 \<Rightarrow> sl_phase) \<Rightarrow> u32 \<Rightarrow> sl_phase" where
  "sl_wake f = (\<lambda>p. if f p = Asleep_on then Trying else f p)"

inductive sl_step :: "sl_system \<Rightarrow> sl_system \<Rightarrow> bool" where
  want: "sl_phase s p = Away \<Longrightarrow> sl_step s (s\<lparr>sl_phase := (sl_phase s)(p := Trying)\<rparr>)"
| take: "sl_phase s p = Trying \<Longrightarrow> acquiresleep p (sl_lock s) = Some lk \<Longrightarrow>
    sl_step s (s\<lparr>sl_lock := lk, sl_phase := (sl_phase s)(p := Inside)\<rparr>)"
| wait: "sl_phase s p = Trying \<Longrightarrow> acquiresleep p (sl_lock s) = None \<Longrightarrow>
    sl_step s (s\<lparr>sl_phase := (sl_phase s)(p := Asleep_on)\<rparr>)"
| give: "sl_phase s p = Inside \<Longrightarrow>
    sl_step s (s\<lparr>sl_lock := releasesleep (sl_lock s), sl_phase := sl_wake ((sl_phase s)(p := Away))\<rparr>)"


definition sl_start :: "sl_system \<Rightarrow> bool" where
  "sl_start s \<longleftrightarrow> (\<exists>n. sl_lock s = initsleeplock n) \<and> (\<forall>p. sl_phase s p = Away)"

definition sl_inv :: "sl_system \<Rightarrow> bool" where
  "sl_inv s \<longleftrightarrow>
     (\<forall>p. sl_phase s p = Inside \<longrightarrow> holdingsleep p (sl_lock s)) \<and>
     (sl_locked (sl_lock s) \<noteq> 0 \<longrightarrow> sl_phase s (sl_pid (sl_lock s)) = Inside) \<and>
     (sl_locked (sl_lock s) = 0 \<longrightarrow> (\<forall>p. sl_phase s p \<noteq> Asleep_on))"

lemma sl_step_inv:
  assumes "sl_step s s'" and inv: "sl_inv s"
  shows "sl_inv s'"
  using assms(1)
proof cases
  case (want p)
  then have "sl_locked (sl_lock s) \<noteq> 0 \<longrightarrow> sl_pid (sl_lock s) \<noteq> p" using inv by (auto simp: sl_inv_def)
  with want inv show ?thesis by (simp add: sl_inv_def)
next
  case (take p lk)
  then have "sl_locked (sl_lock s) = 0" "lk = (sl_lock s)\<lparr>sl_locked := 1, sl_pid := p\<rparr>"
    by (simp_all add: acquiresleep_def split: if_splits)
  with take inv show ?thesis by (simp add: sl_inv_def holdingsleep_def)
next
  case (wait p)
  then have "sl_locked (sl_lock s) \<noteq> 0" "sl_pid (sl_lock s) \<noteq> p"
    using inv by (auto simp: acquiresleep_def sl_inv_def split: if_splits)
  with wait inv show ?thesis by (simp add: sl_inv_def)
next
  case (give p)
  then have "sl_pid (sl_lock s) = p" using inv by (simp add: sl_inv_def holdingsleep_def)
  then have "q = p" if "sl_phase s q = Inside" for q using that inv by (simp add: sl_inv_def holdingsleep_def)
  then have "sl_phase s' q \<noteq> Inside \<and> sl_phase s' q \<noteq> Asleep_on" for q
    unfolding give(1) by (simp add: sl_wake_def) blast
  moreover have "sl_locked (sl_lock s') = 0" unfolding give(1) by (simp add: releasesleep_def)
  ultimately show ?thesis by (simp add: sl_inv_def)
qed

interpretation sleep_locks: transition_invariant sl_start sl_step sl_inv
  using sl_step_inv by unfold_locales (auto simp: sl_start_def sl_inv_def initsleeplock_def holdingsleep_def)

section \<open>Properties\<close>

text \<open>In every interleaving of processes that take and give back a sleep lock, at most one is inside,
  \<open>holdingsleep\<close> is true for exactly that one, and no wake-up is lost: while the lock is free no process
  sleeps on it, so each waiting process is about to try again.\<close>

theorem sleeplock_exclusive:
  assumes "sl_start s" and "sl_step\<^sup>*\<^sup>* s s'"
  shows "(\<forall>p q. sl_phase s' p = Inside \<longrightarrow> sl_phase s' q = Inside \<longrightarrow> p = q) \<and>
    (\<forall>p. holdingsleep p (sl_lock s') \<longleftrightarrow> sl_phase s' p = Inside) \<and>
    (sl_locked (sl_lock s') = 0 \<longrightarrow> (\<forall>p. sl_phase s' p \<noteq> Asleep_on))"
proof -
  have inv: "sl_inv s'" by (rule sleep_locks.reachable_inv [OF assms])
  have "holdingsleep p (sl_lock s') \<longleftrightarrow> sl_phase s' p = Inside" for p
    using inv unfolding sl_inv_def by (metis holdingsleep_def)
  moreover have "p = q" if "sl_phase s' p = Inside" "sl_phase s' q = Inside" for p q
    using that inv unfolding sl_inv_def holdingsleep_def by metis
  ultimately show ?thesis using inv unfolding sl_inv_def by blast
qed

theorem sleeplock_exclusive_witness:
  "\<exists>s. sl_step\<^sup>*\<^sup>* \<lparr>sl_lock = initsleeplock ''inode'', sl_phase = (\<lambda>p. Away)\<rparr> s \<and> sl_phase s 7 = Inside \<and>
     sl_phase s 8 = Asleep_on \<and> (\<forall>q. sl_phase s q = Inside \<longrightarrow> q = 7)"
proof -
  let ?s = "\<lparr>sl_lock = initsleeplock ''inode'', sl_phase = (\<lambda>p. Away)\<rparr>"
  let ?lk = "(initsleeplock ''inode'')\<lparr>sl_locked := 1, sl_pid := 7\<rparr>"
  let ?s1 = "?s\<lparr>sl_phase := (sl_phase ?s)(7 := Trying)\<rparr>"
  let ?s2 = "?s1\<lparr>sl_lock := ?lk, sl_phase := (sl_phase ?s1)(7 := Inside)\<rparr>"
  let ?s3 = "?s2\<lparr>sl_phase := (sl_phase ?s2)(8 := Trying)\<rparr>"
  let ?s4 = "?s3\<lparr>sl_phase := (sl_phase ?s3)(8 := Asleep_on)\<rparr>"
  have 1: "sl_step ?s ?s1" by (rule sl_step.want) simp
  have 2: "sl_step ?s1 ?s2" by (rule sl_step.take) (simp_all add: acquiresleep_def initsleeplock_def)
  have 3: "sl_step ?s2 ?s3" by (rule sl_step.want) simp
  have 4: "sl_step ?s3 ?s4" by (rule sl_step.wait) (simp_all add: acquiresleep_def)
  have r: "sl_step\<^sup>*\<^sup>* ?s ?s4" using 1 2 3 4 by (meson converse_rtranclp_into_rtranclp rtranclp.rtrancl_refl)
  have st: "sl_start ?s" by (auto simp: sl_start_def)
  have "sl_phase ?s4 7 = Inside" "sl_phase ?s4 8 = Asleep_on" by simp_all
  with sleeplock_exclusive [OF st r] r show ?thesis by blast
qed

end
