(* ===== verification/Bio.thy ===== *)
theory Bio
  imports Sleeplock
begin

text \<open>
  The buffer cache (\<open>bio.c\<close>, \<open>buf.h\<close>) on the disk in memory of \<open>memide.c\<close>. A buffer pointer is an
  index: the buffers are \<open>0..<NBUF\<close> and the list head is \<open>NBUF\<close>; the links are kept as in the code.
  The state is that of one process \<open>me\<close> working in the file system: waiting for a buffer that is
  locked is \<open>None\<close>, as are the panics. \<open>bcache.lock\<close> is held in each definition as in the code and is
  not part of the state; that \<open>acquiresleep\<close> excludes other processes is shown in \<open>Sleeplock\<close>.
\<close>

section \<open>Data\<close>

definition MAXOPBLOCKS :: nat where "MAXOPBLOCKS = 10"
definition NBUF :: nat where "NBUF = MAXOPBLOCKS * 3"
definition BSIZE :: nat where "BSIZE = 512"

record buf =
  b_valid :: bool
  b_dirty :: bool
  b_dev :: u32
  b_blockno :: u32
  b_lock :: sleeplock
  b_refcnt :: u32
  b_prev :: nat
  b_next :: nat
  b_qnext :: "nat option"
  b_data :: "byte list"

record bcache =
  bufs :: "buf list"
  disk :: "byte list list"

definition set_buf :: "nat \<Rightarrow> (buf \<Rightarrow> buf) \<Rightarrow> bcache \<Rightarrow> bcache" where
  "set_buf i f s = s\<lparr>bufs := (bufs s)[i := f (bufs s ! i)]\<rparr>"

section \<open>The disk in memory (memide.c)\<close>

definition iderw :: "u32 \<Rightarrow> nat \<Rightarrow> bcache \<Rightarrow> bcache option" where
  "iderw me i s =
     (let b = bufs s ! i in
      if \<not> holdingsleep me (b_lock b) then None
      else if b_valid b \<and> \<not> b_dirty b then None
      else if b_dev b \<noteq> 1 then None
      else if length (disk s) \<le> unat (b_blockno b) then None
      else if b_dirty b then
        Some (set_buf i (\<lambda>b. b\<lparr>b_dirty := False, b_valid := True\<rparr>)
          (s\<lparr>disk := (disk s)[unat (b_blockno b) := b_data b]\<rparr>))
      else Some (set_buf i (\<lambda>b. b\<lparr>b_data := disk s ! unat (b_blockno b), b_valid := True\<rparr>) s))"

section \<open>The cache (bio.c)\<close>

definition link_front :: "nat \<Rightarrow> bcache \<Rightarrow> bcache" where
  "link_front b s =
     (let s = set_buf b (\<lambda>x. x\<lparr>b_next := b_next (bufs s ! NBUF), b_prev := NBUF\<rparr>) s;
          s = set_buf (b_next (bufs s ! NBUF)) (\<lambda>x. x\<lparr>b_prev := b\<rparr>) s
      in set_buf NBUF (\<lambda>x. x\<lparr>b_next := b\<rparr>) s)"

definition unlink :: "nat \<Rightarrow> bcache \<Rightarrow> bcache" where
  "unlink b s =
     (let s = set_buf (b_next (bufs s ! b)) (\<lambda>x. x\<lparr>b_prev := b_prev (bufs s ! b)\<rparr>) s
      in set_buf (b_prev (bufs s ! b)) (\<lambda>x. x\<lparr>b_next := b_next (bufs s ! b)\<rparr>) s)"

definition binit :: "bcache \<Rightarrow> bcache" where
  "binit s = fold (\<lambda>b s. link_front b (set_buf b (\<lambda>x. x\<lparr>b_lock := initsleeplock ''buffer''\<rparr>) s)) [0..<NBUF]
     (set_buf NBUF (\<lambda>x. x\<lparr>b_prev := NBUF, b_next := NBUF\<rparr>) s)"

text \<open>A loop along one of the links, up to the head.\<close>

partial_function (option) scan :: "(buf \<Rightarrow> nat) \<Rightarrow> (buf \<Rightarrow> bool) \<Rightarrow> bcache \<Rightarrow> nat \<Rightarrow> nat option option" where
  "scan link P s b =
     (if b = NBUF then Some None
      else if P (bufs s ! b) then Some (Some b)
      else scan link P s (link (bufs s ! b)))"

definition lock_buf :: "u32 \<Rightarrow> nat \<Rightarrow> bcache \<Rightarrow> bcache option" where
  "lock_buf me b s = do {
     lk \<leftarrow> acquiresleep me (b_lock (bufs s ! b));
     Some (set_buf b (\<lambda>x. x\<lparr>b_lock := lk\<rparr>) s)
   }"

definition bget :: "u32 \<Rightarrow> u32 \<Rightarrow> u32 \<Rightarrow> bcache \<Rightarrow> (nat \<times> bcache) option" where
  "bget me dev blockno s = do {
     r \<leftarrow> scan b_next (\<lambda>b. b_dev b = dev \<and> b_blockno b = blockno) s (b_next (bufs s ! NBUF));
     case r of
       Some b \<Rightarrow> do {
         s \<leftarrow> lock_buf me b (set_buf b (\<lambda>x. x\<lparr>b_refcnt := b_refcnt x + 1\<rparr>) s);
         Some (b, s)
       }
     | None \<Rightarrow> do {
         r \<leftarrow> scan b_prev (\<lambda>b. b_refcnt b = 0 \<and> \<not> b_dirty b) s (b_prev (bufs s ! NBUF));
         b \<leftarrow> r;
         s \<leftarrow> lock_buf me b (set_buf b (\<lambda>x. x\<lparr>b_dev := dev, b_blockno := blockno, b_valid := False,
           b_dirty := False, b_refcnt := 1\<rparr>) s);
         Some (b, s)
       }
   }"

definition bread :: "u32 \<Rightarrow> u32 \<Rightarrow> u32 \<Rightarrow> bcache \<Rightarrow> (nat \<times> bcache) option" where
  "bread me dev blockno s = do {
     (b, s) \<leftarrow> bget me dev blockno s;
     s \<leftarrow> (if \<not> b_valid (bufs s ! b) then iderw me b s else Some s);
     Some (b, s)
   }"

definition bwrite :: "u32 \<Rightarrow> nat \<Rightarrow> bcache \<Rightarrow> bcache option" where
  "bwrite me b s =
     (if \<not> holdingsleep me (b_lock (bufs s ! b)) then None
      else iderw me b (set_buf b (\<lambda>x. x\<lparr>b_dirty := True\<rparr>) s))"

definition brelse :: "u32 \<Rightarrow> nat \<Rightarrow> bcache \<Rightarrow> bcache option" where
  "brelse me b s =
     (if \<not> holdingsleep me (b_lock (bufs s ! b)) then None
      else
        let s = set_buf b (\<lambda>x. x\<lparr>b_lock := releasesleep (b_lock x)\<rparr>) s;
            s = set_buf b (\<lambda>x. x\<lparr>b_refcnt := b_refcnt x - 1\<rparr>) s
        in Some (if b_refcnt (bufs s ! b) = 0 then link_front b (unlink b s) else s))"

section \<open>The list of buffers\<close>

text \<open>\<open>chain nx pv a xs b\<close>: following \<open>nx\<close> from \<open>a\<close> one meets \<open>xs\<close> and then \<open>b\<close>, and \<open>pv\<close> leads back.\<close>

fun chain :: "(nat \<Rightarrow> nat) \<Rightarrow> (nat \<Rightarrow> nat) \<Rightarrow> nat \<Rightarrow> nat list \<Rightarrow> nat \<Rightarrow> bool" where
  "chain nx pv a [] b \<longleftrightarrow> nx a = b \<and> pv b = a"
| "chain nx pv a (x # xs) b \<longleftrightarrow> nx a = x \<and> pv x = a \<and> chain nx pv x xs b"

lemma chain_append: "chain nx pv a (xs @ x # ys) b \<longleftrightarrow> chain nx pv a xs x \<and> chain nx pv x ys b"
  by (induction xs arbitrary: a) auto

lemma chain_cong:
  assumes "chain nx pv a xs b" "\<And>i. i \<in> set (a # xs) \<Longrightarrow> nx' i = nx i" "\<And>i. i \<in> set (xs @ [b]) \<Longrightarrow> pv' i = pv i"
  shows "chain nx' pv' a xs b"
  using assms by (induction xs arbitrary: a) auto

text \<open>Taking \<open>x\<close> out of a ring and putting it behind the head.\<close>

lemma chain_unlink:
  assumes c: "chain nx pv h (ys @ x # zs) h" and d: "distinct (h # ys @ x # zs)"
  shows "chain (nx(pv x := nx x)) (pv(nx x := pv x)) h (ys @ zs) h"
proof -
  from c have 1: "chain nx pv h ys x" and 2: "chain nx pv x zs h" by (simp_all add: chain_append)
  define a where "a = last (h # ys)"
  define b where "b = hd (zs @ [h])"
  have in_left: "a \<in> set (h # ys)" unfolding a_def by (rule last_in_set) simp
  have a: "pv x = a" using 1 by (cases ys rule: rev_cases) (auto simp: a_def chain_append)
  have b: "nx x = b" using 2 by (cases zs) (auto simp: b_def)
  have left: "chain (nx(a := b)) (pv(b := a)) h ys b" 
  proof (cases ys rule: rev_cases)
    case Nil
    then show ?thesis by (simp add: a_def)
  next
    case (snoc us u)
    then have u: "a = u" "chain nx pv h us u" using 1 by (simp_all add: a_def chain_append)
    have "chain (nx(a := b)) (pv(b := a)) h us u"
      by (rule chain_cong [OF u(2)]) (use d snoc u(1) in \<open>auto simp: b_def hd_append split: if_splits\<close>)
    then show ?thesis using snoc u(1) by (simp add: chain_append)
  qed
  show ?thesis
  proof (cases zs)
    case Nil
    then have "b = h" by (simp add: b_def)
    with left Nil a b show ?thesis by simp
  next
    case (Cons z zs')
    then have "b = z" "chain nx pv z zs' h" using 2 by (simp_all add: b_def)
    moreover have "chain (nx(a := b)) (pv(b := a)) z zs' h"
      by (rule chain_cong [OF \<open>chain nx pv z zs' h\<close>])
        (use d Cons \<open>b = z\<close> in_left in auto)
    ultimately show ?thesis using left Cons a b by (simp add: chain_append)
  qed
qed

lemma chain_push:
  assumes c: "chain nx pv h xs h" and d: "distinct (h # x # xs)"
  shows "chain (nx(x := nx h, h := x)) ((pv(x := h))(nx h := x)) h (x # xs) h"
proof (cases xs)
  case Nil
  with c d show ?thesis by auto
next
  case (Cons y ys)
  then have y: "nx h = y" "chain nx pv y ys h" using c by simp_all
  have "chain (nx(x := nx h, h := x)) ((pv(x := h))(nx h := x)) y ys h"
    by (rule chain_cong [OF y(2)]) (use d Cons y(1) in auto)
  with d Cons y(1) show ?thesis by auto
qed

definition lru :: "bcache \<Rightarrow> nat list \<Rightarrow> bool" where
  "lru s xs \<longleftrightarrow> length (bufs s) = Suc NBUF \<and> distinct xs \<and> set xs \<subseteq> {..<NBUF} \<and>
     chain (\<lambda>i. b_next (bufs s ! i)) (\<lambda>i. b_prev (bufs s ! i)) NBUF xs NBUF"

lemma set_buf_simps [simp]:
  "length (bufs (set_buf i f s)) = length (bufs s)" "disk (set_buf i f s) = disk s"
  "i < length (bufs s) \<Longrightarrow> bufs (set_buf i f s) ! j = (if j = i then f (bufs s ! i) else bufs s ! j)"
  by (simp_all add: set_buf_def nth_list_update)

lemma links_set_buf:
  assumes "i < length (bufs s)"
  shows "(\<lambda>j. b_next (bufs (set_buf i f s) ! j)) = (\<lambda>j. b_next (bufs s ! j))(i := b_next (f (bufs s ! i)))"
    "(\<lambda>j. b_prev (bufs (set_buf i f s) ! j)) = (\<lambda>j. b_prev (bufs s ! j))(i := b_prev (f (bufs s ! i)))"
  using assms by auto

text \<open>Everything of a buffer but its links.\<close>

definition core :: "buf \<Rightarrow> buf" where
  "core b = b\<lparr>b_prev := 0, b_next := 0\<rparr>"

definition same_cores :: "bcache \<Rightarrow> bcache \<Rightarrow> bool" where
  "same_cores s s' \<longleftrightarrow> length (bufs s') = length (bufs s) \<and> disk s' = disk s \<and>
     (\<forall>i. core (bufs s' ! i) = core (bufs s ! i))"

lemma core_simps:
  assumes "core b = core c"
  shows "b_valid b = b_valid c" "b_dirty b = b_dirty c" "b_dev b = b_dev c" "b_blockno b = b_blockno c"
    "b_lock b = b_lock c" "b_refcnt b = b_refcnt c" "b_data b = b_data c"
  using arg_cong [OF assms, of b_valid] arg_cong [OF assms, of b_dirty] arg_cong [OF assms, of b_dev]
    arg_cong [OF assms, of b_blockno] arg_cong [OF assms, of b_lock] arg_cong [OF assms, of b_refcnt]
    arg_cong [OF assms, of b_data] by (simp_all add: core_def)

lemma lruI:
  assumes "(\<lambda>i. b_next (bufs s ! i)) = nx" "(\<lambda>i. b_prev (bufs s ! i)) = pv" "chain nx pv NBUF xs NBUF"
    "length (bufs s) = Suc NBUF" "distinct xs" "set xs \<subseteq> {..<NBUF}"
  shows "lru s xs"
  using assms unfolding lru_def by simp

lemma same_cores_trans: "same_cores s t \<Longrightarrow> same_cores t u \<Longrightarrow> same_cores s u"
  by (simp add: same_cores_def)

lemma same_cores_links:
  assumes "i < length (bufs s)" "core (f (bufs s ! i)) = core (bufs s ! i)"
  shows "same_cores s (set_buf i f s)"
  using assms by (simp add: same_cores_def)

lemma link_front_lru:
  assumes l: "lru s xs" and b: "b < NBUF" "b \<notin> set xs"
  shows "lru (link_front b s) (b # xs)" "same_cores s (link_front b s)"
proof -
  let ?s1 = "set_buf b (\<lambda>x. x\<lparr>b_next := b_next (bufs s ! NBUF), b_prev := NBUF\<rparr>) s"
  let ?s2 = "set_buf (b_next (bufs ?s1 ! NBUF)) (\<lambda>x. x\<lparr>b_prev := b\<rparr>) ?s1"
  let ?s3 = "set_buf NBUF (\<lambda>x. x\<lparr>b_next := b\<rparr>) ?s2"
  have d: "length (bufs s) = Suc NBUF" "distinct (NBUF # b # xs)" "set (b # xs) \<subseteq> {..<NBUF}" 
    and c: "chain (\<lambda>i. b_next (bufs s ! i)) (\<lambda>i. b_prev (bufs s ! i)) NBUF xs NBUF"
    using l b by (auto simp: lru_def)
  have n: "b_next (bufs s ! NBUF) < Suc NBUF" using c d(3) by (cases xs) auto
  have s3: "link_front b s = ?s3" by (simp add: link_front_def Let_def)
  have nb: "bufs ?s1 ! NBUF = bufs s ! NBUF" using d(1) b by simp
  have ch: "chain ((\<lambda>i. b_next (bufs s ! i))(b := b_next (bufs s ! NBUF), NBUF := b))
      (((\<lambda>i. b_prev (bufs s ! i))(b := NBUF))(b_next (bufs s ! NBUF) := b)) NBUF (b # xs) NBUF"
    by (rule chain_push [OF c d(2)])
  have nx: "(\<lambda>i. b_next (bufs ?s3 ! i)) = (\<lambda>i. b_next (bufs s ! i))(b := b_next (bufs s ! NBUF), NBUF := b)"
    using d(1) b(1) n by (auto simp: fun_eq_iff nb)
  have pv: "(\<lambda>i. b_prev (bufs ?s3 ! i)) = ((\<lambda>i. b_prev (bufs s ! i))(b := NBUF))(b_next (bufs s ! NBUF) := b)"
    using d(1) b(1) n by (auto simp: fun_eq_iff nb)
  show "lru (link_front b s) (b # xs)" unfolding s3 by (rule lruI [OF nx pv ch]) (use d in auto)
  show "same_cores s (link_front b s)"
    unfolding s3 using d(1) b(1) n by (simp add: same_cores_def core_def nb)
qed

lemma unlink_lru:
  assumes l: "lru s (ys @ b # zs)"
  shows "lru (unlink b s) (ys @ zs)" "same_cores s (unlink b s)"
proof -
  let ?nx = "\<lambda>i. b_next (bufs s ! i)" and ?pv = "\<lambda>i. b_prev (bufs s ! i)"
  have d: "length (bufs s) = Suc NBUF" "distinct (NBUF # ys @ b # zs)" "set (ys @ b # zs) \<subseteq> {..<NBUF}"
    and c: "chain ?nx ?pv NBUF (ys @ b # zs) NBUF" using l by (auto simp: lru_def)
  have 1: "chain ?nx ?pv NBUF ys b" "chain ?nx ?pv b zs NBUF" using c by (simp_all add: chain_append)
  have n: "?nx b < Suc NBUF" using 1(2) d(3) by (cases zs) auto
  have p: "?pv b < Suc NBUF" using 1(1) d(3) by (cases ys rule: rev_cases) (auto simp: chain_append)
  have nb: "?nx b \<noteq> b" using 1(2) d(2) by (cases zs) auto
  let ?s1 = "set_buf (?nx b) (\<lambda>x. x\<lparr>b_prev := ?pv b\<rparr>) s"
  have b1: "bufs ?s1 ! b = bufs s ! b" using d(1) n nb by simp
  have u: "unlink b s = set_buf (?pv b) (\<lambda>x. x\<lparr>b_next := ?nx b\<rparr>) ?s1" (is "_ = ?s2")
    by (simp only: unlink_def Let_def b1)
  have ch: "chain (?nx(?pv b := ?nx b)) (?pv(?nx b := ?pv b)) NBUF (ys @ zs) NBUF" by (rule chain_unlink [OF c d(2)])
  have l2: "(\<lambda>i. b_next (bufs ?s2 ! i)) = ?nx(?pv b := ?nx b)" "(\<lambda>i. b_prev (bufs ?s2 ! i)) = ?pv(?nx b := ?pv b)"
    using d(1) n p by (auto simp: fun_eq_iff)
  show "lru (unlink b s) (ys @ zs)" unfolding u by (rule lruI [OF l2 ch]) (use d in auto)
  show "same_cores s (unlink b s)" unfolding u using d(1) n p by (simp add: same_cores_def core_def)
qed

lemma lru_cong:
  assumes "lru s xs" "length (bufs s') = length (bufs s)"
    "\<And>i. b_next (bufs s' ! i) = b_next (bufs s ! i)" "\<And>i. b_prev (bufs s' ! i) = b_prev (bufs s ! i)"
  shows "lru s' xs"
  using assms by (simp add: lru_def)

text \<open>The two searches.\<close>

declare scan.simps [simp del]

lemma scan_head [simp]: "scan link P s NBUF = Some None"
  by (subst scan.simps) simp

lemma scan_step:
  "b \<noteq> NBUF \<Longrightarrow> scan link P s b = (if P (bufs s ! b) then Some (Some b) else scan link P s (link (bufs s ! b)))"
  by (subst scan.simps) simp

lemma scan_next_chain:
  assumes "chain (\<lambda>i. b_next (bufs s ! i)) pv a xs NBUF" "NBUF \<notin> set xs"
  shows "scan b_next P s (b_next (bufs s ! a)) = Some (find (\<lambda>i. P (bufs s ! i)) xs)"
  using assms by (induction xs arbitrary: a) (auto simp: scan_step)

lemma scan_prev_chain:
  assumes "chain nx (\<lambda>i. b_prev (bufs s ! i)) NBUF xs a" "NBUF \<notin> set xs"
  shows "scan b_prev P s (b_prev (bufs s ! a)) = Some (find (\<lambda>i. P (bufs s ! i)) (rev xs))"
  using assms
proof (induction xs arbitrary: a rule: rev_induct)
  case (snoc x xs)
  then have "chain nx (\<lambda>i. b_prev (bufs s ! i)) NBUF xs x" "b_prev (bufs s ! a) = x" "x \<noteq> NBUF"
    by (auto simp: chain_append)
  with snoc show ?case by (simp add: scan_step)
qed auto

lemma scan_lru:
  assumes "lru s xs"
  shows "scan b_next P s (b_next (bufs s ! NBUF)) = Some (find (\<lambda>i. P (bufs s ! i)) xs)"
    "scan b_prev P s (b_prev (bufs s ! NBUF)) = Some (find (\<lambda>i. P (bufs s ! i)) (rev xs))"
proof -
  have c: "chain (\<lambda>i. b_next (bufs s ! i)) (\<lambda>i. b_prev (bufs s ! i)) NBUF xs NBUF" "NBUF \<notin> set xs"
    using assms by (auto simp: lru_def)
  show "scan b_next P s (b_next (bufs s ! NBUF)) = Some (find (\<lambda>i. P (bufs s ! i)) xs)"
    by (rule scan_next_chain [OF c])
  show "scan b_prev P s (b_prev (bufs s ! NBUF)) = Some (find (\<lambda>i. P (bufs s ! i)) (rev xs))"
    by (rule scan_prev_chain [OF c])
qed

lemma binit_lru:
  assumes "length (bufs s) = Suc NBUF"
  shows "lru (binit s) (rev [0..<NBUF])"
proof -
  let ?f = "\<lambda>b s. link_front b (set_buf b (\<lambda>x. x\<lparr>b_lock := initsleeplock ''buffer''\<rparr>) s)"
  let ?s0 = "set_buf NBUF (\<lambda>x. x\<lparr>b_prev := NBUF, b_next := NBUF\<rparr>) s"
  have "lru (fold ?f [0..<n] ?s0) (rev [0..<n])" if "n \<le> NBUF" for n
    using that
  proof (induction n)
    case 0
    then show ?case using assms by (simp add: lru_def)
  next
    case (Suc n)
    let ?s = "fold ?f [0..<n] ?s0"
    have l: "lru ?s (rev [0..<n])" using Suc by simp
    have "lru (set_buf n (\<lambda>x. x\<lparr>b_lock := initsleeplock ''buffer''\<rparr>) ?s) (rev [0..<n])"
      by (rule lru_cong [OF l]) (use l Suc.prems in \<open>simp_all add: lru_def\<close>)
    from link_front_lru(1) [OF this, of n] Suc.prems show ?case by simp
  qed
  then show ?thesis by (simp add: binit_def)
qed

section \<open>What the cache promises\<close>

text \<open>
  \<open>buf_ok\<close>: a buffer is free or locked by \<open>me\<close>; one that was ever used belongs to device 1 and has been
  read; a buffer that is neither locked nor dirty has the block's contents on the disk.
\<close>

definition buf_ok :: "u32 \<Rightarrow> byte list list \<Rightarrow> buf \<Rightarrow> bool" where
  "buf_ok me d b \<longleftrightarrow>
     (if sl_locked (b_lock b) = 0
      then b_refcnt b = 0 \<and> (b_valid b \<and> \<not> b_dirty b \<longrightarrow> b_data b = d ! unat (b_blockno b))
      else holdingsleep me (b_lock b) \<and> b_refcnt b = 1 \<and> b_valid b) \<and>
     (b_dirty b \<longrightarrow> b_valid b) \<and> (b_dev b = 1 \<longleftrightarrow> b_valid b) \<and>
     (b_valid b \<longrightarrow> unat (b_blockno b) < length d \<and> length (b_data b) = BSIZE)"

definition at_block :: "u32 \<Rightarrow> buf \<Rightarrow> bool" where
  "at_block n b \<longleftrightarrow> b_dev b = 1 \<and> b_blockno b = n"

definition cache_ok :: "u32 \<Rightarrow> bcache \<Rightarrow> bool" where
  "cache_ok me s \<longleftrightarrow> (\<exists>xs. lru s xs \<and> set xs = {..<NBUF}) \<and> (\<forall>b \<in> set (disk s). length b = BSIZE) \<and>
     (\<forall>i < NBUF. buf_ok me (disk s) (bufs s ! i)) \<and>
     (\<forall>i < NBUF. \<forall>j < NBUF. \<forall>n. at_block n (bufs s ! i) \<longrightarrow> at_block n (bufs s ! j) \<longrightarrow> i = j)"

text \<open>The contents of block \<open>n\<close> as readers of the cache see them.\<close>

definition view :: "bcache \<Rightarrow> u32 \<Rightarrow> byte list" where
  "view s n = (case find (\<lambda>i. at_block n (bufs s ! i)) [0..<NBUF] of
     Some i \<Rightarrow> b_data (bufs s ! i) | None \<Rightarrow> disk s ! unat n)"

definition held_buf :: "u32 \<Rightarrow> bcache \<Rightarrow> nat \<Rightarrow> bool" where
  "held_buf me s i \<longleftrightarrow> i < NBUF \<and> holdingsleep me (b_lock (bufs s ! i))"

definition only :: "nat \<Rightarrow> bcache \<Rightarrow> bcache \<Rightarrow> bool" where
  "only i s s' \<longleftrightarrow> (\<forall>j < NBUF. j \<noteq> i \<longrightarrow> core (bufs s' ! j) = core (bufs s ! j))"

lemma cache_okD:
  assumes "cache_ok me s"
  shows "length (bufs s) = Suc NBUF" "\<exists>xs. lru s xs \<and> set xs = {..<NBUF}" "b \<in> set (disk s) \<Longrightarrow> length b = BSIZE"
    "i < NBUF \<Longrightarrow> buf_ok me (disk s) (bufs s ! i)"
    "i < NBUF \<Longrightarrow> j < NBUF \<Longrightarrow> at_block n (bufs s ! i) \<Longrightarrow> at_block n (bufs s ! j) \<Longrightarrow> i = j"
  using assms unfolding cache_ok_def lru_def by blast+

lemma find_at:
  assumes "\<And>j. j < NBUF \<Longrightarrow> P j \<Longrightarrow> j = i" "i \<in> set xs" "set xs \<subseteq> {..<NBUF}" "P i"
  shows "find P xs = Some i"
  using assms
proof (induction xs)
  case (Cons x xs)
  then show ?case by (cases "P x") auto
qed simp

lemma view_cached:
  assumes "cache_ok me s" "i < NBUF" "at_block n (bufs s ! i)"
  shows "view s n = b_data (bufs s ! i)"
  using find_at [of "\<lambda>i. at_block n (bufs s ! i)" i "[0..<NBUF]"] cache_okD(5) [OF assms(1)] assms(2,3)
  by (auto simp: view_def atLeast0LessThan)

lemma view_uncached:
  assumes "\<And>i. i < NBUF \<Longrightarrow> \<not> at_block n (bufs s ! i)"
  shows "view s n = disk s ! unat n"
proof -
  have "find (\<lambda>i. at_block n (bufs s ! i)) [0..<NBUF] = None" using assms by (auto simp: find_None_iff)
  then show ?thesis by (simp add: view_def)
qed

lemma view_only:
  assumes ok: "cache_ok me s" "cache_ok me s'" and i: "i < NBUF" "only i s s'" "at_block m (bufs s' ! i)"
    and d: "disk s' = disk s" and m: "b_data (bufs s' ! i) = view s m"
    and ev: "\<And>k. at_block k (bufs s ! i) \<Longrightarrow> k \<noteq> m \<Longrightarrow> b_data (bufs s ! i) = disk s ! unat k"
  shows "view s' n = view s n"
proof (cases "n = m")
  case True
  then show ?thesis using view_cached [OF ok(2) i(1)] i(3) m by simp
next
  case False
  then have ni: "\<not> at_block n (bufs s' ! i)" using i(3) by (simp add: at_block_def)
  have same: "core (bufs s' ! j) = core (bufs s ! j)" if "j < NBUF" "j \<noteq> i" for j using i(2) that by (simp add: only_def)
  have at_same: "at_block n (bufs s' ! j) = at_block n (bufs s ! j)" if "j < NBUF" "j \<noteq> i" for j
    using core_simps [OF same [OF that]] by (simp add: at_block_def)
  show ?thesis
  proof (cases "\<exists>j < NBUF. j \<noteq> i \<and> at_block n (bufs s ! j)")
    case True
    then obtain j where j: "j < NBUF" "j \<noteq> i" "at_block n (bufs s ! j)" by blast
    then show ?thesis
      using view_cached [OF ok(1) j(1,3)] view_cached [OF ok(2) j(1)] at_same core_simps [OF same [OF j(1,2)]] by simp
  next
    case none: False
    then have "view s' n = disk s ! unat n"
      using view_uncached [of n s'] at_same ni d by metis
    moreover have "view s n = disk s ! unat n"
    proof (cases "at_block n (bufs s ! i)")
      case True
      then show ?thesis using view_cached [OF ok(1) i(1)] ev False by simp
    next
      case no: False
      then show ?thesis using view_uncached [of n s] none by metis
    qed
    ultimately show ?thesis by simp
  qed
qed

lemma set_buf_set_buf: "i < length (bufs s) \<Longrightarrow> set_buf i g (set_buf i f s) = set_buf i (\<lambda>x. g (f x)) s"
  by (simp add: set_buf_def)

lemma cache_ok_set:
  assumes ok: "cache_ok me s" and i: "i < NBUF" and b: "buf_ok me (disk s) (f (bufs s ! i))"
    and links: "b_next (f (bufs s ! i)) = b_next (bufs s ! i)" "b_prev (f (bufs s ! i)) = b_prev (bufs s ! i)"
    and uniq: "\<And>j n. j < NBUF \<Longrightarrow> j \<noteq> i \<Longrightarrow> at_block n (f (bufs s ! i)) \<Longrightarrow> \<not> at_block n (bufs s ! j)"
  shows "cache_ok me (set_buf i f s)"
proof -
  note D = cache_okD [OF ok]
  obtain xs where xs: "lru s xs" "set xs = {..<NBUF}" using D(2) by blast
  have "lru (set_buf i f s) xs"
    by (rule lru_cong [OF xs(1)]) (use D(1) i links in simp_all)
  moreover have "j = k" if jk: "j < NBUF" "k < NBUF" "at_block n (bufs (set_buf i f s) ! j)" "at_block n (bufs (set_buf i f s) ! k)"
    for j k n
  proof -
    have at: "bufs (set_buf i f s) ! l = (if l = i then f (bufs s ! i) else bufs s ! l)" for l using D(1) i by simp
    show ?thesis
      using jk D(5) [of j k n] uniq [of j n] uniq [of k n] unfolding at by (auto split: if_splits)
  qed
  moreover have "buf_ok me (disk s) (bufs (set_buf i f s) ! j)" if "j < NBUF" for j
    using D(1,4) i b that by simp
  ultimately show ?thesis
    using xs(2) D(3) unfolding cache_ok_def by (simp only: set_buf_simps(2)) blast
qed

lemma cache_ok_links:
  assumes ok: "cache_ok me s" and c: "same_cores s s'" and l: "lru s' xs" "set xs = {..<NBUF}"
  shows "cache_ok me s'"
proof -
  note D = cache_okD [OF ok]
  have e: "core (bufs s' ! i) = core (bufs s ! i)" "disk s' = disk s" for i using c by (simp_all add: same_cores_def)
  have "buf_ok me (disk s') (bufs s' ! i) = buf_ok me (disk s) (bufs s ! i)"
    and "at_block n (bufs s' ! i) = at_block n (bufs s ! i)" for i n
    using core_simps [OF e(1), of i] e(2) by (simp_all add: buf_ok_def at_block_def)
  then show ?thesis using D l e(2) unfolding cache_ok_def by auto
qed

lemma view_cores:
  assumes "same_cores s s'"
  shows "view s' n = view s n"
proof -
  have e: "core (bufs s' ! i) = core (bufs s ! i)" "disk s' = disk s" for i using assms by (simp_all add: same_cores_def)
  have "at_block n (bufs s' ! i) = at_block n (bufs s ! i)" "b_data (bufs s' ! i) = b_data (bufs s ! i)" for i n
    using core_simps [OF e(1), of i] by (simp_all add: at_block_def)
  then show ?thesis using e(2) by (auto simp: view_def split: option.split)
qed

section \<open>The operations\<close>

definition unlocked :: "bcache \<Rightarrow> nat \<Rightarrow> bool" where
  "unlocked s i \<longleftrightarrow> sl_locked (b_lock (bufs s ! i)) = 0"

definition recyclable :: "buf \<Rightarrow> bool" where
  "recyclable b \<longleftrightarrow> b_refcnt b = 0 \<and> \<not> b_dirty b"

lemma conditions: "(\<lambda>b. b_dev b = 1 \<and> b_blockno b = n) = at_block n" "(\<lambda>b. b_refcnt b = 0 \<and> \<not> b_dirty b) = recyclable"
  by (simp_all add: fun_eq_iff at_block_def recyclable_def)

lemma find_unique: "find P xs = Some i \<Longrightarrow> i \<in> set xs \<and> P i"
  by (metis find_Some_iff nth_mem)

lemma lock_buf_free:
  assumes "unlocked s i"
  shows "lock_buf me i s = Some (set_buf i (\<lambda>x. x\<lparr>b_lock := (b_lock (bufs s ! i))\<lparr>sl_locked := 1, sl_pid := me\<rparr>\<rparr>) s)"
  using assms by (simp add: lock_buf_def unlocked_def)

text \<open>\<open>bread\<close> of a block that is in the cache, and of one that is not.\<close>

lemma bread_cached:
  assumes ok: "cache_ok me s" and i: "i < NBUF" "at_block n (bufs s ! i)" "unlocked s i"
  shows "bread me 1 n s = Some (i, set_buf i (\<lambda>x. x\<lparr>b_refcnt := 1,
    b_lock := (b_lock x)\<lparr>sl_locked := 1, sl_pid := me\<rparr>\<rparr>) s)"
proof -
  note D = cache_okD [OF ok]
  obtain xs where xs: "lru s xs" "set xs = {..<NBUF}" using D(2) by blast
  have "find (\<lambda>i. at_block n (bufs s ! i)) xs = Some i"
    using find_at [of "\<lambda>i. at_block n (bufs s ! i)" i xs] D(5) i xs(2) by auto
  then have f: "scan b_next (\<lambda>b. b_dev b = 1 \<and> b_blockno b = n) s (b_next (bufs s ! NBUF)) = Some (Some i)"
    using scan_lru(1) [OF xs(1), of "at_block n"] unfolding conditions by simp
  have b: "b_refcnt (bufs s ! i) = 0" "b_valid (bufs s ! i)"
    using D(4) [OF i(1)] i(2,3) by (auto simp: buf_ok_def unlocked_def at_block_def)
  have "unlocked (set_buf i (\<lambda>x. x\<lparr>b_refcnt := b_refcnt x + 1\<rparr>) s) i" using i D(1) by (simp add: unlocked_def)
  then show ?thesis
    using f b i D(1) by (simp add: bread_def bget_def lock_buf_free set_buf_set_buf) (simp add: set_buf_def)
qed

lemma bread_uncached:
  assumes ok: "cache_ok me s" and n: "unat n < length (disk s)" "\<And>i. i < NBUF \<Longrightarrow> \<not> at_block n (bufs s ! i)"
    and room: "i < NBUF" "recyclable (bufs s ! i)"
  shows "\<exists>j. j < NBUF \<and> recyclable (bufs s ! j) \<and>
    bread me 1 n s = Some (j, set_buf j (\<lambda>x. x\<lparr>b_dev := 1, b_blockno := n, b_dirty := False, b_refcnt := 1,
      b_lock := (b_lock x)\<lparr>sl_locked := 1, sl_pid := me\<rparr>, b_data := disk s ! unat n, b_valid := True\<rparr>) s)"
proof -
  note D = cache_okD [OF ok]
  obtain xs where xs: "lru s xs" "set xs = {..<NBUF}" using D(2) by blast
  have "find (\<lambda>i. at_block n (bufs s ! i)) xs = None" using n(2) xs(2) by (auto simp: find_None_iff)
  then have f: "scan b_next (\<lambda>b. b_dev b = 1 \<and> b_blockno b = n) s (b_next (bufs s ! NBUF)) = Some None"
    using scan_lru(1) [OF xs(1), of "at_block n"] unfolding conditions by simp
  have "find (\<lambda>i. recyclable (bufs s ! i)) (rev xs) \<noteq> None" using room xs(2) by (auto simp: find_None_iff)
  then obtain j where j: "find (\<lambda>i. recyclable (bufs s ! i)) (rev xs) = Some j" by blast
  then have g: "scan b_prev (\<lambda>b. b_refcnt b = 0 \<and> \<not> b_dirty b) s (b_prev (bufs s ! NBUF)) = Some (Some j)"
    using scan_lru(2) [OF xs(1), of recyclable] unfolding conditions by simp
  have jn: "j < NBUF" "recyclable (bufs s ! j)" using find_unique [OF j] xs(2) by auto
  then have "sl_locked (b_lock (bufs s ! j)) = 0" using D(4) [OF jn(1)] by (auto simp: buf_ok_def recyclable_def split: if_splits)
  then have u: "unlocked (set_buf j (\<lambda>x. x\<lparr>b_dev := 1, b_blockno := n, b_valid := False, b_dirty := False, b_refcnt := 1\<rparr>) s) j"
    using jn D(1) by (simp add: unlocked_def)
  have "bread me 1 n s = Some (j, set_buf j (\<lambda>x. x\<lparr>b_dev := 1, b_blockno := n, b_dirty := False, b_refcnt := 1,
      b_lock := (b_lock x)\<lparr>sl_locked := 1, sl_pid := me\<rparr>, b_data := disk s ! unat n, b_valid := True\<rparr>) s)"
    using f g u jn(1) D(1) n(1)
    by (simp add: bread_def bget_def lock_buf_free set_buf_set_buf iderw_def Let_def holdingsleep_def) (simp add: set_buf_def)
  with jn show ?thesis by blast
qed

lemma bread_panics:
  assumes ok: "cache_ok me s" and n: "\<And>i. i < NBUF \<Longrightarrow> \<not> at_block n (bufs s ! i)"
    and "\<And>i. i < NBUF \<Longrightarrow> \<not> recyclable (bufs s ! i)"
  shows "bread me 1 n s = None"
proof -
  obtain xs where xs: "lru s xs" "set xs = {..<NBUF}" using cache_okD(2) [OF ok] by blast
  have "find (\<lambda>i. at_block n (bufs s ! i)) xs = None" "find (\<lambda>i. recyclable (bufs s ! i)) (rev xs) = None"
    using assms(2,3) xs(2) by (auto simp: find_None_iff)
  then show ?thesis
    using scan_lru(1) [OF xs(1), of "at_block n"] scan_lru(2) [OF xs(1), of recyclable]
    unfolding bread_def bget_def conditions by simp
qed

text \<open>Both together: the buffer returned is locked and holds the block's contents, and nothing that a
  reader can see changes.\<close>

lemma bread_ok:
  assumes ok: "cache_ok me s" and n: "unat n < length (disk s)"
    and free: "\<And>i. i < NBUF \<Longrightarrow> at_block n (bufs s ! i) \<Longrightarrow> unlocked s i"
    and room: "(\<exists>i < NBUF. at_block n (bufs s ! i)) \<or> (\<exists>i < NBUF. recyclable (bufs s ! i))"
  shows "\<exists>i s'. bread me 1 n s = Some (i, s') \<and> cache_ok me s' \<and> held_buf me s' i \<and> unlocked s i \<and> at_block n (bufs s' ! i) \<and>
    b_data (bufs s' ! i) = view s n \<and> disk s' = disk s \<and> only i s s' \<and> (\<forall>m. view s' m = view s m) \<and>
    (b_dirty (bufs s' ! i) \<longleftrightarrow> at_block n (bufs s ! i) \<and> b_dirty (bufs s ! i)) \<and>
    (b_dirty (bufs s ! i) \<longrightarrow> at_block n (bufs s ! i))"
proof (cases "\<exists>i < NBUF. at_block n (bufs s ! i)")
  case True
  note D = cache_okD [OF ok]
  from True obtain i where i: "i < NBUF" "at_block n (bufs s ! i)" by blast
  let ?s = "set_buf i (\<lambda>x. x\<lparr>b_refcnt := 1, b_lock := (b_lock x)\<lparr>sl_locked := 1, sl_pid := me\<rparr>\<rparr>) s"
  have r: "bread me 1 n s = Some (i, ?s)" by (rule bread_cached [OF ok i free [OF i]])
  have v: "b_data (bufs s ! i) = view s n" using view_cached [OF ok i] by simp
  have ok': "cache_ok me ?s"
    by (rule cache_ok_set [OF ok i(1)])
      (use D(4) [OF i(1)] i(2) D(5) i(1) in \<open>auto simp: buf_ok_def at_block_def holdingsleep_def\<close>)
  have o: "only i s ?s" "at_block n (bufs ?s ! i)" "b_data (bufs ?s ! i) = view s n" "disk ?s = disk s" "held_buf me ?s i"
    using D(1) i v by (simp_all add: only_def at_block_def held_buf_def holdingsleep_def)
  have "view ?s m = view s m" for m
    by (rule view_only [OF ok ok' i(1) o(1,2,4,3)]) (use i(2) in \<open>simp add: at_block_def\<close>)
  with r ok' o i free [OF i] D(1) show ?thesis by (intro exI [of _ i] exI [of _ ?s]) simp
next
  case False
  note D = cache_okD [OF ok]
  have nc: "\<And>i. i < NBUF \<Longrightarrow> \<not> at_block n (bufs s ! i)" using False by blast
  from room False obtain i where "i < NBUF" "recyclable (bufs s ! i)" by blast
  from bread_uncached [OF ok n nc this] obtain j where j: "j < NBUF" "recyclable (bufs s ! j)" and
    r: "bread me 1 n s = Some (j, set_buf j (\<lambda>x. x\<lparr>b_dev := 1, b_blockno := n, b_dirty := False, b_refcnt := 1,
      b_lock := (b_lock x)\<lparr>sl_locked := 1, sl_pid := me\<rparr>, b_data := disk s ! unat n, b_valid := True\<rparr>) s)" (is "_ = Some (j, ?s)") by blast
  have old: "sl_locked (b_lock (bufs s ! j)) = 0" "\<not> b_dirty (bufs s ! j)"
    "at_block k (bufs s ! j) \<Longrightarrow> b_data (bufs s ! j) = disk s ! unat k" for k
    using D(4) [OF j(1)] j(2) by (auto simp: buf_ok_def recyclable_def at_block_def split: if_splits)
  have ok': "cache_ok me ?s"
  proof (rule cache_ok_set [OF ok j(1)])
    show "buf_ok me (disk s) ((bufs s ! j)\<lparr>b_dev := 1, b_blockno := n, b_dirty := False, b_refcnt := 1,
      b_lock := (b_lock (bufs s ! j))\<lparr>sl_locked := 1, sl_pid := me\<rparr>, b_data := disk s ! unat n, b_valid := True\<rparr>)"
      using n D(3) by (simp add: buf_ok_def holdingsleep_def)
  qed (use nc in \<open>auto simp: at_block_def\<close>)
  have o: "only j s ?s" "at_block n (bufs ?s ! j)" "disk ?s = disk s" "held_buf me ?s j" "b_data (bufs ?s ! j) = view s n"
    using D(1) j view_uncached [of n s] nc by (simp_all add: only_def at_block_def held_buf_def holdingsleep_def)
  have "view ?s m = view s m" for m
    by (rule view_only [OF ok ok' j(1) o(1,2,3,5)]) (rule old(3))
  with r ok' o j old nc D(1) show ?thesis by (intro exI [of _ j] exI [of _ ?s]) (simp add: unlocked_def)
qed

lemma held_bufD:
  assumes "cache_ok me s" "held_buf me s i"
  shows "i < NBUF" "i < length (bufs s)" "holdingsleep me (b_lock (bufs s ! i))" "b_refcnt (bufs s ! i) = 1" "b_valid (bufs s ! i)"
    "b_dev (bufs s ! i) = 1" "unat (b_blockno (bufs s ! i)) < length (disk s)" "length (b_data (bufs s ! i)) = BSIZE"
    "view s (b_blockno (bufs s ! i)) = b_data (bufs s ! i)"
proof -
  note D = cache_okD [OF assms(1)]
  show i: "i < NBUF" "holdingsleep me (b_lock (bufs s ! i))" using assms(2) by (simp_all add: held_buf_def)
  with D(1) show "i < length (bufs s)" by simp
  have l: "sl_locked (b_lock (bufs s ! i)) \<noteq> 0" using i(2) by (simp add: holdingsleep_def)
  show b: "b_refcnt (bufs s ! i) = 1" "b_valid (bufs s ! i)" "b_dev (bufs s ! i) = 1"
    "unat (b_blockno (bufs s ! i)) < length (disk s)" "length (b_data (bufs s ! i)) = BSIZE"
    using D(4) [OF i(1)] l by (simp_all add: buf_ok_def)
  show "view s (b_blockno (bufs s ! i)) = b_data (bufs s ! i)"
    by (rule view_cached [OF assms(1) i(1)]) (simp add: at_block_def b)
qed

text \<open>Changing a locked buffer: its data, or its dirty mark.\<close>

lemma set_data_ok:
  assumes ok: "cache_ok me s" and h: "held_buf me s i" and d: "length d = BSIZE"
  defines "s' \<equiv> set_buf i (\<lambda>x. x\<lparr>b_data := d\<rparr>) s"
  shows "cache_ok me s'" "held_buf me s' i" "only i s s'" "view s' n = (if n = b_blockno (bufs s ! i) then d else view s n)"
proof -
  note D = cache_okD [OF ok] and H = held_bufD [OF ok h]
  show ok': "cache_ok me s'"
    unfolding s'_def by (rule cache_ok_set [OF ok H(1)])
      (use D(4) [OF H(1)] D(5) H d in \<open>auto simp: buf_ok_def at_block_def holdingsleep_def\<close>)
  show "held_buf me s' i" "only i s s'" using H by (simp_all add: s'_def held_buf_def only_def)
  have nth: "bufs s' ! j = (if j = i then (bufs s ! i)\<lparr>b_data := d\<rparr> else bufs s ! j)" for j using H(2) by (simp add: s'_def)
  show "view s' n = (if n = b_blockno (bufs s ! i) then d else view s n)"
  proof (cases "n = b_blockno (bufs s ! i)")
    case True
    then show ?thesis using view_cached [OF ok' H(1), of n] H(6) by (simp add: at_block_def nth)
  next
    case False
    then have "at_block n (bufs s' ! j) = at_block n (bufs s ! j)" "at_block n (bufs s ! j) \<Longrightarrow> b_data (bufs s' ! j) = b_data (bufs s ! j)" for j
      by (auto simp: at_block_def nth)
    then show ?thesis
      using False by (auto simp: view_def s'_def split: option.split dest!: find_unique)
  qed
qed

lemma set_dirty_ok:
  assumes ok: "cache_ok me s" and h: "held_buf me s i"
  defines "s' \<equiv> set_buf i (\<lambda>x. x\<lparr>b_dirty := True\<rparr>) s"
  shows "cache_ok me s'" "held_buf me s' i" "only i s s'" "view s' n = view s n"
proof -
  note D = cache_okD [OF ok] and H = held_bufD [OF ok h]
  show "cache_ok me s'"
    unfolding s'_def by (rule cache_ok_set [OF ok H(1)])
      (use D(4) [OF H(1)] D(5) H in \<open>auto simp: buf_ok_def at_block_def holdingsleep_def\<close>)
  show "held_buf me s' i" "only i s s'" using H by (simp_all add: s'_def held_buf_def only_def)
  have nth: "bufs s' ! j = (if j = i then (bufs s ! i)\<lparr>b_dirty := True\<rparr> else bufs s ! j)" for j using H(2) by (simp add: s'_def)
  have "at_block n (bufs s' ! j) = at_block n (bufs s ! j)" "b_data (bufs s' ! j) = b_data (bufs s ! j)" for j
    by (simp_all add: at_block_def nth)
  then show "view s' n = view s n" by (auto simp: view_def s'_def split: option.split)
qed

lemma bwrite_run:
  assumes ok: "cache_ok me s" and h: "held_buf me s i"
  shows "bwrite me i s = Some (set_buf i (\<lambda>b. b\<lparr>b_dirty := False, b_valid := True\<rparr>)
    (s\<lparr>disk := (disk s)[unat (b_blockno (bufs s ! i)) := b_data (bufs s ! i)]\<rparr>))"
  using held_bufD [OF ok h]
  by (simp add: bwrite_def iderw_def Let_def not_le) (simp add: set_buf_def)

lemma bwrite_ok:
  assumes ok: "cache_ok me s" and h: "held_buf me s i"
  shows "\<exists>s'. bwrite me i s = Some s' \<and> cache_ok me s' \<and> held_buf me s' i \<and> only i s s' \<and>
    disk s' = (disk s)[unat (b_blockno (bufs s ! i)) := b_data (bufs s ! i)] \<and> (\<forall>n. view s' n = view s n) \<and>
    b_data (bufs s' ! i) = b_data (bufs s ! i) \<and> b_blockno (bufs s' ! i) = b_blockno (bufs s ! i) \<and> \<not> b_dirty (bufs s' ! i)"
proof -
  note D = cache_okD [OF ok] and H = held_bufD [OF ok h]
  let ?b = "bufs s ! i"
  let ?k = "unat (b_blockno ?b)"
  define s' where "s' = set_buf i (\<lambda>b. b\<lparr>b_dirty := False, b_valid := True\<rparr>) (s\<lparr>disk := (disk s)[?k := b_data ?b]\<rparr>)"
  have nth: "bufs s' ! j = (if j = i then ?b\<lparr>b_dirty := False, b_valid := True\<rparr> else bufs s ! j)" for j
    using H(2) by (simp add: s'_def)
  have dk: "disk s' = (disk s)[?k := b_data ?b]" by (simp add: s'_def)
  have at: "at_block n (bufs s' ! j) = at_block n (bufs s ! j)" "b_data (bufs s' ! j) = b_data (bufs s ! j)" for j n
    by (simp_all add: at_block_def nth)
  have "buf_ok me (disk s') (bufs s' ! j)" if j: "j < NBUF" for j
  proof (cases "j = i")
    case True
    then show ?thesis using H by (simp add: nth dk buf_ok_def holdingsleep_def)
  next
    case False
    have "b_valid (bufs s ! j) \<Longrightarrow> b_blockno (bufs s ! j) \<noteq> b_blockno ?b"
      using D(5) [OF j H(1), of "b_blockno ?b"] D(4) [OF j] False H(6) by (auto simp: at_block_def buf_ok_def)
    then show ?thesis using D(4) [OF j] False by (auto simp: nth dk buf_ok_def word_unat_eq_iff)
  qed
  moreover obtain xs where xs: "lru s xs" "set xs = {..<NBUF}" using D(2) by blast
  moreover have "lru s' xs" by (rule lru_cong [OF xs(1)]) (simp_all add: nth, simp add: s'_def)
  moreover have "length b = BSIZE" if "b \<in> set (disk s')" for b
    using that D(3) H(8) set_update_subset_insert [of "disk s" ?k "b_data ?b"] by (auto simp: dk)
  ultimately have ok': "cache_ok me s'" using D(5) unfolding cache_ok_def at by blast
  have "view s' n = view s n" for n
  proof (cases "\<exists>j < NBUF. at_block n (bufs s ! j)")
    case True
    then obtain j where j: "j < NBUF" "at_block n (bufs s ! j)" by blast
    then show ?thesis using view_cached [OF ok j] view_cached [OF ok' j(1)] at by simp
  next
    case False
    then have "n \<noteq> b_blockno ?b" using H(1,6) by (auto simp: at_block_def)
    then have "disk s' ! unat n = disk s ! unat n" by (simp add: dk word_unat_eq_iff)
    then show ?thesis using False view_uncached [of n s] view_uncached [of n s'] at by metis
  qed
  then show ?thesis
    using bwrite_run [OF ok h] ok' dk nth H
    by (intro exI [of _ s']) (auto simp: s'_def [symmetric] only_def held_buf_def)
qed

text \<open>\<open>brelse\<close> of a buffer that is on the disk or pinned by its dirty mark.\<close>

lemma brelse_ok:
  assumes ok: "cache_ok me s" and h: "held_buf me s i"
    and clean: "b_dirty (bufs s ! i) \<or> b_data (bufs s ! i) = disk s ! unat (b_blockno (bufs s ! i))"
  shows "\<exists>s'. brelse me i s = Some s' \<and> cache_ok me s' \<and> unlocked s' i \<and> only i s s' \<and> disk s' = disk s \<and>
    (\<forall>n. view s' n = view s n) \<and> b_dirty (bufs s' ! i) = b_dirty (bufs s ! i) \<and> b_dev (bufs s' ! i) = b_dev (bufs s ! i) \<and>
    b_blockno (bufs s' ! i) = b_blockno (bufs s ! i) \<and> (\<exists>ys. lru s' (i # ys))"
proof -
  note D = cache_okD [OF ok] and H = held_bufD [OF ok h]
  define f where "f = (\<lambda>x. x\<lparr>b_lock := releasesleep (b_lock x), b_refcnt := b_refcnt x - 1\<rparr> :: buf)"
  define s1 where "s1 = set_buf i f s"
  have nth: "bufs s1 ! j = (if j = i then f (bufs s ! i) else bufs s ! j)" for j using H(2) by (simp add: s1_def)
  have ok1: "cache_ok me s1"
    unfolding s1_def by (rule cache_ok_set [OF ok H(1)])
      (use D(5) H clean in \<open>auto simp: f_def buf_ok_def at_block_def releasesleep_def\<close>)
  obtain xs where xs: "lru s1 xs" "set xs = {..<NBUF}" using cache_okD(2) [OF ok1] by blast
  then obtain ys zs where sp: "xs = ys @ i # zs" using H(1) split_list [of i xs] by auto
  have u: "lru (unlink i s1) (ys @ zs)" "same_cores s1 (unlink i s1)" using unlink_lru [of s1 ys i zs] xs(1) sp by simp_all
  have ni: "i \<notin> set (ys @ zs)" using xs(1) sp by (auto simp: lru_def)
  define s2 where "s2 = link_front i (unlink i s1)"
  have l: "lru s2 (i # ys @ zs)" "same_cores (unlink i s1) s2"
    unfolding s2_def using link_front_lru [OF u(1) H(1) ni] by simp_all
  have c: "same_cores s1 s2" by (rule same_cores_trans [OF u(2) l(2)])
  have e: "core (bufs s2 ! j) = core (bufs s1 ! j)" "disk s2 = disk s" for j using c by (simp_all add: same_cores_def s1_def)
  have ok2: "cache_ok me s2" by (rule cache_ok_links [OF ok1 c l(1)]) (use xs(2) sp in auto)
  have run: "brelse me i s = Some s2"
    using H s1_def by (simp add: brelse_def Let_def set_buf_set_buf s2_def f_def)
  have at: "at_block n (bufs s1 ! j) = at_block n (bufs s ! j)" "b_data (bufs s1 ! j) = b_data (bufs s ! j)" for j n
    by (simp_all add: nth at_block_def f_def)
  have "view s1 n = view s n" for n unfolding view_def at by (auto simp: s1_def split: option.split)
  then have v: "view s2 n = view s n" for n using view_cores [OF c] by simp
  have "unlocked s2 i" "b_dirty (bufs s2 ! i) = b_dirty (bufs s ! i)" "b_dev (bufs s2 ! i) = b_dev (bufs s ! i)"
    "b_blockno (bufs s2 ! i) = b_blockno (bufs s ! i)"
    using core_simps [OF e(1) [of i]] by (simp_all add: unlocked_def nth f_def releasesleep_def)
  moreover have "only i s s2" using e(1) nth by (simp add: only_def)
  ultimately show ?thesis using run ok2 v e(2) l(1) by blast
qed

section \<open>Start\<close>

definition zero_buf :: buf where
  "zero_buf = \<lparr>b_valid = False, b_dirty = False, b_dev = 0, b_blockno = 0,
     b_lock = \<lparr>sl_locked = 0, sl_name = [], sl_pid = 0\<rparr>, b_refcnt = 0, b_prev = 0, b_next = 0, b_qnext = None, b_data = []\<rparr>"

definition boot_cache :: "byte list list \<Rightarrow> bcache" where
  "boot_cache d = \<lparr>bufs = replicate (Suc NBUF) zero_buf, disk = d\<rparr>"

definition unused_buf :: "buf \<Rightarrow> bool" where
  "unused_buf b \<longleftrightarrow> \<not> b_valid b \<and> \<not> b_dirty b \<and> b_dev b = 0 \<and> sl_locked (b_lock b) = 0 \<and> b_refcnt b = 0"

lemma unused_core: "core b = core c \<Longrightarrow> unused_buf b \<longleftrightarrow> unused_buf c"
  using core_simps [of b c] by (simp add: unused_buf_def)

lemma binit_unused:
  assumes "length (bufs s) = Suc NBUF" "\<And>i. i \<le> NBUF \<Longrightarrow> unused_buf (bufs s ! i)" "i \<le> NBUF"
  shows "unused_buf (bufs (binit s) ! i) \<and> disk (binit s) = disk s"
proof -
  let ?f = "\<lambda>b s. link_front b (set_buf b (\<lambda>x. x\<lparr>b_lock := initsleeplock ''buffer''\<rparr>) s)"
  let ?s0 = "set_buf NBUF (\<lambda>x. x\<lparr>b_prev := NBUF, b_next := NBUF\<rparr>) s"
  have "lru (fold ?f [0..<n] ?s0) (rev [0..<n]) \<and> (\<forall>i \<le> NBUF. unused_buf (bufs (fold ?f [0..<n] ?s0) ! i)) \<and>
      disk (fold ?f [0..<n] ?s0) = disk s" if "n \<le> NBUF" for n
    using that
  proof (induction n)
    case 0
    have "unused_buf (bufs ?s0 ! i)" if "i \<le> NBUF" for i using assms that by (simp add: unused_buf_def)
    then show ?case using assms(1) by (simp add: lru_def)
  next
    case (Suc n)
    let ?s = "fold ?f [0..<n] ?s0"
    let ?s1 = "set_buf n (\<lambda>x. x\<lparr>b_lock := initsleeplock ''buffer''\<rparr>) ?s"
    have l: "lru ?s (rev [0..<n])" "\<And>i. i \<le> NBUF \<Longrightarrow> unused_buf (bufs ?s ! i)" "disk ?s = disk s" using Suc by simp_all
    then have n: "n < length (bufs ?s)" using Suc.prems by (simp add: lru_def)
    have "lru ?s1 (rev [0..<n])" by (rule lru_cong [OF l(1)]) (use n in simp_all)
    then have f: "lru (link_front n ?s1) (n # rev [0..<n])" "same_cores ?s1 (link_front n ?s1)"
      using link_front_lru [of ?s1 "rev [0..<n]" n] Suc.prems by simp_all
    have "unused_buf (bufs ?s1 ! i)" if "i \<le> NBUF" for i using that Suc.prems l(2) [of i] l(2) [of n] n by (simp add: unused_buf_def initsleeplock_def)
    then have "unused_buf (bufs (link_front n ?s1) ! i)" if "i \<le> NBUF" for i
      using that f(2) unused_core [of "bufs (link_front n ?s1) ! i" "bufs ?s1 ! i"] by (simp add: same_cores_def)
    with f l(3) show ?case by (simp add: same_cores_def)
  qed
  from this [of NBUF] assms(3) show ?thesis by (simp add: binit_def)
qed

lemma binit_ok:
  assumes "length (bufs s) = Suc NBUF" "\<And>i. i \<le> NBUF \<Longrightarrow> unused_buf (bufs s ! i)" "\<And>b. b \<in> set (disk s) \<Longrightarrow> length b = BSIZE"
  shows "cache_ok me (binit s)" "view (binit s) n = disk s ! unat n" "disk (binit s) = disk s"
    "i \<le> NBUF \<Longrightarrow> unlocked (binit s) i" "i \<le> NBUF \<Longrightarrow> recyclable (bufs (binit s) ! i)"
    "i \<le> NBUF \<Longrightarrow> \<not> at_block n (bufs (binit s) ! i)"
proof -
  have u: "unused_buf (bufs (binit s) ! i)" if "i \<le> NBUF" for i using binit_unused [OF assms(1,2) that] by blast
  have d: "disk (binit s) = disk s" using binit_unused [OF assms(1,2), of 0] by simp
  show "disk (binit s) = disk s" by (rule d)
  show "unlocked (binit s) i" "recyclable (bufs (binit s) ! i)" "\<not> at_block n (bufs (binit s) ! i)" if "i \<le> NBUF"
    using u [OF that] by (simp_all add: unlocked_def recyclable_def unused_buf_def at_block_def)
  have na: "\<not> at_block n (bufs (binit s) ! i)" if "i < NBUF" for n i using u [of i] that by (simp add: unused_buf_def at_block_def)
  show "view (binit s) n = disk s ! unat n" using view_uncached [of n "binit s"] na d by simp
  have "buf_ok me (disk s) (bufs (binit s) ! i)" if "i < NBUF" for i using u [of i] that by (simp add: unused_buf_def buf_ok_def)
  moreover have "set (rev [0..<NBUF]) = {..<NBUF}" by auto
  ultimately show "cache_ok me (binit s)"
    using binit_lru [OF assms(1)] assms(3) d na unfolding cache_ok_def by metis
qed

lemma boot_cache_ok:
  assumes "\<forall>b \<in> set d. length b = BSIZE"
  shows "cache_ok me (binit (boot_cache d))" "view (binit (boot_cache d)) n = d ! unat n" "disk (binit (boot_cache d)) = d"
    "i \<le> NBUF \<Longrightarrow> unlocked (binit (boot_cache d)) i" "i \<le> NBUF \<Longrightarrow> recyclable (bufs (binit (boot_cache d)) ! i)"
    "i \<le> NBUF \<Longrightarrow> \<not> at_block n (bufs (binit (boot_cache d)) ! i)"
proof -
  have l: "length (bufs (boot_cache d)) = Suc NBUF" "disk (boot_cache d) = d" by (simp_all add: boot_cache_def)
  have u: "unused_buf (bufs (boot_cache d) ! i)" if "i \<le> NBUF" for i
    using that by (simp add: boot_cache_def unused_buf_def zero_buf_def del: replicate_Suc)
  have b: "length b = BSIZE" if "b \<in> set (disk (boot_cache d))" for b using that assms l(2) by simp
  show "cache_ok me (binit (boot_cache d))" by (rule binit_ok(1) [OF l(1) u b])
  show "view (binit (boot_cache d)) n = d ! unat n" using binit_ok(2) [OF l(1) u b] l(2) by simp
  show "disk (binit (boot_cache d)) = d" using binit_ok(3) [OF l(1) u b] l(2) by simp
  show "unlocked (binit (boot_cache d)) i" if "i \<le> NBUF" by (rule binit_ok(4) [OF l(1) u b that])
  show "recyclable (bufs (binit (boot_cache d)) ! i)" if "i \<le> NBUF" by (rule binit_ok(5) [OF l(1) u b that])
  show "\<not> at_block n (bufs (binit (boot_cache d)) ! i)" if "i \<le> NBUF" by (rule binit_ok(6) [OF l(1) u b that])
qed

section \<open>Properties\<close>

text \<open>C17: \<open>bread\<close> returns a locked buffer with the contents of the block, from the cache or from the
  disk, provided the caller does not hold the block already and some buffer is unused; no block's
  contents change, and after \<open>bwrite\<close> and \<open>brelse\<close> of the buffer with new data every later reader sees
  them, on the disk too, while all other blocks are as before.\<close>

theorem buffer_cache_coherent:
  assumes "cache_ok me s" and "unat n < length (disk s)" and "length d = BSIZE"
    and "\<And>i. i < NBUF \<Longrightarrow> at_block n (bufs s ! i) \<Longrightarrow> unlocked s i"
    and "i < NBUF" and "recyclable (bufs s ! i)"
  shows "\<exists>b s1 s2 s3. bread me 1 n s = Some (b, s1) \<and> b_data (bufs s1 ! b) = view s n \<and> (\<forall>m. view s1 m = view s m) \<and>
    bwrite me b (set_buf b (\<lambda>x. x\<lparr>b_data := d\<rparr>) s1) = Some s2 \<and> brelse me b s2 = Some s3 \<and> cache_ok me s3 \<and>
    (\<forall>m. view s3 m = (if m = n then d else view s m)) \<and> disk s3 = (disk s)[unat n := d]"
proof -
  obtain b s1 where 1: "bread me 1 n s = Some (b, s1)" "cache_ok me s1" "held_buf me s1 b" "at_block n (bufs s1 ! b)"
    "b_data (bufs s1 ! b) = view s n" "disk s1 = disk s" "\<And>m. view s1 m = view s m"
    using bread_ok [OF assms(1,2,4)] assms(5,6) by blast
  let ?s = "set_buf b (\<lambda>x. x\<lparr>b_data := d\<rparr>) s1"
  note D = set_data_ok [OF 1(2,3) assms(3)]
  have n: "b_blockno (bufs s1 ! b) = n" using 1(4) by (simp add: at_block_def)
  have b: "b_data (bufs ?s ! b) = d" "b_blockno (bufs ?s ! b) = n" "disk ?s = disk s"
    using held_bufD(2) [OF 1(2,3)] n 1(6) by simp_all
  obtain s2 where 2: "bwrite me b ?s = Some s2" "cache_ok me s2" "held_buf me s2 b" "disk s2 = (disk s)[unat n := d]"
    "\<And>m. view s2 m = view ?s m" "b_data (bufs s2 ! b) = d" "b_blockno (bufs s2 ! b) = n"
    using bwrite_ok [OF D(1,2)] b by auto
  have "b_data (bufs s2 ! b) = disk s2 ! unat (b_blockno (bufs s2 ! b))" using 2 assms(2) by simp
  then obtain s3 where 3: "brelse me b s2 = Some s3" "cache_ok me s3" "disk s3 = disk s2" "\<And>m. view s3 m = view s2 m"
    using brelse_ok [OF 2(2,3)] by blast
  have "view s3 m = (if m = n then d else view s m)" for m using 3(4) 2(5) D(4) n 1(7) by simp
  with 1 2 3 show ?thesis by metis
qed

theorem buffer_cache_coherent_witness:
  "\<exists>b s1. bread 5 1 3 (binit (boot_cache (replicate 8 (replicate BSIZE 9)))) = Some (b, s1) \<and>
     b_data (bufs s1 ! b) = replicate BSIZE 9"
proof -
  let ?d = "replicate 8 (replicate BSIZE (9 :: byte))"
  let ?s = "binit (boot_cache ?d)"
  have d: "\<forall>b \<in> set ?d. length b = BSIZE" by auto
  note B = boot_cache_ok [OF d]
  have "unat (3 :: u32) < length (disk ?s)" using B(3) by simp
  then have "\<exists>b s1. bread 5 1 3 ?s = Some (b, s1) \<and> b_data (bufs s1 ! b) = view ?s 3"
    using buffer_cache_coherent [OF B(1), of 3 "replicate BSIZE 0" 0 5] B(4,5) by (auto simp: NBUF_def MAXOPBLOCKS_def)
  then show ?thesis using B(2) [of 3] by simp
qed

text \<open>The linked list of \<open>bio.c\<close> is a list of the buffers by last use: \<open>bget\<close> of a block that is not
  cached recycles the least recently used buffer that is neither referenced nor dirty and panics
  exactly if there is none, and \<open>brelse\<close> of the last reference moves the buffer to the front.\<close>

theorem cache_recycles_least_recent:
  assumes "cache_ok me s" and "lru s xs" and "set xs = {..<NBUF}" and "unat n < length (disk s)"
    and "\<And>i. i < NBUF \<Longrightarrow> \<not> at_block n (bufs s ! i)"
  shows "case find (\<lambda>i. recyclable (bufs s ! i)) (rev xs) of
      None \<Rightarrow> bread me 1 n s = None
    | Some b \<Rightarrow> \<exists>s1 s2. bread me 1 n s = Some (b, s1) \<and> lru s1 xs \<and> brelse me b s1 = Some s2 \<and>
        lru s2 (b # removeAll b xs)"
proof (cases "find (\<lambda>i. recyclable (bufs s ! i)) (rev xs)")
  case None
  then have "bread me 1 n s = None"
    using bread_panics [OF assms(1,5)] assms(3) by (auto simp: find_None_iff)
  with None show ?thesis by simp
next
  case (Some b)
  then have b: "b < NBUF" "recyclable (bufs s ! b)" using find_unique [OF Some] assms(3) by auto
  have len: "length (bufs s) = Suc NBUF" using assms(2) by (simp add: lru_def)
  obtain j where j: "j < NBUF" and r: "bread me 1 n s = Some (j, set_buf j (\<lambda>x. x\<lparr>b_dev := 1, b_blockno := n, b_dirty := False,
      b_refcnt := 1, b_lock := (b_lock x)\<lparr>sl_locked := 1, sl_pid := me\<rparr>, b_data := disk s ! unat n, b_valid := True\<rparr>) s)"
    (is "_ = Some (j, ?s1)") using bread_uncached [OF assms(1,4,5) b] by blast
  have "find (\<lambda>i. at_block n (bufs s ! i)) xs = None" using assms(3,5) by (auto simp: find_None_iff)
  then have "j = b"
    using r Some scan_lru(1) [OF assms(2), of "at_block n"] scan_lru(2) [OF assms(2), of recyclable]
    unfolding bread_def bget_def conditions by (auto simp: bind_eq_Some_conv)
  have l1: "lru ?s1 xs" by (rule lru_cong [OF assms(2)]) (use len j in simp_all)
  let ?f = "\<lambda>x. x\<lparr>b_lock := releasesleep (b_lock x), b_refcnt := b_refcnt x - 1\<rparr> :: buf"
  have l2: "lru (set_buf b ?f ?s1) xs" by (rule lru_cong [OF l1]) (use len b(1) in simp_all)
  obtain ys zs where sp: "xs = ys @ b # zs" using b(1) assms(3) split_list [of b xs] by auto
  have ni: "b \<notin> set (ys @ zs)" using assms(2) sp by (auto simp: lru_def)
  then have rm: "removeAll b xs = ys @ zs" using sp by simp
  have "lru (link_front b (unlink b (set_buf b ?f ?s1))) (b # ys @ zs)"
    by (rule link_front_lru(1) [OF _ b(1) ni]) (use unlink_lru(1) [of "set_buf b ?f ?s1" ys b zs] l2 sp in simp)
  moreover have "brelse me b ?s1 = Some (link_front b (unlink b (set_buf b ?f ?s1)))"
    using len b(1) \<open>j = b\<close> by (simp add: brelse_def Let_def set_buf_set_buf holdingsleep_def)
  ultimately show ?thesis using Some r \<open>j = b\<close> l1 rm by auto
qed

theorem cache_recycles_least_recent_witness:
  "\<exists>s1. bread 5 1 3 (binit (boot_cache (replicate 8 (replicate BSIZE 9)))) = Some (0, s1)"
proof -
  let ?d = "replicate 8 (replicate BSIZE (9 :: byte))"
  let ?s = "binit (boot_cache ?d)"
  have d: "\<forall>b \<in> set ?d. length b = BSIZE" by auto
  note B = boot_cache_ok [OF d]
  have l: "lru ?s (rev [0..<NBUF])" by (rule binit_lru) (simp add: boot_cache_def)
  have "find (\<lambda>i. recyclable (bufs ?s ! i)) [0..<NBUF] = Some 0"
    using B(5) [of 0] by (simp add: NBUF_def MAXOPBLOCKS_def upt_conv_Cons)
  moreover have "unat (3 :: u32) < length (disk ?s)" using B(3) by simp
  ultimately show ?thesis
    using cache_recycles_least_recent [OF B(1) l, of 3 5] B(6) by (auto simp: atLeast0LessThan)
qed

end
