(* ===== verification/Layout.thy ===== *)
theory Layout
  imports Prelude
begin

text \<open>
  The layout of C structures in disk blocks (\<open>fs.h\<close>, \<open>struct logheader\<close> of \<open>log.c\<close>): little-endian
  fields at fixed offsets of a list of bytes.
\<close>

named_theorems layout_simps \<open>reading a field after writing a field\<close>

definition bytes32 :: "u32 \<Rightarrow> byte list" where
  "bytes32 w = [ucast w, ucast (drop_bit 8 w), ucast (drop_bit 16 w), ucast (drop_bit 24 w)]"

fun word32 :: "byte list \<Rightarrow> u32" where
  "word32 [a, b, c, d] = ucast a OR push_bit 8 (ucast b) OR push_bit 16 (ucast c) OR push_bit 24 (ucast d)"
| "word32 _ = 0"

definition bytes16 :: "u16 \<Rightarrow> byte list" where
  "bytes16 w = [ucast w, ucast (drop_bit 8 w)]"

fun word16 :: "byte list \<Rightarrow> u16" where
  "word16 [a, b] = ucast a OR push_bit 8 (ucast b)"
| "word16 _ = 0"

lemma word32_bytes32 [simp]: "word32 (bytes32 w) = w"
proof (rule bit_word_eqI)
  fix k assume k: "k < LENGTH(32)"
  consider "k < 8" | "8 \<le> k" "k < 16" | "16 \<le> k" "k < 24" | "24 \<le> k" by linarith
  then show "bit (word32 (bytes32 w)) k = bit w k"
    using k by cases (auto simp: bytes32_def bit_simps)
qed

lemma word16_bytes16 [simp]: "word16 (bytes16 w) = w"
proof (rule bit_word_eqI)
  fix k assume k: "k < LENGTH(16)"
  consider "k < 8" | "8 \<le> k" by linarith
  then show "bit (word16 (bytes16 w)) k = bit w k"
    using k by cases (auto simp: bytes16_def bit_simps)
qed

lemma length_bytes [simp]: "length (bytes32 w) = 4" "length (bytes16 h) = 2"
  by (simp_all add: bytes32_def bytes16_def)

definition get32 :: "byte list \<Rightarrow> nat \<Rightarrow> u32" where
  "get32 d off = word32 (segment d off 4)"

definition put32 :: "byte list \<Rightarrow> nat \<Rightarrow> u32 \<Rightarrow> byte list" where
  "put32 d off w = overlay d off (bytes32 w)"

definition get16 :: "byte list \<Rightarrow> nat \<Rightarrow> u16" where
  "get16 d off = word16 (segment d off 2)"

definition put16 :: "byte list \<Rightarrow> nat \<Rightarrow> u16 \<Rightarrow> byte list" where
  "put16 d off w = overlay d off (bytes16 w)"

lemma length_put [simp]:
  "off + 4 \<le> length d \<Longrightarrow> length (put32 d off w) = length d"
  "off + 2 \<le> length d \<Longrightarrow> length (put16 d off h) = length d"
  by (simp_all add: put32_def put16_def)

lemma segment_overlay_other:
  assumes "off + length ys \<le> length d" "off' + n \<le> off \<or> off + length ys \<le> off'" "off' + n \<le> length d"
  shows "segment (overlay d off ys) off' n = segment d off' n"
  by (rule nth_equalityI) (use assms in \<open>auto simp: nth_overlay\<close>)

lemma get_put_same [layout_simps]:
  "off + 4 \<le> length d \<Longrightarrow> get32 (put32 d off w) off = w"
  "off + 2 \<le> length d \<Longrightarrow> get16 (put16 d off h) off = h"
  using segment_overlay [of off "bytes32 w" d] segment_overlay [of off "bytes16 h" d]
  by (simp_all add: get32_def put32_def get16_def put16_def)

lemma get_put_other [layout_simps]:
  "off + 4 \<le> length d \<Longrightarrow> off' + 4 \<le> length d \<Longrightarrow> off' + 4 \<le> off \<or> off + 4 \<le> off' \<Longrightarrow> get32 (put32 d off w) off' = get32 d off'"
  "off + 2 \<le> length d \<Longrightarrow> off' + 4 \<le> length d \<Longrightarrow> off' + 4 \<le> off \<or> off + 2 \<le> off' \<Longrightarrow> get32 (put16 d off h) off' = get32 d off'"
  "off + 4 \<le> length d \<Longrightarrow> off' + 2 \<le> length d \<Longrightarrow> off' + 2 \<le> off \<or> off + 4 \<le> off' \<Longrightarrow> get16 (put32 d off w) off' = get16 d off'"
  "off + 2 \<le> length d \<Longrightarrow> off' + 2 \<le> length d \<Longrightarrow> off' + 2 \<le> off \<or> off + 2 \<le> off' \<Longrightarrow> get16 (put16 d off h) off' = get16 d off'"
  by (simp_all add: get32_def put32_def get16_def put16_def segment_overlay_other)

text \<open>Bytes copied into a block, and fields outside of them.\<close>

lemma get_overlay_other [layout_simps]:
  "off + length ys \<le> length d \<Longrightarrow> off' + 4 \<le> length d \<Longrightarrow> off' + 4 \<le> off \<or> off + length ys \<le> off' \<Longrightarrow>
     get32 (overlay d off ys) off' = get32 d off'"
  "off + length ys \<le> length d \<Longrightarrow> off' + 2 \<le> length d \<Longrightarrow> off' + 2 \<le> off \<or> off + length ys \<le> off' \<Longrightarrow>
     get16 (overlay d off ys) off' = get16 d off'"
  by (simp_all add: get32_def get16_def segment_overlay_other)

section \<open>Arrays of 32-bit fields\<close>

text \<open>Writing a list of words one after the other, as the loops over \<open>block[]\<close> do, and reading it back.\<close>

fun put_words :: "byte list \<Rightarrow> nat \<Rightarrow> u32 list \<Rightarrow> byte list" where
  "put_words d off [] = d"
| "put_words d off (w # ws) = put_words (put32 d off w) (off + 4) ws"

definition get_words :: "byte list \<Rightarrow> nat \<Rightarrow> nat \<Rightarrow> u32 list" where
  "get_words d off n = map (\<lambda>i. get32 d (off + 4 * i)) [0..<n]"

lemma length_put_words [simp]:
  "off + 4 * length ws \<le> length d \<Longrightarrow> length (put_words d off ws) = length d"
  by (induction ws arbitrary: d off) auto

lemma get_put_words_before:
  "off + 4 * length ws \<le> length d \<Longrightarrow> off' + 4 \<le> off \<Longrightarrow> get32 (put_words d off ws) off' = get32 d off'"
  by (induction ws arbitrary: d off) (auto simp: layout_simps)

lemma get_put_words_other:
  "off + 4 * length ws \<le> length d \<Longrightarrow> off' + 4 \<le> off \<or> off + 4 * length ws \<le> off' \<Longrightarrow> off' + 4 \<le> length d \<Longrightarrow>
     get32 (put_words d off ws) off' = get32 d off'"
  "off + 4 * length ws \<le> length d \<Longrightarrow> off' + 2 \<le> off \<or> off + 4 * length ws \<le> off' \<Longrightarrow> off' + 2 \<le> length d \<Longrightarrow>
     get16 (put_words d off ws) off' = get16 d off'"
  by (induction ws arbitrary: d off) (auto simp: layout_simps)

lemma get_put_words:
  assumes "off + 4 * length ws \<le> length d"
  shows "get_words (put_words d off ws) off (length ws) = ws"
  using assms
proof (induction ws arbitrary: d off)
  case Nil
  then show ?case by (simp add: get_words_def)
next
  case (Cons w ws)
  let ?d = "put32 d off w"
  have "get_words (put_words ?d (off + 4) ws) (off + 4) (length ws) = ws"
    by (rule Cons.IH) (use Cons.prems in simp)
  moreover have "get32 (put_words ?d (off + 4) ws) off = w"
    using Cons.prems get_put_words_before [of "off + 4" ws ?d off] by (simp add: layout_simps)
  moreover have "map (\<lambda>i. get32 b (off + 4 * i)) [0..<Suc n] = get32 b off # map (\<lambda>i. get32 b (off + 4 + 4 * i)) [0..<n]"
    for b n by (simp add: upt_conv_Cons map_Suc_upt [symmetric] comp_def algebra_simps del: upt_Suc)
  ultimately show ?case by (simp add: get_words_def del: upt_Suc)
qed

lemma get_zero [layout_simps]:
  "off + 4 \<le> n \<Longrightarrow> get32 (replicate n 0) off = 0" "off + 2 \<le> n \<Longrightarrow> get16 (replicate n 0) off = 0"
proof -
  have "word32 (replicate 4 0) = 0" "word16 (replicate 2 0) = 0" by (simp_all add: numeral_eq_Suc)
  then show "off + 4 \<le> n \<Longrightarrow> get32 (replicate n 0) off = 0" "off + 2 \<le> n \<Longrightarrow> get16 (replicate n 0) off = 0"
    by (simp_all add: get32_def get16_def segment_def min_def)
qed

end
