(* ===== verification/RedoLog.thy ===== *)
theory RedoLog
  imports Prelude
begin

text \<open>
  What a redo log promises, on the level of disks. A transaction is a list of block numbers; its new
  contents go to the log first, then the header is written, then the blocks are copied home, then the
  header is cleared. The locale names the interface: how a list of block numbers is kept in the header
  block. Its lemmas show that a disk that stops after any number of these writes is brought by recovery
  to all of the transaction or to nothing of it.
\<close>

type_synonym 'b device = "'b list"

locale redo_log =
  fixes header :: nat and capacity :: nat
    and encode :: "nat list \<Rightarrow> 'b \<Rightarrow> 'b" and decode :: "'b \<Rightarrow> nat list"
    and fits :: "nat list \<Rightarrow> bool" and valid :: "'b \<Rightarrow> bool"
  assumes decode_encode: "valid b \<Longrightarrow> fits ns \<Longrightarrow> decode (encode ns b) = ns"
    and valid_encode: "valid b \<Longrightarrow> fits ns \<Longrightarrow> valid (encode ns b)"
    and fits_Nil: "fits []"
    and fits_capacity: "fits ns \<Longrightarrow> length ns \<le> capacity"
begin

definition write_header :: "nat list \<Rightarrow> 'b device \<Rightarrow> 'b device" where
  "write_header ns d = d[header := encode ns (d ! header)]"

definition copy_home :: "nat list \<Rightarrow> nat \<Rightarrow> 'b device \<Rightarrow> 'b device" where
  "copy_home ns k d = d[ns ! k := d ! (header + 1 + k)]"

definition install :: "nat list \<Rightarrow> 'b device \<Rightarrow> 'b device" where
  "install ns d = fold (copy_home ns) [0..<length ns] d"

definition recover :: "'b device \<Rightarrow> 'b device" where
  "recover d = write_header [] (install (decode (d ! header)) d)"

text \<open>The blocks outside of the log.\<close>

definition home :: "nat \<Rightarrow> bool" where
  "home n \<longleftrightarrow> n < header \<or> header + capacity < n"

definition layout_ok :: "nat list \<Rightarrow> 'b device \<Rightarrow> bool" where
  "layout_ok ns d \<longleftrightarrow> header + capacity < length d \<and> valid (d ! header) \<and> fits ns \<and> distinct ns \<and>
     (\<forall>n \<in> set ns. home n \<and> n < length d)"

definition writes_of :: "nat list \<Rightarrow> (nat \<Rightarrow> 'b) \<Rightarrow> ('b device \<Rightarrow> 'b device) list" where
  "writes_of ns new =
     map (\<lambda>k d. d[header + 1 + k := new (ns ! k)]) [0..<length ns] @ [write_header ns] @
     map (copy_home ns) [0..<length ns] @ [write_header []]"

definition after :: "('b device \<Rightarrow> 'b device) list \<Rightarrow> 'b device \<Rightarrow> 'b device" where
  "after fs d = fold (\<lambda>f. f) fs d"

lemma not_home: "home n \<Longrightarrow> k < capacity \<Longrightarrow> n \<noteq> header + 1 + k" "home n \<Longrightarrow> n \<noteq> header"
  by (auto simp: home_def)

lemma layout_okD:
  assumes "layout_ok ns d"
  shows "header + capacity < length d" "valid (d ! header)" "fits ns" "distinct ns" "length ns \<le> capacity"
    "k < length ns \<Longrightarrow> home (ns ! k)" "k < length ns \<Longrightarrow> ns ! k < length d"
  using assms fits_capacity by (auto simp: layout_ok_def)

text \<open>Copying the first \<open>m\<close> blocks home.\<close>

lemma copy_home_fold:
  assumes ok: "layout_ok ns d" and m: "m \<le> length ns"
  shows "length (fold (copy_home ns) [0..<m] d) = length d \<and>
    (\<forall>k < m. fold (copy_home ns) [0..<m] d ! (ns ! k) = d ! (header + 1 + k)) \<and>
    (\<forall>n. n \<notin> set (take m ns) \<longrightarrow> fold (copy_home ns) [0..<m] d ! n = d ! n)"
  using m
proof (induction m)
  case (Suc m)
  note L = layout_okD [OF ok]
  let ?d = "fold (copy_home ns) [0..<m] d"
  have IH: "length ?d = length d" "\<And>k. k < m \<Longrightarrow> ?d ! (ns ! k) = d ! (header + 1 + k)"
    "\<And>n. n \<notin> set (take m ns) \<Longrightarrow> ?d ! n = d ! n" using Suc by auto
  have m: "m < length ns" using Suc.prems by simp
  have "header + 1 + m \<notin> set (take m ns)"
  proof
    assume "header + 1 + m \<in> set (take m ns)"
    then obtain k where "k < length ns" "ns ! k = header + 1 + m" by (auto simp: in_set_conv_nth)
    with L(6) [of k] not_home(1) [of "ns ! k" m] L(5) m show False by simp
  qed
  then have src: "?d ! (header + 1 + m) = d ! (header + 1 + m)" by (rule IH(3))
  have ne: "ns ! k \<noteq> ns ! m" if "k < m" for k using that m L(4) by (simp add: nth_eq_iff_index_eq)
  have st: "fold (copy_home ns) [0..<Suc m] d = ?d[ns ! m := d ! (header + 1 + m)]"
    using src by (simp add: copy_home_def)
  have len: "ns ! m < length ?d" using IH(1) L(7) m by simp
  have set: "set (take (Suc m) ns) = insert (ns ! m) (set (take m ns))" using m by (simp add: take_Suc_conv_app_nth)
  have "?d[ns ! m := d ! (header + 1 + m)] ! (ns ! k) = d ! (header + 1 + k)" if "k < Suc m" for k
    using that IH(2) [of k] ne [of k] len by (cases "k = m") (simp_all add: less_Suc_eq)
  moreover have "?d[ns ! m := d ! (header + 1 + m)] ! n = d ! n" if "n \<notin> set (take (Suc m) ns)" for n
    using that IH(3) [of n] set by simp
  ultimately show ?case unfolding st using IH(1) by simp
qed simp

lemma install_spec:
  assumes "layout_ok ns d"
  shows "length (install ns d) = length d" "k < length ns \<Longrightarrow> install ns d ! (ns ! k) = d ! (header + 1 + k)"
    "n \<notin> set ns \<Longrightarrow> install ns d ! n = d ! n"
  using copy_home_fold [OF assms order_refl] by (auto simp: install_def)

lemma header_not_in: "layout_ok ns d \<Longrightarrow> header \<notin> set ns"
  using not_home(2) by (auto simp: layout_ok_def)

lemma log_not_in: "layout_ok ns d \<Longrightarrow> k < capacity \<Longrightarrow> header + 1 + k \<notin> set ns"
  using not_home(1) by (auto simp: layout_ok_def)

text \<open>Recovery from a clear header changes no home block; recovery from a written header installs.\<close>

lemma recover_clear:
  assumes "decode (d ! header) = []" "header < length d" "home n"
  shows "recover d ! n = d ! n"
  using assms not_home(2) by (auto simp: recover_def install_def write_header_def nth_update_if)

lemma recover_full:
  assumes ok: "layout_ok ns d" and h: "decode (d ! header) = ns" and n: "home n"
  shows "recover d ! n = (if n \<in> set ns then d ! (header + 1 + (THE k. k < length ns \<and> ns ! k = n)) else d ! n)"
proof -
  note L = layout_okD [OF ok] and I = install_spec [OF ok]
  have r: "recover d ! n = install ns d ! n"
    using n not_home(2) by (auto simp: recover_def h write_header_def nth_update_if)
  show ?thesis
  proof (cases "n \<in> set ns")
    case True
    then obtain k where k: "k < length ns" "ns ! k = n" by (auto simp: in_set_conv_nth)
    then have "(THE k. k < length ns \<and> ns ! k = n) = k" using L(4) by (auto simp: nth_eq_iff_index_eq)
    then show ?thesis using r I(2) [OF k(1)] k True by simp
  qed (use r I(3) in simp)
qed

lemma recover_header:
  assumes "layout_ok (decode (d ! header)) d"
  shows "decode (recover d ! header) = []" "length (recover d) = length d"
  using assms header_not_in [OF assms] install_spec [OF assms] layout_okD(1,2) [OF assms]
  by (simp_all add: recover_def write_header_def nth_update_if decode_encode fits_Nil)

lemma recover_valid:
  assumes "layout_ok (decode (d ! header)) d"
  shows "valid (recover d ! header)"
  using assms header_not_in [OF assms] install_spec [OF assms] layout_okD(1,2) [OF assms]
  by (simp add: recover_def write_header_def nth_update_if valid_encode fits_Nil)

text \<open>The disk after a prefix of the writes, phase by phase.\<close>

lemma log_phase:
  assumes ok: "layout_ok ns d" and m: "m \<le> length ns"
  shows "let d' = after (take m (map (\<lambda>k d. d[header + 1 + k := new (ns ! k)]) [0..<length ns])) d in
    length d' = length d \<and> (\<forall>k < m. d' ! (header + 1 + k) = new (ns ! k)) \<and>
    (\<forall>n. (\<forall>k < m. n \<noteq> header + 1 + k) \<longrightarrow> d' ! n = d ! n)"
  using m
proof (induction m)
  case (Suc m)
  note L = layout_okD [OF ok]
  let ?f = "map (\<lambda>k d. d[header + 1 + k := new (ns ! k)]) [0..<length ns]"
  have t: "take (Suc m) ?f = take m ?f @ [\<lambda>d. d[header + 1 + m := new (ns ! m)]]"
    using Suc.prems by (simp add: take_Suc_conv_app_nth)
  have "header + 1 + m < length d" using L(1,5) Suc.prems by simp
  with Suc show ?case unfolding t by (auto simp: after_def Let_def nth_update_if less_Suc_eq)
qed (simp add: after_def)

text \<open>The three shapes of the disk during a commit.\<close>

definition logged :: "nat list \<Rightarrow> (nat \<Rightarrow> 'b) \<Rightarrow> 'b device \<Rightarrow> 'b device \<Rightarrow> bool" where
  "logged ns new d d' \<longleftrightarrow> length d' = length d \<and> valid (d' ! header) \<and>
     (\<forall>k < length ns. d' ! (header + 1 + k) = new (ns ! k)) \<and> (\<forall>n. home n \<longrightarrow> n \<notin> set ns \<longrightarrow> d' ! n = d ! n)"

lemma recover_logged:
  assumes ok: "layout_ok ns d" and l: "logged ns new d d'" and h: "decode (d' ! header) = ns" and n: "home n"
  shows "recover d' ! n = (if n \<in> set ns then new n else d ! n)"
proof -
  have ok': "layout_ok ns d'" using ok l by (simp add: layout_ok_def logged_def)
  show ?thesis
  proof (cases "n \<in> set ns")
    case True
    then obtain k where k: "k < length ns" "ns ! k = n" by (auto simp: in_set_conv_nth)
    then have "(THE k. k < length ns \<and> ns ! k = n) = k" using layout_okD(4) [OF ok] by (auto simp: nth_eq_iff_index_eq)
    then show ?thesis using recover_full [OF ok' h n] True k l by (simp add: logged_def)
  next
    case False
    then show ?thesis using recover_full [OF ok' h n] l n by (simp add: logged_def)
  qed
qed

lemma write_header_logged:
  assumes ok: "layout_ok ns d" and l: "logged ns new d d'" and f: "fits ms"
  shows "logged ns new d (write_header ms d')" "decode (write_header ms d' ! header) = ms"
  using assms not_home(2) layout_okD(1,5) [OF ok]
  by (auto simp: logged_def write_header_def nth_update_if valid_encode decode_encode)

lemma copy_home_logged:
  assumes ok: "layout_ok ns d" and l: "logged ns new d d'" and m: "m \<le> length ns"
  shows "logged ns new d (fold (copy_home ns) [0..<m] d')" "fold (copy_home ns) [0..<m] d' ! header = d' ! header"
    "k < m \<Longrightarrow> fold (copy_home ns) [0..<m] d' ! (ns ! k) = new (ns ! k)"
proof -
  have ok': "layout_ok ns d'" using ok l by (simp add: layout_ok_def logged_def)
  note C = copy_home_fold [OF ok' m]
  have sub: "n \<notin> set ns \<Longrightarrow> n \<notin> set (take m ns)" for n using in_set_takeD by fastforce
  have log: "fold (copy_home ns) [0..<m] d' ! (header + 1 + k) = d' ! (header + 1 + k)" if "k < length ns" for k
    using C sub [of "header + 1 + k"] log_not_in [OF ok', of k] layout_okD(5) [OF ok] that by simp
  show h: "fold (copy_home ns) [0..<m] d' ! header = d' ! header"
    using C sub [of header] header_not_in [OF ok'] by simp
  show "fold (copy_home ns) [0..<m] d' ! (ns ! k) = new (ns ! k)" if "k < m" using C l m that by (simp add: logged_def)
  show "logged ns new d (fold (copy_home ns) [0..<m] d')"
    using C l log h sub by (simp add: logged_def)
qed

lemma after_append: "after (xs @ ys) d = after ys (after xs d)"
  by (simp add: after_def)

text \<open>The theorem: before the header is written recovery gives the old contents, from then on the new.\<close>

lemma crash_safe:
  assumes ok: "layout_ok ns d" and clear: "decode (d ! header) = []" and k: "k \<le> length (writes_of ns new)" and n: "home n"
  shows "recover (after (take k (writes_of ns new)) d) ! n = (if length ns < k \<and> n \<in> set ns then new n else d ! n)" (is ?recovers)
    "layout_ok (decode (after (take k (writes_of ns new)) d ! header)) (after (take k (writes_of ns new)) d)" (is ?layout)
    "length (after (take k (writes_of ns new)) d) = length d" (is ?length)
proof -
  have clear_ok: "layout_ok [] d'" if "length d' = length d" "valid (d' ! header)" for d' :: "'b list"
    using that ok by (simp add: layout_ok_def fits_Nil)
  have full_ok: "layout_ok ns d'" if "logged ns new d d'" for d'
    using that ok by (simp add: layout_ok_def logged_def)
  note L = layout_okD [OF ok]
  let ?l = "map (\<lambda>k d. d[header + 1 + k := new (ns ! k)]) [0..<length ns]"
  let ?c = "map (copy_home ns) [0..<length ns]"
  let ?d1 = "after ?l d"
  let ?d2 = "write_header ns ?d1"
  have ph: "length ?d1 = length d" "\<forall>k < length ns. ?d1 ! (header + 1 + k) = new (ns ! k)"
    "\<And>n. (\<forall>k < length ns. n \<noteq> header + 1 + k) \<Longrightarrow> ?d1 ! n = d ! n"
    using log_phase [OF ok order_refl, of new] by (simp_all add: Let_def)
  have l1: "logged ns new d ?d1"
    using ph not_home(1) L(2,5) by (auto simp: logged_def)
  note l2 = write_header_logged [OF ok l1 L(3)]
  have take_c: "after (take m ?c) d' = fold (copy_home ns) [0..<m] d'" if "m \<le> length ns" for m d'
    using that by (simp add: after_def take_map fold_map comp_def)
  consider (log) "k \<le> length ns" | (home) m where "k = length ns + 1 + m" "m \<le> length ns" | (cleared) "k = 2 * length ns + 2"
    using k that(2) [of "k - (length ns + 1)"] that by (fastforce simp: writes_of_def)
  then have "?recovers \<and> ?layout \<and> ?length"
  proof cases
    case log
    then have t: "take k (writes_of ns new) = take k ?l" by (simp add: writes_of_def)
    let ?d = "after (take k ?l) d"
    have p: "length ?d = length d" "\<And>n. (\<forall>j < k. n \<noteq> header + 1 + j) \<Longrightarrow> ?d ! n = d ! n"
      using log_phase [OF ok log, of new] by (simp_all add: Let_def)
    have "recover ?d ! n = ?d ! n" by (rule recover_clear) (use p clear L(1) n in auto)
    moreover have "?d ! n = d ! n" using p(2) not_home(1) [OF n] log L(5) by simp
    moreover have h: "?d ! header = d ! header" using p(2) by simp
    moreover have "layout_ok (decode (?d ! header)) ?d" unfolding h clear by (rule clear_ok) (use p(1) h L(2) in simp_all)
    ultimately show ?thesis using t log p(1) by simp
  next
    case home
    have "take k (writes_of ns new) = ?l @ [write_header ns] @ take m ?c" using home by (simp add: writes_of_def)
    then have d': "after (take k (writes_of ns new)) d = fold (copy_home ns) [0..<m] ?d2"
      using take_c [OF home(2)] by (simp add: after_append) (simp add: after_def)
    note C = copy_home_logged [OF ok l2(1) home(2)]
    show ?thesis unfolding d'
      using recover_logged [OF ok C(1) _ n] full_ok [OF C(1)] C(1,2) l2(2) home(1) by (simp add: logged_def)
  next
    case cleared
    let ?d3 = "fold (copy_home ns) [0..<length ns] ?d2"
    have d': "after (take k (writes_of ns new)) d = write_header [] ?d3"
      using cleared take_c [of "length ns" ?d2] by (simp add: writes_of_def after_append) (simp add: after_def)
    note C = copy_home_logged [OF ok l2(1) order_refl]
    have l3: "length ?d3 = length d" "valid (?d3 ! header)" using C(1) by (simp_all add: logged_def)
    have "recover (write_header [] ?d3) ! n = write_header [] ?d3 ! n"
      by (rule recover_clear) (use l3 L(1) n in \<open>simp_all add: write_header_def decode_encode fits_Nil\<close>)
    also have "\<dots> = ?d3 ! n" using not_home(2) [OF n] by (simp add: write_header_def nth_update_if)
    also have "\<dots> = (if n \<in> set ns then new n else d ! n)"
      using C(1,3) n by (auto simp: logged_def in_set_conv_nth)
    finally have "recover (write_header [] ?d3) ! n = (if n \<in> set ns then new n else d ! n)" .
    moreover have "layout_ok [] (write_header [] ?d3)"
      by (rule clear_ok) (use l3 L(1) in \<open>simp_all add: write_header_def valid_encode fits_Nil\<close>)
    moreover have "decode (write_header [] ?d3 ! header) = []" "length (write_header [] ?d3) = length d"
      using l3 L(1) by (simp_all add: write_header_def decode_encode fits_Nil)
    ultimately show ?thesis unfolding d' using cleared by simp
  qed
  then show ?recovers ?layout ?length by blast+
qed

text \<open>After all of the writes the header is clear and the blocks are home.\<close>

lemma all_written:
  fixes new :: "nat \<Rightarrow> 'b"
  assumes ok: "layout_ok ns d" and clear: "decode (d ! header) = []"
  defines "d' \<equiv> after (writes_of ns new) d"
  shows "valid (d' ! header)" "decode (d' ! header) = []" "length d' = length d"
    "home n \<Longrightarrow> d' ! n = (if n \<in> set ns then new n else d ! n)"
proof -
  note L = layout_okD [OF ok]
  let ?w = "writes_of ns new" and ?k = "length (writes_of ns new)"
  have last: "after ?w d = write_header [] (after (take (?k - 1) ?w) d)"
    by (simp add: writes_of_def after_append) (simp add: after_def)
  have h0: "home (header + capacity + 1)" by (simp add: home_def)
  note P = crash_safe(2,3) [OF ok clear diff_le_self h0, of new 1]
  have d': "valid (d' ! header) \<and> decode (d' ! header) = [] \<and> length d' = length d"
    unfolding d'_def last
    using layout_okD(1,2) [OF P(1)] P(2) by (simp add: write_header_def valid_encode decode_encode fits_Nil)
  then show "valid (d' ! header)" "decode (d' ! header) = []" "length d' = length d" by blast+
  show "d' ! n = (if n \<in> set ns then new n else d ! n)" if n: "home n"
    using crash_safe(1) [OF ok clear order_refl n, of new] recover_clear [of d' n] d' L(1) n
    by (simp add: d'_def writes_of_def)
qed

text \<open>No write touches a home block outside of the transaction.\<close>

lemma untouched:
  assumes "home n" "n \<notin> set ns" "length ns \<le> capacity"
  shows "after (take k (writes_of ns new)) d ! n = d ! n"
proof -
  have "f d ! n = d ! n" if "f \<in> set (writes_of ns new)" for f d
    using that assms(2,3) not_home(2) [OF assms(1)] not_home(1) [OF assms(1) less_le_trans [OF _ assms(3)]]
    by (auto simp: writes_of_def write_header_def copy_home_def nth_update_if) blast
  then have "after fs d ! n = d ! n" if "set fs \<subseteq> set (writes_of ns new)" for fs
    using that by (induction fs arbitrary: d) (auto simp: after_def)
  then show ?thesis by (simp add: set_take_subset)
qed

end

end
