(* ===== verification/Log.thy ===== *)
theory Log
  imports Bio Layout RedoLog
begin

text \<open>
  The redo log (\<open>log.c\<close>) on the buffer cache. \<open>begin_op\<close> and \<open>end_op\<close> are cut where they sleep or
  release the lock, as in \<open>Sleeplock\<close>; the writing of a transaction is the sequence of \<open>bread\<close>,
  \<open>bwrite\<close> and \<open>brelse\<close> of the code. The first section restates what the cache promises in terms of
  block numbers: the contents readers see, the dirty blocks and the locked blocks.
\<close>

section \<open>The cache by block number\<close>

definition dirty_blocks :: "bcache \<Rightarrow> u32 set" where
  "dirty_blocks s = {n. \<exists>i < NBUF. at_block n (bufs s ! i) \<and> b_dirty (bufs s ! i)}"

definition locked_blocks :: "bcache \<Rightarrow> u32 set" where
  "locked_blocks s = {n. \<exists>i < NBUF. at_block n (bufs s ! i) \<and> \<not> unlocked s i}"

definition holds :: "u32 \<Rightarrow> bcache \<Rightarrow> nat \<Rightarrow> u32 \<Rightarrow> bool" where
  "holds me s i n \<longleftrightarrow> held_buf me s i \<and> at_block n (bufs s ! i)"

lemma unlocked_core: "core (bufs s' ! i) = core (bufs s ! i) \<Longrightarrow> unlocked s' i = unlocked s i"
  using core_simps [of "bufs s' ! i" "bufs s ! i"] by (simp add: unlocked_def)

lemma held_unlocked: "held_buf me s i \<Longrightarrow> \<not> unlocked s i"
  by (simp add: held_buf_def unlocked_def holdingsleep_def)

lemma cached_is_dirty:
  assumes "cache_ok me s" "i < NBUF" "at_block n (bufs s ! i)"
  shows "n \<in> dirty_blocks s \<longleftrightarrow> b_dirty (bufs s ! i)" "n \<in> locked_blocks s \<longleftrightarrow> \<not> unlocked s i"
  using cache_okD(5) [OF assms(1)] assms(2,3) unfolding dirty_blocks_def locked_blocks_def by blast+

lemma uncached_clean: "(\<And>i. i < NBUF \<Longrightarrow> \<not> at_block n (bufs s ! i)) \<Longrightarrow> n \<notin> dirty_blocks s \<and> n \<notin> locked_blocks s"
  by (auto simp: dirty_blocks_def locked_blocks_def)

lemma blocks_finite: "finite (dirty_blocks s)" "finite (locked_blocks s)"
proof -
  have "dirty_blocks s \<subseteq> (\<lambda>i. b_blockno (bufs s ! i)) ` {..<NBUF}"
    "locked_blocks s \<subseteq> (\<lambda>i. b_blockno (bufs s ! i)) ` {..<NBUF}"
    by (auto simp: dirty_blocks_def locked_blocks_def at_block_def)
  then show "finite (dirty_blocks s)" "finite (locked_blocks s)" by (auto intro: finite_subset)
qed

text \<open>A buffer that is neither referenced nor dirty exists as long as fewer than \<open>NBUF\<close> blocks are
  dirty or locked.\<close>

lemma recyclable_exists:
  assumes ok: "cache_ok me s" and c: "card (dirty_blocks s \<union> locked_blocks s) < NBUF"
  shows "\<exists>i < NBUF. recyclable (bufs s ! i)"
proof (rule ccontr)
  assume none: "\<not> (\<exists>i < NBUF. recyclable (bufs s ! i))"
  let ?f = "\<lambda>i. b_blockno (bufs s ! i)"
  have used: "at_block (?f i) (bufs s ! i) \<and> ?f i \<in> dirty_blocks s \<union> locked_blocks s" if i: "i < NBUF" for i
  proof -
    have b: "buf_ok me (disk s) (bufs s ! i)" by (rule cache_okD(4) [OF ok i])
    have "\<not> recyclable (bufs s ! i)" using none i by blast
    then have "b_dirty (bufs s ! i) \<or> \<not> unlocked s i" using b by (auto simp: recyclable_def buf_ok_def unlocked_def split: if_splits)
    moreover from this have "b_dev (bufs s ! i) = 1" using b by (auto simp: buf_ok_def unlocked_def split: if_splits)
    ultimately show ?thesis using i by (auto simp: at_block_def dirty_blocks_def locked_blocks_def)
  qed
  have "inj_on ?f {..<NBUF}"
    using used cache_okD(5) [OF ok] by (intro inj_onI) (metis lessThan_iff)
  then have "card {..<NBUF} = card (?f ` {..<NBUF})" by (simp add: card_image)
  also have "\<dots> \<le> card (dirty_blocks s \<union> locked_blocks s)"
    by (rule card_mono) (use used blocks_finite in auto)
  finally show False using c by simp
qed

lemma only_sets:
  assumes ok: "cache_ok me s" "cache_ok me s'" and o: "only i s s'" and i: "i < NBUF" and n: "at_block n (bufs s' ! i)"
    and ev: "b_dirty (bufs s ! i) \<Longrightarrow> at_block n (bufs s ! i)" "\<not> unlocked s i \<Longrightarrow> at_block n (bufs s ! i)"
  shows "dirty_blocks s' = (if b_dirty (bufs s' ! i) then insert n (dirty_blocks s) else dirty_blocks s - {n})"
    "locked_blocks s' = (if unlocked s' i then locked_blocks s - {n} else insert n (locked_blocks s))"
    "n \<in> dirty_blocks s \<longleftrightarrow> at_block n (bufs s ! i) \<and> b_dirty (bufs s ! i)"
proof -
  have same: "at_block m (bufs s' ! j) = at_block m (bufs s ! j)" "b_dirty (bufs s' ! j) = b_dirty (bufs s ! j)"
    "unlocked s' j = unlocked s j" if "j < NBUF" "j \<noteq> i" for j m
    using o that core_simps [of "bufs s' ! j" "bufs s ! j"] unlocked_core [of s' j s] by (simp_all add: only_def at_block_def)
  have alone: "j = i" if "j < NBUF" "at_block n (bufs s ! j)" for j
    using that same(1) [of j n] cache_okD(5) [OF ok(2) _ i _ n] by blast
  have at_i: "m = n" if "at_block m (bufs s' ! i)" for m using that n by (simp add: at_block_def)
  have d: "m \<in> dirty_blocks s' \<longleftrightarrow> m \<in> dirty_blocks s" "m \<in> locked_blocks s' \<longleftrightarrow> m \<in> locked_blocks s" if "m \<noteq> n" for m
  proof -
    have not_i: "\<not> (at_block m (bufs s ! i) \<and> b_dirty (bufs s ! i))" "\<not> (at_block m (bufs s ! i) \<and> \<not> unlocked s i)"
      using ev that by (auto simp: at_block_def)
    have "(\<exists>j < NBUF. at_block m (bufs s' ! j) \<and> b_dirty (bufs s' ! j)) \<longleftrightarrow> (\<exists>j < NBUF. at_block m (bufs s ! j) \<and> b_dirty (bufs s ! j))"
      using same not_i(1) at_i that by metis
    moreover have "(\<exists>j < NBUF. at_block m (bufs s' ! j) \<and> \<not> unlocked s' j) \<longleftrightarrow> (\<exists>j < NBUF. at_block m (bufs s ! j) \<and> \<not> unlocked s j)"
      using same not_i(2) at_i that by metis
    ultimately show "m \<in> dirty_blocks s' \<longleftrightarrow> m \<in> dirty_blocks s" "m \<in> locked_blocks s' \<longleftrightarrow> m \<in> locked_blocks s"
      by (simp_all add: dirty_blocks_def locked_blocks_def)
  qed
  have n': "n \<in> dirty_blocks s' \<longleftrightarrow> b_dirty (bufs s' ! i)" "n \<in> locked_blocks s' \<longleftrightarrow> \<not> unlocked s' i"
    using cached_is_dirty [OF ok(2) i n] by simp_all
  show "dirty_blocks s' = (if b_dirty (bufs s' ! i) then insert n (dirty_blocks s) else dirty_blocks s - {n})"
    using d(1) n'(1) by (intro set_eqI) (metis Diff_iff insert_iff singletonD singletonI)
  show "locked_blocks s' = (if unlocked s' i then locked_blocks s - {n} else insert n (locked_blocks s))"
    using d(2) n'(2) by (intro set_eqI) (metis Diff_iff insert_iff singletonD singletonI)
  show "n \<in> dirty_blocks s \<longleftrightarrow> at_block n (bufs s ! i) \<and> b_dirty (bufs s ! i)"
    using alone i unfolding dirty_blocks_def by blast
qed

lemma holds_other:
  assumes "only i s s'" "holds me s j m" "j \<noteq> i"
  shows "holds me s' j m" "b_data (bufs s' ! j) = b_data (bufs s ! j)"
  using assms core_simps [of "bufs s' ! j" "bufs s ! j"]
  by (simp_all add: only_def holds_def held_buf_def at_block_def)

lemma holdsD:
  assumes "cache_ok me s" "holds me s i n"
  shows "held_buf me s i" "i < NBUF" "at_block n (bufs s ! i)" "b_blockno (bufs s ! i) = n" "b_data (bufs s ! i) = view s n"
    "unat n < length (disk s)" "n \<in> locked_blocks s" "length (view s n) = BSIZE"
proof -
  show h: "held_buf me s i" "at_block n (bufs s ! i)" using assms(2) by (simp_all add: holds_def)
  note H = held_bufD [OF assms(1) h(1)]
  show i: "i < NBUF" "b_blockno (bufs s ! i) = n" using H(1) h(2) by (simp_all add: at_block_def)
  show "b_data (bufs s ! i) = view s n" "unat n < length (disk s)" "length (view s n) = BSIZE" using H i(2) by auto
  show "n \<in> locked_blocks s" using cached_is_dirty(2) [OF assms(1) i(1) h(2)] held_unlocked [OF h(1)] by simp
qed

text \<open>The five operations a client of the cache uses.\<close>

lemma bread_spec:
  assumes ok: "cache_ok me s" and n: "unat n < length (disk s)" "n \<notin> locked_blocks s"
    and room: "n \<in> dirty_blocks s \<or> card (dirty_blocks s \<union> locked_blocks s) < NBUF"
  shows "\<exists>i s'. bread me 1 n s = Some (i, s') \<and> cache_ok me s' \<and> holds me s' i n \<and> disk s' = disk s \<and>
    (\<forall>m. view s' m = view s m) \<and> dirty_blocks s' = dirty_blocks s \<and> locked_blocks s' = insert n (locked_blocks s) \<and>
    (\<forall>j m. holds me s j m \<longrightarrow> j \<noteq> i \<and> holds me s' j m)"
proof -
  have free: "unlocked s i" if "i < NBUF" "at_block n (bufs s ! i)" for i
    using that n(2) cached_is_dirty(2) [OF ok that] by blast
  have "(\<exists>i < NBUF. at_block n (bufs s ! i)) \<or> (\<exists>i < NBUF. recyclable (bufs s ! i))"
    using room recyclable_exists [OF ok] unfolding dirty_blocks_def by blast
  from bread_ok [OF ok n(1) free this] obtain i s' where b: "bread me 1 n s = Some (i, s')" "cache_ok me s'" "held_buf me s' i"
    "unlocked s i" "at_block n (bufs s' ! i)" "disk s' = disk s" "only i s s'" "\<forall>m. view s' m = view s m"
    "b_dirty (bufs s' ! i) \<longleftrightarrow> at_block n (bufs s ! i) \<and> b_dirty (bufs s ! i)" "b_dirty (bufs s ! i) \<longrightarrow> at_block n (bufs s ! i)"
    by blast
  have i: "i < NBUF" using b(3) by (simp add: held_buf_def)
  note S = only_sets [OF ok b(2,7) i b(5)]
  have "dirty_blocks s' = dirty_blocks s" "locked_blocks s' = insert n (locked_blocks s)"
    using S b(4,9,10) held_unlocked [OF b(3)] by auto
  moreover have "j \<noteq> i \<and> holds me s' j m" if "holds me s j m" for j m
  proof -
    have "j \<noteq> i" using that b(4) held_unlocked by (auto simp: holds_def)
    then show ?thesis using holds_other(1) [OF b(7) that] by blast
  qed
  ultimately show ?thesis using b by (auto simp: holds_def)
qed

lemma set_data_spec:
  assumes ok: "cache_ok me s" and h: "holds me s i n" and d: "length d = BSIZE"
  defines "s' \<equiv> set_buf i (\<lambda>x. x\<lparr>b_data := d\<rparr>) s"
  shows "cache_ok me s'" "holds me s' i n" "disk s' = disk s" "view s' m = (if m = n then d else view s m)"
    "dirty_blocks s' = dirty_blocks s" "locked_blocks s' = locked_blocks s" "holds me s j k \<Longrightarrow> holds me s' j k"
proof -
  note H = holdsD [OF ok h]
  note S = set_data_ok [OF ok H(1) d, folded s'_def]
  have nth: "bufs s' ! j = (if j = i then (bufs s ! i)\<lparr>b_data := d\<rparr> else bufs s ! j)" for j
    using held_bufD(2) [OF ok H(1)] by (simp add: s'_def)
  have same: "at_block k (bufs s' ! j) = at_block k (bufs s ! j)" "b_dirty (bufs s' ! j) = b_dirty (bufs s ! j)"
    "unlocked s' j = unlocked s j" for j k by (simp_all add: nth at_block_def unlocked_def)
  show "cache_ok me s'" "disk s' = disk s" "view s' m = (if m = n then d else view s m)"
    using S H(4) by (simp_all add: s'_def)
  show "dirty_blocks s' = dirty_blocks s" "locked_blocks s' = locked_blocks s"
    by (simp_all add: dirty_blocks_def locked_blocks_def same)
  show "holds me s j k \<Longrightarrow> holds me s' j k" for j k by (auto simp: holds_def held_buf_def nth at_block_def)
  then show "holds me s' i n" using h .
qed

lemma set_dirty_spec:
  assumes ok: "cache_ok me s" and h: "holds me s i n"
  defines "s' \<equiv> set_buf i (\<lambda>x. x\<lparr>b_dirty := True\<rparr>) s"
  shows "cache_ok me s'" "holds me s' i n" "disk s' = disk s" "view s' m = view s m"
    "dirty_blocks s' = insert n (dirty_blocks s)" "locked_blocks s' = locked_blocks s" "holds me s j k \<Longrightarrow> holds me s' j k"
proof -
  note H = holdsD [OF ok h]
  note S = set_dirty_ok [OF ok H(1), folded s'_def]
  have nth: "bufs s' ! j = (if j = i then (bufs s ! i)\<lparr>b_dirty := True\<rparr> else bufs s ! j)" for j
    using held_bufD(2) [OF ok H(1)] by (simp add: s'_def)
  have same: "at_block k (bufs s' ! j) = at_block k (bufs s ! j)" "unlocked s' j = unlocked s j" for j k
    by (simp_all add: nth at_block_def unlocked_def)
  show "cache_ok me s'" "disk s' = disk s" "view s' m = view s m" using S by (simp_all add: s'_def)
  have "at_block n (bufs s' ! i)" using H(3) same by simp
  from only_sets(1) [OF ok S(1,3) H(2) this] H(3) nth show "dirty_blocks s' = insert n (dirty_blocks s)" by simp
  show "locked_blocks s' = locked_blocks s" by (simp add: locked_blocks_def same)
  show "holds me s j k \<Longrightarrow> holds me s' j k" for j k by (auto simp: holds_def held_buf_def nth at_block_def)
  then show "holds me s' i n" using h .
qed

lemma bwrite_spec:
  assumes ok: "cache_ok me s" and h: "holds me s i n"
  shows "\<exists>s'. bwrite me i s = Some s' \<and> cache_ok me s' \<and> holds me s' i n \<and> disk s' = (disk s)[unat n := view s n] \<and>
    (\<forall>m. view s' m = view s m) \<and> dirty_blocks s' = dirty_blocks s - {n} \<and> locked_blocks s' = locked_blocks s \<and>
    (\<forall>j m. holds me s j m \<longrightarrow> holds me s' j m)"
proof -
  note H = holdsD [OF ok h]
  obtain s' where b: "bwrite me i s = Some s'" "cache_ok me s'" "held_buf me s' i" "only i s s'"
    "disk s' = (disk s)[unat n := view s n]" "\<forall>m. view s' m = view s m" "b_blockno (bufs s' ! i) = n" "\<not> b_dirty (bufs s' ! i)"
    using bwrite_ok [OF ok H(1)] H(4,5) by auto
  have at: "at_block n (bufs s' ! i)" using held_bufD(6) [OF b(2,3)] b(7) by (simp add: at_block_def)
  note S = only_sets [OF ok b(2,4) H(2) at]
  have "dirty_blocks s' = dirty_blocks s - {n}" "locked_blocks s' = locked_blocks s"
    using S H(3,7) b(8) held_unlocked [OF b(3)] by auto
  moreover have h': "holds me s' i n" using b(3) at by (simp add: holds_def)
  moreover have "holds me s' j m" if "holds me s j m" for j m
    using that holds_other(1) [OF b(4) that] h' holdsD(4) [OF ok that] H(4) by (cases "j = i") auto
  ultimately show ?thesis using b by blast
qed

lemma brelse_spec:
  assumes ok: "cache_ok me s" and h: "holds me s i n" and c: "n \<in> dirty_blocks s \<or> view s n = disk s ! unat n"
  shows "\<exists>s'. brelse me i s = Some s' \<and> cache_ok me s' \<and> disk s' = disk s \<and> (\<forall>m. view s' m = view s m) \<and>
    dirty_blocks s' = dirty_blocks s \<and> locked_blocks s' = locked_blocks s - {n} \<and>
    (\<forall>j m. holds me s j m \<longrightarrow> j \<noteq> i \<longrightarrow> holds me s' j m)"
proof -
  note H = holdsD [OF ok h]
  have "b_dirty (bufs s ! i) \<or> b_data (bufs s ! i) = disk s ! unat (b_blockno (bufs s ! i))"
    using c cached_is_dirty(1) [OF ok H(2,3)] H(4,5) by simp
  from brelse_ok [OF ok H(1) this] obtain s' where b: "brelse me i s = Some s'" "cache_ok me s'" "unlocked s' i" "only i s s'"
    "disk s' = disk s" "\<forall>m. view s' m = view s m" "b_dirty (bufs s' ! i) = b_dirty (bufs s ! i)"
    "b_dev (bufs s' ! i) = b_dev (bufs s ! i)" "b_blockno (bufs s' ! i) = b_blockno (bufs s ! i)" by blast
  have at: "at_block n (bufs s' ! i)" using H(3) b(8,9) by (simp add: at_block_def)
  note S = only_sets [OF ok b(2,4) H(2) at]
  have "dirty_blocks s' = dirty_blocks s" "locked_blocks s' = locked_blocks s - {n}"
    using S H(3) b(3,7) by auto
  moreover have "holds me s' j m" if "holds me s j m" "j \<noteq> i" for j m using holds_other(1) [OF b(4) that] .
  ultimately show ?thesis using b by blast
qed

section \<open>The code\<close>

definition LOGSIZE :: nat where "LOGSIZE = MAXOPBLOCKS * 3"

record superblock =
  sb_size :: u32
  sb_nblocks :: u32
  sb_ninodes :: u32
  sb_nlog :: u32
  sb_logstart :: u32
  sb_inodestart :: u32
  sb_bmapstart :: u32

text \<open>\<open>readsb\<close> (\<open>fs.c\<close>).\<close>

definition readsb :: "u32 \<Rightarrow> u32 \<Rightarrow> bcache \<Rightarrow> (superblock \<times> bcache) option" where
  "readsb me dev c = do {
     (bp, c) \<leftarrow> bread me dev 1 c;
     let d = b_data (bufs c ! bp);
     let sb = \<lparr>sb_size = get32 d 0, sb_nblocks = get32 d 4, sb_ninodes = get32 d 8, sb_nlog = get32 d 12,
       sb_logstart = get32 d 16, sb_inodestart = get32 d 20, sb_bmapstart = get32 d 24\<rparr>;
     c \<leftarrow> brelse me bp c;
     Some (sb, c)
   }"

text \<open>\<open>lh\<close> is the array \<open>lh.block\<close> up to \<open>lh.n\<close>.\<close>

record log =
  lg_start :: u32
  lg_size :: u32
  lg_dev :: u32
  outstanding :: int
  committing :: bool
  lh :: "u32 list"
  cache :: bcache

definition header_data :: "u32 list \<Rightarrow> byte list \<Rightarrow> byte list" where
  "header_data bs d = put_words (put32 d 0 (of_nat (length bs))) 4 bs"

definition write_head :: "u32 \<Rightarrow> log \<Rightarrow> log option" where
  "write_head me s = do {
     (b, c) \<leftarrow> bread me (lg_dev s) (lg_start s) (cache s);
     let c = set_buf b (\<lambda>x. x\<lparr>b_data := header_data (lh s) (b_data (bufs c ! b))\<rparr>) c;
     c \<leftarrow> bwrite me b c;
     c \<leftarrow> brelse me b c;
     Some (s\<lparr>cache := c\<rparr>)
   }"

text \<open>A count above \<open>LOGSIZE\<close> would be read past the end of \<open>lh.block\<close>: \<open>None\<close>.\<close>

definition read_head :: "u32 \<Rightarrow> log \<Rightarrow> log option" where
  "read_head me s = do {
     (b, c) \<leftarrow> bread me (lg_dev s) (lg_start s) (cache s);
     let d = b_data (bufs c ! b);
     let n = unat (get32 d 0);
     (if LOGSIZE < n then None
      else do {
        c \<leftarrow> brelse me b c;
        Some (s\<lparr>lh := get_words d 4 n, cache := c\<rparr>)
      })
   }"

definition install_one :: "u32 \<Rightarrow> nat \<Rightarrow> log \<Rightarrow> log option" where
  "install_one me tail s = do {
     (lbuf, c) \<leftarrow> bread me (lg_dev s) (lg_start s + of_nat tail + 1) (cache s);
     (dbuf, c) \<leftarrow> bread me (lg_dev s) (lh s ! tail) c;
     let c = set_buf dbuf (\<lambda>x. x\<lparr>b_data := b_data (bufs c ! lbuf)\<rparr>) c;
     c \<leftarrow> bwrite me dbuf c;
     c \<leftarrow> brelse me lbuf c;
     c \<leftarrow> brelse me dbuf c;
     Some (s\<lparr>cache := c\<rparr>)
   }"

definition install_trans :: "u32 \<Rightarrow> log \<Rightarrow> log option" where
  "install_trans me s = for_loop 0 (length (lh s)) (install_one me) s"

definition write_log_one :: "u32 \<Rightarrow> nat \<Rightarrow> log \<Rightarrow> log option" where
  "write_log_one me tail s = do {
     (to, c) \<leftarrow> bread me (lg_dev s) (lg_start s + of_nat tail + 1) (cache s);
     (from, c) \<leftarrow> bread me (lg_dev s) (lh s ! tail) c;
     let c = set_buf to (\<lambda>x. x\<lparr>b_data := b_data (bufs c ! from)\<rparr>) c;
     c \<leftarrow> bwrite me to c;
     c \<leftarrow> brelse me from c;
     c \<leftarrow> brelse me to c;
     Some (s\<lparr>cache := c\<rparr>)
   }"

definition write_log :: "u32 \<Rightarrow> log \<Rightarrow> log option" where
  "write_log me s = for_loop 0 (length (lh s)) (write_log_one me) s"

definition commit :: "u32 \<Rightarrow> log \<Rightarrow> log option" where
  "commit me s =
     (if lh s \<noteq> [] then do {
        s \<leftarrow> write_log me s;
        s \<leftarrow> write_head me s;
        s \<leftarrow> install_trans me s;
        write_head me (s\<lparr>lh := []\<rparr>)
      } else Some s)"

definition recover_from_log :: "u32 \<Rightarrow> log \<Rightarrow> log option" where
  "recover_from_log me s = do {
     s \<leftarrow> read_head me s;
     s \<leftarrow> install_trans me s;
     write_head me (s\<lparr>lh := []\<rparr>)
   }"

definition initlog :: "u32 \<Rightarrow> u32 \<Rightarrow> log \<Rightarrow> log option" where
  "initlog me dev s = do {
     (sb, c) \<leftarrow> readsb me dev (cache s);
     recover_from_log me (s\<lparr>lg_start := sb_logstart sb, lg_size := sb_nlog sb, lg_dev := dev, cache := c\<rparr>)
   }"

text \<open>One pass of the loop of \<open>begin_op\<close>: \<open>None\<close> is that the caller sleeps on the log.\<close>

definition begin_op :: "log \<Rightarrow> log option" where
  "begin_op s =
     (if committing s then None
      else if int (length (lh s)) + (outstanding s + 1) * int MAXOPBLOCKS > int LOGSIZE then None
      else Some (s\<lparr>outstanding := outstanding s + 1\<rparr>))"

text \<open>\<open>end_op\<close>: the decision under the lock (which wakes the sleepers if there is nothing to commit), and
  the whole call.\<close>

definition end_op_start :: "log \<Rightarrow> (bool \<times> log) option" where
  "end_op_start s =
     (let s = s\<lparr>outstanding := outstanding s - 1\<rparr> in
      if committing s then None
      else if outstanding s = 0 then Some (True, s\<lparr>committing := True\<rparr>)
      else Some (False, s))"

definition end_op :: "u32 \<Rightarrow> log \<Rightarrow> log option" where
  "end_op me s = do {
     (do_commit, s) \<leftarrow> end_op_start s;
     (if do_commit then do {
        s \<leftarrow> commit me s;
        Some (s\<lparr>committing := False\<rparr>)
      } else Some s)
   }"

definition log_write :: "nat \<Rightarrow> log \<Rightarrow> log option" where
  "log_write b s =
     (if LOGSIZE \<le> length (lh s) \<or> sint (lg_size s) - 1 \<le> int (length (lh s)) then None
      else if outstanding s < 1 then None
      else
        let n = b_blockno (bufs (cache s) ! b) in
        Some (s\<lparr>lh := (case find_first (\<lambda>x. x = n) (lh s) of None \<Rightarrow> lh s @ [n] | Some i \<Rightarrow> (lh s)[i := n]),
          cache := set_buf b (\<lambda>x. x\<lparr>b_dirty := True\<rparr>) (cache s)\<rparr>))"

lemma find_first_nth: "find_first P xs = Some i \<Longrightarrow> i < length xs \<and> P (xs ! i)"
  by (auto simp: find_first_Some)

lemma log_write_blocks:
  assumes "log_write b s = Some s'"
  shows "lh s' = (let n = b_blockno (bufs (cache s) ! b) in if n \<in> set (lh s) then lh s else lh s @ [n])"
proof (cases "find_first (\<lambda>x. x = b_blockno (bufs (cache s) ! b)) (lh s)")
  case None
  then have "b_blockno (bufs (cache s) ! b) \<notin> set (lh s)" by (auto simp: find_first_None)
  then show ?thesis using assms None by (auto simp: log_write_def Let_def split: if_splits)
next
  case (Some i)
  then have "i < length (lh s)" "lh s ! i = b_blockno (bufs (cache s) ! b)" using find_first_nth by blast+
  then have "(lh s)[i := b_blockno (bufs (cache s) ! b)] = lh s" "b_blockno (bufs (cache s) ! b) \<in> set (lh s)"
    by (metis list_update_id, metis nth_mem)
  then show ?thesis using assms Some by (auto simp: log_write_def Let_def split: if_splits)
qed

section \<open>Copying a block\<close>

text \<open>A cache in which nothing is locked.\<close>

definition rest :: "u32 \<Rightarrow> bcache \<Rightarrow> bool" where
  "rest me c \<longleftrightarrow> cache_ok me c \<and> locked_blocks c = {}"

lemma clean_view:
  assumes "rest me c" "n \<notin> dirty_blocks c"
  shows "view c n = disk c ! unat n"
proof (cases "\<exists>i < NBUF. at_block n (bufs c ! i)")
  case True
  then obtain i where i: "i < NBUF" "at_block n (bufs c ! i)" by blast
  have ok: "cache_ok me c" using assms(1) by (simp add: rest_def)
  have "\<not> b_dirty (bufs c ! i)" "unlocked c i"
    using cached_is_dirty [OF ok i] assms by (simp_all add: rest_def)
  moreover have "buf_ok me (disk c) (bufs c ! i)" by (rule cache_okD(4) [OF ok i(1)])
  ultimately have "b_data (bufs c ! i) = disk c ! unat n" using i(2) by (simp add: buf_ok_def unlocked_def at_block_def)
  then show ?thesis using view_cached [OF ok i] by simp
next
  case False
  then show ?thesis using view_uncached [of n c] by blast
qed

definition copied :: "u32 \<Rightarrow> u32 \<Rightarrow> u32 \<Rightarrow> bcache \<Rightarrow> bcache \<Rightarrow> bool" where
  "copied me src dst c c' \<longleftrightarrow> rest me c' \<and> disk c' = (disk c)[unat dst := view c src] \<and>
     (\<forall>m. view c' m = (if m = dst then view c src else view c m)) \<and> dirty_blocks c' = dirty_blocks c - {dst}"

lemma copy_second:
  assumes r: "rest me c" and n: "unat a < length (disk c)" "unat b < length (disk c)" "a \<noteq> b"
    and room: "card (insert a (dirty_blocks c)) < NBUF \<or> b \<in> dirty_blocks c \<and> card (dirty_blocks c) < NBUF"
  shows "\<exists>c'. do {
     (p, c) \<leftarrow> bread me 1 a c;
     (q, c) \<leftarrow> bread me 1 b c;
     let c = set_buf q (\<lambda>x. x\<lparr>b_data := b_data (bufs c ! p)\<rparr>) c;
     c \<leftarrow> bwrite me q c;
     c \<leftarrow> brelse me p c;
     brelse me q c
   } = Some c' \<and> copied me a b c c'"
proof -
  have ok: "cache_ok me c" and l: "locked_blocks c = {}" using r by (simp_all add: rest_def)
  have "card (dirty_blocks c) < NBUF" using room card_mono [of "insert a (dirty_blocks c)" "dirty_blocks c"] blocks_finite
    by (metis finite_insert le_less_trans subset_insertI)
  then obtain p c1 where 1: "bread me 1 a c = Some (p, c1)" "cache_ok me c1" "holds me c1 p a" "disk c1 = disk c"
    "\<And>m. view c1 m = view c m" "dirty_blocks c1 = dirty_blocks c" "locked_blocks c1 = {a}"
    using bread_spec [OF ok n(1)] l by auto
  have "b \<notin> locked_blocks c1" "b \<in> dirty_blocks c1 \<or> card (dirty_blocks c1 \<union> locked_blocks c1) < NBUF" "unat b < length (disk c1)"
    using 1 n room by auto
  from bread_spec [OF 1(2) this(3,1,2)] obtain q c2 where 2: "bread me 1 b c1 = Some (q, c2)" "cache_ok me c2" "holds me c2 q b"
    "disk c2 = disk c" "\<And>m. view c2 m = view c m" "dirty_blocks c2 = dirty_blocks c" "locked_blocks c2 = {a, b}"
    "p \<noteq> q" "holds me c2 p a" using 1 by (auto simp: insert_commute)
  define c3 where "c3 = set_buf q (\<lambda>x. x\<lparr>b_data := b_data (bufs c2 ! p)\<rparr>) c2"
  have d: "b_data (bufs c2 ! p) = view c a" "length (b_data (bufs c2 ! p)) = BSIZE"
    using holdsD(5,8) [OF 2(2,9)] 2(5) by simp_all
  note S = set_data_spec [OF 2(2,3) d(2), folded c3_def]
  obtain c4 where 4: "bwrite me q c3 = Some c4" "cache_ok me c4" "holds me c4 q b" "disk c4 = (disk c)[unat b := view c a]"
    "\<And>m. view c4 m = (if m = b then view c a else view c m)" "dirty_blocks c4 = dirty_blocks c - {b}" "locked_blocks c4 = {a, b}"
    "holds me c4 p a"
    using bwrite_spec [OF S(1,2)] S(3-6) S(7) [OF 2(9)] 2 d(1) by auto
  have "a \<in> dirty_blocks c4 \<or> view c4 a = disk c4 ! unat a"
    using 4 n(3) clean_view [OF r, of a] by (auto simp: word_unat_eq_iff)
  from brelse_spec [OF 4(2,8) this] obtain c5 where 5: "brelse me p c4 = Some c5" "cache_ok me c5" "disk c5 = disk c4"
    "\<And>m. view c5 m = view c4 m" "dirty_blocks c5 = dirty_blocks c4" "locked_blocks c5 = {b}" "holds me c5 q b"
    using 4(3,7) 2(8) n(3) by auto
  have "view c5 b = disk c5 ! unat b" using 5 4 n(2) by simp
  then obtain c6 where 6: "brelse me q c5 = Some c6" "cache_ok me c6" "disk c6 = disk c5" "\<And>m. view c6 m = view c5 m"
    "dirty_blocks c6 = dirty_blocks c5" "locked_blocks c6 = {}"
    using brelse_spec [OF 5(2,7)] 5(6) by auto
  have "copied me a b c c6" using 4 5 6 by (simp add: copied_def rest_def)
  then show ?thesis using 1(1) 2(1) 4(1) 5(1) 6(1) c3_def by auto
qed

lemma copy_first:
  assumes r: "rest me c" and n: "unat a < length (disk c)" "unat b < length (disk c)" "a \<noteq> b"
    and room: "card (insert a (dirty_blocks c)) < NBUF \<or> b \<in> dirty_blocks c \<and> card (dirty_blocks c) < NBUF"
  shows "\<exists>c'. do {
     (p, c) \<leftarrow> bread me 1 a c;
     (q, c) \<leftarrow> bread me 1 b c;
     let c = set_buf p (\<lambda>x. x\<lparr>b_data := b_data (bufs c ! q)\<rparr>) c;
     c \<leftarrow> bwrite me p c;
     c \<leftarrow> brelse me q c;
     brelse me p c
   } = Some c' \<and> copied me b a c c'"
proof -
  have ok: "cache_ok me c" and l: "locked_blocks c = {}" using r by (simp_all add: rest_def)
  have "card (dirty_blocks c) < NBUF" using room card_mono [of "insert a (dirty_blocks c)" "dirty_blocks c"] blocks_finite
    by (metis finite_insert le_less_trans subset_insertI)
  then obtain p c1 where 1: "bread me 1 a c = Some (p, c1)" "cache_ok me c1" "holds me c1 p a" "disk c1 = disk c"
    "\<And>m. view c1 m = view c m" "dirty_blocks c1 = dirty_blocks c" "locked_blocks c1 = {a}"
    using bread_spec [OF ok n(1)] l by auto
  have "b \<notin> locked_blocks c1" "b \<in> dirty_blocks c1 \<or> card (dirty_blocks c1 \<union> locked_blocks c1) < NBUF" "unat b < length (disk c1)"
    using 1 n room by auto
  from bread_spec [OF 1(2) this(3,1,2)] obtain q c2 where 2: "bread me 1 b c1 = Some (q, c2)" "cache_ok me c2" "holds me c2 q b"
    "disk c2 = disk c" "\<And>m. view c2 m = view c m" "dirty_blocks c2 = dirty_blocks c" "locked_blocks c2 = {a, b}"
    "p \<noteq> q" "holds me c2 p a" using 1 by (auto simp: insert_commute)
  define c3 where "c3 = set_buf p (\<lambda>x. x\<lparr>b_data := b_data (bufs c2 ! q)\<rparr>) c2"
  have d: "b_data (bufs c2 ! q) = view c b" "length (b_data (bufs c2 ! q)) = BSIZE"
    using holdsD(5,8) [OF 2(2,3)] 2(5) by simp_all
  note S = set_data_spec [OF 2(2,9) d(2), folded c3_def]
  obtain c4 where 4: "bwrite me p c3 = Some c4" "cache_ok me c4" "holds me c4 p a" "disk c4 = (disk c)[unat a := view c b]"
    "\<And>m. view c4 m = (if m = a then view c b else view c m)" "dirty_blocks c4 = dirty_blocks c - {a}" "locked_blocks c4 = {a, b}"
    "holds me c4 q b"
    using bwrite_spec [OF S(1,2)] S(3-6) S(7) [OF 2(3)] 2 d(1) by auto
  have "b \<in> dirty_blocks c4 \<or> view c4 b = disk c4 ! unat b"
    using 4 n(3) clean_view [OF r, of b] by (auto simp: word_unat_eq_iff)
  then obtain c5 where 5: "brelse me q c4 = Some c5" "cache_ok me c5" "disk c5 = disk c4"
    "\<And>m. view c5 m = view c4 m" "dirty_blocks c5 = dirty_blocks c4" "locked_blocks c5 = {a}" "holds me c5 p a"
  proof -
    have "{a, b} - {b} = {a}" using n(3) by auto
    then show thesis using that 4(3,7) 2(8) brelse_spec [OF 4(2,8) \<open>b \<in> dirty_blocks c4 \<or> view c4 b = disk c4 ! unat b\<close>] by metis
  qed
  have "view c5 a = disk c5 ! unat a" using 5 4 n(1) by simp
  then obtain c6 where 6: "brelse me p c5 = Some c6" "cache_ok me c6" "disk c6 = disk c5" "\<And>m. view c6 m = view c5 m"
    "dirty_blocks c6 = dirty_blocks c5" "locked_blocks c6 = {}"
    using brelse_spec [OF 5(2,7)] 5(6) by auto
  have "copied me b a c c6" using 4 5 6 by (simp add: copied_def rest_def)
  then show ?thesis using 1(1) 2(1) 4(1) 5(1) 6(1) c3_def by auto
qed

section \<open>The header block\<close>

definition header_encode :: "nat list \<Rightarrow> byte list \<Rightarrow> byte list" where
  "header_encode ns b = header_data (map of_nat ns) b"

definition header_decode :: "byte list \<Rightarrow> nat list" where
  "header_decode b = (let n = unat (get32 b 0) in if n \<le> LOGSIZE then map unat (get_words b 4 n) else [])"

definition header_fits :: "nat \<Rightarrow> nat list \<Rightarrow> bool" where
  "header_fits cap ns \<longleftrightarrow> length ns \<le> cap \<and> length ns \<le> LOGSIZE \<and> (\<forall>n \<in> set ns. n < 2 ^ 32)"

definition is_block :: "byte list \<Rightarrow> bool" where
  "is_block b \<longleftrightarrow> length b = BSIZE \<and> unat (get32 b 0) \<le> LOGSIZE"

lemma LOGSIZE_le: "LOGSIZE = 30"
  by (simp add: LOGSIZE_def MAXOPBLOCKS_def)

lemma header_data_block:
  assumes "length b = BSIZE" "length ws \<le> LOGSIZE"
  shows "length (header_data ws b) = BSIZE" "get32 (header_data ws b) 0 = of_nat (length ws)"
    "get_words (header_data ws b) 4 (length ws) = ws"
proof -
  let ?d = "put32 b 0 (of_nat (length ws))"
  have len: "4 + 4 * length ws \<le> length ?d" "0 + 4 \<le> length b" using assms by (simp_all add: BSIZE_def LOGSIZE_le)
  then show "length (header_data ws b) = BSIZE" using assms(1) by (simp add: header_data_def)
  show "get32 (header_data ws b) 0 = of_nat (length ws)"
    using get_put_words_before [of 4 ws ?d 0] get_put_same(1) [OF len(2)] len(1) by (simp add: header_data_def)
  show "get_words (header_data ws b) 4 (length ws) = ws"
    unfolding header_data_def by (rule get_put_words [OF len(1)])
qed

interpretation xlog: redo_log header capacity header_encode header_decode "header_fits capacity" is_block
  for header capacity
proof unfold_locales
  fix b :: "byte list" and ns :: "nat list"
  assume b: "is_block b" and f: "header_fits capacity ns"
  then have len: "length b = BSIZE" "length (map of_nat ns :: u32 list) \<le> LOGSIZE"
    by (simp_all add: is_block_def header_fits_def)
  note H = header_data_block [OF len]
  have n: "unat (of_nat (length ns) :: u32) = length ns" using len(2) by (simp add: unat_of_nat_u32 LOGSIZE_le)
  have "map unat (map of_nat ns :: u32 list) = ns"
    using f by (intro nth_equalityI) (simp_all add: header_fits_def unat_of_nat_u32)
  then show "header_decode (header_encode ns b) = ns"
    using H n len(2) by (simp add: header_decode_def header_encode_def Let_def)
  show "is_block (header_encode ns b)" using H(1,2) n len(2) by (simp add: header_encode_def is_block_def)
qed (simp_all add: header_fits_def)

section \<open>Committing\<close>

definition log_ok :: "u32 \<Rightarrow> log \<Rightarrow> bool" where
  "log_ok me s \<longleftrightarrow> rest me (cache s) \<and> lg_dev s = 1 \<and> dirty_blocks (cache s) = set (lh s) \<and> distinct (lh s) \<and>
     length (lh s) < unat (lg_size s) \<and> unat (lg_size s) \<le> LOGSIZE \<and>
     unat (lg_start s) + unat (lg_size s) \<le> length (disk (cache s)) \<and> length (disk (cache s)) \<le> 2 ^ 32 \<and>
     (\<forall>n \<in> set (lh s). unat n < length (disk (cache s)) \<and>
        (unat n < unat (lg_start s) \<or> unat (lg_start s) + unat (lg_size s) \<le> unat n)) \<and>
     is_block (disk (cache s) ! unat (lg_start s)) \<and> header_decode (disk (cache s) ! unat (lg_start s)) = []"

definition same_log :: "log \<Rightarrow> log \<Rightarrow> bool" where
  "same_log s s' \<longleftrightarrow> lg_start s' = lg_start s \<and> lg_size s' = lg_size s \<and> lg_dev s' = lg_dev s \<and> lh s' = lh s \<and>
     outstanding s' = outstanding s \<and> committing s' = committing s"

text \<open>The number of block \<open>k\<close> of the log.\<close>

lemma log_block:
  assumes "unat (lg_start s) + 1 + k < 2 ^ 32"
  shows "unat (lg_start s + of_nat k + 1) = unat (lg_start s) + 1 + k"
proof -
  have "unat (of_nat k :: u32) = k" using assms by (intro unat_of_nat_u32) linarith
  then show ?thesis using assms by (simp add: unat_u32_plus)
qed

lemma copied_log:
  assumes "copied me src dst (cache s) c"
  shows "rest me c" "disk c = (disk (cache s))[unat dst := view (cache s) src]"
    "view c m = (if m = dst then view (cache s) src else view (cache s) m)" "dirty_blocks c = dirty_blocks (cache s) - {dst}"
  using assms by (simp_all add: copied_def)

lemma write_log_one_spec:
  assumes r: "rest me (cache s)" "lg_dev s = 1" and k: "k < length (lh s)" "unat (lg_start s) + 1 + k < length (disk (cache s))"
    and len: "length (disk (cache s)) \<le> 2 ^ 32" and dst: "unat (lh s ! k) < length (disk (cache s))"
    and ne: "unat (lh s ! k) \<noteq> unat (lg_start s) + 1 + k"
    and d: "lh s ! k \<in> dirty_blocks (cache s)" "card (dirty_blocks (cache s)) < NBUF"
  shows "\<exists>s'. write_log_one me k s = Some s' \<and> same_log s s' \<and>
    copied me (lh s ! k) (lg_start s + of_nat k + 1) (cache s) (cache s')"
proof -
  have u: "unat (lg_start s + of_nat k + 1) = unat (lg_start s) + 1 + k" by (rule log_block) (use k len in linarith)
  have "lg_start s + of_nat k + 1 \<noteq> lh s ! k" using u ne by auto
  from copy_first [OF r(1) _ dst this] obtain c' where "do {
     (p, c) \<leftarrow> bread me 1 (lg_start s + of_nat k + 1) (cache s);
     (q, c) \<leftarrow> bread me 1 (lh s ! k) c;
     let c = set_buf p (\<lambda>x. x\<lparr>b_data := b_data (bufs c ! q)\<rparr>) c;
     c \<leftarrow> bwrite me p c;
     c \<leftarrow> brelse me q c;
     brelse me p c
   } = Some c'" "copied me (lh s ! k) (lg_start s + of_nat k + 1) (cache s) c'" using k u d by auto
  then show ?thesis using r(2) unfolding write_log_one_def
    by (auto simp: bind_eq_Some_conv same_log_def Let_def split: prod.splits intro!: exI [of _ "s\<lparr>cache := c'\<rparr>"])
qed

lemma install_one_spec:
  assumes r: "rest me (cache s)" "lg_dev s = 1" and k: "k < length (lh s)" "unat (lg_start s) + 1 + k < length (disk (cache s))"
    and len: "length (disk (cache s)) \<le> 2 ^ 32" and dst: "unat (lh s ! k) < length (disk (cache s))"
    and ne: "unat (lh s ! k) \<noteq> unat (lg_start s) + 1 + k"
    and d: "card (insert (lg_start s + of_nat k + 1) (dirty_blocks (cache s))) < NBUF \<or>
      lh s ! k \<in> dirty_blocks (cache s) \<and> card (dirty_blocks (cache s)) < NBUF"
  shows "\<exists>s'. install_one me k s = Some s' \<and> same_log s s' \<and>
    copied me (lg_start s + of_nat k + 1) (lh s ! k) (cache s) (cache s')"
proof -
  have u: "unat (lg_start s + of_nat k + 1) = unat (lg_start s) + 1 + k" by (rule log_block) (use k len in linarith)
  have "lg_start s + of_nat k + 1 \<noteq> lh s ! k" using u ne by auto
  from copy_second [OF r(1) _ dst this d] obtain c' where "do {
     (p, c) \<leftarrow> bread me 1 (lg_start s + of_nat k + 1) (cache s);
     (q, c) \<leftarrow> bread me 1 (lh s ! k) c;
     let c = set_buf q (\<lambda>x. x\<lparr>b_data := b_data (bufs c ! p)\<rparr>) c;
     c \<leftarrow> bwrite me q c;
     c \<leftarrow> brelse me p c;
     brelse me q c
   } = Some c'" "copied me (lg_start s + of_nat k + 1) (lh s ! k) (cache s) c'" using k u by auto
  then show ?thesis using r(2) unfolding install_one_def
    by (auto simp: bind_eq_Some_conv same_log_def Let_def split: prod.splits intro!: exI [of _ "s\<lparr>cache := c'\<rparr>"])
qed

lemma write_head_spec:
  assumes r: "rest me (cache s)" "lg_dev s = 1" and n: "unat (lg_start s) < length (disk (cache s))"
    and d: "lg_start s \<notin> dirty_blocks (cache s)" "card (dirty_blocks (cache s)) < NBUF" and l: "length (lh s) \<le> LOGSIZE"
  shows "\<exists>s'. write_head me s = Some s' \<and> same_log s s' \<and> rest me (cache s') \<and>
    disk (cache s') = xlog.write_header (unat (lg_start s)) (map unat (lh s)) (disk (cache s)) \<and>
    (\<forall>m. m \<noteq> lg_start s \<longrightarrow> view (cache s') m = view (cache s) m) \<and> dirty_blocks (cache s') = dirty_blocks (cache s)"
proof -
  let ?c = "cache s" and ?n = "lg_start s"
  have ok: "cache_ok me ?c" and lk: "locked_blocks ?c = {}" using r(1) by (simp_all add: rest_def)
  obtain b c1 where 1: "bread me 1 ?n ?c = Some (b, c1)" "cache_ok me c1" "holds me c1 b ?n" "disk c1 = disk ?c"
    "\<And>m. view c1 m = view ?c m" "dirty_blocks c1 = dirty_blocks ?c" "locked_blocks c1 = {?n}"
    using bread_spec [OF ok n] lk d(2) by auto
  have v: "view ?c ?n = disk ?c ! unat ?n" by (rule clean_view [OF r(1) d(1)])
  have hd: "b_data (bufs c1 ! b) = disk ?c ! unat ?n" "length (disk ?c ! unat ?n) = BSIZE"
    using holdsD(5,8) [OF 1(2,3)] 1(5) v by simp_all
  define h where "h = header_data (lh s) (b_data (bufs c1 ! b))"
  have hl: "length h = BSIZE" unfolding h_def hd(1) by (rule header_data_block(1) [OF hd(2) l])
  define c2 where "c2 = set_buf b (\<lambda>x. x\<lparr>b_data := h\<rparr>) c1"
  note S = set_data_spec [OF 1(2,3) hl, folded c2_def]
  obtain c3 where 3: "bwrite me b c2 = Some c3" "cache_ok me c3" "holds me c3 b ?n" "disk c3 = (disk ?c)[unat ?n := h]"
    "\<And>m. view c3 m = (if m = ?n then h else view ?c m)" "dirty_blocks c3 = dirty_blocks ?c" "locked_blocks c3 = {?n}"
    using bwrite_spec [OF S(1,2)] S(3-6) 1(4-7) d(1) by auto
  have "view c3 ?n = disk c3 ! unat ?n" using 3(4,5) n by simp
  then obtain c4 where 4: "brelse me b c3 = Some c4" "cache_ok me c4" "disk c4 = disk c3" "\<And>m. view c4 m = view c3 m"
    "dirty_blocks c4 = dirty_blocks c3" "locked_blocks c4 = {}"
    using brelse_spec [OF 3(2,3)] 3(7) by auto
  have "write_head me s = Some (s\<lparr>cache := c4\<rparr>)"
    using r(2) 1(1) 3(1) 4(1) unfolding write_head_def h_def c2_def by simp
  moreover have "disk c4 = xlog.write_header (unat ?n) (map unat (lh s)) (disk ?c)"
    using 4(3) 3(4) hd(1) by (simp add: xlog.write_header_def header_encode_def h_def comp_def)
  ultimately show ?thesis
    using 4 3 by (intro exI [of _ "s\<lparr>cache := c4\<rparr>"]) (simp add: same_log_def rest_def)
qed

text \<open>A commit as the list of its disk writes, so that it can be cut after any of them.\<close>

fun run :: "('s \<Rightarrow> 's option) list \<Rightarrow> 's \<Rightarrow> 's option" where
  "run [] s = Some s"
| "run (f # fs) s = do { s \<leftarrow> f s; run fs s }"

definition commit_steps :: "u32 \<Rightarrow> nat \<Rightarrow> (log \<Rightarrow> log option) list" where
  "commit_steps me n = map (write_log_one me) [0..<n] @ [write_head me] @ map (install_one me) [0..<n] @
     [\<lambda>s. write_head me (s\<lparr>lh := []\<rparr>)]"

lemma run_append: "run (xs @ ys) s = do { s \<leftarrow> run xs s; run ys s }"
proof (induction xs arbitrary: s)
  case (Cons x xs)
  then show ?case by (cases "x s") simp_all
qed simp

lemma for_loop_run: "for_loop lo (lo + n) f s = run (map f [lo..<lo + n]) s"
proof (induction n arbitrary: lo s)
  case (Suc n)
  have "for_loop (Suc lo) (lo + Suc n) f = run (map f [Suc lo..<lo + Suc n])"
    using Suc [of "Suc lo"] by (auto simp del: upt_Suc)
  then show ?case by (simp add: for_loop_step upt_conv_Cons del: upt_Suc)
qed simp

lemma loops_run: "write_log me s = run (map (write_log_one me) [0..<length (lh s)]) s"
  "install_trans me s = run (map (install_one me) [0..<length (lh s)]) s"
  using for_loop_run [of 0] by (simp_all add: write_log_def install_trans_def)

lemma run_snoc: "run (map f [0..<Suc k]) s = do { s \<leftarrow> run (map f [0..<k]) s; f k s }"
proof (cases "run (map f [0..<k]) s")
  case (Some t)
  then show ?thesis by (cases "f k t") (simp_all add: run_append)
qed (simp add: run_append)

text \<open>The state while a transaction with blocks \<open>ns\<close> of the starting state \<open>s\<close> is written.\<close>

definition during :: "u32 \<Rightarrow> log \<Rightarrow> log \<Rightarrow> bool" where
  "during me s s' \<longleftrightarrow> same_log s s' \<and> rest me (cache s') \<and> length (disk (cache s')) = length (disk (cache s)) \<and>
     (\<forall>m \<in> dirty_blocks (cache s'). view (cache s') m = view (cache s) m)"

definition transaction :: "u32 \<Rightarrow> log \<Rightarrow> nat \<Rightarrow> nat \<Rightarrow> nat list \<Rightarrow> bool" where
  "transaction me s h cap ns \<longleftrightarrow> rest me (cache s) \<and> lg_dev s = 1 \<and> h = unat (lg_start s) \<and> ns = map unat (lh s) \<and>
     dirty_blocks (cache s) \<subseteq> set (lh s) \<and> cap < NBUF \<and> xlog.layout_ok h cap ns (disk (cache s)) \<and>
     length (disk (cache s)) \<le> 2 ^ 32"

lemma transactionD:
  assumes "transaction me s h cap ns"
  shows "rest me (cache s)" "lg_dev s = 1" "h = unat (lg_start s)" "ns = map unat (lh s)"
    "dirty_blocks (cache s) \<subseteq> set (lh s)" "cap < NBUF" "xlog.layout_ok h cap ns (disk (cache s))"
    "length (disk (cache s)) \<le> 2 ^ 32"
  using assms unfolding transaction_def by blast+

lemma lay_facts:
  assumes T: "transaction me s h cap ns"
  shows "length ns = length (lh s)" "h + cap < length (disk (cache s))" "length (lh s) \<le> cap" "distinct ns" "distinct (lh s)"
  "k < length (lh s) \<Longrightarrow> unat (lh s ! k) < length (disk (cache s))"
  "k < length (lh s) \<Longrightarrow> j \<le> cap \<Longrightarrow> unat (lh s ! k) \<noteq> h + j"
  "k < cap \<Longrightarrow> lg_start s + of_nat k + 1 \<notin> set (lh s)" "lg_start s \<notin> set (lh s)"
proof -
  note dev = transactionD(2) [OF T] and h = transactionD(3) [OF T] and ns = transactionD(4) [OF T] and
    dirty0 = transactionD(5) [OF T] and cap = transactionD(6) [OF T] and big = transactionD(8) [OF T]
  note L = xlog.layout_okD [OF transactionD(7) [OF T]]
  show n: "length ns = length (lh s)" "h + cap < length (disk (cache s))" "length (lh s) \<le> cap" "distinct ns"
    using L ns by simp_all
  show "distinct (lh s)" using n(4) ns by (simp add: distinct_map)
  show "unat (lh s ! k) < length (disk (cache s))" if "k < length (lh s)" for k using L(7) [of k] that ns by simp
  show home: "unat (lh s ! k) \<noteq> h + j" if "k < length (lh s)" "j \<le> cap" for j k
    using L(6) [of k] that ns by (auto simp: xlog.home_def)
  show "lg_start s \<notin> set (lh s)" using home [of _ 0] h by (fastforce simp: in_set_conv_nth)
  show "lg_start s + of_nat k + 1 \<notin> set (lh s)" if "k < cap" for k
    using home [of _ "Suc k"] log_block [of s k] n(2) big that h by (fastforce simp: in_set_conv_nth)
qed

lemma card_dirty:
  assumes T: "transaction me s h cap ns"
  shows "card (dirty_blocks (cache s)) < NBUF"
proof -
  note dev = transactionD(2) [OF T] and h = transactionD(3) [OF T] and ns = transactionD(4) [OF T] and
    dirty0 = transactionD(5) [OF T] and cap = transactionD(6) [OF T] and big = transactionD(8) [OF T]
  have "card (dirty_blocks (cache s)) \<le> card (set (lh s))" by (rule card_mono [OF _ dirty0]) simp
  also have "\<dots> \<le> length (lh s)" by (rule card_length)
  finally show ?thesis using lay_facts(3) [OF T] cap by simp
qed

text \<open>The first phase, for a transaction whose blocks are all dirty in the cache.\<close>

lemma log_phase_run:
  assumes T: "transaction me s h cap ns" and all: "dirty_blocks (cache s) = set (lh s)" and m: "m \<le> length (lh s)"
  shows "\<exists>s'. run (map (write_log_one me) [0..<m]) s = Some s' \<and> during me s s' \<and>
    dirty_blocks (cache s') = set (lh s) \<and>
    disk (cache s') = xlog.after (take m (map (\<lambda>k d. d[h + 1 + k := view (cache s) (lh s ! k)]) [0..<length ns])) (disk (cache s))"
  using m
proof (induction m)
  case 0
  then show ?case using transactionD(1) [OF T] all by (simp add: during_def same_log_def xlog.after_def)
next
  case (Suc m)
  note dev = transactionD(2) [OF T] and h = transactionD(3) [OF T] and ns = transactionD(4) [OF T] and
    dirty0 = transactionD(5) [OF T] and cap = transactionD(6) [OF T] and big = transactionD(8) [OF T]
  note F = lay_facts [OF T]
  let ?f = "map (\<lambda>k d. d[h + 1 + k := view (cache s) (lh s ! k)]) [0..<length ns] :: (byte list list \<Rightarrow> _) list"
  obtain s1 where 1: "run (map (write_log_one me) [0..<m]) s = Some s1" "during me s s1"
    "dirty_blocks (cache s1) = set (lh s)" "disk (cache s1) = xlog.after (take m ?f) (disk (cache s))"
    using Suc by auto
  have same: "lg_start s1 = lg_start s" "lh s1 = lh s" "lg_dev s1 = 1" "rest me (cache s1)" "length (disk (cache s1)) = length (disk (cache s))"
    using 1(2) dev by (simp_all add: during_def same_log_def)
  have m: "m < length (lh s)" "m < cap" using Suc.prems F(3) by simp_all
  have mem: "lh s ! m \<in> dirty_blocks (cache s1)" using 1(3) m by simp
  have v: "view (cache s1) (lh s ! m) = view (cache s) (lh s ! m)" using 1(2) mem by (simp add: during_def)
  have c: "card (dirty_blocks (cache s1)) < NBUF" using card_dirty [OF T] all 1(3) by simp
  have "unat (lg_start s) + 1 + m < length (disk (cache s))" using F(2) m(2) h by simp
  then obtain s2 where 2: "write_log_one me m s1 = Some s2" "same_log s1 s2"
    "copied me (lh s ! m) (lg_start s + of_nat m + 1) (cache s1) (cache s2)"
    using write_log_one_spec [of me s1 m] same mem c m big F(6) [OF m(1)] F(7) [OF m(1), of "Suc m"] h by (auto simp: add.commute)
  have u: "unat (lg_start s + of_nat m + 1) = h + 1 + m" using log_block [of s m] F(2) big m h by simp
  have t: "take (Suc m) ?f = take m ?f @ [\<lambda>d. d[h + 1 + m := view (cache s) (lh s ! m)]]"
    using m(1) F(1) by (simp add: take_Suc_conv_app_nth)
  note C = copied_log [OF 2(3)]
  have ni: "lg_start s + of_nat m + 1 \<notin> set (lh s)" by (rule F(8) [OF m(2)])
  have "dirty_blocks (cache s2) = set (lh s)" using C(4) 1(3) ni by simp
  moreover have "disk (cache s2) = xlog.after (take (Suc m) ?f) (disk (cache s))"
    unfolding t xlog.after_append using C(2) u v 1(4) by (simp add: xlog.after_def)
  moreover have "during me s s2"
    using C(1,2,3) calculation(1) 1(2,3) 2(2) ni same(5) by (auto simp: during_def same_log_def)
  moreover have "run (map (write_log_one me) [0..<Suc m]) s = Some s2" unfolding run_snoc using 1(1) 2(1) by simp
  ultimately show ?case by blast
qed

text \<open>The header.\<close>

lemma write_head_run:
  assumes T: "transaction me s h cap ns" and d: "during me s s1" "dirty_blocks (cache s1) \<subseteq> set (lh s)"
  shows "\<exists>s2. write_head me s1 = Some s2 \<and> during me s s2 \<and> dirty_blocks (cache s2) = dirty_blocks (cache s1) \<and>
    disk (cache s2) = xlog.write_header h ns (disk (cache s1))"
proof -
  note dev = transactionD(2) [OF T] and h = transactionD(3) [OF T] and ns = transactionD(4) [OF T] and
    dirty0 = transactionD(5) [OF T] and cap = transactionD(6) [OF T] and big = transactionD(8) [OF T]
  note F = lay_facts [OF T]
  have same: "lg_start s1 = lg_start s" "lh s1 = lh s" "lg_dev s1 = 1" "rest me (cache s1)" "length (disk (cache s1)) = length (disk (cache s))"
    using d(1) dev by (simp_all add: during_def same_log_def)
  have ni: "lg_start s \<notin> dirty_blocks (cache s1)" using d(2) F(9) by blast
  have "card (dirty_blocks (cache s1)) \<le> card (set (lh s))" by (rule card_mono [OF _ d(2)]) simp
  also have "\<dots> \<le> length (lh s)" by (rule card_length)
  finally have c: "card (dirty_blocks (cache s1)) < NBUF" "length (lh s) \<le> LOGSIZE"
    using F(3) cap by (simp_all add: NBUF_def LOGSIZE_def)
  obtain s2 where 2: "write_head me s1 = Some s2" "same_log s1 s2" "rest me (cache s2)"
    "disk (cache s2) = xlog.write_header h ns (disk (cache s1))" "dirty_blocks (cache s2) = dirty_blocks (cache s1)"
    "\<And>m. m \<noteq> lg_start s \<Longrightarrow> view (cache s2) m = view (cache s1) m"
    using write_head_spec [of me s1] same ni c F(2) h ns by auto
  have "view (cache s2) m = view (cache s) m" if "m \<in> dirty_blocks (cache s2)" for m
    using that 2(5,6) ni d(1) by (metis during_def)
  then have "during me s s2"
    using d(1) 2(2-5) same(5) by (auto simp: during_def same_log_def xlog.write_header_def)
  with 2 show ?thesis by blast
qed

text \<open>The second phase; recovery runs it too, on a cache without dirty blocks.\<close>

lemma install_phase_run:
  assumes T: "transaction me s h cap ns" and d: "during me s s1" and sub: "dirty_blocks (cache s1) = set (lh s) \<or> dirty_blocks (cache s1) = {}"
    and m: "m \<le> length (lh s)"
  shows "\<exists>s'. run (map (install_one me) [0..<m]) s1 = Some s' \<and> during me s s' \<and>
    dirty_blocks (cache s') = dirty_blocks (cache s1) - set (take m (lh s)) \<and>
    disk (cache s') = fold (xlog.copy_home h ns) [0..<m] (disk (cache s1))"
  using m
proof (induction m)
  case 0
  then show ?case using d by simp
next
  case (Suc m)
  note dev = transactionD(2) [OF T] and h = transactionD(3) [OF T] and ns = transactionD(4) [OF T] and
    dirty0 = transactionD(5) [OF T] and cap = transactionD(6) [OF T] and big = transactionD(8) [OF T]
  note F = lay_facts [OF T]
  obtain s2 where 1: "run (map (install_one me) [0..<m]) s1 = Some s2" "during me s s2"
    "dirty_blocks (cache s2) = dirty_blocks (cache s1) - set (take m (lh s))"
    "disk (cache s2) = fold (xlog.copy_home h ns) [0..<m] (disk (cache s1))"
    using Suc by auto
  have same: "lg_start s2 = lg_start s" "lh s2 = lh s" "lg_dev s2 = 1" "rest me (cache s2)" "length (disk (cache s2)) = length (disk (cache s))"
    using 1(2) dev by (simp_all add: during_def same_log_def)
  have m: "m < length (lh s)" "m < cap" using Suc.prems F(3) by simp_all
  have ni: "lg_start s + of_nat m + 1 \<notin> set (lh s)" by (rule F(8) [OF m(2)])
  have sub2: "dirty_blocks (cache s2) \<subseteq> set (lh s)" using 1(3) sub by auto
  have room: "card (insert (lg_start s + of_nat m + 1) (dirty_blocks (cache s2))) < NBUF \<or>
      lh s ! m \<in> dirty_blocks (cache s2) \<and> card (dirty_blocks (cache s2)) < NBUF"
  proof (cases "dirty_blocks (cache s1) = {}")
    case True
    then have "dirty_blocks (cache s2) = {}" using 1(3) by simp
    then show ?thesis by (simp add: NBUF_def MAXOPBLOCKS_def)
  next
    case False
    then have all: "dirty_blocks (cache s1) = set (lh s)" using sub by blast
    have "lh s ! m \<notin> set (take m (lh s))"
      using F(5) m(1) by (metis distinct_take not_distinct_conv_prefix take_Suc_conv_app_nth in_set_conv_decomp distinct_append
          append.right_neutral disjoint_iff list.set_intros(1))
    then have "lh s ! m \<in> dirty_blocks (cache s2)" using 1(3) all m(1) by simp
    moreover have "card (dirty_blocks (cache s2)) \<le> length (lh s)"
      using card_mono [OF _ sub2] card_length [of "lh s"] by simp
    ultimately show ?thesis using F(3) cap by simp
  qed
  have "unat (lg_start s) + 1 + m < length (disk (cache s))" using F(2) m(2) h by simp
  then obtain s3 where 2: "install_one me m s2 = Some s3" "same_log s2 s3"
    "copied me (lg_start s + of_nat m + 1) (lh s ! m) (cache s2) (cache s3)"
    using install_one_spec [of me s2 m] same room m big F(6) [OF m(1)] F(7) [OF m(1), of "Suc m"] h by (auto simp: add.commute)
  have u: "unat (lg_start s + of_nat m + 1) = h + 1 + m" using log_block [of s m] F(2) big m h by simp
  note C = copied_log [OF 2(3)]
  have "lg_start s + of_nat m + 1 \<notin> dirty_blocks (cache s2)" using sub2 ni by blast
  then have v: "view (cache s2) (lg_start s + of_nat m + 1) = disk (cache s2) ! (h + 1 + m)"
    using clean_view [OF same(4)] u by simp
  have t: "set (take (Suc m) (lh s)) = insert (lh s ! m) (set (take m (lh s)))" using m(1) by (simp add: take_Suc_conv_app_nth)
  have "dirty_blocks (cache s3) = dirty_blocks (cache s1) - set (take (Suc m) (lh s))" using C(4) 1(3) t by auto
  moreover have "disk (cache s3) = fold (xlog.copy_home h ns) [0..<Suc m] (disk (cache s1))"
    using C(2) v 1(4) m(1) by (simp add: xlog.copy_home_def ns)
  moreover have "during me s s3"
    using C 1(2) 2(2) same(5) by (auto simp: during_def same_log_def)
  moreover have "run (map (install_one me) [0..<Suc m]) s1 = Some s3" unfolding run_snoc using 1(1) 2(1) by simp
  ultimately show ?case by blast
qed

end
