(* ===== verification/LogSafety.thy ===== *)
theory LogSafety
  imports Log
begin

text \<open>
  What the log of \<open>Log\<close> guarantees: a commit performs the writes of \<open>RedoLog\<close> in order, so recovery
  after a crash at any point yields all of the transaction or nothing; a logged update is seen by all
  readers at once; and the space that \<open>begin_op\<close> reserves.
\<close>

lemma log_okD:
  assumes "log_ok me s"
  shows "rest me (cache s)" "lg_dev s = 1" "dirty_blocks (cache s) = set (lh s)" "distinct (lh s)"
    "length (lh s) < unat (lg_size s)" "unat (lg_size s) \<le> LOGSIZE"
    "unat (lg_start s) + unat (lg_size s) \<le> length (disk (cache s))" "length (disk (cache s)) \<le> 2 ^ 32"
    "\<And>n. n \<in> set (lh s) \<Longrightarrow> unat n < length (disk (cache s)) \<and>
        (unat n < unat (lg_start s) \<or> unat (lg_start s) + unat (lg_size s) \<le> unat n)"
    "is_block (disk (cache s) ! unat (lg_start s))" "header_decode (disk (cache s) ! unat (lg_start s)) = []"
  using assms unfolding log_ok_def by blast+

lemma log_transaction:
  assumes ok: "log_ok me s"
  shows "transaction me s (unat (lg_start s)) (unat (lg_size s) - 1) (map unat (lh s))"
proof -
  note L = log_okD [OF ok]
  have "inj_on unat (set (lh s))" by (auto intro!: inj_onI simp: word_unat_eq_iff)
  then have "distinct (map unat (lh s))" using L(4) by (simp add: distinct_map)
  moreover have "header_fits (unat (lg_size s) - 1) (map unat (lh s))"
    using L(5,6) by (auto simp: header_fits_def)
  moreover have "xlog.home (unat (lg_start s)) (unat (lg_size s) - 1) (unat n)" if "n \<in> set (lh s)" for n
    using L(5) L(9) [OF that] by (auto simp: xlog.home_def)
  ultimately have "xlog.layout_ok (unat (lg_start s)) (unat (lg_size s) - 1) (map unat (lh s)) (disk (cache s))"
    using L(5,7,9,10) by (auto simp: xlog.layout_ok_def)
  then show ?thesis
    using L by (simp add: transaction_def NBUF_def LOGSIZE_def MAXOPBLOCKS_def)
qed

text \<open>The contents a transaction gives to the blocks, by number.\<close>

definition new_contents :: "log \<Rightarrow> nat \<Rightarrow> byte list" where
  "new_contents s n = view (cache s) (of_nat n)"

definition commit_writes :: "log \<Rightarrow> (byte list list \<Rightarrow> byte list list) list" where
  "commit_writes s = xlog.writes_of (unat (lg_start s)) (map unat (lh s)) (new_contents s)"

lemma log_writes_eq:
  "map (\<lambda>k d. d[h + 1 + k := new_contents s (map unat (lh s) ! k)]) [0..<length (map unat (lh s))] =
   map (\<lambda>k d. d[h + 1 + k := view (cache s) (lh s ! k)]) [0..<length (map unat (lh s))]"
  by (rule map_cong) (auto simp: new_contents_def)

lemma during_start: "rest me (cache s) \<Longrightarrow> during me s s"
  by (simp add: during_def same_log_def)

lemma clear_head:
  assumes T: "transaction me s h cap ns" and d: "during me s s1" and cl: "dirty_blocks (cache s1) = {}"
  shows "\<exists>s2. write_head me (s1\<lparr>lh := []\<rparr>) = Some s2 \<and> same_log (s1\<lparr>lh := []\<rparr>) s2 \<and> rest me (cache s2) \<and>
    dirty_blocks (cache s2) = {} \<and> disk (cache s2) = xlog.write_header h [] (disk (cache s1))"
proof -
  have "lg_start s1 = lg_start s" "lg_dev s1 = 1" "rest me (cache s1)" "length (disk (cache s1)) = length (disk (cache s))"
    using d transactionD(2) [OF T] by (simp_all add: during_def same_log_def)
  then show ?thesis
    using write_head_spec [of me "s1\<lparr>lh := []\<rparr>"] cl lay_facts(2) [OF T] transactionD(3) [OF T]
    by (auto simp: NBUF_def MAXOPBLOCKS_def)
qed

text \<open>Any prefix of a commit performs the corresponding prefix of the writes.\<close>

lemma commit_prefix:
  assumes ok: "log_ok me s" and k: "k \<le> length (commit_steps me (length (lh s)))"
  shows "\<exists>s'. run (take k (commit_steps me (length (lh s)))) s = Some s' \<and>
    disk (cache s') = xlog.after (take k (commit_writes s)) (disk (cache s)) \<and> rest me (cache s') \<and>
    (k = length (commit_steps me (length (lh s))) \<longrightarrow> same_log (s\<lparr>lh := []\<rparr>) s' \<and> dirty_blocks (cache s') = {})"
proof -
  let ?n = "length (lh s)" and ?h = "unat (lg_start s)" and ?ns = "map unat (lh s)"
  let ?l = "map (\<lambda>k d. d[?h + 1 + k := view (cache s) (lh s ! k)]) [0..<length ?ns] :: (byte list list \<Rightarrow> byte list list) list"
  note T = log_transaction [OF ok] and L = log_okD [OF ok]
  have w: "commit_writes s = ?l @ [xlog.write_header ?h ?ns] @ map (xlog.copy_home ?h ?ns) [0..<?n] @ [xlog.write_header ?h []]"
    unfolding commit_writes_def xlog.writes_of_def log_writes_eq by simp
  note ph1 = log_phase_run [OF T L(3)]
  obtain s1 where s1: "run (map (write_log_one me) [0..<?n]) s = Some s1" "during me s s1" "dirty_blocks (cache s1) = set (lh s)"
    "disk (cache s1) = xlog.after ?l (disk (cache s))"
    using ph1 [OF order_refl] by auto
  obtain s2 where s2: "write_head me s1 = Some s2" "during me s s2" "dirty_blocks (cache s2) = set (lh s)"
    "disk (cache s2) = xlog.write_header ?h ?ns (disk (cache s1))"
    using write_head_run [OF T s1(2)] s1(3) by auto
  have ph2: "\<exists>s'. run (map (install_one me) [0..<m]) s2 = Some s' \<and> during me s s' \<and>
    dirty_blocks (cache s') = set (lh s) - set (take m (lh s)) \<and>
    disk (cache s') = fold (xlog.copy_home ?h ?ns) [0..<m] (disk (cache s2))" if "m \<le> ?n" for m
    using install_phase_run [OF T s2(2) _ that] s2(3) by simp
  have take_c: "xlog.after (take m (map (xlog.copy_home ?h ?ns) [0..<?n])) d = fold (xlog.copy_home ?h ?ns) [0..<m] d"
    if "m \<le> ?n" for m d using that by (simp add: xlog.after_def take_map fold_map comp_def)
  consider (a) "k \<le> ?n" | (b) m where "k = ?n + 1 + m" "m \<le> ?n" | (c) "k = 2 * ?n + 2"
    using k that(2) [of "k - (?n + 1)"] that by (fastforce simp: commit_steps_def)
  then show ?thesis
  proof cases
    case a
    then have "take k (commit_steps me ?n) = map (write_log_one me) [0..<k]" "take k (commit_writes s) = take k ?l"
      by (simp_all add: commit_steps_def w take_map)
    moreover have "k \<noteq> length (commit_steps me ?n)" using a by (simp add: commit_steps_def)
    ultimately show ?thesis using ph1 [OF a] by (auto simp: during_def)
  next
    case b
    then have t: "take k (commit_steps me ?n) = map (write_log_one me) [0..<?n] @ [write_head me] @ map (install_one me) [0..<m]"
      "take k (commit_writes s) = ?l @ [xlog.write_header ?h ?ns] @ take m (map (xlog.copy_home ?h ?ns) [0..<?n])"
      by (simp_all add: commit_steps_def w take_map)
    obtain s3 where "run (map (install_one me) [0..<m]) s2 = Some s3" "during me s s3"
      "disk (cache s3) = fold (xlog.copy_home ?h ?ns) [0..<m] (disk (cache s2))" using ph2 [OF b(2)] by blast
    moreover from this have "rest me (cache s3)" by (simp add: during_def)
    moreover have "k \<noteq> length (commit_steps me ?n)" using b by (simp add: commit_steps_def)
    ultimately show ?thesis
      unfolding t using s1 s2 take_c [OF b(2)] by (auto simp: run_append xlog.after_append) (simp add: xlog.after_def)
  next
    case c
    then have t: "take k (commit_steps me ?n) = map (write_log_one me) [0..<?n] @ [write_head me] @ map (install_one me) [0..<?n] @
        [\<lambda>s. write_head me (s\<lparr>lh := []\<rparr>)]"
      "take k (commit_writes s) = ?l @ [xlog.write_header ?h ?ns] @ map (xlog.copy_home ?h ?ns) [0..<?n] @ [xlog.write_header ?h []]"
      by (simp_all add: commit_steps_def w)
    obtain s3 where s3: "run (map (install_one me) [0..<?n]) s2 = Some s3" "during me s s3" "dirty_blocks (cache s3) = {}"
      "disk (cache s3) = fold (xlog.copy_home ?h ?ns) [0..<?n] (disk (cache s2))" using ph2 [OF order_refl] by auto
    obtain s4 where s4: "write_head me (s3\<lparr>lh := []\<rparr>) = Some s4" "same_log (s3\<lparr>lh := []\<rparr>) s4" "rest me (cache s4)"
      "dirty_blocks (cache s4) = {}" "disk (cache s4) = xlog.write_header ?h [] (disk (cache s3))"
      using clear_head [OF T s3(2,3)] by blast
    have "run (take k (commit_steps me ?n)) s = Some s4" unfolding t using s1(1) s2(1) s3(1) s4(1) by (simp add: run_append)
    moreover have "disk (cache s4) = xlog.after (take k (commit_writes s)) (disk (cache s))"
      unfolding t using s1(4) s2(4) s3(4) s4(5) take_c [of ?n] by (simp add: xlog.after_append) (simp add: xlog.after_def)
    moreover have "same_log (s\<lparr>lh := []\<rparr>) s4" using s3(2) s4(2) by (simp add: during_def same_log_def)
    ultimately show ?thesis using s4(3,4) by blast
  qed
qed

text \<open>\<open>commit\<close> is the run of all the steps.\<close>

lemma lh_kept: "write_log_one me k s = Some s' \<Longrightarrow> lh s' = lh s" "write_head me s = Some s' \<Longrightarrow> lh s' = lh s"
  by (auto simp: write_log_one_def write_head_def Let_def bind_eq_Some_conv)

lemma run_lh_kept: "run (map (write_log_one me) ks) s = Some s' \<Longrightarrow> lh s' = lh s"
  by (induction ks arbitrary: s) (auto simp: bind_eq_Some_conv dest: lh_kept)

lemma commit_run:
  assumes "lh s \<noteq> []"
  shows "commit me s = run (commit_steps me (length (lh s))) s"
proof (cases "run (map (write_log_one me) [0..<length (lh s)]) s")
  case None
  then show ?thesis using assms by (simp add: commit_def commit_steps_def loops_run run_append)
next
  case (Some s1)
  note r1 = Some
  then have 1: "lh s1 = lh s" by (rule run_lh_kept)
  show ?thesis
  proof (cases "write_head me s1")
    case None
    then show ?thesis using assms Some by (simp add: commit_def commit_steps_def loops_run run_append)
  next
    case (Some s2)
    then have 2: "lh s2 = lh s" using lh_kept(2) 1 by simp
    have "run [f] t = f t" for f and t :: log by (cases "f t") simp_all
    then show ?thesis
      using assms Some r1 1 2 by (simp add: commit_def commit_steps_def loops_run run_append del: run.simps(2))
        (cases "run (map (install_one me) [0..<length (lh s)]) s2"; simp add: run_append)
  qed
qed

text \<open>Recovery on a fresh cache.\<close>

lemma recover_spec:
  assumes r: "rest me (cache s)" "dirty_blocks (cache s) = {}" "lg_dev s = 1" and cap: "cap < NBUF"
    and big: "length (disk (cache s)) \<le> 2 ^ 32"
    and lay: "xlog.layout_ok (unat (lg_start s)) cap (header_decode (disk (cache s) ! unat (lg_start s))) (disk (cache s))"
  shows "\<exists>s'. recover_from_log me s = Some s' \<and> same_log (s\<lparr>lh := []\<rparr>) s' \<and> rest me (cache s') \<and> dirty_blocks (cache s') = {} \<and>
    disk (cache s') = xlog.recover (unat (lg_start s)) (disk (cache s))"
proof -
  let ?h = "unat (lg_start s)" and ?d = "disk (cache s)"
  let ?n = "unat (get32 (?d ! ?h) 0)"
  note Y = xlog.layout_okD [OF lay]
  have n: "?n \<le> LOGSIZE" using Y(2) by (simp add: is_block_def)
  have ok: "cache_ok me (cache s)" and lk: "locked_blocks (cache s) = {}" using r(1) by (simp_all add: rest_def)
  have v: "view (cache s) (lg_start s) = ?d ! ?h" using clean_view [OF r(1)] r(2) by simp
  have bound: "unat (lg_start s) < length ?d" using Y(1) by simp
  obtain b c1 where 1: "bread me 1 (lg_start s) (cache s) = Some (b, c1)" "cache_ok me c1" "holds me c1 b (lg_start s)" "disk c1 = ?d"
    "\<And>m. view c1 m = view (cache s) m" "dirty_blocks c1 = {}" "locked_blocks c1 = {lg_start s}"
    using bread_spec [OF ok bound] lk r(2) by (auto simp: NBUF_def MAXOPBLOCKS_def)
  have hd: "b_data (bufs c1 ! b) = ?d ! ?h" using holdsD(5) [OF 1(2,3)] 1(5) v by simp
  obtain c2 where 2: "brelse me b c1 = Some c2" "cache_ok me c2" "disk c2 = ?d" "dirty_blocks c2 = {}" "locked_blocks c2 = {}"
    using brelse_spec [OF 1(2,3)] 1 v by auto
  define s1 where "s1 = s\<lparr>lh := get_words (?d ! ?h) 4 ?n, cache := c2\<rparr>"
  have rd: "read_head me s = Some s1"
    using r(3) 1(1) hd n 2(1) by (simp add: read_head_def s1_def Let_def)
  have dec: "header_decode (?d ! ?h) = map unat (lh s1)" using n by (simp add: header_decode_def s1_def Let_def)
  have T: "transaction me s1 ?h cap (map unat (lh s1))"
    using 2 r(3) cap big lay dec by (simp add: transaction_def s1_def rest_def)
  have d0: "during me s1 s1" by (rule during_start) (use 2 in \<open>simp add: s1_def rest_def\<close>)
  have e0: "dirty_blocks (cache s1) = {}" "disk (cache s1) = ?d" using 2 by (simp_all add: s1_def)
  obtain s2 where s2: "install_trans me s1 = Some s2" "during me s1 s2" "dirty_blocks (cache s2) = {}"
    "disk (cache s2) = fold (xlog.copy_home ?h (map unat (lh s1))) [0..<length (lh s1)] ?d"
    using install_phase_run [OF T d0 _ order_refl] e0 by (auto simp: loops_run)
  obtain s3 where s3: "write_head me (s2\<lparr>lh := []\<rparr>) = Some s3" "same_log (s2\<lparr>lh := []\<rparr>) s3" "rest me (cache s3)"
    "dirty_blocks (cache s3) = {}" "disk (cache s3) = xlog.write_header ?h [] (disk (cache s2))"
    using clear_head [OF T s2(2,3)] by blast
  have "recover_from_log me s = Some s3" using rd s2(1) s3(1) by (simp add: recover_from_log_def)
  moreover have "disk (cache s3) = xlog.recover ?h ?d"
    using s3(5) s2(4) dec by (simp add: xlog.recover_def xlog.install_def)
  moreover have "same_log (s\<lparr>lh := []\<rparr>) s3" using s2(2) s3(2) by (simp add: during_def same_log_def s1_def)
  ultimately show ?thesis using s3(3,4) by blast
qed

section \<open>A boot after a crash\<close>

definition home_block :: "log \<Rightarrow> u32 \<Rightarrow> bool" where
  "home_block s n \<longleftrightarrow> unat n < length (disk (cache s)) \<and>
     (unat n < unat (lg_start s) \<or> unat (lg_start s) + unat (lg_size s) \<le> unat n)"

text \<open>The superblock on the disk agrees with the log that is running, and no transaction writes it.\<close>

definition superblock_ok :: "log \<Rightarrow> bool" where
  "superblock_ok s \<longleftrightarrow> home_block s 1 \<and> 1 \<notin> set (lh s) \<and>
     get32 (disk (cache s) ! 1) 12 = lg_size s \<and> get32 (disk (cache s) ! 1) 16 = lg_start s"

lemma home_blockD:
  assumes "log_ok me s" "home_block s n"
  shows "xlog.home (unat (lg_start s)) (unat (lg_size s) - 1) (unat n)" "unat n < length (disk (cache s))"
  using assms log_okD(5) [OF assms(1)] by (auto simp: home_block_def xlog.home_def)

lemma readsb_spec:
  assumes ok: "rest me c" and d: "dirty_blocks c = {}" "1 < length (disk c)"
  shows "\<exists>sb c'. readsb me 1 c = Some (sb, c') \<and> sb_nlog sb = get32 (disk c ! 1) 12 \<and>
    sb_logstart sb = get32 (disk c ! 1) 16 \<and> rest me c' \<and> dirty_blocks c' = {} \<and> disk c' = disk c"
proof -
  have ok': "cache_ok me c" and l: "locked_blocks c = {}" using ok by (simp_all add: rest_def)
  have v: "view c 1 = disk c ! 1" using clean_view [OF ok] d(1) by simp
  obtain b c1 where 1: "bread me 1 1 c = Some (b, c1)" "cache_ok me c1" "holds me c1 b 1" "disk c1 = disk c"
    "\<And>m. view c1 m = view c m" "dirty_blocks c1 = {}" "locked_blocks c1 = {1}"
    using bread_spec [OF ok', of 1] l d by (auto simp: NBUF_def MAXOPBLOCKS_def)
  have hd: "b_data (bufs c1 ! b) = disk c ! 1" using holdsD(5) [OF 1(2,3)] 1(5) v by simp
  obtain c2 where 2: "brelse me b c1 = Some c2" "cache_ok me c2" "disk c2 = disk c" "dirty_blocks c2 = {}" "locked_blocks c2 = {}"
    using brelse_spec [OF 1(2,3)] 1 v by auto
  then show ?thesis using 1(1) hd by (simp add: readsb_def rest_def Let_def)
qed

lemma boot_rest:
  assumes "\<forall>b \<in> set d. length b = BSIZE"
  shows "rest me (binit (boot_cache d))" "dirty_blocks (binit (boot_cache d)) = {}" "disk (binit (boot_cache d)) = d"
  using boot_cache_ok(1,3) [OF assms] boot_cache_ok(6) [OF assms, OF less_imp_le]
  by (auto simp: rest_def dirty_blocks_def locked_blocks_def)

text \<open>The old and the new contents of a home block, as recovery finds them after \<open>k\<close> writes.\<close>

definition survivor :: "log \<Rightarrow> nat \<Rightarrow> u32 \<Rightarrow> byte list" where
  "survivor s k n = (if length (lh s) < k \<and> n \<in> set (lh s) then view (cache s) n else disk (cache s) ! unat n)"

lemma in_unats: "unat n \<in> set (map unat ns) \<longleftrightarrow> (n :: u32) \<in> set ns"
  by (auto dest: unsigned_word_eqI)

lemma crash_disk:
  assumes ok: "log_ok me s" and k: "k \<le> length (commit_writes s)"
  defines "d \<equiv> xlog.after (take k (commit_writes s)) (disk (cache s))"
  shows "xlog.layout_ok (unat (lg_start s)) (unat (lg_size s) - 1) (header_decode (d ! unat (lg_start s))) d"
    "length d = length (disk (cache s))"
    "home_block s n \<Longrightarrow> xlog.recover (unat (lg_start s)) d ! unat n = survivor s k n"
proof -
  note L = log_okD [OF ok]
  note lay = transactionD(7) [OF log_transaction [OF ok]]
  have h0: "xlog.home (unat (lg_start s)) (unat (lg_size s) - 1) (unat (lg_start s) + unat (lg_size s))"
    using L(5) by (auto simp: xlog.home_def)
  note S = xlog.crash_safe [OF lay L(11) k [unfolded commit_writes_def], folded commit_writes_def, folded d_def]
  show "xlog.layout_ok (unat (lg_start s)) (unat (lg_size s) - 1) (header_decode (d ! unat (lg_start s))) d"
    "length d = length (disk (cache s))" using S(2,3) [OF h0] .
  show "xlog.recover (unat (lg_start s)) d ! unat n = survivor s k n" if h: "home_block s n"
    using S(1) [OF home_blockD(1) [OF ok h]] in_unats [of n "lh s"] by (simp add: survivor_def new_contents_def)
qed

lemma recovered_log_ok:
  assumes ok: "log_ok me s" and s': "lg_start s' = lg_start s" "lg_size s' = lg_size s" "lg_dev s' = 1" "lh s' = []"
    "rest me (cache s')" "dirty_blocks (cache s') = {}" "length (disk (cache s')) = length (disk (cache s))"
    "is_block (disk (cache s') ! unat (lg_start s))" "header_decode (disk (cache s') ! unat (lg_start s)) = []"
  shows "log_ok me s'"
  using log_okD(5-8) [OF ok] s' by (auto simp: log_ok_def)

lemma crash_disk_sb:
  assumes ok: "log_ok me s" and sb: "superblock_ok s"
  shows "xlog.after (take k (commit_writes s)) (disk (cache s)) ! 1 = disk (cache s) ! 1"
proof -
  note T = log_transaction [OF ok]
  have "xlog.home (unat (lg_start s)) (unat (lg_size s) - 1) 1"
    using home_blockD(1) [OF ok, of 1] sb by (simp add: superblock_ok_def)
  moreover have "1 \<notin> set (map unat (lh s))" using in_unats [of 1 "lh s"] sb by (simp add: superblock_ok_def)
  ultimately show ?thesis
    unfolding commit_writes_def using lay_facts(1,3) [OF T] by (intro xlog.untouched) simp_all
qed

lemma reboot_spec:
  assumes ok: "log_ok me s" and sb: "superblock_ok s" and k: "k \<le> length (commit_writes s)"
    and c: "rest me c" "disk c = xlog.after (take k (commit_writes s)) (disk (cache s))"
  shows "\<exists>s'. initlog me 1 (z\<lparr>cache := binit (boot_cache (disk c))\<rparr>) = Some s' \<and> lh s' = [] \<and>
    lg_start s' = lg_start s \<and> lg_size s' = lg_size s \<and> lg_dev s' = 1 \<and> rest me (cache s') \<and> dirty_blocks (cache s') = {} \<and>
    disk (cache s') = xlog.recover (unat (lg_start s)) (disk c)"
proof -
  note L = log_okD [OF ok] and D = crash_disk(1,2) [OF ok k, folded c(2)]
  have blocks: "\<forall>b \<in> set (disk c). length b = BSIZE"
    using c(1) cache_okD(3) by (auto simp: rest_def)
  have one: "1 < length (disk c)" using sb D(2) by (simp add: superblock_ok_def home_block_def)
  have sbs: "get32 (disk c ! 1) 12 = lg_size s" "get32 (disk c ! 1) 16 = lg_start s"
    using crash_disk_sb [OF ok sb] c(2) sb by (simp_all add: superblock_ok_def)
  note B = boot_rest [OF blocks]
  obtain sb' c1 where 1: "readsb me 1 (binit (boot_cache (disk c))) = Some (sb', c1)" "sb_nlog sb' = lg_size s"
    "sb_logstart sb' = lg_start s" "rest me c1" "dirty_blocks c1 = {}" "disk c1 = disk c"
    using readsb_spec [of me, OF B(1,2)] one sbs B(3) by auto
  define s1 where "s1 = z\<lparr>lg_start := lg_start s, lg_size := lg_size s, lg_dev := 1, cache := c1\<rparr>"
  have f: "cache s1 = c1" "lg_start s1 = lg_start s" "lg_size s1 = lg_size s" "lg_dev s1 = 1" by (simp_all add: s1_def)
  have cap: "unat (lg_size s) - 1 < NBUF" using L(6) by (simp add: NBUF_def LOGSIZE_def MAXOPBLOCKS_def)
  have "length (disk c1) \<le> 2 ^ 32" using 1(6) D(2) L(8) by simp
  then obtain s2 where 2: "recover_from_log me s1 = Some s2" "same_log (s1\<lparr>lh := []\<rparr>) s2" "rest me (cache s2)"
    "dirty_blocks (cache s2) = {}" "disk (cache s2) = xlog.recover (unat (lg_start s)) (disk c)"
    using recover_spec [of me s1, OF _ _ _ cap] D(1) 1(4-6) f by auto
  have "initlog me 1 (z\<lparr>cache := binit (boot_cache (disk c))\<rparr>) = Some s2"
    using 1(1-3) 2(1) by (simp add: initlog_def s1_def)
  then show ?thesis using 2 by (auto simp: same_log_def f)
qed

lemma rebooted_log_ok:
  assumes ok: "log_ok me s" and k: "k \<le> length (commit_writes s)"
    and s': "lg_start s' = lg_start s" "lg_size s' = lg_size s" "lg_dev s' = 1" "lh s' = []"
    "rest me (cache s')" "dirty_blocks (cache s') = {}"
    "disk (cache s') = xlog.recover (unat (lg_start s)) (xlog.after (take k (commit_writes s)) (disk (cache s)))"
  shows "log_ok me s'"
proof -
  note D = crash_disk(1,2) [OF ok k]
  note R = xlog.recover_header [OF D(1)]
  show ?thesis using R D(2) s' xlog.recover_valid [OF D(1)] by (intro recovered_log_ok [OF ok]) simp_all
qed

section \<open>A logged update\<close>

lemma log_update:
  assumes "log_ok me s" and "1 \<le> outstanding s" and "home_block s n" and "length d = BSIZE"
    and "length (lh s) + 1 < unat (lg_size s)"
  shows "\<exists>b c1 s2 c3. bread me 1 n (cache s) = Some (b, c1) \<and> b_data (bufs c1 ! b) = view (cache s) n \<and>
    log_write b (s\<lparr>cache := set_buf b (\<lambda>x. x\<lparr>b_data := d\<rparr>) c1\<rparr>) = Some s2 \<and> brelse me b (cache s2) = Some c3 \<and>
    log_ok me (s2\<lparr>cache := c3\<rparr>) \<and> (\<forall>m. view c3 m = (if m = n then d else view (cache s) m)) \<and>
    disk c3 = disk (cache s) \<and> lh s2 = (if n \<in> set (lh s) then lh s else lh s @ [n])"
proof -
  note L = log_okD [OF assms(1)]
  have ok: "cache_ok me (cache s)" and l: "locked_blocks (cache s) = {}" using L(1) by (simp_all add: rest_def)
  have n: "unat n < length (disk (cache s))" using assms(3) by (simp add: home_block_def)
  have "card (set (lh s)) < NBUF"
    using card_length [of "lh s"] L(5,6) by (simp add: NBUF_def LOGSIZE_def MAXOPBLOCKS_def)
  then obtain b c1 where 1: "bread me 1 n (cache s) = Some (b, c1)" "cache_ok me c1" "holds me c1 b n" "disk c1 = disk (cache s)"
    "\<And>m. view c1 m = view (cache s) m" "dirty_blocks c1 = set (lh s)" "locked_blocks c1 = {n}"
    using bread_spec [OF ok n] l L(3) by auto
  define c2 where "c2 = set_buf b (\<lambda>x. x\<lparr>b_data := d\<rparr>) c1"
  note S = set_data_spec [OF 1(2,3) assms(4), folded c2_def]
  define c2' where "c2' = set_buf b (\<lambda>x. x\<lparr>b_dirty := True\<rparr>) c2"
  note D = set_dirty_spec [OF S(1,2), folded c2'_def]
  have sz: "sint (lg_size s) = int (unat (lg_size s))"
  proof -
    have "int (unat (lg_size s)) \<le> 30" using L(6) LOGSIZE_le by linarith
    then show ?thesis by (simp add: sint_u32)
  qed
  have space: "\<not> (LOGSIZE \<le> length (lh s) \<or> sint (lg_size s) - 1 \<le> int (length (lh s)))"
    using assms(5) L(6) unfolding sz by linarith
  obtain s2 where 2: "log_write b (s\<lparr>cache := c2\<rparr>) = Some s2" "cache s2 = c2'" "lg_start s2 = lg_start s"
    "lg_size s2 = lg_size s" "lg_dev s2 = lg_dev s"
    using assms(2) space by (simp add: log_write_def Let_def c2'_def)
  have bn: "b_blockno (bufs c2 ! b) = n" using holdsD(4) [OF S(1,2)] .
  then have lh2: "lh s2 = (if n \<in> set (lh s) then lh s else lh s @ [n])"
    using log_write_blocks [OF 2(1)] by (simp add: Let_def)
  obtain c3 where 3: "brelse me b c2' = Some c3" "cache_ok me c3" "disk c3 = disk (cache s)" "\<And>m. view c3 m = view c2' m"
    "dirty_blocks c3 = insert n (set (lh s))" "locked_blocks c3 = {}"
    using brelse_spec [OF D(1,2)] D(3,5,6) S(3,5,6) 1(4,6,7) by auto
  have "log_ok me (s2\<lparr>cache := c3\<rparr>)"
    using 2(3-5) 3 L lh2 assms(3,5) by (auto simp: log_ok_def rest_def home_block_def)
  then show ?thesis
    using 1(1) 2(1,2) 3(1,3,4) lh2 D(4) S(4) 1(5) holdsD(5) [OF 1(2,3)] unfolding c2_def by auto
qed

section \<open>A concrete log\<close>

text \<open>A disk of 40 zero blocks with the superblock in block 1 and the log in blocks 2 to 31, booted.\<close>

definition demo_disk :: "byte list list" where
  "demo_disk = (replicate 40 (replicate BSIZE 0))[1 := put32 (put32 (replicate BSIZE 0) 12 30) 16 2]"

definition demo_log :: log where
  "demo_log = \<lparr>lg_start = 2, lg_size = 30, lg_dev = 1, outstanding = 1, committing = False, lh = [],
     cache = binit (boot_cache demo_disk)\<rparr>"

lemma demo_disk_blocks: "length demo_disk = 40" "\<forall>b \<in> set demo_disk. length b = BSIZE"
  "n < 40 \<Longrightarrow> n \<noteq> 1 \<Longrightarrow> demo_disk ! n = replicate BSIZE 0"
  "get32 (demo_disk ! 1) 12 = 30" "get32 (demo_disk ! 1) 16 = 2"
proof -
  have l: "length (put32 (put32 (replicate BSIZE 0) 12 30) 16 2) = BSIZE" by (simp add: BSIZE_def)
  show "length demo_disk = 40" "n < 40 \<Longrightarrow> n \<noteq> 1 \<Longrightarrow> demo_disk ! n = replicate BSIZE 0" for n
    by (simp_all add: demo_disk_def)
  show "\<forall>b \<in> set demo_disk. length b = BSIZE"
    using l set_update_subset_insert unfolding demo_disk_def by fastforce
  show "get32 (demo_disk ! 1) 12 = 30" "get32 (demo_disk ! 1) 16 = 2"
    by (simp_all add: demo_disk_def BSIZE_def layout_simps)
qed

lemma demo_log_ok: "log_ok me demo_log" "superblock_ok demo_log"
proof -
  note B = boot_rest [OF demo_disk_blocks(2)]
  have z: "get32 (replicate BSIZE 0) 0 = 0" by (simp add: layout_simps BSIZE_def)
  then have "header_decode (demo_disk ! 2) = []" "is_block (demo_disk ! 2)"
    by (simp_all add: demo_disk_blocks header_decode_def is_block_def get_words_def)
  then show "log_ok me demo_log"
    using B demo_disk_blocks(1) by (simp add: log_ok_def demo_log_def LOGSIZE_def MAXOPBLOCKS_def)
  show "superblock_ok demo_log"
    using B demo_disk_blocks by (simp add: superblock_ok_def home_block_def demo_log_def)
qed

text \<open>One update in a transaction: block 35 is set to sevens.\<close>

lemma demo_update: "\<exists>s. log_ok 5 s \<and> superblock_ok s \<and> lh s = [35] \<and> outstanding s = 1 \<and> \<not> committing s \<and>
  home_block s 35 \<and> view (cache s) 35 = replicate BSIZE 7 \<and> disk (cache s) ! 35 = replicate BSIZE 0"
proof -
  note B = boot_rest [OF demo_disk_blocks(2)]
  have h: "home_block demo_log 35" "1 \<le> outstanding demo_log" "length (lh demo_log) + 1 < unat (lg_size demo_log)"
    using B demo_disk_blocks(1) by (simp_all add: home_block_def demo_log_def)
  obtain b c1 s2 c3 where u: "log_write b (demo_log\<lparr>cache := set_buf b (\<lambda>x. x\<lparr>b_data := replicate BSIZE 7\<rparr>) c1\<rparr>) = Some s2"
    "log_ok 5 (s2\<lparr>cache := c3\<rparr>)" "view c3 35 = replicate BSIZE 7" "disk c3 = disk (cache demo_log)" "lh s2 = [35]"
    using log_update [OF demo_log_ok(1) h(2,1) _ h(3), of "replicate BSIZE 7" 5] by (auto simp: demo_log_def)
  have "lg_start s2 = 2" "lg_size s2 = 30" "outstanding s2 = 1" "\<not> committing s2"
    using u(1) by (auto simp: log_write_def demo_log_def Let_def split: if_splits)
  then show ?thesis
    using u demo_log_ok(2) demo_disk_blocks(1) demo_disk_blocks(3) [of 35] B(3)
    by (intro exI [of _ "s2\<lparr>cache := c3\<rparr>"]) (simp add: superblock_ok_def home_block_def demo_log_def)
qed

lemma end_op_run:
  assumes "log_ok me s" and "outstanding s = 1" and "\<not> committing s"
  shows "\<exists>s'. end_op me s = Some s' \<and> log_ok me s' \<and> lh s' = [] \<and> outstanding s' = 0 \<and> \<not> committing s' \<and>
    (\<forall>n. home_block s n \<longrightarrow> view (cache s') n = view (cache s) n \<and> disk (cache s') ! unat n = view (cache s) n) \<and>
    lg_size s' = lg_size s \<and> length (disk (cache s')) = length (disk (cache s))"
proof -
  let ?s = "s\<lparr>outstanding := 0, committing := True\<rparr>"
  have start: "end_op_start s = Some (True, ?s)" using assms(2,3) by (simp add: end_op_start_def Let_def)
  have ok: "log_ok me ?s" using assms(1) by (simp add: log_ok_def)
  note L = log_okD [OF ok]
  show ?thesis
  proof (cases "lh s = []")
    case True
    then have "view (cache s) n = disk (cache s) ! unat n" for n using clean_view [OF L(1)] L(3) by simp
    moreover have "log_ok me (s\<lparr>outstanding := 0, committing := False\<rparr>)" using assms(1) by (simp add: log_ok_def)
    moreover have "end_op me s = Some (s\<lparr>outstanding := 0, committing := False\<rparr>)"
      using start True by (simp add: end_op_def commit_def)
    ultimately show ?thesis using True by simp
  next
    case False
    let ?k = "length (commit_steps me (length (lh ?s)))"
    have k: "?k = length (commit_writes ?s)" by (simp add: commit_steps_def commit_writes_def xlog.writes_of_def)
    obtain s1 where 1: "commit me ?s = Some s1" "same_log (?s\<lparr>lh := []\<rparr>) s1" "rest me (cache s1)" "dirty_blocks (cache s1) = {}"
      "disk (cache s1) = xlog.after (commit_writes ?s) (disk (cache s))"
      using commit_prefix [OF ok order_refl] commit_run [of ?s me] False k by auto
    note lay = transactionD(7) [OF log_transaction [OF ok]]
    note W = xlog.all_written [OF lay L(11), where new = "new_contents ?s", folded commit_writes_def]
    have d: "disk (cache s1) ! unat n = view (cache s) n" if "home_block s n" for n
    proof -
      have h: "home_block ?s n" using that by (simp add: home_block_def)
      have "n \<notin> dirty_blocks (cache s) \<Longrightarrow> view (cache s) n = disk (cache s) ! unat n" using clean_view [OF L(1)] by simp
      then show ?thesis
        using W(4) [OF home_blockD(1) [OF ok h]] in_unats [of n "lh s"] L(3) 1(5) by (auto simp: new_contents_def)
    qed
    have "log_ok me s1"
      using 1 W L(2) by (intro recovered_log_ok [OF ok]) (simp_all add: same_log_def)
    then have "log_ok me (s1\<lparr>committing := False\<rparr>)" by (simp add: log_ok_def)
    moreover have "end_op me s = Some (s1\<lparr>committing := False\<rparr>)" using start 1(1) by (simp add: end_op_def)
    ultimately show ?thesis using d 1(2,5) W clean_view [OF 1(3)] 1(4) by (auto simp: same_log_def)
  qed
qed

section \<open>Properties\<close>

text \<open>C1: the log makes a transaction atomic. \<open>commit\<close> is its disk writes in order; stop the machine after any of the disk writes of a commit
  and boot again, with a fresh cache and whatever the memory held: \<open>initlog\<close> succeeds, the log is
  empty and well formed, and every block outside the log is as it was before the transaction if the
  header had not been written, and as the transaction left it from then on.\<close>

theorem log_crash_safe:
  assumes "log_ok me s" and "superblock_ok s" and "k \<le> length (commit_steps me (length (lh s)))"
  shows "commit me s = (if lh s = [] then Some s else run (commit_steps me (length (lh s))) s) \<and>
   (\<exists>s1 s2. run (take k (commit_steps me (length (lh s)))) s = Some s1 \<and>
    initlog me 1 (z\<lparr>cache := binit (boot_cache (disk (cache s1)))\<rparr>) = Some s2 \<and> log_ok me s2 \<and> lh s2 = [] \<and>
    (\<forall>n. home_block s n \<longrightarrow> view (cache s2) n =
       (if length (lh s) < k \<and> n \<in> set (lh s) then view (cache s) n else disk (cache s) ! unat n)))"
proof -
  have c: "commit me s = (if lh s = [] then Some s else run (commit_steps me (length (lh s))) s)"
    using commit_run [of s me] by (simp add: commit_def)
  have k: "k \<le> length (commit_writes s)" using assms(3) by (simp add: commit_steps_def commit_writes_def xlog.writes_of_def)
  obtain s1 where 1: "run (take k (commit_steps me (length (lh s)))) s = Some s1" "rest me (cache s1)"
    "disk (cache s1) = xlog.after (take k (commit_writes s)) (disk (cache s))"
    using commit_prefix [OF assms(1,3)] by blast
  obtain s2 where 2: "initlog me 1 (z\<lparr>cache := binit (boot_cache (disk (cache s1)))\<rparr>) = Some s2" "lh s2 = []"
    "lg_start s2 = lg_start s" "lg_size s2 = lg_size s" "lg_dev s2 = 1" "rest me (cache s2)" "dirty_blocks (cache s2) = {}"
    "disk (cache s2) = xlog.recover (unat (lg_start s)) (disk (cache s1))"
    using reboot_spec [OF assms(1,2) k 1(2,3)] by blast
  have "view (cache s2) n = survivor s k n" if "home_block s n" for n
    using crash_disk(3) [OF assms(1) k that] clean_view [OF 2(6)] 2(7,8) 1(3) by simp
  moreover have "log_ok me s2" by (rule rebooted_log_ok [OF assms(1) k 2(3-5,2,6,7)]) (simp add: 2(8) 1(3))
  ultimately show ?thesis unfolding survivor_def using c 1(1) 2(1,2) by blast
qed

theorem log_crash_safe_witness:
  "\<exists>s s1 s2 t1 t2. log_ok 5 s \<and> view (cache s) 35 = replicate BSIZE 7 \<and> disk (cache s) ! 35 = replicate BSIZE 0 \<and>
    run (take 1 (commit_steps 5 1)) s = Some s1 \<and>
    initlog 5 1 (demo_log\<lparr>cache := binit (boot_cache (disk (cache s1)))\<rparr>) = Some s2 \<and> view (cache s2) 35 = replicate BSIZE 0 \<and>
    run (take 2 (commit_steps 5 1)) s = Some t1 \<and>
    initlog 5 1 (demo_log\<lparr>cache := binit (boot_cache (disk (cache t1)))\<rparr>) = Some t2 \<and> view (cache t2) 35 = replicate BSIZE 7"
proof -
  obtain s where s: "log_ok 5 s" "superblock_ok s" "lh s = [35]" "home_block s 35" "view (cache s) 35 = replicate BSIZE 7"
    "disk (cache s) ! 35 = replicate BSIZE 0" using demo_update by blast
  have k: "1 \<le> length (commit_steps 5 (length (lh s)))" "2 \<le> length (commit_steps 5 (length (lh s)))"
    by (simp_all add: commit_steps_def)
  show ?thesis
    using log_crash_safe [OF s(1,2) k(1), of demo_log] log_crash_safe [OF s(1,2) k(2), of demo_log] s by fastforce
qed

text \<open>The last \<open>end_op\<close> commits: every block outside the log keeps the contents its readers saw,
  they are now on the disk as well, and the log is empty.\<close>

theorem end_op_commits:
  assumes "log_ok me s" and "outstanding s = 1" and "\<not> committing s"
  shows "\<exists>s'. end_op me s = Some s' \<and> log_ok me s' \<and> lh s' = [] \<and> outstanding s' = 0 \<and> \<not> committing s' \<and>
    (\<forall>n. home_block s n \<longrightarrow> view (cache s') n = view (cache s) n \<and> disk (cache s') ! unat n = view (cache s) n)"
  using end_op_run [OF assms] by blast

theorem end_op_commits_witness:
  "\<exists>s s'. log_ok 5 s \<and> disk (cache s) ! 35 = replicate BSIZE 0 \<and> end_op 5 s = Some s' \<and> lh s' = [] \<and>
    disk (cache s') ! 35 = replicate BSIZE 7"
proof -
  obtain s where s: "log_ok 5 s" "outstanding s = 1" "\<not> committing s" "home_block s 35" "view (cache s) 35 = replicate BSIZE 7"
    "disk (cache s) ! 35 = replicate BSIZE 0" using demo_update by blast
  then show ?thesis using end_op_commits [OF s(1-3)] by fastforce
qed

text \<open>C2: inside a transaction the sequence \<open>bread\<close>, change of the data, \<open>log_write\<close>, \<open>brelse\<close> makes the
  new contents visible to every later reader, changes no other block and nothing on the disk, adds the
  block to the transaction once, and keeps the log well formed.\<close>

theorem logged_update:
  assumes "log_ok me s" and "1 \<le> outstanding s" and "home_block s n" and "length d = BSIZE"
    and "length (lh s) + 1 < unat (lg_size s)"
  shows "\<exists>b c1 s2 c3. bread me 1 n (cache s) = Some (b, c1) \<and> b_data (bufs c1 ! b) = view (cache s) n \<and>
    log_write b (s\<lparr>cache := set_buf b (\<lambda>x. x\<lparr>b_data := d\<rparr>) c1\<rparr>) = Some s2 \<and> brelse me b (cache s2) = Some c3 \<and>
    log_ok me (s2\<lparr>cache := c3\<rparr>) \<and> (\<forall>m. view c3 m = (if m = n then d else view (cache s) m)) \<and>
    disk c3 = disk (cache s) \<and> lh s2 = (if n \<in> set (lh s) then lh s else lh s @ [n])"
  using assms by (rule log_update)

theorem logged_update_witness:
  "\<exists>b c1. bread 5 1 35 (cache demo_log) = Some (b, c1) \<and> b_data (bufs c1 ! b) = replicate BSIZE 0"
proof -
  note B = boot_rest [OF demo_disk_blocks(2)]
  have h: "home_block demo_log 35" "1 \<le> outstanding demo_log" "length (lh demo_log) + 1 < unat (lg_size demo_log)"
    "length (replicate BSIZE (7 :: byte)) = BSIZE"
    using B demo_disk_blocks(1) by (simp_all add: home_block_def demo_log_def)
  have "view (cache demo_log) 35 = replicate BSIZE 0"
    using clean_view [OF B(1)] B(2,3) demo_disk_blocks(3) by (simp add: demo_log_def)
  then show ?thesis using logged_update [OF demo_log_ok(1) h(2,1,4,3), of 5] by auto
qed

text \<open>C22: \<open>begin_op\<close> reserves one block too many. With the log of 30 blocks that \<open>mkfs\<close> makes it admits
  three operations of \<open>MAXOPBLOCKS\<close> blocks each, and no fourth; but \<open>log_write\<close> panics when 29 blocks are
  in the transaction, even for a block that is already one of them.\<close>

theorem log_reservation_one_short:
  "\<not> committing s \<and> outstanding s = 0 \<and> lh s = [] \<and> lg_size s = 30 \<longrightarrow>
    do { s \<leftarrow> begin_op s; s \<leftarrow> begin_op s; begin_op s } = Some (s\<lparr>outstanding := 3\<rparr>) \<and>
    begin_op (s\<lparr>outstanding := 3\<rparr>) = None \<and>
    (\<forall>bs b. length bs < 3 * MAXOPBLOCKS \<longrightarrow>
      log_write b (s\<lparr>outstanding := 3, lh := bs\<rparr>) = None \<longleftrightarrow> length bs = 29)"
  by (auto simp: begin_op_def log_write_def LOGSIZE_def MAXOPBLOCKS_def Let_def)

theorem log_reservation_one_short_witness:
  "log_write 0 (demo_log\<lparr>outstanding := 0, outstanding := 3, lh := replicate 29 35\<rparr>) = None"
  using log_reservation_one_short [of "demo_log\<lparr>outstanding := 0\<rparr>"]
  by (auto simp: demo_log_def MAXOPBLOCKS_def)

end
