(* ===== verification/BlockIO.thy ===== *)
theory BlockIO
  imports LogSafety
begin

text \<open>
  The disk as the file system sees it: block contents by number, the blocks it holds locked, and the
  blocks of the running transaction. \<open>get_block\<close>, \<open>log_block\<close> and \<open>put_block\<close> stand for the calls
  \<open>bread\<close>, change of the data followed by \<open>log_write\<close>, and \<open>brelse\<close> of \<open>fs.c\<close>; the second section
  proves that the buffer cache and the log of \<open>Bio\<close> and \<open>Log\<close> implement them.
\<close>

section \<open>The interface\<close>

record blockdev =
  blocks :: "byte list list"
  held :: "u32 list"
  logged :: "u32 list"
  log_capacity :: u32
  ops :: int

text \<open>\<open>None\<close>: a panic of the cache or of the log, or the caller would wait for itself.\<close>

definition get_block :: "u32 \<Rightarrow> u32 \<Rightarrow> 'a blockdev_scheme \<Rightarrow> (byte list \<times> 'a blockdev_scheme) option" where
  "get_block dev n s =
     (if dev \<noteq> 1 \<or> length (blocks s) \<le> unat n \<or> n \<in> set (held s) then None
      else if n \<notin> set (logged s) \<and> NBUF \<le> card (set (logged s) \<union> set (held s)) then None
      else Some (blocks s ! unat n, s\<lparr>held := n # held s\<rparr>))"

definition log_block :: "u32 \<Rightarrow> byte list \<Rightarrow> 'a blockdev_scheme \<Rightarrow> 'a blockdev_scheme option" where
  "log_block n d s =
     (if n \<notin> set (held s) then None
      else if LOGSIZE \<le> length (logged s) \<or> sint (log_capacity s) - 1 \<le> int (length (logged s)) then None
      else if ops s < 1 then None
      else Some (s\<lparr>blocks := (blocks s)[unat n := d],
        logged := (if n \<in> set (logged s) then logged s else logged s @ [n])\<rparr>))"

definition put_block :: "u32 \<Rightarrow> 'a blockdev_scheme \<Rightarrow> 'a blockdev_scheme option" where
  "put_block n s = (if n \<notin> set (held s) then None else Some (s\<lparr>held := removeAll n (held s)\<rparr>))"

text \<open>\<open>begin_op\<close> and \<open>end_op\<close>: the last \<open>end_op\<close> commits, which empties the transaction. \<open>None\<close>: the
  caller of \<open>begin_op\<close> sleeps.\<close>

definition begin_tx :: "'a blockdev_scheme \<Rightarrow> 'a blockdev_scheme option" where
  "begin_tx s =
     (if int (length (logged s)) + (ops s + 1) * int MAXOPBLOCKS > int LOGSIZE then None
      else Some (s\<lparr>ops := ops s + 1\<rparr>))"

definition end_tx :: "'a blockdev_scheme \<Rightarrow> 'a blockdev_scheme" where
  "end_tx s = (let s = s\<lparr>ops := ops s - 1\<rparr> in if ops s = 0 then s\<lparr>logged := []\<rparr> else s)"

section \<open>The cache and the log implement it\<close>

text \<open>The correspondence: \<open>bufs_of\<close> gives the buffer that holds each locked block.\<close>

definition implements :: "u32 \<Rightarrow> (u32 \<Rightarrow> nat) \<Rightarrow> log \<Rightarrow> 'a blockdev_scheme \<Rightarrow> bool" where
  "implements me bufs_of l s \<longleftrightarrow>
     cache_ok me (cache l) \<and> lg_dev l = 1 \<and> dirty_blocks (cache l) = set (lh l) \<and> locked_blocks (cache l) = set (held s) \<and>
     (\<forall>n \<in> set (held s). holds me (cache l) (bufs_of n) n) \<and>
     (\<forall>n. n \<notin> set (lh l) \<longrightarrow> view (cache l) n = disk (cache l) ! unat n) \<and>
     length (disk (cache l)) = length (blocks s) \<and> (\<forall>n. unat n < length (blocks s) \<longrightarrow> view (cache l) n = blocks s ! unat n) \<and>
     lh l = logged s \<and> lg_size l = log_capacity s \<and> outstanding l = ops s"

lemma implementsD:
  assumes "implements me f l s"
  shows "cache_ok me (cache l)" "lg_dev l = 1" "dirty_blocks (cache l) = set (logged s)" "locked_blocks (cache l) = set (held s)"
    "n \<in> set (held s) \<Longrightarrow> holds me (cache l) (f n) n" "length (disk (cache l)) = length (blocks s)"
    "unat n < length (blocks s) \<Longrightarrow> view (cache l) n = blocks s ! unat n"
    "n \<notin> set (logged s) \<Longrightarrow> view (cache l) n = disk (cache l) ! unat n"
    "lh l = logged s" "lg_size l = log_capacity s" "outstanding l = ops s"
  using assms by (simp_all add: implements_def)

lemma get_block_refined:
  assumes R: "implements me f l s" and g: "get_block dev n s = Some (d, s')"
  shows "\<exists>b c. bread me dev n (cache l) = Some (b, c) \<and> b_data (bufs c ! b) = d \<and>
    implements me (f(n := b)) (l\<lparr>cache := c\<rparr>) s'"
proof -
  note I = implementsD [OF R]
  have g': "dev = 1" "unat n < length (blocks s)" "n \<notin> set (held s)" "d = blocks s ! unat n" "s' = s\<lparr>held := n # held s\<rparr>"
    "n \<in> set (logged s) \<or> card (set (logged s) \<union> set (held s)) < NBUF"
    using g by (auto simp: get_block_def split: if_splits)
  obtain b c where b: "bread me 1 n (cache l) = Some (b, c)" "cache_ok me c" "holds me c b n" "disk c = disk (cache l)"
    "\<And>m. view c m = view (cache l) m" "dirty_blocks c = set (logged s)" "locked_blocks c = insert n (set (held s))"
    "\<And>j m. holds me (cache l) j m \<Longrightarrow> j \<noteq> b \<and> holds me c j m"
    using bread_spec [OF I(1), of n] g'(2,3,6) I(3,4,6) by auto
  have "b_data (bufs c ! b) = d" using holdsD(5) [OF b(2,3)] b(5) I(7) [OF g'(2)] g'(4) by simp
  moreover have "implements me (f(n := b)) (l\<lparr>cache := c\<rparr>) s'"
    using I b(2-8) g'(2,3,5) unfolding implements_def by simp
  ultimately show ?thesis using b(1) g'(1) by blast
qed

lemma log_block_refined:
  assumes R: "implements me f l s" and g: "log_block n d s = Some s'" and d: "length d = BSIZE"
  shows "\<exists>l'. log_write (f n) (l\<lparr>cache := set_buf (f n) (\<lambda>x. x\<lparr>b_data := d\<rparr>) (cache l)\<rparr>) = Some l' \<and> implements me f l' s'"
proof -
  note I = implementsD [OF R]
  have g': "n \<in> set (held s)" "\<not> LOGSIZE \<le> length (logged s)" "\<not> sint (log_capacity s) - 1 \<le> int (length (logged s))" "\<not> ops s < 1"
    "s' = s\<lparr>blocks := (blocks s)[unat n := d], logged := (if n \<in> set (logged s) then logged s else logged s @ [n])\<rparr>"
    using g by (auto simp: log_block_def split: if_splits)
  note h = I(5) [OF g'(1)]
  define c where "c = set_buf (f n) (\<lambda>x. x\<lparr>b_data := d\<rparr>) (cache l)"
  note S = set_data_spec [OF I(1) h d, folded c_def]
  define c' where "c' = set_buf (f n) (\<lambda>x. x\<lparr>b_dirty := True\<rparr>) c"
  note D = set_dirty_spec [OF S(1,2), folded c'_def]
  have n: "unat n < length (blocks s)" using holdsD(6) [OF I(1) h] I(6) by simp
  obtain l' where l': "log_write (f n) (l\<lparr>cache := c\<rparr>) = Some l'" "cache l' = c'" "lg_size l' = lg_size l" "lg_dev l' = lg_dev l"
    "outstanding l' = outstanding l"
    using g'(2-4) I(9-11) by (simp add: log_write_def Let_def c'_def)
  have "b_blockno (bufs c ! f n) = n" using holdsD(4) [OF S(1,2)] .
  then have lh': "lh l' = (if n \<in> set (logged s) then logged s else logged s @ [n])"
    using log_write_blocks [OF l'(1)] I(9) by (simp add: Let_def)
  have "implements me f l' s'"
    unfolding implements_def
  proof (intro conjI allI ballI impI)
    show "holds me (cache l') (f m) m" if "m \<in> set (held s')" for m
      using that g'(5) D(7) [OF S(7)] I(5) l'(2) by simp
    show "view (cache l') m = disk (cache l') ! unat m" if "m \<notin> set (lh l')" for m
      using that lh' D(3,4) S(3,4) I(8) [of m] l'(2) by (auto split: if_splits)
    show "view (cache l') m = blocks s' ! unat m" if "unat m < length (blocks s')" for m
      using that D(4) S(4) I(7) [of m] l'(2) g'(5) n by (auto simp: nth_update_if dest: unsigned_word_eqI)
  qed (use l' lh' D S I g'(5) in auto)
  then show ?thesis using l'(1) c_def by blast
qed

lemma put_block_refined:
  assumes R: "implements me f l s" and g: "put_block n s = Some s'"
  shows "\<exists>c. brelse me (f n) (cache l) = Some c \<and> implements me f (l\<lparr>cache := c\<rparr>) s'"
proof -
  note I = implementsD [OF R]
  have g': "n \<in> set (held s)" "s' = s\<lparr>held := removeAll n (held s)\<rparr>"
    using g by (auto simp: put_block_def split: if_splits)
  note h = I(5) [OF g'(1)]
  have "n \<in> dirty_blocks (cache l) \<or> view (cache l) n = disk (cache l) ! unat n" using I(3,8) by blast
  from brelse_spec [OF I(1) h this] obtain c where c: "brelse me (f n) (cache l) = Some c" "cache_ok me c" "disk c = disk (cache l)" "\<And>m. view c m = view (cache l) m"
    "dirty_blocks c = set (logged s)" "locked_blocks c = set (held s) - {n}"
    "\<And>j m. holds me (cache l) j m \<Longrightarrow> j \<noteq> f n \<Longrightarrow> holds me c j m"
    using I(3,4) by auto
  have "holds me c (f m) m" if "m \<in> set (held s)" "m \<noteq> n" for m
    using c(7) [OF I(5) [OF that(1)]] that holdsD(4) [OF I(1) I(5) [OF that(1)]] holdsD(4) [OF I(1) h] by metis
  then have "implements me f (l\<lparr>cache := c\<rparr>) s'"
    using I c(2-6) g'(2) unfolding implements_def by auto
  then show ?thesis using c(1) by blast
qed

lemma begin_tx_refined:
  assumes R: "implements me f l s" and g: "begin_tx s = Some s'" and c: "\<not> committing l"
  shows "\<exists>l'. begin_op l = Some l' \<and> implements me f l' s'"
  using g c implementsD(9,11) [OF R] R by (auto simp: begin_tx_def begin_op_def implements_def split: if_splits)

text \<open>The commit changes the disk's log region as well, which no file lies in: \<open>B\<close> is the disk after it.\<close>

lemma end_tx_refined:
  assumes R: "implements me f l s" and ok: "log_ok me l" and c: "\<not> committing l" and o: "1 \<le> ops s" and h: "held s = []"
  shows "\<exists>l' B. end_op me l = Some l' \<and> implements me f l' ((end_tx s)\<lparr>blocks := B\<rparr>) \<and> length B = length (blocks s) \<and>
    \<not> committing l' \<and> (\<forall>n. home_block l n \<longrightarrow> B ! unat n = blocks s ! unat n)"
proof (cases "ops s = 1")
  case True
  note I = implementsD [OF R]
  obtain l' where l': "end_op me l = Some l'" "log_ok me l'" "lh l' = []" "outstanding l' = 0" "\<not> committing l'"
    "\<And>n. home_block l n \<Longrightarrow> view (cache l') n = view (cache l) n" "lg_size l' = lg_size l"
    "length (disk (cache l')) = length (disk (cache l))"
    using end_op_run [OF ok _ c] I(11) True by metis
  define B where "B = map (\<lambda>k. view (cache l') (of_nat k)) [0..<length (blocks s)]"
  have B: "view (cache l') n = B ! unat n" if "unat n < length (blocks s)" for n using that by (simp add: B_def)
  note L = log_okD [OF l'(2)]
  have "implements me f l' ((end_tx s)\<lparr>blocks := B\<rparr>)"
    using L l'(3,4,7,8) I h True B clean_view [OF L(1)]
    by (auto simp: implements_def end_tx_def rest_def B_def log_ok_def)
  moreover have "B ! unat n = blocks s ! unat n" if "home_block l n" for n
    using B [of n] l'(6) [OF that] I(6) I(7) [of n] that by (simp add: home_block_def)
  moreover have "length B = length (blocks s)" by (simp add: B_def)
  ultimately show ?thesis using l'(1,5) by blast
next
  case False
  then have "end_op me l = Some (l\<lparr>outstanding := outstanding l - 1\<rparr>)"
    using implementsD(11) [OF R] c by (simp add: end_op_def end_op_start_def)
  moreover have "implements me f (l\<lparr>outstanding := outstanding l - 1\<rparr>) ((end_tx s)\<lparr>blocks := blocks s\<rparr>)"
    using R False by (simp add: implements_def end_tx_def)
  ultimately show ?thesis using c by auto
qed

section \<open>Property\<close>

text \<open>C3: the buffer cache and the log implement the interface that the file system uses. Whenever the
  cache and log in memory correspond to a state of the interface, each of its operations is performed
  by the calls \<open>bread\<close>, change of the data and \<open>log_write\<close>, \<open>brelse\<close>, \<open>begin_op\<close> and \<open>end_op\<close>, which
  succeed, deliver the same data and lead to corresponding states again; the commit in \<open>end_op\<close> changes
  no block outside of the log.\<close>

theorem block_interface_implemented:
  assumes "implements me f l s"
  shows "(get_block dev n s = Some (d, s1) \<longrightarrow>
      (\<exists>b c. bread me dev n (cache l) = Some (b, c) \<and> b_data (bufs c ! b) = d \<and> implements me (f(n := b)) (l\<lparr>cache := c\<rparr>) s1)) \<and>
    (log_block n d s = Some s2 \<and> length d = BSIZE \<longrightarrow>
      (\<exists>l2. log_write (f n) (l\<lparr>cache := set_buf (f n) (\<lambda>x. x\<lparr>b_data := d\<rparr>) (cache l)\<rparr>) = Some l2 \<and> implements me f l2 s2)) \<and>
    (put_block n s = Some s3 \<longrightarrow> (\<exists>c. brelse me (f n) (cache l) = Some c \<and> implements me f (l\<lparr>cache := c\<rparr>) s3)) \<and>
    (begin_tx s = Some s4 \<and> \<not> committing l \<longrightarrow> (\<exists>l4. begin_op l = Some l4 \<and> implements me f l4 s4)) \<and>
    (log_ok me l \<and> \<not> committing l \<and> 1 \<le> ops s \<and> held s = [] \<longrightarrow>
      (\<exists>l5 B. end_op me l = Some l5 \<and> implements me f l5 ((end_tx s)\<lparr>blocks := B\<rparr>) \<and> length B = length (blocks s) \<and>
        (\<forall>m. home_block l m \<longrightarrow> B ! unat m = blocks s ! unat m)))"
  using get_block_refined [OF assms] log_block_refined [OF assms] put_block_refined [OF assms] begin_tx_refined [OF assms]
    end_tx_refined [OF assms] by blast

theorem block_interface_implemented_witness:
  "\<exists>b c. bread 5 1 35 (cache demo_log) = Some (b, c) \<and> b_data (bufs c ! b) = replicate BSIZE 0"
proof -
  let ?s = "\<lparr>blocks = demo_disk, held = [], logged = [], log_capacity = 30, ops = 1\<rparr>"
  note B = boot_rest [OF demo_disk_blocks(2)]
  have R: "implements 5 f demo_log ?s" for f
    using B clean_view [OF B(1)] by (simp add: implements_def demo_log_def rest_def)
  have "get_block 1 35 ?s = Some (replicate BSIZE 0, ?s\<lparr>held := [35]\<rparr>)"
    using demo_disk_blocks(1) demo_disk_blocks(3) [of 35] by (simp add: get_block_def NBUF_def MAXOPBLOCKS_def)
  then show ?thesis using block_interface_implemented [OF R, of 1 35] by blast
qed

end
