(* ===== verification/Fs.thy ===== *)
theory Fs
  imports BlockIO
begin

text \<open>
  The file system (\<open>fs.c\<close>) on the interface of \<open>BlockIO\<close>: block allocator, inodes, file contents,
  directories and path names. An inode in memory is its index in \<open>icache\<close>; a block number is a
  \<open>u32\<close>. \<open>None\<close> is a panic, or that the caller sleeps for ever.
\<close>

section \<open>State\<close>

definition NDIRECT :: nat where "NDIRECT = 12"
definition NINDIRECT :: nat where "NINDIRECT = BSIZE div 4"
definition MAXFILE :: nat where "MAXFILE = NDIRECT + NINDIRECT"
definition IPB :: nat where "IPB = BSIZE div 64"
definition BPB :: nat where "BPB = BSIZE * 8"
definition DIRSIZ :: nat where "DIRSIZ = 14"
definition NINODE :: nat where "NINODE = 50"
definition NDEV :: nat where "NDEV = 10"
definition ROOTDEV :: u32 where "ROOTDEV = 1"
definition ROOTINO :: u32 where "ROOTINO = 1"
definition T_DIR :: u16 where "T_DIR = 1"
definition T_FILE :: u16 where "T_FILE = 2"
definition T_DEV :: u16 where "T_DEV = 3"

record inode =
  i_dev :: u32
  i_inum :: u32
  i_ref :: int
  i_lock :: sleeplock
  i_valid :: bool
  i_type :: u16
  i_major :: u16
  i_minor :: u16
  i_nlink :: u16
  i_size :: u32
  i_addrs :: "u32 list"

record fs = blockdev +
  sb :: superblock
  icache :: "inode list"

definition set_inode :: "nat \<Rightarrow> (inode \<Rightarrow> inode) \<Rightarrow> 'a fs_scheme \<Rightarrow> 'a fs_scheme" where
  "set_inode i f s = s\<lparr>icache := (icache s)[i := f (icache s ! i)]\<rparr>"

text \<open>Devices: the tables of functions \<open>devsw\<close>, on the whole state.\<close>

record 's devsw =
  dev_read :: "(nat \<Rightarrow> u32 \<Rightarrow> 's \<Rightarrow> (int \<times> byte list \<times> 's) option) option"
  dev_write :: "(nat \<Rightarrow> byte list \<Rightarrow> 's \<Rightarrow> (int \<times> 's) option) option"

definition IBLOCK :: "u32 \<Rightarrow> superblock \<Rightarrow> u32" where
  "IBLOCK i b = i div of_nat IPB + sb_inodestart b"

definition BBLOCK :: "u32 \<Rightarrow> superblock \<Rightarrow> u32" where
  "BBLOCK n b = n div of_nat BPB + sb_bmapstart b"

section \<open>Blocks\<close>

definition bzero :: "u32 \<Rightarrow> u32 \<Rightarrow> 'a fs_scheme \<Rightarrow> 'a fs_scheme option" where
  "bzero dev bno s = do {
     (_, s) \<leftarrow> get_block dev bno s;
     s \<leftarrow> log_block bno (replicate BSIZE 0) s;
     put_block bno s
   }"

definition bit_mask :: "nat \<Rightarrow> byte" where
  "bit_mask bi = push_bit (bi mod 8) 1"

text \<open>The inner loop of \<open>balloc\<close>, from bit \<open>bi\<close> of the bitmap block \<open>d\<close> of the blocks \<open>b\<close>, \<open>b + 1\<close>, \<open>\<dots>\<close>.\<close>

function find_clear :: "nat \<Rightarrow> nat \<Rightarrow> byte list \<Rightarrow> nat \<Rightarrow> nat option" where
  "find_clear sz b d bi =
     (if bi < BPB \<and> b + bi < sz
      then if d ! (bi div 8) AND bit_mask bi = 0 then Some bi else find_clear sz b d (bi + 1)
      else None)"
  by auto
termination by (relation "measure (\<lambda>(_, _, _, bi). BPB - bi)") auto

text \<open>The outer loop over the first blocks \<open>b\<close> of the bitmap blocks.\<close>

fun balloc_from :: "u32 \<Rightarrow> nat list \<Rightarrow> 'a fs_scheme \<Rightarrow> (u32 \<times> 'a fs_scheme) option" where
  "balloc_from dev [] s = None"
| "balloc_from dev (b # bs) s = do {
     let bp = BBLOCK (of_nat b) (sb s);
     (d, s) \<leftarrow> get_block dev bp s;
     (case find_clear (unat (sb_size (sb s))) b d 0 of
        Some bi \<Rightarrow> do {
          s \<leftarrow> log_block bp (d[bi div 8 := d ! (bi div 8) OR bit_mask bi]) s;
          s \<leftarrow> put_block bp s;
          s \<leftarrow> bzero dev (of_nat (b + bi)) s;
          Some (of_nat (b + bi), s)
        }
      | None \<Rightarrow> do {
          s \<leftarrow> put_block bp s;
          balloc_from dev bs s
        })
   }"

definition balloc :: "u32 \<Rightarrow> 'a fs_scheme \<Rightarrow> (u32 \<times> 'a fs_scheme) option" where
  "balloc dev s = balloc_from dev (map (\<lambda>k. k * BPB) [0..<(unat (sb_size (sb s)) + BPB - 1) div BPB]) s"

definition bfree :: "u32 \<Rightarrow> u32 \<Rightarrow> 'a fs_scheme \<Rightarrow> 'a fs_scheme option" where
  "bfree dev b s = do {
     let bp = BBLOCK b (sb s);
     (d, s) \<leftarrow> get_block dev bp s;
     let bi = unat b mod BPB;
     (if d ! (bi div 8) AND bit_mask bi = 0 then None
      else do {
        s \<leftarrow> log_block bp (d[bi div 8 := d ! (bi div 8) AND NOT (bit_mask bi)]) s;
        put_block bp s
      })
   }"

section \<open>Inodes\<close>

definition iinit :: "superblock \<Rightarrow> 'a fs_scheme \<Rightarrow> 'a fs_scheme" where
  "iinit dsb s = s\<lparr>icache := map (\<lambda>ip. ip\<lparr>i_lock := initsleeplock ''inode''\<rparr>) (icache s), sb := dsb\<rparr>"

text \<open>An inode on the disk is 64 bytes; \<open>inum % IPB\<close> is its place in the block.\<close>

definition inode_offset :: "u32 \<Rightarrow> nat" where
  "inode_offset inum = 64 * (unat inum mod IPB)"

definition read_dinode :: "byte list \<Rightarrow> u32 \<Rightarrow> inode \<Rightarrow> inode" where
  "read_dinode d inum ip = (let off = inode_offset inum in
     ip\<lparr>i_type := get16 d off, i_major := get16 d (off + 2), i_minor := get16 d (off + 4), i_nlink := get16 d (off + 6),
       i_size := get32 d (off + 8), i_addrs := get_words d (off + 12) (NDIRECT + 1)\<rparr>)"

definition write_dinode :: "byte list \<Rightarrow> u32 \<Rightarrow> inode \<Rightarrow> byte list" where
  "write_dinode d inum ip = (let off = inode_offset inum;
     d = put16 d off (i_type ip);
     d = put16 d (off + 2) (i_major ip);
     d = put16 d (off + 4) (i_minor ip);
     d = put16 d (off + 6) (i_nlink ip);
     d = put32 d (off + 8) (i_size ip)
     in put_words d (off + 12) (i_addrs ip))"

text \<open>\<open>iget\<close>: \<open>iget_scan\<close> finds the entry or remembers the first free one.\<close>

datatype slot = Cached nat | Empty nat | Full

fun iget_scan :: "u32 \<Rightarrow> u32 \<Rightarrow> inode list \<Rightarrow> nat \<Rightarrow> nat option \<Rightarrow> slot" where
  "iget_scan dev inum [] i unused = (case unused of None \<Rightarrow> Full | Some e \<Rightarrow> Empty e)"
| "iget_scan dev inum (ip # ips) i unused =
     (if 0 < i_ref ip \<and> i_dev ip = dev \<and> i_inum ip = inum then Cached i
      else iget_scan dev inum ips (i + 1) (if unused = None \<and> i_ref ip = 0 then Some i else unused))"

definition iget :: "u32 \<Rightarrow> u32 \<Rightarrow> 'a fs_scheme \<Rightarrow> (nat \<times> 'a fs_scheme) option" where
  "iget dev inum s = (case iget_scan dev inum (icache s) 0 None of
     Cached i \<Rightarrow> Some (i, set_inode i (\<lambda>ip. ip\<lparr>i_ref := i_ref ip + 1\<rparr>) s)
   | Empty i \<Rightarrow> Some (i, set_inode i (\<lambda>ip. ip\<lparr>i_dev := dev, i_inum := inum, i_ref := 1, i_valid := False\<rparr>) s)
   | Full \<Rightarrow> None)"

fun ialloc_from :: "u32 \<Rightarrow> u16 \<Rightarrow> nat list \<Rightarrow> 'a fs_scheme \<Rightarrow> (nat \<times> 'a fs_scheme) option" where
  "ialloc_from dev type [] s = None"
| "ialloc_from dev type (inum # inums) s = do {
     let bp = IBLOCK (of_nat inum) (sb s);
     let off = inode_offset (of_nat inum);
     (d, s) \<leftarrow> get_block dev bp s;
     (if get16 d off = 0 then do {
        s \<leftarrow> log_block bp (put16 (overlay d off (replicate 64 0)) off type) s;
        s \<leftarrow> put_block bp s;
        iget dev (of_nat inum) s
      } else do {
        s \<leftarrow> put_block bp s;
        ialloc_from dev type inums s
      })
   }"

definition ialloc :: "u32 \<Rightarrow> u16 \<Rightarrow> 'a fs_scheme \<Rightarrow> (nat \<times> 'a fs_scheme) option" where
  "ialloc dev type s = ialloc_from dev type [1..<unat (sb_ninodes (sb s))] s"

definition iupdate :: "nat \<Rightarrow> 'a fs_scheme \<Rightarrow> 'a fs_scheme option" where
  "iupdate i s = do {
     let ip = icache s ! i;
     let bp = IBLOCK (i_inum ip) (sb s);
     (d, s) \<leftarrow> get_block (i_dev ip) bp s;
     s \<leftarrow> log_block bp (write_dinode d (i_inum ip) ip) s;
     put_block bp s
   }"

definition idup :: "nat \<Rightarrow> 'a fs_scheme \<Rightarrow> nat \<times> 'a fs_scheme" where
  "idup i s = (i, set_inode i (\<lambda>ip. ip\<lparr>i_ref := i_ref ip + 1\<rparr>) s)"

definition ilock :: "u32 \<Rightarrow> nat \<Rightarrow> 'a fs_scheme \<Rightarrow> 'a fs_scheme option" where
  "ilock me i s =
     (if i_ref (icache s ! i) < 1 then None
      else do {
        lk \<leftarrow> acquiresleep me (i_lock (icache s ! i));
        let s = set_inode i (\<lambda>ip. ip\<lparr>i_lock := lk\<rparr>) s;
        let ip = icache s ! i;
        (if \<not> i_valid ip then do {
           let bp = IBLOCK (i_inum ip) (sb s);
           (d, s) \<leftarrow> get_block (i_dev ip) bp s;
           let s = set_inode i (read_dinode d (i_inum ip)) s;
           s \<leftarrow> put_block bp s;
           let s = set_inode i (\<lambda>ip. ip\<lparr>i_valid := True\<rparr>) s;
           (if i_type (icache s ! i) = 0 then None else Some s)
         } else Some s)
      })"

definition iunlock :: "u32 \<Rightarrow> nat \<Rightarrow> 'a fs_scheme \<Rightarrow> 'a fs_scheme option" where
  "iunlock me i s =
     (if \<not> holdingsleep me (i_lock (icache s ! i)) \<or> i_ref (icache s ! i) < 1 then None
      else Some (set_inode i (\<lambda>ip. ip\<lparr>i_lock := releasesleep (i_lock ip)\<rparr>) s))"

section \<open>Contents of an inode\<close>

definition bmap :: "nat \<Rightarrow> nat \<Rightarrow> 'a fs_scheme \<Rightarrow> (u32 \<times> 'a fs_scheme) option" where
  "bmap i bn s =
     (let dev = i_dev (icache s ! i) in
      if bn < NDIRECT then do {
        let addr = i_addrs (icache s ! i) ! bn;
        (if addr = 0 then do {
           (addr, s) \<leftarrow> balloc dev s;
           Some (addr, set_inode i (\<lambda>ip. ip\<lparr>i_addrs := (i_addrs ip)[bn := addr]\<rparr>) s)
         } else Some (addr, s))
      } else do {
        let bn = bn - NDIRECT;
        (if bn < NINDIRECT then do {
           let ind = i_addrs (icache s ! i) ! NDIRECT;
           (ind, s) \<leftarrow> (if ind = 0 then do {
               (ind, s) \<leftarrow> balloc dev s;
               Some (ind, set_inode i (\<lambda>ip. ip\<lparr>i_addrs := (i_addrs ip)[NDIRECT := ind]\<rparr>) s)
             } else Some (ind, s));
           (d, s) \<leftarrow> get_block dev ind s;
           let addr = get32 d (4 * bn);
           (addr, s) \<leftarrow> (if addr = 0 then do {
               (addr, s) \<leftarrow> balloc dev s;
               s \<leftarrow> log_block ind (put32 d (4 * bn) addr) s;
               Some (addr, s)
             } else Some (addr, s));
           s \<leftarrow> put_block ind s;
           Some (addr, s)
         } else None)
      })"

definition free_direct :: "nat \<Rightarrow> nat \<Rightarrow> 'a fs_scheme \<Rightarrow> 'a fs_scheme option" where
  "free_direct i k s =
     (let addr = i_addrs (icache s ! i) ! k in
      if addr \<noteq> 0 then do {
        s \<leftarrow> bfree (i_dev (icache s ! i)) addr s;
        Some (set_inode i (\<lambda>ip. ip\<lparr>i_addrs := (i_addrs ip)[k := 0]\<rparr>) s)
      } else Some s)"

definition free_entry :: "u32 \<Rightarrow> byte list \<Rightarrow> nat \<Rightarrow> 'a fs_scheme \<Rightarrow> 'a fs_scheme option" where
  "free_entry dev d j s = (let addr = get32 d (4 * j) in if addr \<noteq> 0 then bfree dev addr s else Some s)"

definition itrunc :: "nat \<Rightarrow> 'a fs_scheme \<Rightarrow> 'a fs_scheme option" where
  "itrunc i s = do {
     s \<leftarrow> for_loop 0 NDIRECT (free_direct i) s;
     let dev = i_dev (icache s ! i);
     let ind = i_addrs (icache s ! i) ! NDIRECT;
     s \<leftarrow> (if ind \<noteq> 0 then do {
         (d, s) \<leftarrow> get_block dev ind s;
         s \<leftarrow> for_loop 0 NINDIRECT (free_entry dev d) s;
         s \<leftarrow> put_block ind s;
         s \<leftarrow> bfree dev ind s;
         Some (set_inode i (\<lambda>ip. ip\<lparr>i_addrs := (i_addrs ip)[NDIRECT := 0]\<rparr>) s)
       } else Some s);
     let s = set_inode i (\<lambda>ip. ip\<lparr>i_size := 0\<rparr>) s;
     iupdate i s
   }"

definition iput :: "u32 \<Rightarrow> nat \<Rightarrow> 'a fs_scheme \<Rightarrow> 'a fs_scheme option" where
  "iput me i s = do {
     lk \<leftarrow> acquiresleep me (i_lock (icache s ! i));
     let s = set_inode i (\<lambda>ip. ip\<lparr>i_lock := lk\<rparr>) s;
     s \<leftarrow> (if i_valid (icache s ! i) \<and> i_nlink (icache s ! i) = 0 \<and> i_ref (icache s ! i) = 1 then do {
         s \<leftarrow> itrunc i s;
         let s = set_inode i (\<lambda>ip. ip\<lparr>i_type := 0\<rparr>) s;
         s \<leftarrow> iupdate i s;
         Some (set_inode i (\<lambda>ip. ip\<lparr>i_valid := False\<rparr>) s)
       } else Some s);
     let s = set_inode i (\<lambda>ip. ip\<lparr>i_lock := releasesleep (i_lock ip)\<rparr>) s;
     Some (set_inode i (\<lambda>ip. ip\<lparr>i_ref := i_ref ip - 1\<rparr>) s)
   }"

definition iunlockput :: "u32 \<Rightarrow> nat \<Rightarrow> 'a fs_scheme \<Rightarrow> 'a fs_scheme option" where
  "iunlockput me i s = do { s \<leftarrow> iunlock me i s; iput me i s }"

record stat =
  st_type :: u16
  st_dev :: u32
  st_ino :: u32
  st_nlink :: u16
  st_size :: u32

definition stati :: "inode \<Rightarrow> stat" where
  "stati ip = \<lparr>st_type = i_type ip, st_dev = i_dev ip, st_ino = i_inum ip, st_nlink = i_nlink ip, st_size = i_size ip\<rparr>"

text \<open>The loops of \<open>readi\<close> and \<open>writei\<close>, with \<open>n\<close> bytes left from offset \<open>off\<close>.\<close>

function readi_loop :: "nat \<Rightarrow> nat \<Rightarrow> nat \<Rightarrow> 'a fs_scheme \<Rightarrow> (byte list \<times> 'a fs_scheme) option" where
  "readi_loop i off n s =
     (if n = 0 then Some ([], s)
      else do {
        (bp, s) \<leftarrow> bmap i (off div BSIZE) s;
        (d, s) \<leftarrow> get_block (i_dev (icache s ! i)) bp s;
        let m = min n (BSIZE - off mod BSIZE);
        s \<leftarrow> put_block bp s;
        (bs, s) \<leftarrow> readi_loop i (off + m) (n - m) s;
        Some (segment d (off mod BSIZE) m @ bs, s)
      })"
  by auto
termination by (relation "measure (\<lambda>(_, _, n, _). n)") (auto simp: BSIZE_def)

function writei_loop :: "nat \<Rightarrow> byte list \<Rightarrow> nat \<Rightarrow> nat \<Rightarrow> 'a fs_scheme \<Rightarrow> 'a fs_scheme option" where
  "writei_loop i src off n s =
     (if n = 0 then Some s
      else do {
        (bp, s) \<leftarrow> bmap i (off div BSIZE) s;
        (d, s) \<leftarrow> get_block (i_dev (icache s ! i)) bp s;
        let m = min n (BSIZE - off mod BSIZE);
        s \<leftarrow> log_block bp (overlay d (off mod BSIZE) (take m src)) s;
        s \<leftarrow> put_block bp s;
        writei_loop i (drop m src) (off + m) (n - m) s
      })"
  by auto
termination by (relation "measure (\<lambda>(_, _, _, n, _). n)") (auto simp: BSIZE_def)

text \<open>The entry of the device table, if \<open>major\<close> is in range.\<close>

definition device :: "'s devsw list \<Rightarrow> u16 \<Rightarrow> 's devsw option" where
  "device ds major = (if sint major < 0 \<or> int NDEV \<le> sint major then None else Some (ds ! nat (sint major)))"

text \<open>The results are the value returned and the bytes put into the buffer of the caller.\<close>

definition readi :: "'a fs_scheme devsw list \<Rightarrow> nat \<Rightarrow> u32 \<Rightarrow> u32 \<Rightarrow> 'a fs_scheme \<Rightarrow> (int \<times> byte list \<times> 'a fs_scheme) option" where
  "readi ds i off n s =
     (let ip = icache s ! i in
      if i_type ip = T_DEV then
        (case device ds (i_major ip) of
           None \<Rightarrow> Some (-1, [], s)
         | Some dv \<Rightarrow> (case dev_read dv of None \<Rightarrow> Some (-1, [], s) | Some f \<Rightarrow> f i n s))
      else if i_size ip < off \<or> off + n < off then Some (-1, [], s)
      else do {
        let n = (if i_size ip < off + n then i_size ip - off else n);
        (bs, s) \<leftarrow> readi_loop i (unat off) (unat n) s;
        Some (sint n, bs, s)
      })"

definition writei :: "'a fs_scheme devsw list \<Rightarrow> nat \<Rightarrow> byte list \<Rightarrow> u32 \<Rightarrow> u32 \<Rightarrow> 'a fs_scheme \<Rightarrow> (int \<times> 'a fs_scheme) option" where
  "writei ds i src off n s =
     (let ip = icache s ! i in
      if i_type ip = T_DEV then
        (case device ds (i_major ip) of
           None \<Rightarrow> Some (-1, s)
         | Some dv \<Rightarrow> (case dev_write dv of None \<Rightarrow> Some (-1, s) | Some f \<Rightarrow> f i (take (unat n) src) s))
      else if i_size ip < off \<or> off + n < off then Some (-1, s)
      else if of_nat (MAXFILE * BSIZE) < off + n then Some (-1, s)
      else do {
        s \<leftarrow> writei_loop i src (unat off) (unat n) s;
        s \<leftarrow> (if 0 < n \<and> i_size (icache s ! i) < off + n
             then iupdate i (set_inode i (\<lambda>ip. ip\<lparr>i_size := off + n\<rparr>) s) else Some s);
        Some (sint n, s)
      })"

section \<open>Directories\<close>

text \<open>\<open>strncmp\<close> and \<open>strncpy\<close> on names that are given as their bytes; a byte past the end is a zero.\<close>

fun compare_names :: "byte list \<Rightarrow> byte list \<Rightarrow> nat \<Rightarrow> int" where
  "compare_names p q 0 = 0"
| "compare_names p q (Suc n) =
     (let a = (case p of [] \<Rightarrow> 0 | x # _ \<Rightarrow> x); b = (case q of [] \<Rightarrow> 0 | x # _ \<Rightarrow> x) in
      if a \<noteq> 0 \<and> a = b then compare_names (tl p) (tl q) n else uint a - uint b)"

definition namecmp :: "byte list \<Rightarrow> byte list \<Rightarrow> int" where
  "namecmp s t = compare_names s t DIRSIZ"

definition name_field :: "byte list \<Rightarrow> byte list" where
  "name_field name = take DIRSIZ (takeWhile (\<lambda>c. c \<noteq> 0) name @ replicate DIRSIZ 0)"

text \<open>\<open>struct dirent\<close> is 16 bytes: the inode number and the name.\<close>

definition dirent_inum :: "byte list \<Rightarrow> u16" where "dirent_inum de = get16 de 0"
definition dirent_name :: "byte list \<Rightarrow> byte list" where "dirent_name de = drop 2 de"

partial_function (option) dirlookup_from ::
  "'a fs_scheme devsw list \<Rightarrow> nat \<Rightarrow> byte list \<Rightarrow> u32 \<Rightarrow> 'a fs_scheme \<Rightarrow> ((nat \<times> u32) option \<times> 'a fs_scheme) option" where
  "dirlookup_from ds dp name off s =
     (if off < i_size (icache s ! dp) then do {
        (r, de, s) \<leftarrow> readi ds dp off 16 s;
        (if r \<noteq> 16 then None
         else if dirent_inum de = 0 then dirlookup_from ds dp name (off + 16) s
         else if namecmp name (dirent_name de) = 0 then do {
           (ip, s) \<leftarrow> iget (i_dev (icache s ! dp)) (ucast (dirent_inum de)) s;
           Some (Some (ip, off), s)
         }
         else dirlookup_from ds dp name (off + 16) s)
      } else Some (None, s))"

text \<open>The result is the inode and \<open>*poff\<close>.\<close>

definition dirlookup :: "'a fs_scheme devsw list \<Rightarrow> nat \<Rightarrow> byte list \<Rightarrow> 'a fs_scheme \<Rightarrow> ((nat \<times> u32) option \<times> 'a fs_scheme) option" where
  "dirlookup ds dp name s = (if i_type (icache s ! dp) \<noteq> T_DIR then None else dirlookup_from ds dp name 0 s)"

text \<open>The first empty entry, or the end of the directory.\<close>

partial_function (option) empty_dirent ::
  "'a fs_scheme devsw list \<Rightarrow> nat \<Rightarrow> u32 \<Rightarrow> 'a fs_scheme \<Rightarrow> (u32 \<times> 'a fs_scheme) option" where
  "empty_dirent ds dp off s =
     (if off < i_size (icache s ! dp) then do {
        (r, de, s) \<leftarrow> readi ds dp off 16 s;
        (if r \<noteq> 16 then None else if dirent_inum de = 0 then Some (off, s) else empty_dirent ds dp (off + 16) s)
      } else Some (off, s))"

definition dirlink :: "u32 \<Rightarrow> 'a fs_scheme devsw list \<Rightarrow> nat \<Rightarrow> byte list \<Rightarrow> u32 \<Rightarrow> 'a fs_scheme \<Rightarrow> (int \<times> 'a fs_scheme) option" where
  "dirlink me ds dp name inum s = do {
     (found, s) \<leftarrow> dirlookup ds dp name s;
     (case found of
        Some (ip, _) \<Rightarrow> do { s \<leftarrow> iput me ip s; Some (-1, s) }
      | None \<Rightarrow> do {
          (off, s) \<leftarrow> empty_dirent ds dp 0 s;
          (r, s) \<leftarrow> writei ds dp (bytes16 (ucast inum) @ name_field name) off 16 s;
          (if r \<noteq> 16 then None else Some (0, s))
        })
   }"

section \<open>Paths\<close>

definition slash :: byte where "slash = 47"

text \<open>A path is its bytes up to the terminating zero. The result is the rest of the path and the name
  buffer, which keeps its bytes after the zero that ends a short name.\<close>

definition skipelem :: "byte list \<Rightarrow> byte list \<Rightarrow> (byte list \<times> byte list) option" where
  "skipelem path name =
     (let path = dropWhile (\<lambda>c. c = slash) path in
      if path = [] then None
      else
        let elem = takeWhile (\<lambda>c. c \<noteq> slash) path;
            name = (if DIRSIZ \<le> length elem then overlay name 0 (take DIRSIZ elem) else overlay name 0 (elem @ [0]))
        in Some (dropWhile (\<lambda>c. c = slash) (drop (length elem) path), name))"

lemma skipelem_shorter: "skipelem path name = Some (path', name') \<Longrightarrow> length path' < length path"
proof -
  assume s: "skipelem path name = Some (path', name')"
  define p where "p = dropWhile (\<lambda>c. c = slash) path"
  have p: "p \<noteq> []" "path' = dropWhile (\<lambda>c. c = slash) (drop (length (takeWhile (\<lambda>c. c \<noteq> slash) p)) p)"
    using s by (auto simp: skipelem_def p_def Let_def split: if_splits)
  have "hd p \<noteq> slash" using p(1) hd_dropWhile [of "\<lambda>c. c = slash" path] by (simp add: p_def)
  then have "0 < length (takeWhile (\<lambda>c. c \<noteq> slash) p)" using p(1) by (cases p) auto
  moreover have "length path' \<le> length (drop (length (takeWhile (\<lambda>c. c \<noteq> slash) p)) p)"
    unfolding p(2) by (rule length_dropWhile_le)
  moreover have "length p \<le> length path" unfolding p_def by (rule length_dropWhile_le)
  moreover have "0 < length p" using p(1) by simp
  ultimately show ?thesis unfolding length_drop by linarith
qed

text \<open>\<open>namex\<close>; the result is the inode, or \<open>None\<close> for the null pointer, and the name buffer.\<close>

function namex_loop :: "u32 \<Rightarrow> 'a fs_scheme devsw list \<Rightarrow> bool \<Rightarrow> nat \<Rightarrow> byte list \<Rightarrow> byte list \<Rightarrow> 'a fs_scheme \<Rightarrow>
    (nat option \<times> byte list \<times> 'a fs_scheme) option" where
  "namex_loop me ds parent ip path name s =
     (case skipelem path name of
        None \<Rightarrow> (if parent then do { s \<leftarrow> iput me ip s; Some (None, name, s) } else Some (Some ip, name, s))
      | Some (path, name) \<Rightarrow> do {
          s \<leftarrow> ilock me ip s;
          (if i_type (icache s ! ip) \<noteq> T_DIR then do {
             s \<leftarrow> iunlockput me ip s;
             Some (None, name, s)
           }
           else if parent \<and> path = [] then do {
             s \<leftarrow> iunlock me ip s;
             Some (Some ip, name, s)
           }
           else do {
             (found, s) \<leftarrow> dirlookup ds ip name s;
             s \<leftarrow> iunlockput me ip s;
             (case found of None \<Rightarrow> Some (None, name, s) | Some (nxt, _) \<Rightarrow> namex_loop me ds parent nxt path name s)
           })
        })"
  by auto
termination by (relation "measure (\<lambda>(_, _, _, _, path, _, _). length path)") (auto dest: skipelem_shorter)

definition namex :: "u32 \<Rightarrow> nat \<Rightarrow> 'a fs_scheme devsw list \<Rightarrow> byte list \<Rightarrow> bool \<Rightarrow> byte list \<Rightarrow> 'a fs_scheme \<Rightarrow>
    (nat option \<times> byte list \<times> 'a fs_scheme) option" where
  "namex me cwd ds path parent name s = do {
     (ip, s) \<leftarrow> (if path \<noteq> [] \<and> hd path = slash then iget ROOTDEV ROOTINO s else Some (idup cwd s));
     namex_loop me ds parent ip path name s
   }"

text \<open>\<open>namei\<close> has a local buffer for the name, whose first bytes are whatever the stack held.\<close>

definition namei :: "u32 \<Rightarrow> nat \<Rightarrow> 'a fs_scheme devsw list \<Rightarrow> byte list \<Rightarrow> byte list \<Rightarrow> 'a fs_scheme \<Rightarrow> (nat option \<times> 'a fs_scheme) option" where
  "namei me cwd ds stack path s = do {
     (r, _, s) \<leftarrow> namex me cwd ds path False (take DIRSIZ stack) s;
     Some (r, s)
   }"

definition nameiparent :: "u32 \<Rightarrow> nat \<Rightarrow> 'a fs_scheme devsw list \<Rightarrow> byte list \<Rightarrow> byte list \<Rightarrow> 'a fs_scheme \<Rightarrow>
    (nat option \<times> byte list \<times> 'a fs_scheme) option" where
  "nameiparent me cwd ds path name s = namex me cwd ds path True name s"

declare find_clear.simps [simp del] readi_loop.simps [simp del] writei_loop.simps [simp del] namex_loop.simps [simp del]

end
