(* ===== verification/FsBlocks.thy ===== *)
theory FsBlocks
  imports Fs
begin

text \<open>
  The block allocator of \<open>Fs\<close>: the layout of the disk, the bitmap as the set of used blocks, and what
  \<open>balloc\<close> and \<open>bfree\<close> do to it. \<open>room k\<close> says that the log takes \<open>k\<close> more writes.
\<close>

section \<open>Locking and logging single blocks\<close>

definition room :: "nat \<Rightarrow> 'a blockdev_scheme \<Rightarrow> bool" where
  "room k s \<longleftrightarrow> length (logged s) + k < unat (log_capacity s) \<and> unat (log_capacity s) \<le> LOGSIZE \<and> 1 \<le> ops s"

text \<open>Reading needs no transaction, only a free buffer.\<close>

definition can_read :: "'a blockdev_scheme \<Rightarrow> bool" where
  "can_read s \<longleftrightarrow> length (logged s) + length (held s) < NBUF"

lemma room_can_read: "room k s \<Longrightarrow> length (held s) \<le> k \<Longrightarrow> can_read s"
  by (simp add: room_def can_read_def NBUF_def LOGSIZE_def MAXOPBLOCKS_def)

lemma room_less: "room k s \<Longrightarrow> j \<le> k \<Longrightarrow> room j s"
  by (simp add: room_def)

lemma get_block_ok:
  assumes "can_read s" "unat n < length (blocks s)" "n \<notin> set (held s)"
  shows "get_block 1 n s = Some (blocks s ! unat n, s\<lparr>held := n # held s\<rparr>)"
proof -
  have "card (set (logged s) \<union> set (held s)) \<le> card (set (logged s)) + card (set (held s))" by (rule card_Un_le)
  also have "\<dots> \<le> length (logged s) + length (held s)" by (intro add_mono card_length)
  finally show ?thesis using assms by (simp add: get_block_def can_read_def)
qed

lemma log_block_ok:
  assumes "room k s" "0 < k" "n \<in> set (held s)"
  shows "log_block n d s = Some (s\<lparr>blocks := (blocks s)[unat n := d], logged := (if n \<in> set (logged s) then logged s else logged s @ [n])\<rparr>)"
proof -
  have c: "int (unat (log_capacity s)) \<le> 30" using assms(1) LOGSIZE_le unfolding room_def by linarith
  then have "sint (log_capacity s) = int (unat (log_capacity s))" by (simp add: sint_u32)
  moreover have "length (logged s) + 1 < unat (log_capacity s)" "unat (log_capacity s) \<le> LOGSIZE" "1 \<le> ops s"
    using assms(1,2) by (auto simp: room_def)
  ultimately have "\<not> (LOGSIZE \<le> length (logged s) \<or> sint (log_capacity s) - 1 \<le> int (length (logged s)))" "\<not> ops s < 1"
    by linarith+
  then show ?thesis using assms(3) unfolding log_block_def by simp
qed

lemma put_block_ok: "n \<in> set (held s) \<Longrightarrow> put_block n s = Some (s\<lparr>held := removeAll n (held s)\<rparr>)"
  by (simp add: put_block_def)

text \<open>The two idioms of \<open>fs.c\<close>: read a block and give it back, and change a block.\<close>

definition updated :: "u32 \<Rightarrow> byte list \<Rightarrow> 'a blockdev_scheme \<Rightarrow> 'a blockdev_scheme" where
  "updated n d s = s\<lparr>blocks := (blocks s)[unat n := d], logged := (if n \<in> set (logged s) then logged s else logged s @ [n])\<rparr>"

lemma updated_simps [simp]:
  "blocks (updated n d s) = (blocks s)[unat n := d]" "held (updated n d s) = held s" "ops (updated n d s) = ops s"
  "log_capacity (updated n d s) = log_capacity s"
  "sb (updated n d (t :: 'b fs_scheme)) = sb t" "icache (updated n d t) = icache t"
  "blockdev.more (updated n d s) = blockdev.more s"
  by (simp_all add: updated_def)

lemma updated_logged: "length (logged (updated n d s)) \<le> length (logged s) + 1"
  by (simp add: updated_def)

lemma updated_room: "room (Suc k) s \<Longrightarrow> room k (updated n d s)"
  using updated_logged [of n d s] by (simp add: room_def)

lemma read_ok:
  assumes "can_read s" "unat n < length (blocks s)" "n \<notin> set (held s)"
  shows "get_block 1 n s = Some (blocks s ! unat n, s\<lparr>held := n # held s\<rparr>)"
    "put_block n (s\<lparr>held := n # held s\<rparr>) = Some s"
  using get_block_ok [OF assms] assms(3) by (simp_all add: put_block_def)

lemma write_ok:
  assumes "room k s" "0 < k" "n \<notin> set (held s)"
  shows "log_block n d (s\<lparr>held := n # held s\<rparr>) = Some ((updated n d s)\<lparr>held := n # held s\<rparr>)"
    "put_block n ((updated n d s)\<lparr>held := n # held s\<rparr>) = Some (updated n d s)"
proof -
  have "room k (s\<lparr>held := n # held s\<rparr>)" using assms(1) by (simp add: room_def)
  from log_block_ok [OF this assms(2), of n d]
  show "log_block n d (s\<lparr>held := n # held s\<rparr>) = Some ((updated n d s)\<lparr>held := n # held s\<rparr>)"
    by (simp add: updated_def)
  show "put_block n ((updated n d s)\<lparr>held := n # held s\<rparr>) = Some (updated n d s)"
    using assms(3) by (simp add: put_block_def updated_def)
qed

section \<open>The bitmap\<close>

definition bit_set :: "byte list \<Rightarrow> nat \<Rightarrow> bool" where
  "bit_set d bi \<longleftrightarrow> d ! (bi div 8) AND bit_mask bi \<noteq> 0"

lemma bit_set_eq: "bit_set d bi \<longleftrightarrow> bit (d ! (bi div 8)) (bi mod 8)"
  by (simp only: bit_set_def bit_mask_def bit_iff_and_push_bit_not_eq_0)

lemma bit_set_or:
  assumes "length d = BSIZE" "bi < BPB"
  shows "bit_set (d[bi div 8 := d ! (bi div 8) OR bit_mask bi]) bj \<longleftrightarrow> bit_set d bj \<or> bj = bi"
proof -
  have l: "bi div 8 < length d" using assms by (simp add: BPB_def less_mult_imp_div_less)
  have m: "bj mod 8 < LENGTH(8)" by simp
  have "bj = bi \<longleftrightarrow> bj div 8 = bi div 8 \<and> bj mod 8 = bi mod 8" by (metis div_mult_mod_eq)
  then show ?thesis using l m by (auto simp: bit_set_eq nth_update_if bit_mask_def bit_simps)
qed

lemma bit_set_and_not:
  assumes "length d = BSIZE" "bi < BPB"
  shows "bit_set (d[bi div 8 := d ! (bi div 8) AND NOT (bit_mask bi)]) bj \<longleftrightarrow> bit_set d bj \<and> bj \<noteq> bi"
proof -
  have l: "bi div 8 < length d" using assms by (simp add: BPB_def less_mult_imp_div_less)
  have m: "bj mod 8 < LENGTH(8)" by simp
  have "bj = bi \<longleftrightarrow> bj div 8 = bi div 8 \<and> bj mod 8 = bi mod 8" by (metis div_mult_mod_eq)
  then show ?thesis using l m by (auto simp: bit_set_eq nth_update_if bit_mask_def bit_simps)
qed

lemma find_clear_spec:
  "find_clear sz b d bi = Some r \<Longrightarrow> bi \<le> r \<and> r < BPB \<and> b + r < sz \<and> \<not> bit_set d r"
  "find_clear sz b d bi = None \<Longrightarrow> bi \<le> j \<Longrightarrow> j < BPB \<Longrightarrow> b + j < sz \<Longrightarrow> bit_set d j"
proof -
  show "find_clear sz b d bi = Some r \<Longrightarrow> bi \<le> r \<and> r < BPB \<and> b + r < sz \<and> \<not> bit_set d r"
  proof (induction sz b d bi rule: find_clear.induct)
    case (1 sz b d bi)
    then show ?case by (simp add: find_clear.simps [of sz b d bi] bit_set_def split: if_splits)
  qed
  show "find_clear sz b d bi = None \<Longrightarrow> bi \<le> j \<Longrightarrow> j < BPB \<Longrightarrow> b + j < sz \<Longrightarrow> bit_set d j"
  proof (induction sz b d bi rule: find_clear.induct)
    case (1 sz b d bi)
    have "bit_set d bi \<and> find_clear sz b d (bi + 1) = None"
      using 1(2-5) by (subst (asm) find_clear.simps) (auto simp: bit_set_def split: if_splits)
    then show ?case using 1 by (cases "j = bi") (auto simp: bit_set_def)
  qed
qed

section \<open>The layout of the disk\<close>

abbreviation disk_size :: "'a fs_scheme \<Rightarrow> nat" where
  "disk_size s \<equiv> unat (sb_size (sb s))"

definition bitmap_block :: "'a fs_scheme \<Rightarrow> nat \<Rightarrow> nat" where
  "bitmap_block s n = unat (sb_bmapstart (sb s)) + n div BPB"

definition data_start :: "'a fs_scheme \<Rightarrow> nat" where
  "data_start s = unat (sb_bmapstart (sb s)) + disk_size s div BPB + 1"

text \<open>Is the bit of block \<open>n\<close> set?\<close>

definition used :: "'a fs_scheme \<Rightarrow> nat \<Rightarrow> bool" where
  "used s n \<longleftrightarrow> bit_set (blocks s ! bitmap_block s n) (n mod BPB)"

text \<open>As \<open>mkfs\<close> makes it: inode blocks, bitmap, data; all bits of the blocks before the data are set.\<close>

definition layout_ok :: "'a fs_scheme \<Rightarrow> bool" where
  "layout_ok s \<longleftrightarrow> disk_size s \<le> length (blocks s) \<and> length (blocks s) < 2 ^ 31 \<and> data_start s \<le> disk_size s \<and>
     (\<forall>d \<in> set (blocks s). length d = BSIZE) \<and> (\<forall>n < data_start s. used s n) \<and>
     unat (sb_inodestart (sb s)) + unat (sb_ninodes (sb s)) div IPB < unat (sb_bmapstart (sb s))"

lemma disk_layoutD:
  assumes "layout_ok s"
  shows "disk_size s \<le> length (blocks s)" "length (blocks s) < 2 ^ 31" "data_start s \<le> disk_size s"
    "n < length (blocks s) \<Longrightarrow> length (blocks s ! n) = BSIZE" "n < data_start s \<Longrightarrow> used s n"
    "unat (sb_inodestart (sb s)) + unat (sb_ninodes (sb s)) div IPB < unat (sb_bmapstart (sb s))"
  using assms by (auto simp: layout_ok_def)

lemma bitmap_block_less:
  "n \<le> disk_size s \<Longrightarrow> bitmap_block s n < data_start s"
  by (simp add: bitmap_block_def data_start_def div_le_mono le_imp_less_Suc)

lemma layout_bmapstart: "layout_ok s \<Longrightarrow> unat (sb_bmapstart (sb s)) < data_start s"
  by (simp add: data_start_def)

lemma BBLOCK_unat:
  assumes ok: "layout_ok s" and b: "b < disk_size s"
  shows "unat (BBLOCK (of_nat b) (sb s)) = bitmap_block s b" "unat (of_nat b :: u32) = b"
proof -
  note L = disk_layoutD [OF ok]
  show u: "unat (of_nat b :: u32) = b" using L(1,2) b by (intro unat_of_nat_u32) simp
  have "unat (of_nat b div of_nat BPB :: u32) = b div BPB"
    using u by (simp add: unat_div BPB_def BSIZE_def)
  moreover have "bitmap_block s b < 2 ^ 32" using bitmap_block_less [of b s] L(1-3) b by simp
  ultimately show "unat (BBLOCK (of_nat b) (sb s)) = bitmap_block s b"
    by (simp add: BBLOCK_def bitmap_block_def unat_u32_plus add.commute)
qed

text \<open>What an operation leaves alone.\<close>

definition same_layout :: "'a fs_scheme \<Rightarrow> 'a fs_scheme \<Rightarrow> bool" where
  "same_layout s s' \<longleftrightarrow> sb s' = sb s \<and> length (blocks s') = length (blocks s) \<and> held s' = held s \<and>
     log_capacity s' = log_capacity s \<and> ops s' = ops s \<and> fs.more s' = fs.more s"

lemma same_layout_refl [simp]: "same_layout s s"
  by (simp add: same_layout_def)

lemma same_layout_trans: "same_layout s t \<Longrightarrow> same_layout t u \<Longrightarrow> same_layout s u"
  by (simp add: same_layout_def)

lemma same_layout_eqs:
  assumes "same_layout s s'"
  shows "sb s' = sb s" "bitmap_block s' = bitmap_block s" "data_start s' = data_start s" "length (blocks s') = length (blocks s)"
    "held s' = held s"
  using assms by (auto simp: same_layout_def bitmap_block_def data_start_def fun_eq_iff)

lemma same_layout_updated [simp]: "same_layout s (updated n d s)"
  by (simp add: same_layout_def updated_def)

lemma used_frame:
  assumes "same_layout s s'" "blocks s' ! bitmap_block s n = blocks s ! bitmap_block s n"
  shows "used s' n = used s n"
  using assms by (simp add: used_def same_layout_eqs)

text \<open>Changing a block other than the bitmap.\<close>

lemma updated_layout_ok:
  assumes ok: "layout_ok s" and d: "length d = BSIZE" and n: "\<And>k. k \<le> disk_size s \<Longrightarrow> unat n \<noteq> bitmap_block s k"
  shows "layout_ok (updated n d s)" "k \<le> disk_size s \<Longrightarrow> used (updated n d s) k = used s k"
proof -
  have u: "used (updated n d s) k = used s k" if "k \<le> disk_size s" for k
    by (rule used_frame) (use n [OF that] in \<open>simp_all add: nth_update_if\<close>)
  then show "k \<le> disk_size s \<Longrightarrow> used (updated n d s) k = used s k" .
  have "\<forall>b \<in> set ((blocks s)[unat n := d]). length b = BSIZE"
    using ok d set_update_subset_insert [of "blocks s" "unat n" d] by (auto simp: layout_ok_def)
  then show "layout_ok (updated n d s)"
    using ok u by (simp add: layout_ok_def data_start_def)
qed

text \<open>Changing one bit of the bitmap.\<close>

lemma bitmap_update:
  assumes ok: "layout_ok s" and n: "n < disk_size s" and m: "unat m = bitmap_block s n" and d: "length d = BSIZE"
    and bits: "\<And>bj. bj \<noteq> n mod BPB \<Longrightarrow> bit_set d bj = bit_set (blocks s ! bitmap_block s n) bj"
    and data: "data_start s \<le> n"
  shows "layout_ok (updated m d s)" "used (updated m d s) n = bit_set d (n mod BPB)"
    "k \<noteq> n \<Longrightarrow> used (updated m d s) k = used s k"
proof -
  have len: "bitmap_block s n < length (blocks s)"
    using bitmap_block_less [of n s] disk_layoutD [OF ok] n by simp
  have e: "bitmap_block (updated m d s) = bitmap_block s" by (rule same_layout_eqs) simp
  show 1: "used (updated m d s) n = bit_set d (n mod BPB)" using len m e by (simp add: used_def)
  show 2: "used (updated m d s) k = used s k" if "k \<noteq> n" for k
  proof (cases "bitmap_block s k = bitmap_block s n")
    case True
    then have "k div BPB = n div BPB" by (simp add: bitmap_block_def)
    then have "k mod BPB \<noteq> n mod BPB" using that by (metis div_mult_mod_eq)
    then show ?thesis using True len m e bits by (simp add: used_def)
  qed (use m e in \<open>simp add: used_def\<close>)
  have "\<forall>b \<in> set ((blocks s)[unat m := d]). length b = BSIZE"
    using ok d set_update_subset_insert [of "blocks s" "unat m" d] by (auto simp: layout_ok_def)
  then show "layout_ok (updated m d s)"
    using ok 2 data by (auto simp: layout_ok_def data_start_def)
qed

section \<open>Allocating and freeing\<close>

text \<open>Locked blocks never are blocks that the allocator needs.\<close>

definition held_used :: "'a fs_scheme \<Rightarrow> bool" where
  "held_used s \<longleftrightarrow> length (held s) \<le> 1 \<and>
     (\<forall>h \<in> set (held s). used s (unat h) \<and> (\<forall>k \<le> disk_size s. unat h \<noteq> bitmap_block s k))"

definition allocated :: "'a fs_scheme \<Rightarrow> nat \<Rightarrow> 'a fs_scheme \<Rightarrow> bool" where
  "allocated s n s' \<longleftrightarrow> n < disk_size s \<and> data_start s \<le> n \<and> \<not> used s n \<and> layout_ok s' \<and> same_layout s s' \<and> icache s' = icache s \<and>
     (\<forall>k < disk_size s. used s' k \<longleftrightarrow> used s k \<or> k = n) \<and> blocks s' ! n = replicate BSIZE 0 \<and>
     (\<forall>m. m \<noteq> n \<longrightarrow> (\<forall>k \<le> disk_size s. m \<noteq> bitmap_block s k) \<longrightarrow> blocks s' ! m = blocks s ! m) \<and>
     (\<forall>k. room (k + 2) s \<longrightarrow> room k s')"

lemma room_held [simp]: "room k (s\<lparr>held := h\<rparr>) = room k s"
  by (simp add: room_def)

lemma bzero_ok:
  assumes "layout_ok s" "room 1 s" "length (held s) \<le> 1" "unat n < length (blocks s)" "n \<notin> set (held s)"
  shows "bzero 1 n s = Some (updated n (replicate BSIZE 0) s)"
proof -
  have c: "can_read s" using assms(2,3) by (rule room_can_read)
  show ?thesis
    using read_ok(1) [OF c assms(4,5)] write_ok [OF assms(2) _ assms(5), of "replicate BSIZE 0"] by (simp add: bzero_def)
qed

lemma take_bit_step:
  assumes ok: "layout_ok s" and r: "room 2 s" and h: "held_used s" and n: "n < disk_size s" "\<not> used s n"
    and d: "d = (blocks s ! bitmap_block s n)" and bi: "bi = n mod BPB" and bp: "bp = BBLOCK (of_nat n) (sb s)"
  shows "\<exists>s'. do {
      s \<leftarrow> log_block bp (d[bi div 8 := d ! (bi div 8) OR bit_mask bi]) (s\<lparr>held := bp # held s\<rparr>);
      s \<leftarrow> put_block bp s;
      s \<leftarrow> bzero 1 (of_nat n) s;
      Some (of_nat n :: u32, s)
    } = Some (of_nat n, s') \<and> allocated s n s'"
proof -
  note L = disk_layoutD [OF ok] and B = BBLOCK_unat [OF ok n(1), folded bp]
  have data: "data_start s \<le> n" using L(5) n(2) by (meson not_le)
  have bm: "bitmap_block s n < data_start s" using bitmap_block_less [of n s] n(1) by simp
  have len: "length d = BSIZE" using L(4) [of "bitmap_block s n"] bm L(1,3) d by simp
  have bi': "bi < BPB" using bi by (simp add: BPB_def BSIZE_def)
  have nh: "bp \<notin> set (held s)" using h B(1) n(1) by (auto simp: held_used_def)
  let ?d = "d[bi div 8 := d ! (bi div 8) OR bit_mask bi]"
  let ?s1 = "updated bp ?d s"
  note O = bit_set_or [OF len bi']
  note W = write_ok [OF r _ nh, of ?d, simplified]
  have bits: "bit_set ?d bj = bit_set (blocks s ! bitmap_block s n) bj" if "bj \<noteq> n mod BPB" for bj
    using O [of bj] that d bi by simp
  have len': "length ?d = BSIZE" using len by simp
  note U = bitmap_update [OF ok n(1) B(1) len' bits data]
  have n1: "used ?s1 n" using U(2) O bi by simp
  have un: "unat (of_nat n :: u32) < length (blocks ?s1)" using B(2) n(1) L(1) by simp
  have nn: "of_nat n \<notin> set (held ?s1)" using h n(2) B(2) by (auto simp: held_used_def)
  have r1: "room 1 ?s1" using updated_room [of 1 s] r by (simp add: numeral_2_eq_2)
  have lh: "length (held ?s1) \<le> 1" using h unfolding held_used_def by simp
  have z: "bzero 1 (of_nat n) ?s1 = Some (updated (of_nat n) (replicate BSIZE 0) ?s1)"
    by (rule bzero_ok [OF U(1) r1 lh un nn])
  let ?s2 = "updated (of_nat n) (replicate BSIZE 0) ?s1"
  have e: "bitmap_block ?s1 = bitmap_block s" by (rule same_layout_eqs) simp
  have nb: "unat (of_nat n :: u32) \<noteq> bitmap_block ?s1 k" if "k \<le> disk_size ?s1" for k
    using that bitmap_block_less [of k s] data B(2) e by simp
  note Z = updated_layout_ok [OF U(1) _ nb, of "replicate BSIZE 0", simplified]
  have "allocated s n ?s2"
    unfolding allocated_def
  proof (intro conjI allI impI)
    show "n < disk_size s" "data_start s \<le> n" "\<not> used s n" using n data by simp_all
    show "layout_ok ?s2" by (rule Z(1))
    show "same_layout s ?s2" using same_layout_trans [OF same_layout_updated same_layout_updated] .
    show "icache ?s2 = icache s" by simp
    show "used ?s2 k \<longleftrightarrow> used s k \<or> k = n" if "k < disk_size s" for k
      using Z(2) [of k] U(3) [of k] n1 n(2) that by auto
    show "blocks ?s2 ! n = replicate BSIZE 0" using B(2) un by simp
    show "blocks ?s2 ! m = blocks s ! m" if "m \<noteq> n" "\<forall>k \<le> disk_size s. m \<noteq> bitmap_block s k" for m
    proof -
      have "m \<noteq> bitmap_block s n" using that(2) n(1) by simp
      then show ?thesis using that(1) B by (simp add: nth_update_if)
    qed
    show "room k ?s2" if "room (k + 2) s" for k
      by (rule updated_room, rule updated_room) (use that in \<open>simp add: add.commute\<close>)
  qed
  then show ?thesis using W z by simp
qed

lemma balloc_from_ok:
  assumes ok: "layout_ok s" and r: "room 2 s" and h: "held_used s"
    and bs: "\<forall>b \<in> set bs. b mod BPB = 0 \<and> b < disk_size s"
    and free: "\<exists>b \<in> set bs. \<exists>bi < BPB. b + bi < disk_size s \<and> \<not> used s (b + bi)"
  shows "\<exists>n s'. balloc_from 1 bs s = Some (of_nat n, s') \<and> allocated s n s'"
  using bs free
proof (induction bs)
  case (Cons b bs)
  note L = disk_layoutD [OF ok]
  have b: "b mod BPB = 0" "b < disk_size s" using Cons.prems(1) by simp_all
  let ?bp = "BBLOCK (of_nat b) (sb s)"
  note B = BBLOCK_unat [OF ok b(2)]
  have bm: "bitmap_block s b < length (blocks s)" using bitmap_block_less [of b s] b(2) L(1,3) by simp
  have nh: "?bp \<notin> set (held s)" using h B(1) b(2) by (auto simp: held_used_def)
  have c: "can_read s" by (rule room_can_read [OF r]) (use h in \<open>simp add: held_used_def\<close>)
  note R = read_ok [OF c _ nh, unfolded B(1), OF bm]
  let ?d = "blocks s ! bitmap_block s b"
  have same: "bitmap_block s (b + bi) = bitmap_block s b" "(b + bi) mod BPB = bi" if "bi < BPB" for bi
  proof -
    have "(b + bi) div BPB = b div BPB" using b(1) that by (metis add.right_neutral div_add1_eq div_less mod_less mod_div_trivial add_0)
    then show "bitmap_block s (b + bi) = bitmap_block s b" by (simp add: bitmap_block_def)
    show "(b + bi) mod BPB = bi" using b(1) that by (metis add_0 mod_add_left_eq mod_less)
  qed
  show ?case
  proof (cases "find_clear (disk_size s) b ?d 0")
    case None
    have "bit_set ?d bi" if "bi < BPB" "b + bi < disk_size s" for bi
      using find_clear_spec(2) [OF None] that by simp
    then have "\<not> (\<exists>bi < BPB. b + bi < disk_size s \<and> \<not> used s (b + bi))"
      using same by (auto simp: used_def)
    then have "\<exists>n s'. balloc_from 1 bs s = Some (of_nat n, s') \<and> allocated s n s'"
      using Cons by (intro Cons.IH) auto
    then show ?thesis using R None by (simp add: Let_def)
  next
    case (Some bi)
    note F = find_clear_spec(1) [OF Some]
    have s: "bitmap_block s (b + bi) = bitmap_block s b" "(b + bi) mod BPB = bi" using same F by auto
    have nu: "\<not> used s (b + bi)" using F s by (simp add: used_def)
    have "BBLOCK (of_nat (b + bi)) (sb s) = ?bp"
    proof (rule unsigned_word_eqI)
      show "unat (BBLOCK (of_nat (b + bi)) (sb s)) = unat ?bp"
        using BBLOCK_unat(1) [OF ok, of "b + bi"] F s(1) B(1) by simp
    qed
    from take_bit_step [OF ok r h _ nu refl s(2) [symmetric] this [symmetric]] F s(1)
    obtain s' where "do {
      s \<leftarrow> log_block ?bp (?d[bi div 8 := ?d ! (bi div 8) OR bit_mask bi]) (s\<lparr>held := ?bp # held s\<rparr>);
      s \<leftarrow> put_block ?bp s;
      s \<leftarrow> bzero 1 (of_nat (b + bi)) s;
      Some (of_nat (b + bi) :: u32, s)
    } = Some (of_nat (b + bi), s')" "allocated s (b + bi) s'" by auto
    then show ?thesis using R Some by (intro exI [of _ "b + bi"] exI [of _ s']) (simp add: Let_def)
  qed
qed simp

lemma balloc_ok:
  assumes ok: "layout_ok s" and r: "room 2 s" and h: "held_used s" and free: "\<exists>n < disk_size s. \<not> used s n"
  shows "\<exists>n s'. balloc 1 s = Some (of_nat n, s') \<and> allocated s n s'"
proof -
  let ?K = "(disk_size s + BPB - 1) div BPB"
  have pos: "0 < BPB" by (simp add: BPB_def BSIZE_def)
  have lt: "k * BPB < disk_size s" if "k < ?K" for k
  proof -
    have "(k + 1) * BPB \<le> disk_size s + BPB - 1" using that pos by (metis Suc_eq_plus1 Suc_leI less_eq_div_iff_mult_less_eq)
    then show ?thesis using pos by simp
  qed
  obtain n where n: "n < disk_size s" "\<not> used s n" using free by blast
  have "(n div BPB + 1) * BPB \<le> disk_size s + BPB - 1" using div_times_less_eq_dividend [of n BPB] n(1) unfolding add_mult_distrib by linarith
  then have "n div BPB < ?K" using pos by (simp add: less_eq_div_iff_mult_less_eq Suc_le_eq [symmetric])
  then have "n div BPB * BPB \<in> set (map (\<lambda>k. k * BPB) [0..<?K])" by auto
  moreover have "n div BPB * BPB + n mod BPB = n" "n mod BPB < BPB" using pos by simp_all
  ultimately have "\<exists>b \<in> set (map (\<lambda>k. k * BPB) [0..<?K]). \<exists>bi < BPB. b + bi < disk_size s \<and> \<not> used s (b + bi)"
    using n by metis
  then show ?thesis unfolding balloc_def by (intro balloc_from_ok [OF ok r h]) (use lt in auto)
qed

definition log_add :: "u32 \<Rightarrow> u32 list \<Rightarrow> u32 list" where
  "log_add n l = (if n \<in> set l then l else l @ [n])"

lemma log_add_simps [simp]: "log_add n (log_add n l) = log_add n l" "logged (updated n d s) = log_add n (logged s)"
  by (simp_all add: log_add_def updated_def)

definition freed :: "'a fs_scheme \<Rightarrow> nat \<Rightarrow> 'a fs_scheme \<Rightarrow> bool" where
  "freed s n s' \<longleftrightarrow> layout_ok s' \<and> same_layout s s' \<and> icache s' = icache s \<and>
     (\<forall>k < disk_size s. used s' k \<longleftrightarrow> used s k \<and> k \<noteq> n) \<and>
     (\<forall>m. (\<forall>k \<le> disk_size s. m \<noteq> bitmap_block s k) \<longrightarrow> blocks s' ! m = blocks s ! m) \<and>
     (\<forall>k. room (k + 1) s \<longrightarrow> room k s') \<and> logged s' = log_add (BBLOCK (of_nat n) (sb s)) (logged s)"

lemma bfree_ok:
  assumes ok: "layout_ok s" and r: "room 1 s" and h: "held_used s"
    and n: "unat n < disk_size s" "data_start s \<le> unat n"
  shows "if used s (unat n) then \<exists>s'. bfree 1 n s = Some s' \<and> freed s (unat n) s' else bfree 1 n s = None"
proof -
  note L = disk_layoutD [OF ok]
  have B: "unat (BBLOCK n (sb s)) = bitmap_block s (unat n)" using BBLOCK_unat(1) [OF ok n(1)] by simp
  let ?bp = "BBLOCK n (sb s)" and ?d = "blocks s ! bitmap_block s (unat n)" and ?bi = "unat n mod BPB"
  have bm: "bitmap_block s (unat n) < length (blocks s)" using bitmap_block_less [of "unat n" s] n(1) L(1,3) by simp
  have nh: "?bp \<notin> set (held s)" using h B n(1) by (auto simp: held_used_def)
  have c: "can_read s" by (rule room_can_read [OF r]) (use h in \<open>simp add: held_used_def\<close>)
  note R = read_ok [OF c _ nh, unfolded B, OF bm]
  have len: "length ?d = BSIZE" using L(4) bm by simp
  have bi: "?bi < BPB" by (simp add: BPB_def BSIZE_def)
  let ?d' = "?d[?bi div 8 := ?d ! (?bi div 8) AND NOT (bit_mask ?bi)]"
  note O = bit_set_and_not [OF len bi]
  note W = write_ok [OF r _ nh, of ?d', simplified]
  have u: "(?d ! (?bi div 8) AND bit_mask ?bi = 0) = (\<not> used s (unat n))" by (simp add: used_def bit_set_def)
  show ?thesis
  proof (cases "used s (unat n)")
    case False
    then show ?thesis using R u by (simp add: bfree_def Let_def)
  next
    case True
    have "bfree 1 n s = Some (updated ?bp ?d' s)"
      using R W u True by (simp add: bfree_def Let_def)
    moreover have "freed s (unat n) (updated ?bp ?d' s)"
    proof -
      have len': "length ?d' = BSIZE" using len by simp
      have bits: "bit_set ?d' bj = bit_set (blocks s ! bitmap_block s (unat n)) bj" if "bj \<noteq> unat n mod BPB" for bj
        using O [of bj] that by simp
      note U = bitmap_update [OF ok n(1) B len' bits n(2)]
      show ?thesis
        unfolding freed_def
      proof (intro conjI allI impI)
        show "used (updated ?bp ?d' s) k \<longleftrightarrow> used s k \<and> k \<noteq> unat n" for k
          using U(2,3) O [of ?bi] by (cases "k = unat n") auto
        show "blocks (updated ?bp ?d' s) ! m = blocks s ! m" if "\<forall>k \<le> disk_size s. m \<noteq> bitmap_block s k" for m
          using that B n(1) by (simp add: nth_update_if) (metis less_imp_le)
        show "room k (updated ?bp ?d' s)" if "room (k + 1) s" for k by (rule updated_room) (use that in simp)
      qed (use U(1) in simp_all)
    qed
    ultimately show ?thesis using True by simp
  qed
qed

section \<open>A concrete disk\<close>

text \<open>Eight blocks: inodes in blocks 2 and 3, the bitmap in block 4, data from block 5 on; an empty file
  and an empty directory in memory.\<close>

definition demo_bitmap :: "byte list" where
  "demo_bitmap = (replicate BSIZE 0)[0 := 31]"

definition demo_fs :: fs where
  "demo_fs = \<lparr>blocks = (replicate 8 (replicate BSIZE 0))[4 := demo_bitmap], held = [], logged = [], log_capacity = 30, ops = 1,
     sb = \<lparr>sb_size = 8, sb_nblocks = 3, sb_ninodes = 8, sb_nlog = 0, sb_logstart = 2, sb_inodestart = 2, sb_bmapstart = 4\<rparr>,
     icache = [\<lparr>i_dev = 1, i_inum = 1, i_ref = 1, i_lock = initsleeplock ''inode'', i_valid = True, i_type = T_DIR, i_major = 0,
         i_minor = 0, i_nlink = 1, i_size = 0, i_addrs = replicate 13 0\<rparr>,
       \<lparr>i_dev = 1, i_inum = 2, i_ref = 1, i_lock = initsleeplock ''inode'', i_valid = True, i_type = T_FILE, i_major = 0,
         i_minor = 0, i_nlink = 1, i_size = 0, i_addrs = replicate 13 0\<rparr>]\<rparr>"

lemma demo_fs_simps [simp]: "sb_size (sb demo_fs) = 8" "held demo_fs = []" "length (blocks demo_fs) = 8" "logged demo_fs = []"
  "data_start demo_fs = 5" "bitmap_block demo_fs n = 4 + n div BPB" "blocks demo_fs ! 4 = demo_bitmap"
  "n \<noteq> 4 \<Longrightarrow> n < 8 \<Longrightarrow> blocks demo_fs ! n = replicate BSIZE 0" "length (icache demo_fs) = 2"
  by (simp_all add: demo_fs_def data_start_def bitmap_block_def BPB_def BSIZE_def nth_Cons')

lemma demo_used: "n < 8 \<Longrightarrow> used demo_fs n \<longleftrightarrow> n < 5"
proof -
  assume n: "n < 8"
  then have "used demo_fs n \<longleftrightarrow> bit (31 :: byte) n"
    by (simp add: used_def bit_set_eq demo_bitmap_def BPB_def BSIZE_def)
  also have "\<dots> \<longleftrightarrow> n < 5" using n by (auto simp: less_Suc_eq numeral_eq_Suc bit_simps)
  finally show ?thesis .
qed

lemma demo_layout: "layout_ok demo_fs" "room 28 demo_fs"
proof -
  have "\<forall>d \<in> set (blocks demo_fs). length d = BSIZE"
    unfolding demo_fs_def using set_update_subset_insert [of "replicate 8 (replicate BSIZE (0 :: byte))" 4 demo_bitmap]
    by (auto simp: demo_bitmap_def)
  then show "layout_ok demo_fs"
    using demo_used by (simp add: layout_ok_def) (simp add: demo_fs_def IPB_def BSIZE_def)
  show "room 28 demo_fs" by (simp add: room_def demo_fs_def LOGSIZE_def MAXOPBLOCKS_def)
qed

section \<open>Properties\<close>

text \<open>C15: on a well-formed disk inside a transaction with room for two blocks, \<open>balloc\<close> returns a data
  block whose bit was clear, marks exactly this block used and fills it with zeros; no other block
  outside of the bitmap changes, and the disk stays well formed.\<close>

theorem balloc_takes_free_block:
  assumes "layout_ok s" and "room 2 s" and "held s = []" and "\<exists>n < disk_size s. \<not> used s n"
  shows "\<exists>n s'. balloc 1 s = Some (of_nat n, s') \<and> data_start s \<le> n \<and> n < disk_size s \<and> \<not> used s n \<and> layout_ok s' \<and>
    (\<forall>k < disk_size s. used s' k \<longleftrightarrow> used s k \<or> k = n) \<and> blocks s' ! n = replicate BSIZE 0 \<and>
    (\<forall>m. m \<noteq> n \<longrightarrow> (\<forall>k \<le> disk_size s. m \<noteq> bitmap_block s k) \<longrightarrow> blocks s' ! m = blocks s ! m)"
proof -
  have "held_used s" using assms(3) by (simp add: held_used_def)
  then show ?thesis using balloc_ok [OF assms(1,2) _ assms(4)] unfolding allocated_def by blast
qed

theorem balloc_takes_free_block_witness:
  "\<exists>n s'. balloc 1 demo_fs = Some (of_nat n, s') \<and> 5 \<le> n \<and> n < 8 \<and> used s' n \<and> blocks s' ! n = replicate BSIZE 0"
proof -
  have "\<exists>n < disk_size demo_fs. \<not> used demo_fs n" using demo_used [of 5] by (intro exI [of _ 5]) simp
  moreover have "room 2 demo_fs" using demo_layout(2) by (rule room_less) simp
  ultimately obtain n s' where "balloc 1 demo_fs = Some (of_nat n, s')" "5 \<le> n" "n < 8" "used s' n"
    "blocks s' ! n = replicate BSIZE 0"
    using balloc_takes_free_block [OF demo_layout(1)] by auto
  then show ?thesis by blast
qed

text \<open>C16: \<open>bfree\<close> panics on a free block; a block that \<open>balloc\<close> returned can be freed, and this restores
  the set of used blocks.\<close>

theorem bfree_inverts_balloc:
  assumes "layout_ok s" and "room 3 s" and "held s = []" and "\<exists>n < disk_size s. \<not> used s n" and "balloc 1 s = Some (b, s1)"
  shows "bfree 1 b s = None \<and> (\<exists>s2. bfree 1 b s1 = Some s2 \<and> layout_ok s2 \<and> (\<forall>k < disk_size s. used s2 k = used s k))"
proof -
  have h: "held_used s" using assms(3) by (simp add: held_used_def)
  have r: "room 2 s" "room 1 s" using assms(2) by (auto intro: room_less)
  obtain n where n: "b = of_nat n" and a: "allocated s n s1"
    using balloc_ok [OF assms(1) r(1) h assms(4)] assms(5) by auto
  note A = a [unfolded allocated_def]
  have b: "unat b = n" using BBLOCK_unat(2) [OF assms(1)] A n by simp
  have 1: "bfree 1 b s = None" using bfree_ok [OF assms(1) r(2) h, of b] b A by simp
  note E = same_layout_eqs [of s s1]
  have "held_used s1" "room 1 s1" "used s1 n" using A E assms(2,3) by (auto simp: held_used_def numeral_eq_Suc)
  then obtain s2 where "bfree 1 b s1 = Some s2" "freed s1 n s2"
    using bfree_ok [of s1 b] b A E by auto
  then show ?thesis using 1 A E unfolding freed_def by auto
qed

theorem bfree_inverts_balloc_witness:
  "\<exists>b s1 s2. balloc 1 demo_fs = Some (b, s1) \<and> bfree 1 b demo_fs = None \<and> bfree 1 b s1 = Some s2 \<and>
    (\<forall>k < 8. used s2 k \<longleftrightarrow> k < 5)"
proof -
  have f: "\<exists>n < disk_size demo_fs. \<not> used demo_fs n" using demo_used [of 5] by (intro exI [of _ 5]) simp
  have r: "room 2 demo_fs" "room 3 demo_fs" using demo_layout(2) by (auto intro: room_less)
  have "held_used demo_fs" by (simp add: held_used_def)
  then obtain b s1 where b: "balloc 1 demo_fs = Some (b, s1)" using balloc_ok [OF demo_layout(1) r(1) _ f] by blast
  then show ?thesis using bfree_inverts_balloc [OF demo_layout(1) r(2) _ f b] demo_used by auto
qed

end
