(* ===== verification/FsFiles.thy ===== *)
theory FsFiles
  imports FsBlocks
begin

text \<open>
  The contents of files: \<open>bmap\<close> as a map from positions in a file to blocks, and \<open>readi\<close> and \<open>writei\<close>
  as operations on a list of bytes. \<open>slot\<close> numbers the block pointers of an inode: \<open>k < MAXFILE\<close> is
  the block of the file's part \<open>k\<close>, and \<open>MAXFILE\<close> the indirect block.
\<close>

section \<open>The blocks of an inode\<close>

definition file_block :: "'a fs_scheme \<Rightarrow> inode \<Rightarrow> nat \<Rightarrow> u32" where
  "file_block s ip bn =
     (if bn < NDIRECT then i_addrs ip ! bn
      else if i_addrs ip ! NDIRECT = 0 then 0
      else get32 (blocks s ! unat (i_addrs ip ! NDIRECT)) (4 * (bn - NDIRECT)))"

definition slot :: "'a fs_scheme \<Rightarrow> inode \<Rightarrow> nat \<Rightarrow> u32" where
  "slot s ip k = (if k < MAXFILE then file_block s ip k else i_addrs ip ! NDIRECT)"

definition inode_ok :: "'a fs_scheme \<Rightarrow> inode \<Rightarrow> bool" where
  "inode_ok s ip \<longleftrightarrow> i_dev ip = 1 \<and> length (i_addrs ip) = NDIRECT + 1 \<and>
     (\<forall>k \<le> MAXFILE. slot s ip k \<noteq> 0 \<longrightarrow>
        data_start s \<le> unat (slot s ip k) \<and> unat (slot s ip k) < disk_size s \<and> used s (unat (slot s ip k))) \<and>
     (\<forall>j \<le> MAXFILE. \<forall>k \<le> MAXFILE. slot s ip j \<noteq> 0 \<longrightarrow> slot s ip j = slot s ip k \<longrightarrow> j = k)"

definition own :: "'a fs_scheme \<Rightarrow> inode \<Rightarrow> nat set" where
  "own s ip = {unat (slot s ip k) | k. k \<le> MAXFILE \<and> slot s ip k \<noteq> 0}"

definition file_byte :: "'a fs_scheme \<Rightarrow> inode \<Rightarrow> nat \<Rightarrow> byte" where
  "file_byte s ip p = (if file_block s ip (p div BSIZE) = 0 then 0 else blocks s ! unat (file_block s ip (p div BSIZE)) ! (p mod BSIZE))"

definition contents :: "'a fs_scheme \<Rightarrow> inode \<Rightarrow> byte list" where
  "contents s ip = map (file_byte s ip) [0..<unat (i_size ip)]"

lemma MAXFILE_simps: "NDIRECT = 12" "NINDIRECT = 128" "MAXFILE = 140" "BSIZE = 512"
  by (simp_all add: NDIRECT_def NINDIRECT_def MAXFILE_def BSIZE_def)

lemma slot_file_block: "k < MAXFILE \<Longrightarrow> slot s ip k = file_block s ip k"
  by (simp add: slot_def)

lemma slot_indirect: "slot s ip MAXFILE = i_addrs ip ! NDIRECT"
  by (simp add: slot_def)

lemma inode_okD:
  assumes "inode_ok s ip"
  shows "i_dev ip = 1" "length (i_addrs ip) = NDIRECT + 1"
    "k \<le> MAXFILE \<Longrightarrow> slot s ip k \<noteq> 0 \<Longrightarrow> data_start s \<le> unat (slot s ip k)"
    "k \<le> MAXFILE \<Longrightarrow> slot s ip k \<noteq> 0 \<Longrightarrow> unat (slot s ip k) < disk_size s"
    "k \<le> MAXFILE \<Longrightarrow> slot s ip k \<noteq> 0 \<Longrightarrow> used s (unat (slot s ip k))"
    "j \<le> MAXFILE \<Longrightarrow> k \<le> MAXFILE \<Longrightarrow> slot s ip j \<noteq> 0 \<Longrightarrow> slot s ip j = slot s ip k \<Longrightarrow> j = k"
  using assms unfolding inode_ok_def by blast+

lemma data_not_bitmap: "data_start s \<le> m \<Longrightarrow> k \<le> disk_size s \<Longrightarrow> m \<noteq> bitmap_block s k"
  using bitmap_block_less [of k s] by auto

text \<open>An operation that may give the inode \<open>i\<close> more blocks and change their contents, and touches no
  other block in use; one that also keeps the contents of the file.\<close>

definition kept :: "nat \<Rightarrow> 'a fs_scheme \<Rightarrow> 'a fs_scheme \<Rightarrow> bool" where
  "kept i s s' \<longleftrightarrow> layout_ok s' \<and> same_layout s s' \<and>
     (\<exists>a. icache s' = (icache s)[i := (icache s ! i)\<lparr>i_addrs := a\<rparr>]) \<and> inode_ok s' (icache s' ! i) \<and>
     (\<forall>k \<le> MAXFILE. slot s (icache s ! i) k \<noteq> 0 \<longrightarrow> slot s' (icache s' ! i) k = slot s (icache s ! i) k) \<and>
     (\<forall>n < disk_size s. used s n \<longrightarrow> used s' n) \<and>
     (\<forall>n < disk_size s. used s' n \<longrightarrow> used s n \<or> n \<in> own s' (icache s' ! i)) \<and>
     (\<forall>n \<in> own s' (icache s' ! i). n \<in> own s (icache s ! i) \<or> \<not> used s n) \<and>
     (\<forall>m < disk_size s. data_start s \<le> m \<longrightarrow> used s m \<longrightarrow> m \<notin> own s (icache s ! i) \<longrightarrow> blocks s' ! m = blocks s ! m)"

definition grown :: "nat \<Rightarrow> 'a fs_scheme \<Rightarrow> 'a fs_scheme \<Rightarrow> bool" where
  "grown i s s' \<longleftrightarrow> kept i s s' \<and> (\<forall>p < MAXFILE * BSIZE. file_byte s' (icache s' ! i) p = file_byte s (icache s ! i) p)"

lemma keptD:
  assumes "kept i s s'"
  shows "layout_ok s'" "same_layout s s'" "\<exists>a. icache s' = (icache s)[i := (icache s ! i)\<lparr>i_addrs := a\<rparr>]" "inode_ok s' (icache s' ! i)"
    "k \<le> MAXFILE \<Longrightarrow> slot s (icache s ! i) k \<noteq> 0 \<Longrightarrow> slot s' (icache s' ! i) k = slot s (icache s ! i) k"
    "n < disk_size s \<Longrightarrow> used s n \<Longrightarrow> used s' n"
    "n < disk_size s \<Longrightarrow> used s' n \<Longrightarrow> used s n \<or> n \<in> own s' (icache s' ! i)"
    "n \<in> own s' (icache s' ! i) \<Longrightarrow> n \<in> own s (icache s ! i) \<or> \<not> used s n"
    "m < disk_size s \<Longrightarrow> data_start s \<le> m \<Longrightarrow> used s m \<Longrightarrow> m \<notin> own s (icache s ! i) \<Longrightarrow> blocks s' ! m = blocks s ! m"
  using assms unfolding kept_def by blast+

lemma grown_kept: "grown i s s' \<Longrightarrow> kept i s s'"
  by (simp add: grown_def)

lemma grown_byte: "grown i s s' \<Longrightarrow> p < MAXFILE * BSIZE \<Longrightarrow> file_byte s' (icache s' ! i) p = file_byte s (icache s ! i) p"
  by (simp add: grown_def)

lemma grown_refl: "layout_ok s \<Longrightarrow> inode_ok s (icache s ! i) \<Longrightarrow> grown i s s"
  by (auto simp: grown_def kept_def intro!: exI [of _ "i_addrs (icache s ! i)"])

lemma own_used: "inode_ok s ip \<Longrightarrow> n \<in> own s ip \<Longrightarrow> used s n \<and> data_start s \<le> n \<and> n < disk_size s"
  using inode_okD by (auto simp: own_def)

lemma own_mono:
  assumes "\<forall>k \<le> MAXFILE. slot s ip k \<noteq> 0 \<longrightarrow> slot s' ip' k = slot s ip k"
  shows "own s ip \<subseteq> own s' ip'"
  using assms unfolding own_def by (smt (verit) Collect_mono_iff)

lemma kept_trans:
  assumes 1: "kept i s t" and 2: "kept i t u"
  shows "kept i s u"
proof -
  note A = keptD [OF 1] and B = keptD [OF 2]
  note E = same_layout_eqs [OF A(2)]
  obtain a where a: "icache t = (icache s)[i := (icache s ! i)\<lparr>i_addrs := a\<rparr>]" using A(3) by blast
  obtain b where b: "icache u = (icache t)[i := (icache t ! i)\<lparr>i_addrs := b\<rparr>]" using B(3) by blast
  have "icache u = (icache s)[i := (icache s ! i)\<lparr>i_addrs := b\<rparr>]"
    using a b by (cases "i < length (icache s)") (simp_all add: list_update_beyond)
  moreover have slots: "slot u (icache u ! i) k = slot s (icache s ! i) k" if "k \<le> MAXFILE" "slot s (icache s ! i) k \<noteq> 0" for k
    using A(5) [OF that] B(5) [of k] that by simp
  moreover have "own t (icache t ! i) \<subseteq> own u (icache u ! i)" by (rule own_mono) (use B(5) in blast)
  moreover have "used s n \<or> n \<in> own u (icache u ! i)" if "n < disk_size s" "used u n" for n
    using B(7) [of n] A(7) [of n] that E calculation(3) by auto
  moreover have "n \<in> own s (icache s ! i) \<or> \<not> used s n" if "n \<in> own u (icache u ! i)" for n
    using that A(8) [of n] B(8) [of n] A(6) [of n] own_used [OF B(4) that] same_layout_eqs [OF B(2)] E by auto
  moreover have "blocks u ! m = blocks s ! m" if "m < disk_size s" "data_start s \<le> m" "used s m" "m \<notin> own s (icache s ! i)" for m
    using A(8) [of m] A(9) [OF that] B(9) [of m] A(6) [of m] that E by auto
  moreover have "used u n" if "n < disk_size s" "used s n" for n using A(6) [OF that] B(6) [of n] that E by simp
  ultimately show ?thesis
    using B(1,4) same_layout_trans [OF A(2) B(2)] unfolding kept_def by blast
qed

lemma grown_trans: "grown i s t \<Longrightarrow> grown i t u \<Longrightarrow> grown i s u"
  using kept_trans by (fastforce simp: grown_def)

text \<open>The step both cases of \<open>bmap\<close> make: a fresh block of zeros becomes the pointer \<open>k\<close>.\<close>

lemma grow_step:
  fixes s s' :: "'a fs_scheme"
  assumes ok: "inode_ok s (icache s ! i)" and lay: "layout_ok s'" "same_layout s s'"
    and ic: "icache s' = (icache s)[i := (icache s ! i)\<lparr>i_addrs := a\<rparr>]" "i < length (icache s)" "length a = NDIRECT + 1"
    and fresh: "n < disk_size s" "data_start s \<le> n" "\<not> used s n" "unat b = n" "blocks s' ! n = replicate BSIZE 0"
    and u: "\<forall>k < disk_size s. used s' k \<longleftrightarrow> used s k \<or> k = n"
    and slots: "\<And>j. j \<le> MAXFILE \<Longrightarrow> slot s' (icache s' ! i) j = (if j = k then b else slot s (icache s ! i) j)"
    and k: "k \<le> MAXFILE" "slot s (icache s ! i) k = 0"
    and same: "\<And>m. data_start s \<le> m \<Longrightarrow> m \<noteq> n \<Longrightarrow> m \<noteq> unat (slot s (icache s ! i) MAXFILE) \<Longrightarrow> blocks s' ! m = blocks s ! m"
  shows "grown i s s'"
proof -
  let ?ip = "icache s ! i" and ?ip' = "icache s' ! i"
  note I = inode_okD [OF ok] and E = same_layout_eqs [OF lay(2)]
  have b0: "b \<noteq> 0" using fresh(2,4) by (auto simp: data_start_def)
  have old: "unat (slot s ?ip j) \<noteq> n" if "j \<le> MAXFILE" "slot s ?ip j \<noteq> 0" for j
    using I(5) [OF that] fresh(3) by auto
  have slot': "slot s' ?ip' j \<noteq> 0 \<longleftrightarrow> j = k \<or> slot s ?ip j \<noteq> 0" if "j \<le> MAXFILE" for j
    using slots [OF that] b0 by auto
  have ok': "inode_ok s' ?ip'"
    unfolding inode_ok_def
  proof (intro conjI allI impI)
    show "i_dev ?ip' = 1" "length (i_addrs ?ip') = NDIRECT + 1" using ic I(1) by simp_all
    fix j assume j: "j \<le> MAXFILE" "slot s' ?ip' j \<noteq> 0"
    show "data_start s' \<le> unat (slot s' ?ip' j)" "unat (slot s' ?ip' j) < disk_size s'" "used s' (unat (slot s' ?ip' j))"
      using slots [OF j(1)] slot' [OF j(1)] j I(3-5) [OF j(1)] fresh E u by (auto split: if_splits)
    fix l assume l: "l \<le> MAXFILE" and e: "slot s' ?ip' j = slot s' ?ip' l"
    show "j = l"
    proof (cases "j = k \<or> l = k")
      case True
      then show ?thesis using e slots [OF j(1)] slots [OF l] slot' [OF j(1)] old [OF j(1)] old [OF l] fresh(4) j(2)
        by (auto split: if_splits)
    next
      case False
      then show ?thesis using e slots [OF j(1)] slots [OF l] I(6) [OF j(1) l] j(2) by simp
    qed
  qed
  have keep: "slot s' ?ip' j = slot s ?ip j" if "j \<le> MAXFILE" "slot s ?ip j \<noteq> 0" for j
    using slots [OF that(1)] k(2) that(2) by auto
  have bytes: "file_byte s' ?ip' p = file_byte s ?ip p" if p: "p < MAXFILE * BSIZE" for p
  proof -
    have bn: "p div BSIZE < MAXFILE" using p by (simp add: less_mult_imp_div_less)
    then have bn': "p div BSIZE \<le> MAXFILE" by simp
    show ?thesis
    proof (cases "slot s ?ip (p div BSIZE) = 0")
      case True
      have "p mod BSIZE < BSIZE" by (simp add: BSIZE_def)
      then show ?thesis
        using True slots [OF bn'] fresh(4,5) bn by (simp add: file_byte_def slot_file_block)
    next
      case False
      have "slot s ?ip (p div BSIZE) \<noteq> slot s ?ip MAXFILE"
        using I(6) [OF bn' order_refl False] bn by auto
      then have "blocks s' ! unat (slot s ?ip (p div BSIZE)) = blocks s ! unat (slot s ?ip (p div BSIZE))"
        using same [OF I(3) [OF bn' False] old [OF bn' False]] by (auto dest: unsigned_word_eqI)
      then show ?thesis
        using keep [OF bn' False] bn False by (simp add: file_byte_def slot_file_block)
    qed
  qed
  have own': "own s' ?ip' = insert n (own s ?ip)"
  proof
    show "own s' ?ip' \<subseteq> insert n (own s ?ip)"
      using slots slot' fresh(4) unfolding own_def by (auto split: if_splits)
    have "n \<in> own s' ?ip'" using slots [OF k(1)] k(1) b0 fresh(4) by (force simp: own_def)
    moreover have "own s ?ip \<subseteq> own s' ?ip'" by (rule own_mono) (use keep in blast)
    ultimately show "insert n (own s ?ip) \<subseteq> own s' ?ip'" by blast
  qed
  have ind: "unat (slot s ?ip MAXFILE) = 0 \<or> unat (slot s ?ip MAXFILE) \<in> own s ?ip"
    by (auto simp: own_def)
  show ?thesis
    unfolding grown_def kept_def
  proof (intro conjI allI impI ballI)
    show "\<exists>a. icache s' = (icache s)[i := ?ip\<lparr>i_addrs := a\<rparr>]" using ic(1) by blast
    show "blocks s' ! m = blocks s ! m" if "m < disk_size s" "data_start s \<le> m" "used s m" "m \<notin> own s ?ip" for m
    proof (rule same [OF that(2)])
      show "m \<noteq> n" using that(3) fresh(3) by blast
      show "m \<noteq> unat (slot s ?ip MAXFILE)" using ind that(2,4) by (auto simp: data_start_def)
    qed
  qed (use lay ok' keep bytes own' u fresh(3) in auto)
qed

section \<open>\<open>bmap\<close>\<close>

lemma set_inode_simps [simp]:
  "blocks (set_inode i f s) = blocks s" "held (set_inode i f s) = held s" "logged (set_inode i f s) = logged s"
  "sb (set_inode i f s) = sb s" "ops (set_inode i f s) = ops s" "log_capacity (set_inode i f s) = log_capacity s"
  "icache (set_inode i f s) = (icache s)[i := f (icache s ! i)]" "fs.more (set_inode i f s) = fs.more s"
  by (simp_all add: set_inode_def)

lemma ignores_inodes [simp]:
  "used (set_inode i f s) = used s" "bitmap_block (set_inode i f s) = bitmap_block s" "data_start (set_inode i f s) = data_start s"
  "layout_ok (set_inode i f s) = layout_ok s" "room k (set_inode i f s) = room k s" "file_block (set_inode i f s) = file_block s"
  "slot (set_inode i f s) = slot s" "same_layout t (set_inode i f s) = same_layout t s"
  by (auto simp: used_def bitmap_block_def data_start_def layout_ok_def room_def file_block_def slot_def same_layout_def fun_eq_iff)

lemma ignores_held [simp]:
  "used (s\<lparr>held := h\<rparr>) = used s" "bitmap_block (s\<lparr>held := h\<rparr>) = bitmap_block s" "data_start (s\<lparr>held := h\<rparr>) = data_start s"
  "layout_ok (s\<lparr>held := h\<rparr>) = layout_ok s" "file_block (s\<lparr>held := h\<rparr>) = file_block s" "slot (s\<lparr>held := h\<rparr>) = slot s"
  by (auto simp: used_def bitmap_block_def data_start_def layout_ok_def file_block_def slot_def fun_eq_iff)

definition free_blocks :: "'a fs_scheme \<Rightarrow> nat" where
  "free_blocks s = card {n. n < disk_size s \<and> \<not> used s n}"

lemma free_exists: "0 < free_blocks s \<Longrightarrow> \<exists>n < disk_size s. \<not> used s n"
  by (auto simp: free_blocks_def card_gt_0_iff)

lemma free_take:
  assumes "n < disk_size s" "\<not> used s n" "disk_size s' = disk_size s" "\<forall>k < disk_size s. used s' k \<longleftrightarrow> used s k \<or> k = n"
  shows "free_blocks s' = free_blocks s - 1"
proof -
  have "{k. k < disk_size s' \<and> \<not> used s' k} = {k. k < disk_size s \<and> \<not> used s k} - {n}" using assms by auto
  then show ?thesis using assms(1,2) by (simp add: free_blocks_def)
qed

text \<open>An inode of which one direct pointer, or the pointer to the indirect block, is set.\<close>

lemma grow_pointer:
  assumes ok: "inode_ok s (icache s ! i)" and i: "i < length (icache s)"
    and a: "allocated s n s1" and k: "k \<le> NDIRECT" "i_addrs (icache s ! i) ! k = 0" and b: "unat b = n"
  defines "s' \<equiv> set_inode i (\<lambda>ip. ip\<lparr>i_addrs := (i_addrs ip)[k := b]\<rparr>) s1"
  shows "grown i s s'" "slot s' (icache s' ! i) (if k < NDIRECT then k else MAXFILE) = b"
proof -
  let ?ip = "icache s ! i" and ?k = "if k < NDIRECT then k else MAXFILE"
  note A = a [unfolded allocated_def] and I = inode_okD [OF ok]
  have ic: "icache s1 = icache s" "layout_ok s1" "same_layout s s1" using A by simp_all
  have ip': "icache s' ! i = ?ip\<lparr>i_addrs := (i_addrs ?ip)[k := b]\<rparr>" using i ic(1) by (simp add: s'_def)
  have k': "?k \<le> MAXFILE" "slot s ?ip ?k = 0"
    using k by (auto simp: slot_def file_block_def MAXFILE_simps)
  have data: "blocks s1 ! m = blocks s ! m" if "data_start s \<le> m" "m \<noteq> n" for m
    using A that data_not_bitmap [OF that(1)] by blast
  have slots: "slot s' (icache s' ! i) j = (if j = ?k then b else slot s ?ip j)" if j: "j \<le> MAXFILE" for j
  proof (cases "j < NDIRECT \<or> j = MAXFILE")
    case True
    then show ?thesis using k I(2) unfolding ip' by (auto simp: slot_def file_block_def MAXFILE_simps nth_update_if s'_def)
  next
    case False
    then have j': "NDIRECT \<le> j" "j < MAXFILE" "j \<noteq> ?k" using j by (auto simp: MAXFILE_simps)
    have "file_block s1 (?ip\<lparr>i_addrs := (i_addrs ?ip)[k := b]\<rparr>) j = file_block s ?ip j"
    proof (cases "k < NDIRECT")
      case True
      have "blocks s1 ! unat (i_addrs ?ip ! NDIRECT) = blocks s ! unat (i_addrs ?ip ! NDIRECT)" if "i_addrs ?ip ! NDIRECT \<noteq> 0"
        using data I(3,5) [of MAXFILE] that A by (auto simp: slot_indirect)
      then show ?thesis using True j' by (auto simp: file_block_def)
    next
      case False
      then have "k = NDIRECT" using k(1) by simp
      moreover have "blocks s1 ! n = replicate BSIZE 0" using A by simp
      moreover have "4 * (j - NDIRECT) + 4 \<le> BSIZE" using j' by (simp add: MAXFILE_simps)
      ultimately show ?thesis using j' k(2) b I(2) by (simp add: file_block_def get_zero)
    qed
    then show ?thesis using j' unfolding ip' by (simp add: slot_def s'_def)
  qed
  then show "slot s' (icache s' ! i) ?k = b" using k'(1) by simp
  show "grown i s s'"
  proof (rule grow_step [OF ok _ _ _ i _ _ _ _ b _ _ slots k'])
    show "icache s' = (icache s)[i := ?ip\<lparr>i_addrs := (i_addrs ?ip)[k := b]\<rparr>]" using ic(1) by (simp add: s'_def)
  qed (use A ic data I(2) in \<open>auto simp: s'_def\<close>)
qed

text \<open>A new entry in the indirect block.\<close>

lemma grow_entry:
  assumes ok: "inode_ok s (icache s ! i)" and i: "i < length (icache s)" and lay: "layout_ok s"
    and a: "allocated s n s1" and e: "NDIRECT \<le> bn" "bn < MAXFILE" and b: "unat b = n"
    and ind: "ind = i_addrs (icache s ! i) ! NDIRECT" "ind \<noteq> 0" and z: "slot s (icache s ! i) bn = 0"
  defines "s' \<equiv> updated ind (put32 (blocks s ! unat ind) (4 * (bn - NDIRECT)) b) s1"
  shows "grown i s s'" "slot s' (icache s' ! i) bn = b"
proof -
  let ?ip = "icache s ! i"
  note A = a [unfolded allocated_def] and I = inode_okD [OF ok]
  have ic: "icache s1 = icache s" "layout_ok s1" "same_layout s s1" using A by simp_all
  note E = same_layout_eqs [OF ic(3)]
  have indk: "slot s ?ip MAXFILE = ind" using ind(1) by (simp add: slot_indirect)
  have indd: "data_start s \<le> unat ind" "unat ind < disk_size s" "used s (unat ind)" using I(3-5) [of MAXFILE] indk ind(2) by auto
  have len: "length (blocks s ! unat ind) = BSIZE" "unat ind < length (blocks s1)" using disk_layoutD(1,4) [OF lay] indd(2) E(4) by auto
  have off: "4 * (bn - NDIRECT) + 4 \<le> BSIZE" using e by (simp add: MAXFILE_simps)
  let ?d = "put32 (blocks s ! unat ind) (4 * (bn - NDIRECT)) b"
  have dl: "length ?d = BSIZE" using len(1) off by simp
  have nb: "unat ind \<noteq> bitmap_block s1 k" if "k \<le> disk_size s1" for k using data_not_bitmap [OF indd(1)] that E by simp
  note U = updated_layout_ok [OF ic(2) dl nb, folded s'_def]
  have data: "blocks s1 ! m = blocks s ! m" if "data_start s \<le> m" "m \<noteq> n" for m
    using A that data_not_bitmap [OF that(1)] by blast
  have ip': "icache s' = icache s" using ic(1) by (simp add: s'_def)
  have bi: "blocks s' ! unat ind = ?d" using len(2) by (simp add: s'_def)
  have slots: "slot s' (icache s' ! i) j = (if j = bn then b else slot s ?ip j)" if j: "j \<le> MAXFILE" for j
  proof (cases "NDIRECT \<le> j \<and> j < MAXFILE")
    case True
    then have "get32 ?d (4 * (j - NDIRECT)) = (if j = bn then b else get32 (blocks s ! unat ind) (4 * (j - NDIRECT)))"
    proof (cases "j = bn")
      case False
      then have "4 * (j - NDIRECT) + 4 \<le> 4 * (bn - NDIRECT) \<or> 4 * (bn - NDIRECT) + 4 \<le> 4 * (j - NDIRECT)"
        using True e(1) by linarith
      then show ?thesis using False e len(1) True by (intro get_put_other(1) [THEN trans]) (auto simp: MAXFILE_simps)
    qed (use off len(1) in \<open>simp add: layout_simps\<close>)
    then show ?thesis using True ind bi ip' by (simp add: slot_def file_block_def)
  next
    case False
    then show ?thesis using e j ip' by (auto simp: slot_def file_block_def)
  qed
  then show "slot s' (icache s' ! i) bn = b" using e(2) by simp
  have bnle: "bn \<le> MAXFILE" using e(2) by simp
  have ne: "unat ind \<noteq> n" using indd(3) A by auto
  show "grown i s s'"
  proof (rule grow_step [OF ok _ _ _ i _ _ _ _ b _ _ slots bnle z])
    show "icache s' = (icache s)[i := ?ip\<lparr>i_addrs := i_addrs ?ip\<rparr>]" using ip' by simp
    show "same_layout s s'" using same_layout_trans [OF ic(3) same_layout_updated] by (simp add: s'_def)
    show "\<forall>k < disk_size s. used s' k \<longleftrightarrow> used s k \<or> k = n" using U(2) E A by auto
    show "blocks s' ! n = replicate BSIZE 0" using A ne by (simp add: s'_def)
    show "blocks s' ! m = blocks s ! m" if "data_start s \<le> m" "m \<noteq> n" "m \<noteq> unat (slot s ?ip MAXFILE)" for m
      using data [OF that(1,2)] that(3) indk by (simp add: s'_def)
  qed (use A U(1) I(2) in auto)
qed

definition bmapped :: "nat \<Rightarrow> nat \<Rightarrow> 'a fs_scheme \<Rightarrow> u32 \<Rightarrow> 'a fs_scheme \<Rightarrow> bool" where
  "bmapped i bn s addr s' \<longleftrightarrow> grown i s s' \<and> addr \<noteq> 0 \<and> slot s' (icache s' ! i) bn = addr \<and>
     (\<forall>k. room (k + 5) s \<longrightarrow> room k s') \<and> free_blocks s \<le> free_blocks s' + 2"

lemma allocated_free: "allocated s n s1 \<Longrightarrow> free_blocks s1 = free_blocks s - 1"
  by (intro free_take) (auto simp: allocated_def same_layout_eqs)

lemma held_eta: "held s = h \<Longrightarrow> s\<lparr>held := h\<rparr> = s"
  by (cases s) simp

lemma of_nat_nonzero: "0 < n \<Longrightarrow> n < 2 ^ 32 \<Longrightarrow> (of_nat n :: u32) \<noteq> 0"
  using unat_of_nat_u32 [of n] by auto

lemma allocated_addr:
  assumes "layout_ok s" "allocated s n s1"
  shows "unat (of_nat n :: u32) = n" "(of_nat n :: u32) \<noteq> 0"
proof -
  have n: "n < disk_size s" "data_start s \<le> n" using assms(2) by (simp_all add: allocated_def)
  then show u: "unat (of_nat n :: u32) = n" using BBLOCK_unat(2) [OF assms(1)] by blast
  show "(of_nat n :: u32) \<noteq> 0" using u n(2) by (auto simp: data_start_def)
qed

lemma bmap_direct:
  assumes lay: "layout_ok s" and ok: "inode_ok s (icache s ! i)" and i: "i < length (icache s)" and bn: "bn < NDIRECT"
    and h: "held s = []" and r: "room 2 s" and f: "1 \<le> free_blocks s"
  shows "\<exists>addr s'. bmap i bn s = Some (addr, s') \<and> bmapped i bn s addr s'"
proof (cases "i_addrs (icache s ! i) ! bn = 0")
  case False
  then show ?thesis
    using grown_refl [OF lay ok] bn by (auto simp: bmap_def bmapped_def slot_def file_block_def MAXFILE_simps intro: room_less)
next
  case True
  have hu: "held_used s" using h by (simp add: held_used_def)
  obtain n s1 where 1: "balloc 1 s = Some (of_nat n, s1)" "allocated s n s1"
    using balloc_ok [OF lay r hu free_exists] f by auto
  note N = allocated_addr [OF lay 1(2)]
  note G = grow_pointer [OF ok i 1(2) less_imp_le [OF bn] True N(1)]
  let ?s = "set_inode i (\<lambda>ip. ip\<lparr>i_addrs := (i_addrs ip)[bn := of_nat n]\<rparr>) s1"
  have "bmap i bn s = Some (of_nat n, ?s)"
    using 1(1) bn True inode_okD(1) [OF ok] by (simp add: bmap_def Let_def)
  moreover have "room k ?s" if "room (k + 5) s" for k
    using 1(2) room_less [OF that, of "k + 2"] by (simp add: allocated_def)
  moreover have "free_blocks ?s = free_blocks s - 1" using allocated_free [OF 1(2)] by (simp add: free_blocks_def)
  ultimately show ?thesis using G bn N(2) by (auto simp: bmapped_def)
qed

lemma bmap_entry:
  assumes lay: "layout_ok s" and ok: "inode_ok s (icache s ! i)" and i: "i < length (icache s)"
    and bn: "NDIRECT \<le> bn" "bn < MAXFILE" and ind: "ind = i_addrs (icache s ! i) ! NDIRECT" "ind \<noteq> 0"
    and h: "held s = []" and r: "room 3 s" and f: "1 \<le> free_blocks s"
  defines "e \<equiv> 4 * (bn - NDIRECT)"
  shows "\<exists>addr s'. do {
      (d, s) \<leftarrow> get_block 1 ind s;
      let addr = get32 d e;
      (addr, s) \<leftarrow> (if addr = 0 then do {
        (addr, s) \<leftarrow> balloc 1 s;
        s \<leftarrow> log_block ind (put32 d e addr) s;
        Some (addr, s)
      } else Some (addr, s));
      s \<leftarrow> put_block ind s;
      Some (addr, s)
    } = Some (addr, s') \<and> grown i s s' \<and> addr \<noteq> 0 \<and> slot s' (icache s' ! i) bn = addr \<and>
      (\<forall>k. room (k + 3) s \<longrightarrow> room k s') \<and> free_blocks s \<le> free_blocks s' + 1"
proof -
  let ?ip = "icache s ! i" and ?d = "blocks s ! unat ind"
  note I = inode_okD [OF ok]
  have indk: "slot s ?ip MAXFILE = ind" using ind(1) by (simp add: slot_indirect)
  have indd: "data_start s \<le> unat ind" "unat ind < disk_size s" "used s (unat ind)" using I(3-5) [of MAXFILE] indk ind(2) by auto
  have c: "can_read s" by (rule room_can_read [OF r]) (simp add: h)
  have nh: "ind \<notin> set (held s)" using h by simp
  have len: "unat ind < length (blocks s)" using indd(2) disk_layoutD(1) [OF lay] by simp
  note R = read_ok [OF c len nh]
  have e: "get32 ?d e = slot s ?ip bn" using bn ind by (simp add: slot_def file_block_def e_def)
  show ?thesis
  proof (cases "slot s ?ip bn = 0")
    case False
    then show ?thesis using R e grown_refl [OF lay ok] by (auto intro: room_less)
  next
    case True
    let ?t = "s\<lparr>held := ind # held s\<rparr>"
    have t: "layout_ok ?t" "room 2 ?t" "held_used ?t" "\<exists>n < disk_size ?t. \<not> used ?t n"
      using lay room_less [OF r, of 2] h indd(3) data_not_bitmap [OF indd(1)] free_exists [of s] f by (auto simp: held_used_def)
    obtain n t1 where 1: "balloc 1 ?t = Some (of_nat n, t1)" "allocated ?t n t1" using balloc_ok [OF t] by blast
    define s1 where "s1 = t1\<lparr>held := []\<rparr>"
    note N = allocated_addr [OF t(1) 1(2)]
    have t1: "held t1 = [ind]" "icache t1 = icache s" using 1(2) h by (auto simp: allocated_def dest: same_layout_eqs)
    then have t1': "t1 = s1\<lparr>held := ind # held s1\<rparr>" by (simp add: s1_def held_eta)
    have a: "allocated s n s1"
      using 1(2) h by (auto simp: allocated_def s1_def same_layout_def)
    let ?s' = "updated ind (put32 ?d e (of_nat n)) s1"
    have r1: "room 1 s1" using a r by (auto simp: allocated_def numeral_3_eq_3)
    have nh1: "ind \<notin> set (held s1)" by (simp add: s1_def)
    note W = write_ok [OF r1 _ nh1, of "put32 ?d e (of_nat n)", simplified, folded t1'[unfolded One_nat_def]]
    note G = grow_entry [OF ok i lay a bn N(1) ind True, folded e_def]
    have "room k ?s'" if "room (k + 3) s" for k
    proof (rule updated_room)
      have "room (Suc k + 2) s" using that by (simp add: numeral_eq_Suc)
      then show "room (Suc k) s1" using a unfolding allocated_def by blast
    qed
    moreover have "free_blocks s \<le> free_blocks ?s' + 1"
    proof -
      have E: "same_layout s s1" "layout_ok s1" using a by (simp_all add: allocated_def)
      have dl: "length (put32 ?d e (of_nat n)) = BSIZE"
        using disk_layoutD(4) [OF lay len] bn by (simp add: e_def MAXFILE_simps)
      have nb: "unat ind \<noteq> bitmap_block s1 k" if "k \<le> disk_size s1" for k
        using data_not_bitmap [OF indd(1)] that same_layout_eqs [OF E(1)] by simp
      have "free_blocks ?s' = free_blocks s1"
        unfolding free_blocks_def using updated_layout_ok(2) [OF E(2) dl nb] by (intro arg_cong [of _ _ card]) auto
      then show ?thesis using allocated_free [OF a] by simp
    qed
    ultimately show ?thesis
      using R e True 1(1) W G N(2) t1' by (intro exI [of _ "of_nat n"] exI [of _ ?s']) simp
  qed
qed

lemma bmap_ok:
  assumes lay: "layout_ok s" and ok: "inode_ok s (icache s ! i)" and i: "i < length (icache s)" and bn: "bn < MAXFILE"
    and h: "held s = []" and r: "room 5 s" and f: "2 \<le> free_blocks s"
  shows "\<exists>addr s'. bmap i bn s = Some (addr, s') \<and> bmapped i bn s addr s'"
proof (cases "bn < NDIRECT")
  case True
  then show ?thesis using bmap_direct [OF lay ok i True h room_less [OF r]] f by simp
next
  case False
  note I = inode_okD [OF ok]
  have bn': "NDIRECT \<le> bn" "bn - NDIRECT < NINDIRECT" using False bn by (simp_all add: MAXFILE_simps)
  let ?ind = "i_addrs (icache s ! i) ! NDIRECT"
  show ?thesis
  proof (cases "?ind = 0")
    case False
    have "room 3 s" "1 \<le> free_blocks s" using r f by (auto intro: room_less)
    note B = bmap_entry [OF lay ok i bn'(1) bn refl False h this]
    then obtain addr s' where 1: "bmap i bn s = Some (addr, s')" "grown i s s'" "addr \<noteq> 0" "slot s' (icache s' ! i) bn = addr"
      "\<And>k. room (k + 3) s \<Longrightarrow> room k s'" "free_blocks s \<le> free_blocks s' + 1"
      using \<open>\<not> bn < NDIRECT\<close> bn' False I(1) by (auto simp: bmap_def Let_def)
    have "room k s'" if "room (k + 5) s" for k using 1(5) room_less [OF that, of "k + 3"] by simp
    then show ?thesis using 1 unfolding bmapped_def by force
  next
    case True
    have hu: "held_used s" using h by (simp add: held_used_def)
    obtain n s1 where 1: "balloc 1 s = Some (of_nat n, s1)" "allocated s n s1"
      using balloc_ok [OF lay room_less [OF r] hu free_exists] f by auto
    note N = allocated_addr [OF lay 1(2)]
    note G = grow_pointer [OF ok i 1(2) order_refl True N(1)]
    let ?s = "set_inode i (\<lambda>ip. ip\<lparr>i_addrs := (i_addrs ip)[NDIRECT := of_nat n]\<rparr>) s1"
    note K = keptD [OF grown_kept [OF G(1)]]
    have a: "icache s1 = icache s" "same_layout s s1" using 1(2) by (simp_all add: allocated_def)
    have i': "i < length (icache ?s)" using i a(1) by simp
    have ind: "of_nat n = i_addrs (icache ?s ! i) ! NDIRECT" "(of_nat n :: u32) \<noteq> 0"
      using i a(1) I(2) N(2) by simp_all
    have room': "room k ?s" if "room (k + 2) s" for k using 1(2) that by (simp add: allocated_def)
    have r': "room 3 ?s" by (rule room') (use r in simp)
    have fr: "free_blocks ?s = free_blocks s - 1" using allocated_free [OF 1(2)] by (simp add: free_blocks_def)
    have h': "held ?s = []" using same_layout_eqs(5) [OF a(2)] h by simp
    have f': "1 \<le> free_blocks ?s" using f fr by simp
    note B = bmap_entry [OF K(1,4) i' bn'(1) bn ind h' r' f']
    then obtain addr s' where 2: "bmap i bn s = Some (addr, s')" "grown i ?s s'" "addr \<noteq> 0" "slot s' (icache s' ! i) bn = addr"
      "\<And>k. room (k + 3) ?s \<Longrightarrow> room k s'" "free_blocks ?s \<le> free_blocks s' + 1"
      using \<open>\<not> bn < NDIRECT\<close> bn' True I(1) 1(1) by (auto simp: bmap_def Let_def)
    have "room k s'" if "room (k + 5) s" for k by (rule 2(5), rule room') (use that in \<open>simp add: numeral_eq_Suc\<close>)
    then show ?thesis using 2 grown_trans [OF G(1) 2(2)] fr by (auto simp: bmapped_def)
  qed
qed

lemma bmap_present:
  assumes lay: "layout_ok s" and ok: "inode_ok s (icache s ! i)" and bn: "bn < MAXFILE" and nz: "slot s (icache s ! i) bn \<noteq> 0"
    and h: "held s = []" and c: "can_read s"
  shows "bmap i bn s = Some (slot s (icache s ! i) bn, s)"
proof (cases "bn < NDIRECT")
  case True
  then show ?thesis using nz bn by (simp add: bmap_def slot_def file_block_def)
next
  case False
  note I = inode_okD [OF ok]
  let ?ind = "i_addrs (icache s ! i) ! NDIRECT"
  have ind: "?ind \<noteq> 0" using nz False bn by (auto simp: slot_def file_block_def)
  then have "unat ?ind < length (blocks s)" using I(4) [of MAXFILE] disk_layoutD(1) [OF lay] by (simp add: slot_indirect)
  note R = read_ok [OF c this, unfolded h]
  have "bn - NDIRECT < NINDIRECT" using False bn by (simp add: MAXFILE_simps)
  moreover have "get32 (blocks s ! unat ?ind) (4 * (bn - NDIRECT)) = slot s (icache s ! i) bn"
    using False bn ind by (simp add: slot_def file_block_def)
  ultimately show ?thesis using False ind R nz I(1) h by (simp add: bmap_def Let_def)
qed

section \<open>\<open>readi\<close>\<close>

lemma same_part:
  assumes "q < BSIZE - p mod BSIZE"
  shows "(p + q) div BSIZE = p div BSIZE" "(p + q) mod BSIZE = p mod BSIZE + q"
proof -
  have q: "p mod BSIZE + q < BSIZE" using assms by simp
  have "p + q = p div BSIZE * BSIZE + (p mod BSIZE + q)" by simp
  then show "(p + q) div BSIZE = p div BSIZE" "(p + q) mod BSIZE = p mod BSIZE + q"
    using q by (metis add.commute add.right_neutral div_less div_mult_self3 gr_implies_not0, metis mod_less mod_mult_self3)
qed

lemma readi_loop_ok:
  assumes lay: "layout_ok s" and ok: "inode_ok s (icache s ! i)" and h: "held s = []" and c: "can_read s"
    and max: "off + n \<le> MAXFILE * BSIZE" and present: "\<forall>p. off \<le> p \<and> p < off + n \<longrightarrow> slot s (icache s ! i) (p div BSIZE) \<noteq> 0"
  shows "readi_loop i off n s = Some (map (file_byte s (icache s ! i)) [off..<off + n], s)"
  using max present
proof (induction n arbitrary: off rule: less_induct)
  case (less n)
  show ?case
  proof (cases "n = 0")
    case False
    note I = inode_okD [OF ok]
    let ?ip = "icache s ! i" and ?bn = "off div BSIZE" and ?m = "min n (BSIZE - off mod BSIZE)"
    have m: "0 < ?m" "?m \<le> n" "off mod BSIZE + ?m \<le> BSIZE" using False by (auto simp: BSIZE_def)
    have bn: "?bn < MAXFILE" using less.prems(1) False by (simp add: less_mult_imp_div_less)
    have nz: "slot s ?ip ?bn \<noteq> 0" using less.prems(2) False by simp
    let ?b = "slot s ?ip ?bn"
    have len: "unat ?b < length (blocks s)" using I(4) [of ?bn] bn nz disk_layoutD(1) [OF lay] by simp
    note R = read_ok [OF c len, unfolded h]
    have bl: "length (blocks s ! unat ?b) = BSIZE" by (rule disk_layoutD(4) [OF lay len])
    have "map (file_byte s ?ip) [off..<off + ?m] = segment (blocks s ! unat ?b) (off mod BSIZE) ?m"
    proof (rule nth_equalityI)
      show "length (map (file_byte s ?ip) [off..<off + ?m]) = length (segment (blocks s ! unat ?b) (off mod BSIZE) ?m)"
        using m bl by simp
      fix q assume "q < length (map (file_byte s ?ip) [off..<off + ?m])"
      then have q: "q < ?m" by simp
      then have "q < BSIZE - off mod BSIZE" by simp
      note S = same_part [OF this]
      show "map (file_byte s ?ip) [off..<off + ?m] ! q = segment (blocks s ! unat ?b) (off mod BSIZE) ?m ! q"
        using q m bl S nz bn by (simp add: file_byte_def slot_file_block)
    qed
    moreover have "readi_loop i (off + ?m) (n - ?m) s = Some (map (file_byte s ?ip) [off + ?m..<off + n], s)"
      using less.IH [of "n - ?m" "off + ?m"] m less.prems by simp
    moreover have "map f [off..<off + n] = map f [off..<off + ?m] @ map f [off + ?m..<off + n]" for f :: "nat \<Rightarrow> byte"
      using upt_add_eq_append [of off "off + ?m" "n - ?m"] m(2) by simp
    ultimately show ?thesis
      using False R bmap_present [OF lay ok bn nz h c] I(1) h
      by (subst readi_loop.simps) (simp add: Let_def)
  qed (simp add: readi_loop.simps)
qed

text \<open>A file whose size its blocks cover.\<close>

definition no_holes :: "'a fs_scheme \<Rightarrow> inode \<Rightarrow> bool" where
  "no_holes s ip \<longleftrightarrow> unat (i_size ip) \<le> MAXFILE * BSIZE \<and> (\<forall>p < unat (i_size ip). slot s ip (p div BSIZE) \<noteq> 0)"

lemma length_contents [simp]: "length (contents s ip) = unat (i_size ip)"
  by (simp add: contents_def)

lemma contents_part: "off + n \<le> unat (i_size ip) \<Longrightarrow> segment (contents s ip) off n = map (file_byte s ip) [off..<off + n]"
  by (rule nth_equalityI) (simp_all add: contents_def)

lemma max_bytes: "MAXFILE * BSIZE = 71680"
  by (simp add: MAXFILE_simps)

lemma readi_ok:
  assumes lay: "layout_ok s" and ok: "inode_ok s (icache s ! i)" and nh: "no_holes s (icache s ! i)"
    and h: "held s = []" and c: "can_read s" and ty: "i_type (icache s ! i) \<noteq> T_DEV"
    and off: "off \<le> i_size (icache s ! i)" "\<not> off + n < off"
  shows "readi ds i off n s = (let bs = take (unat n) (drop (unat off) (contents s (icache s ! i))) in Some (int (length bs), bs, s))"
proof -
  let ?ip = "icache s ! i"
  let ?n = "if i_size ?ip < off + n then i_size ?ip - off else n"
  have s: "unat (i_size ?ip) \<le> 71680" using nh unfolding no_holes_def max_bytes by blast
  have plus: "unat (off + n) = unat off + unat n" by (rule no_wrap_u32 [OF off(2)])
  have o: "unat off \<le> unat (i_size ?ip)" using off(1) by (simp add: word_le_nat_alt)
  have n: "unat ?n = min (unat n) (unat (i_size ?ip) - unat off)"
    using plus o off(1) by (auto simp: word_less_nat_alt unat_sub not_less)
  have "readi_loop i (unat off) (unat ?n) s = Some (map (file_byte s ?ip) [unat off..<unat off + unat ?n], s)"
    by (rule readi_loop_ok [OF lay ok h c]) (use nh n s o max_bytes in \<open>auto simp: no_holes_def\<close>)
  moreover have "map (file_byte s ?ip) [unat off..<unat off + unat ?n] = segment (contents s ?ip) (unat off) (unat ?n)"
    by (rule contents_part [symmetric]) (use n o in auto)
  moreover have "segment (contents s ?ip) (unat off) (unat ?n) = take (unat n) (drop (unat off) (contents s ?ip))"
    by (simp add: segment_def n min_def)
  moreover have "sint ?n = int (unat ?n)" by (rule sint_small) (use n s in auto)
  ultimately show ?thesis
    using ty off n o by (simp add: readi_def Let_def not_less min.commute)
qed

section \<open>\<open>writei\<close>\<close>

lemma write_block:
  assumes lay: "layout_ok s" and ok: "inode_ok s (icache s ! i)" and bn: "bn < MAXFILE"
    and a: "slot s (icache s ! i) bn = addr" "addr \<noteq> 0" and d: "length d = BSIZE"
  shows "kept i s (updated addr d s)"
    "p < MAXFILE * BSIZE \<Longrightarrow> file_byte (updated addr d s) (icache s ! i) p =
       (if p div BSIZE = bn then d ! (p mod BSIZE) else file_byte s (icache s ! i) p)"
    "free_blocks (updated addr d s) = free_blocks s"
proof -
  let ?ip = "icache s ! i" and ?s = "updated addr d s"
  note I = inode_okD [OF ok]
  have bn': "bn \<le> MAXFILE" using bn by simp
  have ad: "data_start s \<le> unat addr" "unat addr < disk_size s" "used s (unat addr)" using I(3-5) [OF bn'] a by auto
  have nb: "unat addr \<noteq> bitmap_block s k" if "k \<le> disk_size s" for k by (rule data_not_bitmap [OF ad(1) that])
  note U = updated_layout_ok [OF lay d nb]
  have E: "disk_size ?s = disk_size s" "data_start ?s = data_start s" using same_layout_eqs [OF same_layout_updated] by simp_all
  have len: "unat addr < length (blocks s)" using ad(2) disk_layoutD(1) [OF lay] by simp
  have other: "blocks ?s ! unat (slot s ?ip k) = blocks s ! unat (slot s ?ip k)" if "k \<le> MAXFILE" "slot s ?ip k \<noteq> 0" "k \<noteq> bn" for k
    using I(6) [OF that(1) bn' that(2)] that(3) a(1) by (auto simp: nth_update_if dest: unsigned_word_eqI)
  have slots: "slot ?s ?ip k = slot s ?ip k" if "k \<le> MAXFILE" for k
  proof -
    have "i_addrs ?ip ! NDIRECT \<noteq> 0 \<Longrightarrow> blocks ?s ! unat (i_addrs ?ip ! NDIRECT) = blocks s ! unat (i_addrs ?ip ! NDIRECT)"
      using other [of MAXFILE] bn by (simp add: slot_indirect)
    then show ?thesis by (auto simp: slot_def file_block_def)
  qed
  then have own: "own ?s ?ip = own s ?ip" unfolding own_def by (metis (mono_tags, lifting))
  have "inode_ok ?s ?ip"
    using ok slots U(2) E by (auto simp: inode_ok_def)
  moreover have "unat addr \<in> own s ?ip" using a bn' by (auto simp: own_def)
  ultimately show "kept i s ?s"
    unfolding kept_def using U slots own E
    by (auto simp: nth_update_if intro!: exI [of _ "i_addrs ?ip"])
  show "free_blocks ?s = free_blocks s"
    unfolding free_blocks_def using U(2) by (intro arg_cong [of _ _ card]) auto
  show "file_byte ?s ?ip p = (if p div BSIZE = bn then d ! (p mod BSIZE) else file_byte s ?ip p)" if p: "p < MAXFILE * BSIZE"
  proof -
    have k: "p div BSIZE < MAXFILE" using p by (simp add: less_mult_imp_div_less)
    then show ?thesis
      using slots [of "p div BSIZE"] other [of "p div BSIZE"] a len by (auto simp: file_byte_def slot_file_block)
  qed
qed

definition wrote :: "nat \<Rightarrow> nat \<Rightarrow> byte list \<Rightarrow> 'a fs_scheme \<Rightarrow> 'a fs_scheme \<Rightarrow> bool" where
  "wrote i off bs s s' \<longleftrightarrow> kept i s s' \<and>
     (\<forall>p < MAXFILE * BSIZE. file_byte s' (icache s' ! i) p =
        (if off \<le> p \<and> p < off + length bs then bs ! (p - off) else file_byte s (icache s ! i) p)) \<and>
     (\<forall>p. off \<le> p \<and> p < off + length bs \<longrightarrow> slot s' (icache s' ! i) (p div BSIZE) \<noteq> 0)"

lemma kept_index: "kept i s s' \<Longrightarrow> length (icache s') = length (icache s)"
  using keptD(3) by fastforce

lemma wroteD:
  assumes "wrote i off bs s s'"
  shows "kept i s s'"
    "p < MAXFILE * BSIZE \<Longrightarrow> file_byte s' (icache s' ! i) p =
        (if off \<le> p \<and> p < off + length bs then bs ! (p - off) else file_byte s (icache s ! i) p)"
    "off \<le> p \<Longrightarrow> p < off + length bs \<Longrightarrow> slot s' (icache s' ! i) (p div BSIZE) \<noteq> 0"
  using assms unfolding wrote_def by blast+

lemma wrote_trans:
  assumes 1: "wrote i off bs s t" and 2: "wrote i (off + length bs) bs' t u" and max: "off + length bs \<le> MAXFILE * BSIZE"
  shows "wrote i off (bs @ bs') s u"
proof -
  note A = wroteD [OF 1] and B = wroteD [OF 2]
  have "slot u (icache u ! i) (p div BSIZE) \<noteq> 0" if "off \<le> p" "p < off + length (bs @ bs')" for p
  proof (cases "p < off + length bs")
    case True
    then have "p div BSIZE \<le> MAXFILE" using max by (simp add: less_imp_le_nat less_mult_imp_div_less)
    then show ?thesis using A(3) [OF that(1) True] keptD(5) [OF B(1)] by simp
  next
    case False
    then show ?thesis using B(3) [of p] that by simp
  qed
  then show ?thesis
    using kept_trans [OF A(1) B(1)] A(2) B(2) unfolding wrote_def by (auto simp: nth_append)
qed

lemma place_in_part:
  assumes "off mod BSIZE + m \<le> BSIZE"
  shows "p div BSIZE = off div BSIZE \<and> off mod BSIZE \<le> p mod BSIZE \<and> p mod BSIZE < off mod BSIZE + m \<longleftrightarrow> off \<le> p \<and> p < off + m"
    "off \<le> p \<Longrightarrow> p < off + m \<Longrightarrow> p mod BSIZE - off mod BSIZE = p - off"
proof -
  have e: "p div BSIZE = off div BSIZE \<and> p mod BSIZE = off mod BSIZE + (p - off)" if "off \<le> p" "p < off + m"
    using same_part [of "p - off" off] that assms by simp
  show "p div BSIZE = off div BSIZE \<and> off mod BSIZE \<le> p mod BSIZE \<and> p mod BSIZE < off mod BSIZE + m \<longleftrightarrow> off \<le> p \<and> p < off + m"
  proof
    assume a: "p div BSIZE = off div BSIZE \<and> off mod BSIZE \<le> p mod BSIZE \<and> p mod BSIZE < off mod BSIZE + m"
    have "p = off div BSIZE * BSIZE + p mod BSIZE" "off = off div BSIZE * BSIZE + off mod BSIZE"
      using a div_mult_mod_eq [of p BSIZE] by simp_all
    then show "off \<le> p \<and> p < off + m" using a by linarith
  qed (use e in auto)
  show "off \<le> p \<Longrightarrow> p < off + m \<Longrightarrow> p mod BSIZE - off mod BSIZE = p - off" using e by simp
qed

text \<open>One pass of the loop.\<close>

lemma write_pass:
  assumes lay: "layout_ok s" and ok: "inode_ok s (icache s ! i)" and i: "i < length (icache s)" and h: "held s = []"
    and max: "off < MAXFILE * BSIZE" and m: "off mod BSIZE + length bs \<le> BSIZE" "bs \<noteq> []" and r: "room 6 s" and f: "2 \<le> free_blocks s"
  shows "\<exists>addr s1 s2. bmap i (off div BSIZE) s = Some (addr, s1) \<and> i_dev (icache s1 ! i) = 1 \<and>
    get_block 1 addr s1 = Some (blocks s1 ! unat addr, s1\<lparr>held := [addr]\<rparr>) \<and>
    log_block addr (overlay (blocks s1 ! unat addr) (off mod BSIZE) bs) (s1\<lparr>held := [addr]\<rparr>) = Some (s2\<lparr>held := [addr]\<rparr>) \<and>
    put_block addr (s2\<lparr>held := [addr]\<rparr>) = Some s2 \<and> wrote i off bs s s2 \<and>
    (\<forall>k. room (k + 6) s \<longrightarrow> room k s2) \<and> free_blocks s \<le> free_blocks s2 + 2"
proof -
  let ?bn = "off div BSIZE"
  have bn: "?bn < MAXFILE" using max by (simp add: less_mult_imp_div_less)
  have r5: "room 5 s" by (rule room_less [OF r]) simp
  obtain addr s1 where 1: "bmap i ?bn s = Some (addr, s1)" "bmapped i ?bn s addr s1"
    using bmap_ok [OF lay ok i bn h r5 f] by blast
  note M = 1(2) [unfolded bmapped_def]
  have g: "grown i s s1" using M by blast
  note K = keptD [OF grown_kept [OF g]]
  note I = inode_okD [OF K(4)]
  have a: "slot s1 (icache s1 ! i) ?bn = addr" "addr \<noteq> 0" "free_blocks s \<le> free_blocks s1 + 2" using M by blast+
  have room1: "room (Suc k) s1" if "room (k + 6) s" for k
  proof -
    have "room (Suc k + 5) s" using that by (simp add: numeral_eq_Suc)
    then show ?thesis using M by blast
  qed
  have r1: "room 1 s1" using room1 [of 0] r by simp
  have h1: "held s1 = []" using same_layout_eqs(5) [OF K(2)] h by simp
  have c: "can_read s1" by (rule room_can_read [OF r1]) (simp add: h1)
  have len: "unat addr < length (blocks s1)"
    using I(4) [of ?bn] a bn disk_layoutD(1) [OF K(1)] by simp
  note R = read_ok [OF c len, unfolded h1]
  let ?d = "blocks s1 ! unat addr"
  let ?d' = "overlay ?d (off mod BSIZE) bs"
  let ?s2 = "updated addr ?d' s1"
  have dl: "length ?d = BSIZE" by (rule disk_layoutD(4) [OF K(1) len])
  have dl': "length ?d' = BSIZE" using dl m(1) by simp
  note W = write_ok [OF r1 _, of addr ?d', unfolded h1]
  note B = write_block [OF K(1,4) bn a(1,2) dl']
  have bytes: "file_byte ?s2 (icache ?s2 ! i) p =
      (if off \<le> p \<and> p < off + length bs then bs ! (p - off) else file_byte s (icache s ! i) p)" if p: "p < MAXFILE * BSIZE" for p
  proof (cases "p div BSIZE = ?bn")
    case True
    then have f0: "file_byte s1 (icache s1 ! i) p = ?d ! (p mod BSIZE)"
      using a bn by (simp add: file_byte_def slot_file_block)
    have "?d' ! (p mod BSIZE) = (if off \<le> p \<and> p < off + length bs then bs ! (p - off) else ?d ! (p mod BSIZE))"
      using True place_in_part [OF m(1), of p] dl m(1) by (auto simp: nth_overlay)
    then show ?thesis using B(2) [OF p] True f0 grown_byte [OF g p] by simp
  next
    case False
    then have "\<not> (off \<le> p \<and> p < off + length bs)" using place_in_part(1) [OF m(1), of p] by blast
    then show ?thesis using B(2) [OF p] False grown_byte [OF g p] by auto
  qed
  have slots: "slot ?s2 (icache ?s2 ! i) (p div BSIZE) \<noteq> 0" if "off \<le> p" "p < off + length bs" for p
  proof -
    have "p div BSIZE = ?bn" using place_in_part(1) [OF m(1), of p] that by blast
    then show ?thesis using keptD(5) [OF B(1), of ?bn] a bn by simp
  qed
  have "wrote i off bs s ?s2"
    unfolding wrote_def using kept_trans [OF grown_kept [OF g] B(1)] bytes slots by blast
  moreover have "room k ?s2" if "room (k + 6) s" for k by (rule updated_room, rule room1 [OF that])
  ultimately show ?thesis
    using 1(1) I(1) R(1) W a(3) B(3) by (intro exI [of _ addr] exI [of _ s1] exI [of _ ?s2]) simp
qed

lemma writei_loop_ok:
  assumes "layout_ok s" "inode_ok s (icache s ! i)" "i < length (icache s)" "held s = []"
    and "off + n \<le> MAXFILE * BSIZE" "n \<le> length src"
    and "off + n \<le> (off div BSIZE + k) * BSIZE" "room (6 * k + l) s" "2 * k \<le> free_blocks s"
  shows "\<exists>s'. writei_loop i src off n s = Some s' \<and> wrote i off (take n src) s s' \<and> room l s' \<and> free_blocks s \<le> free_blocks s' + 2 * k"
  using assms
proof (induction n arbitrary: off src s k rule: less_induct)
  case (less n)
  show ?case
  proof (cases "n = 0")
    case True
    have "kept i s s" using grown_kept [OF grown_refl [OF less.prems(1,2)]] .
    then show ?thesis using True room_less [OF less.prems(8), of l] by (auto simp: writei_loop.simps [of i src off] wrote_def)
  next
    case False
    let ?m = "min n (BSIZE - off mod BSIZE)"
    let ?bs = "take ?m src"
    have m: "0 < ?m" "?m \<le> n" "off mod BSIZE + ?m \<le> BSIZE" using False by (auto simp: BSIZE_def)
    have bs: "length ?bs = ?m" "?bs \<noteq> []" using m less.prems(6) by (auto simp: min_def split: if_splits)
    have "0 < k"
    proof (rule ccontr)
      assume "\<not> 0 < k"
      then have "off + n \<le> off div BSIZE * BSIZE" using less.prems(7) by simp
      then show False using False div_times_less_eq_dividend [of off BSIZE] by linarith
    qed
    then obtain k' where k: "k = Suc k'" by (cases k) auto
    have r: "room 6 s" "2 \<le> free_blocks s" using less.prems(8,9) k by (auto intro: room_less)
    have o: "off < MAXFILE * BSIZE" using less.prems(5) False by linarith
    have mm: "off mod BSIZE + length ?bs \<le> BSIZE" using m(3) bs(1) by simp
    obtain addr s1 s2 where 1: "bmap i (off div BSIZE) s = Some (addr, s1)" "i_dev (icache s1 ! i) = 1"
      "get_block 1 addr s1 = Some (blocks s1 ! unat addr, s1\<lparr>held := [addr]\<rparr>)"
      "log_block addr (overlay (blocks s1 ! unat addr) (off mod BSIZE) ?bs) (s1\<lparr>held := [addr]\<rparr>) = Some (s2\<lparr>held := [addr]\<rparr>)"
      "put_block addr (s2\<lparr>held := [addr]\<rparr>) = Some s2" "wrote i off ?bs s s2"
      "\<And>k. room (k + 6) s \<Longrightarrow> room k s2" "free_blocks s \<le> free_blocks s2 + 2"
      using write_pass [OF less.prems(1-4) o mm bs(2) r] by blast
    note K = keptD [OF wroteD(1) [OF 1(6)]]
    have u: "writei_loop i src off n s = writei_loop i (drop ?m src) (off + ?m) (n - ?m) s2"
      using False 1(1-5) by (subst writei_loop.simps) (simp add: Let_def)
    have rl: "room (6 * k' + l) s2" by (rule 1(7)) (use less.prems(8) k in \<open>simp add: ac_simps\<close>)
    show ?thesis
    proof (cases "?m = n")
      case True
      then show ?thesis using u 1(6,8) room_less [OF rl, of l] k by (simp add: writei_loop.simps [of i "drop n src"])
    next
      case False
      then have full: "?m = BSIZE - off mod BSIZE" "?m < n" by auto
      have "off mod BSIZE < BSIZE" by (simp add: BSIZE_def)
      then have "off + ?m = (off div BSIZE + 1) * BSIZE"
        unfolding full(1) add_mult_distrib using div_mult_mod_eq [of off BSIZE] by linarith
      then have next_part: "(off + ?m) div BSIZE = off div BSIZE + 1"
        by (metis BSIZE_def div_mult_self_is_m zero_less_numeral)
      have "\<exists>s'. writei_loop i (drop ?m src) (off + ?m) (n - ?m) s2 = Some s' \<and>
          wrote i (off + ?m) (take (n - ?m) (drop ?m src)) s2 s' \<and> room l s' \<and> free_blocks s2 \<le> free_blocks s' + 2 * k'"
      proof (rule less.IH)
        show "n - ?m < n" "off + ?m + (n - ?m) \<le> MAXFILE * BSIZE" "n - ?m \<le> length (drop ?m src)"
          using m less.prems(5,6) by auto
        show "layout_ok s2" "inode_ok s2 (icache s2 ! i)" by (rule K)+
        show "i < length (icache s2)" using kept_index [OF wroteD(1) [OF 1(6)]] less.prems(3) by simp
        show "held s2 = []" using same_layout_eqs(5) [OF K(2)] less.prems(4) by simp
        show "off + ?m + (n - ?m) \<le> ((off + ?m) div BSIZE + k') * BSIZE"
          using less.prems(7) m(2) next_part k by simp
        show "room (6 * k' + l) s2" by (rule rl)
        show "2 * k' \<le> free_blocks s2" using 1(8) less.prems(9) k by simp
      qed
      then obtain s' where s': "writei_loop i (drop ?m src) (off + ?m) (n - ?m) s2 = Some s'"
        "wrote i (off + ?m) (take (n - ?m) (drop ?m src)) s2 s'" "room l s'" "free_blocks s2 \<le> free_blocks s' + 2 * k'" by blast
      have "off + length ?bs \<le> MAXFILE * BSIZE" using bs(1) m(2) less.prems(5) by simp
      from wrote_trans [OF 1(6), unfolded bs(1), OF s'(2) this[unfolded bs(1)]]
      have "wrote i off (take n src) s s'" using bs(1) m(2) by (simp add: take_add [symmetric])
      moreover have "free_blocks s \<le> free_blocks s' + 2 * k" using 1(8) s'(4) k by simp
      ultimately show ?thesis using u s'(1,3) by auto
    qed
  qed
qed

section \<open>The inode on the disk\<close>

lemma dinode_roundtrip:
  assumes "length d = BSIZE" "length (i_addrs ip) = NDIRECT + 1"
  shows "read_dinode (write_dinode d inum ip) inum jp = jp\<lparr>i_type := i_type ip, i_major := i_major ip, i_minor := i_minor ip,
      i_nlink := i_nlink ip, i_size := i_size ip, i_addrs := i_addrs ip\<rparr>"
    "length (write_dinode d inum ip) = BSIZE"
    "inode_offset other \<noteq> inode_offset inum \<Longrightarrow> read_dinode (write_dinode d inum ip) other jp = read_dinode d other jp"
proof -
  define off where "off = inode_offset inum"
  have "unat inum mod 8 < 8" by simp
  then have off: "off + 64 \<le> 512" by (simp add: off_def inode_offset_def IPB_def BSIZE_def)
  define d1 where "d1 = put32 (put16 (put16 (put16 (put16 d off (i_type ip)) (off + 2) (i_major ip)) (off + 4) (i_minor ip)) (off + 6) (i_nlink ip)) (off + 8) (i_size ip)"
  have l: "length d = 512" "length (i_addrs ip) = 13" using assms by (simp_all add: BSIZE_def NDIRECT_def)
  have d1: "length d1 = 512" "get16 d1 off = i_type ip" "get16 d1 (off + 2) = i_major ip" "get16 d1 (off + 4) = i_minor ip"
    "get16 d1 (off + 6) = i_nlink ip" "get32 d1 (off + 8) = i_size ip"
    using off l by (simp_all add: d1_def layout_simps)
  have w: "write_dinode d inum ip = put_words d1 (off + 12) (i_addrs ip)"
    by (simp add: write_dinode_def d1_def off_def Let_def)
  have before16: "get16 (put_words d1 (off + 12) (i_addrs ip)) o' = get16 d1 o'" if "o' + 2 \<le> off + 12" for o'
    by (rule get_put_words_other) (use off l d1 that in simp_all)
  show "length (write_dinode d inum ip) = BSIZE" unfolding w using off l d1 by (simp add: BSIZE_def)
  have "get_words (put_words d1 (off + 12) (i_addrs ip)) (off + 12) (NDIRECT + 1) = i_addrs ip"
    using get_put_words [of "off + 12" "i_addrs ip" d1] off l d1 by (simp add: NDIRECT_def)
  then show "read_dinode (write_dinode d inum ip) inum jp = jp\<lparr>i_type := i_type ip, i_major := i_major ip, i_minor := i_minor ip,
      i_nlink := i_nlink ip, i_size := i_size ip, i_addrs := i_addrs ip\<rparr>"
    unfolding w read_dinode_def Let_def off_def [symmetric]
    using before16 d1 get_put_words_before [of "off + 12" "i_addrs ip" d1 "off + 8"] off l by simp
  assume ne: "inode_offset other \<noteq> inode_offset inum"
  define off' where "off' = inode_offset other"
  have "unat other mod 8 < 8" by simp
  then have off': "off' + 64 \<le> 512" "off' + 64 \<le> off \<or> off + 64 \<le> off'"
    using ne by (simp_all add: off'_def off_def inode_offset_def IPB_def BSIZE_def) linarith
  have far32: "get32 (put_words d1 (off + 12) (i_addrs ip)) o' = get32 d o'" if "o' + 4 \<le> off \<or> off + 64 \<le> o'" "o' + 4 \<le> 512" for o'
    using that off l d1(1) by (auto simp: get_put_words_other d1_def layout_simps)
  have far16: "get16 (put_words d1 (off + 12) (i_addrs ip)) o' = get16 d o'" if "o' + 2 \<le> off \<or> off + 64 \<le> o'" "o' + 2 \<le> 512" for o'
    using that off l d1(1) by (auto simp: get_put_words_other d1_def layout_simps)
  show "read_dinode (write_dinode d inum ip) other jp = read_dinode d other jp"
    unfolding w read_dinode_def Let_def off'_def [symmetric] get_words_def
    using off' by (auto simp: far16 far32 NDIRECT_def)
qed

definition good_inum :: "'a fs_scheme \<Rightarrow> u32 \<Rightarrow> bool" where
  "good_inum s inum \<longleftrightarrow> unat inum < unat (sb_ninodes (sb s))"

lemma IBLOCK_unat:
  assumes lay: "layout_ok s" and n: "good_inum s inum"
  shows "unat (IBLOCK inum (sb s)) = unat (sb_inodestart (sb s)) + unat inum div IPB"
    "unat (IBLOCK inum (sb s)) < unat (sb_bmapstart (sb s))" "unat (IBLOCK inum (sb s)) < length (blocks s)"
proof -
  note L = disk_layoutD [OF lay]
  have "unat inum div IPB \<le> unat (sb_ninodes (sb s)) div IPB" using n by (intro div_le_mono) (simp add: good_inum_def)
  then have b: "unat (sb_inodestart (sb s)) + unat inum div IPB < unat (sb_bmapstart (sb s))" using L(6) by linarith
  moreover have "unat (inum div of_nat IPB) = unat inum div IPB" by (simp add: unat_div IPB_def BSIZE_def)
  ultimately show u: "unat (IBLOCK inum (sb s)) = unat (sb_inodestart (sb s)) + unat inum div IPB"
    using le_less_trans [OF less_imp_le [OF b] unat_u32_pow(1)] by (simp add: IBLOCK_def unat_u32_plus add.commute)
  show "unat (IBLOCK inum (sb s)) < unat (sb_bmapstart (sb s))" using u b by simp
  then show "unat (IBLOCK inum (sb s)) < length (blocks s)" using L(1,3) by (simp add: data_start_def)
qed

text \<open>Changing an inode block disturbs neither the bitmap nor any file.\<close>

lemma inode_block_updated:
  assumes lay: "layout_ok s" and b: "unat b < unat (sb_bmapstart (sb s))" and d: "length d = BSIZE"
  defines "s' \<equiv> updated b d s"
  shows "layout_ok s'" "\<And>k. k \<le> disk_size s \<Longrightarrow> used s' k = used s k" "\<And>k. data_start s \<le> k \<Longrightarrow> blocks s' ! k = blocks s ! k"
    "inode_ok s ip \<Longrightarrow> inode_ok s' ip" "inode_ok s ip \<Longrightarrow> k \<le> MAXFILE \<Longrightarrow> slot s' ip k = slot s ip k"
    "inode_ok s ip \<Longrightarrow> p < MAXFILE * BSIZE \<Longrightarrow> file_byte s' ip p = file_byte s ip p" "free_blocks s' = free_blocks s"
proof -
  have nb: "unat b \<noteq> bitmap_block s k" if "k \<le> disk_size s" for k using b by (simp add: bitmap_block_def)
  note U = updated_layout_ok [OF lay d nb, folded s'_def]
  show "layout_ok s'" by (rule U(1))
  show u: "\<And>k. k \<le> disk_size s \<Longrightarrow> used s' k = used s k" by (rule U(2))
  have E: "disk_size s' = disk_size s" "data_start s' = data_start s"
    using same_layout_eqs [OF same_layout_updated] by (simp_all add: s'_def)
  show data: "\<And>k. data_start s \<le> k \<Longrightarrow> blocks s' ! k = blocks s ! k"
    using b by (auto simp: s'_def data_start_def nth_update_if)
  show "free_blocks s' = free_blocks s" unfolding free_blocks_def E using u by (intro arg_cong [of _ _ card]) auto
  assume ok: "inode_ok s ip"
  note I = inode_okD [OF ok]
  have slots: "slot s' ip k = slot s ip k" if "k \<le> MAXFILE" for k
  proof -
    have "i_addrs ip ! NDIRECT \<noteq> 0 \<Longrightarrow> blocks s' ! unat (i_addrs ip ! NDIRECT) = blocks s ! unat (i_addrs ip ! NDIRECT)"
      using data I(3) [of MAXFILE] by (simp add: slot_indirect)
    then show ?thesis by (auto simp: slot_def file_block_def)
  qed
  then show "k \<le> MAXFILE \<Longrightarrow> slot s' ip k = slot s ip k" .
  show "inode_ok s' ip" using ok slots u E by (auto simp: inode_ok_def)
  show "file_byte s' ip p = file_byte s ip p" if p: "p < MAXFILE * BSIZE"
  proof -
    have k: "p div BSIZE < MAXFILE" using p by (simp add: less_mult_imp_div_less)
    then show ?thesis using slots [of "p div BSIZE"] data I(3) [of "p div BSIZE"] by (auto simp: file_byte_def slot_file_block)
  qed
qed

lemma iupdate_ok:
  assumes lay: "layout_ok s" and n: "good_inum s (i_inum (icache s ! i))" and dv: "i_dev (icache s ! i) = 1"
    and h: "held s = []" and r: "room 1 s"
  defines "b \<equiv> IBLOCK (i_inum (icache s ! i)) (sb s)"
  shows "iupdate i s = Some (updated b (write_dinode (blocks s ! unat b) (i_inum (icache s ! i)) (icache s ! i)) s)"
proof -
  have c: "can_read s" by (rule room_can_read [OF r]) (simp add: h)
  have nh: "b \<notin> set (held s)" by (simp add: h)
  note R = read_ok [OF c IBLOCK_unat(3) [OF lay n] nh[unfolded b_def]]
  note W = write_ok [OF r _ nh]
  show ?thesis using R W dv by (simp add: iupdate_def Let_def b_def)
qed

text \<open>What is kept of any other inode.\<close>

lemma kept_other:
  assumes kept: "kept i s s'" and ok: "inode_ok s jp" and dj: "own s jp \<inter> own s (icache s ! i) = {}"
  shows "k \<le> MAXFILE \<Longrightarrow> slot s' jp k = slot s jp k" "inode_ok s' jp" "own s' jp \<inter> own s' (icache s' ! i) = {}"
    "p < MAXFILE * BSIZE \<Longrightarrow> file_byte s' jp p = file_byte s jp p"
proof -
  note K = keptD [OF kept] and I = inode_okD [OF ok]
  have data: "blocks s' ! unat (slot s jp k) = blocks s ! unat (slot s jp k)" if "k \<le> MAXFILE" "slot s jp k \<noteq> 0" for k
  proof (rule K(9))
    show "unat (slot s jp k) \<notin> own s (icache s ! i)" using dj that by (auto simp: own_def)
  qed (use I(3-5) [OF that] in auto)
  have slots: "slot s' jp k = slot s jp k" if "k \<le> MAXFILE" for k
  proof -
    have "i_addrs jp ! NDIRECT \<noteq> 0 \<Longrightarrow> blocks s' ! unat (i_addrs jp ! NDIRECT) = blocks s ! unat (i_addrs jp ! NDIRECT)"
      using data [of MAXFILE] by (simp add: slot_indirect)
    then show ?thesis by (auto simp: slot_def file_block_def)
  qed
  then show "k \<le> MAXFILE \<Longrightarrow> slot s' jp k = slot s jp k" .
  note E = same_layout_eqs [OF K(2)]
  show "inode_ok s' jp" using ok slots K(6) E by (auto simp: inode_ok_def)
  have own: "own s' jp = own s jp" unfolding own_def using slots by (metis (mono_tags, lifting))
  have "n \<notin> own s' (icache s' ! i)" if "n \<in> own s jp" for n
    using K(8) [of n] own_used [OF ok that] dj that by auto
  then show "own s' jp \<inter> own s' (icache s' ! i) = {}" unfolding own by blast
  show "file_byte s' jp p = file_byte s jp p" if p: "p < MAXFILE * BSIZE"
  proof -
    have k: "p div BSIZE < MAXFILE" using p by (simp add: less_mult_imp_div_less)
    then show ?thesis using slots [of "p div BSIZE"] data [of "p div BSIZE"] by (auto simp: file_byte_def slot_file_block)
  qed
qed

end
