(* ===== verification/FsWrite.thy ===== *)
theory FsWrite
  imports FsFiles
begin

text \<open>
  \<open>writei\<close> and \<open>readi\<close> as operations on the contents of a file, \<open>itrunc\<close> as giving back its blocks,
  and the properties of files.
\<close>

definition file_ok :: "'a fs_scheme \<Rightarrow> inode \<Rightarrow> bool" where
  "file_ok s ip \<longleftrightarrow> inode_ok s ip \<and> no_holes s ip \<and> good_inum s (i_inum ip) \<and> i_type ip \<noteq> T_DEV"

lemma file_okD:
  assumes "file_ok s ip"
  shows "inode_ok s ip" "no_holes s ip" "good_inum s (i_inum ip)" "i_type ip \<noteq> T_DEV" "unat (i_size ip) \<le> MAXFILE * BSIZE"
    "p < unat (i_size ip) \<Longrightarrow> slot s ip (p div BSIZE) \<noteq> 0"
  using assms by (auto simp: file_ok_def no_holes_def)

lemma size_addrs_commute: "ip\<lparr>i_addrs := a, i_size := z\<rparr> = ip\<lparr>i_size := z, i_addrs := a\<rparr>"
  by simp

text \<open>All that an operation on the file \<open>i\<close> keeps of another inode.\<close>

definition undisturbed :: "nat \<Rightarrow> 'a fs_scheme \<Rightarrow> 'a fs_scheme \<Rightarrow> inode \<Rightarrow> bool" where
  "undisturbed i s s' jp \<longleftrightarrow> inode_ok s' jp \<and> own s' jp \<inter> own s' (icache s' ! i) = {} \<and>
     (\<forall>k \<le> MAXFILE. slot s' jp k = slot s jp k) \<and> (\<forall>p < MAXFILE * BSIZE. file_byte s' jp p = file_byte s jp p)"

lemma undisturbed_contents:
  assumes "undisturbed i s s' jp" "no_holes s jp"
  shows "contents s' jp = contents s jp" "no_holes s' jp"
proof -
  have size: "unat (i_size jp) \<le> MAXFILE * BSIZE" using assms(2) by (simp add: no_holes_def)
  then show "contents s' jp = contents s jp"
    using assms(1) by (auto simp: contents_def undisturbed_def)
  have "p div BSIZE \<le> MAXFILE" if "p < unat (i_size jp)" for p
    using that size by (simp add: less_mult_imp_div_less less_imp_le_nat)
  then show "no_holes s' jp" using assms by (auto simp: no_holes_def undisturbed_def)
qed

lemma splice_nth:
  assumes "off \<le> length c" "p < max (length c) (off + length bs)"
  shows "(take off c @ bs @ drop (off + length bs) c) ! p = (if off \<le> p \<and> p < off + length bs then bs ! (p - off) else c ! p)"
  using assms by (auto simp: nth_append min_def)

text \<open>The size and the inode on the disk, after the loop of \<open>writei\<close>.\<close>

lemma resize:
  assumes lay: "layout_ok s" and ok: "inode_ok s (icache s ! i)" and i: "i < length (icache s)" and n: "good_inum s (i_inum (icache s ! i))"
    and h: "held s = []" and r: "room (Suc l) s"
  shows "\<exists>s'. iupdate i (set_inode i (\<lambda>ip. ip\<lparr>i_size := z\<rparr>) s) = Some s' \<and> layout_ok s' \<and> same_layout s s' \<and>
    icache s' = (icache s)[i := (icache s ! i)\<lparr>i_size := z\<rparr>] \<and> room l s' \<and>
    (\<forall>jp. inode_ok s jp \<longrightarrow> inode_ok s' jp \<and> (\<forall>k \<le> MAXFILE. slot s' jp k = slot s jp k) \<and>
       (\<forall>p < MAXFILE * BSIZE. file_byte s' jp p = file_byte s jp p)) \<and> free_blocks s' = free_blocks s \<and>
    (\<forall>k \<le> disk_size s. used s' k = used s k)"
proof -
  let ?t = "set_inode i (\<lambda>ip. ip\<lparr>i_size := z\<rparr>) s"
  let ?ip = "(icache s ! i)\<lparr>i_size := z\<rparr>"
  let ?b = "IBLOCK (i_inum (icache s ! i)) (sb s)"
  have t: "icache ?t ! i = ?ip" using i by simp
  let ?s = "updated ?b (write_dinode (blocks s ! unat ?b) (i_inum (icache s ! i)) ?ip) ?t"
  note I = inode_okD [OF ok]
  have tl: "layout_ok ?t" "good_inum ?t (i_inum (icache s ! i))" using lay n by (simp_all add: good_inum_def)
  note B = IBLOCK_unat [OF lay n]
  have d: "length (write_dinode (blocks s ! unat ?b) (i_inum (icache s ! i)) ?ip) = BSIZE"
    by (rule dinode_roundtrip(2)) (use disk_layoutD(4) [OF lay B(3)] I(2) in simp_all)
  have "unat ?b < unat (sb_bmapstart (sb ?t))" using B(2) by simp
  note U = inode_block_updated [OF tl(1) this d]
  have r1: "room 1 s" by (rule room_less [OF r]) simp
  have "iupdate i ?t = Some ?s"
    using iupdate_ok [of ?t i] tl I(1) h r1 t by simp
  moreover have "inode_ok s jp \<longleftrightarrow> inode_ok ?t jp" for jp by (simp add: inode_ok_def)
  moreover have "file_byte ?t jp p = file_byte s jp p" for jp p by (simp add: file_byte_def)
  moreover have "free_blocks ?t = free_blocks s" by (simp add: free_blocks_def)
  moreover have "same_layout s ?s" by (rule same_layout_trans [OF _ same_layout_updated]) simp
  moreover have "room l ?s" by (rule updated_room) (use r in simp)
  ultimately show ?thesis using U by (intro exI [of _ ?s]) simp
qed

lemma writei_ok:
  assumes lay: "layout_ok s" and ok: "file_ok s (icache s ! i)" and i: "i < length (icache s)" and h: "held s = []"
    and off: "off \<le> i_size (icache s ! i)" "\<not> off + n < off" and max: "unat off + unat n \<le> MAXFILE * BSIZE" and src: "unat n \<le> length src"
    and k: "unat off + unat n \<le> (unat off div BSIZE + k) * BSIZE" and r: "room (6 * k + Suc l) s" and f: "2 * k \<le> free_blocks s"
  shows "\<exists>s'. writei ds i src off n s = Some (int (unat n), s') \<and> layout_ok s' \<and> file_ok s' (icache s' ! i) \<and> same_layout s s' \<and>
    contents s' (icache s' ! i) = take (unat off) (contents s (icache s ! i)) @ take (unat n) src @
      drop (unat off + unat n) (contents s (icache s ! i)) \<and>
    (\<exists>a. icache s' = (icache s)[i := (icache s ! i)\<lparr>i_size := max (i_size (icache s ! i)) (off + n), i_addrs := a\<rparr>]) \<and> room l s' \<and>
    (\<forall>jp. inode_ok s jp \<longrightarrow> own s jp \<inter> own s (icache s ! i) = {} \<longrightarrow> undisturbed i s s' jp) \<and> free_blocks s \<le> free_blocks s' + 2 * k"
proof -
  let ?ip = "icache s ! i" and ?o = "unat off" and ?n = "unat n"
  let ?bs = "take ?n src"
  note F = file_okD [OF ok]
  have bs: "length ?bs = ?n" using src by simp
  have plus: "unat (off + n) = ?o + ?n" by (rule no_wrap_u32 [OF off(2)])
  have o: "?o \<le> unat (i_size ?ip)" using off(1) by (simp add: word_le_nat_alt)
  obtain s1 where 1: "writei_loop i src ?o ?n s = Some s1" "wrote i ?o ?bs s s1" "room (Suc l) s1" "free_blocks s \<le> free_blocks s1 + 2 * k"
    using writei_loop_ok [OF lay F(1) i h max src k r f] by blast
  note W = wroteD [OF 1(2)]
  note K = keptD [OF W(1)]
  obtain a where a: "icache s1 = (icache s)[i := ?ip\<lparr>i_addrs := a\<rparr>]" using K(3) by blast
  have ip1: "icache s1 ! i = ?ip\<lparr>i_addrs := a\<rparr>" "i < length (icache s1)" using a i by simp_all
  have h1: "held s1 = []" using same_layout_eqs(5) [OF K(2)] h by simp
  let ?z = "max (i_size ?ip) (off + n)"
  have z: "unat ?z = max (unat (i_size ?ip)) (?o + ?n)" using plus by (auto simp: max_def word_le_nat_alt)
  have grow: "0 < n \<and> i_size ?ip < off + n \<longleftrightarrow> i_size ?ip < off + n"
  proof -
    have "\<not> i_size ?ip < off + n" if "n = 0" using that off(1) by simp
    then show ?thesis by (auto simp: word_neq_0_conv [symmetric])
  qed
  have n1: "good_inum s1 (i_inum (icache s1 ! i))" using F(3) ip1 same_layout_eqs [OF K(2)] by (simp add: good_inum_def)
  have "\<exists>s2. (if 0 < n \<and> i_size (icache s1 ! i) < off + n then iupdate i (set_inode i (\<lambda>ip. ip\<lparr>i_size := off + n\<rparr>) s1) else Some s1) = Some s2 \<and>
      layout_ok s2 \<and> same_layout s1 s2 \<and> icache s2 = (icache s)[i := ?ip\<lparr>i_size := ?z, i_addrs := a\<rparr>] \<and> room l s2 \<and>
      (\<forall>jp. inode_ok s1 jp \<longrightarrow> inode_ok s2 jp \<and> (\<forall>k \<le> MAXFILE. slot s2 jp k = slot s1 jp k) \<and>
         (\<forall>p < MAXFILE * BSIZE. file_byte s2 jp p = file_byte s1 jp p)) \<and> free_blocks s2 = free_blocks s1"
  proof (cases "i_size ?ip < off + n")
    case True
    then have "?z = off + n" by (simp add: max_def order.strict_implies_order)
    then show ?thesis
      using resize [OF K(1,4) ip1(2) n1 h1 1(3), of "off + n"] True grow a ip1 by (auto simp: size_addrs_commute)
  next
    case False
    then have "?z = i_size ?ip" by (simp add: max_def)
    moreover have "?ip\<lparr>i_addrs := a\<rparr> = ?ip\<lparr>i_size := i_size ?ip, i_addrs := a\<rparr>" by simp
    ultimately show ?thesis
      using False K(1) a ip1 room_less [OF 1(3), of l] by (intro exI [of _ s1]) simp
  qed
  then obtain s2 where 2: "(if 0 < n \<and> i_size (icache s1 ! i) < off + n then iupdate i (set_inode i (\<lambda>ip. ip\<lparr>i_size := off + n\<rparr>) s1) else Some s1) = Some s2"
    "layout_ok s2" "same_layout s1 s2" "icache s2 = (icache s)[i := ?ip\<lparr>i_size := ?z, i_addrs := a\<rparr>]" "room l s2"
    "\<And>jp. inode_ok s1 jp \<Longrightarrow> inode_ok s2 jp \<and> (\<forall>k \<le> MAXFILE. slot s2 jp k = slot s1 jp k) \<and>
       (\<forall>p < MAXFILE * BSIZE. file_byte s2 jp p = file_byte s1 jp p)" "free_blocks s2 = free_blocks s1" by blast
  let ?ip2 = "?ip\<lparr>i_size := ?z, i_addrs := a\<rparr>"
  have ip2: "icache s2 ! i = ?ip2" using 2(4) i by simp
  have same_addrs: "slot t ?ip2 k = slot t (?ip\<lparr>i_addrs := a\<rparr>) k" "file_byte t ?ip2 p = file_byte t (?ip\<lparr>i_addrs := a\<rparr>) p" for t :: "'a fs_scheme" and k p
    by (simp_all add: slot_def file_block_def file_byte_def)
  have oks: "inode_ok t ?ip2 \<longleftrightarrow> inode_ok t (?ip\<lparr>i_addrs := a\<rparr>)" for t :: "'a fs_scheme"
    unfolding inode_ok_def same_addrs by simp
  have ok1: "inode_ok s1 (?ip\<lparr>i_addrs := a\<rparr>)" using K(4) ip1 by simp
  note P = 2(6) [OF ok1]
  have bytes: "file_byte s2 ?ip2 p = (if ?o \<le> p \<and> p < ?o + ?n then ?bs ! (p - ?o) else file_byte s ?ip p)" if "p < MAXFILE * BSIZE" for p
    using P W(2) [OF that] ip1 that bs by (simp add: same_addrs)
  have zmax: "unat ?z \<le> MAXFILE * BSIZE" using z F(5) max by simp
  have "contents s2 ?ip2 = take ?o (contents s ?ip) @ ?bs @ drop (?o + ?n) (contents s ?ip)"
  proof (rule nth_equalityI)
    show "length (contents s2 ?ip2) = length (take ?o (contents s ?ip) @ ?bs @ drop (?o + ?n) (contents s ?ip))"
      using z o bs by (auto simp: max_def)
    fix p assume "p < length (contents s2 ?ip2)"
    then have p: "p < unat ?z" by simp
    then have "contents s2 ?ip2 ! p = file_byte s2 ?ip2 p" by (simp add: contents_def)
    also have "\<dots> = (if ?o \<le> p \<and> p < ?o + ?n then ?bs ! (p - ?o) else contents s ?ip ! p)"
      using bytes [of p] p zmax z o by (auto simp: contents_def max_def split: if_splits)
    also have "\<dots> = (take ?o (contents s ?ip) @ ?bs @ drop (?o + ?n) (contents s ?ip)) ! p"
      using splice_nth [of ?o "contents s ?ip" p ?bs] o p z unfolding bs by simp
    finally show "contents s2 ?ip2 ! p = (take ?o (contents s ?ip) @ ?bs @ drop (?o + ?n) (contents s ?ip)) ! p" .
  qed
  moreover have "no_holes s2 ?ip2"
    unfolding no_holes_def
  proof (intro conjI allI impI)
    show "unat (i_size ?ip2) \<le> MAXFILE * BSIZE" using zmax by simp
    fix p assume "p < unat (i_size ?ip2)"
    then have p: "p < unat ?z" by simp
    then have m: "p div BSIZE \<le> MAXFILE" using zmax by (simp add: less_mult_imp_div_less less_imp_le_nat)
    have "slot s1 (?ip\<lparr>i_addrs := a\<rparr>) (p div BSIZE) \<noteq> 0"
    proof (cases "?o \<le> p \<and> p < ?o + ?n")
      case True
      then show ?thesis using W(3) [of p] bs ip1 by simp
    next
      case False
      then have "p < unat (i_size ?ip)" using p z o by auto
      then show ?thesis using F(6) K(5) [OF m] ip1 by simp
    qed
    then show "slot s2 ?ip2 (p div BSIZE) \<noteq> 0" using P m by (simp add: same_addrs)
  qed
  moreover have "undisturbed i s s2 jp" if jp: "inode_ok s jp" "own s jp \<inter> own s ?ip = {}" for jp
  proof -
    note O = kept_other [OF W(1) jp]
    note Q = 2(6) [OF O(2)]
    have "own s2 jp = own s1 jp" "own s2 ?ip2 = own s1 (icache s1 ! i)"
      unfolding own_def same_addrs ip1(1) using Q P by (metis (mono_tags, lifting))+
    then show ?thesis using O Q ip2 by (simp add: undisturbed_def)
  qed
  moreover have "writei ds i src off n s = Some (int ?n, s2)"
  proof -
    have "sint n = int ?n" by (rule sint_small) (use max max_bytes in simp)
    moreover have "\<not> of_nat (MAXFILE * BSIZE) < off + n" using max plus unfolding max_bytes by (simp add: word_less_nat_alt)
    moreover have "\<not> i_size ?ip < off" using off(1) by simp
    ultimately show ?thesis
      using F(4) off(2) 1(1) 2(1) by (simp add: writei_def Let_def del: of_nat_mult)
  qed
  moreover have "file_ok s2 ?ip2"
    using calculation(2) oks P F ip2 same_layout_eqs [OF K(2)] same_layout_eqs [OF 2(3)] by (simp add: file_ok_def good_inum_def)
  ultimately show ?thesis
    using 1(4) 2(2,4,5,7) same_layout_trans [OF K(2) 2(3)] ip2 by auto
qed

section \<open>\<open>itrunc\<close>\<close>

text \<open>The state in the middle of \<open>itrunc\<close>: the blocks \<open>B\<close> are given back already. The bitmap is one block,
  so at most this block has been added to the transaction.\<close>

definition truncating :: "'a fs_scheme \<Rightarrow> nat set \<Rightarrow> 'a fs_scheme \<Rightarrow> bool" where
  "truncating s B s' \<longleftrightarrow> layout_ok s' \<and> same_layout s s' \<and> (\<forall>n < disk_size s. used s' n \<longleftrightarrow> used s n \<and> n \<notin> B) \<and>
     (\<forall>m. data_start s \<le> m \<longrightarrow> blocks s' ! m = blocks s ! m) \<and>
     (logged s' = logged s \<or> logged s' = log_add (sb_bmapstart (sb s)) (logged s))"

lemma truncatingD:
  assumes "truncating s B s'"
  shows "layout_ok s'" "same_layout s s'" "n < disk_size s \<Longrightarrow> used s' n \<longleftrightarrow> used s n \<and> n \<notin> B"
    "data_start s \<le> m \<Longrightarrow> blocks s' ! m = blocks s ! m"
    "logged s' = logged s \<or> logged s' = log_add (sb_bmapstart (sb s)) (logged s)"
  using assms unfolding truncating_def by blast+

lemma truncating_room: "truncating s B s' \<Longrightarrow> room (Suc k) s \<Longrightarrow> room k s'"
  using truncatingD(2,5) [of s B s'] by (auto simp: room_def same_layout_def log_add_def)

lemma bfree_step:
  assumes t: "truncating s B s'" and h: "held_used s'" and r: "room 2 s" and one: "disk_size s \<le> BPB"
    and b: "unat b < disk_size s" "data_start s \<le> unat b" "used s (unat b)" "unat b \<notin> B"
  shows "\<exists>s2. bfree 1 b s' = Some s2 \<and> truncating s (insert (unat b) B) s2 \<and> icache s2 = icache s'"
proof -
  note t' = truncatingD [OF t]
  note E = same_layout_eqs [OF t'(2)]
  have u: "used s' (unat b)" using t'(3) b by simp
  have r1: "room 1 s'" using truncating_room [OF t, of 1] r by (simp add: numeral_2_eq_2)
  obtain s2 where 2: "bfree 1 b s' = Some s2" "freed s' (unat b) s2"
    using bfree_ok [OF t'(1) r1 h, of b] b(1,2) E u by auto
  note Fr = 2(2) [unfolded freed_def]
  have "same_layout s s2" using same_layout_trans [OF t'(2)] Fr by blast
  moreover have "blocks s2 ! m = blocks s ! m" if "data_start s \<le> m" for m
    using Fr t'(4) [OF that] data_not_bitmap [of s' m] that E by auto
  moreover have "used s2 n \<longleftrightarrow> used s n \<and> n \<notin> insert (unat b) B" if "n < disk_size s" for n
    using Fr t'(3) [OF that] that E by auto
  moreover have "logged s2 = log_add (sb_bmapstart (sb s)) (logged s)"
  proof -
    have "b div of_nat BPB = 0"
    proof (rule unsigned_word_eqI)
      show "unat (b div of_nat BPB) = unat (0 :: u32)" using b(1) one by (simp add: unat_div BPB_def BSIZE_def)
    qed
    then have "BBLOCK b (sb s') = sb_bmapstart (sb s)" using E(1) by (simp add: BBLOCK_def)
    then show ?thesis using Fr t'(5) by auto
  qed
  ultimately show ?thesis using 2(1) Fr unfolding truncating_def by blast
qed

definition first_slots :: "'a fs_scheme \<Rightarrow> inode \<Rightarrow> nat \<Rightarrow> nat \<Rightarrow> nat set" where
  "first_slots s ip lo k = {unat (slot s ip j) | j. lo \<le> j \<and> j < k \<and> slot s ip j \<noteq> 0}"

lemma first_slots_Suc:
  "lo \<le> k \<Longrightarrow> first_slots s ip lo (Suc k) = (if slot s ip k = 0 then first_slots s ip lo k else insert (unat (slot s ip k)) (first_slots s ip lo k))"
  by (auto simp: first_slots_def less_Suc_eq)

lemma first_slots_empty [simp]: "first_slots s ip lo lo = {}"
  by (auto simp: first_slots_def)

lemma not_yet_freed:
  assumes ok: "inode_ok s ip" and k: "k \<le> MAXFILE" "slot s ip k \<noteq> 0" and hi: "\<forall>j. lo \<le> j \<and> j < hi \<longrightarrow> j \<le> MAXFILE \<and> j \<noteq> k"
  shows "unat (slot s ip k) \<notin> first_slots s ip lo hi"
proof
  assume "unat (slot s ip k) \<in> first_slots s ip lo hi"
  then obtain j where "lo \<le> j" "j < hi" "slot s ip j \<noteq> 0" "unat (slot s ip j) = unat (slot s ip k)" by (auto simp: first_slots_def)
  then show False using inode_okD(6) [OF ok, of j k] hi k(1) by (auto dest: unsigned_word_eqI)
qed

lemma for_loop_last: "for_loop 0 (Suc m) f s = do { s \<leftarrow> for_loop 0 m f s; f m s }"
  using for_loop_run [of 0 "Suc m" f s] for_loop_run [of 0 m f s] by (simp add: run_snoc del: upt_Suc)

lemma free_direct_loop:
  assumes lay: "layout_ok s" and ok: "inode_ok s (icache s ! i)" and i: "i < length (icache s)" and h: "held s = []"
    and r: "room 2 s" and one: "disk_size s \<le> BPB" and m: "m \<le> NDIRECT"
  shows "\<exists>s'. for_loop 0 m (free_direct i) s = Some s' \<and> truncating s (first_slots s (icache s ! i) 0 m) s' \<and>
    icache s' = (icache s)[i := (icache s ! i)\<lparr>i_addrs := replicate m 0 @ drop m (i_addrs (icache s ! i))\<rparr>]"
  using m
proof (induction m)
  case 0
  then show ?case using lay by (simp add: truncating_def)
next
  case (Suc m)
  let ?ip = "icache s ! i"
  note I = inode_okD [OF ok]
  obtain s1 where 1: "for_loop 0 m (free_direct i) s = Some s1" "truncating s (first_slots s ?ip 0 m) s1"
    "icache s1 = (icache s)[i := ?ip\<lparr>i_addrs := replicate m 0 @ drop m (i_addrs ?ip)\<rparr>]"
    using Suc by auto
  have m: "m < NDIRECT" "m < MAXFILE" "m \<le> MAXFILE" "m < length (i_addrs ?ip)" using Suc.prems I(2) by (auto simp: MAXFILE_simps)
  have ip1: "icache s1 ! i = ?ip\<lparr>i_addrs := replicate m 0 @ drop m (i_addrs ?ip)\<rparr>" using 1(3) i by simp
  have slotm: "i_addrs (icache s1 ! i) ! m = slot s ?ip m" using ip1 m by (simp add: nth_append slot_def file_block_def)
  have step: "for_loop 0 (Suc m) (free_direct i) s = free_direct i m s1" using 1(1) by (simp add: for_loop_last)
  have a: "(replicate m 0 @ drop m (i_addrs ?ip))[m := 0] = replicate (Suc m) 0 @ drop (Suc m) (i_addrs ?ip)"
    using m by (simp add: list_update_append Cons_nth_drop_Suc [symmetric] replicate_app_Cons_same)
  show ?case
  proof (cases "slot s ?ip m = 0")
    case True
    have "drop m (i_addrs ?ip) = 0 # drop (Suc m) (i_addrs ?ip)"
      using True m Cons_nth_drop_Suc [OF m(4)] by (simp add: slot_def file_block_def)
    then have "replicate m 0 @ drop m (i_addrs ?ip) = replicate (Suc m) 0 @ drop (Suc m) (i_addrs ?ip)"
      by (simp add: replicate_app_Cons_same)
    moreover have "free_direct i m s1 = Some s1" using slotm True by (simp add: free_direct_def Let_def)
    ultimately show ?thesis using 1(2,3) step True first_slots_Suc [of 0 m s ?ip] by simp
  next
    case False
    have held: "held_used s1" using 1(2) h same_layout_eqs(5) [of s s1] by (simp add: truncating_def held_used_def)
    have nf: "unat (slot s ?ip m) \<notin> first_slots s ?ip 0 m"
      by (rule not_yet_freed [OF ok m(3) False]) (use m in auto)
    obtain s2 where 2: "bfree 1 (slot s ?ip m) s1 = Some s2" "truncating s (insert (unat (slot s ?ip m)) (first_slots s ?ip 0 m)) s2"
      "icache s2 = icache s1"
      using bfree_step [OF 1(2) held r one I(4) I(3) I(5) nf] m(3) False by blast
    let ?s3 = "set_inode i (\<lambda>ip. ip\<lparr>i_addrs := (i_addrs ip)[m := 0]\<rparr>) s2"
    have "free_direct i m s1 = Some ?s3"
      using 2(1) slotm False ip1 I(1) by (simp add: free_direct_def Let_def)
    moreover have "truncating s (first_slots s ?ip 0 (Suc m)) ?s3"
      using 2(2) first_slots_Suc [of 0 m s ?ip] False by (simp add: truncating_def)
    moreover have "icache ?s3 = (icache s)[i := ?ip\<lparr>i_addrs := replicate (Suc m) 0 @ drop (Suc m) (i_addrs ?ip)\<rparr>]"
      using 2(3) 1(3) i a by simp
    ultimately show ?thesis using step by auto
  qed
qed

lemma truncating_held:
  "truncating s B s' \<Longrightarrow> truncating (s\<lparr>held := h\<rparr>) B (s'\<lparr>held := h\<rparr>)"
  "truncating (s\<lparr>held := h\<rparr>) B s' \<Longrightarrow> truncating s B (s'\<lparr>held := held s\<rparr>)"
  by (auto simp: truncating_def same_layout_def)

lemma free_entry_loop:
  assumes t: "truncating s B s1" and ok: "inode_ok s ip" and ind: "slot s ip MAXFILE \<noteq> 0"
    and h: "held s = [slot s ip MAXFILE]"
    and B: "B = first_slots s ip 0 NDIRECT" and d: "d = blocks s ! unat (slot s ip MAXFILE)"
    and r: "room 2 s" and one: "disk_size s \<le> BPB" and m: "m \<le> NINDIRECT"
  shows "\<exists>s'. for_loop 0 m (free_entry 1 d) s1 = Some s' \<and> truncating s (B \<union> first_slots s ip NDIRECT (NDIRECT + m)) s' \<and>
    icache s' = icache s1"
  using m
proof (induction m)
  case 0
  then show ?case using t by simp
next
  case (Suc m)
  note I = inode_okD [OF ok]
  obtain s2 where 1: "for_loop 0 m (free_entry 1 d) s1 = Some s2" "truncating s (B \<union> first_slots s ip NDIRECT (NDIRECT + m)) s2"
    "icache s2 = icache s1"
    using Suc by auto
  have m: "NDIRECT + m < MAXFILE" "NDIRECT + m \<le> MAXFILE" using Suc.prems by (auto simp: MAXFILE_simps)
  have e: "get32 d (4 * m) = slot s ip (NDIRECT + m)"
    using m ind d by (simp add: slot_def file_block_def)
  have step: "for_loop 0 (Suc m) (free_entry 1 d) s1 = free_entry 1 d m s2" using 1(1) by (simp add: for_loop_last)
  have FS: "first_slots s ip NDIRECT (NDIRECT + Suc m) = (if slot s ip (NDIRECT + m) = 0 then first_slots s ip NDIRECT (NDIRECT + m)
      else insert (unat (slot s ip (NDIRECT + m))) (first_slots s ip NDIRECT (NDIRECT + m)))"
    using first_slots_Suc [of NDIRECT "NDIRECT + m" s ip] by simp
  show ?case
  proof (cases "slot s ip (NDIRECT + m) = 0")
    case True
    then have "free_entry 1 d m s2 = Some s2" using e by (simp add: free_entry_def)
    then show ?thesis using 1(2,3) step FS True by simp
  next
    case False
    have "used s (unat (slot s ip MAXFILE))" "data_start s \<le> unat (slot s ip MAXFILE)" "unat (slot s ip MAXFILE) < disk_size s"
      using I(3-5) [OF order_refl ind] by auto
    moreover have "unat (slot s ip MAXFILE) \<notin> B" unfolding B
      by (rule not_yet_freed [OF ok order_refl ind]) (auto simp: MAXFILE_simps)
    moreover have "unat (slot s ip MAXFILE) \<notin> first_slots s ip NDIRECT (NDIRECT + m)"
      by (rule not_yet_freed [OF ok order_refl ind]) (use m in auto)
    moreover note T = truncatingD [OF 1(2)] and E = same_layout_eqs [OF truncatingD(2) [OF 1(2)]]
    ultimately have held: "held_used s2"
      using h data_not_bitmap [of s "unat (slot s ip MAXFILE)"] by (simp add: held_used_def)
    have "unat (slot s ip (NDIRECT + m)) \<notin> B" unfolding B
      by (rule not_yet_freed [OF ok m(2) False]) (auto simp: MAXFILE_simps)
    moreover have "unat (slot s ip (NDIRECT + m)) \<notin> first_slots s ip NDIRECT (NDIRECT + m)"
      by (rule not_yet_freed [OF ok m(2) False]) (use m in auto)
    ultimately have nf: "unat (slot s ip (NDIRECT + m)) \<notin> B \<union> first_slots s ip NDIRECT (NDIRECT + m)" by blast
    obtain s3 where 3: "bfree 1 (slot s ip (NDIRECT + m)) s2 = Some s3"
      "truncating s (insert (unat (slot s ip (NDIRECT + m))) (B \<union> first_slots s ip NDIRECT (NDIRECT + m))) s3"
      "icache s3 = icache s2"
      using bfree_step [OF 1(2) held r one I(4) I(3) I(5) nf] m(2) False by blast
    have "free_entry 1 d m s2 = Some s3" using 3(1) e False by (simp add: free_entry_def)
    then show ?thesis using step FS False 1(3) 3(2,3) by simp
  qed
qed

lemma own_split:
  "own s ip = first_slots s ip 0 NDIRECT \<union> first_slots s ip NDIRECT (NDIRECT + NINDIRECT) \<union>
     (if slot s ip MAXFILE = 0 then {} else {unat (slot s ip MAXFILE)})"
proof -
  have "j \<le> MAXFILE \<longleftrightarrow> j < NDIRECT \<or> NDIRECT \<le> j \<and> j < NDIRECT + NINDIRECT \<or> j = MAXFILE" for j
    by (auto simp: MAXFILE_simps)
  then show ?thesis by (auto simp: own_def first_slots_def)
qed

lemma no_indirect: "slot s ip MAXFILE = 0 \<Longrightarrow> first_slots s ip NDIRECT (NDIRECT + NINDIRECT) = {}"
  by (auto simp: first_slots_def slot_def file_block_def MAXFILE_simps)

lemma truncating_inode: "truncating s B (set_inode i f s') = truncating s B s'"
  by (simp add: truncating_def)

lemma truncating_inode_slots:
  assumes t: "truncating s B s'" and ok: "inode_ok s jp" and dj: "own s jp \<inter> B = {}"
  shows "k \<le> MAXFILE \<Longrightarrow> slot s' jp k = slot s jp k" "inode_ok s' jp"
    "p < MAXFILE * BSIZE \<Longrightarrow> file_byte s' jp p = file_byte s jp p"
proof -
  note T = truncatingD [OF t] and I = inode_okD [OF ok]
  have slots: "slot s' jp k = slot s jp k" if "k \<le> MAXFILE" for k
  proof -
    have "i_addrs jp ! NDIRECT \<noteq> 0 \<Longrightarrow> blocks s' ! unat (i_addrs jp ! NDIRECT) = blocks s ! unat (i_addrs jp ! NDIRECT)"
      using T(4) I(3) [of MAXFILE] by (simp add: slot_indirect)
    then show ?thesis by (auto simp: slot_def file_block_def)
  qed
  then show "k \<le> MAXFILE \<Longrightarrow> slot s' jp k = slot s jp k" .
  have "unat (slot s jp k) \<notin> B" if "k \<le> MAXFILE" "slot s jp k \<noteq> 0" for k using dj that by (auto simp: own_def)
  then show "inode_ok s' jp" using ok slots T(3) same_layout_eqs [OF T(2)] by (simp add: inode_ok_def)
  show "file_byte s' jp p = file_byte s jp p" if p: "p < MAXFILE * BSIZE"
  proof -
    have k: "p div BSIZE < MAXFILE" using p by (simp add: less_mult_imp_div_less)
    then show ?thesis using slots [of "p div BSIZE"] T(4) I(3) [of "p div BSIZE"] by (auto simp: file_byte_def slot_file_block)
  qed
qed

lemma itrunc_indirect:
  assumes lay: "layout_ok s" and ok: "inode_ok s ip" and ind: "ind = slot s ip MAXFILE" "ind \<noteq> 0" and h: "held s = []"
    and t: "truncating s (first_slots s ip 0 NDIRECT) s1" and r: "room 2 s" and one: "disk_size s \<le> BPB"
  shows "\<exists>s4. do {
      (d, s) \<leftarrow> get_block 1 ind s1;
      s \<leftarrow> for_loop 0 NINDIRECT (free_entry 1 d) s;
      s \<leftarrow> put_block ind s;
      s \<leftarrow> bfree 1 ind s;
      Some (set_inode i (\<lambda>ip. ip\<lparr>i_addrs := (i_addrs ip)[NDIRECT := 0]\<rparr>) s)
    } = Some (set_inode i (\<lambda>ip. ip\<lparr>i_addrs := (i_addrs ip)[NDIRECT := 0]\<rparr>) s4) \<and>
    truncating s (own s ip) s4 \<and> icache s4 = icache s1"
proof -
  note I = inode_okD [OF ok] and T = truncatingD [OF t]
  note E = same_layout_eqs [OF T(2)]
  have sl: "slot s ip MAXFILE \<noteq> 0" using ind by simp
  have d: "data_start s \<le> unat ind" "unat ind < disk_size s" "used s (unat ind)" using I(3-5) [OF order_refl sl] ind by auto
  have "room 1 s1" using truncating_room [OF t, of 1] r by (simp add: numeral_2_eq_2)
  then have c: "can_read s1" by (rule room_can_read) (simp add: E h)
  have len: "unat ind < length (blocks s1)" using d(2) disk_layoutD(1) [OF lay] E by simp
  have h1: "held s1 = []" using E h by simp
  note R = read_ok(1) [OF c len, unfolded h1]
  have b: "blocks s1 ! unat ind = blocks s ! unat ind" using T(4) d(1) by simp
  let ?s = "s\<lparr>held := [ind]\<rparr>" and ?s1 = "s1\<lparr>held := [ind]\<rparr>"
  have inv: "inode_ok ?s ip" "slot ?s ip MAXFILE \<noteq> 0" "held ?s = [slot ?s ip MAXFILE]" "room 2 ?s" "disk_size ?s \<le> BPB"
    "first_slots ?s ip lo hi = first_slots s ip lo hi" for lo hi
    using ok ind r one by (simp_all add: inode_ok_def first_slots_def)
  obtain s2 where 2: "for_loop 0 NINDIRECT (free_entry 1 (blocks s ! unat ind)) ?s1 = Some s2"
    "truncating ?s (first_slots s ip 0 NDIRECT \<union> first_slots s ip NDIRECT (NDIRECT + NINDIRECT)) s2" "icache s2 = icache s1"
    using free_entry_loop [OF truncating_held(1) [OF t, of "[ind]"] inv(1,2,3) inv(6) [symmetric] _ inv(4,5) order_refl, of "blocks s ! unat ind"]
      ind inv(6) by auto
  let ?B = "first_slots s ip 0 NDIRECT \<union> first_slots s ip NDIRECT (NDIRECT + NINDIRECT)"
  let ?s3 = "s2\<lparr>held := []\<rparr>"
  have t3: "truncating s ?B ?s3" using truncating_held(2) [OF 2(2)] h by simp
  have h2: "held s2 = [ind]" using 2(2) by (simp add: truncating_def same_layout_def)
  have p: "put_block ind s2 = Some ?s3" using h2 by (simp add: put_block_def)
  have nf: "unat ind \<notin> ?B"
    using not_yet_freed [OF ok order_refl sl, of 0 NDIRECT] not_yet_freed [OF ok order_refl sl, of NDIRECT "NDIRECT + NINDIRECT"] ind
    by (auto simp: MAXFILE_simps)
  have hu: "held_used ?s3" by (simp add: held_used_def)
  obtain s4 where 4: "bfree 1 ind ?s3 = Some s4" "truncating s (insert (unat ind) ?B) s4" "icache s4 = icache ?s3"
    using bfree_step [OF t3 hu r one d(2,1,3) nf] by blast
  have "own s ip = insert (unat ind) ?B" using own_split [of s ip] ind by auto
  then show ?thesis using R b 2(1,3) p 4 h1 by (intro exI [of _ s4]) simp
qed

lemma itrunc_ok:
  assumes lay: "layout_ok s" and ok: "inode_ok s (icache s ! i)" and i: "i < length (icache s)" and h: "held s = []"
    and n: "good_inum s (i_inum (icache s ! i))" and r: "room (Suc (Suc l)) s" and one: "disk_size s \<le> BPB"
  shows "\<exists>s'. itrunc i s = Some s' \<and> layout_ok s' \<and> same_layout s s' \<and> room l s' \<and>
    icache s' = (icache s)[i := (icache s ! i)\<lparr>i_size := 0, i_addrs := replicate (NDIRECT + 1) 0\<rparr>] \<and>
    (\<forall>m < disk_size s. used s' m \<longleftrightarrow> used s m \<and> m \<notin> own s (icache s ! i)) \<and>
    (\<forall>jp. inode_ok s jp \<longrightarrow> own s jp \<inter> own s (icache s ! i) = {} \<longrightarrow> inode_ok s' jp \<and>
       (\<forall>p < MAXFILE * BSIZE. file_byte s' jp p = file_byte s jp p))"
proof -
  let ?ip = "icache s ! i"
  note I = inode_okD [OF ok]
  have r2: "room 2 s" by (rule room_less [OF r]) simp
  obtain s1 where 1: "for_loop 0 NDIRECT (free_direct i) s = Some s1" "truncating s (first_slots s ?ip 0 NDIRECT) s1"
    "icache s1 = (icache s)[i := ?ip\<lparr>i_addrs := replicate NDIRECT 0 @ drop NDIRECT (i_addrs ?ip)\<rparr>]"
    using free_direct_loop [OF lay ok i h r2 one order_refl] by blast
  define ind where "ind = slot s ?ip MAXFILE"
  have drop12: "drop NDIRECT (i_addrs ?ip) = [ind]"
    using I(2) Cons_nth_drop_Suc [of NDIRECT "i_addrs ?ip"] by (simp add: ind_def slot_indirect)
  have ind1: "i_addrs (icache s1 ! i) ! NDIRECT = ind" "i_dev (icache s1 ! i) = 1"
    using 1(3) i I(1) drop12 by (simp_all add: nth_append)
  have zeros: "replicate NDIRECT 0 @ [0] = (replicate (NDIRECT + 1) 0 :: u32 list)" by (simp add: replicate_append_same)
  have "\<exists>s4. (if ind \<noteq> 0 then do {
        (d, s) \<leftarrow> get_block 1 ind s1;
        s \<leftarrow> for_loop 0 NINDIRECT (free_entry 1 d) s;
        s \<leftarrow> put_block ind s;
        s \<leftarrow> bfree 1 ind s;
        Some (set_inode i (\<lambda>ip. ip\<lparr>i_addrs := (i_addrs ip)[NDIRECT := 0]\<rparr>) s)
      } else Some s1) = Some s4 \<and> truncating s (own s ?ip) s4 \<and>
      icache s4 = (icache s)[i := ?ip\<lparr>i_addrs := replicate (NDIRECT + 1) 0\<rparr>]"
  proof (cases "ind = 0")
    case True
    then have "own s ?ip = first_slots s ?ip 0 NDIRECT" using own_split [of s ?ip] no_indirect [of s ?ip] by (simp add: ind_def)
    then show ?thesis using True 1(2,3) drop12 zeros by simp
  next
    case False
    from itrunc_indirect [OF lay ok ind_def False h 1(2) r2 one, of i] obtain s4 where 4: "do {
        (d, s) \<leftarrow> get_block 1 ind s1;
        s \<leftarrow> for_loop 0 NINDIRECT (free_entry 1 d) s;
        s \<leftarrow> put_block ind s;
        s \<leftarrow> bfree 1 ind s;
        Some (set_inode i (\<lambda>ip. ip\<lparr>i_addrs := (i_addrs ip)[NDIRECT := 0]\<rparr>) s)
      } = Some (set_inode i (\<lambda>ip. ip\<lparr>i_addrs := (i_addrs ip)[NDIRECT := 0]\<rparr>) s4)" "truncating s (own s ?ip) s4" "icache s4 = icache s1" by blast
    then show ?thesis using False 1(3) i drop12 zeros by (simp add: truncating_inode list_update_append)
  qed
  then obtain s4 where 4: "(if ind \<noteq> 0 then do {
        (d, s) \<leftarrow> get_block 1 ind s1;
        s \<leftarrow> for_loop 0 NINDIRECT (free_entry 1 d) s;
        s \<leftarrow> put_block ind s;
        s \<leftarrow> bfree 1 ind s;
        Some (set_inode i (\<lambda>ip. ip\<lparr>i_addrs := (i_addrs ip)[NDIRECT := 0]\<rparr>) s)
      } else Some s1) = Some s4" "truncating s (own s ?ip) s4"
      "icache s4 = (icache s)[i := ?ip\<lparr>i_addrs := replicate (NDIRECT + 1) 0\<rparr>]" by blast
  note T = truncatingD [OF 4(2)] and E = same_layout_eqs [OF truncatingD(2) [OF 4(2)]]
  have ip4: "icache s4 ! i = ?ip\<lparr>i_addrs := replicate (NDIRECT + 1) 0\<rparr>" "i < length (icache s4)" using 4(3) i by simp_all
  have ok4: "inode_ok s4 (icache s4 ! i)"
  proof -
    have "slot s4 (icache s4 ! i) k = 0" for k by (simp add: ip4 slot_def file_block_def NDIRECT_def nth_Cons' del: replicate.simps)
    then show ?thesis using ip4 I(1) by (simp add: inode_ok_def)
  qed
  have "good_inum s4 (i_inum (icache s4 ! i))" "held s4 = []" using n ip4 E h by (simp_all add: good_inum_def)
  note R = resize [OF T(1) ok4 ip4(2) this truncating_room [OF 4(2) r], of 0]
  then obtain s5 where 5: "iupdate i (set_inode i (\<lambda>ip. ip\<lparr>i_size := 0\<rparr>) s4) = Some s5" "layout_ok s5" "same_layout s4 s5"
    "icache s5 = (icache s4)[i := (icache s4 ! i)\<lparr>i_size := 0\<rparr>]" "room l s5" 
    "\<And>jp. inode_ok s4 jp \<Longrightarrow> inode_ok s5 jp \<and> (\<forall>k \<le> MAXFILE. slot s5 jp k = slot s4 jp k) \<and> (\<forall>p < MAXFILE * BSIZE. file_byte s5 jp p = file_byte s4 jp p)"
    "\<And>k. k \<le> disk_size s4 \<Longrightarrow> used s5 k = used s4 k"
    by blast
  have "itrunc i s = Some s5"
    by (simp only: itrunc_def 1(1) 4(1) 5(1) ind1 Let_def Option.bind.bind_lunit)
  moreover have "icache s5 = (icache s)[i := ?ip\<lparr>i_size := 0, i_addrs := replicate (NDIRECT + 1) 0\<rparr>]"
    using 5(4) 4(3) i by (simp add: size_addrs_commute)
  moreover have "used s5 m \<longleftrightarrow> used s m \<and> m \<notin> own s ?ip" if "m < disk_size s" for m
    using 5(7) [of m] T(3) [OF that] that E by simp
  moreover have "inode_ok s5 jp \<and> (\<forall>p < MAXFILE * BSIZE. file_byte s5 jp p = file_byte s jp p)"
    if "inode_ok s jp" "own s jp \<inter> own s ?ip = {}" for jp
    using truncating_inode_slots [OF 4(2) that] 5(6) [of jp] by auto
  moreover have "same_layout s s5" by (rule same_layout_trans [OF T(2) 5(3)])
  ultimately show ?thesis using 5(2,5) by blast
qed

section \<open>The concrete files\<close>

lemma demo_file_ok: "i < 2 \<Longrightarrow> file_ok demo_fs (icache demo_fs ! i)" "i < 2 \<Longrightarrow> contents demo_fs (icache demo_fs ! i) = []"
  "i < 2 \<Longrightarrow> own demo_fs (icache demo_fs ! i) = {}" "i < 2 \<Longrightarrow> i_size (icache demo_fs ! i) = 0" "free_blocks demo_fs = 3"
proof -
  assume "i < 2"
  then have i: "i = 0 \<or> i = 1" by auto
  have addrs: "i_addrs (icache demo_fs ! i) = replicate 13 0"
    using i by (auto simp: demo_fs_def)
  have fields: "i_dev (icache demo_fs ! i) = 1" "i_size (icache demo_fs ! i) = 0" "i_type (icache demo_fs ! i) \<noteq> T_DEV"
    "unat (i_inum (icache demo_fs ! i)) < 8"
    using i by (auto simp: demo_fs_def T_DIR_def T_FILE_def T_DEV_def)
  have z: "slot demo_fs (icache demo_fs ! i) k = 0" for k
    unfolding slot_def file_block_def addrs by (simp add: NDIRECT_def)
  have "good_inum demo_fs (i_inum (icache demo_fs ! i))" using fields by (simp add: good_inum_def) (simp add: demo_fs_def)
  then show "file_ok demo_fs (icache demo_fs ! i)"
    using z fields addrs by (simp add: file_ok_def inode_ok_def no_holes_def NDIRECT_def)
  show "contents demo_fs (icache demo_fs ! i) = []" "own demo_fs (icache demo_fs ! i) = {}" "i_size (icache demo_fs ! i) = 0"
    using z fields by (simp_all add: contents_def own_def)
next
  have "{n. n < disk_size demo_fs \<and> \<not> used demo_fs n} = {5..<8}" using demo_used by auto
  then show "free_blocks demo_fs = 3" by (simp add: free_blocks_def)
qed

section \<open>Properties\<close>

text \<open>C6: \<open>writei\<close> inside a file of a well-formed disk, with room in the log and free blocks, returns \<open>n\<close>
  and replaces the \<open>n\<close> bytes from \<open>off\<close> in the contents of the file, which grows if needed; the file and
  the disk stay well formed, and every file that shares no block with it keeps its contents.\<close>

theorem writei_splices_contents:
  assumes "layout_ok s" and "file_ok s (icache s ! i)" and "i < length (icache s)" and "held s = []"
    and "off \<le> i_size (icache s ! i)" and "\<not> off + n < off" and "unat off + unat n \<le> MAXFILE * BSIZE" and "unat n \<le> length src"
    and "unat off + unat n \<le> (unat off div BSIZE + k) * BSIZE" and "room (6 * k + 1) s" and "2 * k \<le> free_blocks s"
  shows "\<exists>s'. writei ds i src off n s = Some (int (unat n), s') \<and> layout_ok s' \<and> file_ok s' (icache s' ! i) \<and>
    contents s' (icache s' ! i) = take (unat off) (contents s (icache s ! i)) @ take (unat n) src @
      drop (unat off + unat n) (contents s (icache s ! i)) \<and>
    (\<forall>jp. inode_ok s jp \<longrightarrow> no_holes s jp \<longrightarrow> own s jp \<inter> own s (icache s ! i) = {} \<longrightarrow>
       contents s' jp = contents s jp \<and> inode_ok s' jp \<and> own s' jp \<inter> own s' (icache s' ! i) = {})"
proof -
  have r: "room (6 * k + Suc 0) s" using assms(10) by simp
  obtain s' where w: "writei ds i src off n s = Some (int (unat n), s')" "layout_ok s'" "file_ok s' (icache s' ! i)"
    "contents s' (icache s' ! i) = take (unat off) (contents s (icache s ! i)) @ take (unat n) src @
      drop (unat off + unat n) (contents s (icache s ! i))"
    "\<And>jp. inode_ok s jp \<Longrightarrow> own s jp \<inter> own s (icache s ! i) = {} \<Longrightarrow> undisturbed i s s' jp"
    using writei_ok [OF assms(1-9) r assms(11)] by blast
  have "contents s' jp = contents s jp \<and> inode_ok s' jp \<and> own s' jp \<inter> own s' (icache s' ! i) = {}"
    if "inode_ok s jp" "no_holes s jp" "own s jp \<inter> own s (icache s ! i) = {}" for jp
    using w(5) [OF that(1,3)] undisturbed_contents(1) that(2) by (auto simp: undisturbed_def)
  then show ?thesis using w(1-4) by blast
qed

theorem writei_splices_contents_witness:
  "\<exists>s'. writei [] 1 [7, 8, 9] 0 3 demo_fs = Some (3, s') \<and> contents s' (icache s' ! 1) = [7, 8, 9] \<and>
    contents s' (icache demo_fs ! 0) = []"
proof -
  have r: "room (6 * 1 + 1) demo_fs" using demo_layout(2) by (rule room_less) simp
  have p: "file_ok demo_fs (icache demo_fs ! 1)" "1 < length (icache demo_fs)" "held demo_fs = []" "0 \<le> i_size (icache demo_fs ! 1)"
    "\<not> 0 + 3 < (0 :: u32)" "unat (0 :: u32) + unat (3 :: u32) \<le> MAXFILE * BSIZE" "unat (3 :: u32) \<le> length [7, 8, 9 :: byte]"
    "unat (0 :: u32) + unat (3 :: u32) \<le> (unat (0 :: u32) div BSIZE + 1) * BSIZE" "2 * 1 \<le> free_blocks demo_fs"
    using demo_file_ok by (simp_all add: MAXFILE_simps)
  note d0 = demo_file_ok(1-4) [of 0] and d1 = demo_file_ok(1-4) [of 1]
  obtain s' where "writei [] 1 [7, 8, 9] 0 3 demo_fs = Some (int (unat (3 :: u32)), s')"
    "contents s' (icache s' ! 1) = take (unat (0 :: u32)) (contents demo_fs (icache demo_fs ! 1)) @ take (unat (3 :: u32)) [7, 8, 9] @
      drop (unat (0 :: u32) + unat (3 :: u32)) (contents demo_fs (icache demo_fs ! 1))"
    "\<And>jp. inode_ok demo_fs jp \<Longrightarrow> no_holes demo_fs jp \<Longrightarrow> own demo_fs jp \<inter> own demo_fs (icache demo_fs ! 1) = {} \<Longrightarrow>
       contents s' jp = contents demo_fs jp"
    using writei_splices_contents [OF demo_layout(1) p(1-8) r p(9), of "[]"] by blast
  then show ?thesis using d0 d1 file_okD(1,2) [OF demo_file_ok(1) [of 0]] by simp
qed

text \<open>C7: \<open>readi\<close> returns the bytes of the contents from \<open>off\<close> on, at most \<open>n\<close> and none past the end,
  with their number, and changes nothing; an offset past the end or a wrapping range gives -1. What
  \<open>writei\<close> wrote is read back.\<close>

theorem readi_returns_contents:
  assumes "layout_ok s" and "file_ok s (icache s ! i)" and "held s = []" and "can_read s"
  shows "readi ds i off n s =
    (if off \<le> i_size (icache s ! i) \<and> \<not> off + n < off
     then let bs = take (unat n) (drop (unat off) (contents s (icache s ! i))) in Some (int (length bs), bs, s)
     else Some (-1, [], s))"
proof (cases "off \<le> i_size (icache s ! i) \<and> \<not> off + n < off")
  case True
  then show ?thesis using readi_ok [OF assms(1) _ _ assms(3,4)] file_okD [OF assms(2)] by (simp add: Let_def)
next
  case False
  then show ?thesis using file_okD(4) [OF assms(2)] by (auto simp: readi_def Let_def not_le)
qed

theorem readi_returns_contents_witness:
  "\<exists>s'. writei [] 1 [7, 8, 9] 0 3 demo_fs = Some (3, s') \<and> readi [] 1 1 5 s' = Some (2, [8, 9], s')"
proof -
  have r: "room (6 * 1 + Suc 0) demo_fs" using demo_layout(2) by (rule room_less) simp
  have p: "file_ok demo_fs (icache demo_fs ! 1)" "1 < length (icache demo_fs)" "held demo_fs = []" "0 \<le> i_size (icache demo_fs ! 1)"
    "\<not> 0 + 3 < (0 :: u32)" "unat (0 :: u32) + unat (3 :: u32) \<le> MAXFILE * BSIZE" "unat (3 :: u32) \<le> length [7, 8, 9 :: byte]"
    "unat (0 :: u32) + unat (3 :: u32) \<le> (unat (0 :: u32) div BSIZE + 1) * BSIZE" "2 * 1 \<le> free_blocks demo_fs"
    using demo_file_ok by (simp_all add: MAXFILE_simps)
  obtain s' where w: "writei [] 1 [7, 8, 9] 0 3 demo_fs = Some (3, s')" "layout_ok s'" "file_ok s' (icache s' ! 1)"
    "same_layout demo_fs s'" "contents s' (icache s' ! 1) = [7, 8, 9]" "room 0 s'"
    "i_size (icache s' ! 1) = 3"
    using writei_ok [OF demo_layout(1) p(1-8) r p(9), of "[]"] demo_file_ok(1-4) [of 1] by (fastforce simp: max_def)
  have "held s' = []" using same_layout_eqs(5) [OF w(4)] by simp
  moreover from this have "can_read s'" by (intro room_can_read [OF w(6)]) simp
  ultimately have "readi [] 1 1 5 s' = Some (2, [8, 9], s')"
    using readi_returns_contents [OF w(2,3), of "[]" 1 5] w(5,7) by (simp add: Let_def word_le_nat_alt)
  then show ?thesis using w(1) by blast
qed

text \<open>C8: \<open>itrunc\<close> gives back exactly the blocks of the inode, direct, indirect and the indirect block
  itself, leaves an inode of size zero without blocks, and touches no file that shares no block with it.
  Two blocks of room in the log are enough for a file of any size.\<close>

theorem itrunc_frees_all_blocks:
  assumes "layout_ok s" and "inode_ok s (icache s ! i)" and "i < length (icache s)" and "held s = []"
    and "good_inum s (i_inum (icache s ! i))" and "room 2 s" and "disk_size s \<le> BPB"
  shows "\<exists>s'. itrunc i s = Some s' \<and> layout_ok s' \<and> i_size (icache s' ! i) = 0 \<and> own s' (icache s' ! i) = {} \<and>
    (\<forall>m < disk_size s. used s' m \<longleftrightarrow> used s m \<and> m \<notin> own s (icache s ! i)) \<and>
    (\<forall>jp. inode_ok s jp \<longrightarrow> no_holes s jp \<longrightarrow> own s jp \<inter> own s (icache s ! i) = {} \<longrightarrow> contents s' jp = contents s jp)"
proof -
  have r: "room (Suc (Suc 0)) s" using assms(6) by (simp add: numeral_2_eq_2)
  obtain s' where t: "itrunc i s = Some s'" "layout_ok s'"
    "icache s' = (icache s)[i := (icache s ! i)\<lparr>i_size := 0, i_addrs := replicate (NDIRECT + 1) 0\<rparr>]"
    "\<And>m. m < disk_size s \<Longrightarrow> used s' m \<longleftrightarrow> used s m \<and> m \<notin> own s (icache s ! i)"
    "\<And>jp p. inode_ok s jp \<Longrightarrow> own s jp \<inter> own s (icache s ! i) = {} \<Longrightarrow> p < MAXFILE * BSIZE \<Longrightarrow> file_byte s' jp p = file_byte s jp p"
    using itrunc_ok [OF assms(1-5) r assms(7)] by blast
  have "i_addrs (icache s' ! i) = replicate (NDIRECT + 1) 0" "i_size (icache s' ! i) = 0" using t(3) assms(3) by simp_all
  then have "slot s' (icache s' ! i) k = 0" for k by (simp add: slot_def file_block_def NDIRECT_def nth_Cons')
  then have "own s' (icache s' ! i) = {}" by (simp add: own_def)
  moreover have "contents s' jp = contents s jp" if "inode_ok s jp" "no_holes s jp" "own s jp \<inter> own s (icache s ! i) = {}" for jp
    using t(5) [OF that(1,3)] that(2) by (auto simp: contents_def no_holes_def)
  ultimately show ?thesis using t(1,2,4) \<open>i_size (icache s' ! i) = 0\<close> by blast
qed

theorem itrunc_frees_all_blocks_witness:
  "\<exists>s1 s2. writei [] 1 [7, 8, 9] 0 3 demo_fs = Some (3, s1) \<and> itrunc 1 s1 = Some s2 \<and> i_size (icache s2 ! 1) = 0"
proof -
  have r: "room (6 * 1 + Suc 2) demo_fs" using demo_layout(2) by (rule room_less) simp
  have p: "file_ok demo_fs (icache demo_fs ! 1)" "1 < length (icache demo_fs)" "held demo_fs = []" "0 \<le> i_size (icache demo_fs ! 1)"
    "\<not> 0 + 3 < (0 :: u32)" "unat (0 :: u32) + unat (3 :: u32) \<le> MAXFILE * BSIZE" "unat (3 :: u32) \<le> length [7, 8, 9 :: byte]"
    "unat (0 :: u32) + unat (3 :: u32) \<le> (unat (0 :: u32) div BSIZE + 1) * BSIZE" "2 * 1 \<le> free_blocks demo_fs"
    using demo_file_ok by (simp_all add: MAXFILE_simps)
  obtain s' where w: "writei [] 1 [7, 8, 9] 0 3 demo_fs = Some (3, s')" "layout_ok s'" "file_ok s' (icache s' ! 1)"
    "same_layout demo_fs s'" "room 2 s'" "length (icache s') = 2"
    using writei_ok [OF demo_layout(1) p(1-8) r p(9), of "[]"] by fastforce
  have "held s' = []" "disk_size s' \<le> BPB" using same_layout_eqs [OF w(4)] by (simp_all add: BPB_def BSIZE_def)
  then show ?thesis
    using itrunc_frees_all_blocks [OF w(2) file_okD(1) [OF w(3)] _ _ file_okD(3) [OF w(3)] w(5)] w(1,6) by auto
qed

text \<open>An inode written into its block by \<open>iupdate\<close> is what \<open>ilock\<close> reads from there, and the other
  inodes of the block are as before.\<close>

theorem inode_roundtrip:
  assumes "length d = BSIZE" and "length (i_addrs ip) = NDIRECT + 1"
  shows "read_dinode (write_dinode d inum ip) inum jp = jp\<lparr>i_type := i_type ip, i_major := i_major ip, i_minor := i_minor ip,
      i_nlink := i_nlink ip, i_size := i_size ip, i_addrs := i_addrs ip\<rparr> \<and>
    (inode_offset other \<noteq> inode_offset inum \<longrightarrow> read_dinode (write_dinode d inum ip) other jp = read_dinode d other jp)"
  using dinode_roundtrip [OF assms] by blast

theorem inode_roundtrip_witness:
  "i_type (read_dinode (write_dinode (replicate BSIZE 0) 1 (icache demo_fs ! 0)) 1 (icache demo_fs ! 1)) = T_DIR"
  using inode_roundtrip [of "replicate BSIZE 0" "icache demo_fs ! 0" 1 "icache demo_fs ! 1" 2]
  by (simp add: demo_fs_def NDIRECT_def)

end
