(* ===== verification/FsDirs.thy ===== *)
theory FsDirs
  imports FsWrite
begin

text \<open>
  Path names, the inode cache and directories of \<open>Fs\<close>: \<open>skipelem\<close> as splitting at slashes, \<open>iget\<close> as
  a table without duplicates, \<open>dirlookup\<close> and \<open>dirlink\<close> as operations on a list of entries.
\<close>

section \<open>Paths\<close>

text \<open>The elements of a path: its maximal pieces without a slash.\<close>

function elements :: "byte list \<Rightarrow> byte list list" where
  "elements path = (let path = dropWhile (\<lambda>c. c = slash) path in
     if path = [] then []
     else takeWhile (\<lambda>c. c \<noteq> slash) path # elements (dropWhile (\<lambda>c. c \<noteq> slash) path))"
  by auto
termination
proof (relation "measure length")
  fix path p :: "byte list"
  assume p: "p = dropWhile (\<lambda>c. c = slash) path" "p \<noteq> []"
  then have "hd p \<noteq> slash" using hd_dropWhile [of "\<lambda>c. c = slash" path] by simp
  then have "length (dropWhile (\<lambda>c. c \<noteq> slash) p) < length p"
    using p(2) by (cases p) (simp_all add: length_dropWhile_le le_imp_less_Suc)
  also have "length p \<le> length path" unfolding p(1) by (rule length_dropWhile_le)
  finally show "(dropWhile (\<lambda>c. c \<noteq> slash) p, path) \<in> measure length" by simp
qed simp

declare elements.simps [simp del]

lemma elements_skip: "elements (dropWhile (\<lambda>c. c = slash) path) = elements path"
  by (simp add: elements.simps [of path] elements.simps [of "dropWhile (\<lambda>c. c = slash) path"] dropWhile_idem)

text \<open>A name as the directory functions see it: at most \<open>DIRSIZ\<close> bytes, ending before a zero.\<close>

definition cname :: "byte list \<Rightarrow> byte list" where
  "cname name = take DIRSIZ (takeWhile (\<lambda>c. c \<noteq> 0) name)"

lemma cname_overlay:
  assumes "length name = DIRSIZ" "0 \<notin> set e"
  shows "cname (if DIRSIZ \<le> length e then overlay name 0 (take DIRSIZ e) else overlay name 0 (e @ [0])) = take DIRSIZ e"
    "length (if DIRSIZ \<le> length e then overlay name 0 (take DIRSIZ e) else overlay name 0 (e @ [0])) = DIRSIZ"
proof -
  have z: "takeWhile (\<lambda>c. c \<noteq> 0) (xs @ 0 # ys) = xs" if "0 \<notin> set xs" for xs ys :: "byte list"
    using that by (induction xs) auto
  have all: "takeWhile (\<lambda>c. c \<noteq> 0) (take DIRSIZ e) = take DIRSIZ e"
    using assms(2) by (intro takeWhile_eq_all_conv [THEN iffD2]) (metis in_set_takeD)
  show "cname (if DIRSIZ \<le> length e then overlay name 0 (take DIRSIZ e) else overlay name 0 (e @ [0])) = take DIRSIZ e"
    using assms(1) z [OF assms(2)] by (simp add: cname_def overlay_def all)
  show "length (if DIRSIZ \<le> length e then overlay name 0 (take DIRSIZ e) else overlay name 0 (e @ [0])) = DIRSIZ"
    using assms(1) by auto
qed

lemma skipelem_elements:
  assumes "length name = DIRSIZ" "0 \<notin> set path"
  shows "case skipelem path name of
      None \<Rightarrow> elements path = []
    | Some (path', name') \<Rightarrow> \<exists>e. elements path = e # elements path' \<and> cname name' = take DIRSIZ e \<and> length name' = DIRSIZ \<and>
        0 \<notin> set path' \<and> (path' = [] \<longleftrightarrow> elements path' = [])"
proof -
  define p where "p = dropWhile (\<lambda>c. c = slash) path"
  show ?thesis
  proof (cases "p = []")
    case True
    then show ?thesis by (simp add: skipelem_def elements.simps [of path] p_def [symmetric] Let_def)
  next
    case False
    define e where "e = takeWhile (\<lambda>c. c \<noteq> slash) p"
    define q where "q = dropWhile (\<lambda>c. c = slash) (drop (length e) p)"
    let ?name = "if DIRSIZ \<le> length e then overlay name 0 (take DIRSIZ e) else overlay name 0 (e @ [0])"
    have s: "skipelem path name = Some (q, ?name)"
      using False by (simp add: skipelem_def p_def [symmetric] Let_def e_def q_def)
    have ep: "elements path = e # elements (dropWhile (\<lambda>c. c \<noteq> slash) p)"
      using False by (simp add: elements.simps [of path] p_def [symmetric] Let_def e_def)
    have "drop (length e) p = dropWhile (\<lambda>c. c \<noteq> slash) p" by (simp add: e_def dropWhile_eq_drop)
    then have eq: "elements (dropWhile (\<lambda>c. c \<noteq> slash) p) = elements q" by (simp add: q_def elements_skip)
    have sub: "set p \<subseteq> set path" "set q \<subseteq> set p" "set e \<subseteq> set p"
      using set_dropWhileD set_takeWhileD unfolding p_def q_def e_def by (fastforce dest: in_set_dropD)+
    then have z: "0 \<notin> set e" "0 \<notin> set q" using assms(2) by blast+
    have "dropWhile (\<lambda>c. c = slash) q = q" by (simp add: q_def dropWhile_idem)
    then have "q \<noteq> [] \<Longrightarrow> elements q \<noteq> []" by (simp add: elements.simps [of q] Let_def)
    moreover have "elements [] = []" by (simp add: elements.simps)
    ultimately show ?thesis using s ep eq z cname_overlay [OF assms(1) z(1)] by auto
  qed
qed

section \<open>The inode cache\<close>

definition icache_ok :: "'a fs_scheme \<Rightarrow> bool" where
  "icache_ok s \<longleftrightarrow> (\<forall>i < length (icache s). 0 \<le> i_ref (icache s ! i)) \<and>
     (\<forall>i < length (icache s). \<forall>j < length (icache s). 0 < i_ref (icache s ! i) \<longrightarrow> 0 < i_ref (icache s ! j) \<longrightarrow>
        i_dev (icache s ! i) = i_dev (icache s ! j) \<longrightarrow> i_inum (icache s ! i) = i_inum (icache s ! j) \<longrightarrow> i = j)"

definition at_inode :: "u32 \<Rightarrow> u32 \<Rightarrow> inode \<Rightarrow> bool" where
  "at_inode dev inum ip \<longleftrightarrow> 0 < i_ref ip \<and> i_dev ip = dev \<and> i_inum ip = inum"

lemma iget_scan_Cons:
  "iget_scan dev inum (ip # ips) i unused =
     (if at_inode dev inum ip then Cached i
      else iget_scan dev inum ips (i + 1) (if unused = None \<and> i_ref ip = 0 then Some i else unused))"
  by (simp add: at_inode_def)

lemma iget_scan_eq:
  "iget_scan dev inum ips k unused =
     (case find_first (at_inode dev inum) ips of
        Some j \<Rightarrow> Cached (k + j)
      | None \<Rightarrow> (case unused of Some e \<Rightarrow> Empty e
          | None \<Rightarrow> (case find_first (\<lambda>ip. i_ref ip = 0) ips of Some j \<Rightarrow> Empty (k + j) | None \<Rightarrow> Full)))"
proof (induction ips arbitrary: k unused)
  case Nil
  then show ?case by (simp split: option.split)
next
  case (Cons ip ips)
  show ?case
    by (cases "at_inode dev inum ip"; cases "find_first (at_inode dev inum) ips"; cases "find_first (\<lambda>ip. i_ref ip = 0) ips"; cases unused)
      (auto simp: Cons.IH iget_scan_Cons simp del: iget_scan.simps(2))
qed

lemma iget_cases:
  "iget dev inum s =
     (case find_first (at_inode dev inum) (icache s) of
        Some i \<Rightarrow> Some (i, set_inode i (\<lambda>ip. ip\<lparr>i_ref := i_ref ip + 1\<rparr>) s)
      | None \<Rightarrow> (case find_first (\<lambda>ip. i_ref ip = 0) (icache s) of
          Some i \<Rightarrow> Some (i, set_inode i (\<lambda>ip. ip\<lparr>i_dev := dev, i_inum := inum, i_ref := 1, i_valid := False\<rparr>) s)
        | None \<Rightarrow> None))"
  by (simp add: iget_def iget_scan_eq split: option.split)

lemma iget_ok:
  assumes ok: "icache_ok s" and g: "iget dev inum s = Some (i, s')"
  shows "i < length (icache s)" "icache_ok s'" "at_inode dev inum (icache s' ! i)" "length (icache s') = length (icache s)"
    "j \<noteq> i \<Longrightarrow> icache s' ! j = icache s ! j" "blocks s' = blocks s"
    "j < length (icache s) \<Longrightarrow> at_inode dev inum (icache s ! j) \<Longrightarrow> j = i \<and> i_ref (icache s' ! i) = i_ref (icache s ! i) + 1"
proof -
  have r: "0 \<le> i_ref (icache s ! j)" if "j < length (icache s)" for j using ok that by (simp add: icache_ok_def)
  have u: "j = k" if "j < length (icache s)" "k < length (icache s)" "at_inode d n (icache s ! j)" "at_inode d n (icache s ! k)" for j k d n
    using ok that unfolding icache_ok_def at_inode_def by metis
  have okI: "icache_ok t" if "length (icache t) = length (icache s)" "\<And>j. j \<noteq> i \<Longrightarrow> icache t ! j = icache s ! j" "0 < i_ref (icache t ! i)"
    "at_inode dev inum (icache t ! i)" "\<And>j. j < length (icache s) \<Longrightarrow> j \<noteq> i \<Longrightarrow> \<not> at_inode dev inum (icache s ! j)" for t :: "'a fs_scheme"
    unfolding icache_ok_def
  proof (intro conjI allI impI)
    fix j assume "j < length (icache t)"
    then show "0 \<le> i_ref (icache t ! j)" using r [of j] that(1-3) by (cases "j = i") auto
  next
    fix j k
    assume a: "j < length (icache t)" "k < length (icache t)" "0 < i_ref (icache t ! j)" "0 < i_ref (icache t ! k)"
      "i_dev (icache t ! j) = i_dev (icache t ! k)" "i_inum (icache t ! j) = i_inum (icache t ! k)"
    show "j = k"
    proof (cases "j = i \<or> k = i")
      case True
      then show ?thesis using that a by (metis at_inode_def)
    next
      case False
      then show ?thesis using u [of j k "i_dev (icache t ! j)" "i_inum (icache t ! j)"] that(1,2) a by (simp add: at_inode_def)
    qed
  qed
  consider (hit) "find_first (at_inode dev inum) (icache s) = Some i" "s' = set_inode i (\<lambda>ip. ip\<lparr>i_ref := i_ref ip + 1\<rparr>) s"
    | (miss) "find_first (at_inode dev inum) (icache s) = None" "find_first (\<lambda>ip. i_ref ip = 0) (icache s) = Some i"
      "s' = set_inode i (\<lambda>ip. ip\<lparr>i_dev := dev, i_inum := inum, i_ref := 1, i_valid := False\<rparr>) s"
    using g unfolding iget_cases by (auto split: option.splits)
  then have "i < length (icache s) \<and> icache_ok s' \<and> at_inode dev inum (icache s' ! i) \<and> length (icache s') = length (icache s) \<and>
    (\<forall>j. j \<noteq> i \<longrightarrow> icache s' ! j = icache s ! j) \<and> blocks s' = blocks s \<and>
    (\<forall>j < length (icache s). at_inode dev inum (icache s ! j) \<longrightarrow> j = i \<and> i_ref (icache s' ! i) = i_ref (icache s ! i) + 1)"
  proof cases
    case hit
    then have i: "i < length (icache s)" "at_inode dev inum (icache s ! i)" using find_first_SomeD by blast+
    then have others: "\<not> at_inode dev inum (icache s ! j)" if "j < length (icache s)" "j \<noteq> i" for j using u [of j i] that by blast
    have "at_inode dev inum (icache s' ! i)" "0 < i_ref (icache s' ! i)" using i hit(2) by (auto simp: at_inode_def)
    then show ?thesis using okI [of s'] i others hit(2) by auto
  next
    case miss
    then have i: "i < length (icache s)" using find_first_SomeD [OF miss(2)] by blast
    have others: "\<not> at_inode dev inum (icache s ! j)" if "j < length (icache s)" for j
      using miss(1) that by (simp add: find_first_None)
    have "at_inode dev inum (icache s' ! i)" "0 < i_ref (icache s' ! i)" using i miss(3) by (auto simp: at_inode_def)
    then show ?thesis using okI [of s'] i others miss(3) by auto
  qed
  then show "i < length (icache s)" "icache_ok s'" "at_inode dev inum (icache s' ! i)" "length (icache s') = length (icache s)"
    "j \<noteq> i \<Longrightarrow> icache s' ! j = icache s ! j" "blocks s' = blocks s"
    "j < length (icache s) \<Longrightarrow> at_inode dev inum (icache s ! j) \<Longrightarrow> j = i \<and> i_ref (icache s' ! i) = i_ref (icache s ! i) + 1" by blast+
qed

section \<open>Directory entries\<close>

lemma compare_names_eq: "compare_names p q n = 0 \<longleftrightarrow> take n (takeWhile (\<lambda>c. c \<noteq> 0) p) = take n (takeWhile (\<lambda>c. c \<noteq> 0) q)"
proof (induction n arbitrary: p q)
  case (Suc n)
  have eq: "uint a - uint b = 0 \<longleftrightarrow> a = b" for a b :: byte by (simp add: word_uint_eq_iff)
  show ?case
    by (cases p; cases q) (use Suc eq [of _ 0] in \<open>auto simp: Let_def eq simp del: right_minus_eq\<close>)
qed simp

lemma namecmp_eq: "namecmp s t = 0 \<longleftrightarrow> cname s = cname t"
  by (simp add: namecmp_def compare_names_eq cname_def)

lemma name_field_spec: "length (name_field name) = DIRSIZ" "cname (name_field name) = cname name"
proof -
  show "length (name_field name) = DIRSIZ" by (simp add: name_field_def)
  let ?w = "takeWhile (\<lambda>c. c \<noteq> 0) name"
  have w: "\<forall>c \<in> set ?w. c \<noteq> 0" by (auto dest: set_takeWhileD)
  have t: "takeWhile (\<lambda>c. c \<noteq> 0) (take n ?w @ replicate m (0 :: byte)) = take n ?w" for n m
  proof -
    have "takeWhile (\<lambda>c. c \<noteq> 0) (replicate m (0 :: byte)) = []" by (cases m) simp_all
    then show ?thesis using w by (subst takeWhile_append2) (auto dest: in_set_takeD)
  qed
  show "cname (name_field name) = cname name"
    using t [of DIRSIZ "min DIRSIZ (DIRSIZ - length ?w)"] by (simp add: cname_def name_field_def)
qed

text \<open>A directory: its contents are entries of 16 bytes.\<close>

definition dir_ok :: "'a fs_scheme \<Rightarrow> nat \<Rightarrow> bool" where
  "dir_ok s dp \<longleftrightarrow> layout_ok s \<and> file_ok s (icache s ! dp) \<and> dp < length (icache s) \<and> i_type (icache s ! dp) = T_DIR \<and>
     unat (i_size (icache s ! dp)) mod 16 = 0 \<and> held s = [] \<and> can_read s"

lemma dir_okD:
  assumes "dir_ok s dp"
  shows "layout_ok s" "file_ok s (icache s ! dp)" "dp < length (icache s)" "i_type (icache s ! dp) = T_DIR"
    "unat (i_size (icache s ! dp)) mod 16 = 0" "held s = []" "can_read s"
  using assms by (simp_all add: dir_ok_def)

definition entry :: "'a fs_scheme \<Rightarrow> inode \<Rightarrow> nat \<Rightarrow> byte list" where
  "entry s ip k = segment (contents s ip) (16 * k) 16"

definition entries :: "inode \<Rightarrow> nat" where
  "entries ip = unat (i_size ip) div 16"

definition is_entry :: "'a fs_scheme \<Rightarrow> inode \<Rightarrow> byte list \<Rightarrow> nat \<Rightarrow> bool" where
  "is_entry s ip name k \<longleftrightarrow> dirent_inum (entry s ip k) \<noteq> 0 \<and> cname name = cname (dirent_name (entry s ip k))"

lemma read_entry:
  assumes ok: "dir_ok s dp" and k: "k < entries (icache s ! dp)"
  shows "readi ds dp (of_nat (16 * k)) 16 s = Some (16, entry s (icache s ! dp) k, s)"
    "of_nat (16 * k) < i_size (icache s ! dp)"
proof -
  note D = dir_okD [OF ok]
  let ?ip = "icache s ! dp"
  have sz: "unat (i_size ?ip) \<le> 71680" using file_okD(5) [OF D(2)] by (simp add: max_bytes)
  have k16: "16 * k + 16 \<le> unat (i_size ?ip)" using k by (simp add: entries_def)
  have u: "unat (of_nat (16 * k) :: u32) = 16 * k" by (rule unat_of_nat_u32) (use k16 sz in simp)
  have "unat (of_nat (16 * k) + 16 :: u32) = 16 * k + 16" using u k16 sz by (simp add: unat_u32_plus del: of_nat_mult)
  then have w: "\<not> of_nat (16 * k) + 16 < (of_nat (16 * k) :: u32)" using u by (simp add: word_less_nat_alt del: of_nat_mult)
  have le: "of_nat (16 * k) \<le> i_size ?ip" using u k16 by (simp add: word_le_nat_alt del: of_nat_mult)
  show "of_nat (16 * k) < i_size ?ip" using u k16 by (simp add: word_less_nat_alt del: of_nat_mult)
  have len: "length (take 16 (drop (16 * k) (contents s ?ip))) = 16" using k16 by simp
  show "readi ds dp (of_nat (16 * k)) 16 s = Some (16, entry s ?ip k, s)"
    using readi_ok [OF D(1) file_okD(1,2) [OF D(2)] D(6,7) file_okD(4) [OF D(2)] le w, of ds] u len
    by (simp add: entry_def segment_def Let_def del: of_nat_mult)
qed

lemma past_entries:
  assumes ok: "dir_ok s dp"
  shows "\<not> of_nat (16 * entries (icache s ! dp)) < i_size (icache s ! dp)" "of_nat (16 * entries (icache s ! dp)) = i_size (icache s ! dp)"
proof -
  have "16 * entries (icache s ! dp) = unat (i_size (icache s ! dp))"
    using dir_okD(5) [OF ok] by (simp add: entries_def mult.commute mod_eq_0_iff_dvd)
  then show "of_nat (16 * entries (icache s ! dp)) = i_size (icache s ! dp)" by simp
  then show "\<not> of_nat (16 * entries (icache s ! dp)) < i_size (icache s ! dp)" by simp
qed

lemma next_entry: "of_nat (16 * k) + 16 = (of_nat (16 * Suc k) :: u32)"
  by simp

definition lookup_result :: "'a fs_scheme \<Rightarrow> inode \<Rightarrow> nat option \<Rightarrow> ((nat \<times> u32) option \<times> 'a fs_scheme) option" where
  "lookup_result s ip r = (case r of
     None \<Rightarrow> Some (None, s)
   | Some k \<Rightarrow> do { (i, s) \<leftarrow> iget (i_dev ip) (ucast (dirent_inum (entry s ip k))) s; Some (Some (i, of_nat (16 * k)), s) })"

lemma dirlookup_from_ok:
  assumes ok: "dir_ok s dp" and k: "k \<le> entries (icache s ! dp)"
  shows "dirlookup_from ds dp name (of_nat (16 * k)) s =
    lookup_result s (icache s ! dp) (find (is_entry s (icache s ! dp) name) [k..<entries (icache s ! dp)])"
  using k
proof (induction "entries (icache s ! dp) - k" arbitrary: k)
  case 0
  then have "k = entries (icache s ! dp)" by simp
  then show ?case using past_entries [OF ok] by (subst dirlookup_from.simps) (simp add: lookup_result_def del: of_nat_mult)
next
  case (Suc n)
  let ?ip = "icache s ! dp"
  have k: "k < entries ?ip" using Suc.hyps(2) by simp
  note R = read_entry [OF ok k]
  have IH: "dirlookup_from ds dp name (of_nat (16 * k) + 16) s =
      lookup_result s ?ip (find (is_entry s ?ip name) [Suc k..<entries ?ip])"
    unfolding next_entry by (rule Suc.hyps(1)) (use Suc.hyps(2) k in auto)
  have up: "[k..<entries ?ip] = k # [Suc k..<entries ?ip]" using k by (simp add: upt_conv_Cons)
  show ?case
    unfolding up using R IH
    by (subst dirlookup_from.simps) (simp add: is_entry_def namecmp_eq lookup_result_def del: of_nat_mult)
qed

lemma dirlookup_ok:
  assumes "dir_ok s dp"
  shows "dirlookup ds dp name s = lookup_result s (icache s ! dp) (find (is_entry s (icache s ! dp) name) [0..<entries (icache s ! dp)])"
  using dirlookup_from_ok [OF assms, of 0] dir_okD(4) [OF assms] by (simp add: dirlookup_def)

text \<open>The place where \<open>dirlink\<close> writes: the first free entry, or the end.\<close>

definition free_entry_at :: "'a fs_scheme \<Rightarrow> inode \<Rightarrow> nat \<Rightarrow> nat" where
  "free_entry_at s ip k = (case find (\<lambda>j. dirent_inum (entry s ip j) = 0) [k..<entries ip] of Some j \<Rightarrow> j | None \<Rightarrow> entries ip)"

lemma empty_dirent_ok:
  assumes ok: "dir_ok s dp" and k: "k \<le> entries (icache s ! dp)"
  shows "empty_dirent ds dp (of_nat (16 * k)) s = Some (of_nat (16 * free_entry_at s (icache s ! dp) k), s)"
  using k
proof (induction "entries (icache s ! dp) - k" arbitrary: k)
  case 0
  then have "k = entries (icache s ! dp)" by simp
  then show ?case using past_entries [OF ok] by (subst empty_dirent.simps) (simp add: free_entry_at_def del: of_nat_mult)
next
  case (Suc n)
  let ?ip = "icache s ! dp"
  have k: "k < entries ?ip" using Suc.hyps(2) by simp
  note R = read_entry [OF ok k]
  have IH: "empty_dirent ds dp (of_nat (16 * k) + 16) s = Some (of_nat (16 * free_entry_at s ?ip (Suc k)), s)"
    unfolding next_entry by (rule Suc.hyps(1)) (use Suc.hyps(2) k in auto)
  have up: "[k..<entries ?ip] = k # [Suc k..<entries ?ip]" using k by (simp add: upt_conv_Cons)
  show ?case
    using R IH by (subst empty_dirent.simps) (simp add: free_entry_at_def up del: of_nat_mult)
qed

lemma find_upt_SomeD: "find P [a..<b] = Some k \<Longrightarrow> a \<le> k \<and> k < b \<and> P k \<and> (\<forall>j. a \<le> j \<longrightarrow> j < k \<longrightarrow> \<not> P j)"
proof -
  assume "find P [a..<b] = Some k"
  then obtain i where i: "i < b - a" "P (a + i)" "\<forall>j < i. \<not> P (a + j)" "k = a + i" by (auto simp: find_Some_iff)
  have "\<not> P j" if "a \<le> j" "j < k" for j
  proof -
    have "j - a < i" "a + (j - a) = j" using that i(4) by simp_all
    then show ?thesis using i(3) by metis
  qed
  then show ?thesis using i by auto
qed

lemma find_upt_None: "find P [a..<b] = None \<longleftrightarrow> (\<forall>j. a \<le> j \<longrightarrow> j < b \<longrightarrow> \<not> P j)"
  by (auto simp: find_None_iff)

lemma segment_splice:
  assumes "m mod n = 0" "j mod n = 0" "m \<le> length c" "length bs = n" "j + n \<le> max (length c) (m + n)" "length c mod n = 0" "0 < n"
  shows "segment (take m c @ bs @ drop (m + n) c) j n = (if j = m then bs else segment c j n)"
proof -
  obtain p q where e: "m = n * p" "j = n * q" using assms(1,2) by (auto simp: mod_eq_0_iff_dvd elim!: dvdE)
  consider "j = m" | "j + n \<le> m" | "m + n \<le> j"
  proof (cases "q = p")
    case False
    then have "q + 1 \<le> p \<or> p + 1 \<le> q" by linarith
    then have "n * (q + 1) \<le> n * p \<or> n * (p + 1) \<le> n * q" using mult_le_mono2 by blast
    then show ?thesis using that e by (simp add: algebra_simps) blast
  qed (use e that in blast)
  then show ?thesis
  proof cases
    case 1
    then show ?thesis using assms(3,4) by (simp add: segment_def)
  next
    case 2
    then show ?thesis using assms(3,4,7) by (auto simp: segment_def drop_take min_def)
  next
    case 3
    then show ?thesis using assms(3,4,7) by (auto simp: segment_def min_def)
  qed
qed

lemma free_entry_le: "free_entry_at s ip 0 \<le> entries ip"
proof (cases "find (\<lambda>j. dirent_inum (entry s ip j) = 0) [0..<entries ip]")
  case None
  then show ?thesis by (simp only: free_entry_at_def option.case le_refl)
next
  case (Some j)
  then show ?thesis using find_upt_SomeD [OF Some] by (simp only: free_entry_at_def option.case less_imp_le)
qed

lemma room_can_read0: "room k s \<Longrightarrow> held s = [] \<Longrightarrow> can_read s"
  by (rule room_can_read) simp_all

lemma dirlink_ok:
  assumes ok: "dir_ok s dp" and nf: "find (is_entry s (icache s ! dp) name) [0..<entries (icache s ! dp)] = None"
    and fits: "unat (i_size (icache s ! dp)) + 16 \<le> MAXFILE * BSIZE" and r: "room (7 + l) s" and f: "2 \<le> free_blocks s"
  defines "k0 \<equiv> free_entry_at s (icache s ! dp) 0"
  shows "\<exists>s'. dirlink me ds dp name inum s = Some (0, s') \<and> dir_ok s' dp \<and> room l s' \<and> same_layout s s' \<and>
    length (icache s') = length (icache s) \<and> (\<forall>j. j \<noteq> dp \<longrightarrow> icache s' ! j = icache s ! j) \<and>
    entries (icache s' ! dp) = max (entries (icache s ! dp)) (Suc k0) \<and> i_dev (icache s' ! dp) = 1 \<and>
    (\<forall>k < entries (icache s' ! dp). entry s' (icache s' ! dp) k =
       (if k = k0 then bytes16 (ucast inum) @ name_field name else entry s (icache s ! dp) k))"
proof -
  let ?ip = "icache s ! dp"
  note D = dir_okD [OF ok]
  note I = inode_okD [OF file_okD(1) [OF D(2)]]
  define bs where "bs = bytes16 (ucast inum) @ name_field name"
  have bs: "length bs = 16" by (simp add: bs_def name_field_spec DIRSIZ_def)
  have look: "dirlookup ds dp name s = Some (None, s)" using dirlookup_ok [OF ok, of ds name] nf by (simp add: lookup_result_def)
  have emp: "empty_dirent ds dp 0 s = Some (of_nat (16 * k0), s)"
    using empty_dirent_ok [OF ok, of 0 ds] by (simp add: k0_def del: of_nat_mult)
  have k0: "k0 \<le> entries ?ip" by (simp add: k0_def free_entry_le)
  have size: "16 * entries ?ip = unat (i_size ?ip)" using D(5) by (simp add: entries_def mult.commute mod_eq_0_iff_dvd)
  have u: "unat (of_nat (16 * k0) :: u32) = 16 * k0"
    by (rule unat_of_nat_u32) (use k0 size fits max_bytes in simp)
  have plus: "unat (of_nat (16 * k0) + 16 :: u32) = 16 * k0 + 16"
    using u k0 size fits max_bytes by (simp add: unat_u32_plus del: of_nat_mult)
  have le: "of_nat (16 * k0) \<le> i_size ?ip" using u k0 size by (simp add: word_le_nat_alt del: of_nat_mult)
  have w: "\<not> of_nat (16 * k0) + 16 < (of_nat (16 * k0) :: u32)" using u plus by (simp add: word_less_nat_alt del: of_nat_mult)
  have one: "16 * k0 + 16 \<le> (16 * k0 div BSIZE + 1) * BSIZE"
  proof -
    have "16 * k0 div BSIZE = k0 div 32"
      using div_mult2_eq [of "16 * k0" 16 32] unfolding MAXFILE_simps(4) by simp
    moreover have "k0 + 1 \<le> (k0 div 32 + 1) * 32" by (simp add: dividend_less_div_times Suc_leI)
    ultimately show ?thesis unfolding MAXFILE_simps(4) by simp
  qed
  have r7: "room (6 * 1 + Suc l) s" using r by simp
  have p: "unat (of_nat (16 * k0) :: u32) + unat (16 :: u32) \<le> MAXFILE * BSIZE" "unat (16 :: u32) \<le> length bs"
    "unat (of_nat (16 * k0) :: u32) + unat (16 :: u32) \<le> (unat (of_nat (16 * k0) :: u32) div BSIZE + 1) * BSIZE" "2 * 1 \<le> free_blocks s"
    unfolding u using k0 size fits bs one f by simp_all
  obtain s' a where s': "writei ds dp bs (of_nat (16 * k0)) 16 s = Some (16, s')" "layout_ok s'" "file_ok s' (icache s' ! dp)" "same_layout s s'"
    "contents s' (icache s' ! dp) = take (16 * k0) (contents s ?ip) @ bs @ drop (16 * k0 + 16) (contents s ?ip)"
    "icache s' = (icache s)[dp := ?ip\<lparr>i_size := max (i_size ?ip) (of_nat (16 * k0) + 16), i_addrs := a\<rparr>]" "room l s'"
    using writei_ok [OF D(1,2,3,6) le w p(1,2,3) r7 p(4), of ds] u bs by (auto simp del: of_nat_mult)
  have ip': "icache s' ! dp = ?ip\<lparr>i_size := max (i_size ?ip) (of_nat (16 * k0) + 16), i_addrs := a\<rparr>" using s'(6) D(3) by simp
  have z: "unat (i_size (icache s' ! dp)) = max (unat (i_size ?ip)) (16 * k0 + 16)"
    unfolding ip' using plus by (auto simp: max_def word_le_nat_alt simp del: of_nat_mult)
  have ents: "entries (icache s' ! dp) = max (entries ?ip) (Suc k0)"
    unfolding entries_def z using size by (auto simp: max_def entries_def)
  have "entry s' (icache s' ! dp) k = (if k = k0 then bs else entry s ?ip k)" if "k < entries (icache s' ! dp)" for k
  proof -
    have "16 * k + 16 \<le> max (length (contents s ?ip)) (16 * k0 + 16)"
      using that ents size by (auto simp: max_def)
    then show ?thesis
      unfolding entry_def s'(5) using segment_splice [of "16 * k0" 16 "16 * k" "contents s ?ip" bs] bs k0 size D(5) by simp
  qed
  moreover have "dir_ok s' dp"
  proof -
    have "held s' = []" using same_layout_eqs(5) [OF s'(4)] D(6) by simp
    moreover have "unat (i_size (icache s' ! dp)) mod 16 = 0" unfolding z using D(5) by (auto simp: max_def)
    ultimately show ?thesis
      using s'(2,3,6) D(3,4) ip' room_can_read0 [OF s'(7)] by (simp add: dir_ok_def)
  qed
  moreover have "dirlink me ds dp name inum s = Some (0, s')"
    using look emp s'(1) by (simp add: dirlink_def bs_def)
  ultimately show ?thesis using s'(4,6,7) ip' I(1) ents bs_def by auto
qed

lemma dirlookup_from_cname_le:
  assumes "dirlookup_from ds dp name off s = Some y"
  shows "cname name = cname name' \<longrightarrow> dirlookup_from ds dp name' off s = Some y"
proof (rule dirlookup_from.raw_induct [OF _ assms], intro impI)
  fix f ds dp name off s y
  assume IH: "\<And>ds dp name off (s :: 'a fs_scheme) y. f ds dp name off s = Some y \<Longrightarrow>
      cname name = cname name' \<longrightarrow> dirlookup_from ds dp name' off s = Some y"
    and step: "(if off < i_size (icache s ! dp) then do {
        (r, de, s) \<leftarrow> readi ds dp off 16 s;
        (if r \<noteq> 16 then None
         else if dirent_inum de = 0 then f ds dp name (off + 16) s
         else if namecmp name (dirent_name de) = 0 then do {
           (ip, s) \<leftarrow> iget (i_dev (icache s ! dp)) (ucast (dirent_inum de)) s;
           Some (Some (ip, off), s)
         }
         else f ds dp name (off + 16) s)
      } else Some (None, s)) = Some y" and c: "cname name = cname name'"
  have "namecmp name d = 0 \<longleftrightarrow> namecmp name' d = 0" for d using c by (simp add: namecmp_eq)
  then show "dirlookup_from ds dp name' off s = Some y"
    using step c by (subst dirlookup_from.simps) (auto simp: bind_eq_Some_conv split: if_splits dest: IH)
qed

lemma dirlookup_cname: "cname name = cname name' \<Longrightarrow> dirlookup ds dp name s = dirlookup ds dp name' s"
  unfolding dirlookup_def
  by (metis (no_types, lifting) dirlookup_from_cname_le not_None_eq)

text \<open>Resolution of a path, element by element.\<close>

fun walk :: "u32 \<Rightarrow> 'a fs_scheme devsw list \<Rightarrow> bool \<Rightarrow> nat \<Rightarrow> byte list list \<Rightarrow> 'a fs_scheme \<Rightarrow> (nat option \<times> 'a fs_scheme) option" where
  "walk me ds parent ip [] s = (if parent then do { s \<leftarrow> iput me ip s; Some (None, s) } else Some (Some ip, s))"
| "walk me ds parent ip (e # es) s = do {
     s \<leftarrow> ilock me ip s;
     (if i_type (icache s ! ip) \<noteq> T_DIR then do { s \<leftarrow> iunlockput me ip s; Some (None, s) }
      else if parent \<and> es = [] then do { s \<leftarrow> iunlock me ip s; Some (Some ip, s) }
      else do {
        (found, s) \<leftarrow> dirlookup ds ip e s;
        s \<leftarrow> iunlockput me ip s;
        (case found of None \<Rightarrow> Some (None, s) | Some (nxt, _) \<Rightarrow> walk me ds parent nxt es s)
      })
   }"

lemma cname_take: "0 \<notin> set e \<Longrightarrow> cname e = take DIRSIZ e"
  unfolding cname_def by (subst takeWhile_eq_all_conv [THEN iffD2]) auto

lemma elements_no_zero: "0 \<notin> set path \<Longrightarrow> e \<in> set (elements path) \<Longrightarrow> 0 \<notin> set e"
proof (induction path rule: elements.induct)
  case (1 path)
  define p where "p = dropWhile (\<lambda>c. c = slash) path"
  have sub: "set p \<subseteq> set path" using set_dropWhileD unfolding p_def by fastforce
  have z: "0 \<notin> set (takeWhile (\<lambda>c. c \<noteq> slash) p)" "0 \<notin> set (dropWhile (\<lambda>c. c \<noteq> slash) p)"
    using sub 1(2) by (auto dest: set_takeWhileD set_dropWhileD)
  show ?case
  proof (cases "p = []")
    case True
    then show ?thesis using 1(3) by (simp add: elements.simps [of path] p_def [symmetric] Let_def)
  next
    case False
    have "e = takeWhile (\<lambda>c. c \<noteq> slash) p \<or> e \<in> set (elements (dropWhile (\<lambda>c. c \<noteq> slash) p))"
      using 1(3) False by (simp add: elements.simps [of path] p_def [symmetric] Let_def)
    then show ?thesis using 1(1) [OF p_def False z(2)] z(1) by blast
  qed
qed

lemma namex_loop_walk:
  assumes "length name = DIRSIZ" "0 \<notin> set path"
  shows "map_option (\<lambda>(r, name, s). (r, s)) (namex_loop me ds parent ip path name s) = walk me ds parent ip (elements path) s"
  using assms
proof (induction "length path" arbitrary: path name ip s rule: less_induct)
  case less
  note S = skipelem_elements [OF less.prems]
  show ?case
  proof (cases "skipelem path name")
    case None
    then have "elements path = []" using S by simp
    then show ?thesis by (subst namex_loop.simps) (simp add: None map_option_bind o_def)
  next
    case (Some pn)
    obtain path' name' where pn: "pn = (path', name')" by (cases pn)
    obtain e where e: "elements path = e # elements path'" "cname name' = take DIRSIZ e" "length name' = DIRSIZ" "0 \<notin> set path'"
      "path' = [] \<longleftrightarrow> elements path' = []" using S Some pn by auto
    have "0 \<notin> set e" by (rule elements_no_zero [OF less.prems(2)]) (simp add: e(1))
    then have look: "dirlookup ds ip name' s = dirlookup ds ip e s" for s
      by (intro dirlookup_cname) (simp add: e(2) cname_take)
    have IH: "map_option (\<lambda>(r, name, s). (r, s)) (namex_loop me ds q i path' name' s) = walk me ds q i (elements path') s"
      if "q = parent" for i s q
      unfolding that by (rule less.hyps) (use skipelem_shorter Some pn e in auto)
    show ?thesis unfolding e(1)
      by (subst namex_loop.simps) (auto simp: Some pn e(5) look map_option_bind o_def IH split: option.split intro!: bind_option_cong if_cong)
  qed
qed

lemma namex_loop_name:
  assumes "length name = DIRSIZ" "0 \<notin> set path" "namex_loop me ds True ip path name s = Some (Some r, name', s')"
  shows "elements path \<noteq> [] \<and> cname name' = take DIRSIZ (last (elements path))"
  using assms
proof (induction "length path" arbitrary: path name ip s rule: less_induct)
  case less
  note S = skipelem_elements [OF less.prems(1,2)]
  obtain path1 name1 where pn: "skipelem path name = Some (path1, name1)"
    using less.prems(3) by (cases "skipelem path name") (auto simp: namex_loop.simps [of _ _ _ _ path] bind_eq_Some_conv)
  obtain e where e: "elements path = e # elements path1" "cname name1 = take DIRSIZ e" "length name1 = DIRSIZ" "0 \<notin> set path1"
    "path1 = [] \<longleftrightarrow> elements path1 = []" using S pn by auto
  have "path1 = [] \<and> name' = name1 \<or> (\<exists>i s. namex_loop me ds True i path1 name1 s = Some (Some r, name', s'))"
    using less.prems(3) pn by (auto simp: namex_loop.simps [of _ _ _ _ path] bind_eq_Some_conv split: if_splits option.splits)
  then show ?case
    using less.hyps [OF skipelem_shorter [OF pn] e(3,4)] e by auto
qed

definition find_entry :: "'a fs_scheme \<Rightarrow> nat \<Rightarrow> byte list \<Rightarrow> nat option" where
  "find_entry s dp name = find (is_entry s (icache s ! dp) name) [0..<entries (icache s ! dp)]"

lemma free_entry_spec:
  "free_entry_at s ip 0 < entries ip \<Longrightarrow> dirent_inum (entry s ip (free_entry_at s ip 0)) = 0"
  by (cases "find (\<lambda>j. dirent_inum (entry s ip j) = 0) [0..<entries ip]")
    (auto simp only: free_entry_at_def option.case less_irrefl dest: find_upt_SomeD)

lemma new_entry:
  fixes x :: u16
  shows "dirent_inum (bytes16 x @ name_field name) = x" "dirent_name (bytes16 x @ name_field name) = name_field name"
  by (simp_all add: dirent_inum_def dirent_name_def get16_def segment_def word16_bytes16)

lemma find_skip: "\<not> P x \<Longrightarrow> find P (xs @ [x]) = find P xs"
  by (induction xs) auto

lemma find_found: "\<forall>y \<in> set xs. \<not> P y \<Longrightarrow> P x \<Longrightarrow> find P (xs @ x # ys) = Some x"
  by (induction xs) auto

lemma find_entry_dirlink:
  assumes e: "\<And>k. k < max E (Suc k0) \<Longrightarrow> entry s' ip' k = (if k = k0 then bytes16 x @ name_field name else entry s ip k)"
    and k0: "k0 \<le> E" and free: "k0 < E \<Longrightarrow> dirent_inum (entry s ip k0) = 0" and x: "x \<noteq> 0"
    and nf: "find (is_entry s ip name) [0..<E] = None"
  shows "cname nm = cname name \<Longrightarrow> find (is_entry s' ip' nm) [0..<max E (Suc k0)] = Some k0"
    "cname nm \<noteq> cname name \<Longrightarrow> find (is_entry s' ip' nm) [0..<max E (Suc k0)] = find (is_entry s ip nm) [0..<E]"
proof -
  have at: "is_entry s' ip' nm k0 \<longleftrightarrow> cname nm = cname name" for nm
    using e [of k0] x by (simp add: is_entry_def new_entry name_field_spec)
  have other: "is_entry s' ip' nm k \<longleftrightarrow> is_entry s ip nm k" if "k < E" "k \<noteq> k0" for nm k
    using e [of k] that by (simp add: is_entry_def)
  {
    assume c: "cname nm = cname name"
    have "\<not> is_entry s' ip' nm k" if "k < k0" for k
      using nf other [of k nm] that k0 c by (auto simp: find_None_iff is_entry_def)
    moreover have "[0..<max E (Suc k0)] = [0..<k0] @ k0 # [Suc k0..<max E (Suc k0)]"
      by (metis le_SucI less_Suc_eq_le max.cobounded2 nat_less_le not_less_eq_eq upt_add_eq_append upt_conv_Cons zero_le le_add_diff_inverse)
    ultimately show "find (is_entry s' ip' nm) [0..<max E (Suc k0)] = Some k0"
      using at c by (simp add: find_found)
  next
    assume c: "cname nm \<noteq> cname name"
    have same: "find (is_entry s' ip' nm) [0..<E] = find (is_entry s ip nm) [0..<E]"
    proof (rule find_cong [OF refl])
      fix k assume k: "k \<in> set [0..<E]"
      show "is_entry s' ip' nm k = is_entry s ip nm k"
      proof (cases "k = k0")
        case True
        then show ?thesis using at [of nm] c free k by (simp add: is_entry_def)
      qed (use other k in simp)
    qed
    show "find (is_entry s' ip' nm) [0..<max E (Suc k0)] = find (is_entry s ip nm) [0..<E]"
    proof (cases "k0 < E")
      case False
      then have "k0 = E" using k0 by simp
      then show ?thesis using same at [of nm] c by (simp add: find_skip)
    next
      case True
      then have "max E (Suc k0) = E" by simp
      then show ?thesis using same by (simp only:)
    qed
  }
qed

section \<open>Properties\<close>

text \<open>C14: \<open>iget\<close> keeps the inode cache a table without duplicates: it returns the index of the one entry
  that holds the inode, an entry that is in use already stays where it is with one reference more, no
  other entry changes, and the panic comes only when the inode is not cached and no entry is free.\<close>

theorem iget_unique:
  assumes "icache_ok s"
  shows "case iget dev inum s of
      Some (i, s') \<Rightarrow> icache_ok s' \<and> at_inode dev inum (icache s' ! i) \<and> (\<forall>j. j \<noteq> i \<longrightarrow> icache s' ! j = icache s ! j) \<and>
        (\<forall>j < length (icache s). at_inode dev inum (icache s ! j) \<longrightarrow> j = i \<and> i_ref (icache s' ! i) = i_ref (icache s ! i) + 1)
    | None \<Rightarrow> (\<forall>ip \<in> set (icache s). \<not> at_inode dev inum ip \<and> i_ref ip \<noteq> 0)"
proof (cases "iget dev inum s")
  case None
  then show ?thesis
    by (auto simp: iget_cases find_first_None in_set_conv_nth split: option.splits)
next
  case (Some r)
  then show ?thesis using iget_ok [OF assms] by (cases r) simp
qed

theorem iget_unique_witness:
  "\<exists>s1 s2 s3. iget 1 2 demo_fs = Some (1, s1) \<and> icache_ok s1 \<and> i_ref (icache s1 ! 1) = 2 \<and> iget 1 5 s1 = None"
proof -
  have ok: "icache_ok demo_fs" by (auto simp: icache_ok_def demo_fs_def less_Suc_eq numeral_2_eq_2)
  have g: "iget 1 2 demo_fs = Some (1, set_inode 1 (\<lambda>ip. ip\<lparr>i_ref := i_ref ip + 1\<rparr>) demo_fs)"
    by (simp add: iget_def demo_fs_def)
  moreover have "iget 1 5 (set_inode 1 (\<lambda>ip. ip\<lparr>i_ref := i_ref ip + 1\<rparr>) demo_fs) = None"
    by (simp add: iget_def demo_fs_def set_inode_def)
  ultimately show ?thesis
    using iget_unique [OF ok, of 1 2] by (simp add: demo_fs_def)
qed

text \<open>C9: \<open>namex\<close> resolves a path by walking its elements, the maximal pieces between slashes, from the root
  or from the current directory: repeated and trailing slashes do not matter and a long element counts
  as its first \<open>DIRSIZ\<close> bytes. \<open>nameiparent\<close> stops at the directory of the last element and leaves that
  element in the name buffer.\<close>

theorem namex_walks_elements:
  assumes "length name = DIRSIZ" and "0 \<notin> set path"
  shows "map_option (\<lambda>(r, name, s). (r, s)) (namex me cwd ds path parent name s) = do {
      (ip, s) \<leftarrow> (if path \<noteq> [] \<and> hd path = slash then iget ROOTDEV ROOTINO s else Some (idup cwd s));
      walk me ds parent ip (elements path) s
    } \<and>
    (\<forall>ip name' s'. nameiparent me cwd ds path name s = Some (Some ip, name', s') \<longrightarrow>
      elements path \<noteq> [] \<and> cname name' = take DIRSIZ (last (elements path)))"
proof (intro conjI allI impI)
  show "map_option (\<lambda>(r, name, s). (r, s)) (namex me cwd ds path parent name s) = do {
      (ip, s) \<leftarrow> (if path \<noteq> [] \<and> hd path = slash then iget ROOTDEV ROOTINO s else Some (idup cwd s));
      walk me ds parent ip (elements path) s
    }"
    unfolding namex_def map_option_bind by (intro bind_option_cong) (auto simp: namex_loop_walk [OF assms])
  fix ip name' s' assume "nameiparent me cwd ds path name s = Some (Some ip, name', s')"
  then show "elements path \<noteq> []" "cname name' = take DIRSIZ (last (elements path))"
    using namex_loop_name [OF assms] unfolding nameiparent_def namex_def by (fastforce simp: bind_eq_Some_conv)+
qed

theorem namex_walks_elements_witness:
  "map_option (\<lambda>(r, name, s). (r, s)) (namex 7 0 [] [47, 117, 47, 47, 98, 105, 47] False (replicate DIRSIZ 0) demo_fs) = do {
      (ip, s) \<leftarrow> iget ROOTDEV ROOTINO demo_fs;
      walk 7 [] False ip [[117], [98, 105]] s
    }"
  using namex_walks_elements [of "replicate DIRSIZ 0" "[47, 117, 47, 47, 98, 105, 47]" 7 0 "[]" False demo_fs]
  by (simp add: elements.simps slash_def)

text \<open>C10: on a well-formed directory without the name, \<open>dirlink\<close> puts the entry into the first free place, or
  at the end; then \<open>dirlookup\<close> finds the inode under this name, compared on \<open>DIRSIZ\<close> bytes, at this place,
  and finds for every other name the entry it found before.\<close>

theorem dirlink_then_dirlookup:
  assumes "dir_ok s dp" and "find_entry s dp name = None" and "(ucast inum :: u16) \<noteq> 0"
    and "unat (i_size (icache s ! dp)) + 16 \<le> MAXFILE * BSIZE" and "room 7 s" and "2 \<le> free_blocks s"
  shows "\<exists>s' k0. dirlink me ds dp name inum s = Some (0, s') \<and> dir_ok s' dp \<and>
    k0 = free_entry_at s (icache s ! dp) 0 \<and>
    (\<forall>nm. cname nm = cname name \<longrightarrow> dirlookup ds dp nm s' = do {
       (ip, t) \<leftarrow> iget 1 (ucast (ucast inum :: u16)) s'; Some (Some (ip, of_nat (16 * k0)), t) }) \<and>
    (\<forall>nm. cname nm \<noteq> cname name \<longrightarrow> find_entry s' dp nm = find_entry s dp nm \<and>
       (\<forall>k. find_entry s dp nm = Some k \<longrightarrow> entry s' (icache s' ! dp) k = entry s (icache s ! dp) k))"
proof -
  define k0 where "k0 = free_entry_at s (icache s ! dp) 0"
  let ?ip = "icache s ! dp"
  have r: "room (7 + 0) s" using assms(5) by simp
  obtain s' where s': "dirlink me ds dp name inum s = Some (0, s')" "dir_ok s' dp"
    "entries (icache s' ! dp) = max (entries ?ip) (Suc k0)" "i_dev (icache s' ! dp) = 1"
    "\<forall>k < entries (icache s' ! dp). entry s' (icache s' ! dp) k =
       (if k = k0 then bytes16 (ucast inum) @ name_field name else entry s ?ip k)"
    using dirlink_ok [OF assms(1) assms(2) [unfolded find_entry_def] assms(4) r assms(6)] unfolding k0_def by blast
  have k0: "k0 \<le> entries ?ip" "k0 < entries ?ip \<Longrightarrow> dirent_inum (entry s ?ip k0) = 0"
    using free_entry_le free_entry_spec by (auto simp: k0_def)
  have e: "entry s' (icache s' ! dp) k = (if k = k0 then bytes16 (ucast inum) @ name_field name else entry s ?ip k)"
    if "k < max (entries ?ip) (Suc k0)" for k using s'(3,5) that by simp
  note F = find_entry_dirlink [OF e k0 assms(3) assms(2) [unfolded find_entry_def], simplified]
  have new: "dirent_inum (entry s' (icache s' ! dp) k0) = ucast inum"
    using s'(3,5) by (simp add: new_entry)
  have "dirlookup ds dp nm s' = do { (ip, t) \<leftarrow> iget 1 (ucast (ucast inum :: u16)) s'; Some (Some (ip, of_nat (16 * k0)), t) }"
    if "cname nm = cname name" for nm
    using dirlookup_ok [OF s'(2), of ds nm] F(1) [OF that] new s'(3,4) by (simp add: lookup_result_def)
  moreover have "find_entry s' dp nm = find_entry s dp nm" if "cname nm \<noteq> cname name" for nm
    using F(2) [OF that] s'(3) by (simp add: find_entry_def)
  moreover have "entry s' (icache s' ! dp) k = entry s ?ip k" if "find_entry s dp nm = Some k" for nm k
  proof -
    have "k < entries ?ip" "is_entry s ?ip nm k" using find_upt_SomeD that unfolding find_entry_def by blast+
    then show ?thesis using s'(3,5) k0(2) by (auto simp: is_entry_def)
  qed
  ultimately show ?thesis using s'(1,2) k0_def by blast
qed

theorem dirlink_then_dirlookup_witness:
  "\<exists>s'. dirlink 7 [] 0 [104, 105] 2 demo_fs = Some (0, s') \<and>
    dirlookup [] 0 [104, 105, 0, 99] s' = do { (ip, t) \<leftarrow> iget 1 2 s'; Some (Some (ip, 0), t) } \<and> find_entry s' 0 [104] = None"
proof -
  have "can_read demo_fs" by (rule room_can_read [OF demo_layout(2)]) simp
  then have d: "dir_ok demo_fs 0"
    using demo_layout(1) demo_file_ok(1,4) [of 0] by (simp add: dir_ok_def) (simp add: demo_fs_def)
  have e: "entries (icache demo_fs ! 0) = 0" using demo_file_ok(4) [of 0] by (simp add: entries_def)
  then have f: "find_entry demo_fs 0 nm = None" for nm by (simp add: find_entry_def)
  have r: "room 7 demo_fs" using demo_layout(2) by (rule room_less) simp
  have p: "(ucast (2 :: u32) :: u16) \<noteq> 0" "unat (i_size (icache demo_fs ! 0)) + 16 \<le> MAXFILE * BSIZE" "2 \<le> free_blocks demo_fs"
    using demo_file_ok(4) [of 0] demo_file_ok(5) by (simp_all add: max_bytes)
  have k: "free_entry_at demo_fs (icache demo_fs ! 0) 0 = 0" by (simp add: free_entry_at_def e)
  show ?thesis
    using dirlink_then_dirlookup [OF d f [of "[104, 105]"] p(1,2) r p(3), where me = 7 and ds = "[]"] k f by (auto simp: cname_def DIRSIZ_def)
qed

end
