(* ===== verification/File.thy ===== *)
theory File
  imports FsDirs Pipe
begin

text \<open>
  Open files (\<open>file.c\<close>) and the allocation of pipes (\<open>pipealloc\<close> of \<open>pipe.c\<close>), on the file system of
  \<open>Fs\<close> and the pipes of \<open>Pipe\<close>. A file is its index in \<open>ftable\<close>; a pipe is the address of its page, and
  the pages come from the stack of free pages that \<open>Kalloc\<close> implements. \<open>None\<close> is a panic, or that the
  caller sleeps: the interleavings of sleeping readers and writers are in \<open>Pipe\<close>.
\<close>

section \<open>State\<close>

definition NFILE :: nat where "NFILE = 100"

datatype filetype = FD_NONE | FD_PIPE | FD_INODE

record kfile =
  f_type :: filetype
  f_ref :: int
  f_readable :: bool
  f_writable :: bool
  f_pipe :: u32
  f_ip :: nat
  f_off :: u32

record kern = fs +
  ftable :: "kfile list"
  pipes :: "u32 \<Rightarrow> pipe"
  pages :: "u32 list"
  wakeups :: "(u32 \<times> pipe_chan) list"

definition set_file :: "nat \<Rightarrow> (kfile \<Rightarrow> kfile) \<Rightarrow> 'a kern_scheme \<Rightarrow> 'a kern_scheme" where
  "set_file i f s = s\<lparr>ftable := (ftable s)[i := f (ftable s ! i)]\<rparr>"

text \<open>The new state of a pipe, and the wake-ups on its channels.\<close>

definition set_pipe :: "u32 \<Rightarrow> pipe_chan list \<Rightarrow> pipe \<Rightarrow> 'a kern_scheme \<Rightarrow> 'a kern_scheme" where
  "set_pipe p w q s = s\<lparr>pipes := (pipes s)(p := q), wakeups := wakeups s @ map (\<lambda>c. (p, c)) w\<rparr>"

section \<open>Allocating and closing\<close>

definition filealloc :: "'a kern_scheme \<Rightarrow> nat option \<times> 'a kern_scheme" where
  "filealloc s = (case find_first (\<lambda>f. f_ref f = 0) (ftable s) of
     None \<Rightarrow> (None, s)
   | Some i \<Rightarrow> (Some i, set_file i (\<lambda>f. f\<lparr>f_ref := 1\<rparr>) s))"

definition filedup :: "nat \<Rightarrow> 'a kern_scheme \<Rightarrow> 'a kern_scheme option" where
  "filedup i s = (if f_ref (ftable s ! i) < 1 then None else Some (set_file i (\<lambda>f. f\<lparr>f_ref := f_ref f + 1\<rparr>) s))"

definition fileclose :: "u32 \<Rightarrow> nat \<Rightarrow> 'a kern_scheme \<Rightarrow> 'a kern_scheme option" where
  "fileclose me i s =
     (if f_ref (ftable s ! i) < 1 then None
      else
        let s = set_file i (\<lambda>f. f\<lparr>f_ref := f_ref f - 1\<rparr>) s in
        if 0 < f_ref (ftable s ! i) then Some s
        else
          let ff = ftable s ! i;
              s = set_file i (\<lambda>f. f\<lparr>f_ref := 0, f_type := FD_NONE\<rparr>) s
          in (case f_type ff of
                FD_PIPE \<Rightarrow>
                  (let (w, last, q) = pipeclose (f_writable ff) (pipes s (f_pipe ff));
                       s = set_pipe (f_pipe ff) w q s
                   in Some (if last then s\<lparr>pages := f_pipe ff # pages s\<rparr> else s))
              | FD_INODE \<Rightarrow> do {
                  s \<leftarrow> begin_tx s;
                  s \<leftarrow> iput me (f_ip ff) s;
                  Some (end_tx s)
                }
              | FD_NONE \<Rightarrow> Some s))"

definition filestat :: "u32 \<Rightarrow> nat \<Rightarrow> 'a kern_scheme \<Rightarrow> (int \<times> stat option \<times> 'a kern_scheme) option" where
  "filestat me i s =
     (let f = ftable s ! i in
      if f_type f = FD_INODE then do {
        s \<leftarrow> ilock me (f_ip f) s;
        let st = stati (icache s ! f_ip f);
        s \<leftarrow> iunlock me (f_ip f) s;
        Some (0, Some st, s)
      } else Some (-1, None, s))"

text \<open>The close in the error paths of \<open>pipealloc\<close> and of the system calls: \<open>if(f) fileclose(f)\<close>.\<close>

definition close_if :: "u32 \<Rightarrow> nat option \<Rightarrow> 'a kern_scheme \<Rightarrow> 'a kern_scheme option" where
  "close_if me f s = (case f of None \<Rightarrow> Some s | Some i \<Rightarrow> fileclose me i s)"

text \<open>\<open>pipealloc\<close>: the read end and the write end. On its error paths \<open>p\<close> is still null.\<close>

definition pipealloc :: "u32 \<Rightarrow> 'a kern_scheme \<Rightarrow> ((nat \<times> nat) option \<times> 'a kern_scheme) option" where
  "pipealloc me s =
     (let (f0, s) = filealloc s;
          (f1, s) = (if f0 = None then (None, s) else filealloc s)
      in (case (f0, f1, pages s) of
            (Some a, Some b, p # ps) \<Rightarrow>
              (let s = s\<lparr>pages := ps\<rparr>;
                   s = set_pipe p [] (pipeinit (pipes s p)) s;
                   s = set_file a (\<lambda>f. f\<lparr>f_type := FD_PIPE, f_readable := True, f_writable := False, f_pipe := p\<rparr>) s;
                   s = set_file b (\<lambda>f. f\<lparr>f_type := FD_PIPE, f_readable := False, f_writable := True, f_pipe := p\<rparr>) s
               in Some (Some (a, b), s))
          | _ \<Rightarrow> do {
              s \<leftarrow> close_if me f0 s;
              s \<leftarrow> close_if me f1 s;
              Some (None, s)
            }))"

section \<open>Reading and writing\<close>

definition fileread :: "u32 \<Rightarrow> 'a kern_scheme devsw list \<Rightarrow> bool \<Rightarrow> nat \<Rightarrow> int \<Rightarrow> 'a kern_scheme \<Rightarrow>
    (int \<times> byte list \<times> 'a kern_scheme) option" where
  "fileread me ds killed i n s =
     (let f = ftable s ! i in
      if \<not> f_readable f then Some (-1, [], s)
      else (case f_type f of
          FD_PIPE \<Rightarrow>
            (case piperead killed n (pipes s (f_pipe f)) of
               (Read r bs, w, q) \<Rightarrow> Some (r, bs, set_pipe (f_pipe f) w q s)
             | (Read_sleeps, w, q) \<Rightarrow> None)
        | FD_INODE \<Rightarrow> do {
            s \<leftarrow> ilock me (f_ip f) s;
            (r, bs, s) \<leftarrow> readi ds (f_ip f) (f_off f) (of_int n) s;
            let s = (if 0 < r then set_file i (\<lambda>f. f\<lparr>f_off := f_off f + of_int r\<rparr>) s else s);
            s \<leftarrow> iunlock me (f_ip f) s;
            Some (r, bs, s)
          }
        | FD_NONE \<Rightarrow> None))"

text \<open>The largest part that \<open>filewrite\<close> writes in one transaction.\<close>

definition max_write :: int where
  "max_write = (int MAXOPBLOCKS - 1 - 1 - 2) div 2 * 512"

lemma max_write_simp: "max_write = 1536"
  by (simp add: max_write_def MAXOPBLOCKS_def)

text \<open>The transactions of \<open>filewrite\<close> from byte \<open>k\<close> of the buffer on; the result is the final \<open>i\<close>.\<close>

function filewrite_loop :: "u32 \<Rightarrow> 'a kern_scheme devsw list \<Rightarrow> nat \<Rightarrow> byte list \<Rightarrow> int \<Rightarrow> int \<Rightarrow> 'a kern_scheme \<Rightarrow>
    (int \<times> 'a kern_scheme) option" where
  "filewrite_loop me ds i src n k s =
     (if k < n then do {
        let ip = f_ip (ftable s ! i);
        let n1 = (if max_write < n - k then max_write else n - k);
        s \<leftarrow> begin_tx s;
        s \<leftarrow> ilock me ip s;
        (r, s) \<leftarrow> writei ds ip (drop (nat k) src) (f_off (ftable s ! i)) (of_int n1) s;
        let s = (if 0 < r then set_file i (\<lambda>f. f\<lparr>f_off := f_off f + of_int r\<rparr>) s else s);
        s \<leftarrow> iunlock me ip s;
        let s = end_tx s;
        (if r < 0 then Some (k, s)
         else if r \<noteq> n1 then None
         else filewrite_loop me ds i src n (k + r) s)
      } else Some (k, s))"
  by auto
termination by (relation "measure (\<lambda>(_, _, _, _, n, k, _). nat (n - k))") (auto simp: max_write_simp)

declare filewrite_loop.simps [simp del]

definition filewrite :: "u32 \<Rightarrow> 'a kern_scheme devsw list \<Rightarrow> bool \<Rightarrow> nat \<Rightarrow> byte list \<Rightarrow> int \<Rightarrow> 'a kern_scheme \<Rightarrow>
    (int \<times> 'a kern_scheme) option" where
  "filewrite me ds killed i src n s =
     (let f = ftable s ! i in
      if \<not> f_writable f then Some (-1, s)
      else (case f_type f of
          FD_PIPE \<Rightarrow>
            (case pipewrite killed n (take (nat n) src) (pipes s (f_pipe f)) of
               (Wrote r, w, q) \<Rightarrow> Some (r, set_pipe (f_pipe f) w q s)
             | (Write_sleeps bs, w, q) \<Rightarrow> None)
        | FD_INODE \<Rightarrow> do {
            (k, s) \<leftarrow> filewrite_loop me ds i src n 0 s;
            Some (if k = n then n else -1, s)
          }
        | FD_NONE \<Rightarrow> None))"

end
