(* ===== verification/Syscall.thy ===== *)
theory Syscall
  imports Proc CMem
begin

text \<open>
  The system call interface (\<open>syscall.c\<close>) and the system calls of \<open>sysproc.c\<close>. The kernel reads the
  arguments of a call from the address space of the calling process, the byte memory \<open>m\<close> below the
  size \<open>sz\<close> of the process. A failing fetch is \<open>None\<close>, for the value -1 of the code, which then sets
  no result.
\<close>

section \<open>Fetching arguments\<close>

definition fetchint :: "mem \<Rightarrow> proc \<Rightarrow> u32 \<Rightarrow> u32 option" where
  "fetchint m p addr = (if sz p \<le> addr \<or> sz p < addr + 4 then None else Some (load32 m addr))"

lemma unat_next_below: "s < ep \<Longrightarrow> unat (s + 1) = unat (s :: u32) + 1"
proof (rule unat_u32_Suc, rule notI)
  assume "s < ep" "s = -1"
  then show False using word_order.extremum [of ep] by simp
qed

text \<open>The loop of \<open>fetchstr\<close>: the address of the terminating zero.\<close>

function scan_nul :: "mem \<Rightarrow> u32 \<Rightarrow> u32 \<Rightarrow> u32 option" where
  "scan_nul m s ep = (if s < ep then if m s = 0 then Some s else scan_nul m (s + 1) ep else None)"
  by auto
termination
proof (relation "measure (\<lambda>(m, s, ep). unat ep - unat s)")
  fix m s ep assume "(s :: u32) < ep"
  then have "unat s < unat ep" "unat (s + 1) = unat s + 1" using unat_next_below by (simp_all add: word_less_nat_alt)
  then show "((m, s + 1, ep), m, s, ep) \<in> measure (\<lambda>(m, s, ep). unat ep - unat s)" by simp
qed simp

declare scan_nul.simps [simp del]

text \<open>The result is the length of the string and its address.\<close>

definition fetchstr :: "mem \<Rightarrow> proc \<Rightarrow> u32 \<Rightarrow> (int \<times> u32) option" where
  "fetchstr m p addr =
     (if sz p \<le> addr then None
      else (case scan_nul m addr (sz p) of
          None \<Rightarrow> None
        | Some s \<Rightarrow> Some (sint (s - addr), addr)))"

definition argint :: "mem \<Rightarrow> proc \<Rightarrow> nat \<Rightarrow> u32 option" where
  "argint m p n = fetchint m p (tf_esp (tf p) + 4 + 4 * of_nat n)"

definition argptr :: "mem \<Rightarrow> proc \<Rightarrow> nat \<Rightarrow> int \<Rightarrow> u32 option" where
  "argptr m p n size' = do {
     i \<leftarrow> argint m p n;
     (if size' < 0 \<or> sz p \<le> i \<or> sz p < i + of_int size' then None else Some i)
   }"

definition argstr :: "mem \<Rightarrow> proc \<Rightarrow> nat \<Rightarrow> (int \<times> u32) option" where
  "argstr m p n = do { addr \<leftarrow> argint m p n; fetchstr m p addr }"

text \<open>The string at an address: its bytes up to the zero that \<open>fetchstr\<close> found.\<close>

definition str_bytes :: "mem \<Rightarrow> u32 \<Rightarrow> int \<Rightarrow> byte list" where
  "str_bytes m a n = map (\<lambda>k. m (a + of_nat k)) [0..<nat n]"

section \<open>Dispatch\<close>

datatype handler = SYS_fork | SYS_exit | SYS_wait | SYS_pipe | SYS_read | SYS_kill | SYS_exec | SYS_fstat | SYS_chdir
  | SYS_dup | SYS_getpid | SYS_sbrk | SYS_sleep | SYS_uptime | SYS_open | SYS_write | SYS_mknod | SYS_unlink | SYS_link
  | SYS_mkdir | SYS_close

definition syscalls :: "handler option list" where
  "syscalls = [None, Some SYS_fork, Some SYS_exit, Some SYS_wait, Some SYS_pipe, Some SYS_read, Some SYS_kill, Some SYS_exec,
     Some SYS_fstat, Some SYS_chdir, Some SYS_dup, Some SYS_getpid, Some SYS_sbrk, Some SYS_sleep, Some SYS_uptime,
     Some SYS_open, Some SYS_write, Some SYS_mknod, Some SYS_unlink, Some SYS_link, Some SYS_mkdir, Some SYS_close]"

definition unknown_call :: "byte list" where
  "unknown_call = bytes ''%d %s: unknown sys call %d'' @ [10]"

text \<open>\<open>syscall\<close> for the process \<open>i\<close>, with the handlers as an argument; the result is what is printed.
  The store to \<open>curproc->tf->eax\<close> is made in the state the handler leaves.\<close>

definition set_eax :: "nat \<Rightarrow> u32 \<Rightarrow> 'e kstate \<Rightarrow> 'e kstate" where
  "set_eax i v s = upd i (\<lambda>p. p\<lparr>tf := (tf p)\<lparr>tf_eax := v\<rparr>\<rparr>) s"

definition syscall :: "(handler \<Rightarrow> 'e kstate \<Rightarrow> (int \<times> 'e kstate) option) \<Rightarrow> 'e kstate \<Rightarrow> (byte list \<times> 'e kstate) option" where
  "syscall h s = do {
     (p, s) \<leftarrow> myproc s;
     i \<leftarrow> p;
     let num = sint (tf_eax (tf (ptable s ! i)));
     (case if 0 < num \<and> num < int (length syscalls) then syscalls ! nat num else None of
        Some c \<Rightarrow> do {
          (r, s) \<leftarrow> h c s;
          Some ([], set_eax i (of_int r) s)
        }
      | None \<Rightarrow> do {
          out \<leftarrow> cprintf_loop unknown_call [Num (pid (ptable s ! i)), Str (Some (name (ptable s ! i))), Num (of_int num)];
          Some (out, set_eax i (-1) s)
        })
   }"

section \<open>sysproc.c\<close>

definition sys_fork :: "'e services \<Rightarrow> nat \<Rightarrow> 'e kstate \<Rightarrow> (int \<times> 'e kstate) option" where
  "sys_fork sv me s = do { (r, s) \<leftarrow> fork sv me s; Some (sint r, s) }"

definition sys_exit :: "'e services \<Rightarrow> nat \<Rightarrow> 'e kstate \<Rightarrow> (bool \<times> 'e kstate) option" where
  "sys_exit sv me s = exit sv me s"

definition sys_wait :: "'e services \<Rightarrow> nat \<Rightarrow> 'e kstate \<Rightarrow> (wait_result \<times> 'e kstate) option" where
  "sys_wait sv me s = wait_start sv me s"

definition sys_kill :: "mem \<Rightarrow> nat \<Rightarrow> 'e kstate \<Rightarrow> (int \<times> 'e kstate) option" where
  "sys_kill m me s = do {
     (p, s) \<leftarrow> myproc s;
     i \<leftarrow> p;
     (case argint m (ptable s ! i) 0 of None \<Rightarrow> Some (-1, s) | Some q \<Rightarrow> kill me q s)
   }"

definition sys_getpid :: "'e kstate \<Rightarrow> (int \<times> 'e kstate) option" where
  "sys_getpid s = do {
     (p, s) \<leftarrow> myproc s;
     i \<leftarrow> p;
     Some (sint (pid (ptable s ! i)), s)
   }"

definition sys_sbrk :: "'e services \<Rightarrow> mem \<Rightarrow> 'e kstate \<Rightarrow> (int \<times> 'e kstate) option" where
  "sys_sbrk sv m s = do {
     (p, s) \<leftarrow> myproc s;
     i \<leftarrow> p;
     (case argint m (ptable s ! i) 0 of
        None \<Rightarrow> Some (-1, s)
      | Some n \<Rightarrow> do {
          let addr = sint (sz (ptable s ! i));
          (r, s) \<leftarrow> growproc sv (sint n) s;
          Some (if r < 0 then -1 else addr, s)
        })
   }"

text \<open>\<open>sys_sleep\<close> is split where the process sleeps; \<open>ticks_addr\<close> is the address \<open>&ticks\<close>. The comparison
  \<open>ticks - ticks0 < n\<close> is unsigned.\<close>

datatype sleep_result = Slept int | Asleep_on_ticks bool

definition sleep_pass :: "nat \<Rightarrow> u32 \<Rightarrow> nat \<Rightarrow> u32 \<Rightarrow> u32 \<Rightarrow> u32 \<Rightarrow> spinlock \<Rightarrow> 'e kstate \<Rightarrow> (sleep_result \<times> spinlock \<times> 'e kstate) option" where
  "sleep_pass me ticks_addr i n ticks0 ticks lk s =
     (if ticks - ticks0 < n then
        if killed (ptable s ! i) then do {
          (lk, c) \<leftarrow> release me lk (pcpu s);
          Some (Slept (-1), lk, s\<lparr>pcpu := c\<rparr>)
        }
        else do {
          (l, ia, s) \<leftarrow> sleep_out me (Object ticks_addr) (Some lk) s;
          lk \<leftarrow> l;
          Some (Asleep_on_ticks ia, lk, s)
        }
      else do {
        (lk, c) \<leftarrow> release me lk (pcpu s);
        Some (Slept 0, lk, s\<lparr>pcpu := c\<rparr>)
      })"

definition sys_sleep_start :: "mem \<Rightarrow> nat \<Rightarrow> u32 \<Rightarrow> u32 \<Rightarrow> spinlock \<Rightarrow> 'e kstate \<Rightarrow> (sleep_result \<times> spinlock \<times> 'e kstate) option" where
  "sys_sleep_start m me ticks_addr ticks lk s = do {
     (p, s) \<leftarrow> myproc s;
     i \<leftarrow> p;
     (case argint m (ptable s ! i) 0 of
        None \<Rightarrow> Some (Slept (-1), lk, s)
      | Some n \<Rightarrow> do {
          (lk, c) \<leftarrow> acquire me lk (pcpu s);
          sleep_pass me ticks_addr i n ticks ticks lk (s\<lparr>pcpu := c\<rparr>)
        })
   }"

definition sys_sleep_resumed ::
  "nat \<Rightarrow> u32 \<Rightarrow> nat \<Rightarrow> u32 \<Rightarrow> u32 \<Rightarrow> u32 \<Rightarrow> spinlock \<Rightarrow> bool \<Rightarrow> 'e kstate \<Rightarrow> (sleep_result \<times> spinlock \<times> 'e kstate) option" where
  "sys_sleep_resumed me ticks_addr i n ticks0 ticks lk ia s = do {
     (l, s) \<leftarrow> sleep_in me i (Some lk) ia s;
     lk \<leftarrow> l;
     sleep_pass me ticks_addr i n ticks0 ticks lk s
   }"

definition sys_uptime :: "nat \<Rightarrow> u32 \<Rightarrow> spinlock \<Rightarrow> 'e kstate \<Rightarrow> (int \<times> spinlock \<times> 'e kstate) option" where
  "sys_uptime me ticks lk s = do {
     (lk, c) \<leftarrow> acquire me lk (pcpu s);
     (lk, c) \<leftarrow> release me lk c;
     Some (sint ticks, lk, s\<lparr>pcpu := c\<rparr>)
   }"

section \<open>What an accepted argument is\<close>

lemma scan_nul_Some:
  assumes "scan_nul m s ep = Some t"
  shows "s \<le> t \<and> t < ep \<and> m t = 0 \<and> (\<forall>k < unat t - unat s. m (s + of_nat k) \<noteq> 0)"
  using assms
proof (induction m s ep rule: scan_nul.induct)
  case (1 m s ep)
  have lt: "s < ep" using 1(2) by (subst (asm) scan_nul.simps) (simp split: if_splits)
  show ?case
  proof (cases "m s = 0")
    case True
    then show ?thesis using 1(2) lt by (subst (asm) scan_nul.simps) simp
  next
    case False
    then have IH: "s + 1 \<le> t \<and> t < ep \<and> m t = 0 \<and> (\<forall>k < unat t - unat (s + 1). m (s + 1 + of_nat k) \<noteq> 0)"
      using 1(1) [OF lt] 1(2) lt by (subst (asm) (2) scan_nul.simps) simp
    have s1: "unat (s + 1) = unat s + 1" using unat_next_below [OF lt] .
    have "m (s + of_nat k) \<noteq> 0" if "k < unat t - unat s" for k
    proof (cases k)
      case (Suc j)
      then have "j < unat t - unat (s + 1)" using that s1 by simp
      then have "m (s + 1 + of_nat j) \<noteq> 0" using IH by blast
      then show ?thesis by (simp add: Suc add.assoc)
    qed (use False in simp)
    then show ?thesis using IH s1 by (simp add: word_le_nat_alt)
  qed
qed

lemma scan_nul_None: "scan_nul m s ep = None \<Longrightarrow> s \<le> t \<Longrightarrow> t < ep \<Longrightarrow> m t \<noteq> 0"
proof (induction m s ep rule: scan_nul.induct)
  case (1 m s ep)
  have lt: "s < ep" using 1(3,4) by simp
  have "m s \<noteq> 0" "scan_nul m (s + 1) ep = None"
    using 1(2) lt by (subst (asm) scan_nul.simps; simp split: if_splits)+
  then show ?case using 1(1) [OF lt] 1(3,4) unat_next_below [OF lt]
    by (cases "unat t = unat s") (auto simp: word_le_nat_alt dest: unsigned_word_eqI)
qed

lemma small_sum:
  assumes "a < z" "z \<le> (KERNBASE :: u32)" "k \<le> 2 ^ 31"
  shows "unat (a + of_nat k) = unat a + k"
proof -
  have "unat a < 2147483648" using assms(1,2) by (simp add: word_less_nat_alt word_le_nat_alt KERNBASE_def)
  then show ?thesis using assms(3) by (simp add: unat_u32_plus unat_of_nat_u32)
qed

lemma fetchint_inside:
  assumes "sz p \<le> KERNBASE"
  shows "fetchint m p a = Some v \<longleftrightarrow> unat a + 4 \<le> unat (sz p) \<and> v = load32 m a"
proof (cases "a < sz p")
  case True
  then have "unat (a + 4) = unat a + 4" using small_sum [OF True assms, of 4] by simp
  then show ?thesis using True by (auto simp: fetchint_def word_less_nat_alt word_le_nat_alt)
next
  case False
  then show ?thesis by (auto simp: fetchint_def word_less_nat_alt word_le_nat_alt)
qed

lemma argptr_inside:
  assumes "sz p \<le> KERNBASE" "n' < 2 ^ 31" "argptr m p n n' = Some a"
  shows "0 \<le> n' \<and> unat a + nat n' \<le> unat (sz p) \<and> a < sz p"
proof -
  have a: "a < sz p" "0 \<le> n'" "\<not> sz p < a + of_int n'" using assms(3) by (auto simp: argptr_def bind_eq_Some_conv split: if_splits)
  have "of_int n' = (of_nat (nat n') :: u32)" using a(2) by simp
  then have "unat (a + of_int n') = unat a + nat n'" using small_sum [OF a(1) assms(1), of "nat n'"] assms(2) by simp
  then show ?thesis using a by (simp add: word_less_nat_alt)
qed

lemma fetchstr_inside:
  assumes "sz p \<le> KERNBASE"
  shows "case fetchstr m p a of
      Some (len, b) \<Rightarrow> b = a \<and> 0 \<le> len \<and> unat a + nat len < unat (sz p) \<and> m (a + of_int len) = 0 \<and> 0 \<notin> set (str_bytes m a len)
    | None \<Rightarrow> (\<forall>t. a \<le> t \<longrightarrow> t < sz p \<longrightarrow> m t \<noteq> 0)"
proof (cases "scan_nul m a (sz p)")
  case None
  then show ?thesis using scan_nul_None [OF None] by (auto simp: fetchstr_def)
next
  case (Some t)
  note T = scan_nul_Some [OF Some]
  have d: "unat (t - a) = unat t - unat a" using T by (intro unat_u32_minus) simp
  have "unat (sz p) \<le> 2147483648" using assms by (simp add: word_le_nat_alt KERNBASE_def)
  moreover have ts: "unat t < unat (sz p)" "unat a \<le> unat t" using T by (simp_all add: word_less_nat_alt word_le_nat_alt)
  ultimately have "unat (t - a) < 2147483648" using d by linarith
  then have s: "sint (t - a) = int (unat (t - a))" by (intro sint_small) simp
  define l where "l = sint (t - a)"
  have l: "nat l = unat t - unat a" "0 \<le> l" "of_int l = t - a"
    unfolding l_def by (simp_all only: s nat_int d of_int_sint scast_id of_nat_0_le_iff) (simp only: s [symmetric] d [symmetric] of_int_sint scast_id)
  have "fetchstr m p a = Some (l, a)" using Some T by (auto simp: fetchstr_def l_def)
  then show ?thesis using T l ts by (auto simp: str_bytes_def)
qed

section \<open>Property\<close>

text \<open>C35: a system call gets only arguments that lie inside the calling process, whatever is on its stack: a
  word is read from below \<open>sz\<close>, a block accepted by \<open>argptr\<close> ends at or before \<open>sz\<close>, and a string accepted
  by \<open>argstr\<close> has its zero below \<open>sz\<close>; conversely, a string with a zero there is accepted. The sums do not
  wrap, since processes stay below \<open>KERNBASE\<close>.\<close>

theorem arguments_inside_process:
  assumes "sz p \<le> KERNBASE" and "size' < 2 ^ 31"
  shows "(argint m p n = Some v \<longrightarrow>
      unat (tf_esp (tf p) + 4 + 4 * of_nat n) + 4 \<le> unat (sz p) \<and> v = load32 m (tf_esp (tf p) + 4 + 4 * of_nat n)) \<and>
    (argptr m p n size' = Some a \<longrightarrow> 0 \<le> size' \<and> unat a + nat size' \<le> unat (sz p)) \<and>
    (argstr m p n = Some (len, b) \<longrightarrow>
      0 \<le> len \<and> unat b + nat len < unat (sz p) \<and> m (b + of_int len) = 0 \<and> 0 \<notin> set (str_bytes m b len)) \<and>
    (argint m p n = Some c \<and> c \<le> t \<and> t < sz p \<and> m t = 0 \<longrightarrow> argstr m p n \<noteq> None)"
proof (intro conjI impI)
  assume "argint m p n = Some v"
  then show "unat (tf_esp (tf p) + 4 + 4 * of_nat n) + 4 \<le> unat (sz p)" "v = load32 m (tf_esp (tf p) + 4 + 4 * of_nat n)"
    using fetchint_inside [OF assms(1)] by (simp_all add: argint_def)
next
  assume "argptr m p n size' = Some a"
  then show "0 \<le> size'" "unat a + nat size' \<le> unat (sz p)" using argptr_inside [OF assms] by blast+
next
  assume "argstr m p n = Some (len, b)"
  then obtain a where "fetchstr m p a = Some (len, b)" by (auto simp: argstr_def bind_eq_Some_conv)
  then show "0 \<le> len" "unat b + nat len < unat (sz p)" "m (b + of_int len) = 0" "0 \<notin> set (str_bytes m b len)"
    using fetchstr_inside [OF assms(1), where m = m and a = a] by simp_all
next
  assume c: "argint m p n = Some c \<and> c \<le> t \<and> t < sz p \<and> m t = 0"
  then have "fetchstr m p c \<noteq> None" using fetchstr_inside [OF assms(1), where m = m and a = c] by (auto split: option.splits)
  then show "argstr m p n \<noteq> None" using c by (simp add: argstr_def)
qed

definition demo_caller :: proc where
  "demo_caller = \<lparr>sz = 4096, pgdir = 0, kstack = 0, state = RUNNING, pid = 3, parent = Some 0, tf = zero_trapframe\<lparr>tf_esp := 4080\<rparr>,
     ret_address = Trapret, ctx = zero_context In_sched, chan = NoChan, killed = False, ofile = replicate NOFILE None, cwd = Some 0,
     name = [], priority = 0\<rparr>"

theorem arguments_inside_process_witness:
  "argptr (\<lambda>a. if a = 4085 then 15 else 0) demo_caller 0 256 = Some 3840 \<and> unat (3840 :: u32) + nat 256 \<le> unat (sz demo_caller) \<and>
    argptr (\<lambda>a. if a = 4085 then 15 else 0) demo_caller 0 257 = None"
proof -
  have i: "argint (\<lambda>a. if a = 4085 then 15 else 0) demo_caller 0 = Some 3840"
    by (simp add: argint_def fetchint_def demo_caller_def load32_def push_bit_eq_mult)
  then have a: "argptr (\<lambda>a. if a = 4085 then 15 else 0) demo_caller 0 256 = Some 3840"
    "argptr (\<lambda>a. if a = 4085 then 15 else 0) demo_caller 0 257 = None"
    by (simp_all add: argptr_def) (simp_all add: demo_caller_def)
  have "sz demo_caller \<le> KERNBASE" by (simp add: demo_caller_def KERNBASE_def)
  then show ?thesis
    using arguments_inside_process [of demo_caller 256 "\<lambda>a. if a = 4085 then 15 else 0" 0 0 3840 0 0 0 0] a by simp
qed

end
