(* ===== verification/Sysfile.thy ===== *)
theory Sysfile
  imports File Syscall
begin

text \<open>
  The system calls on files (\<open>sysfile.c\<close>): fetching of the arguments, the calls into \<open>File\<close> and \<open>Fs\<close>,
  and every error path. The state is the kernel of \<open>File\<close> with the process \<open>up\<close> that made the call and its
  memory \<open>um\<close>. The uninitialised name buffers on the kernel stack are the argument \<open>stack\<close>. The result
  is the value returned; \<open>None\<close> is a panic, or that the process sleeps.
\<close>

section \<open>State and arguments\<close>

record ksys = kern +
  up :: proc
  um :: mem

definition O_RDONLY :: u32 where "O_RDONLY = 0"
definition O_WRONLY :: u32 where "O_WRONLY = 1"
definition O_RDWR :: u32 where "O_RDWR = 2"
definition O_CREATE :: u32 where "O_CREATE = 0x200"
definition MAXARG :: nat where "MAXARG = 32"

fun store_bytes :: "mem \<Rightarrow> u32 \<Rightarrow> byte list \<Rightarrow> mem" where
  "store_bytes m a [] = m"
| "store_bytes m a (b # bs) = store_bytes (m(a := b)) (a + 1) bs"

definition load_bytes :: "mem \<Rightarrow> u32 \<Rightarrow> nat \<Rightarrow> byte list" where
  "load_bytes m a n = map (\<lambda>k. m (a + of_nat k)) [0..<n]"

text \<open>The fields of \<open>struct stat\<close>, with the padding that the compiler leaves.\<close>

definition store_stat :: "mem \<Rightarrow> u32 \<Rightarrow> stat \<Rightarrow> mem" where
  "store_stat m a st =
     (let m = store_bytes m a (bytes16 (st_type st));
          m = store_bytes m (a + 4) (bytes32 (st_dev st));
          m = store_bytes m (a + 8) (bytes32 (st_ino st));
          m = store_bytes m (a + 12) (bytes16 (st_nlink st))
      in store_bytes m (a + 16) (bytes32 (st_size st)))"

abbreviation int_arg :: "nat \<Rightarrow> 'a ksys_scheme \<Rightarrow> u32 option" where
  "int_arg n s \<equiv> argint (um s) (up s) n"

abbreviation ptr_arg :: "nat \<Rightarrow> int \<Rightarrow> 'a ksys_scheme \<Rightarrow> u32 option" where
  "ptr_arg n len s \<equiv> argptr (um s) (up s) n len"

text \<open>The bytes of a string argument.\<close>

definition str_arg :: "nat \<Rightarrow> 'a ksys_scheme \<Rightarrow> byte list option" where
  "str_arg n s = map_option (\<lambda>(len, a). str_bytes (um s) a len) (argstr (um s) (up s) n)"

abbreviation self :: "'a ksys_scheme \<Rightarrow> u32" where
  "self s \<equiv> pid (up s)"

definition set_fd :: "nat \<Rightarrow> nat option \<Rightarrow> 'a ksys_scheme \<Rightarrow> 'a ksys_scheme" where
  "set_fd fd f s = s\<lparr>up := (up s)\<lparr>ofile := (ofile (up s))[fd := f]\<rparr>\<rparr>"

text \<open>\<open>argfd\<close>: the descriptor and the file; \<open>None\<close> is -1.\<close>

definition argfd :: "nat \<Rightarrow> 'a ksys_scheme \<Rightarrow> (nat \<times> nat) option" where
  "argfd n s = do {
     v \<leftarrow> int_arg n s;
     let fd = sint v;
     (if fd < 0 \<or> int NOFILE \<le> fd then None
      else do { f \<leftarrow> ofile (up s) ! nat fd; Some (nat fd, f) })
   }"

definition fdalloc :: "nat \<Rightarrow> 'a ksys_scheme \<Rightarrow> int \<times> 'a ksys_scheme" where
  "fdalloc f s = (case find_first (\<lambda>x. x = None) (ofile (up s)) of
     None \<Rightarrow> (-1, s)
   | Some fd \<Rightarrow> (int fd, set_fd fd (Some f) s))"

text \<open>\<open>namei\<close> and \<open>nameiparent\<close> for the current process.\<close>

definition namei_cur :: "'a ksys_scheme devsw list \<Rightarrow> byte list \<Rightarrow> byte list \<Rightarrow> 'a ksys_scheme \<Rightarrow> (nat option \<times> 'a ksys_scheme) option" where
  "namei_cur ds stack path s = do { c \<leftarrow> cwd (up s); namei (self s) c ds stack path s }"

definition nameiparent_cur :: "'a ksys_scheme devsw list \<Rightarrow> byte list \<Rightarrow> byte list \<Rightarrow> 'a ksys_scheme \<Rightarrow>
    (nat option \<times> byte list \<times> 'a ksys_scheme) option" where
  "nameiparent_cur ds stack path s = do { c \<leftarrow> cwd (up s); nameiparent (self s) c ds path (take DIRSIZ stack) s }"

section \<open>Calls on descriptors\<close>

definition sys_dup :: "'a ksys_scheme \<Rightarrow> (int \<times> 'a ksys_scheme) option" where
  "sys_dup s = (case argfd 0 s of
     None \<Rightarrow> Some (-1, s)
   | Some (_, f) \<Rightarrow>
       (let (fd, s) = fdalloc f s in
        if fd < 0 then Some (-1, s)
        else do { s \<leftarrow> filedup f s; Some (fd, s) }))"

definition sys_read :: "'a ksys_scheme devsw list \<Rightarrow> 'a ksys_scheme \<Rightarrow> (int \<times> 'a ksys_scheme) option" where
  "sys_read ds s =
     (case do { (_, f) \<leftarrow> argfd 0 s; n \<leftarrow> int_arg 2 s; p \<leftarrow> ptr_arg 1 (sint n) s; Some (f, sint n, p) } of
        None \<Rightarrow> Some (-1, s)
      | Some (f, n, p) \<Rightarrow> do {
          (r, bs, s) \<leftarrow> fileread (self s) ds (killed (up s)) f n s;
          Some (r, s\<lparr>um := store_bytes (um s) p bs\<rparr>)
        })"

definition sys_write :: "'a ksys_scheme devsw list \<Rightarrow> 'a ksys_scheme \<Rightarrow> (int \<times> 'a ksys_scheme) option" where
  "sys_write ds s =
     (case do { (_, f) \<leftarrow> argfd 0 s; n \<leftarrow> int_arg 2 s; p \<leftarrow> ptr_arg 1 (sint n) s; Some (f, sint n, p) } of
        None \<Rightarrow> Some (-1, s)
      | Some (f, n, p) \<Rightarrow> filewrite (self s) ds (killed (up s)) f (load_bytes (um s) p (nat n)) n s)"

definition sys_close :: "'a ksys_scheme \<Rightarrow> (int \<times> 'a ksys_scheme) option" where
  "sys_close s = (case argfd 0 s of
     None \<Rightarrow> Some (-1, s)
   | Some (fd, f) \<Rightarrow> do {
       s \<leftarrow> fileclose (self s) f (set_fd fd None s);
       Some (0, s)
     })"

definition sys_fstat :: "'a ksys_scheme \<Rightarrow> (int \<times> 'a ksys_scheme) option" where
  "sys_fstat s =
     (case do { (_, f) \<leftarrow> argfd 0 s; p \<leftarrow> ptr_arg 1 20 s; Some (f, p) } of
        None \<Rightarrow> Some (-1, s)
      | Some (f, p) \<Rightarrow> do {
          (r, st, s) \<leftarrow> filestat (self s) f s;
          Some (r, (case st of None \<Rightarrow> s | Some st \<Rightarrow> s\<lparr>um := store_stat (um s) p st\<rparr>))
        })"

definition sys_pipe :: "'a ksys_scheme \<Rightarrow> (int \<times> 'a ksys_scheme) option" where
  "sys_pipe s = (case ptr_arg 0 8 s of
     None \<Rightarrow> Some (-1, s)
   | Some p \<Rightarrow> do {
       (ends, s) \<leftarrow> pipealloc (self s) s;
       (case ends of
          None \<Rightarrow> Some (-1, s)
        | Some (rf, we) \<Rightarrow>
            (let (fd0, s) = fdalloc rf s;
                 (fd1, s) = (if fd0 < 0 then (-1, s) else fdalloc we s)
             in if fd0 < 0 \<or> fd1 < 0 then do {
                  let s = (if 0 \<le> fd0 then set_fd (nat fd0) None s else s);
                  s \<leftarrow> fileclose (self s) rf s;
                  s \<leftarrow> fileclose (self s) we s;
                  Some (-1, s)
                }
                else Some (0, s\<lparr>um := store_bytes (store_bytes (um s) p (bytes32 (of_int fd0))) (p + 4) (bytes32 (of_int fd1))\<rparr>)))
     })"

section \<open>Calls on paths\<close>

text \<open>The label \<open>bad\<close> of \<open>sys_link\<close>.\<close>

definition link_bad :: "nat \<Rightarrow> 'a ksys_scheme \<Rightarrow> (int \<times> 'a ksys_scheme) option" where
  "link_bad ip s = do {
     s \<leftarrow> ilock (self s) ip s;
     let s = set_inode ip (\<lambda>i. i\<lparr>i_nlink := i_nlink i - 1\<rparr>) s;
     s \<leftarrow> iupdate ip s;
     s \<leftarrow> iunlockput (self s) ip s;
     Some (-1, end_tx s)
   }"

definition sys_link :: "'a ksys_scheme devsw list \<Rightarrow> byte list \<Rightarrow> 'a ksys_scheme \<Rightarrow> (int \<times> 'a ksys_scheme) option" where
  "sys_link ds stack s =
     (case (str_arg 0 s, str_arg 1 s) of
        (Some old, Some new) \<Rightarrow> do {
          s \<leftarrow> begin_tx s;
          (ip, s) \<leftarrow> namei_cur ds stack old s;
          (case ip of
             None \<Rightarrow> Some (-1, end_tx s)
           | Some ip \<Rightarrow> do {
               s \<leftarrow> ilock (self s) ip s;
               (if i_type (icache s ! ip) = T_DIR then do {
                  s \<leftarrow> iunlockput (self s) ip s;
                  Some (-1, end_tx s)
                } else do {
                  let s = set_inode ip (\<lambda>i. i\<lparr>i_nlink := i_nlink i + 1\<rparr>) s;
                  s \<leftarrow> iupdate ip s;
                  s \<leftarrow> iunlock (self s) ip s;
                  (dp, name, s) \<leftarrow> nameiparent_cur ds stack new s;
                  (case dp of
                     None \<Rightarrow> link_bad ip s
                   | Some dp \<Rightarrow> do {
                       s \<leftarrow> ilock (self s) dp s;
                       (r, s) \<leftarrow> (if i_dev (icache s ! dp) \<noteq> i_dev (icache s ! ip) then Some (-1, s)
                          else dirlink (self s) ds dp name (i_inum (icache s ! ip)) s);
                       s \<leftarrow> iunlockput (self s) dp s;
                       (if r < 0 then link_bad ip s
                        else do {
                          s \<leftarrow> iput (self s) ip s;
                          Some (0, end_tx s)
                        })
                     })
                })
             })
        }
      | _ \<Rightarrow> Some (-1, s))"

text \<open>\<open>isdirempty\<close> from offset \<open>off\<close> on.\<close>

partial_function (option) isdirempty_from ::
  "'a fs_scheme devsw list \<Rightarrow> nat \<Rightarrow> u32 \<Rightarrow> 'a fs_scheme \<Rightarrow> (bool \<times> 'a fs_scheme) option" where
  "isdirempty_from ds dp off s =
     (if off < i_size (icache s ! dp) then do {
        (r, de, s) \<leftarrow> readi ds dp off 16 s;
        (if r \<noteq> 16 then None else if dirent_inum de \<noteq> 0 then Some (False, s) else isdirempty_from ds dp (off + 16) s)
      } else Some (True, s))"

definition isdirempty :: "'a fs_scheme devsw list \<Rightarrow> nat \<Rightarrow> 'a fs_scheme \<Rightarrow> (bool \<times> 'a fs_scheme) option" where
  "isdirempty ds dp s = isdirempty_from ds dp 32 s"

definition dot :: "byte list" where "dot = [46]"
definition dotdot :: "byte list" where "dotdot = [46, 46]"

definition unlink_bad :: "nat \<Rightarrow> 'a ksys_scheme \<Rightarrow> (int \<times> 'a ksys_scheme) option" where
  "unlink_bad dp s = do {
     s \<leftarrow> iunlockput (self s) dp s;
     Some (-1, end_tx s)
   }"

definition sys_unlink :: "'a ksys_scheme devsw list \<Rightarrow> byte list \<Rightarrow> 'a ksys_scheme \<Rightarrow> (int \<times> 'a ksys_scheme) option" where
  "sys_unlink ds stack s =
     (case str_arg 0 s of
        None \<Rightarrow> Some (-1, s)
      | Some path \<Rightarrow> do {
          s \<leftarrow> begin_tx s;
          (dp, name, s) \<leftarrow> nameiparent_cur ds stack path s;
          (case dp of
             None \<Rightarrow> Some (-1, end_tx s)
           | Some dp \<Rightarrow> do {
               s \<leftarrow> ilock (self s) dp s;
               (if namecmp name dot = 0 \<or> namecmp name dotdot = 0 then unlink_bad dp s
                else do {
                  (found, s) \<leftarrow> dirlookup ds dp name s;
                  (case found of
                     None \<Rightarrow> unlink_bad dp s
                   | Some (ip, off) \<Rightarrow> do {
                       s \<leftarrow> ilock (self s) ip s;
                       (if sint (i_nlink (icache s ! ip)) < 1 then None
                        else do {
                          (empty', s) \<leftarrow> (if i_type (icache s ! ip) = T_DIR then isdirempty ds ip s else Some (True, s));
                          (if \<not> empty' then do {
                             s \<leftarrow> iunlockput (self s) ip s;
                             unlink_bad dp s
                           } else do {
                             (r, s) \<leftarrow> writei ds dp (replicate 16 0) off 16 s;
                             (if r \<noteq> 16 then None
                              else do {
                                s \<leftarrow> (if i_type (icache s ! ip) = T_DIR
                                  then iupdate dp (set_inode dp (\<lambda>i. i\<lparr>i_nlink := i_nlink i - 1\<rparr>) s) else Some s);
                                s \<leftarrow> iunlockput (self s) dp s;
                                s \<leftarrow> iupdate ip (set_inode ip (\<lambda>i. i\<lparr>i_nlink := i_nlink i - 1\<rparr>) s);
                                s \<leftarrow> iunlockput (self s) ip s;
                                Some (0, end_tx s)
                              })
                           })
                        })
                     })
                })
             })
        })"

text \<open>\<open>create\<close>; the result is the locked inode, or the null pointer.\<close>

definition create :: "'a ksys_scheme devsw list \<Rightarrow> byte list \<Rightarrow> byte list \<Rightarrow> u16 \<Rightarrow> u16 \<Rightarrow> u16 \<Rightarrow> 'a ksys_scheme \<Rightarrow>
    (nat option \<times> 'a ksys_scheme) option" where
  "create ds stack path type major minor s = do {
     (dp, name, s) \<leftarrow> nameiparent_cur ds stack path s;
     (case dp of
        None \<Rightarrow> Some (None, s)
      | Some dp \<Rightarrow> do {
          s \<leftarrow> ilock (self s) dp s;
          (found, s) \<leftarrow> dirlookup ds dp name s;
          (case found of
             Some (ip, _) \<Rightarrow> do {
               s \<leftarrow> iunlockput (self s) dp s;
               s \<leftarrow> ilock (self s) ip s;
               (if type = T_FILE \<and> i_type (icache s ! ip) = T_FILE then Some (Some ip, s)
                else do {
                  s \<leftarrow> iunlockput (self s) ip s;
                  Some (None, s)
                })
             }
           | None \<Rightarrow> do {
               (ip, s) \<leftarrow> ialloc (i_dev (icache s ! dp)) type s;
               s \<leftarrow> ilock (self s) ip s;
               s \<leftarrow> iupdate ip (set_inode ip (\<lambda>i. i\<lparr>i_major := major, i_minor := minor, i_nlink := 1\<rparr>) s);
               s \<leftarrow> (if type = T_DIR then do {
                   s \<leftarrow> iupdate dp (set_inode dp (\<lambda>i. i\<lparr>i_nlink := i_nlink i + 1\<rparr>) s);
                   (r1, s) \<leftarrow> dirlink (self s) ds ip dot (i_inum (icache s ! ip)) s;
                   (if r1 < 0 then None
                    else do {
                      (r2, s) \<leftarrow> dirlink (self s) ds ip dotdot (i_inum (icache s ! dp)) s;
                      (if r2 < 0 then None else Some s)
                    })
                 } else Some s);
               (r, s) \<leftarrow> dirlink (self s) ds dp name (i_inum (icache s ! ip)) s;
               (if r < 0 then None
                else do {
                  s \<leftarrow> iunlockput (self s) dp s;
                  Some (Some ip, s)
                })
             })
        })
   }"

text \<open>The first part of \<open>sys_open\<close>: the locked inode, or the null pointer after the error return.\<close>

definition open_inode :: "'a ksys_scheme devsw list \<Rightarrow> byte list \<Rightarrow> byte list \<Rightarrow> u32 \<Rightarrow> 'a ksys_scheme \<Rightarrow>
    (nat option \<times> 'a ksys_scheme) option" where
  "open_inode ds stack path omode s =
     (if omode AND O_CREATE \<noteq> 0 then do {
        (ip, s) \<leftarrow> create ds stack path T_FILE 0 0 s;
        Some (ip, if ip = None then end_tx s else s)
      } else do {
        (ip, s) \<leftarrow> namei_cur ds stack path s;
        (case ip of
           None \<Rightarrow> Some (None, end_tx s)
         | Some ip \<Rightarrow> do {
             s \<leftarrow> ilock (self s) ip s;
             (if i_type (icache s ! ip) = T_DIR \<and> omode \<noteq> O_RDONLY then do {
                s \<leftarrow> iunlockput (self s) ip s;
                Some (None, end_tx s)
              } else Some (Some ip, s))
           })
      })"

definition sys_open :: "'a ksys_scheme devsw list \<Rightarrow> byte list \<Rightarrow> 'a ksys_scheme \<Rightarrow> (int \<times> 'a ksys_scheme) option" where
  "sys_open ds stack s =
     (case (str_arg 0 s, int_arg 1 s) of
        (Some path, Some omode) \<Rightarrow> do {
          s \<leftarrow> begin_tx s;
          (ip, s) \<leftarrow> open_inode ds stack path omode s;
          (case ip of
             None \<Rightarrow> Some (-1, s)
           | Some ip \<Rightarrow>
               (let (f, s) = filealloc s;
                    (fd, s) = (case f of None \<Rightarrow> (-1, s) | Some f \<Rightarrow> fdalloc f s)
                in (case f of
                      Some i \<Rightarrow>
                        (if fd < 0 then do {
                           s \<leftarrow> fileclose (self s) i s;
                           s \<leftarrow> iunlockput (self s) ip s;
                           Some (-1, end_tx s)
                         } else do {
                           s \<leftarrow> iunlock (self s) ip s;
                           let s = end_tx s;
                           Some (fd, set_file i (\<lambda>f. f\<lparr>f_type := FD_INODE, f_ip := ip, f_off := 0,
                             f_readable := (omode AND O_WRONLY = 0),
                             f_writable := (omode AND O_WRONLY \<noteq> 0 \<or> omode AND O_RDWR \<noteq> 0)\<rparr>) s)
                         })
                    | None \<Rightarrow> do {
                        s \<leftarrow> iunlockput (self s) ip s;
                        Some (-1, end_tx s)
                      })))
        }
      | _ \<Rightarrow> Some (-1, s))"

text \<open>The common end of \<open>sys_mkdir\<close> and \<open>sys_mknod\<close>.\<close>

definition made :: "nat option \<Rightarrow> 'a ksys_scheme \<Rightarrow> (int \<times> 'a ksys_scheme) option" where
  "made ip s = (case ip of
     None \<Rightarrow> Some (-1, end_tx s)
   | Some ip \<Rightarrow> do {
       s \<leftarrow> iunlockput (self s) ip s;
       Some (0, end_tx s)
     })"

definition sys_mkdir :: "'a ksys_scheme devsw list \<Rightarrow> byte list \<Rightarrow> 'a ksys_scheme \<Rightarrow> (int \<times> 'a ksys_scheme) option" where
  "sys_mkdir ds stack s = do {
     s \<leftarrow> begin_tx s;
     (ip, s) \<leftarrow> (case str_arg 0 s of None \<Rightarrow> Some (None, s) | Some path \<Rightarrow> create ds stack path T_DIR 0 0 s);
     made ip s
   }"

definition sys_mknod :: "'a ksys_scheme devsw list \<Rightarrow> byte list \<Rightarrow> 'a ksys_scheme \<Rightarrow> (int \<times> 'a ksys_scheme) option" where
  "sys_mknod ds stack s = do {
     s \<leftarrow> begin_tx s;
     (ip, s) \<leftarrow> (case (str_arg 0 s, int_arg 1 s, int_arg 2 s) of
         (Some path, Some major, Some minor) \<Rightarrow> create ds stack path T_DEV (ucast major) (ucast minor) s
       | _ \<Rightarrow> Some (None, s));
     made ip s
   }"

definition sys_chdir :: "'a ksys_scheme devsw list \<Rightarrow> byte list \<Rightarrow> 'a ksys_scheme \<Rightarrow> (int \<times> 'a ksys_scheme) option" where
  "sys_chdir ds stack s = do {
     s \<leftarrow> begin_tx s;
     (ip, s) \<leftarrow> (case str_arg 0 s of None \<Rightarrow> Some (None, s) | Some path \<Rightarrow> namei_cur ds stack path s);
     (case ip of
        None \<Rightarrow> Some (-1, end_tx s)
      | Some ip \<Rightarrow> do {
          s \<leftarrow> ilock (self s) ip s;
          (if i_type (icache s ! ip) \<noteq> T_DIR then do {
             s \<leftarrow> iunlockput (self s) ip s;
             Some (-1, end_tx s)
           } else do {
             s \<leftarrow> iunlock (self s) ip s;
             c \<leftarrow> cwd (up s);
             s \<leftarrow> iput (self s) c s;
             let s = end_tx s;
             Some (0, s\<lparr>up := (up s)\<lparr>cwd := Some ip\<rparr>\<rparr>)
           })
        })
   }"

text \<open>The loop of \<open>sys_exec\<close> from argument \<open>i\<close> on; \<open>None\<close> is -1. The function \<open>exec\<close> is an argument.\<close>

function exec_args :: "mem \<Rightarrow> proc \<Rightarrow> u32 \<Rightarrow> nat \<Rightarrow> byte list list option" where
  "exec_args m p uargv i =
     (if MAXARG \<le> i then None
      else do {
        uarg \<leftarrow> fetchint m p (uargv + 4 * of_nat i);
        (if uarg = 0 then Some []
         else do {
           (len, a) \<leftarrow> fetchstr m p uarg;
           args \<leftarrow> exec_args m p uargv (i + 1);
           Some (str_bytes m a len # args)
         })
      })"
  by auto
termination by (relation "measure (\<lambda>(_, _, _, i). MAXARG - i)") auto

declare exec_args.simps [simp del]

definition sys_exec :: "(byte list \<Rightarrow> byte list list \<Rightarrow> 'a ksys_scheme \<Rightarrow> (int \<times> 'a ksys_scheme) option) \<Rightarrow> 'a ksys_scheme \<Rightarrow>
    (int \<times> 'a ksys_scheme) option" where
  "sys_exec exec s =
     (case (str_arg 0 s, int_arg 1 s) of
        (Some path, Some uargv) \<Rightarrow>
          (case exec_args (um s) (up s) uargv 0 of None \<Rightarrow> Some (-1, s) | Some argv \<Rightarrow> exec path argv s)
      | _ \<Rightarrow> Some (-1, s))"

end
