(* ===== verification/FsBalance.thy ===== *)
theory FsBalance
  imports FsDirs
begin

text \<open>
  What the functions of \<open>fs.c\<close> take and give back: buffers, inode locks and references. The account of
  a state says what is taken in it; each function that returns changes it in one fixed way, whatever the
  contents of the disk are. Functions that only read and write leave it as it was.
\<close>

record account =
  a_ops :: int
  a_held :: "u32 list"
  a_len :: nat
  a_locked :: "nat set"
  a_refs :: int

definition acc :: "'a fs_scheme \<Rightarrow> account" where
  "acc s = \<lparr>a_ops = ops s, a_held = held s, a_len = length (icache s),
     a_locked = {i. i < length (icache s) \<and> sl_locked (i_lock (icache s ! i)) \<noteq> 0}, a_refs = sum_list (map i_ref (icache s))\<rparr>"

definition ref :: "int \<Rightarrow> account \<Rightarrow> account" where
  "ref k a = a\<lparr>a_refs := a_refs a + k\<rparr>"

definition lock :: "nat \<Rightarrow> account \<Rightarrow> account" where
  "lock i a = a\<lparr>a_locked := insert i (a_locked a)\<rparr>"

definition unlock :: "nat \<Rightarrow> account \<Rightarrow> account" where
  "unlock i a = a\<lparr>a_locked := a_locked a - {i}\<rparr>"

definition hold :: "u32 \<Rightarrow> account \<Rightarrow> account" where
  "hold n a = a\<lparr>a_held := n # a_held a\<rparr>"

definition tx :: "int \<Rightarrow> account \<Rightarrow> account" where
  "tx k a = a\<lparr>a_ops := a_ops a + k\<rparr>"

text \<open>The rest of the kernel, which \<open>fs.c\<close> never touches, belongs to every statement.\<close>

definition becomes :: "'a fs_scheme \<Rightarrow> (account \<Rightarrow> account) \<Rightarrow> 'a fs_scheme \<Rightarrow> bool" where
  "becomes s f s' \<longleftrightarrow> acc s' = f (acc s) \<and> fs.more s' = fs.more s"

abbreviation keeps :: "'a fs_scheme \<Rightarrow> 'a fs_scheme \<Rightarrow> bool" where
  "keeps s s' \<equiv> becomes s (\<lambda>a. a) s'"

definition put :: "u32 \<Rightarrow> account \<Rightarrow> account" where
  "put n a = a\<lparr>a_held := removeAll n (a_held a)\<rparr>"

named_theorems balance

lemma keeps_refl [simp]: "keeps s s"
  by (simp add: becomes_def)

lemma keeps_trans: "keeps s t \<Longrightarrow> becomes t f u \<Longrightarrow> becomes s f u"
  by (simp add: becomes_def)

lemma account_simps [simp]:
  "n \<notin> set (a_held a) \<Longrightarrow> put n (hold n a) = a" "i \<notin> a_locked a \<Longrightarrow> unlock i (lock i a) = a"
  "ref j (ref k a) = ref (j + k) a" "ref 0 a = a" "unlock i (ref k a) = ref k (unlock i a)" "lock i (ref k a) = ref k (lock i a)"
  "tx j (tx k a) = tx (j + k) a" "tx 0 a = a" "tx k (ref j a) = ref j (tx k a)" "lock i (tx k a) = tx k (lock i a)"
  "unlock i (tx k a) = tx k (unlock i a)" "a_locked (ref k a) = a_locked a" "a_locked (tx k a) = a_locked a" "a_held (ref k a) = a_held a"
  "a_held (tx k a) = a_held a" "a_len (ref k a) = a_len a" "a_len (tx k a) = a_len a" "a_len (lock i a) = a_len a"
  "a_len (unlock i a) = a_len a" "a_locked (lock i a) = insert i (a_locked a)" "a_locked (unlock i a) = a_locked a - {i}"
  "a_held (lock i a) = a_held a" "a_held (unlock i a) = a_held a"
  by (simp_all add: put_def hold_def lock_def unlock_def ref_def tx_def Diff_triv insert_Diff_if)

lemma acc_sel: "a_held (acc s) = held s" "a_ops (acc s) = ops s" "a_len (acc s) = length (icache s)"
  by (simp_all add: acc_def)

section \<open>Blocks\<close>

lemma acc_blockdev [simp]:
  "acc (s\<lparr>blocks := B\<rparr>) = acc s" "acc (s\<lparr>logged := L\<rparr>) = acc s" "acc (s\<lparr>held := h\<rparr>) = (acc s)\<lparr>a_held := h\<rparr>"
  "acc (s\<lparr>ops := n\<rparr>) = (acc s)\<lparr>a_ops := n\<rparr>"
  by (simp_all add: acc_def)

lemma block_balance [balance]:
  "get_block dev n s = Some (d, s') \<Longrightarrow> becomes s (hold n) s' \<and> n \<notin> set (a_held (acc s))"
  "log_block n d s = Some s' \<Longrightarrow> keeps s s'"
  "put_block n s = Some s' \<Longrightarrow> becomes s (put n) s'"
  by (auto simp: get_block_def log_block_def put_block_def becomes_def hold_def put_def acc_sel split: if_splits)

lemma bzero_balance [balance]: "bzero dev b s = Some s' \<Longrightarrow> keeps s s'"
  by (auto simp: bzero_def bind_eq_Some_conv becomes_def dest!: block_balance)

lemma balloc_from_balance [balance]: "balloc_from dev bs s = Some (n, s') \<Longrightarrow> keeps s s'"
proof (induction bs arbitrary: s)
  case (Cons b bs)
  then show ?case
    by (auto simp: bind_eq_Some_conv becomes_def Let_def split: option.splits dest!: block_balance bzero_balance)
qed simp

lemma alloc_balance [balance]:
  "balloc dev s = Some (n, s') \<Longrightarrow> keeps s s'" "bfree dev b s = Some s' \<Longrightarrow> keeps s s'"
  by (auto simp: balloc_def bfree_def bind_eq_Some_conv becomes_def Let_def split: if_splits dest!: block_balance balloc_from_balance)

section \<open>Inodes\<close>

lemma sum_update: "i < length xs \<Longrightarrow> sum_list (map f (xs[i := y])) = sum_list (map f xs) - f (xs ! i) + (f y :: int)"
  by (induction xs arbitrary: i) (auto split: nat.split)

lemma set_inode_balance:
  "(\<And>ip. i_ref (f ip) = i_ref ip \<and> sl_locked (i_lock (f ip)) = sl_locked (i_lock ip)) \<Longrightarrow> keeps s (set_inode i f s)"
  by (cases "i < length (icache s)")
    (auto simp: becomes_def set_inode_def acc_def nth_update_if sum_update list_update_beyond intro!: Collect_cong split: if_splits)

lemma becomes_len: "keeps s t \<Longrightarrow> length (icache t) = length (icache s)"
  unfolding becomes_def by (metis acc_sel(3))

lemma iget_balance [balance]:
  assumes "iget dev inum s = Some (i, s')"
  shows "becomes s (ref 1) s' \<and> i < a_len (acc s)"
proof -
  consider "find_first (at_inode dev inum) (icache s) = Some i" "s' = set_inode i (\<lambda>ip. ip\<lparr>i_ref := i_ref ip + 1\<rparr>) s"
    | "find_first (\<lambda>ip. i_ref ip = 0) (icache s) = Some i"
      "s' = set_inode i (\<lambda>ip. ip\<lparr>i_dev := dev, i_inum := inum, i_ref := 1, i_valid := False\<rparr>) s"
    using assms unfolding iget_cases by (auto split: option.splits)
  then show ?thesis
  proof cases
    case 1
    then have "i < length (icache s)" using find_first_SomeD by blast
    then show ?thesis using 1(2)
      by (auto simp: acc_sel becomes_def set_inode_def acc_def ref_def nth_update_if sum_update intro!: Collect_cong split: if_splits)
  next
    case 2
    then have "i < length (icache s)" "i_ref (icache s ! i) = 0" using find_first_SomeD [OF 2(1)] by blast+
    then show ?thesis using 2(2)
      by (auto simp: acc_sel becomes_def set_inode_def acc_def ref_def nth_update_if sum_update intro!: Collect_cong split: if_splits)
  qed
qed

lemma ialloc_from_balance [balance]:
  "ialloc_from dev type ns s = Some (i, s') \<Longrightarrow> becomes s (ref 1) s' \<and> i < a_len (acc s)"
proof (induction ns arbitrary: s)
  case (Cons n ns)
  obtain t where t: "keeps s t" "iget dev (of_nat n) t = Some (i, s') \<or> ialloc_from dev type ns t = Some (i, s')"
    using Cons.prems by (fastforce simp: bind_eq_Some_conv becomes_def Let_def split: if_splits dest!: block_balance)
  then have "becomes t (ref 1) s' \<and> i < a_len (acc t)" using iget_balance Cons.IH by blast
  then show ?case using t(1) by (simp add: becomes_def)
qed simp

lemma ialloc_balance [balance]: "ialloc dev type s = Some (i, s') \<Longrightarrow> becomes s (ref 1) s' \<and> i < a_len (acc s)"
  by (simp add: ialloc_def ialloc_from_balance)

lemma iupdate_balance [balance]: "iupdate i s = Some s' \<Longrightarrow> keeps s s'"
  by (auto simp: iupdate_def bind_eq_Some_conv becomes_def Let_def dest!: block_balance)

lemma idup_balance [balance]: "i < a_len (acc s) \<Longrightarrow> idup i s = (j, s') \<Longrightarrow> becomes s (ref 1) s' \<and> j = i"
  by (auto simp: acc_sel idup_def becomes_def set_inode_def acc_def ref_def nth_update_if sum_update intro!: Collect_cong split: if_splits)

lemma set_lock_balance:
  assumes "i < length (icache s)"
  shows "sl_locked lk \<noteq> 0 \<Longrightarrow> becomes s (lock i) (set_inode i (\<lambda>ip. ip\<lparr>i_lock := lk\<rparr>) s)"
    "becomes s (unlock i) (set_inode i (\<lambda>ip. ip\<lparr>i_lock := releasesleep (i_lock ip)\<rparr>) s)"
  using assms
  by (auto simp: becomes_def set_inode_def acc_def lock_def unlock_def releasesleep_def nth_update_if sum_update intro!: Collect_cong split: if_splits)

lemma acquiresleep_balance:
  assumes "acquiresleep me (i_lock (icache s ! i)) = Some lk" "i < a_len (acc s)"
  shows "becomes s (lock i) (set_inode i (\<lambda>ip. ip\<lparr>i_lock := lk\<rparr>) s) \<and> i \<notin> a_locked (acc s)"
proof -
  have "sl_locked (i_lock (icache s ! i)) = 0" "sl_locked lk \<noteq> 0" using assms(1) by (auto simp: acquiresleep_def split: if_splits)
  then show ?thesis using set_lock_balance(1) [OF assms(2) [unfolded acc_sel]] by (auto simp: acc_def)
qed

lemma read_dinode_simps [simp]: "i_ref (read_dinode d n ip) = i_ref ip" "i_lock (read_dinode d n ip) = i_lock ip"
  by (simp_all add: read_dinode_def Let_def)

lemma ilock_balance [balance]:
  assumes "ilock me i s = Some s'" "i < a_len (acc s)"
  shows "becomes s (lock i) s' \<and> i \<notin> a_locked (acc s)"
proof -
  obtain lk where lk: "acquiresleep me (i_lock (icache s ! i)) = Some lk"
    using assms(1) by (auto simp: ilock_def bind_eq_Some_conv split: if_splits)
  let ?s = "set_inode i (\<lambda>ip. ip\<lparr>i_lock := lk\<rparr>) s"
  note L = acquiresleep_balance [OF lk assms(2)]
  have "keeps t (set_inode i (read_dinode d n) t)" "keeps t (set_inode i (\<lambda>ip. ip\<lparr>i_valid := True\<rparr>) t)" for t :: "'a fs_scheme" and d n
    by (rule set_inode_balance; simp)+
  then have "keeps ?s s'"
    using assms(1) lk
    by (auto simp: ilock_def bind_eq_Some_conv becomes_def Let_def split: if_splits dest!: block_balance)
  then show ?thesis using L by (simp add: becomes_def)
qed

lemma iunlock_balance [balance]: "iunlock me i s = Some s' \<Longrightarrow> i < a_len (acc s) \<Longrightarrow> becomes s (unlock i) s'"
  by (auto simp: acc_sel iunlock_def set_lock_balance split: if_splits)

lemma new_addr_balance:
  assumes "(if addr = 0 then do { (addr, s) \<leftarrow> balloc dev s; Some (addr, set_inode i (\<lambda>ip. ip\<lparr>i_addrs := (i_addrs ip)[k := addr]\<rparr>) s) }
      else Some (addr, s)) = Some (b, s')"
  shows "keeps s s'"
proof -
  have "keeps t (set_inode i (\<lambda>ip. ip\<lparr>i_addrs := (i_addrs ip)[k := x]\<rparr>) t)" for t :: "'a fs_scheme" and x
    by (rule set_inode_balance) simp
  then show ?thesis
    using assms by (cases "addr = 0") (auto simp: bind_eq_Some_conv becomes_def dest!: alloc_balance)
qed

lemma new_entry_balance:
  assumes "(if addr = 0 then do { (addr, s) \<leftarrow> balloc dev s; s \<leftarrow> log_block ind (put32 d j addr) s; Some (addr, s) }
      else Some (addr, s)) = Some (b, s')"
  shows "keeps s s'"
  using assms by (cases "addr = 0") (auto simp: bind_eq_Some_conv becomes_def dest!: alloc_balance block_balance)

lemma bmap_balance [balance]:
  assumes "bmap i bn s = Some (a, s')"
  shows "keeps s s'"
proof (cases "bn < NDIRECT")
  case True
  then show ?thesis using assms unfolding bmap_def Let_def by (simp add: new_addr_balance)
next
  case False
  then show ?thesis
    using assms unfolding bmap_def Let_def
    by (cases "bn - NDIRECT < NINDIRECT")
      (auto simp: bind_eq_Some_conv becomes_def dest!: block_balance new_addr_balance new_entry_balance)
qed

lemma for_loop_balance:
  assumes "for_loop 0 n f s = Some s'" and "\<And>k s s'. f k s = Some s' \<Longrightarrow> keeps s s'"
  shows "keeps s s'"
  by (rule for_loop_inv [OF assms(1), of "\<lambda>_ t. keeps s t"]) (auto intro: keeps_trans assms(2))

lemma itrunc_balance [balance]:
  assumes "itrunc i s = Some s'"
  shows "keeps s s'"
proof -
  have S: "keeps t (set_inode i (\<lambda>ip. ip\<lparr>i_addrs := (i_addrs ip)[k := x]\<rparr>) t)" "keeps t (set_inode i (\<lambda>ip. ip\<lparr>i_size := z\<rparr>) t)"
    for t :: "'a fs_scheme" and k x z by (rule set_inode_balance; simp)+
  have D: "free_direct i k t = Some t' \<Longrightarrow> keeps t t'" "free_entry dv d j t = Some t' \<Longrightarrow> keeps t t'" for t t' :: "'a fs_scheme" and k dv d j
    using S by (auto simp: free_direct_def free_entry_def bind_eq_Some_conv becomes_def Let_def split: if_splits dest!: alloc_balance)
  have L: "for_loop 0 n (free_direct i) t = Some t' \<Longrightarrow> keeps t t'" "for_loop 0 n (free_entry dv d) t = Some t' \<Longrightarrow> keeps t t'"
    for t t' :: "'a fs_scheme" and n dv d using for_loop_balance D by blast+
  show ?thesis
    using assms S unfolding itrunc_def
    by (auto simp: bind_eq_Some_conv becomes_def Let_def split: if_splits dest!: block_balance alloc_balance iupdate_balance L)
qed

lemma iput_balance [balance]:
  assumes "iput me i s = Some s'" "i < a_len (acc s)"
  shows "becomes s (ref (-1)) s' \<and> i \<notin> a_locked (acc s)"
proof -
  obtain lk where lk: "acquiresleep me (i_lock (icache s ! i)) = Some lk"
    using assms(1) by (auto simp: iput_def bind_eq_Some_conv)
  let ?s = "set_inode i (\<lambda>ip. ip\<lparr>i_lock := lk\<rparr>) s"
  note L = acquiresleep_balance [OF lk assms(2)]
  have S: "keeps t (set_inode i (\<lambda>ip. ip\<lparr>i_type := 0\<rparr>) t)" "keeps t (set_inode i (\<lambda>ip. ip\<lparr>i_valid := False\<rparr>) t)" for t :: "'a fs_scheme"
    by (rule set_inode_balance; simp)+
  have "\<exists>t. keeps ?s t \<and>
    s' = set_inode i (\<lambda>ip. ip\<lparr>i_ref := i_ref ip - 1\<rparr>) (set_inode i (\<lambda>ip. ip\<lparr>i_lock := releasesleep (i_lock ip)\<rparr>) t)"
  proof (cases "i_valid (icache ?s ! i) \<and> i_nlink (icache ?s ! i) = 0 \<and> i_ref (icache ?s ! i) = 1")
    case True
    then obtain t1 t2 where t: "itrunc i ?s = Some t1" "iupdate i (set_inode i (\<lambda>ip. ip\<lparr>i_type := 0\<rparr>) t1) = Some t2"
      "s' = set_inode i (\<lambda>ip. ip\<lparr>i_ref := i_ref ip - 1\<rparr>)
         (set_inode i (\<lambda>ip. ip\<lparr>i_lock := releasesleep (i_lock ip)\<rparr>) (set_inode i (\<lambda>ip. ip\<lparr>i_valid := False\<rparr>) t2))"
      using assms(1) lk by (simp add: iput_def bind_eq_Some_conv Let_def del: set_inode_simps) blast
    have "keeps ?s (set_inode i (\<lambda>ip. ip\<lparr>i_valid := False\<rparr>) t2)"
      using itrunc_balance [OF t(1)] S(1) iupdate_balance [OF t(2)] S(2) by (simp add: becomes_def)
    then show ?thesis using t(3) by blast
  next
    case False
    then have "s' = set_inode i (\<lambda>ip. ip\<lparr>i_ref := i_ref ip - 1\<rparr>) (set_inode i (\<lambda>ip. ip\<lparr>i_lock := releasesleep (i_lock ip)\<rparr>) ?s)"
      using assms(1) lk by (simp add: iput_def Let_def del: set_inode_simps split: if_splits)
    then show ?thesis using keeps_refl by blast
  qed
  then obtain t where t: "keeps ?s t"
    "s' = set_inode i (\<lambda>ip. ip\<lparr>i_ref := i_ref ip - 1\<rparr>) (set_inode i (\<lambda>ip. ip\<lparr>i_lock := releasesleep (i_lock ip)\<rparr>) t)" by blast
  have i: "i < length (icache t)" using becomes_len [OF t(1)] assms(2) by (simp add: acc_sel)
  let ?u = "set_inode i (\<lambda>ip. ip\<lparr>i_lock := releasesleep (i_lock ip)\<rparr>) t"
  have "becomes t (unlock i) ?u" by (rule set_lock_balance(2) [OF i])
  moreover have "becomes ?u (ref (-1)) s'"
    unfolding t(2) using i
    by (auto simp: becomes_def set_inode_def acc_def ref_def nth_update_if sum_update intro!: Collect_cong split: if_splits)
  ultimately show ?thesis using L t(1) by (simp add: becomes_def)
qed

lemma iunlockput_balance [balance]:
  "iunlockput me i s = Some s' \<Longrightarrow> i < a_len (acc s) \<Longrightarrow> becomes s (\<lambda>a. ref (-1) (unlock i a)) s'"
proof -
  assume a: "iunlockput me i s = Some s'" "i < a_len (acc s)"
  then obtain t where t: "iunlock me i s = Some t" "iput me i t = Some s'" by (auto simp: iunlockput_def bind_eq_Some_conv)
  note U = iunlock_balance [OF t(1) a(2)]
  have "i < a_len (acc t)" using U a(2) by (simp add: becomes_def)
  then show ?thesis using iput_balance [OF t(2)] U by (simp add: becomes_def)
qed

section \<open>Contents and directories\<close>

lemma readi_loop_balance [balance]: "readi_loop i off n s = Some (bs, s') \<Longrightarrow> keeps s s'"
proof (induction n arbitrary: off s bs rule: less_induct)
  case (less n)
  show ?case
  proof (cases "n = 0")
    case False
    let ?m = "min n (BSIZE - off mod BSIZE)"
    obtain bp s1 d s2 s3 cs where r: "bmap i (off div BSIZE) s = Some (bp, s1)" "get_block (i_dev (icache s1 ! i)) bp s1 = Some (d, s2)"
      "put_block bp s2 = Some s3" "readi_loop i (off + ?m) (n - ?m) s3 = Some (cs, s')"
      using less.prems False by (subst (asm) readi_loop.simps) (auto simp: bind_eq_Some_conv Let_def)
    have "n - ?m < n" using False by (auto simp: BSIZE_def)
    then show ?thesis
      using less.IH r(4) bmap_balance [OF r(1)] block_balance(1) [OF r(2)] block_balance(3) [OF r(3)] by (fastforce simp: becomes_def)
  qed (use less.prems in \<open>simp add: readi_loop.simps [of i off 0]\<close>)
qed

lemma writei_loop_balance [balance]: "writei_loop i src off n s = Some s' \<Longrightarrow> keeps s s'"
proof (induction n arbitrary: src off s rule: less_induct)
  case (less n)
  show ?case
  proof (cases "n = 0")
    case False
    let ?m = "min n (BSIZE - off mod BSIZE)"
    obtain bp s1 d s2 s3 s4 where r: "bmap i (off div BSIZE) s = Some (bp, s1)" "get_block (i_dev (icache s1 ! i)) bp s1 = Some (d, s2)"
      "log_block bp (overlay d (off mod BSIZE) (take ?m src)) s2 = Some s3" "put_block bp s3 = Some s4"
      "writei_loop i (drop ?m src) (off + ?m) (n - ?m) s4 = Some s'"
      using less.prems False by (subst (asm) writei_loop.simps) (auto simp: bind_eq_Some_conv Let_def)
    have "n - ?m < n" using False by (auto simp: BSIZE_def)
    then show ?thesis
      using less.IH r(5) bmap_balance [OF r(1)] block_balance(1) [OF r(2)] block_balance(2) [OF r(3)] block_balance(3) [OF r(4)]
      by (fastforce simp: becomes_def)
  qed (use less.prems in \<open>simp add: writei_loop.simps [of i src off 0]\<close>)
qed

text \<open>What is required of the functions in the device table; \<open>consoleread\<close>, for example, gives the lock of
  its inode up and takes it again.\<close>

definition devices_ok :: "'a fs_scheme devsw list \<Rightarrow> bool" where
  "devices_ok ds \<longleftrightarrow> length ds = NDEV \<and>
     (\<forall>dv \<in> set ds. (\<forall>f i n s r bs s'. dev_read dv = Some f \<longrightarrow> f i n s = Some (r, bs, s') \<longrightarrow> keeps s s') \<and>
        (\<forall>f i bs s r s'. dev_write dv = Some f \<longrightarrow> f i bs s = Some (r, s') \<longrightarrow> keeps s s'))"

lemma device_balance:
  assumes "devices_ok ds" "device ds major = Some dv"
  shows "dev_read dv = Some f \<Longrightarrow> f i n s = Some (r, bs, s') \<Longrightarrow> keeps s s'"
    "dev_write dv = Some g \<Longrightarrow> g i bs s = Some (r, s') \<Longrightarrow> keeps s s'"
proof -
  have "dv \<in> set ds" using assms by (auto simp: device_def devices_ok_def NDEV_def split: if_splits)
  then show "dev_read dv = Some f \<Longrightarrow> f i n s = Some (r, bs, s') \<Longrightarrow> keeps s s'"
    "dev_write dv = Some g \<Longrightarrow> g i bs s = Some (r, s') \<Longrightarrow> keeps s s'"
    using assms(1) unfolding devices_ok_def by blast+
qed

lemma readi_balance [balance]: "devices_ok ds \<Longrightarrow> readi ds i off n s = Some (r, bs, s') \<Longrightarrow> keeps s s'"
  unfolding readi_def Let_def
  by (auto simp: bind_eq_Some_conv split: if_splits option.splits dest: readi_loop_balance device_balance(1))

lemma writei_balance [balance]:
  assumes "devices_ok ds" "writei ds i src off n s = Some (r, s')"
  shows "keeps s s'"
proof (cases "i_type (icache s ! i) = T_DEV")
  case True
  then show ?thesis
    using assms unfolding writei_def Let_def by (auto split: option.splits dest: device_balance(2))
next
  case False
  have S: "keeps t (set_inode i (\<lambda>ip. ip\<lparr>i_size := z\<rparr>) t)" for t :: "'a fs_scheme" and z by (rule set_inode_balance) simp
  have "keeps t u" if "(if 0 < n \<and> i_size (icache t ! i) < off + n then iupdate i (set_inode i (\<lambda>ip. ip\<lparr>i_size := off + n\<rparr>) t) else Some t) = Some u"
    for t u :: "'a fs_scheme" using that S by (auto simp: becomes_def split: if_splits dest!: iupdate_balance)
  note resized = this
  show ?thesis
  proof (cases "i_size (icache s ! i) < off \<or> off + n < off \<or> of_nat (MAXFILE * BSIZE) < off + n")
    case True
    then show ?thesis using assms(2) False by (auto simp: writei_def Let_def split: if_splits)
  next
    case no_error: False
    then obtain t where t: "writei_loop i src (unat off) (unat n) s = Some t"
      "(if 0 < n \<and> i_size (icache t ! i) < off + n then iupdate i (set_inode i (\<lambda>ip. ip\<lparr>i_size := off + n\<rparr>) t) else Some t) = Some s'"
      using assms(2) False by (simp add: writei_def Let_def bind_eq_Some_conv) blast
    then show ?thesis using writei_loop_balance resized keeps_trans by blast
  qed
qed

text \<open>A lookup returns a reference if it finds something.\<close>

definition ref_if :: "bool \<Rightarrow> account \<Rightarrow> account" where
  "ref_if b a = (if b then ref 1 a else a)"

lemma ref_if_simps [simp]: "ref_if True a = ref 1 a" "ref_if False a = a"
  by (simp_all add: ref_if_def)

lemma dirlookup_from_balance [balance]:
  assumes "dirlookup_from ds dp name off s = Some (found, s')"
  shows "devices_ok ds \<longrightarrow> becomes s (ref_if (found \<noteq> None)) s' \<and> (\<forall>i o'. found = Some (i, o') \<longrightarrow> i < a_len (acc s))"
proof -
  have "devices_ok ds \<longrightarrow> becomes s (ref_if (fst y \<noteq> None)) (snd y) \<and> (\<forall>i o'. fst y = Some (i, o') \<longrightarrow> i < a_len (acc s))"
    if "dirlookup_from ds dp name off s = Some y" for ds dp name off s and y :: "(nat \<times> u32) option \<times> 'a fs_scheme"
  proof (rule dirlookup_from.raw_induct [OF _ that], intro impI)
    fix f ds dp name off s y
    assume IH: "\<And>ds dp name off s y. f ds dp name off s = Some y \<Longrightarrow>
        devices_ok ds \<longrightarrow> becomes s (ref_if (fst y \<noteq> None)) (snd y) \<and> (\<forall>i o'. fst y = Some (i, o') \<longrightarrow> i < a_len (acc s))"
      and step: "(if off < i_size (icache s ! dp) then do {
          (r, de, s) \<leftarrow> readi ds dp off 16 s;
          (if r \<noteq> 16 then None
           else if dirent_inum de = 0 then f ds dp name (off + 16) s
           else if namecmp name (dirent_name de) = 0 then do {
             (ip, s) \<leftarrow> iget (i_dev (icache s ! dp)) (ucast (dirent_inum de)) s;
             Some (Some (ip, off), s)
           }
           else f ds dp name (off + 16) s)
        } else Some (None, s)) = Some y" and ds: "devices_ok ds"
    note R = readi_balance [OF ds]
    consider "y = (None, s)" | t where "keeps s t" "f ds dp name (off + 16) t = Some y"
      | t n m where "keeps s t" "iget n m t = Some (fst (the (fst y)), snd y)" "fst y \<noteq> None"
      using step R by (fastforce simp: bind_eq_Some_conv split: if_splits)
    then show "becomes s (ref_if (fst y \<noteq> None)) (snd y) \<and> (\<forall>i o'. fst y = Some (i, o') \<longrightarrow> i < a_len (acc s))"
    proof cases
      case 2
      then show ?thesis using IH [OF 2(2)] ds by (simp add: becomes_def)
    next
      case 3
      then show ?thesis using iget_balance [OF 3(2)] by (auto simp: becomes_def)
    qed (simp add: becomes_def)
  qed
  from this [OF assms] show ?thesis by simp
qed

lemma dirlookup_balance [balance]:
  "devices_ok ds \<Longrightarrow> dirlookup ds dp name s = Some (found, s') \<Longrightarrow>
    becomes s (ref_if (found \<noteq> None)) s' \<and> (\<forall>i o'. found = Some (i, o') \<longrightarrow> i < a_len (acc s))"
  using dirlookup_from_balance [of ds dp name 0 s found s'] by (simp add: dirlookup_def split: if_splits)

lemma empty_dirent_balance [balance]:
  assumes "devices_ok ds" "empty_dirent ds dp off s = Some (o', s')"
  shows "keeps s s'"
proof -
  have "devices_ok ds \<longrightarrow> keeps s (snd y)" if "empty_dirent ds dp off s = Some y" for ds dp off s and y :: "u32 \<times> 'a fs_scheme"
  proof (rule empty_dirent.raw_induct [OF _ that], intro impI)
    fix f ds dp off s y
    assume IH: "\<And>ds dp off s y. f ds dp off s = Some y \<Longrightarrow> devices_ok ds \<longrightarrow> keeps s (snd y)"
      and step: "(if off < i_size (icache s ! dp) then do {
          (r, de, s) \<leftarrow> readi ds dp off 16 s;
          (if r \<noteq> 16 then None else if dirent_inum de = 0 then Some (off, s) else f ds dp (off + 16) s)
        } else Some (off, s)) = Some y" and ds: "devices_ok ds"
    consider "y = (off, s)" | t where "keeps s t" "y = (off, t)" | t where "keeps s t" "f ds dp (off + 16) t = Some y"
      using step readi_balance [OF ds] by (fastforce simp: bind_eq_Some_conv split: if_splits)
    then show "keeps s (snd y)" by cases (use IH ds keeps_trans in \<open>fastforce+\<close>)
  qed
  from this [OF assms(2)] assms(1) show ?thesis by simp
qed

lemma dirlink_balance [balance]:
  assumes ds: "devices_ok ds" and "dirlink me ds dp name inum s = Some (r, s')"
  shows "keeps s s'"
proof -
  obtain found s1 where 1: "dirlookup ds dp name s = Some (found, s1)" using assms(2) by (auto simp: dirlink_def bind_eq_Some_conv)
  note L = dirlookup_balance [OF ds 1]
  show ?thesis
  proof (cases found)
    case None
    then show ?thesis
      using assms(2) 1 L
      by (auto simp: dirlink_def bind_eq_Some_conv becomes_def split: if_splits dest!: empty_dirent_balance [OF ds] writei_balance [OF ds])
  next
    case (Some f)
    obtain i o' where f: "f = (i, o')" by (cases f)
    have "i < a_len (acc s1)" using L Some f by (simp add: becomes_def)
    then show ?thesis
      using assms(2) 1 L Some f by (auto simp: dirlink_def bind_eq_Some_conv becomes_def dest!: iput_balance)
  qed
qed

section \<open>Paths\<close>

text \<open>The walk starts with a reference to its inode, and ends with one to its result or none.\<close>

lemma namex_loop_balance:
  assumes ds: "devices_ok ds" and "namex_loop me ds parent ip path name s = Some (r, name', s')" and "ip < a_len (acc s)"
  shows "acc s' = ref_if (r \<noteq> None) (ref (-1) (acc s)) \<and> fs.more s' = fs.more s \<and> (\<forall>i. r = Some i \<longrightarrow> i < a_len (acc s))"
  using assms(2,3)
proof (induction "length path" arbitrary: path name ip s rule: less_induct)
  case less
  show ?case
  proof (cases "skipelem path name")
    case None
    then show ?thesis
      using less.prems by (subst (asm) (1) namex_loop.simps) (auto simp: bind_eq_Some_conv becomes_def split: if_splits dest!: iput_balance)
  next
    case (Some pn)
    obtain path1 name1 where pn: "skipelem path name = Some (path1, name1)" using Some by (cases pn) auto
    obtain s1 where 1: "ilock me ip s = Some s1" using less.prems(1) pn by (subst (asm) namex_loop.simps) (auto simp: bind_eq_Some_conv)
    note L = ilock_balance [OF 1 less.prems(2)]
    have ip1: "ip < a_len (acc s1)" using L less.prems(2) by (simp add: becomes_def)
    consider (nodir) "i_type (icache s1 ! ip) \<noteq> T_DIR" "iunlockput me ip s1 = Some s'" "r = None"
      | (parent) "iunlock me ip s1 = Some s'" "r = Some ip"
      | (dir) found t u where "dirlookup ds ip name1 s1 = Some (found, t)" "iunlockput me ip t = Some u"
        "(case found of None \<Rightarrow> Some (None, name1, u) | Some (i, _) \<Rightarrow> namex_loop me ds parent i path1 name1 u) = Some (r, name', s')"
      using less.prems(1) pn 1
      by (auto simp: namex_loop.simps [of me ds parent ip path name s] bind_eq_Some_conv split: if_splits)
    then show ?thesis
    proof cases
      case nodir
      then show ?thesis using L iunlockput_balance [OF nodir(2) ip1] by (simp add: becomes_def)
    next
      case parent
      then show ?thesis using L iunlock_balance [OF parent(1) ip1] less.prems(2) by (simp add: becomes_def)
    next
      case dir
      note D = dirlookup_balance [OF ds dir(1)]
      have ipt: "ip < a_len (acc t)" using D ip1 by (cases found) (simp_all add: becomes_def)
      note U = iunlockput_balance [OF dir(2) ipt]
      show ?thesis
      proof (cases found)
        case None
        then show ?thesis using L D U dir(3) by (simp add: becomes_def)
      next
        case (Some f)
        obtain i o' where f: "f = (i, o')" by (cases f)
        have eq: "acc u = acc s" "fs.more u = fs.more s" using L D U Some by (simp_all add: becomes_def)
        have "i < a_len (acc u)" using D L eq Some f by (simp add: becomes_def)
        moreover have "namex_loop me ds parent i path1 name1 u = Some (r, name', s')" using dir(3) Some f by simp
        ultimately show ?thesis using less.hyps [OF skipelem_shorter [OF pn]] eq by metis
      qed
    qed
  qed
qed

lemma namex_balance [balance]:
  assumes "devices_ok ds" "namex me cwd ds path parent name s = Some (r, name', s')" "cwd < a_len (acc s)"
  shows "becomes s (ref_if (r \<noteq> None)) s' \<and> (\<forall>i. r = Some i \<longrightarrow> i < a_len (acc s))"
proof -
  obtain ip t where t: "becomes s (ref 1) t" "ip < a_len (acc s)" "namex_loop me ds parent ip path name t = Some (r, name', s')"
  proof (cases "path \<noteq> [] \<and> hd path = slash")
    case True
    then show ?thesis using assms(2) that by (auto simp: namex_def bind_eq_Some_conv dest!: iget_balance)
  next
    case False
    then show ?thesis
      using assms(2) that [OF conjunct1 [OF idup_balance [OF assms(3)]] assms(3)]
      by (auto simp: namex_def idup_def split: if_splits)
  qed
  have "ip < a_len (acc t)" using t(1,2) by (simp add: becomes_def)
  then show ?thesis using namex_loop_balance [OF assms(1) t(3)] t(1) by (cases r) (auto simp: becomes_def)
qed

lemma namei_balance [balance]:
  "devices_ok ds \<Longrightarrow> namei me cwd ds stack path s = Some (r, s') \<Longrightarrow> cwd < a_len (acc s) \<Longrightarrow>
    becomes s (ref_if (r \<noteq> None)) s' \<and> (\<forall>i. r = Some i \<longrightarrow> i < a_len (acc s))"
  "devices_ok ds \<Longrightarrow> nameiparent me cwd ds path name s = Some (r, name', s') \<Longrightarrow> cwd < a_len (acc s) \<Longrightarrow>
    becomes s (ref_if (r \<noteq> None)) s' \<and> (\<forall>i. r = Some i \<longrightarrow> i < a_len (acc s))"
  unfolding namei_def nameiparent_def using namex_balance by (fastforce simp: bind_eq_Some_conv)+

end
