(* ===== verification/SysfileSafety.thy ===== *)
theory SysfileSafety
  imports Sysfile FsBalance
begin

text \<open>
  What every system call on files gives back, on every path of its code: transactions, buffers, inode
  locks and inode references (the accounts of \<open>FsBalance\<close>), and the reference counts of open files.
\<close>

section \<open>The state around the file system\<close>

lemma more_eqs:
  fixes s s' :: "'a ksys_scheme"
  assumes "fs.more s' = fs.more s"
  shows "ftable s' = ftable s" "pipes s' = pipes s" "pages s' = pages s" "wakeups s' = wakeups s" "up s' = up s" "um s' = um s"
  using assms by (cases s; cases s'; simp)+

lemma more_ftable:
  fixes s s' :: "'a kern_scheme"
  assumes "fs.more s' = fs.more s"
  shows "ftable s' = ftable s" "kern.more s' = kern.more s"
  using assms by (cases s; cases s'; simp)+

lemma acc_kern [simp]:
  "acc (set_file i f s) = acc s" "acc (set_pipe p w q s) = acc s" "acc (s\<lparr>pages := ps\<rparr>) = acc s" "acc (set_fd fd g t) = acc t"
  "acc (t\<lparr>um := m\<rparr>) = acc t" "acc (t\<lparr>up := cp\<rparr>) = acc t"
  by (simp_all add: acc_def set_file_def set_pipe_def set_fd_def)

lemma ftable_kern [simp]:
  "ftable (set_file i f s) = (ftable s)[i := f (ftable s ! i)]" "ftable (set_pipe p w q s) = ftable s" "ftable (s\<lparr>pages := ps\<rparr>) = ftable s"
  "ftable (set_fd fd g t) = ftable t" "kern.more (set_file i f s) = kern.more s" "kern.more (set_pipe p w q s) = kern.more s"
  "up (set_file i f t) = up t" "up (set_pipe p w q t) = up t" "up (set_fd fd g t) = (up t)\<lparr>ofile := (ofile (up t))[fd := g]\<rparr>"
  "length (icache (set_file i f s)) = length (icache s)"
  by (simp_all add: set_file_def set_pipe_def set_fd_def)

lemma tx_balance:
  "begin_tx s = Some s' \<Longrightarrow> becomes s (tx 1) s'" "becomes s (tx (-1)) (end_tx s)"
  by (auto simp: begin_tx_def end_tx_def becomes_def tx_def acc_sel Let_def split: if_splits)

section \<open>Open files\<close>

definition inode_files :: "kfile list \<Rightarrow> int" where
  "inode_files ft = sum_list (map (\<lambda>f. if f_type f = FD_INODE then 1 else 0) ft)"

lemma inode_files_update:
  "i < length ft \<Longrightarrow> inode_files (ft[i := f]) =
     inode_files ft - (if f_type (ft ! i) = FD_INODE then 1 else 0) + (if f_type f = FD_INODE then 1 else 0)"
  by (simp add: inode_files_def sum_update)

text \<open>The references that are not held by open files.\<close>

definition net :: "'a kern_scheme \<Rightarrow> account" where
  "net s = ref (- inode_files (ftable s)) (acc s)"

text \<open>A well-formed file table, seen from a process with descriptors \<open>fds\<close>: \<open>others i\<close> references to file \<open>i\<close> are held
  elsewhere.\<close>

definition files_ok :: "(nat \<Rightarrow> int) \<Rightarrow> nat option list \<Rightarrow> nat \<Rightarrow> kfile list \<Rightarrow> bool" where
  "files_ok others fds n ft \<longleftrightarrow> length fds = NOFILE \<and> (\<forall>f. Some f \<in> set fds \<longrightarrow> f < length ft) \<and>
     (\<forall>i < length ft. 0 \<le> others i \<and> f_ref (ft ! i) = int (count_list fds (Some i)) + others i \<and>
        (f_ref (ft ! i) = 0 \<longrightarrow> f_type (ft ! i) = FD_NONE) \<and> (f_type (ft ! i) = FD_INODE \<longrightarrow> f_ip (ft ! i) < n))"

definition sys_ok :: "(nat \<Rightarrow> int) \<Rightarrow> 'a ksys_scheme \<Rightarrow> bool" where
  "sys_ok others s \<longleftrightarrow> files_ok others (ofile (up s)) (a_len (acc s)) (ftable s) \<and> (\<exists>c. cwd (up s) = Some c \<and> c < a_len (acc s))"

lemma fileclose_balance:
  fixes s :: "'a kern_scheme"
  assumes c: "fileclose me i s = Some s'" and i: "i < length (ftable s)"
    and ip: "f_type (ftable s ! i) = FD_INODE \<Longrightarrow> f_ip (ftable s ! i) < a_len (acc s)"
  shows "ftable s' = (ftable s)[i := if f_ref (ftable s ! i) = 1 then (ftable s ! i)\<lparr>f_ref := 0, f_type := FD_NONE\<rparr>
      else (ftable s ! i)\<lparr>f_ref := f_ref (ftable s ! i) - 1\<rparr>]"
    "kern.more s' = kern.more s" "net s' = net s" "1 \<le> f_ref (ftable s ! i)" "a_len (acc s') = a_len (acc s)"
proof -
  let ?f = "ftable s ! i"
  show r: "1 \<le> f_ref ?f" using c by (auto simp: fileclose_def split: if_splits)
  define s1 where "s1 = set_file i (\<lambda>f. f\<lparr>f_ref := f_ref f - 1\<rparr>) s"
  have s1: "ftable s1 = (ftable s)[i := ?f\<lparr>f_ref := f_ref ?f - 1\<rparr>]" "kern.more s1 = kern.more s" "acc s1 = acc s" by (simp_all add: s1_def)
  have "ftable s' = (ftable s)[i := if f_ref ?f = 1 then ?f\<lparr>f_ref := 0, f_type := FD_NONE\<rparr> else ?f\<lparr>f_ref := f_ref ?f - 1\<rparr>] \<and>
    kern.more s' = kern.more s \<and> net s' = net s \<and> a_len (acc s') = a_len (acc s)"
  proof (cases "f_ref ?f = 1")
    case False
    then have "s' = s1" using c r i s1 by (simp add: fileclose_def s1_def Let_def)
    then show ?thesis using s1 False i by (simp add: net_def inode_files_update)
  next
    case True
    define s2 where "s2 = set_file i (\<lambda>f. f\<lparr>f_ref := 0, f_type := FD_NONE\<rparr>) s1"
    have s2: "ftable s2 = (ftable s)[i := ?f\<lparr>f_ref := 0, f_type := FD_NONE\<rparr>]" "kern.more s2 = kern.more s" "acc s2 = acc s"
      using s1 i by (simp_all add: s2_def)
    have "s' = s2 \<and> f_type ?f = FD_NONE \<or>
      (f_type ?f = FD_PIPE \<and> ftable s' = ftable s2 \<and> kern.more s' = kern.more s2 \<and> acc s' = acc s2) \<or>
      (f_type ?f = FD_INODE \<and> (\<exists>t u. begin_tx s2 = Some t \<and> iput me (f_ip ?f) t = Some u \<and> s' = end_tx u))"
      using c r i s1 True
      by (auto simp: fileclose_def s1_def [symmetric] s2_def [symmetric] Let_def bind_eq_Some_conv split: filetype.splits prod.splits)
    then consider (none) "s' = s2" "f_type ?f \<noteq> FD_INODE" | (pipe) "f_type ?f \<noteq> FD_INODE" "ftable s' = ftable s2" "kern.more s' = kern.more s2" "acc s' = acc s2"
      | (inode) t u where "f_type ?f = FD_INODE" "begin_tx s2 = Some t" "iput me (f_ip ?f) t = Some u" "s' = end_tx u" by auto
    then show ?thesis
    proof cases
      case inode
      note B = tx_balance(1) [OF inode(2)] and E = tx_balance(2) [of u]
      have "f_ip ?f < a_len (acc t)" using B s2(3) ip [OF inode(1)] by (simp add: becomes_def)
      note P = iput_balance [OF inode(3) this]
      have m: "fs.more s' = fs.more s2" "acc s' = ref (-1) (acc s)" using B P E inode(4) s2(3) by (simp_all add: becomes_def)
      then show ?thesis using more_ftable [OF m(1)] s2 inode(1) True i by (simp add: net_def inode_files_update)
    qed (use s2 True i in \<open>simp_all add: net_def inode_files_update\<close>)
  qed
  then show "ftable s' = (ftable s)[i := if f_ref ?f = 1 then ?f\<lparr>f_ref := 0, f_type := FD_NONE\<rparr> else ?f\<lparr>f_ref := f_ref ?f - 1\<rparr>]"
    "kern.more s' = kern.more s" "net s' = net s" "a_len (acc s') = a_len (acc s)" by blast+
qed

lemma filealloc_balance:
  assumes "filealloc s = (f, s')"
  shows "acc s' = acc s" "kern.more s' = kern.more s" "f = None \<Longrightarrow> s' = s"
    "f = Some i \<Longrightarrow> i < length (ftable s) \<and> f_ref (ftable s ! i) = 0 \<and> ftable s' = (ftable s)[i := (ftable s ! i)\<lparr>f_ref := 1\<rparr>]"
  using assms by (auto simp: filealloc_def split: option.splits dest: find_first_SomeD)

section \<open>Descriptors\<close>

lemma count_list_update:
  "i < length xs \<Longrightarrow> int (count_list (xs[i := y]) z) = int (count_list xs z) - (if xs ! i = z then 1 else 0) + (if y = z then 1 else 0)"
proof (induction xs arbitrary: i)
  case (Cons x xs)
  show ?case
  proof (cases i)
    case (Suc k)
    then have "k < length xs" using Cons.prems by simp
    from Cons.IH [OF this] show ?thesis by (auto simp: Suc split: if_splits)
  qed simp
qed simp

lemma files_okD:
  assumes "files_ok others fds n ft"
  shows "length fds = NOFILE" "Some f \<in> set fds \<Longrightarrow> f < length ft" "i < length ft \<Longrightarrow> 0 \<le> others i"
    "i < length ft \<Longrightarrow> f_ref (ft ! i) = int (count_list fds (Some i)) + others i"
    "i < length ft \<Longrightarrow> f_ref (ft ! i) = 0 \<Longrightarrow> f_type (ft ! i) = FD_NONE"
    "i < length ft \<Longrightarrow> f_type (ft ! i) = FD_INODE \<Longrightarrow> f_ip (ft ! i) < n"
  using assms unfolding files_ok_def by blast+

lemma files_ok_entry:
  assumes ok: "files_ok others fds n ft" and i: "i < length ft" and len: "length fds' = length fds"
    and sub: "\<And>f. Some f \<in> set fds' \<Longrightarrow> f = i \<or> Some f \<in> set fds"
    and others: "\<And>j. j \<noteq> i \<Longrightarrow> count_list fds' (Some j) = count_list fds (Some j)"
    and g: "f_ref g = int (count_list fds' (Some i)) + others i" "f_ref g = 0 \<Longrightarrow> f_type g = FD_NONE"
      "f_type g = FD_INODE \<Longrightarrow> f_ip g < n"
  shows "files_ok others fds' n (ft[i := g])"
proof -
  note F = files_okD [OF ok]
  have "0 \<le> others j \<and> f_ref (ft[i := g] ! j) = int (count_list fds' (Some j)) + others j \<and>
      (f_ref (ft[i := g] ! j) = 0 \<longrightarrow> f_type (ft[i := g] ! j) = FD_NONE) \<and>
      (f_type (ft[i := g] ! j) = FD_INODE \<longrightarrow> f_ip (ft[i := g] ! j) < n)" if "j < length ft" for j
    using F(3-6) [OF that] others [of j] g that by (cases "j = i") auto
  then show ?thesis using F(1,2) len sub i by (auto simp: files_ok_def)
qed

text \<open>One more, or one less, descriptor for a file.\<close>

lemma files_ok_open:
  assumes ok: "files_ok others fds n ft" and i: "i < length ft" and fd: "fd < length fds" "fds ! fd = None"
    and g: "f_ref g = f_ref (ft ! i) + 1" "f_type g = FD_INODE \<Longrightarrow> f_ip g < n"
  shows "files_ok others (fds[fd := Some i]) n (ft[i := g])"
proof (rule files_ok_entry [OF ok i])
  have c: "int (count_list (fds[fd := Some i]) (Some j)) = int (count_list fds (Some j)) + (if j = i then 1 else 0)" for j
    using count_list_update [OF fd(1), of "Some i" "Some j"] fd(2) by auto
  show "count_list (fds[fd := Some i]) (Some j) = count_list fds (Some j)" if "j \<noteq> i" for j using c [of j] that by simp
  show r: "f_ref g = int (count_list (fds[fd := Some i]) (Some i)) + others i" using c [of i] g(1) files_okD(4) [OF ok i] by simp
  show "f_type g = FD_NONE" if "f_ref g = 0" using r c [of i] that files_okD(3) [OF ok i] by simp
  show "f_ip g < n" if "f_type g = FD_INODE" using that by (rule g(2))
  fix f assume "Some f \<in> set (fds[fd := Some i])"
  then show "f = i \<or> Some f \<in> set fds" using set_update_subset_insert [of fds fd "Some i"] by auto
qed simp

lemma files_ok_close:
  assumes ok: "files_ok others fds n ft" and fd: "fd < length fds" "fds ! fd = Some i"
    and g: "f_ref g = f_ref (ft ! i) - 1" "f_ref g = 0 \<Longrightarrow> f_type g = FD_NONE" "f_type g = FD_INODE \<Longrightarrow> f_type (ft ! i) = FD_INODE \<and> f_ip g = f_ip (ft ! i)"
  shows "files_ok others (fds[fd := None]) n (ft[i := g])"
proof (rule files_ok_entry [OF ok])
  have "Some i \<in> set fds" using fd by (metis nth_mem)
  then show i: "i < length ft" using files_okD(2) [OF ok] by blast
  have c: "int (count_list (fds[fd := None]) (Some j)) = int (count_list fds (Some j)) - (if j = i then 1 else 0)" for j
    using count_list_update [OF fd(1), of None "Some j"] fd(2) by auto
  show "count_list (fds[fd := None]) (Some j) = count_list fds (Some j)" if "j \<noteq> i" for j using c [of j] that by simp
  show "f_ref g = int (count_list (fds[fd := None]) (Some i)) + others i" using c [of i] g(1) files_okD(4) [OF ok i] by simp
  show "f_type g = FD_NONE" if "f_ref g = 0" using that by (rule g(2))
  show "f_ip g < n" if "f_type g = FD_INODE" using g(3) [OF that] files_okD(6) [OF ok i] by simp
  fix f assume "Some f \<in> set (fds[fd := None])"
  then show "f = i \<or> Some f \<in> set fds" using set_update_subset_insert [of fds fd None] by auto
qed simp

lemma fdalloc_cases:
  assumes "fdalloc f s = (fd, s')"
  obtains (full) "fd = -1" "s' = s" | (new) k where "fd = int k" "k < length (ofile (up s))" "ofile (up s) ! k = None" "s' = set_fd k (Some f) s"
proof (cases "find_first (\<lambda>x. x = None) (ofile (up s))")
  case None
  then show ?thesis using assms full by (simp add: fdalloc_def)
next
  case (Some k)
  then show ?thesis using assms new [of k] find_first_SomeD [OF Some] by (simp add: fdalloc_def)
qed

lemma argfd_Some:
  assumes "argfd n s = Some (fd, f)" "length (ofile (up s)) = NOFILE"
  shows "fd < length (ofile (up s))" "ofile (up s) ! fd = Some f" "Some f \<in> set (ofile (up s))"
proof -
  obtain v :: u32 where v: "fd = nat (sint v)" "\<not> (sint v < 0 \<or> int NOFILE \<le> sint v)" "ofile (up s) ! nat (sint v) = Some f"
    using assms(1) by (auto simp: argfd_def bind_eq_Some_conv Let_def split: if_splits)
  then show "fd < length (ofile (up s))" "ofile (up s) ! fd = Some f" using assms(2) by (simp_all add: nat_less_iff)
  then show "Some f \<in> set (ofile (up s))" by (metis nth_mem)
qed

section \<open>The calls on descriptors\<close>

definition balanced :: "(nat \<Rightarrow> int) \<Rightarrow> 'a ksys_scheme \<Rightarrow> 'a ksys_scheme \<Rightarrow> bool" where
  "balanced others s s' \<longleftrightarrow> net s' = net s \<and> sys_ok others s'"

lemma keeps_balanced:
  fixes s s' :: "'a ksys_scheme"
  assumes "keeps s s'" "sys_ok others s"
  shows "balanced others s s'"
  using assms more_eqs [of s' s] by (simp add: balanced_def net_def sys_ok_def becomes_def)

lemma sys_dup_balanced:
  assumes ok: "sys_ok others s" and c: "sys_dup s = Some (r, s')"
  shows "balanced others s s'"
proof (cases "argfd 0 s")
  case None
  then show ?thesis using c ok by (simp add: sys_dup_def balanced_def)
next
  case (Some a)
  obtain fd f where a: "argfd 0 s = Some (fd, f)" using Some by (cases a) auto
  have F: "files_ok others (ofile (up s)) (a_len (acc s)) (ftable s)" using ok by (simp add: sys_ok_def)
  note A = argfd_Some [OF a files_okD(1) [OF F]]
  have f: "f < length (ftable s)" using files_okD(2) [OF F A(3)] .
  obtain fd' s1 where s1: "fdalloc f s = (fd', s1)" by (cases "fdalloc f s")
  from s1 show ?thesis
  proof (cases rule: fdalloc_cases)
    case full
    then show ?thesis using c a s1 ok by (simp add: sys_dup_def balanced_def)
  next
    case (new k)
    let ?g = "(ftable s ! f)\<lparr>f_ref := f_ref (ftable s ! f) + 1\<rparr>"
    have s': "s' = set_file f (\<lambda>f. f\<lparr>f_ref := f_ref f + 1\<rparr>) (set_fd k (Some f) s)"
      using c a s1 new by (auto simp: sys_dup_def filedup_def bind_eq_Some_conv split: if_splits)
    have "files_ok others ((ofile (up s))[k := Some f]) (a_len (acc s)) ((ftable s)[f := ?g])"
      by (rule files_ok_open [OF F f new(2,3)]) (use files_okD(6) [OF F f] in simp_all)
    then show ?thesis
      using ok f by (auto simp: s' balanced_def sys_ok_def net_def inode_files_update)
  qed
qed

lemma sys_close_balanced:
  assumes ok: "sys_ok others s" and c: "sys_close s = Some (r, s')"
  shows "balanced others s s'"
proof (cases "argfd 0 s")
  case None
  then show ?thesis using c ok by (simp add: sys_close_def balanced_def)
next
  case (Some a)
  obtain fd f where a: "argfd 0 s = Some (fd, f)" using Some by (cases a) auto
  have F: "files_ok others (ofile (up s)) (a_len (acc s)) (ftable s)" using ok by (simp add: sys_ok_def)
  note A = argfd_Some [OF a files_okD(1) [OF F]]
  have f: "f < length (ftable s)" using files_okD(2) [OF F A(3)] .
  let ?t = "set_fd fd None s"
  have cl: "fileclose (self s) f ?t = Some s'" using c a by (auto simp: sys_close_def bind_eq_Some_conv set_fd_def)
  have ip: "f_type (ftable ?t ! f) = FD_INODE \<Longrightarrow> f_ip (ftable ?t ! f) < a_len (acc ?t)" using files_okD(6) [OF F f] by simp
  note C = fileclose_balance [OF cl _ ip]
  have ft: "f < length (ftable ?t)" using f by simp
  note C = C [OF ft]
  have m: "up s' = (up s)\<lparr>ofile := (ofile (up s))[fd := None]\<rparr>"
    using C(2) by (cases s'; cases s) (simp add: set_fd_def)
  let ?f = "ftable s ! f"
  let ?g = "if f_ref ?f = 1 then ?f\<lparr>f_ref := 0, f_type := FD_NONE\<rparr> else ?f\<lparr>f_ref := f_ref ?f - 1\<rparr>"
  have "files_ok others ((ofile (up s))[fd := None]) (a_len (acc s)) ((ftable s)[f := ?g])"
    by (rule files_ok_close [OF F A(1,2)]) (simp_all split: if_splits)
  then show ?thesis
    using ok C(1,3,5) m by (auto simp: balanced_def sys_ok_def net_def)
qed

text \<open>Reading and writing change at most the offset of the file.\<close>

definition moved :: "nat \<Rightarrow> 'a kern_scheme \<Rightarrow> 'a kern_scheme \<Rightarrow> bool" where
  "moved i s s' \<longleftrightarrow> acc s' = acc s \<and> kern.more s' = kern.more s \<and> (\<exists>o'. ftable s' = (ftable s)[i := (ftable s ! i)\<lparr>f_off := o'\<rparr>])"

lemma moved_same:
  assumes "acc s' = acc s" "kern.more s' = kern.more s" "ftable s' = ftable s"
  shows "moved i s s'"
proof -
  have "(ftable s)[i := (ftable s ! i)\<lparr>f_off := f_off (ftable s ! i)\<rparr>] = ftable s" by simp
  then show ?thesis using assms by (metis moved_def)
qed

lemma moved_trans: "moved i s t \<Longrightarrow> moved i t u \<Longrightarrow> moved i s u"
proof -
  assume a: "moved i s t" "moved i t u"
  obtain o1 o2 where "ftable t = (ftable s)[i := (ftable s ! i)\<lparr>f_off := o1\<rparr>]" "ftable u = (ftable t)[i := (ftable t ! i)\<lparr>f_off := o2\<rparr>]"
    using a by (auto simp: moved_def)
  then have "ftable u = (ftable s)[i := (ftable s ! i)\<lparr>f_off := o2\<rparr>]"
    by (cases "i < length (ftable s)") (simp_all add: list_update_beyond)
  then show ?thesis using a by (auto simp: moved_def)
qed

lemma keeps_moved: "keeps s t \<Longrightarrow> moved i s t"
  using more_ftable [of t s] by (intro moved_same) (simp_all add: becomes_def)

lemma moved_balanced:
  fixes s s' :: "'a ksys_scheme"
  assumes "moved i s s'" "sys_ok others s" "i < length (ftable s)"
  shows "balanced others s s'"
proof -
  obtain o' where o': "ftable s' = (ftable s)[i := (ftable s ! i)\<lparr>f_off := o'\<rparr>]" using assms(1) by (auto simp: moved_def)
  have m: "acc s' = acc s" "up s' = up s" using assms(1) by (cases s; cases s'; simp add: moved_def)+
  have F: "files_ok others (ofile (up s)) (a_len (acc s)) (ftable s)" using assms(2) by (simp add: sys_ok_def)
  have "files_ok others (ofile (up s)) (a_len (acc s)) ((ftable s)[i := (ftable s ! i)\<lparr>f_off := o'\<rparr>])"
    by (rule files_ok_entry [OF F assms(3)]) (use files_okD(4-6) [OF F assms(3)] in simp_all)
  then show ?thesis using assms(2,3) m o' by (simp add: balanced_def sys_ok_def net_def inode_files_update)
qed

text \<open>The part of a read or a write between \<open>ilock\<close> and \<open>iunlock\<close>.\<close>

lemma locked_part:
  fixes s :: "'a kern_scheme"
  assumes "ilock me ip s = Some t" "keeps t u" "iunlock me ip (if c then set_file i (\<lambda>f. f\<lparr>f_off := f_off f + d\<rparr>) u else u) = Some s'"
    and "ip < a_len (acc s)"
  shows "moved i s s'"
proof -
  let ?v = "if c then set_file i (\<lambda>f. f\<lparr>f_off := f_off f + d\<rparr>) u else u"
  note L = ilock_balance [OF assms(1,4)]
  have v: "acc ?v = acc u" "kern.more ?v = kern.more u"
    "\<exists>o'. ftable ?v = (ftable u)[i := (ftable u ! i)\<lparr>f_off := o'\<rparr>]"
    using moved_same [of u u i] by (auto simp: moved_def)
  have tu: "acc u = acc t" "fs.more u = fs.more t" using assms(2) by (simp_all add: becomes_def)
  have st: "acc t = lock ip (acc s)" "ip \<notin> a_locked (acc s)" "fs.more t = fs.more s" using L by (simp_all add: becomes_def)
  have "ip < a_len (acc ?v)" using v(1) tu(1) st(1) assms(4) by simp
  note U = iunlock_balance [OF assms(3) this]
  have "acc s' = acc s" using U v(1) tu(1) st(1,2) by (simp add: becomes_def)
  moreover have "fs.more u = fs.more s" using tu(2) st(3) by simp
  note E = more_ftable [OF this]
  moreover have "fs.more s' = fs.more ?v" using U by (simp add: becomes_def)
  note W = more_ftable [OF this]
  ultimately show ?thesis using v(2,3) E W by (simp add: moved_def)
qed

lemma fileread_moved:
  assumes ds: "devices_ok ds" and r: "fileread me ds k i n s = Some (r, bs, s')"
    and ip: "f_type (ftable s ! i) = FD_INODE \<Longrightarrow> f_ip (ftable s ! i) < a_len (acc s)"
  shows "moved i s s'"
proof (cases "f_readable (ftable s ! i)")
  case False
  then show ?thesis using r moved_same [of s s] by (simp add: fileread_def)
next
  case True
  show ?thesis
  proof (cases "f_type (ftable s ! i)")
    case FD_NONE
    then show ?thesis using r True by (simp add: fileread_def)
  next
    case FD_PIPE
    then obtain w q where "s' = set_pipe (f_pipe (ftable s ! i)) w q s"
      using r True by (auto simp: fileread_def Let_def split: prod.splits read_result.splits)
    then show ?thesis by (intro moved_same) simp_all
  next
    case FD_INODE
    let ?ip = "f_ip (ftable s ! i)"
    define off where "off = f_off (ftable s ! i)"
    have run: "do {
        s \<leftarrow> ilock me ?ip s;
        (r, bs, s) \<leftarrow> readi ds ?ip off (of_int n) s;
        s \<leftarrow> iunlock me ?ip (if 0 < r then set_file i (\<lambda>f. f\<lparr>f_off := f_off f + of_int r\<rparr>) s else s);
        Some (r, bs, s)
      } = Some (r, bs, s')"
      using r True FD_INODE by (simp add: fileread_def Let_def off_def)
    obtain t where t: "ilock me ?ip s = Some t" using run by (cases "ilock me ?ip s") simp_all
    obtain x bs1 u where u: "readi ds ?ip off (of_int n) t = Some (x, bs1, u)"
      using run t by (cases "readi ds ?ip off (of_int n) t") auto
    have "iunlock me ?ip (if 0 < x then set_file i (\<lambda>f. f\<lparr>f_off := f_off f + of_int x\<rparr>) u else u) = Some s'"
      using run t u by (cases "0 < x") (auto simp: bind_eq_Some_conv)
    then show ?thesis by (rule locked_part [OF t readi_balance [OF ds u] _ ip [OF FD_INODE]])
  qed
qed

lemma tx_moved:
  assumes "begin_tx s = Some t" "moved i t u"
  shows "moved i s (end_tx u)"
proof -
  note B = tx_balance(1) [OF assms(1)] and E = tx_balance(2) [of u]
  have m: "fs.more t = fs.more s" "fs.more (end_tx u) = fs.more u" using B E by (simp_all add: becomes_def)
  note M = more_ftable [OF m(1)] more_ftable [OF m(2)]
  have "acc (end_tx u) = acc s" using B E assms(2) by (simp add: becomes_def moved_def)
  then show ?thesis using assms(2) M by (simp add: moved_def)
qed

lemma filewrite_loop_moved:
  assumes "devices_ok ds" "filewrite_loop me ds i src n k s = Some (r, s')"
    and "f_ip (ftable s ! i) < a_len (acc s)"
  shows "moved i s s'"
  using assms
proof (induction me ds i src n k s arbitrary: r rule: filewrite_loop.induct)
  case (1 me ds i src n k s)
  show ?case
  proof (cases "k < n")
    case False
    then show ?thesis using "1.prems"(2) moved_same [of s s] by (simp add: filewrite_loop.simps [of me ds i src n k s])
  next
    case True
    let ?ip = "f_ip (ftable s ! i)" and ?n1 = "if max_write < n - k then max_write else n - k"
    obtain s1 s2 x s3 s4 where st: "begin_tx s = Some s1" "ilock me ?ip s1 = Some s2"
      "writei ds ?ip (drop (nat k) src) (f_off (ftable s2 ! i)) (of_int ?n1) s2 = Some (x, s3)"
      "iunlock me ?ip (if 0 < x then set_file i (\<lambda>f. f\<lparr>f_off := f_off f + of_int x\<rparr>) s3 else s3) = Some s4"
      "(if x < 0 then Some (k, end_tx s4) else if x \<noteq> ?n1 then None else filewrite_loop me ds i src n (k + x) (end_tx s4)) = Some (r, s')"
      using "1.prems"(2) True by (auto simp: filewrite_loop.simps [of me ds i src n k s] bind_eq_Some_conv Let_def)
    have "?ip < a_len (acc s1)" using tx_balance(1) [OF st(1)] "1.prems"(3) by (simp add: becomes_def)
    then have "moved i s1 s4" by (rule locked_part [OF st(2) writei_balance [OF "1.prems"(1) st(3)] st(4)])
    then have m: "moved i s (end_tx s4)" by (rule tx_moved [OF st(1)])
    show ?thesis
    proof (cases "x < 0")
      case True
      then show ?thesis using st(5) m by simp
    next
      case False
      then have x: "x = ?n1" "filewrite_loop me ds i src n (k + x) (end_tx s4) = Some (r, s')" using st(5) by (simp_all split: if_splits)
      have "f_ip (ftable (end_tx s4) ! i) < a_len (acc (end_tx s4))"
        using m "1.prems"(3) by (cases "i < length (ftable s)") (auto simp: moved_def list_update_beyond)
      then have "moved i (end_tx s4) s'"
        using "1.IH" [OF True refl refl st(1) st(2) st(3)] "1.prems"(1) x False st(4) by simp
      then show ?thesis by (rule moved_trans [OF m])
    qed
  qed
qed

lemma filewrite_moved:
  assumes ds: "devices_ok ds" and w: "filewrite me ds k i src n s = Some (r, s')"
    and ip: "f_type (ftable s ! i) = FD_INODE \<Longrightarrow> f_ip (ftable s ! i) < a_len (acc s)"
  shows "moved i s s'"
proof (cases "f_writable (ftable s ! i)")
  case False
  then show ?thesis using w moved_same [of s s] by (simp add: filewrite_def)
next
  case True
  show ?thesis
  proof (cases "f_type (ftable s ! i)")
    case FD_NONE
    then show ?thesis using w True by (simp add: filewrite_def)
  next
    case FD_PIPE
    then obtain c q where "s' = set_pipe (f_pipe (ftable s ! i)) c q s"
      using w True by (auto simp: filewrite_def Let_def split: prod.splits write_result.splits)
    then show ?thesis by (intro moved_same) simp_all
  next
    case FD_INODE
    then obtain x where "filewrite_loop me ds i src n 0 s = Some (x, s')"
      using w True by (auto simp: filewrite_def bind_eq_Some_conv Let_def)
    then show ?thesis using filewrite_loop_moved [OF ds] ip [OF FD_INODE] by metis
  qed
qed

lemma balanced_um: "balanced others s s' \<Longrightarrow> balanced others s (s'\<lparr>um := m\<rparr>)"
  by (simp add: balanced_def sys_ok_def net_def)

text \<open>A descriptor argument names a file whose inode is in the cache.\<close>

lemma fd_file:
  assumes "sys_ok others s" "argfd n s = Some (fd, f)"
  shows "f < length (ftable s)" "f_type (ftable s ! f) = FD_INODE \<Longrightarrow> f_ip (ftable s ! f) < a_len (acc s)"
proof -
  have F: "files_ok others (ofile (up s)) (a_len (acc s)) (ftable s)" using assms(1) by (simp add: sys_ok_def)
  show f: "f < length (ftable s)"
    using files_okD(2) [OF F argfd_Some(3) [OF assms(2) files_okD(1) [OF F]]] .
  show "f_type (ftable s ! f) = FD_INODE \<Longrightarrow> f_ip (ftable s ! f) < a_len (acc s)" by (rule files_okD(6) [OF F f])
qed

lemma sys_read_balanced:
  assumes ok: "sys_ok others s" and ds: "devices_ok ds" and c: "sys_read ds s = Some (r, s')"
  shows "balanced others s s'"
proof (cases "do { (_, f) \<leftarrow> argfd 0 s; n \<leftarrow> int_arg 2 s; p \<leftarrow> ptr_arg 1 (sint n) s; Some (f, sint n, p) }")
  case None
  then show ?thesis using c ok by (simp add: sys_read_def balanced_def)
next
  case (Some a)
  then obtain fd f n p where a: "argfd 0 s = Some (fd, f)" "a = (f, n, p)" by (auto simp: bind_eq_Some_conv)
  obtain bs t where t: "fileread (self s) ds (killed (up s)) f n s = Some (r, bs, t)" "s' = t\<lparr>um := store_bytes (um t) p bs\<rparr>"
    using c Some a(2) by (auto simp: sys_read_def bind_eq_Some_conv)
  note F = fd_file [OF ok a(1)]
  show ?thesis unfolding t(2)
    by (rule balanced_um, rule moved_balanced [OF fileread_moved [OF ds t(1) F(2)] ok F(1)])
qed

lemma sys_write_balanced:
  assumes ok: "sys_ok others s" and ds: "devices_ok ds" and c: "sys_write ds s = Some (r, s')"
  shows "balanced others s s'"
proof (cases "do { (_, f) \<leftarrow> argfd 0 s; n \<leftarrow> int_arg 2 s; p \<leftarrow> ptr_arg 1 (sint n) s; Some (f, sint n, p) }")
  case None
  then show ?thesis using c ok by (simp add: sys_write_def balanced_def)
next
  case (Some a)
  then obtain fd f n p where a: "argfd 0 s = Some (fd, f)" "a = (f, n, p)" by (auto simp: bind_eq_Some_conv)
  have w: "filewrite (self s) ds (killed (up s)) f (load_bytes (um s) p (nat n)) n s = Some (r, s')"
    using c Some a(2) by (simp add: sys_write_def)
  note F = fd_file [OF ok a(1)]
  show ?thesis by (rule moved_balanced [OF filewrite_moved [OF ds w F(2)] ok F(1)])
qed

lemma sys_fstat_balanced:
  assumes ok: "sys_ok others s" and c: "sys_fstat s = Some (r, s')"
  shows "balanced others s s'"
proof (cases "do { (_, f) \<leftarrow> argfd 0 s; p \<leftarrow> ptr_arg 1 20 s; Some (f, p) }")
  case None
  then show ?thesis using c ok by (simp add: sys_fstat_def balanced_def)
next
  case (Some a)
  then obtain fd f p where a: "argfd 0 s = Some (fd, f)" "a = (f, p)" by (auto simp: bind_eq_Some_conv)
  obtain st t where t: "filestat (self s) f s = Some (r, st, t)" "s' = (case st of None \<Rightarrow> t | Some st \<Rightarrow> t\<lparr>um := store_stat (um t) p st\<rparr>)"
    using c Some a(2) by (auto simp: sys_fstat_def bind_eq_Some_conv)
  note F = fd_file [OF ok a(1)]
  have "keeps s t"
  proof (cases "f_type (ftable s ! f) = FD_INODE")
    case False
    then show ?thesis using t(1) by (simp add: filestat_def)
  next
    case True
    then obtain u where u: "ilock (self s) (f_ip (ftable s ! f)) s = Some u" "iunlock (self s) (f_ip (ftable s ! f)) u = Some t"
      using t(1) by (auto simp: filestat_def bind_eq_Some_conv Let_def)
    note L = ilock_balance [OF u(1) F(2) [OF True]]
    have "f_ip (ftable s ! f) < a_len (acc u)" using L F(2) [OF True] by (simp add: becomes_def)
    then show ?thesis using L iunlock_balance [OF u(2)] by (simp add: becomes_def)
  qed
  then have "balanced others s t" by (rule keeps_balanced [OF _ ok])
  then show ?thesis using t(2) balanced_um by (auto split: option.split)
qed

section \<open>The calls on paths\<close>

text \<open>Rules that follow the code of a call: \<open>returns P m\<close> says that a result of \<open>m\<close> satisfies \<open>P\<close>.\<close>

definition returns :: "('r \<Rightarrow> bool) \<Rightarrow> 'r option \<Rightarrow> bool" where
  "returns P m \<longleftrightarrow> (\<forall>x. m = Some x \<longrightarrow> P x)"

named_theorems wp

lemma returns_code [wp]:
  "P x \<Longrightarrow> returns P (Some x)"
  "returns P None"
  "(c \<Longrightarrow> returns P a) \<Longrightarrow> (\<not> c \<Longrightarrow> returns P b) \<Longrightarrow> returns P (if c then a else b)"
  "(c \<Longrightarrow> returns P (a' \<bind> k)) \<Longrightarrow> (\<not> c \<Longrightarrow> returns P (b' \<bind> k)) \<Longrightarrow> returns P ((if c then a' else b') \<bind> k)"
  "returns P (g x') \<Longrightarrow> returns P (Some x' \<bind> g)"
  "returns P (None \<bind> k)"
  "returns P (m \<bind> (\<lambda>x. h x \<bind> k)) \<Longrightarrow> returns P ((m \<bind> h) \<bind> k)"
  "returns P (f a1 a2) \<Longrightarrow> returns P (case (a1, a2) of (x, y) \<Rightarrow> f x y)"
  by (auto simp: returns_def)

lemma returns_cases [wp]:
  "(x = None \<Longrightarrow> returns P a) \<Longrightarrow> (\<And>y. x = Some y \<Longrightarrow> returns P (f y)) \<Longrightarrow> returns P (case x of None \<Rightarrow> a | Some y \<Rightarrow> f y)"
  "(\<And>a b. z = (a, b) \<Longrightarrow> returns P (f' a b)) \<Longrightarrow> returns P (case z of (a, b) \<Rightarrow> f' a b)"
  "(\<And>a b. z = (a, b) \<Longrightarrow> returns P (f'' a b \<bind> k)) \<Longrightarrow> returns P ((case z of (a, b) \<Rightarrow> f'' a b) \<bind> k)"
  "(x = None \<Longrightarrow> returns P (a' \<bind> k)) \<Longrightarrow> (\<And>y. x = Some y \<Longrightarrow> returns P (g y \<bind> k)) \<Longrightarrow>
     returns P ((case x of None \<Rightarrow> a' | Some y \<Rightarrow> g y) \<bind> k)"
  "(\<And>y. cwd p = Some y \<Longrightarrow> returns P (k' y)) \<Longrightarrow> returns P (cwd p \<bind> k')"
  by (cases x; cases z; cases "cwd p"; simp add: returns_def)+

lemma returns_bind: "returns Q m \<Longrightarrow> (\<And>x. m = Some x \<Longrightarrow> Q x \<Longrightarrow> returns P (k x)) \<Longrightarrow> returns P (m \<bind> k)"
  by (cases m) (simp_all add: returns_def)

lemma returns_blocks [wp]:
  fixes s :: "'a ksys_scheme"
  shows "(\<And>t. begin_tx s = Some t \<Longrightarrow> becomes s (tx 1) t \<Longrightarrow> returns P (k t)) \<Longrightarrow> returns P (begin_tx s \<bind> k)"
    "i < a_len (acc s) \<Longrightarrow> (\<And>t. becomes s (lock i) t \<Longrightarrow> i \<notin> a_locked (acc s) \<Longrightarrow> returns P (k t)) \<Longrightarrow> returns P (ilock q i s \<bind> k)"
    "i < a_len (acc s) \<Longrightarrow> (\<And>t. becomes s (unlock i) t \<Longrightarrow> returns P (k t)) \<Longrightarrow> returns P (iunlock q i s \<bind> k)"
    "i < a_len (acc s) \<Longrightarrow> (\<And>t. becomes s (\<lambda>a. ref (-1) (unlock i a)) t \<Longrightarrow> returns P (k t)) \<Longrightarrow> returns P (iunlockput q i s \<bind> k)"
    "i < a_len (acc s) \<Longrightarrow> (\<And>t. becomes s (ref (-1)) t \<Longrightarrow> returns P (k t)) \<Longrightarrow> returns P (iput q i s \<bind> k)"
    "(\<And>t. keeps s t \<Longrightarrow> returns P (k t)) \<Longrightarrow> returns P (iupdate i s \<bind> k)"
    "(\<And>j t. becomes s (ref 1) t \<Longrightarrow> j < a_len (acc s) \<Longrightarrow> returns P (k' (j, t))) \<Longrightarrow> returns P (ialloc d ty s \<bind> k')"
  by (rule returns_bind [of "\<lambda>t. becomes s (tx 1) t"], simp add: returns_def tx_balance(1), blast)
    (rule returns_bind [of "\<lambda>t. becomes s (lock i) t \<and> i \<notin> a_locked (acc s)"], simp add: returns_def ilock_balance, blast,
     rule returns_bind [of "\<lambda>t. becomes s (unlock i) t"], simp add: returns_def iunlock_balance, blast,
     rule returns_bind [of "\<lambda>t. becomes s (\<lambda>a. ref (-1) (unlock i a)) t"], simp add: returns_def iunlockput_balance, blast,
     rule returns_bind [of "\<lambda>t. becomes s (ref (-1)) t"], simp add: returns_def iput_balance, blast,
     rule returns_bind [of "\<lambda>t. keeps s t"], simp add: returns_def iupdate_balance, blast,
     rule returns_bind [of "\<lambda>(j, t). becomes s (ref 1) t \<and> j < a_len (acc s)"], simp add: returns_def ialloc_balance, auto)

lemma returns_directories [wp]:
  fixes s :: "'a ksys_scheme"
  assumes ds: "devices_ok ds"
  shows "(\<And>found t. becomes s (ref_if (found \<noteq> None)) t \<Longrightarrow> (\<And>i o'. found = Some (i, o') \<Longrightarrow> i < a_len (acc s)) \<Longrightarrow> returns P (k1 (found, t)))
      \<Longrightarrow> returns P (dirlookup ds dp nm s \<bind> k1)"
    "(\<And>r t. keeps s t \<Longrightarrow> returns P (k2 (r, t))) \<Longrightarrow> returns P (dirlink q ds dp nm inum s \<bind> k2)"
    "(\<And>r t. keeps s t \<Longrightarrow> returns P (k3 (r, t))) \<Longrightarrow> returns P (writei ds dp bs off n s \<bind> k3)"
proof -
  have "returns (\<lambda>(found, t). becomes s (ref_if (found \<noteq> None)) t \<and> (\<forall>i o'. found = Some (i, o') \<longrightarrow> i < a_len (acc s))) (dirlookup ds dp nm s)"
    by (simp only: returns_def split_paired_All prod.case) (blast dest: dirlookup_balance [OF ds])
  note R1 = returns_bind [OF this]
  have "returns (\<lambda>(r, t). keeps s t) (dirlink q ds dp nm inum s)" "returns (\<lambda>(r, t). keeps s t) (writei ds dp bs off n s)"
    by (simp only: returns_def split_paired_All prod.case, blast dest: dirlink_balance [OF ds] writei_balance [OF ds])+
  note R2 = this [THEN returns_bind]
  show "(\<And>found t. becomes s (ref_if (found \<noteq> None)) t \<Longrightarrow> (\<And>i o'. found = Some (i, o') \<Longrightarrow> i < a_len (acc s)) \<Longrightarrow> returns P (k1 (found, t)))
      \<Longrightarrow> returns P (dirlookup ds dp nm s \<bind> k1)" by (rule R1) blast
  show "(\<And>r t. keeps s t \<Longrightarrow> returns P (k2 (r, t))) \<Longrightarrow> returns P (dirlink q ds dp nm inum s \<bind> k2)" by (rule R2(1)) blast
  show "(\<And>r t. keeps s t \<Longrightarrow> returns P (k3 (r, t))) \<Longrightarrow> returns P (writei ds dp bs off n s \<bind> k3)" by (rule R2(2)) blast
qed

lemma isdirempty_from_balance:
  assumes "devices_ok ds" "isdirempty_from ds dp off s = Some (e, s')"
  shows "keeps s s'"
proof -
  have "devices_ok ds \<longrightarrow> keeps s (snd y)" if "isdirempty_from ds dp off s = Some y" for ds dp off s and y :: "bool \<times> 'a fs_scheme"
  proof (rule isdirempty_from.raw_induct [OF _ that], intro impI)
    fix f ds dp off s y
    assume IH: "\<And>ds dp off s y. f ds dp off s = Some y \<Longrightarrow> devices_ok ds \<longrightarrow> keeps s (snd y)"
      and step: "(if off < i_size (icache s ! dp) then do {
          (r, de, s) \<leftarrow> readi ds dp off 16 s;
          (if r \<noteq> 16 then None else if dirent_inum de \<noteq> 0 then Some (False, s) else f ds dp (off + 16) s)
        } else Some (True, s)) = Some y" and ds: "devices_ok ds"
    consider "snd y = s" | t where "keeps s t" "snd y = t" | t where "keeps s t" "f ds dp (off + 16) t = Some y"
      using step readi_balance [OF ds] by (fastforce simp: bind_eq_Some_conv split: if_splits)
    then show "keeps s (snd y)" by cases (use IH ds keeps_trans in \<open>fastforce+\<close>)
  qed
  from this [OF assms(2)] assms(1) show ?thesis by simp
qed

lemma isdirempty_balance [wp]:
  fixes s :: "'a ksys_scheme"
  assumes ds: "devices_ok ds" and k: "\<And>e t. keeps s t \<Longrightarrow> returns P (k (e, t))"
  shows "returns P (isdirempty ds dp s \<bind> k)"
proof (rule returns_bind)
  show "returns (\<lambda>(e, t). keeps s t) (isdirempty ds dp s)"
    by (simp only: returns_def split_paired_All prod.case isdirempty_def) (blast dest: isdirempty_from_balance [OF ds])
qed (use k in auto)

lemma returns_paths [wp]:
  fixes s :: "'a ksys_scheme"
  assumes ds: "devices_ok ds" and c: "cwd (up s) = Some c" "c < a_len (acc s)"
  shows "(\<And>r t. becomes s (ref_if (r \<noteq> None)) t \<Longrightarrow> (\<And>i. r = Some i \<Longrightarrow> i < a_len (acc s)) \<Longrightarrow> returns P (k1 (r, t)))
      \<Longrightarrow> returns P (namei_cur ds stack path s \<bind> k1)"
    "(\<And>r nm t. becomes s (ref_if (r \<noteq> None)) t \<Longrightarrow> (\<And>i. r = Some i \<Longrightarrow> i < a_len (acc s)) \<Longrightarrow> returns P (k2 (r, nm, t)))
      \<Longrightarrow> returns P (nameiparent_cur ds stack path s \<bind> k2)"
proof -
  have "returns (\<lambda>(r, t). becomes s (ref_if (r \<noteq> None)) t \<and> (\<forall>i. r = Some i \<longrightarrow> i < a_len (acc s))) (namei_cur ds stack path s)"
    by (simp only: returns_def split_paired_All prod.case namei_cur_def c Option.bind.bind_lunit) (blast dest: namei_balance(1) [OF ds _ c(2)])
  note R1 = returns_bind [OF this]
  have "returns (\<lambda>(r, nm, t). becomes s (ref_if (r \<noteq> None)) t \<and> (\<forall>i. r = Some i \<longrightarrow> i < a_len (acc s))) (nameiparent_cur ds stack path s)"
    by (simp only: returns_def split_paired_All prod.case nameiparent_cur_def c Option.bind.bind_lunit) (blast dest: namei_balance(2) [OF ds _ c(2)])
  note R2 = returns_bind [OF this]
  show "(\<And>r t. becomes s (ref_if (r \<noteq> None)) t \<Longrightarrow> (\<And>i. r = Some i \<Longrightarrow> i < a_len (acc s)) \<Longrightarrow> returns P (k1 (r, t)))
      \<Longrightarrow> returns P (namei_cur ds stack path s \<bind> k1)" by (rule R1) blast
  show "(\<And>r nm t. becomes s (ref_if (r \<noteq> None)) t \<Longrightarrow> (\<And>i. r = Some i \<Longrightarrow> i < a_len (acc s)) \<Longrightarrow> returns P (k2 (r, nm, t)))
      \<Longrightarrow> returns P (nameiparent_cur ds stack path s \<bind> k2)" by (rule R2) blast
qed

end
