(* ===== verification/FileCalls.thy ===== *)
theory FileCalls
  imports SysfileSafety
begin

text \<open>
  The calls of \<open>sysfile.c\<close> on paths, on pipes and on the file table, and the two properties of all calls on
  files together: they leave nothing taken, and they keep the tables well formed.
\<close>

section \<open>Calls that change no descriptor\<close>

text \<open>The effect of a whole call that opens no file: nothing is left taken.\<close>

definition restores :: "'a ksys_scheme \<Rightarrow> (account \<Rightarrow> account) \<Rightarrow> 'a ksys_scheme \<Rightarrow> bool" where
  "restores s F t \<longleftrightarrow> acc t = F (acc s) \<and> ftable t = ftable s \<and> up t = up s"

lemma becomes_restores:
  fixes s t :: "'a ksys_scheme"
  shows "becomes s F t \<Longrightarrow> restores s F t"
  using more_eqs [of t s] by (simp add: becomes_def restores_def)

lemma end_tx_restores: "acc (end_tx s) = tx (-1) (acc s)" "ftable (end_tx s) = ftable s" "up (end_tx s) = up (s :: 'a ksys_scheme)"
  using becomes_restores [OF tx_balance(2)] by (auto simp: restores_def)

lemma set_inode_restores:
  fixes s :: "'a ksys_scheme"
  shows "acc (set_inode i (\<lambda>ip. ip\<lparr>i_nlink := g ip\<rparr>) s) = acc s"
    "acc (set_inode i (\<lambda>ip. ip\<lparr>i_major := ma, i_minor := mi, i_nlink := n\<rparr>) s) = acc s"
    "ftable (set_inode i h s) = ftable s" "up (set_inode i h s) = up s"
proof -
  have "keeps s (set_inode i (\<lambda>ip. ip\<lparr>i_nlink := g ip\<rparr>) s)"
    "keeps s (set_inode i (\<lambda>ip. ip\<lparr>i_major := ma, i_minor := mi, i_nlink := n\<rparr>) s)" by (rule set_inode_balance; simp)+
  then show "acc (set_inode i (\<lambda>ip. ip\<lparr>i_nlink := g ip\<rparr>) s) = acc s"
    "acc (set_inode i (\<lambda>ip. ip\<lparr>i_major := ma, i_minor := mi, i_nlink := n\<rparr>) s) = acc s" by (simp_all add: becomes_def)
qed (simp_all add: set_inode_def)

lemmas call_simps = restores_def end_tx_restores set_inode_restores

lemma link_bad_restores:
  "ip < a_len (acc s) \<Longrightarrow> returns (\<lambda>(r, t). restores s (\<lambda>a. tx (-1) (ref (-1) a)) t) (link_bad ip s)"
  unfolding link_bad_def Let_def
  by (intro returns_code returns_cases returns_blocks) (auto simp: call_simps dest!: becomes_restores)

lemma returns_restores:
  assumes "returns (\<lambda>(r, t). restores s F t) m" and "\<And>r t. restores s F t \<Longrightarrow> P (r, t)"
  shows "returns P m"
  using assms by (fastforce simp: returns_def)

lemma unlink_bad_restores:
  "dp < a_len (acc s) \<Longrightarrow> returns (\<lambda>(r, t). restores s (\<lambda>a. tx (-1) (ref (-1) (unlock dp a))) t) (unlink_bad dp s)"
  unfolding unlink_bad_def
  by (intro returns_code returns_cases returns_blocks) (auto simp: call_simps dest!: becomes_restores)

definition created :: "'a ksys_scheme \<Rightarrow> nat option \<Rightarrow> 'a ksys_scheme \<Rightarrow> bool" where
  "created s ip t \<longleftrightarrow> (case ip of
     None \<Rightarrow> restores s (\<lambda>a. a) t
   | Some i \<Rightarrow> restores s (\<lambda>a. lock i (ref 1 a)) t \<and> i < a_len (acc s) \<and> i \<notin> a_locked (acc s))"

lemma unlock_lock_other [simp]: "i \<noteq> j \<Longrightarrow> unlock j (lock i a) = lock i (unlock j a)"
  by (simp add: lock_def unlock_def insert_Diff_if)
lemma sys_unlink_restores:
  assumes ds: "devices_ok ds" and c: "cwd (up s) = Some c" "c < a_len (acc s)"
  shows "returns (\<lambda>(r, t). restores s (\<lambda>a. a) t) (sys_unlink ds stack s)"
  unfolding sys_unlink_def Let_def
  by (intro returns_code returns_cases returns_blocks returns_directories [OF ds] isdirempty_balance [OF ds]
      returns_paths [OF ds, where c = c] returns_restores [OF unlink_bad_restores]; insert c; (simp add: call_simps)?;
      (auto simp: call_simps dest!: becomes_restores)?)

lemma sys_link_restores:
  assumes ds: "devices_ok ds" and c: "cwd (up s) = Some c" "c < a_len (acc s)"
  shows "returns (\<lambda>(r, t). restores s (\<lambda>a. a) t) (sys_link ds stack s)"
  unfolding sys_link_def Let_def
  by (intro returns_code returns_cases returns_blocks returns_directories [OF ds] 
      returns_paths [OF ds, where c = c] returns_restores [OF link_bad_restores]; insert c; auto simp: call_simps dest!: becomes_restores)

definition opened :: "'a ksys_scheme \<Rightarrow> nat option \<Rightarrow> 'a ksys_scheme \<Rightarrow> bool" where
  "opened s ip t \<longleftrightarrow> (case ip of
     None \<Rightarrow> restores s (tx (-1)) t
   | Some i \<Rightarrow> restores s (\<lambda>a. lock i (ref 1 a)) t \<and> i < a_len (acc s) \<and> i \<notin> a_locked (acc s))"

lemma returns_created:
  assumes "returns (\<lambda>(ip, t). created s ip t) m" and "\<And>ip t. created s ip t \<Longrightarrow> returns P (k (ip, t))"
  shows "returns P (m \<bind> k)"
  using assms by (cases m) (auto simp: returns_def)

lemma create_restores:
  assumes ds: "devices_ok ds" and c: "cwd (up s) = Some c" "c < a_len (acc s)"
  shows "returns (\<lambda>(ip, t). created s ip t) (create ds stack path ty ma mi s)"
  unfolding create_def Let_def
  by (intro returns_code returns_cases returns_blocks returns_directories [OF ds] isdirempty_balance [OF ds]
      returns_paths [OF ds, where c = c]; insert c;
      auto simp: call_simps created_def dest!: becomes_restores)

lemma open_inode_restores:
  assumes ds: "devices_ok ds" and c: "cwd (up s) = Some c" "c < a_len (acc s)"
  shows "returns (\<lambda>(ip, t). opened s ip t) (open_inode ds stack path om s)"
  unfolding open_inode_def Let_def
  by (intro returns_created [OF create_restores [OF ds c]] returns_code returns_cases returns_blocks
      returns_paths [OF ds, where c = c]; insert c;
      auto simp: call_simps created_def opened_def split: option.splits dest!: becomes_restores)

lemma returns_opened:
  assumes "returns (\<lambda>(ip, t). opened s ip t) m" and "\<And>ip t. opened s ip t \<Longrightarrow> returns P (k (ip, t))"
  shows "returns P (m \<bind> k)"
  using assms by (cases m) (auto simp: returns_def)


lemma made_restores:
  assumes "\<And>i. ip = Some i \<Longrightarrow> i < a_len (acc t)"
  shows "returns (\<lambda>(r, u). restores t (\<lambda>a. tx (-1) (case ip of None \<Rightarrow> a | Some i \<Rightarrow> ref (-1) (unlock i a))) u) (made ip t)"
  unfolding made_def
  by (intro returns_code returns_cases returns_blocks; insert assms; auto simp: call_simps dest!: becomes_restores)

lemma sys_mkdir_restores:
  assumes ds: "devices_ok ds" and c: "cwd (up s) = Some c" "c < a_len (acc s)"
  shows "returns (\<lambda>(r, t). restores s (\<lambda>a. a) t) (sys_mkdir ds stack s)"
  unfolding sys_mkdir_def
  by (intro returns_created [OF create_restores [OF ds, where c = c]] returns_code returns_cases returns_blocks
      returns_restores [OF made_restores]; insert c; auto simp: call_simps created_def split: option.splits dest!: becomes_restores)

lemma sys_mknod_restores:
  assumes ds: "devices_ok ds" and c: "cwd (up s) = Some c" "c < a_len (acc s)"
  shows "returns (\<lambda>(r, t). restores s (\<lambda>a. a) t) (sys_mknod ds stack s)"
  unfolding sys_mknod_def prod.case
  by (intro returns_created [OF create_restores [OF ds, where c = c]] returns_code returns_cases returns_blocks
      returns_restores [OF made_restores]; insert c; auto simp: call_simps created_def split: option.splits dest!: becomes_restores)

lemma sys_chdir_restores:
  assumes ds: "devices_ok ds" and c: "cwd (up s) = Some c" "c < a_len (acc s)"
  shows "returns (\<lambda>(r, t). acc t = acc s \<and> ftable t = ftable s \<and> (\<exists>c' < a_len (acc s). up t = (up s)\<lparr>cwd := Some c'\<rparr>)) (sys_chdir ds stack s)"
  unfolding sys_chdir_def Let_def
  by (intro returns_code returns_cases returns_blocks returns_paths [OF ds, where c = c];
      insert c; auto simp: call_simps split: option.splits dest!: becomes_restores)

section \<open>References outside the descriptors\<close>

definition taking :: "nat \<Rightarrow> (nat \<Rightarrow> int) \<Rightarrow> nat \<Rightarrow> int" where
  "taking i others = others(i := others i + 1)"

lemma taking_apply [simp]: "taking i others j = (if j = i then others i + 1 else others j)"
  by (simp add: taking_def)

lemma taking_twist: "taking i (taking j others) = taking j (taking i others)"
  by (auto simp: fun_eq_iff)

lemma kern_more:
  fixes s s' :: "'a ksys_scheme"
  assumes "kern.more s' = kern.more s"
  shows "up s' = up s" "um s' = um s"
  using assms by (cases s; cases s'; simp)+

lemma sys_ok_restores:
  "restores s F t \<Longrightarrow> a_len (F (acc s)) = a_len (acc s) \<Longrightarrow> sys_ok others s \<Longrightarrow> sys_ok others t"
  by (simp add: restores_def sys_ok_def)

lemma filealloc_ok:
  assumes ok: "sys_ok others s" and f: "filealloc s = (f, s')"
  shows "acc s' = acc s" "net s' = net s" "up s' = up s" "f = None \<Longrightarrow> s' = s"
    "f = Some i \<Longrightarrow> sys_ok (taking i others) s' \<and> i < length (ftable s') \<and> f_type (ftable s' ! i) = FD_NONE \<and> f_ref (ftable s' ! i) = 1 \<and> 0 \<le> others i"
proof -
  note A = filealloc_balance [OF f]
  have F: "files_ok others (ofile (up s)) (a_len (acc s)) (ftable s)" using ok by (simp add: sys_ok_def)
  show a: "acc s' = acc s" by (rule A(1))
  show u: "up s' = up s" by (rule kern_more(1) [OF A(2)])
  show "s' = s" if "f = None" using A(3) that .
  show "net s' = net s"
  proof (cases f)
    case (Some i)
    then show ?thesis using A(4) [OF Some] a by (simp add: net_def inode_files_update)
  qed (use A(3) in simp)
  assume i: "f = Some i"
  note B = A(4) [OF i]
  have t: "f_type (ftable s ! i) = FD_NONE" using files_okD(5) [OF F] B by blast
  have o: "0 \<le> others i" using files_okD(3) [OF F] B by blast
  have "files_ok (taking i others) (ofile (up s)) (a_len (acc s)) (ftable s')"
  proof -
    have "length (ofile (up s)) = NOFILE" "\<And>f. Some f \<in> set (ofile (up s)) \<Longrightarrow> f < length (ftable s')" using files_okD(1,2) [OF F] B by auto
    moreover have "0 \<le> taking i others j \<and> f_ref (ftable s' ! j) = int (count_list (ofile (up s)) (Some j)) + taking i others j \<and>
       (f_ref (ftable s' ! j) = 0 \<longrightarrow> f_type (ftable s' ! j) = FD_NONE) \<and> (f_type (ftable s' ! j) = FD_INODE \<longrightarrow> f_ip (ftable s' ! j) < a_len (acc s))"
      if "j < length (ftable s')" for j
      using files_okD(3-6) [OF F, of j] B that t by (cases "j = i") auto
    ultimately show ?thesis by (auto simp: files_ok_def)
  qed
  then show "sys_ok (taking i others) s' \<and> i < length (ftable s') \<and> f_type (ftable s' ! i) = FD_NONE \<and> f_ref (ftable s' ! i) = 1 \<and> 0 \<le> others i"
    using ok a u B t o by (simp add: sys_ok_def)
qed

text \<open>\<open>files_ok\<close> when one entry and the references to it change.\<close>

lemma files_ok_shift:
  assumes ok: "files_ok others fds n ft" and len: "length fds' = length fds"
    and sub: "\<And>f. Some f \<in> set fds' \<Longrightarrow> f < length ft"
    and others: "\<And>j. j \<noteq> i \<Longrightarrow> count_list fds' (Some j) = count_list fds (Some j) \<and> others' j = others j"
    and g: "i < length ft \<Longrightarrow> f_ref g = int (count_list fds' (Some i)) + others' i" "f_ref g = 0 \<Longrightarrow> f_type g = FD_NONE"
      "f_type g = FD_INODE \<Longrightarrow> f_ip g < n" "0 \<le> others' i"
  shows "files_ok others' fds' n (ft[i := g])"
proof -
  note F = files_okD [OF ok]
  have "0 \<le> others' j \<and> f_ref (ft[i := g] ! j) = int (count_list fds' (Some j)) + others' j \<and>
      (f_ref (ft[i := g] ! j) = 0 \<longrightarrow> f_type (ft[i := g] ! j) = FD_NONE) \<and>
      (f_type (ft[i := g] ! j) = FD_INODE \<longrightarrow> f_ip (ft[i := g] ! j) < n)" if "j < length ft" for j
    using F(3-6) [OF that] others [of j] g that by (cases "j = i") auto
  then show ?thesis using F(1,2) len sub by (auto simp: files_ok_def)
qed

lemma fileclose_ok:
  fixes s :: "'a ksys_scheme"
  assumes ok: "sys_ok (taking i others) s" and i: "i < length (ftable s)" "0 \<le> others i" and c: "fileclose me i s = Some s'"
  shows "net s' = net s" "sys_ok others s'" "up s' = up s" "a_len (acc s') = a_len (acc s)" "length (ftable s') = length (ftable s)"
proof -
  have F: "files_ok (taking i others) (ofile (up s)) (a_len (acc s)) (ftable s)" using ok by (simp add: sys_ok_def)
  have "f_type (ftable s ! i) = FD_INODE \<Longrightarrow> f_ip (ftable s ! i) < a_len (acc s)" by (rule files_okD(6) [OF F i(1)])
  then have C: "ftable s' = (ftable s)[i := if f_ref (ftable s ! i) = 1 then (ftable s ! i)\<lparr>f_ref := 0, f_type := FD_NONE\<rparr>
      else (ftable s ! i)\<lparr>f_ref := f_ref (ftable s ! i) - 1\<rparr>]"
    "kern.more s' = kern.more s" "net s' = net s" "1 \<le> f_ref (ftable s ! i)" "a_len (acc s') = a_len (acc s)"
    using fileclose_balance [OF c i(1)] by blast+
  show "net s' = net s" by (rule C(3))
  show u: "up s' = up s" by (rule kern_more(1) [OF C(2)])
  show l: "a_len (acc s') = a_len (acc s)" by (rule C(5))
  show "length (ftable s') = length (ftable s)" by (simp add: C(1))
  have "files_ok others (ofile (up s)) (a_len (acc s)) (ftable s')"
    unfolding C(1)
    by (rule files_ok_shift [OF F]) (use files_okD(2,4,6) [OF F] i C(4) in \<open>auto split: if_splits\<close>)
  then show "sys_ok others s'" using ok u l by (simp add: sys_ok_def)
qed

lemma fdalloc_ok:
  assumes ok: "sys_ok (taking i others) s" and i: "i < length (ftable s)" "0 \<le> others i" and f: "fdalloc i s = (fd, s')"
  obtains (full) "fd = -1" "s' = s"
  | (new) k where "fd = int k" "k < length (ofile (up s'))" "ofile (up s') ! k = Some i" "sys_ok others s'" "acc s' = acc s" "ftable s' = ftable s"
  using f
proof (cases rule: fdalloc_cases)
  case full
  then show ?thesis using that(1) by simp
next
  case (new k)
  have F: "files_ok (taking i others) (ofile (up s)) (a_len (acc s)) (ftable s)" using ok by (simp add: sys_ok_def)
  have c: "int (count_list ((ofile (up s))[k := Some i]) (Some j)) = int (count_list (ofile (up s)) (Some j)) + (if j = i then 1 else 0)" for j
    using count_list_update [OF new(2), of "Some i" "Some j"] new(3) by auto
  have "files_ok others ((ofile (up s))[k := Some i]) (a_len (acc s)) ((ftable s)[i := ftable s ! i])"
  proof (rule files_ok_shift [OF F])
    fix f assume "Some f \<in> set ((ofile (up s))[k := Some i])"
    then show "f < length (ftable s)" using set_update_subset_insert [of "ofile (up s)" k "Some i"] files_okD(2) [OF F] i(1) by auto
  next
    fix j assume "j \<noteq> i"
    then show "count_list ((ofile (up s))[k := Some i]) (Some j) = count_list (ofile (up s)) (Some j) \<and> others j = taking i others j"
      using c [of j] by simp
  qed (use c [of i] i files_okD(4-6) [OF F i(1)] in simp_all)
  then have "sys_ok others s'" using ok by (simp add: sys_ok_def new(4))
  then show ?thesis using that(2) [of k] new by simp
qed

lemma fdfree_ok:
  assumes ok: "sys_ok others s" and k: "k < length (ofile (up s))" "ofile (up s) ! k = Some i"
  shows "sys_ok (taking i others) (set_fd k None s)"
proof -
  have F: "files_ok others (ofile (up s)) (a_len (acc s)) (ftable s)" using ok by (simp add: sys_ok_def)
  have m: "Some i \<in> set (ofile (up s))" using k by (metis nth_mem)
  have i: "i < length (ftable s)" by (rule files_okD(2) [OF F m])
  have c: "int (count_list ((ofile (up s))[k := None]) (Some j)) = int (count_list (ofile (up s)) (Some j)) - (if j = i then 1 else 0)" for j
    using count_list_update [OF k(1), of None "Some j"] k(2) by auto
  have "files_ok (taking i others) ((ofile (up s))[k := None]) (a_len (acc s)) ((ftable s)[i := ftable s ! i])"
  proof (rule files_ok_shift [OF F])
    fix f assume "Some f \<in> set ((ofile (up s))[k := None])"
    then show "f < length (ftable s)" using set_update_subset_insert [of "ofile (up s)" k None] files_okD(2) [OF F] by auto
  next
    fix j assume "j \<noteq> i"
    then show "count_list ((ofile (up s))[k := None]) (Some j) = count_list (ofile (up s)) (Some j) \<and> taking i others j = others j"
      using c [of j] by simp
  qed (use c [of i] i files_okD(3-6) [OF F i] in simp_all)
  then show ?thesis using ok by (simp add: sys_ok_def)
qed

lemma set_file_ok:
  assumes ok: "sys_ok others s" and i: "i < length (ftable s)" "f_ref (g (ftable s ! i)) = f_ref (ftable s ! i)" "0 < f_ref (ftable s ! i)"
    "f_type (g (ftable s ! i)) = FD_INODE \<Longrightarrow> f_ip (g (ftable s ! i)) < a_len (acc s)"
  shows "sys_ok others (set_file i g s)"
proof -
  have F: "files_ok others (ofile (up s)) (a_len (acc s)) (ftable s)" using ok by (simp add: sys_ok_def)
  have "files_ok others (ofile (up s)) (a_len (acc s)) ((ftable s)[i := g (ftable s ! i)])"
    by (rule files_ok_shift [OF F]) (use files_okD(2-4) [OF F] i in auto)
  then show ?thesis using ok by (simp add: sys_ok_def)
qed

lemma sys_ok_simps [simp]:
  "sys_ok others (set_pipe p w q s) = sys_ok others s" "sys_ok others (s\<lparr>pages := ps\<rparr>) = sys_ok others s"
  "net (set_pipe p w q t) = net t" "net (t\<lparr>pages := ps\<rparr>) = net t"
  by (simp_all add: sys_ok_def net_def)

lemma set_file_net:
  assumes "i < length (ftable s)" "(f_type (g (ftable s ! i)) = FD_INODE) = (f_type (ftable s ! i) = FD_INODE)"
  shows "net (set_file i g s) = net s"
  using assms by (simp add: net_def inode_files_update)

lemma set_pipe_file_ok:
  assumes "sys_ok others s" "i < length (ftable s)" "0 < f_ref (ftable s ! i)" "f_type (ftable s ! i) = FD_NONE"
    and u_def: "u = set_file i (\<lambda>f. f\<lparr>f_type := FD_PIPE, f_readable := r, f_writable := w, f_pipe := p\<rparr>) s"
  shows "sys_ok others u" "net u = net s" "up u = up s" "a_len (acc u) = a_len (acc s)" "length (ftable u) = length (ftable s)"
    "j \<noteq> i \<Longrightarrow> ftable u ! j = ftable s ! j"
proof -
  show "sys_ok others u" unfolding u_def by (rule set_file_ok [OF assms(1,2)]) (use assms(3,4) in simp_all)
  show "net u = net s" unfolding u_def by (rule set_file_net [OF assms(2)]) (use assms(4) in simp)
qed (simp_all add: u_def)

lemma pipealloc_ok:
  fixes s :: "'a ksys_scheme"
  assumes ok: "sys_ok others s" and p: "pipealloc me s = Some (ends, s')"
  shows "net s' = net s \<and> up s' = up s \<and> a_len (acc s') = a_len (acc s) \<and>
    (case ends of None \<Rightarrow> sys_ok others s'
     | Some (a, b) \<Rightarrow> sys_ok (taking a (taking b others)) s' \<and> a < length (ftable s') \<and> b < length (ftable s') \<and> 0 \<le> others a \<and> 0 \<le> others b \<and> a \<noteq> b)"
proof -
  obtain f0 s1 where f0: "filealloc s = (f0, s1)" by (cases "filealloc s")
  note A = filealloc_ok [OF ok f0]
  show ?thesis
  proof (cases f0)
    case None
    then show ?thesis using p f0 A(4) ok by (simp add: pipealloc_def close_if_def)
  next
    case (Some a)
    note A5 = A(5) [OF Some, THEN conjunct1]
    obtain f1 s2 where f1: "filealloc s1 = (f1, s2)" by (cases "filealloc s1")
    note B = filealloc_ok [OF A5 f1]
    show ?thesis
    proof (cases f1)
      case None
      then have c: "fileclose me a s1 = Some s'" "ends = None" using p f0 f1 Some B(4)
        by (auto simp: pipealloc_def close_if_def bind_eq_Some_conv)
      show ?thesis using fileclose_ok [OF A5 _ _ c(1)] A c(2) Some by simp
    next
      case (Some b)
      note B5 = B(5) [OF Some, THEN conjunct1]
      have a2: "a < length (ftable s1)" "f_ref (ftable s1 ! a) = 1" "f_type (ftable s1 ! a) = FD_NONE" using A(5) [OF \<open>f0 = Some a\<close>] by simp_all
      note D = filealloc_balance(4) [OF f1 Some]
      have ab: "a \<noteq> b" using D a2 by auto
      have o: "0 \<le> others a" "0 \<le> others b" using A(5) [OF \<open>f0 = Some a\<close>] B(5) [OF Some] ab by simp_all
      have s2: "a < length (ftable s2)" "b < length (ftable s2)" "ftable s2 ! a = ftable s1 ! a" "f_ref (ftable s2 ! b) = 1" "f_type (ftable s2 ! b) = FD_NONE"
        using D B(5) [OF Some] a2 ab by simp_all
      show ?thesis
      proof (cases "pages s2")
        case Nil
        then obtain u where c: "fileclose me a s2 = Some u" "fileclose me b u = Some s'" "ends = None"
          using p f0 f1 Some \<open>f0 = Some a\<close> by (auto simp: pipealloc_def close_if_def bind_eq_Some_conv)
        have "sys_ok (taking a (taking b others)) s2" by (subst taking_twist) (rule B5)
        note E = fileclose_ok [OF this s2(1) _ c(1)]
        note G = fileclose_ok [OF E(2) _ o(2) c(2)]
        show ?thesis using E G A B c(3) s2 o ab by simp
      next
        case (Cons q ps)
        define t where "t = set_pipe q [] (pipeinit (pipes s2 q)) (s2\<lparr>pages := ps\<rparr>)"
        have t: "ftable t = ftable s2" "up t = up s2" "acc t = acc s2" "net t = net s2" by (simp_all add: t_def)
        have okt: "sys_ok (taking a (taking b others)) t" unfolding t_def sys_ok_simps by (subst taking_twist) (rule B5)
        define u where "u = set_file a (\<lambda>f. f\<lparr>f_type := FD_PIPE, f_readable := True, f_writable := False, f_pipe := q\<rparr>) t"
        define v where "v = set_file b (\<lambda>f. f\<lparr>f_type := FD_PIPE, f_readable := False, f_writable := True, f_pipe := q\<rparr>) u"
        have e: "ends = Some (a, b)" "s' = v"
          using p f0 f1 Some \<open>f0 = Some a\<close> Cons by (auto simp: pipealloc_def t_def u_def v_def Let_def)
        note U = set_pipe_file_ok [OF okt _ _ _ u_def]
        have "sys_ok (taking a (taking b others)) u" using U(1) s2 t a2 by simp
        note V = set_pipe_file_ok [OF this _ _ _ v_def]
        show ?thesis using U V e A B t s2 a2 o ab by simp
      qed
    qed
  qed
qed

lemma restores_balanced:
  assumes "restores s (\<lambda>a. a) t" "sys_ok others s"
  shows "balanced others s t"
  using assms sys_ok_restores [OF assms(1) _ assms(2)] by (simp add: restores_def balanced_def net_def)

text \<open>The error paths of \<open>sys_pipe\<close>, which close both ends.\<close>

lemma close_both:
  fixes s t :: "'a ksys_scheme"
  assumes "sys_ok (taking a (taking b others)) s" "net s = net t" "a \<noteq> b" "0 \<le> others a" "0 \<le> others b"
    and "a < length (ftable s)" "b < length (ftable s)" and c: "fileclose me a s = Some u" "fileclose me' b u = Some s'"
  shows "balanced others t s'"
proof -
  have "0 \<le> taking b others a" using assms(3,4) by simp
  note A = fileclose_ok [OF assms(1,6) this c(1)]
  note B = fileclose_ok [OF A(2) _ assms(5) c(2)]
  show ?thesis using A B assms(2,7) by (simp add: balanced_def)
qed

lemma sys_pipe_balanced:
  assumes ok: "sys_ok others s" and c: "sys_pipe s = Some (r, s')"
  shows "balanced others s s'"
proof (cases "ptr_arg 0 8 s")
  case None
  then show ?thesis using c ok by (simp add: sys_pipe_def balanced_def)
next
  case (Some p)
  obtain ends t where t: "pipealloc (self s) s = Some (ends, t)" using c Some by (auto simp: sys_pipe_def bind_eq_Some_conv)
  note P = pipealloc_ok [OF ok t]
  show ?thesis
  proof (cases ends)
    case None
    then show ?thesis using c Some t P by (simp add: sys_pipe_def balanced_def)
  next
    case ends: (Some e)
    obtain a b where e: "ends = Some (a, b)" using ends by (cases e) auto
    then have P: "sys_ok (taking a (taking b others)) t" "a < length (ftable t)" "b < length (ftable t)" "0 \<le> others a" "0 \<le> others b" "a \<noteq> b"
      "net t = net s" "up t = up s" using P by simp_all
    note close = close_both [where others = others and t = s, OF _ _ P(6,4,5)]
    obtain fd0 u where u: "fdalloc a t = (fd0, u)" by (cases "fdalloc a t")
    have "0 \<le> taking b others a" using P by simp
    note A = fdalloc_ok [OF P(1,2) this u]
    show ?thesis
    proof (rule A)
      assume f: "fd0 = -1" "u = t"
      then obtain v where v: "fileclose (self t) a t = Some v" "fileclose (self v) b v = Some s'"
        using c Some t e u by (auto simp: sys_pipe_def bind_eq_Some_conv)
      show ?thesis by (rule close [OF P(1,7,2,3) v])
    next
      fix k assume k: "fd0 = int k" "k < length (ofile (up u))" "ofile (up u) ! k = Some a" "sys_ok (taking b others) u" "acc u = acc t" "ftable u = ftable t"
      have nu: "net u = net s" using k P(7) by (simp add: net_def)
      obtain fd1 v where v: "fdalloc b u = (fd1, v)" by (cases "fdalloc b u")
      have bu: "b < length (ftable u)" using k P by simp
      show ?thesis
      proof (rule fdalloc_ok [OF k(4) bu P(5) v])
        assume f: "fd1 = -1" "v = u"
        then obtain w where w: "fileclose (self (set_fd k None u)) a (set_fd k None u) = Some w" "fileclose (self w) b w = Some s'"
          using c Some t e u v k(1) by (auto simp: sys_pipe_def bind_eq_Some_conv)
        have "net (set_fd k None u) = net s" "a < length (ftable (set_fd k None u))" "b < length (ftable (set_fd k None u))"
          using nu k(6) P(2,3) by (simp_all add: net_def)
        then show ?thesis by (rule close [OF fdfree_ok [OF k(4,2,3)] _ _ _ w])
      next
        fix l assume l: "fd1 = int l" "sys_ok others v" "acc v = acc u" "ftable v = ftable u"
        have "s' = v\<lparr>um := um s'\<rparr>" using c Some t e u v k(1) l(1) by (auto simp: sys_pipe_def)
        moreover have "balanced others s v" using l k nu by (simp add: balanced_def net_def)
        ultimately show ?thesis using balanced_um by metis
      qed
    qed
  qed
qed

text \<open>The error paths of \<open>sys_open\<close> after the inode is locked.\<close>

lemma abandon_open:
  fixes s u x :: "'a ksys_scheme"
  assumes i: "i < a_len (acc s)" "i \<notin> a_locked (acc s)" and u: "net u = lock i (ref 1 (tx 1 (net s)))"
    and x: "sys_ok others x" "net x = net u" "a_len (acc x) = a_len (acc s)" "iunlockput me i x = Some y"
  shows "balanced others s (end_tx y)"
proof -
  have y: "becomes x (\<lambda>a. ref (-1) (unlock i a)) y" by (rule iunlockput_balance [OF x(4)]) (use i(1) x(3) in simp)
  have z: "restores x (\<lambda>a. tx (-1) (ref (-1) (unlock i a))) (end_tx y)"
    using becomes_restores [OF y] by (simp add: restores_def end_tx_restores)
  then have "net (end_tx y) = tx (-1) (ref (-1) (unlock i (net x)))" by (simp add: net_def restores_def algebra_simps)
  moreover have "sys_ok others (end_tx y)" by (rule sys_ok_restores [OF z _ x(1)]) simp
  moreover have "i \<notin> a_locked (net s)" using i(2) by (simp add: net_def)
  ultimately show ?thesis using x(2) u by (simp add: balanced_def)
qed

lemma sys_open_balanced:
  assumes ok: "sys_ok others s" and ds: "devices_ok ds" and c: "sys_open ds stack s = Some (r, s')"
  shows "balanced others s s'"
proof (cases "str_arg 0 s = None \<or> int_arg 1 s = None")
  case True
  then have "s' = s" using c by (auto simp: sys_open_def split: option.splits)
  then show ?thesis using ok by (simp add: balanced_def)
next
  case False
  then obtain path om where args: "str_arg 0 s = Some path" "int_arg 1 s = Some om" by auto
  obtain cw where cw: "cwd (up s) = Some cw" "cw < a_len (acc s)" using ok by (auto simp: sys_ok_def)
  obtain t ip u where t: "begin_tx s = Some t" "open_inode ds stack path om t = Some (ip, u)"
    using c args by (auto simp: sys_open_def bind_eq_Some_conv)
  have T: "restores s (tx 1) t" by (rule becomes_restores [OF tx_balance(1) [OF t(1)]])
  then have "cwd (up t) = Some cw" "cw < a_len (acc t)" using cw by (simp_all add: restores_def)
  note O = open_inode_restores [OF ds this, of stack path om]
  then have O: "opened t ip u" using t(2) by (simp add: returns_def)
  show ?thesis
  proof (cases ip)
    case None
    then have "s' = u" using c args t by (simp add: sys_open_def)
    then have "restores s (\<lambda>a. a) s'" using O T None by (simp add: opened_def restores_def)
    then show ?thesis by (rule restores_balanced [OF _ ok])
  next
    case (Some i)
    have u: "restores s (\<lambda>a. lock i (ref 1 (tx 1 a))) u" "i < a_len (acc s)" "i \<notin> a_locked (acc s)"
      using O T Some by (auto simp: opened_def restores_def)
    have oku: "sys_ok others u" by (rule sys_ok_restores [OF u(1) _ ok]) simp
    obtain f v where v: "filealloc u = (f, v)" by (cases "filealloc u")
    note A = filealloc_ok [OF oku v]
    have nu: "net u = lock i (ref 1 (tx 1 (net s)))" "a_len (acc u) = a_len (acc s)" using u(1) by (simp_all add: net_def restores_def)
    note finish = abandon_open [OF u(2,3) nu(1)]
    show ?thesis
    proof (cases f)
      case None
      then obtain y where y: "iunlockput (self u) i u = Some y" "s' = end_tx y"
        using c args t Some v A(4) by (auto simp: sys_open_def bind_eq_Some_conv)
      show ?thesis unfolding y(2) by (rule finish [OF oku refl nu(2) y(1)])
    next
      case f: (Some j)
      note A5 = A(5) [OF f]
      obtain fd w where w: "fdalloc j v = (fd, w)" by (cases "fdalloc j v")
      show ?thesis
      proof (rule fdalloc_ok [OF A5 [THEN conjunct1] _ _ w])
        assume n: "fd = -1" "w = v"
        then obtain x y where y: "fileclose (self v) j v = Some x" "iunlockput (self x) i x = Some y" "s' = end_tx y"
          using c args t Some v f w by (auto simp: sys_open_def bind_eq_Some_conv)
        note C = fileclose_ok [OF A5 [THEN conjunct1] _ _ y(1)]
        show ?thesis unfolding y(3) by (rule finish [OF C(2) _ _ y(2)]) (use C A A5 nu in simp_all)
      next
        fix k assume k: "fd = int k" "sys_ok others w" "acc w = acc v" "ftable w = ftable v"
        let ?g = "\<lambda>f. f\<lparr>f_type := FD_INODE, f_ip := i, f_off := 0, f_readable := (om AND O_WRONLY = 0),
          f_writable := (om AND O_WRONLY \<noteq> 0 \<or> om AND O_RDWR \<noteq> 0)\<rparr>"
        obtain y where y: "iunlock (self w) i w = Some y" "s' = set_file j ?g (end_tx y)"
          using c args t Some v f w k(1) by (auto simp: sys_open_def bind_eq_Some_conv Let_def)
        have aw: "acc w = lock i (ref 1 (tx 1 (acc s)))" using k(3) A(1) u(1) by (simp add: restores_def)
        have "becomes w (unlock i) y" by (rule iunlock_balance [OF y(1)]) (use aw u(2) in simp)
        then have z: "restores w (\<lambda>a. tx (-1) (unlock i a)) (end_tx y)"
          by (auto simp: restores_def end_tx_restores dest: becomes_restores)
        have "acc (end_tx y) = ref 1 (acc s)" "ftable (end_tx y) = ftable v" using z aw u(3) k(4) by (simp_all add: restores_def)
        moreover have "sys_ok others (set_file j ?g (end_tx y))"
          by (rule set_file_ok [OF sys_ok_restores [OF z _ k(2)]]) (use calculation A5 u(2) in simp_all)
        moreover have "inode_files (ftable v) = inode_files (ftable s)"
          using filealloc_balance(4) [OF v f] A5 u(1) by (simp add: inode_files_update restores_def)
        ultimately show ?thesis
          using A5 by (simp add: y(2) balanced_def net_def inode_files_update)
      qed (use A5 in simp_all)
    qed
  qed
qed

section \<open>All calls on files\<close>

text \<open>The entries of the table \<open>syscalls\<close> for the calls on files; \<open>exec\<close> is not among them.\<close>

definition file_call :: "'a ksys_scheme devsw list \<Rightarrow> byte list \<Rightarrow> handler \<Rightarrow> 'a ksys_scheme \<Rightarrow> (int \<times> 'a ksys_scheme) option" where
  "file_call ds stack h s = (case h of
     SYS_dup \<Rightarrow> sys_dup s
   | SYS_read \<Rightarrow> sys_read ds s
   | SYS_write \<Rightarrow> sys_write ds s
   | SYS_close \<Rightarrow> sys_close s
   | SYS_fstat \<Rightarrow> sys_fstat s
   | SYS_pipe \<Rightarrow> sys_pipe s
   | SYS_link \<Rightarrow> sys_link ds stack s
   | SYS_unlink \<Rightarrow> sys_unlink ds stack s
   | SYS_open \<Rightarrow> sys_open ds stack s
   | SYS_mkdir \<Rightarrow> sys_mkdir ds stack s
   | SYS_mknod \<Rightarrow> sys_mknod ds stack s
   | SYS_chdir \<Rightarrow> sys_chdir ds stack s
   | _ \<Rightarrow> None)"

lemma file_call_balanced:
  assumes ok: "sys_ok others s" and ds: "devices_ok ds" and c: "file_call ds stack h s = Some (r, s')"
  shows "balanced others s s'"
proof -
  obtain cw where cw: "cwd (up s) = Some cw" "cw < a_len (acc s)" using ok by (auto simp: sys_ok_def)
  have R: "balanced others s s'" if "returns (\<lambda>(r, t). restores s (\<lambda>a. a) t) m" "m = Some (r, s')" for m
    using that restores_balanced [OF _ ok] by (simp add: returns_def)
  note paths = sys_link_restores sys_unlink_restores sys_mkdir_restores sys_mknod_restores
  have D: "balanced others s s'" if "sys_chdir ds stack s = Some (r, s')"
    using sys_chdir_restores [OF ds cw, of stack] that ok by (auto simp: returns_def balanced_def sys_ok_def net_def)
  show ?thesis
    using c R [OF paths(1) [OF ds cw]] R [OF paths(2) [OF ds cw]] R [OF paths(3) [OF ds cw]] R [OF paths(4) [OF ds cw]] D
      sys_dup_balanced [OF ok] sys_read_balanced [OF ok ds] sys_write_balanced [OF ok ds] sys_close_balanced [OF ok]
      sys_fstat_balanced [OF ok] sys_pipe_balanced [OF ok] sys_open_balanced [OF ok ds]
    by (cases h) (simp_all add: file_call_def)
qed

definition demo_file :: kfile where
  "demo_file = \<lparr>f_type = FD_INODE, f_ref = 1, f_readable = True, f_writable = False, f_pipe = 0, f_ip = 1, f_off = 0\<rparr>"

definition demo_sys :: ksys where
  "demo_sys = kern.extend (fs.extend demo_fs (kern.fields [demo_file]
      (\<lambda>_. \<lparr>data = replicate PIPESIZE 0, nread = 0, nwrite = 0, readopen = False, writeopen = False\<rparr>) [] []))
     (ksys.fields (demo_caller\<lparr>ofile := Some 0 # replicate 15 None\<rparr>) (\<lambda>_. 0))"

definition no_devices :: "'a fs_scheme devsw list" where
  "no_devices = replicate NDEV \<lparr>dev_read = None, dev_write = None\<rparr>"

lemma no_devices_ok: "devices_ok no_devices"
  by (auto simp: devices_ok_def no_devices_def)

lemma demo_sys_simps:
  "ftable demo_sys = [demo_file]" "ofile (up demo_sys) = Some 0 # replicate 15 None" "um demo_sys = (\<lambda>_. 0)" "cwd (up demo_sys) = Some 0"
  "length (icache demo_sys) = 2"
  by (simp_all add: demo_sys_def fs.defs kern.defs ksys.defs demo_fs_def demo_caller_def)

lemma demo_sys_ok: "sys_ok (\<lambda>_. 0) demo_sys"
  by (simp add: sys_ok_def files_ok_def demo_sys_simps NOFILE_def acc_sel demo_file_def)

lemma demo_dup:
  "file_call ds stack SYS_dup demo_sys = Some (1, set_file 0 (\<lambda>f. f\<lparr>f_ref := f_ref f + 1\<rparr>) (set_fd 1 (Some 0) demo_sys))"
proof -
  have "argint (um demo_sys) (up demo_sys) 0 = Some 0"
    by (simp add: argint_def fetchint_def demo_sys_def fs.defs kern.defs ksys.defs demo_caller_def load32_def)
  then have "argfd 0 demo_sys = Some (0, 0)" by (simp add: argfd_def demo_sys_simps NOFILE_def)
  moreover have "replicate 15 (None :: nat option) = None # replicate 14 None" by (simp add: numeral_eq_Suc)
  ultimately show ?thesis by (simp add: file_call_def sys_dup_def fdalloc_def filedup_def demo_sys_simps demo_file_def)
qed

text \<open>C4: No call on files leaves a transaction open, a buffer held, an inode locked or an inode reference behind, on
  any path of its code: the counts of operations, buffers, locks and references, less the references that open
  files hold, are the same after the call as before.\<close>

theorem file_calls_leak_nothing:
  assumes "sys_ok others s" and "devices_ok ds" and "file_call ds stack h s = Some (r, s')"
  shows "net s' = net s"
  using file_call_balanced [OF assms] by (simp add: balanced_def)

theorem file_calls_leak_nothing_witness:
  "net (set_file 0 (\<lambda>f. f\<lparr>f_ref := f_ref f + 1\<rparr>) (set_fd 1 (Some 0) demo_sys)) = net demo_sys"
  by (rule file_calls_leak_nothing [OF demo_sys_ok no_devices_ok demo_dup [of _ "[]"]])

text \<open>C5: Every call on files keeps the tables well formed: each descriptor names an entry of the file table, the
  count of each entry is the number of descriptors and other holders of it, an entry with count zero has no
  type, the inodes of files are in the cache and the process has a current directory.\<close>

theorem file_calls_keep_tables:
  assumes "sys_ok others s" and "devices_ok ds" and "file_call ds stack h s = Some (r, s')"
  shows "sys_ok others s'"
  using file_call_balanced [OF assms] by (simp add: balanced_def)

theorem file_calls_keep_tables_witness:
  "sys_ok (\<lambda>_. 0) (set_file 0 (\<lambda>f. f\<lparr>f_ref := f_ref f + 1\<rparr>) (set_fd 1 (Some 0) demo_sys))"
  by (rule file_calls_keep_tables [OF demo_sys_ok no_devices_ok demo_dup [of _ "[]"]])

end
