(* ===== verification/Vm.thy ===== *)
theory Vm
  imports Kalloc Printf
begin

text \<open>
  Page tables (\<open>vm.c\<close>, with \<open>mmu.h\<close>). The state is the machine of \<open>Kalloc\<close>: page directories and page
  tables are pages of its memory, read and written as 32-bit entries at kernel addresses. A panic, or an
  access through a null pointer, is \<open>None\<close>; a null result is the address 0. The messages that
  \<open>allocuvm\<close> prints are part of its result. \<open>kend\<close> and \<open>kdata\<close> are the linker's addresses \<open>end\<close> and
  \<open>data\<close>.
\<close>

section \<open>Addresses and entries\<close>

definition EXTMEM :: u32 where "EXTMEM = 0x100000"
definition DEVSPACE :: u32 where "DEVSPACE = 0xFE000000"
definition KERNLINK :: u32 where "KERNLINK = KERNBASE + EXTMEM"
definition NPDENTRIES :: nat where "NPDENTRIES = 1024"

definition PTE_P :: u32 where "PTE_P = 1"
definition PTE_W :: u32 where "PTE_W = 2"
definition PTE_U :: u32 where "PTE_U = 4"

unbundle bit_operations_syntax

definition PDX :: "u32 \<Rightarrow> u32" where "PDX va = drop_bit 22 va AND 0x3FF"
definition PTX :: "u32 \<Rightarrow> u32" where "PTX va = drop_bit 12 va AND 0x3FF"
definition PGADDR :: "u32 \<Rightarrow> u32 \<Rightarrow> u32 \<Rightarrow> u32" where
  "PGADDR d t k = push_bit 22 d OR push_bit 12 t OR k"
definition PTE_ADDR :: "u32 \<Rightarrow> u32" where "PTE_ADDR e = e AND NOT 0xFFF"
definition PTE_FLAGS :: "u32 \<Rightarrow> u32" where "PTE_FLAGS e = e AND 0xFFF"

definition get_word :: "u32 \<Rightarrow> kmachine \<Rightarrow> u32" where
  "get_word a s = load32 (ram s) a"

definition put_word :: "u32 \<Rightarrow> u32 \<Rightarrow> kmachine \<Rightarrow> kmachine" where
  "put_word a v s = s\<lparr>ram := store32 (ram s) a v\<rparr>"

definition clear_page :: "u32 \<Rightarrow> kmachine \<Rightarrow> kmachine" where
  "clear_page p s = s\<lparr>ram := memset (ram s) p 0 PGSIZE\<rparr>"

section \<open>Walking and mapping\<close>

text \<open>The address of the entry for \<open>va\<close>, or 0.\<close>

definition walkpgdir :: "nat \<Rightarrow> u32 \<Rightarrow> u32 \<Rightarrow> bool \<Rightarrow> kmachine \<Rightarrow> (u32 \<times> kmachine) option" where
  "walkpgdir me pgdir va alloc s =
     (let pde = pgdir + 4 * PDX va in
      if get_word pde s AND PTE_P \<noteq> 0 then Some (P2V (PTE_ADDR (get_word pde s)) + 4 * PTX va, s)
      else if \<not> alloc then Some (0, s)
      else do {
        (pgtab, s) \<leftarrow> kalloc me s;
        (if pgtab = 0 then Some (0, s)
         else do {
           let s = clear_page pgtab s;
           let s = put_word pde (V2P pgtab OR PTE_P OR PTE_W OR PTE_U) s;
           Some (pgtab + 4 * PTX va, s)
         })
      })"

partial_function (option) mappages_loop :: "nat \<Rightarrow> u32 \<Rightarrow> u32 \<Rightarrow> u32 \<Rightarrow> u32 \<Rightarrow> u32 \<Rightarrow> kmachine \<Rightarrow> (int \<times> kmachine) option" where
  "mappages_loop me pgdir perm last' a pa s = do {
     (pte, s) \<leftarrow> walkpgdir me pgdir a True s;
     (if pte = 0 then Some (-1, s)
      else if get_word pte s AND PTE_P \<noteq> 0 then None
      else do {
        let s = put_word pte (pa OR perm OR PTE_P) s;
        (if a = last' then Some (0, s) else mappages_loop me pgdir perm last' (a + PGSIZE) (pa + PGSIZE) s)
      })
   }"

definition mappages :: "nat \<Rightarrow> u32 \<Rightarrow> u32 \<Rightarrow> u32 \<Rightarrow> u32 \<Rightarrow> u32 \<Rightarrow> kmachine \<Rightarrow> (int \<times> kmachine) option" where
  "mappages me pgdir va size' pa perm s =
     mappages_loop me pgdir perm (PGROUNDDOWN (va + size' - 1)) (PGROUNDDOWN va) pa s"

section \<open>Freeing\<close>

partial_function (option) deallocuvm_loop :: "u32 \<Rightarrow> nat \<Rightarrow> u32 \<Rightarrow> u32 \<Rightarrow> u32 \<Rightarrow> kmachine \<Rightarrow> kmachine option" where
  "deallocuvm_loop kend me pgdir oldsz a s =
     (if \<not> a < oldsz then Some s
      else do {
        (pte, s) \<leftarrow> walkpgdir me pgdir a False s;
        (if pte = 0 then deallocuvm_loop kend me pgdir oldsz (PGADDR (PDX a + 1) 0 0 - PGSIZE + PGSIZE) s
         else if get_word pte s AND PTE_P \<noteq> 0 then
           let pa = PTE_ADDR (get_word pte s) in
           if pa = 0 then None
           else do {
             s \<leftarrow> kfree kend me (P2V pa) s;
             let s = put_word pte 0 s;
             deallocuvm_loop kend me pgdir oldsz (a + PGSIZE) s
           }
         else deallocuvm_loop kend me pgdir oldsz (a + PGSIZE) s)
      })"

definition deallocuvm :: "u32 \<Rightarrow> nat \<Rightarrow> u32 \<Rightarrow> u32 \<Rightarrow> u32 \<Rightarrow> kmachine \<Rightarrow> (u32 \<times> kmachine) option" where
  "deallocuvm kend me pgdir oldsz newsz s =
     (if oldsz \<le> newsz then Some (oldsz, s)
      else do {
        s \<leftarrow> deallocuvm_loop kend me pgdir oldsz (PGROUNDUP newsz) s;
        Some (newsz, s)
      })"

fun free_tables :: "u32 \<Rightarrow> nat \<Rightarrow> u32 \<Rightarrow> nat list \<Rightarrow> kmachine \<Rightarrow> kmachine option" where
  "free_tables kend me pgdir [] s = Some s"
| "free_tables kend me pgdir (i # is) s = do {
     let e = get_word (pgdir + 4 * of_nat i) s;
     s \<leftarrow> (if e AND PTE_P \<noteq> 0 then kfree kend me (P2V (PTE_ADDR e)) s else Some s);
     free_tables kend me pgdir is s
   }"

definition freevm :: "u32 \<Rightarrow> nat \<Rightarrow> u32 \<Rightarrow> kmachine \<Rightarrow> kmachine option" where
  "freevm kend me pgdir s =
     (if pgdir = 0 then None
      else do {
        (_, s) \<leftarrow> deallocuvm kend me pgdir KERNBASE 0 s;
        s \<leftarrow> free_tables kend me pgdir [0..<NPDENTRIES] s;
        kfree kend me pgdir s
      })"

section \<open>New address spaces\<close>

record kmap_entry =
  virt :: u32
  phys_start :: u32
  phys_end :: u32
  perm :: u32

definition kmap :: "u32 \<Rightarrow> kmap_entry list" where
  "kmap kdata =
     [\<lparr>virt = KERNBASE, phys_start = 0, phys_end = EXTMEM, perm = PTE_W\<rparr>,
      \<lparr>virt = KERNLINK, phys_start = V2P KERNLINK, phys_end = V2P kdata, perm = 0\<rparr>,
      \<lparr>virt = kdata, phys_start = V2P kdata, phys_end = PHYSTOP, perm = PTE_W\<rparr>,
      \<lparr>virt = DEVSPACE, phys_start = DEVSPACE, phys_end = 0, perm = PTE_W\<rparr>]"

fun map_kernel :: "u32 \<Rightarrow> nat \<Rightarrow> u32 \<Rightarrow> kmap_entry list \<Rightarrow> kmachine \<Rightarrow> (u32 \<times> kmachine) option" where
  "map_kernel kend me pgdir [] s = Some (pgdir, s)"
| "map_kernel kend me pgdir (k # ks) s = do {
     (r, s) \<leftarrow> mappages me pgdir (virt k) (phys_end k - phys_start k) (phys_start k) (perm k) s;
     (if r < 0 then do {
        s \<leftarrow> freevm kend me pgdir s;
        Some (0, s)
      }
      else map_kernel kend me pgdir ks s)
   }"

definition setupkvm :: "u32 \<Rightarrow> u32 \<Rightarrow> nat \<Rightarrow> kmachine \<Rightarrow> (u32 \<times> kmachine) option" where
  "setupkvm kend kdata me s = do {
     (pgdir, s) \<leftarrow> kalloc me s;
     (if pgdir = 0 then Some (0, s)
      else do {
        let s = clear_page pgdir s;
        (if DEVSPACE < P2V PHYSTOP then None else map_kernel kend me pgdir (kmap kdata) s)
      })
   }"

text \<open>The result of \<open>kalloc\<close> and of \<open>mappages\<close> is not tested.\<close>

definition inituvm :: "nat \<Rightarrow> u32 \<Rightarrow> u32 \<Rightarrow> u32 \<Rightarrow> kmachine \<Rightarrow> kmachine option" where
  "inituvm me pgdir init size' s =
     (if PGSIZE \<le> size' then None
      else do {
        (p, s) \<leftarrow> kalloc me s;
        let s = clear_page p s;
        (_, s) \<leftarrow> mappages me pgdir 0 PGSIZE (V2P p) (PTE_W OR PTE_U) s;
        Some (s\<lparr>ram := memmove (ram s) p init size'\<rparr>)
      })"

definition no_page :: "byte list" where "no_page = bytes ''allocuvm out of memory'' @ [10]"
definition no_table :: "byte list" where "no_table = bytes ''allocuvm out of memory (2)'' @ [10]"

partial_function (option) allocuvm_loop :: "u32 \<Rightarrow> nat \<Rightarrow> u32 \<Rightarrow> u32 \<Rightarrow> u32 \<Rightarrow> u32 \<Rightarrow> kmachine \<Rightarrow> (u32 \<times> byte list \<times> kmachine) option" where
  "allocuvm_loop kend me pgdir oldsz newsz a s =
     (if \<not> a < newsz then Some (newsz, [], s)
      else do {
        (p, s) \<leftarrow> kalloc me s;
        (if p = 0 then do {
           (_, s) \<leftarrow> deallocuvm kend me pgdir newsz oldsz s;
           Some (0, no_page, s)
         }
         else do {
           let s = clear_page p s;
           (r, s) \<leftarrow> mappages me pgdir a PGSIZE (V2P p) (PTE_W OR PTE_U) s;
           (if r < 0 then do {
              (_, s) \<leftarrow> deallocuvm kend me pgdir newsz oldsz s;
              s \<leftarrow> kfree kend me p s;
              Some (0, no_table, s)
            }
            else allocuvm_loop kend me pgdir oldsz newsz (a + PGSIZE) s)
         })
      })"

definition allocuvm :: "u32 \<Rightarrow> nat \<Rightarrow> u32 \<Rightarrow> u32 \<Rightarrow> u32 \<Rightarrow> kmachine \<Rightarrow> (u32 \<times> byte list \<times> kmachine) option" where
  "allocuvm kend me pgdir oldsz newsz s =
     (if KERNBASE \<le> newsz then Some (0, [], s)
      else if newsz < oldsz then Some (oldsz, [], s)
      else allocuvm_loop kend me pgdir oldsz newsz (PGROUNDUP oldsz) s)"

definition clearpteu :: "nat \<Rightarrow> u32 \<Rightarrow> u32 \<Rightarrow> kmachine \<Rightarrow> kmachine option" where
  "clearpteu me pgdir uva s = do {
     (pte, s) \<leftarrow> walkpgdir me pgdir uva False s;
     (if pte = 0 then None else Some (put_word pte (get_word pte s AND NOT PTE_U) s))
   }"

section \<open>Copying\<close>

partial_function (option) copyuvm_loop :: "u32 \<Rightarrow> nat \<Rightarrow> u32 \<Rightarrow> u32 \<Rightarrow> u32 \<Rightarrow> u32 \<Rightarrow> kmachine \<Rightarrow> (bool \<times> kmachine) option" where
  "copyuvm_loop kend me pgdir d size' i s =
     (if \<not> i < size' then Some (True, s)
      else do {
        (pte, s) \<leftarrow> walkpgdir me pgdir i False s;
        (if pte = 0 then None
         else if get_word pte s AND PTE_P = 0 then None
         else do {
           let pa = PTE_ADDR (get_word pte s);
           let flags = PTE_FLAGS (get_word pte s);
           (p, s) \<leftarrow> kalloc me s;
           (if p = 0 then Some (False, s)
            else do {
              let s = s\<lparr>ram := memmove (ram s) p (P2V pa) PGSIZE\<rparr>;
              (r, s) \<leftarrow> mappages me d i PGSIZE (V2P p) flags s;
              (if r < 0 then do {
                 s \<leftarrow> kfree kend me p s;
                 Some (False, s)
               }
               else copyuvm_loop kend me pgdir d size' (i + PGSIZE) s)
            })
         })
      })"

definition copyuvm :: "u32 \<Rightarrow> u32 \<Rightarrow> nat \<Rightarrow> u32 \<Rightarrow> u32 \<Rightarrow> kmachine \<Rightarrow> (u32 \<times> kmachine) option" where
  "copyuvm kend kdata me pgdir size' s = do {
     (d, s) \<leftarrow> setupkvm kend kdata me s;
     (if d = 0 then Some (0, s)
      else do {
        (ok, s) \<leftarrow> copyuvm_loop kend me pgdir d size' 0 s;
        (if ok then Some (d, s)
         else do {
           s \<leftarrow> freevm kend me d s;
           Some (0, s)
         })
      })
   }"

text \<open>The null result of \<open>walkpgdir\<close> is not tested before the entry is read.\<close>

definition uva2ka :: "nat \<Rightarrow> u32 \<Rightarrow> u32 \<Rightarrow> kmachine \<Rightarrow> u32 option" where
  "uva2ka me pgdir uva s = do {
     (pte, s) \<leftarrow> walkpgdir me pgdir uva False s;
     (if pte = 0 then None
      else if get_word pte s AND PTE_P = 0 then Some 0
      else if get_word pte s AND PTE_U = 0 then Some 0
      else Some (P2V (PTE_ADDR (get_word pte s))))
   }"

partial_function (option) copyout :: "nat \<Rightarrow> u32 \<Rightarrow> u32 \<Rightarrow> u32 \<Rightarrow> u32 \<Rightarrow> kmachine \<Rightarrow> (int \<times> kmachine) option" where
  "copyout me pgdir va buf len s =
     (if len = 0 then Some (0, s)
      else do {
        let va0 = PGROUNDDOWN va;
        pa0 \<leftarrow> uva2ka me pgdir va0 s;
        (if pa0 = 0 then Some (-1, s)
         else do {
           let n = PGSIZE - (va - va0);
           let n = (if len < n then len else n);
           let s = s\<lparr>ram := memmove (ram s) (pa0 + (va - va0)) buf n\<rparr>;
           copyout me pgdir (va0 + PGSIZE) (buf + n) (len - n) s
         })
      })"

end
