(* ===== verification/VmSafety.thy ===== *)
theory VmSafety
  imports Vm
begin

text \<open>
  Page tables are well formed and translate as they should: the page directory as a function from virtual
  addresses to entries, what \<open>walkpgdir\<close> and \<open>mappages\<close> do to this function and to the memory around it, and
  what \<open>copyout\<close> writes. The allocator is used through its interface \<open>kmem_rep\<close>.
\<close>

unbundle bit_operations_syntax

section \<open>Indices and entries\<close>

lemma unat_PDX: "unat (PDX va) = unat va div 2 ^ 22"
proof -
  have m: "(0x3FF :: u32) = mask 10" by (simp add: mask_eq_exp_minus_1)
  have "drop_bit 22 va AND 0x3FF = take_bit 10 (drop_bit 22 va)" unfolding m take_bit_eq_mask ..
  also have "\<dots> = drop_bit 22 va"
  proof (rule bit_word_eqI)
    fix n assume "n < LENGTH(32)"
    show "bit (take_bit 10 (drop_bit 22 va)) n = bit (drop_bit 22 va) n"
      by (auto simp: bit_simps dest: bit_imp_le_length)
  qed
  finally have "PDX va = va div 4194304" by (simp add: PDX_def drop_bit_eq_div)
  then show ?thesis by (simp add: unat_u32_div)
qed

lemma unat_PTX: "unat (PTX va) = unat va div 4096 mod 1024"
proof -
  have m: "(0x3FF :: u32) = mask 10" by (simp add: mask_eq_exp_minus_1)
  have "PTX va = take_bit 10 (drop_bit 12 va)" unfolding PTX_def m take_bit_eq_mask ..
  then show ?thesis by (simp add: take_bit_eq_mod drop_bit_eq_div unat_u32_mod unat_u32_div)
qed

lemma index_less: "unat (PDX va) < 1024" "unat (PTX va) < 1024"
  using unat_u32_lt [of va] by (simp_all add: unat_PDX unat_PTX less_mult_imp_div_less)

lemma same_page: "PDX va = PDX wa \<and> PTX va = PTX wa \<longleftrightarrow> unat va div 4096 = unat wa div 4096"
proof -
  have "unat va div 2 ^ 22 = unat va div 4096 div 1024" for va :: u32 by (simp add: div_mult2_eq [symmetric])
  then show ?thesis unfolding word_unat_eq_iff [of "PDX va"] word_unat_eq_iff [of "PTX va"] unat_PDX unat_PTX
    by (metis div_mult_mod_eq)
qed

lemma or_flags:
  assumes "unat p mod 4096 = 0" "unat f < 4096"
  shows "PTE_ADDR (p OR f) = p" "PTE_FLAGS (p OR f) = f"
proof -
  have m: "(0xFFF :: u32) = mask 12" by (simp add: mask_eq_exp_minus_1)
  have p: "take_bit 12 p = 0" using assms(1) by (simp add: take_bit_eq_mod word_unat_eq_iff unat_u32_mod)
  have f: "take_bit 12 f = f" using assms(2) by (simp add: take_bit_eq_mod word_unat_eq_iff unat_u32_mod)
  have pb: "bit p n \<Longrightarrow> 12 \<le> n" for n using p by (metis bit_0_eq bit_take_bit_iff bot_apply bot_bool_def not_le)
  have fb: "bit f n \<Longrightarrow> n < 12" for n using f by (metis bit_take_bit_iff)
  show "PTE_ADDR (p OR f) = p" unfolding PTE_ADDR_def m
    by (rule bit_word_eqI) (auto simp: bit_simps dest: pb fb)
  show "PTE_FLAGS (p OR f) = f" unfolding PTE_FLAGS_def m
    by (rule bit_word_eqI) (auto simp: bit_simps dest: pb fb)
qed

lemma V2P_inverse [simp]: "P2V (V2P p) = p" "V2P (P2V p) = p"
  by (simp_all add: P2V_def V2P_def)

lemma V2P_aligned: "unat p mod 4096 = 0 \<Longrightarrow> unat (V2P p) mod 4096 = 0"
proof -
  assume p: "unat p mod 4096 = 0"
  have "V2P p = p + KERNBASE" by (simp add: V2P_def KERNBASE_def)
  then have "unat (V2P p) = (unat p + 2147483648) mod 2 ^ 32" by (simp add: unat_u32_plus KERNBASE_def)
  moreover have "(unat p + 2147483648) mod 2 ^ 32 mod 4096 = (unat p + 2147483648) mod 4096" by (rule mod_mod_cancel) simp
  moreover have "(unat p + 2147483648) mod 4096 = (unat p mod 4096 + 2147483648 mod 4096) mod 4096" by (rule mod_add_eq [symmetric])
  ultimately show ?thesis using p by simp
qed

section \<open>Words of a page\<close>

abbreviation word_at :: "u32 \<Rightarrow> u32 \<Rightarrow> u32" where
  "word_at p i \<equiv> p + 4 * i"

lemma unat_word_offset: "unat i < 1024 \<Longrightarrow> k < 4 \<Longrightarrow> unat (4 * i + of_nat k :: u32) = 4 * unat i + k"
proof -
  assume i: "unat i < 1024" and k: "k < 4"
  have "unat (4 * i) = 4 * unat i" using i by (simp add: unat_u32_times)
  moreover have "unat (of_nat k :: u32) = k" using k by (simp add: unat_of_nat_u32)
  ultimately show ?thesis using i k by (simp add: unat_u32_plus)
qed

lemma word_in_page: "unat i < 1024 \<Longrightarrow> k < 4 \<Longrightarrow> in_block (word_at p i + of_nat k) p 4096"
  using unat_word_offset [of i k] by (simp add: in_block_def add.commute add.left_commute add_diff_eq)

lemma word_nonzero:
  assumes "page_ok kend p" "unat i < 1024"
  shows "word_at p i \<noteq> 0"
proof
  assume z: "word_at p i = 0"
  have "in_block (word_at p i) p 4096" using word_in_page [OF assms(2), of 0] by simp
  then have "unat p div 4096 = 0" using in_page [OF page_ok_aligned [OF assms(1)], of 0] z by simp
  then have "unat p = 0" using page_ok_aligned [OF assms(1)] by (metis mod_div_trivial mult_0_right mult_div_mod_eq add_0)
  then show False using page_ok_nonzero [OF assms(1)] by (simp add: unat_eq_zero)
qed

lemma load32_other_word:
  assumes p: "unat p mod 4096 = 0" and q: "unat q mod 4096 = 0" and i: "unat i < 1024" and j: "unat j < 1024"
    and ne: "p \<noteq> q \<or> i \<noteq> j"
  shows "load32 (store32 m (word_at p i) v) (word_at q j) = load32 m (word_at q j)"
proof -
  have ne: "word_at q j + of_nat k \<noteq> word_at p i + of_nat l" if k: "k < 4" and l: "l < 4" for k l
  proof
    assume e: "word_at q j + of_nat k = word_at p i + of_nat l"
    show False
    proof (cases "p = q")
      case True
      then have "4 * j + of_nat k = 4 * i + of_nat l" using e by (simp add: add.assoc)
      then have "4 * unat j + k = 4 * unat i + l" using unat_word_offset [OF j k] unat_word_offset [OF i l] by metis
      then have "unat j = unat i" using k l by arith
      then show False using True ne by (simp add: word_unat_eq_iff)
    next
      case False
      then show False
        using pages_disjoint [OF p q False word_in_page [OF i l, of p]] word_in_page [OF j k, of q] e by simp
    qed
  qed
  have "store32 m (word_at p i) v (word_at q j + of_nat k) = m (word_at q j + of_nat k)" if k: "k < 4" for k
    using ne [OF k, of 0] ne [OF k, of 1] ne [OF k, of 2] ne [OF k, of 3] by (intro store32_other) simp_all
  from this [of 0] this [of 1] this [of 2] this [of 3] show ?thesis by (intro load32_cong) simp_all
qed

lemma store32_outside_page: "unat i < 1024 \<Longrightarrow> \<not> in_block a p 4096 \<Longrightarrow> store32 m (word_at p i) v a = m a"
  using word_in_page [of i 0 p] word_in_page [of i 1 p] word_in_page [of i 2 p] word_in_page [of i 3 p]
  by (intro store32_other) auto

lemma load32_same_page:
  assumes "\<And>a. in_block a q 4096 \<Longrightarrow> m' a = m a" "unat j < 1024"
  shows "load32 m' (word_at q j) = load32 m (word_at q j)"
  using word_in_page [OF assms(2), of 0 q] word_in_page [OF assms(2), of 1 q] word_in_page [OF assms(2), of 2 q]
    word_in_page [OF assms(2), of 3 q] by (intro load32_cong assms(1)) simp_all

lemma load32_zero_page: "unat j < 1024 \<Longrightarrow> load32 (memset m p 0 PGSIZE) (word_at p j) = 0"
  using word_in_page [of j 0 p] word_in_page [of j 1 p] word_in_page [of j 2 p] word_in_page [of j 3 p]
  by (simp add: load32_def memset_spec PGSIZE_def)

section \<open>Page tables\<close>

definition present :: "u32 \<Rightarrow> bool" where
  "present e \<longleftrightarrow> e AND PTE_P \<noteq> 0"

definition pde :: "mem \<Rightarrow> u32 \<Rightarrow> u32 \<Rightarrow> u32" where
  "pde m pd va = load32 m (word_at pd (PDX va))"

definition table :: "mem \<Rightarrow> u32 \<Rightarrow> u32 \<Rightarrow> u32" where
  "table m pd va = P2V (PTE_ADDR (pde m pd va))"

text \<open>The page-table entry that translates \<open>va\<close>; 0 when there is no table.\<close>

definition pte :: "mem \<Rightarrow> u32 \<Rightarrow> u32 \<Rightarrow> u32" where
  "pte m pd va = (if present (pde m pd va) then load32 m (word_at (table m pd va) (PTX va)) else 0)"

definition tables :: "mem \<Rightarrow> u32 \<Rightarrow> u32 set" where
  "tables m pd = {t. \<exists>va. present (pde m pd va) \<and> t = table m pd va}"

text \<open>A well-formed page directory beside the free pages \<open>ps\<close>: its tables are pages of their own.\<close>

definition pt_ok :: "u32 \<Rightarrow> mem \<Rightarrow> u32 \<Rightarrow> u32 list \<Rightarrow> bool" where
  "pt_ok kend m pd ps \<longleftrightarrow> page_ok kend pd \<and> pd \<notin> set ps \<and>
     (\<forall>va. present (pde m pd va) \<longrightarrow> page_ok kend (table m pd va) \<and> table m pd va \<notin> set ps \<and> table m pd va \<noteq> pd) \<and>
     (\<forall>va wa. present (pde m pd va) \<longrightarrow> present (pde m pd wa) \<longrightarrow> table m pd va = table m pd wa \<longrightarrow> PDX va = PDX wa)"

lemma pt_okD:
  assumes "pt_ok kend m pd ps"
  shows "page_ok kend pd" "pd \<notin> set ps" "present (pde m pd va) \<Longrightarrow> page_ok kend (table m pd va)"
    "present (pde m pd va) \<Longrightarrow> table m pd va \<notin> set ps" "present (pde m pd va) \<Longrightarrow> table m pd va \<noteq> pd"
    "present (pde m pd va) \<Longrightarrow> present (pde m pd wa) \<Longrightarrow> table m pd va = table m pd wa \<Longrightarrow> PDX va = PDX wa"
  using assms unfolding pt_ok_def by blast+

lemma pt_ok_sub: "pt_ok kend m pd ps \<Longrightarrow> set qs \<subseteq> set ps \<Longrightarrow> pt_ok kend m pd qs"
  unfolding pt_ok_def by blast

lemma aligned: "page_ok kend p \<Longrightarrow> unat p mod 4096 = 0"
  by (rule page_ok_aligned)

text \<open>Memory that changes outside the directory and its tables.\<close>

lemma pt_cong:
  assumes ok: "pt_ok kend m pd ps" and pd: "\<And>a. in_block a pd 4096 \<Longrightarrow> m' a = m a"
    and t: "\<And>a t. t \<in> tables m pd \<Longrightarrow> in_block a t 4096 \<Longrightarrow> m' a = m a"
  shows "pde m' pd va = pde m pd va" "table m' pd va = table m pd va" "pte m' pd va = pte m pd va" "pt_ok kend m' pd ps"
    "tables m' pd = tables m pd"
proof -
  have d: "pde m' pd va = pde m pd va" for va
    unfolding pde_def by (rule load32_same_page [OF pd index_less(1)])
  then have e: "table m' pd va = table m pd va" for va by (simp add: table_def)
  show "pde m' pd va = pde m pd va" "table m' pd va = table m pd va" by (rule d, rule e)
  show "pte m' pd va = pte m pd va"
  proof (cases "present (pde m pd va)")
    case True
    then have "table m pd va \<in> tables m pd" by (auto simp: tables_def)
    then have "load32 m' (word_at (table m pd va) (PTX va)) = load32 m (word_at (table m pd va) (PTX va))"
      by (intro load32_same_page index_less(2)) (rule t)
    then show ?thesis by (simp add: pte_def d e)
  qed (simp add: pte_def d)
  show "pt_ok kend m' pd ps" using ok unfolding pt_ok_def d e .
  show "tables m' pd = tables m pd" by (simp add: tables_def d e)
qed

text \<open>Writing an entry of an existing table.\<close>

lemma set_pte:
  fixes v :: u32
  assumes ok: "pt_ok kend m pd ps" and t: "present (pde m pd va)"
  defines "m' \<equiv> store32 m (word_at (table m pd va) (PTX va)) v"
  shows "pde m' pd wa = pde m pd wa" "pt_ok kend m' pd ps" "tables m' pd = tables m pd"
    "pte m' pd wa = (if unat wa div 4096 = unat va div 4096 then v else pte m pd wa)"
proof -
  let ?t = "table m pd va"
  have T: "unat ?t mod 4096 = 0" "unat pd mod 4096 = 0" "?t \<noteq> pd"
    using pt_okD(1,3,5) [OF ok] t aligned by blast+
  have d: "pde m' pd wa = pde m pd wa" for wa
    unfolding pde_def m'_def by (rule load32_other_word [OF T(1,2) index_less(2) index_less(1)]) (use T(3) in simp)
  then have e: "table m' pd wa = table m pd wa" for wa by (simp add: table_def)
  show "pde m' pd wa = pde m pd wa" by (rule d)
  show "pt_ok kend m' pd ps" using ok unfolding pt_ok_def d e .
  show "tables m' pd = tables m pd" by (simp add: tables_def d e)
  show "pte m' pd wa = (if unat wa div 4096 = unat va div 4096 then v else pte m pd wa)"
  proof (cases "present (pde m pd wa)")
    case False
    then have "PDX wa \<noteq> PDX va" using t by (auto simp: pde_def)
    then have "unat wa div 4096 \<noteq> unat va div 4096" using same_page by blast
    then show ?thesis using False by (simp add: pte_def d)
  next
    case True
    have W: "unat (table m pd wa) mod 4096 = 0" using pt_okD(3) [OF ok True] aligned by blast
    have l: "pte m' pd wa = load32 m' (word_at (table m pd wa) (PTX wa))" unfolding pte_def d e using True by simp
    show ?thesis
    proof (cases "unat wa div 4096 = unat va div 4096")
      case same: True
      then have "PDX wa = PDX va" "PTX wa = PTX va" using same_page by blast+
      then have "table m pd wa = ?t" "PTX wa = PTX va" by (simp_all add: table_def pde_def)
      then show ?thesis unfolding l using same by (simp add: m'_def load32_stored)
    next
      case other: False
      then have "\<not> (PDX wa = PDX va \<and> PTX wa = PTX va)" using same_page by blast
      moreover have "table m pd wa = ?t \<Longrightarrow> PDX wa = PDX va" using pt_okD(6) [OF ok True t] .
      ultimately have "?t \<noteq> table m pd wa \<or> PTX va \<noteq> PTX wa" by auto
      then have "load32 m' (word_at (table m pd wa) (PTX wa)) = load32 m (word_at (table m pd wa) (PTX wa))"
        unfolding m'_def by (rule load32_other_word [OF T(1) W index_less(2) index_less(2)])
      then show ?thesis unfolding l using True other by (simp add: pte_def)
    qed
  qed
qed

text \<open>A new, empty table.\<close>

lemma new_table:
  assumes ok: "pt_ok kend m pd (p # ps)" and p: "page_ok kend p" "p \<notin> set ps" and t: "\<not> present (pde m pd va)"
  defines "m' \<equiv> store32 (memset m p 0 PGSIZE) (word_at pd (PDX va)) (V2P p OR PTE_P OR PTE_W OR PTE_U)"
  shows "present (pde m' pd va)" "table m' pd va = p" "pt_ok kend m' pd ps" "tables m' pd = insert p (tables m pd)" "pte m' pd wa = pte m pd wa"
    "\<not> in_block a pd 4096 \<Longrightarrow> \<not> in_block a p 4096 \<Longrightarrow> m' a = m a"
proof -
  let ?m = "memset m p 0 PGSIZE" and ?e = "V2P p OR PTE_P OR PTE_W OR PTE_U"
  have P: "unat p mod 4096 = 0" "unat pd mod 4096 = 0" "p \<noteq> pd" using p pt_okD(1,2) [OF ok] aligned by auto
  have m: "?m a = m a" if "\<not> in_block a p 4096" for a using that by (simp add: memset_spec PGSIZE_def)
  have d0: "pde ?m pd wa = pde m pd wa" for wa
    unfolding pde_def
    by (rule load32_same_page [OF _ index_less(1)]) (use m pages_disjoint [OF P(2,1)] P(3) in blast)
  have f: "PTE_P OR (PTE_W OR PTE_U) = 7" by (simp add: PTE_P_def PTE_W_def PTE_U_def)
  have e: "?e = V2P p OR 7" using f by (simp only: or.assoc)
  have "PTE_ADDR ?e = V2P p" unfolding e by (rule or_flags [OF V2P_aligned [OF P(1)]]) simp
  moreover have "present ?e"
  proof -
    have "bit (?e AND PTE_P) 0" by (simp add: PTE_P_def bit_simps)
    then show ?thesis unfolding present_def by (metis bit_0_eq bot_apply bot_bool_def)
  qed
  moreover have d: "pde m' pd wa = (if PDX wa = PDX va then ?e else pde m pd wa)" for wa
  proof (cases "PDX wa = PDX va")
    case True
    then show ?thesis by (simp add: pde_def m'_def load32_stored)
  next
    case False
    then have "pde m' pd wa = pde ?m pd wa" unfolding pde_def m'_def
      by (intro load32_other_word P(2) index_less(1)) simp
    then show ?thesis using False d0 by simp
  qed
  ultimately show pr: "present (pde m' pd va)" and tb: "table m' pd va = p" by (simp_all add: table_def)
  have np: "PDX wa \<noteq> PDX va" if "present (pde m pd wa)" for wa using that t by (auto simp: pde_def)
  have pr': "present (pde m' pd wa) \<longleftrightarrow> PDX wa = PDX va \<or> present (pde m pd wa)" for wa
    using d pr by (auto simp: pde_def)
  have tb': "table m' pd wa = (if PDX wa = PDX va then p else table m pd wa)" for wa
    using d [of wa] tb d [of va] by (simp add: table_def)
  have old: "table m pd wa \<noteq> p" "page_ok kend (table m pd wa)" "table m pd wa \<notin> set ps" "table m pd wa \<noteq> pd" if "present (pde m pd wa)" for wa
    using pt_okD(3-5) [OF ok that] by auto
  show "pt_ok kend m' pd ps"
    unfolding pt_ok_def
  proof (intro conjI allI impI)
    show "page_ok kend pd" "pd \<notin> set ps" using pt_okD(1,2) [OF ok] by auto
  next
    fix wa assume "present (pde m' pd wa)"
    then consider "table m' pd wa = p" | "present (pde m pd wa)" "table m' pd wa = table m pd wa" using pr' tb' by metis
    then show "page_ok kend (table m' pd wa)" "table m' pd wa \<notin> set ps" "table m' pd wa \<noteq> pd"
      by (cases; use old p P(3) in auto)+
  next
    fix xa wa assume a: "present (pde m' pd xa)" "present (pde m' pd wa)" "table m' pd xa = table m' pd wa"
    show "PDX xa = PDX wa"
    proof (cases "PDX xa = PDX va \<or> PDX wa = PDX va")
      case True
      then show ?thesis using a pr' tb' old(1) by metis
    next
      case False
      then have "present (pde m pd xa)" "present (pde m pd wa)" "table m pd xa = table m pd wa" using a pr' tb' by auto
      then show ?thesis by (rule pt_okD(6) [OF ok])
    qed
  qed
  show "tables m' pd = insert p (tables m pd)"
  proof (intro set_eqI iffI)
    fix q assume "q \<in> tables m' pd"
    then obtain wa where "present (pde m' pd wa)" "q = table m' pd wa" by (auto simp: tables_def)
    then show "q \<in> insert p (tables m pd)" using pr' [of wa] tb' [of wa] by (auto simp: tables_def split: if_splits)
  next
    fix q assume "q \<in> insert p (tables m pd)"
    then consider "q = p" | wa where "present (pde m pd wa)" "q = table m pd wa" by (auto simp: tables_def)
    then show "q \<in> tables m' pd"
    proof cases
      case 2
      then have "present (pde m' pd wa)" "q = table m' pd wa" using pr' tb' np by auto
      then show ?thesis by (auto simp: tables_def)
    qed (use pr tb in \<open>auto simp: tables_def\<close>)
  qed
  show fr: "m' a = m a" if "\<not> in_block a pd 4096" "\<not> in_block a p 4096" for a
    unfolding m'_def using store32_outside_page [OF index_less(1) that(1)] m [OF that(2)] by simp
  show "pte m' pd wa = pte m pd wa"
  proof (cases "PDX wa = PDX va")
    case True
    have "load32 m' (word_at p (PTX wa)) = load32 ?m (word_at p (PTX wa))"
      unfolding m'_def by (rule load32_other_word [OF P(2,1) index_less(1) index_less(2)]) (use P(3) in simp)
    also have "\<dots> = 0" by (rule load32_zero_page [OF index_less(2)])
    finally show ?thesis using True t pr' [of wa] tb' [of wa] by (simp add: pte_def pde_def)
  next
    case False
    show ?thesis
    proof (cases "present (pde m pd wa)")
      case pw: True
      have "load32 m' (word_at (table m pd wa) (PTX wa)) = load32 m (word_at (table m pd wa) (PTX wa))"
      proof (rule load32_same_page [OF fr index_less(2)])
        fix a assume a: "in_block a (table m pd wa) 4096"
        note D = pages_disjoint [OF aligned [OF old(2) [OF pw]] _ _ a]
        show "\<not> in_block a pd 4096" using P(2) old(4) [OF pw] by (rule D)
        show "\<not> in_block a p 4096" using P(1) old(1) [OF pw] by (rule D)
      qed
      then show ?thesis using False pw pr' tb' by (simp add: pte_def)
    qed (use False pr' in \<open>simp add: pte_def\<close>)
  qed
qed

section \<open>Walking\<close>

lemma kmem_rep_ram:
  assumes "kmem_rep kend s ps" and "\<And>q a. q \<in> set ps \<Longrightarrow> in_block a q 4096 \<Longrightarrow> m a = ram s a"
  shows "kmem_rep kend (s\<lparr>ram := m\<rparr>) ps"
proof -
  have "load32 m q = load32 (ram s) q" if "q \<in> set ps" for q
    using load32_same_page [of q m "ram s" 0] assms(2) [OF that] by simp
  then show ?thesis using assms(1) free_chain_cong [of ps m "ram s"] by (simp add: kmem_rep_def)
qed

lemma walk_hit:
  "present (pde (ram s) pd va) \<Longrightarrow> walkpgdir me pd va alloc s = Some (word_at (table (ram s) pd va) (PTX va), s)"
  by (simp add: walkpgdir_def present_def pde_def table_def get_word_def Let_def)

lemma walk_miss: "\<not> present (pde (ram s) pd va) \<Longrightarrow> walkpgdir me pd va False s = Some (0, s)"
  by (simp add: walkpgdir_def present_def pde_def get_word_def Let_def)

lemma walk_full:
  assumes "kmem_rep kend s []" "\<not> present (pde (ram s) pd va)"
  shows "\<exists>s'. walkpgdir me pd va True s = Some (0, s') \<and> kmem_rep kend s' [] \<and> ram s' = ram s"
proof -
  obtain s' where "kalloc me s = Some (0, s')" "kmem_rep kend s' []" "ram s' = ram s" using kalloc_empty [OF assms(1)] by blast
  then show ?thesis using assms(2) by (simp add: walkpgdir_def present_def pde_def get_word_def Let_def)
qed

lemma walk_alloc:
  assumes rep: "kmem_rep kend s (p # ps)" and t: "\<not> present (pde (ram s) pd va)" and ok: "pt_ok kend (ram s) pd (p # ps)"
  defines "m' \<equiv> store32 (memset (ram s) p 0 PGSIZE) (word_at pd (PDX va)) (V2P p OR PTE_P OR PTE_W OR PTE_U)"
  shows "\<exists>s'. walkpgdir me pd va True s = Some (word_at p (PTX va), s') \<and> kmem_rep kend s' ps \<and> ram s' = m'"
proof -
  obtain s1 where s1: "kalloc me s = Some (p, s1)" "kmem_rep kend s1 ps" "ram s1 = ram s" using kalloc_page [OF rep] by blast
  have p: "page_ok kend p" "p \<notin> set ps" "\<forall>q \<in> set ps. page_ok kend q" using rep by (simp_all add: kmem_rep_def)
  have "kmem_rep kend (s1\<lparr>ram := m'\<rparr>) ps"
  proof (rule kmem_rep_ram [OF s1(2)])
    fix q a assume q: "q \<in> set ps" "in_block a q 4096"
    then have "page_ok kend q" using p(3) by blast
    note D = pages_disjoint [OF aligned [OF this] _ _ q(2)]
    have "\<not> in_block a pd 4096" by (rule D [OF aligned [OF pt_okD(1) [OF ok]]]) (use pt_okD(2) [OF ok] q(1) in auto)
    moreover have "\<not> in_block a p 4096" by (rule D [OF aligned [OF p(1)]]) (use p(2) q(1) in auto)
    ultimately show "m' a = ram s1 a" unfolding m'_def s1(3) by (intro new_table(6) [OF ok p(1,2) t])
  qed
  moreover have "walkpgdir me pd va True s = Some (word_at p (PTX va), s1\<lparr>ram := m'\<rparr>)"
    using s1 t page_ok_nonzero [OF p(1)]
    by (simp add: walkpgdir_def present_def pde_def get_word_def put_word_def clear_page_def Let_def m'_def)
  ultimately show ?thesis by auto
qed

text \<open>The memory that mapping may change: the directory, its tables and the free pages.\<close>

definition outside :: "mem \<Rightarrow> u32 \<Rightarrow> u32 list \<Rightarrow> u32 \<Rightarrow> bool" where
  "outside m pd ps a \<longleftrightarrow> (\<forall>q \<in> insert pd (tables m pd) \<union> set ps. \<not> in_block a q 4096)"

lemma tables_page_ok: "pt_ok kend m pd ps \<Longrightarrow> t \<in> tables m pd \<Longrightarrow> page_ok kend t \<and> t \<noteq> pd \<and> t \<notin> set ps"
  by (auto simp: tables_def dest: pt_okD(3-5))

text \<open>The memory before \<open>s\<close> and after \<open>s'\<close> of mapping: free pages may have become tables.\<close>

definition extends :: "u32 \<Rightarrow> u32 \<Rightarrow> kmachine \<Rightarrow> u32 list \<Rightarrow> kmachine \<Rightarrow> u32 list \<Rightarrow> bool" where
  "extends kend pd s ps s' qs \<longleftrightarrow> kmem_rep kend s' qs \<and> pt_ok kend (ram s') pd qs \<and> (\<exists>k. qs = drop k ps) \<and>
     insert pd (tables (ram s') pd) \<union> set qs = insert pd (tables (ram s) pd) \<union> set ps \<and>
     tables (ram s) pd \<subseteq> tables (ram s') pd \<and> (\<forall>a. outside (ram s) pd ps a \<longrightarrow> ram s' a = ram s a)"

lemma extends_trans:
  assumes "extends kend pd s ps t qs" "extends kend pd t qs u rs"
  shows "extends kend pd s ps u rs"
proof -
  have "outside (ram t) pd qs a" if "outside (ram s) pd ps a" for a
    using that assms(1) unfolding extends_def outside_def by blast
  moreover have "\<exists>k. rs = drop k ps" using assms by (auto simp: extends_def)
  ultimately show ?thesis using assms unfolding extends_def by auto
qed

text \<open>What \<open>walkpgdir\<close> returns: the address \<open>e\<close> of the entry for \<open>va\<close>, which may be written.\<close>

definition walked :: "u32 \<Rightarrow> u32 \<Rightarrow> u32 \<Rightarrow> u32 \<Rightarrow> kmachine \<Rightarrow> u32 list \<Rightarrow> kmachine \<Rightarrow> u32 list \<Rightarrow> bool" where
  "walked kend pd va e s ps s1 qs \<longleftrightarrow> e \<noteq> 0 \<and> get_word e s1 = pte (ram s) pd va \<and>
     (\<forall>v. extends kend pd s ps (put_word e v s1) qs \<and>
       (\<forall>wa. pte (ram (put_word e v s1)) pd wa = (if unat wa div 4096 = unat va div 4096 then v else pte (ram s) pd wa)))"

text \<open>One page mapped: the entry that \<open>walkpgdir\<close> returns, written.\<close>

lemma map_one:
  assumes rep: "kmem_rep kend s ps" and ok: "pt_ok kend (ram s) pd ps"
  shows "(\<exists>s'. walkpgdir me pd va True s = Some (0, s') \<and> kmem_rep kend s' [] \<and> ram s' = ram s \<and> ps = [] \<and> \<not> present (pde (ram s) pd va)) \<or>
    (\<exists>e s1 qs. walkpgdir me pd va True s = Some (e, s1) \<and> walked kend pd va e s ps s1 qs)"
proof -
  have go: "walked kend pd va e s ps s1 qs"
    if w: "e = word_at (table (ram s1) pd va) (PTX va)"
      and r: "kmem_rep kend s1 qs" "pt_ok kend (ram s1) pd qs" "present (pde (ram s1) pd va)" "\<exists>k. qs = drop k ps"
      and f: "insert pd (tables (ram s1) pd) \<union> set qs = insert pd (tables (ram s) pd) \<union> set ps" "tables (ram s) pd \<subseteq> tables (ram s1) pd"
        "\<And>a. outside (ram s) pd ps a \<Longrightarrow> ram s1 a = ram s a" "\<And>wa. pte (ram s1) pd wa = pte (ram s) pd wa" for s1 e qs
  proof -
    let ?t = "table (ram s1) pd va"
    note S = set_pte [OF r(2,3)]
    have T: "?t \<in> tables (ram s1) pd" using r(3) by (auto simp: tables_def)
    have "e \<noteq> 0" unfolding w by (rule word_nonzero [OF pt_okD(3) [OF r(2,3)] index_less(2)])
    moreover have "get_word e s1 = pte (ram s) pd va" unfolding f(4) [symmetric] using r(3) by (simp add: w get_word_def pte_def)
    moreover have "kmem_rep kend (put_word e v s1) qs" for v
      unfolding put_word_def
    proof (rule kmem_rep_ram [OF r(1)])
      fix q a assume q: "q \<in> set qs" "in_block a q 4096"
      then have "page_ok kend q" using r(1) by (simp add: kmem_rep_def)
      have "\<not> in_block a ?t 4096"
        by (rule pages_disjoint [OF aligned [OF \<open>page_ok kend q\<close>] aligned _ q(2)]) (use tables_page_ok [OF r(2) T] q(1) in auto)
      then show "store32 (ram s1) e v a = ram s1 a" unfolding w by (rule store32_outside_page [OF index_less(2)])
    qed
    moreover have "ram (put_word e v s1) a = ram s a" if "outside (ram s) pd ps a" for v a
    proof -
      have "\<not> in_block a ?t 4096" using that T f(1) unfolding outside_def by blast
      then have "store32 (ram s1) e v a = ram s1 a" unfolding w by (rule store32_outside_page [OF index_less(2)])
      then show ?thesis using f(3) [OF that] by (simp add: put_word_def)
    qed
    ultimately show ?thesis using w r(4) S f unfolding walked_def extends_def by (simp add: put_word_def)
  qed
  show ?thesis
  proof (cases "present (pde (ram s) pd va)")
    case True
    have "\<exists>k. ps = drop k ps" by (rule exI [of _ 0]) simp
    from go [OF refl rep ok True this] walk_hit [OF True] show ?thesis by blast
  next
    case False
    show ?thesis
    proof (cases ps)
      case Nil
      then obtain s' where "walkpgdir me pd va True s = Some (0, s') \<and> kmem_rep kend s' [] \<and> ram s' = ram s"
        using walk_full [OF _ False] rep by blast
      then show ?thesis using Nil False by blast
    next
      case (Cons p qs)
      have R: "kmem_rep kend s (p # qs)" "pt_ok kend (ram s) pd (p # qs)" using rep ok Cons by simp_all
      have p: "page_ok kend p" "p \<notin> set qs" using R(1) by (simp_all add: kmem_rep_def)
      note N = new_table [OF R(2) p False]
      obtain s' where s': "walkpgdir me pd va True s = Some (word_at p (PTX va), s')" "kmem_rep kend s' qs"
        "ram s' = store32 (memset (ram s) p 0 PGSIZE) (word_at pd (PDX va)) (V2P p OR PTE_P OR PTE_W OR PTE_U)"
        using walk_alloc [OF R(1) False R(2)] by blast
      note N = N [folded s'(3)]
      have "ram s' a = ram s a" if "outside (ram s) pd ps a" for a using N(6) that by (simp add: outside_def Cons)
      moreover have "\<exists>k. qs = drop k ps" by (rule exI [of _ 1]) (simp add: Cons)
      ultimately have "walked kend pd va (word_at p (PTX va)) s ps s' qs"
        by (intro go) (use s'(2) N(1-5) in \<open>auto simp: Cons\<close>)
      then show ?thesis using s'(1) by blast
    qed
  qed
qed

section \<open>Mapping\<close>

text \<open>The entries after \<open>n\<close> pages from \<open>a\<close> have been mapped to the pages from \<open>pa\<close>.\<close>

definition mapped :: "nat \<Rightarrow> u32 \<Rightarrow> u32 \<Rightarrow> u32 \<Rightarrow> (u32 \<Rightarrow> u32) \<Rightarrow> u32 \<Rightarrow> u32" where
  "mapped n a pa pm e va =
     (if unat a \<le> unat va \<and> unat va < unat a + 4096 * n then (pa + (PGROUNDDOWN va - a)) OR pm OR PTE_P else e va)"

lemma mapped_0 [simp]: "mapped 0 a pa pm e = e"
  by (auto simp: mapped_def fun_eq_iff)

lemma PGROUNDDOWN_same:
  assumes "unat a mod 4096 = 0" "unat va div 4096 = unat a div 4096"
  shows "PGROUNDDOWN va = a"
  using assms by (simp add: word_unat_eq_iff unat_PGROUNDDOWN minus_mod_eq_div_mult [symmetric] del: minus_mod_eq_div_mult)

lemma in_first_page:
  fixes a va :: u32
  assumes "unat a mod 4096 = 0"
  shows "unat va div 4096 = unat a div 4096 \<longleftrightarrow> unat a \<le> unat va \<and> unat va < unat a + 4096"
proof -
  obtain k where "unat a = 4096 * k" using assms by blast
  then show ?thesis by (auto simp: less_mult_imp_div_less dest: div_le_mono)
qed

lemma mapped_one:
  assumes "unat a mod 4096 = 0"
  shows "mapped 1 a pa pm e va = (if unat va div 4096 = unat a div 4096 then pa OR pm OR PTE_P else e va)"
  using in_first_page [OF assms, of va] PGROUNDDOWN_same [OF assms, of va] by (auto simp: mapped_def)

lemma mapped_Suc:
  assumes a: "unat a mod 4096 = 0" "unat a + 4096 * n + 4096 \<le> 2 ^ 32" and n: "0 < n"
  shows "mapped n (a + PGSIZE) (pa + PGSIZE) pm (mapped 1 a pa pm e) va = mapped (Suc n) a pa pm e va"
proof -
  have "unat (a + PGSIZE) = unat a + 4096" using a(2) n by (simp add: unat_u32_plus PGSIZE_def)
  moreover have "pa + PGSIZE + (PGROUNDDOWN va - (a + PGSIZE)) = pa + (PGROUNDDOWN va - a)" by simp
  ultimately show ?thesis by (auto simp: mapped_def)
qed

lemma mappages_loop_maps:
  assumes "kmem_rep kend s ps" "pt_ok kend (ram s) pd ps" and "unat a mod 4096 = 0" "unat a + 4096 * n + 4096 \<le> 2 ^ 32"
    and "\<And>va. unat a \<le> unat va \<Longrightarrow> unat va < unat a + 4096 * (n + 1) \<Longrightarrow> \<not> present (pte (ram s) pd va)"
  shows "\<exists>r s' qs k. mappages_loop me pd pm (a + of_nat (4096 * n)) a pa s = Some (r, s') \<and> extends kend pd s ps s' qs \<and>
    pte (ram s') pd = mapped k a pa pm (pte (ram s) pd) \<and> (r = 0 \<and> k = n + 1 \<or> r = -1 \<and> k \<le> n \<and> qs = [])"
  using assms
proof (induction n arbitrary: a pa s ps)
  case (0 a pa s ps)
  from map_one [OF 0(1,2), of me a] show ?case
  proof (elim disjE exE conjE)
    fix s' assume w: "walkpgdir me pd a True s = Some (0, s')" "kmem_rep kend s' []" "ram s' = ram s" "ps = []"
    have "extends kend pd s ps s' []" using w 0(2) by (simp add: extends_def)
    moreover have "pte (ram s') pd = mapped 0 a pa pm (pte (ram s) pd)" using w(3) by simp
    moreover have "mappages_loop me pd pm a a pa s = Some (-1, s')" using w(1) by (simp add: mappages_loop.simps)
    ultimately show ?thesis by (intro exI [of _ "-1"] exI [of _ s'] exI [of _ "[]"] exI [of _ 0]) simp
  next
    fix e s1 qs assume w: "walkpgdir me pd a True s = Some (e, s1)" "walked kend pd a e s ps s1 qs"
    let ?s' = "put_word e (pa OR pm OR PTE_P) s1"
    have x: "extends kend pd s ps ?s' qs" "pte (ram ?s') pd = mapped 1 a pa pm (pte (ram s) pd)"
      using w(2) mapped_one [OF 0(3)] by (auto simp: walked_def)
    have "\<not> present (get_word e s1)" using 0(5) [of a] w(2) by (simp add: walked_def)
    then have "mappages_loop me pd pm a a pa s = Some (0, ?s')"
      using w by (simp add: mappages_loop.simps walked_def present_def Let_def)
    then show ?thesis using x by auto
  qed
next
  case (Suc n a pa s ps)
  let ?l = "a + of_nat (4096 * Suc n)"
  have ne: "a \<noteq> ?l"
  proof
    assume "a = ?l"
    then have "(of_nat (4096 * Suc n) :: u32) = 0" by (metis add_cancel_left_right)
    moreover have "unat (of_nat (4096 * Suc n) :: u32) = 4096 * Suc n" using Suc.prems(4) by (intro unat_of_nat_u32) simp
    ultimately show False by simp
  qed
  from map_one [OF Suc.prems(1,2), of me a] show ?case
  proof (elim disjE exE conjE)
    fix s' assume w: "walkpgdir me pd a True s = Some (0, s')" "kmem_rep kend s' []" "ram s' = ram s" "ps = []"
    have "extends kend pd s ps s' []" using w Suc.prems(2) by (simp add: extends_def)
    moreover have "pte (ram s') pd = mapped 0 a pa pm (pte (ram s) pd)" using w(3) by simp
    moreover have "mappages_loop me pd pm ?l a pa s = Some (-1, s')" using w(1) by (subst mappages_loop.simps) simp
    ultimately show ?thesis by (intro exI [of _ "-1"] exI [of _ s'] exI [of _ "[]"] exI [of _ 0]) simp
  next
    fix e s1 qs assume w: "walkpgdir me pd a True s = Some (e, s1)" "walked kend pd a e s ps s1 qs"
    let ?s' = "put_word e (pa OR pm OR PTE_P) s1"
    have x: "extends kend pd s ps ?s' qs" "pte (ram ?s') pd = mapped 1 a pa pm (pte (ram s) pd)"
      using w(2) mapped_one [OF Suc.prems(3)] by (auto simp: walked_def)
    have "\<not> present (get_word e s1)" using Suc.prems(5) [of a] w(2) by (simp add: walked_def)
    then have run: "mappages_loop me pd pm ?l a pa s = mappages_loop me pd pm ?l (a + PGSIZE) (pa + PGSIZE) ?s'"
      using w ne by (subst mappages_loop.simps) (simp add: walked_def present_def Let_def)
    have u: "unat (a + PGSIZE) = unat a + 4096" using Suc.prems(4) by (simp add: unat_u32_plus PGSIZE_def)
    have l: "?l = a + PGSIZE + of_nat (4096 * n)" by (simp add: PGSIZE_def)
    have free: "\<not> present (pte (ram ?s') pd va)" if "unat (a + PGSIZE) \<le> unat va" "unat va < unat (a + PGSIZE) + 4096 * (n + 1)" for va
      using Suc.prems(5) [of va] that unfolding x(2) u mapped_def by simp
    have "kmem_rep kend ?s' qs" "pt_ok kend (ram ?s') pd qs" using x(1) by (simp_all add: extends_def)
    from Suc.IH [OF this, of "a + PGSIZE" "pa + PGSIZE"] free u Suc.prems(3,4)
    obtain r s' rs k where ih: "mappages_loop me pd pm ?l (a + PGSIZE) (pa + PGSIZE) ?s' = Some (r, s')" "extends kend pd ?s' qs s' rs"
      "pte (ram s') pd = mapped k (a + PGSIZE) (pa + PGSIZE) pm (pte (ram ?s') pd)" "r = 0 \<and> k = n + 1 \<or> r = -1 \<and> k \<le> n \<and> rs = []"
      unfolding l by auto
    have k: "pte (ram s') pd = mapped (Suc k) a pa pm (pte (ram s) pd)"
    proof (cases "k = 0")
      case True
      then show ?thesis using ih(3) x(2) by (auto simp: mapped_def)
    next
      case False
      then show ?thesis unfolding ih(3) x(2)
        by (intro ext mapped_Suc [OF Suc.prems(3)]) (use Suc.prems(4) ih(4) in auto)
    qed
    show ?thesis
      by (intro exI [of _ r] exI [of _ s'] exI [of _ rs] exI [of _ "Suc k"])
        (use run ih extends_trans [OF x(1) ih(2)] k in auto)
  qed
qed

section \<open>User memory\<close>

definition user_page :: "mem \<Rightarrow> u32 \<Rightarrow> u32 \<Rightarrow> bool" where
  "user_page m pd va \<longleftrightarrow> present (pte m pd va) \<and> pte m pd va AND PTE_U \<noteq> 0"

text \<open>The kernel address of the page and of the byte that \<open>va\<close> is mapped to.\<close>

definition page_of :: "mem \<Rightarrow> u32 \<Rightarrow> u32 \<Rightarrow> u32" where
  "page_of m pd va = P2V (PTE_ADDR (pte m pd va))"

definition byte_of :: "mem \<Rightarrow> u32 \<Rightarrow> u32 \<Rightarrow> u32" where
  "byte_of m pd va = page_of m pd va + (va - PGROUNDDOWN va)"

text \<open>The pages of a user address space: valid pages, no two the same, none of them holding page tables.\<close>

definition user_ok :: "u32 \<Rightarrow> mem \<Rightarrow> u32 \<Rightarrow> bool" where
  "user_ok kend m pd \<longleftrightarrow>
     (\<forall>va. user_page m pd va \<longrightarrow> page_ok kend (page_of m pd va) \<and> page_of m pd va \<notin> insert pd (tables m pd)) \<and>
     (\<forall>va wa. user_page m pd va \<longrightarrow> user_page m pd wa \<longrightarrow> page_of m pd va = page_of m pd wa \<longrightarrow> unat va div 4096 = unat wa div 4096)"

lemma user_okD:
  assumes "user_ok kend m pd" "user_page m pd va"
  shows "page_ok kend (page_of m pd va)" "page_of m pd va \<noteq> pd" "page_of m pd va \<notin> tables m pd"
    "user_page m pd wa \<Longrightarrow> page_of m pd va = page_of m pd wa \<Longrightarrow> unat va div 4096 = unat wa div 4096"
  using assms unfolding user_ok_def by blast+

lemma same_page_same_pte:
  assumes "unat va div 4096 = unat wa div 4096"
  shows "pte m pd va = pte m pd wa" "pde m pd va = pde m pd wa" "user_page m pd va = user_page m pd wa" "page_of m pd va = page_of m pd wa"
proof -
  have "PDX va = PDX wa" "PTX va = PTX wa" using assms same_page by blast+
  then show "pde m pd va = pde m pd wa" "pte m pd va = pte m pd wa" by (simp_all add: pte_def pde_def table_def)
  then show "user_page m pd va = user_page m pd wa" "page_of m pd va = page_of m pd wa" by (simp_all add: user_page_def page_of_def)
qed

lemma uva2ka_page:
  assumes pt: "pt_ok kend (ram s) pd ps" and ok: "user_ok kend (ram s) pd" and t: "present (pde (ram s) pd va)"
  shows "uva2ka me pd va s = Some (if user_page (ram s) pd va then page_of (ram s) pd va else 0)"
    "user_page (ram s) pd va \<Longrightarrow> page_of (ram s) pd va \<noteq> 0"
proof -
  have g: "get_word (word_at (table (ram s) pd va) (PTX va)) s = pte (ram s) pd va" using t by (simp add: get_word_def pte_def)
  have "word_at (table (ram s) pd va) (PTX va) \<noteq> 0" by (rule word_nonzero [OF pt_okD(3) [OF pt t] index_less(2)])
  then show "uva2ka me pd va s = Some (if user_page (ram s) pd va then page_of (ram s) pd va else 0)"
    using g by (auto simp: uva2ka_def walk_hit [OF t] user_page_def present_def page_of_def)
  show "page_of (ram s) pd va \<noteq> 0" if "user_page (ram s) pd va" using page_ok_nonzero [OF user_okD(1) [OF ok that]] .
qed

text \<open>The piece of \<open>copyout\<close> inside one page.\<close>

lemma byte_of_in_page:
  assumes "user_ok kend m pd" "user_page m pd va"
  shows "in_block (byte_of m pd va) (page_of m pd va) 4096"
proof -
  have "PGROUNDDOWN va \<le> va" by (simp add: word_le_nat_alt unat_PGROUNDDOWN)
  then have "unat (va - PGROUNDDOWN va) = unat va mod 4096" by (simp add: unat_u32_minus unat_PGROUNDDOWN minus_div_mult_eq_mod)
  then show ?thesis by (simp add: byte_of_def in_block_def)
qed

lemma byte_of_inj:
  assumes ok: "user_ok kend m pd" and v: "user_page m pd va" and w: "user_page m pd wa" and e: "byte_of m pd va = byte_of m pd wa"
  shows "va = wa"
proof -
  have p: "page_of m pd va = page_of m pd wa"
  proof (rule ccontr)
    assume "page_of m pd va \<noteq> page_of m pd wa"
    then have "\<not> in_block (byte_of m pd va) (page_of m pd wa) 4096"
      using pages_disjoint [OF aligned [OF user_okD(1) [OF ok v]] aligned [OF user_okD(1) [OF ok w]] _ byte_of_in_page [OF ok v]] by blast
    then show False using byte_of_in_page [OF ok w] e by simp
  qed
  then have d: "unat va div 4096 = unat wa div 4096" using user_okD(4) [OF ok v w] by blast
  then have "PGROUNDDOWN va = PGROUNDDOWN wa" by (simp add: word_unat_eq_iff unat_PGROUNDDOWN)
  then show ?thesis using e p by (simp add: byte_of_def)
qed

text \<open>Memory that changes only in pages of the user.\<close>

lemma user_write:
  assumes pt: "pt_ok kend m pd ps" and ok: "user_ok kend m pd"
    and ch: "\<forall>a. m' a \<noteq> m a \<longrightarrow> (\<exists>va. user_page m pd va \<and> a = byte_of m pd va)"
  shows "pde m' pd va = pde m pd va" "pte m' pd va = pte m pd va" "pt_ok kend m' pd ps" "user_ok kend m' pd"
    "user_page m' pd va = user_page m pd va" "byte_of m' pd va = byte_of m pd va"
proof -
  have out: "m' a = m a" if q: "q \<in> insert pd (tables m pd)" "in_block a q 4096" for a q
  proof (rule ccontr)
    assume "m' a \<noteq> m a"
    then obtain wa where wa: "user_page m pd wa" "a = byte_of m pd wa" using ch by blast
    have "page_ok kend q" using q(1) pt_okD(1) [OF pt] tables_page_ok [OF pt] by auto
    then have "\<not> in_block a q 4096"
      using byte_of_in_page [OF ok wa(1)] user_okD(1,2,3) [OF ok wa(1)] q(1) unfolding wa(2)
      by (intro pages_disjoint [of "page_of m pd wa"] aligned) auto
    then show False using q(2) by simp
  qed
  have P: "\<And>a. in_block a pd 4096 \<Longrightarrow> m' a = m a" "\<And>a t. t \<in> tables m pd \<Longrightarrow> in_block a t 4096 \<Longrightarrow> m' a = m a" using out by blast+
  note C = pt_cong [OF pt P]
  have e: "pte m' pd = pte m pd" using C(3) by (rule ext)
  show "pde m' pd va = pde m pd va" by (rule C(1))
  show "pte m' pd va = pte m pd va" by (rule C(3))
  show "pt_ok kend m' pd ps" by (rule C(4))
  show "user_page m' pd va = user_page m pd va" "byte_of m' pd va = byte_of m pd va"
    by (simp_all only: user_page_def byte_of_def page_of_def e)
  have t: "tables m' pd = tables m pd" by (rule C(5))
  show "user_ok kend m' pd" using ok unfolding user_ok_def user_page_def page_of_def e t .
qed

text \<open>The first \<open>k\<close> bytes of \<open>buf\<close> have been copied to \<open>va\<close>.\<close>

definition copied :: "u32 \<Rightarrow> u32 \<Rightarrow> u32 \<Rightarrow> nat \<Rightarrow> mem \<Rightarrow> mem \<Rightarrow> bool" where
  "copied pd va buf k m m' \<longleftrightarrow>
     (\<forall>i < k. user_page m pd (va + of_nat i) \<and> m' (byte_of m pd (va + of_nat i)) = m (buf + of_nat i)) \<and>
     (\<forall>a. (\<forall>i < k. a \<noteq> byte_of m pd (va + of_nat i)) \<longrightarrow> m' a = m a)"

lemma copied_user_write:
  assumes "copied pd va buf k m m'"
  shows "\<forall>a. m' a \<noteq> m a \<longrightarrow> (\<exists>wa. user_page m pd wa \<and> a = byte_of m pd wa)"
  using assms unfolding copied_def by blast

lemma page_piece:
  assumes pt: "pt_ok kend m pd ps" and ok: "user_ok kend m pd" and v: "user_page m pd va"
    and n: "unat n \<le> 4096 - unat va mod 4096" and b: "unat buf + unat n < 2 ^ 32"
  shows "copied pd va buf (unat n) m (memmove m (page_of m pd va + (va - PGROUNDDOWN va)) buf n)"
    "i < unat n \<Longrightarrow> unat (va + of_nat i) div 4096 = unat va div 4096"
proof -
  let ?d = "byte_of m pd va" and ?p = "page_of m pd va"
  have "PGROUNDDOWN va \<le> va" by (simp add: word_le_nat_alt unat_PGROUNDDOWN)
  then have o: "unat (va - PGROUNDDOWN va) = unat va mod 4096" by (simp add: unat_u32_minus unat_PGROUNDDOWN minus_div_mult_eq_mod)
  obtain q where q: "unat ?p = 4096 * q" using aligned [OF user_okD(1) [OF ok v]] by blast
  have "q < 1048576" using unat_u32_lt [of ?p] q by simp
  moreover have m4: "unat va mod 4096 < 4096" by simp
  ultimately have d: "unat ?d = 4096 * q + unat va mod 4096" unfolding byte_of_def by (simp add: unat_u32_plus o q)
  moreover have nm: "unat n + unat va mod 4096 \<le> 4096" using n m4 by arith
  ultimately have ub: "unat ?d + unat n \<le> 2 ^ 32" using \<open>q < 1048576\<close> by simp
  have w: "unat (va + of_nat i) = unat va + i" if i: "i < unat n" for i
  proof -
    have "unat va + i < 2 ^ 32"
    proof -
      have "unat va div 4096 < 1048576" using unat_u32_lt [of va] by (simp add: less_mult_imp_div_less)
      moreover have "unat va = 4096 * (unat va div 4096) + unat va mod 4096" by simp
      ultimately have "unat va + i < 4294967296" using i nm by linarith
      then show ?thesis by simp
    qed
    then show ?thesis by (simp add: unat_u32_plus unat_of_nat_u32)
  qed
  show same: "unat (va + of_nat i) div 4096 = unat va div 4096" if i: "i < unat n" for i
  proof -
    have "unat va + i = unat va div 4096 * 4096 + (unat va mod 4096 + i)" by simp
    moreover have "unat va mod 4096 + i < 4096" using i nm by linarith
    ultimately have "(unat va + i) div 4096 = unat va div 4096" by (metis add_cancel_left_right div_less div_mult_self3 zero_neq_numeral)
    then show ?thesis using w [OF i] by simp
  qed
  have bi: "byte_of m pd (va + of_nat i) = ?d + of_nat i" if "i < unat n" for i
  proof -
    have "PGROUNDDOWN (va + of_nat i) = PGROUNDDOWN va" using same [OF that] by (simp add: word_unat_eq_iff unat_PGROUNDDOWN)
    then show ?thesis using same_page_same_pte(4) [OF same [OF that]] by (simp add: byte_of_def)
  qed
  have mm: "memmove m ?d buf n a = (if in_block a ?d (unat n) then m (buf + (a - ?d)) else m a)" for a
    by (rule memmove_copies [OF ub b])
  have n32: "unat n \<le> 2 ^ 32" by (rule unat_u32_pow)
  have "memmove m ?d buf n (byte_of m pd (va + of_nat i)) = m (buf + of_nat i)" if i: "i < unat n" for i
    unfolding bi [OF i] mm using in_block_offset [OF i n32] by simp
  moreover have "memmove m ?d buf n a = m a" if "\<forall>i < unat n. a \<noteq> byte_of m pd (va + of_nat i)" for a
  proof -
    have "\<not> in_block a ?d (unat n)" using that bi in_block_exists [of a ?d "unat n"] by auto
    then show ?thesis by (simp add: mm)
  qed
  moreover have "user_page m pd (va + of_nat i)" if "i < unat n" for i using same_page_same_pte(3) [OF same [OF that]] v by blast
  ultimately show "copied pd va buf (unat n) m (memmove m (?p + (va - PGROUNDDOWN va)) buf n)"
    by (simp add: copied_def byte_of_def)
qed

lemma copied_append:
  assumes ok: "user_ok kend m pd" and pt: "pt_ok kend m pd ps" and c: "copied pd va buf j m m'" and d: "copied pd (va + of_nat j) (buf + of_nat j) k m' m''"
    and b: "\<And>i wa. i < k \<Longrightarrow> user_page m pd wa \<Longrightarrow> buf + of_nat (j + i) \<noteq> byte_of m pd wa" and jk: "unat va + j + k \<le> 2 ^ 32"
  shows "copied pd va buf (j + k) m m''"
proof -
  note U = user_write [OF pt ok copied_user_write [OF c]]
  have D: "user_page m pd (va + of_nat (j + i))" "m'' (byte_of m pd (va + of_nat (j + i))) = m' (buf + of_nat (j + i))" if "i < k" for i
    using d that unfolding copied_def U(5,6) by (simp_all add: add.assoc)
  have D': "m'' a = m' a" if "\<forall>i < k. a \<noteq> byte_of m pd (va + of_nat (j + i))" for a
    using d that unfolding copied_def U(6) by (simp add: add.assoc)
  have C: "user_page m pd (va + of_nat i)" "m' (byte_of m pd (va + of_nat i)) = m (buf + of_nat i)" if "i < j" for i
    using c that unfolding copied_def by blast+
  have C': "m' a = m a" if "\<forall>i < j. a \<noteq> byte_of m pd (va + of_nat i)" for a using c that unfolding copied_def by blast
  have later: "m' (buf + of_nat (j + i)) = m (buf + of_nat (j + i))" if i: "i < k" for i
    by (rule C') (use b [OF i] C(1) in blast)
  have low: "m'' (byte_of m pd (va + of_nat i)) = m (buf + of_nat i)" if i: "i < j" for i
  proof -
    have "byte_of m pd (va + of_nat i) \<noteq> byte_of m pd (va + of_nat (j + l))" if l: "l < k" for l
    proof
      assume "byte_of m pd (va + of_nat i) = byte_of m pd (va + of_nat (j + l))"
      then have "va + of_nat i = va + of_nat (j + l)" by (rule byte_of_inj [OF ok C(1) [OF i] D(1) [OF l]])
      then have "(of_nat i :: u32) = of_nat (j + l)" by simp
      moreover have "j + l < 2 ^ 32" using jk l by linarith
      ultimately have "i = j + l" using i by (simp add: u32_of_nat_inj del: of_nat_add)
      then show False using i by simp
    qed
    then show ?thesis using D' C(2) [OF i] by simp
  qed
  have split: "i < j \<or> (\<exists>l < k. i = j + l)" if "i < j + k" for i
    using that by (cases "i < j") (auto intro: exI [of _ "i - j"])
  show ?thesis
    unfolding copied_def
  proof (intro conjI allI impI)
    fix i assume "i < j + k"
    from split [OF this] show "user_page m pd (va + of_nat i)" "m'' (byte_of m pd (va + of_nat i)) = m (buf + of_nat i)"
      using C(1) low D later by auto
  next
    fix a assume a: "\<forall>i < j + k. a \<noteq> byte_of m pd (va + of_nat i)"
    have "m'' a = m' a" by (rule D') (use a in \<open>simp del: of_nat_add\<close>)
    also have "\<dots> = m a" by (rule C') (use a in simp)
    finally show "m'' a = m a" .
  qed
qed

lemma copied_0 [simp]: "copied pd va buf 0 m m"
  by (simp add: copied_def)

text \<open>The outcome of \<open>copyout\<close>: \<open>k\<close> is the first byte that does not lie in a user page. The code reads the null entry
  of a page without a table.\<close>

definition copyout_outcome :: "u32 \<Rightarrow> u32 \<Rightarrow> u32 \<Rightarrow> nat \<Rightarrow> kmachine \<Rightarrow> (int \<times> kmachine) option \<Rightarrow> bool" where
  "copyout_outcome pd va buf n s res \<longleftrightarrow>
     (\<exists>k \<le> n. (\<forall>i < k. user_page (ram s) pd (va + of_nat i)) \<and> (k < n \<longrightarrow> \<not> user_page (ram s) pd (va + of_nat k)) \<and>
       (if k < n \<and> \<not> present (pde (ram s) pd (va + of_nat k)) then res = None
        else \<exists>m. res = Some (if k < n then -1 else 0, s\<lparr>ram := m\<rparr>) \<and> copied pd va buf k (ram s) m))"

lemma uva2ka_no_table:
  "\<not> present (pde (ram s) pd va) \<Longrightarrow> uva2ka me pd va s = None"
  by (simp add: uva2ka_def walk_miss)

lemma copyout_append:
  assumes pt: "pt_ok kend (ram s) pd ps" and ok: "user_ok kend (ram s) pd" and c: "copied pd va buf j (ram s) m"
    and o: "copyout_outcome pd (va + of_nat j) (buf + of_nat j) l (s\<lparr>ram := m\<rparr>) res"
    and b: "\<And>i wa. i < j + l \<Longrightarrow> user_page (ram s) pd wa \<Longrightarrow> buf + of_nat i \<noteq> byte_of (ram s) pd wa" and jl: "unat va + j + l \<le> 2 ^ 32"
  shows "copyout_outcome pd va buf (j + l) s res"
proof -
  note U = user_write [OF pt ok copied_user_write [OF c]]
  have after: "va + of_nat j + of_nat i = va + of_nat (j + i)" for i by (simp add: add.assoc)
  have M: "ram (s\<lparr>ram := m\<rparr>) = m" "s\<lparr>ram := m, ram := m'\<rparr> = s\<lparr>ram := m'\<rparr>" for m' by simp_all
  from o obtain k where k: "k \<le> l" "\<forall>i < k. user_page (ram s) pd (va + of_nat (j + i))" "k < l \<longrightarrow> \<not> user_page (ram s) pd (va + of_nat (j + k))"
    and r: "if k < l \<and> \<not> present (pde (ram s) pd (va + of_nat (j + k))) then res = None
      else \<exists>m'. res = Some (if k < l then -1 else 0, s\<lparr>ram := m'\<rparr>) \<and> copied pd (va + of_nat j) (buf + of_nat j) k m m'"
    unfolding copyout_outcome_def M U(1,5) after by blast
  have low: "user_page (ram s) pd (va + of_nat i)" if "i < j + k" for i
  proof (cases "i < j")
    case True
    then show ?thesis using c by (simp add: copied_def)
  next
    case False
    then show ?thesis using k(2) [rule_format, of "i - j"] that by simp
  qed
  have "copied pd va buf (j + k) (ram s) m'" if "copied pd (va + of_nat j) (buf + of_nat j) k m m'" for m'
  proof (rule copied_append [OF ok pt c that])
    show "buf + of_nat (j + i) \<noteq> byte_of (ram s) pd wa" if "i < k" "user_page (ram s) pd wa" for i wa
      by (rule b) (use that k(1) in simp_all)
    show "unat va + j + k \<le> 2 ^ 32" using jl k(1) by linarith
  qed
  then show ?thesis
    unfolding copyout_outcome_def
    by (intro exI [of _ "j + k"]) (use k r low in \<open>auto split: if_splits simp del: of_nat_add\<close>)
qed

lemma copyout_spec:
  assumes "pt_ok kend (ram s) pd ps" "user_ok kend (ram s) pd" and "unat va + unat len \<le> 2 ^ 32" "unat buf + unat len < 2 ^ 32"
    and "\<And>i wa. i < unat len \<Longrightarrow> user_page (ram s) pd wa \<Longrightarrow> buf + of_nat i \<noteq> byte_of (ram s) pd wa"
  shows "copyout_outcome pd va buf (unat len) s (copyout me pd va buf len s)"
  using assms
proof (induction "unat len" arbitrary: va buf len s rule: less_induct)
  case less
  show ?case
  proof (cases "len = 0")
    case True
    then show ?thesis by (auto simp: copyout.simps copyout_outcome_def intro: exI [of _ "ram s"])
  next
    case False
    then have l0: "0 < unat len" by (simp add: unat_gt_0)
    let ?va0 = "PGROUNDDOWN va"
    have va0: "unat ?va0 = unat va div 4096 * 4096" by (rule unat_PGROUNDDOWN)
    then have same: "unat ?va0 div 4096 = unat va div 4096" by simp
    note S = same_page_same_pte [OF same, of "ram s" pd]
    have start: ?thesis if "\<not> user_page (ram s) pd va"
      "if present (pde (ram s) pd va) then copyout me pd va buf len s = Some (-1, s) else copyout me pd va buf len s = None"
    proof -
      have "s\<lparr>ram := ram s\<rparr> = s" by simp
      then show ?thesis unfolding copyout_outcome_def
        by (intro exI [of _ 0]) (use that l0 in \<open>auto intro: exI [of _ "ram s"]\<close>)
    qed
    show ?thesis
    proof (cases "present (pde (ram s) pd va)")
      case np: False
      then have "\<not> user_page (ram s) pd va" by (simp add: user_page_def pte_def present_def)
      moreover have "copyout me pd va buf len s = None"
        using False np uva2ka_no_table [of s pd ?va0 me] S(2) by (simp add: copyout.simps)
      ultimately show ?thesis using np start by simp
    next
      case pr: True
      note K = uva2ka_page [OF less.prems(1,2), of ?va0, unfolded S(2), OF pr]
      show ?thesis
      proof (cases "user_page (ram s) pd va")
        case no: False
        then have "copyout me pd va buf len s = Some (-1, s)" using False K(1) S(3) by (simp add: copyout.simps)
        then show ?thesis using no pr start by simp
      next
        case yes: True
        define n where "n = (if len < PGSIZE - (va - ?va0) then len else PGSIZE - (va - ?va0))"
        have le: "?va0 \<le> va" using va0 by (simp add: word_le_nat_alt)
        have o: "unat (va - ?va0) = unat va mod 4096" using le va0 by (simp add: unat_u32_minus minus_div_mult_eq_mod)
        have m4: "unat va mod 4096 < 4096" by simp
        have "va - ?va0 \<le> PGSIZE" using o m4 by (simp add: word_le_nat_alt PGSIZE_def)
        then have g: "unat (PGSIZE - (va - ?va0)) = 4096 - unat va mod 4096" using o by (simp add: unat_u32_minus) (simp add: PGSIZE_def)
        have n: "unat n = min (unat len) (4096 - unat va mod 4096)" using g by (auto simp: n_def word_less_nat_alt)
        then have n_le: "unat n \<le> unat len" "unat n \<le> 4096 - unat va mod 4096" "0 < unat n" using l0 m4 by auto
        define m where "m = memmove (ram s) (page_of (ram s) pd va + (va - ?va0)) buf n"
        have run: "copyout me pd va buf len s = copyout me pd (?va0 + PGSIZE) (buf + n) (len - n) (s\<lparr>ram := m\<rparr>)"
          using False yes K S(3,4) by (subst copyout.simps) (simp add: Let_def n_def m_def)
        have c: "copied pd va buf (unat n) (ram s) m"
          using page_piece(1) [OF less.prems(1,2) yes n_le(2)] less.prems(4) n_le(1) by (simp add: m_def)
        have ln: "unat (len - n) = unat len - unat n" using n_le(1) by (simp add: unat_u32_minus word_le_nat_alt)
        note U = user_write [OF less.prems(1,2) copied_user_write [OF c]]
        have "copyout_outcome pd (va + of_nat (unat n)) (buf + of_nat (unat n)) (unat (len - n)) (s\<lparr>ram := m\<rparr>)
            (copyout me pd (?va0 + PGSIZE) (buf + n) (len - n) (s\<lparr>ram := m\<rparr>))"
        proof (cases "unat n = unat len")
          case True
          then have "len - n = 0" using ln by (metis diff_self_eq_0 unat_eq_zero)
          then show ?thesis by (auto simp: copyout.simps copyout_outcome_def intro: exI [of _ m])
        next
          case more: False
          then have nn: "unat n = 4096 - unat va mod 4096" using n by auto
          then have "n = PGSIZE - (va - ?va0)" using g by (metis word_unat_eq_iff)
          then have vn: "?va0 + PGSIZE = va + n" by simp
          have after: "buf + n + of_nat i = buf + of_nat (unat n + i)" for i by (simp add: add.assoc)
          have uvn: "unat (va + n) + unat (len - n) \<le> 2 ^ 32"
            using less.prems(3) ln n_le(1) more by (simp add: unat_u32_plus)
          have ubn: "unat (buf + n) + unat (len - n) < 2 ^ 32"
            using less.prems(4) ln n_le(1) by (simp add: unat_u32_plus)
          have "unat (len - n) < unat len" using ln n_le by linarith
          then have "copyout_outcome pd (va + n) (buf + n) (unat (len - n)) (s\<lparr>ram := m\<rparr>)
              (copyout me pd (va + n) (buf + n) (len - n) (s\<lparr>ram := m\<rparr>))"
          proof (rule less.hyps)
            show "pt_ok kend (ram (s\<lparr>ram := m\<rparr>)) pd ps" "user_ok kend (ram (s\<lparr>ram := m\<rparr>)) pd" using U(3,4) by simp_all
            show "buf + n + of_nat i \<noteq> byte_of (ram (s\<lparr>ram := m\<rparr>)) pd wa"
              if "i < unat (len - n)" "user_page (ram (s\<lparr>ram := m\<rparr>)) pd wa" for i wa
              unfolding after using less.prems(5) [of "unat n + i" wa] that ln U(5,6) by simp
          qed (use uvn ubn in simp_all)
          then show ?thesis unfolding vn by simp
        qed
        from copyout_append [OF less.prems(1,2) c this] less.prems(3,5) ln n_le(1) show ?thesis
          unfolding run by simp
      qed
    qed
  qed
qed

lemma mappages_extends:
  assumes "kmem_rep kend s ps" and "pt_ok kend (ram s) pd ps" and "0 < unat len" and "unat va + unat len \<le> 2 ^ 32"
    and "\<And>wa. unat va div 4096 \<le> unat wa div 4096 \<Longrightarrow> unat wa div 4096 \<le> (unat va + unat len - 1) div 4096 \<Longrightarrow>
      \<not> present (pte (ram s) pd wa)"
  shows "\<exists>r s' qs k. mappages me pd va len pa pm s = Some (r, s') \<and> extends kend pd s ps s' qs \<and>
    pte (ram s') pd = mapped k (PGROUNDDOWN va) pa pm (pte (ram s) pd) \<and>
    (r = 0 \<and> k = (unat va + unat len - 1) div 4096 - unat va div 4096 + 1 \<or>
     r = -1 \<and> k \<le> (unat va + unat len - 1) div 4096 - unat va div 4096 \<and> qs = [])"
proof -
  let ?a = "PGROUNDDOWN va" and ?e = "unat va + unat len - 1"
  define n where "n = ?e div 4096 - unat va div 4096"
  have a: "unat ?a = unat va div 4096 * 4096" by (rule unat_PGROUNDDOWN)
  have le: "unat va div 4096 \<le> ?e div 4096" using assms(3) by (intro div_le_mono) simp
  have e: "?e div 4096 < 1048576" using assms(4) by (intro less_mult_imp_div_less) (use assms(3) in simp)
  have en: "?e div 4096 = unat va div 4096 + n" using le by (simp add: n_def)
  then have "unat ?a + 4096 * n + 4096 \<le> 4294967296" using a e by linarith
  then have top: "unat ?a + 4096 * n + 4096 \<le> 2 ^ 32" by simp
  have l: "unat (va + len - 1) = ?e"
  proof -
    have "len \<noteq> 0" using assms(3) by auto
    then have l1: "unat (len - 1) = unat len - 1" by (rule unat_pred_u32)
    have d: "va + len - 1 = va + (len - 1)" by simp
    show ?thesis unfolding d using l1 assms(3,4) by (simp add: unat_u32_plus)
  qed
  have u: "unat (?a + of_nat (4096 * n)) = unat ?a + 4096 * n"
  proof -
    have "unat (of_nat (4096 * n) :: u32) = 4096 * n" by (rule unat_of_nat_u32) (use top in linarith)
    then show ?thesis using top by (simp add: unat_u32_plus)
  qed
  have last: "PGROUNDDOWN (va + len - 1) = ?a + of_nat (4096 * n)"
    unfolding word_unat_eq_iff u unat_PGROUNDDOWN l en by simp
  have free: "\<not> present (pte (ram s) pd wa)" if "unat ?a \<le> unat wa" "unat wa < unat ?a + 4096 * (n + 1)" for wa
  proof (rule assms(5))
    show "unat va div 4096 \<le> unat wa div 4096" using that(1) a by (simp add: less_eq_div_iff_mult_less_eq)
    have "unat wa < 4096 * (unat va div 4096 + n + 1)" using that(2) a by simp
    then have "unat wa div 4096 < unat va div 4096 + n + 1" by (simp add: less_mult_imp_div_less mult.commute)
    then show "unat wa div 4096 \<le> ?e div 4096" using le by (simp add: n_def)
  qed
  have "unat ?a mod 4096 = 0" by (simp add: a)
  from mappages_loop_maps [OF assms(1,2) this top free, of me pm pa] show ?thesis
    unfolding mappages_def last n_def [symmetric] by auto
qed

section \<open>Properties\<close>

text \<open>C12: \<open>mappages\<close> makes every page from the one of \<open>va\<close> to the one of \<open>va + size - 1\<close> translate to the pages from
  \<open>pa\<close> on, with the permissions, and changes no other translation and no memory but the directory, its
  tables and free pages; when it returns -1 the free pages are used up and a prefix of the range is mapped.
  The page directory stays well formed, with tables of its own.\<close>

theorem mappages_maps:
  assumes "kmem_rep kend s ps" and "pt_ok kend (ram s) pd ps" and "0 < unat len" and "unat va + unat len \<le> 2 ^ 32"
    and "\<And>wa. unat va div 4096 \<le> unat wa div 4096 \<Longrightarrow> unat wa div 4096 \<le> (unat va + unat len - 1) div 4096 \<Longrightarrow>
      \<not> present (pte (ram s) pd wa)"
  shows "\<exists>r s' qs k. mappages me pd va len pa pm s = Some (r, s') \<and> kmem_rep kend s' qs \<and> pt_ok kend (ram s') pd qs \<and>
    pte (ram s') pd = mapped k (PGROUNDDOWN va) pa pm (pte (ram s) pd) \<and> (\<forall>a. outside (ram s) pd ps a \<longrightarrow> ram s' a = ram s a) \<and>
    (r = 0 \<and> k = (unat va + unat len - 1) div 4096 - unat va div 4096 + 1 \<or>
     r = -1 \<and> k \<le> (unat va + unat len - 1) div 4096 - unat va div 4096 \<and> qs = [])"
  using mappages_extends [OF assms, of me pa pm] unfolding extends_def by auto

text \<open>C13: \<open>copyout\<close> copies to user memory, page by page, up to the first byte that does not lie in a page the user
  may access. When there is no such byte it returns 0 and has written exactly the bytes that the range of virtual
  addresses is mapped to; when the first such byte lies in a page of an existing table it returns -1 with the bytes
  before it copied; and when that page has no table it reads through a null pointer. No other memory changes.\<close>

theorem copyout_copies:
  assumes "pt_ok kend (ram s) pd ps" and "user_ok kend (ram s) pd" and "unat va + unat len \<le> 2 ^ 32" and "unat buf + unat len < 2 ^ 32"
    and "\<And>i wa. i < unat len \<Longrightarrow> user_page (ram s) pd wa \<Longrightarrow> buf + of_nat i \<noteq> byte_of (ram s) pd wa"
  shows "\<exists>k \<le> unat len. (\<forall>i < k. user_page (ram s) pd (va + of_nat i)) \<and>
    (k < unat len \<longrightarrow> \<not> user_page (ram s) pd (va + of_nat k)) \<and>
    (if k < unat len \<and> \<not> present (pde (ram s) pd (va + of_nat k)) then copyout me pd va buf len s = None
     else \<exists>m. copyout me pd va buf len s = Some (if k < unat len then -1 else 0, s\<lparr>ram := m\<rparr>) \<and> copied pd va buf k (ram s) m)"
  using copyout_spec [OF assms] unfolding copyout_outcome_def .

text \<open>A directory at \<open>0x80102000\<close> whose first page is mapped.\<close>

definition demo_table :: mem where
  "demo_table = store32 (memset (\<lambda>_. 0) 0x80103000 0 PGSIZE) (word_at 0x80102000 (PDX 0)) (V2P 0x80103000 OR PTE_P OR PTE_W OR PTE_U)"

definition demo_pages :: mem where
  "demo_pages = store32 demo_table (word_at (table demo_table 0x80102000 0) (PTX 0)) (V2P 0x80104000 OR 7)"

lemma zero_mem: "pde (\<lambda>_. 0) pd va = 0" "pte (\<lambda>_. 0) pd va = 0" "\<not> present 0"
  by (simp_all add: pde_def pte_def load32_def present_def)

lemma demo_page_ok: "page_ok 0x80100000 0x80101000" "page_ok 0x80100000 0x80102000" "page_ok 0x80100000 0x80103000" "page_ok 0x80100000 0x80104000"
  by (simp_all add: page_ok_def PGSIZE_def V2P_def KERNBASE_def PHYSTOP_def)

lemma demo_pages_ok: "pt_ok 0x80100000 demo_pages 0x80102000 []" "user_ok 0x80100000 demo_pages 0x80102000"
  "present (pde demo_pages 0x80102000 0)" "user_page demo_pages 0x80102000 va \<longleftrightarrow> unat va div 4096 = 0"
  "user_page demo_pages 0x80102000 va \<Longrightarrow> page_of demo_pages 0x80102000 va = 0x80104000"
proof -
  have ok: "pt_ok 0x80100000 (\<lambda>_. 0) 0x80102000 (0x80103000 # [])" using demo_page_ok by (simp add: pt_ok_def zero_mem)
  have z: "\<not> present (pde (\<lambda>_. 0) 0x80102000 0)" by (simp add: zero_mem)
  note N = new_table [OF ok demo_page_ok(3) _ z, folded demo_table_def]
  have N: "present (pde demo_table 0x80102000 0)" "table demo_table 0x80102000 0 = 0x80103000" "pt_ok 0x80100000 demo_table 0x80102000 []"
    "tables demo_table 0x80102000 = {0x80103000}" "pte demo_table 0x80102000 va = 0" for va
    using N by (simp_all add: zero_mem tables_def)
  note S = set_pte [OF N(3,1), of "V2P 0x80104000 OR 7", folded demo_pages_def]
  show "pt_ok 0x80100000 demo_pages 0x80102000 []" by (rule S(2))
  show "present (pde demo_pages 0x80102000 0)" using S(1) N(1) by simp
  have p: "pte demo_pages 0x80102000 va = (if unat va div 4096 = 0 then V2P 0x80104000 OR 7 else 0)" for va using S(4) [of va] N(5) by simp
  have e: "present (V2P 0x80104000 OR 7)" "(V2P 0x80104000 OR 7) AND PTE_U \<noteq> 0" "P2V (PTE_ADDR (V2P 0x80104000 OR 7)) = 0x80104000"
    by (simp_all add: present_def PTE_P_def PTE_U_def V2P_def P2V_def KERNBASE_def PTE_ADDR_def)
  show u: "user_page demo_pages 0x80102000 va \<longleftrightarrow> unat va div 4096 = 0" for va
    using e zero_mem(3) by (simp add: user_page_def p)
  show q: "page_of demo_pages 0x80102000 va = 0x80104000" if "user_page demo_pages 0x80102000 va" for va
    using that e by (simp add: u page_of_def p)
  show "user_ok 0x80100000 demo_pages 0x80102000"
    unfolding user_ok_def using u q demo_page_ok(4) S(3) N(4) by auto
qed

theorem copyout_copies_witness:
  "\<exists>s'. copyout 0 0x80102000 4094 0x80106000 4 (boot_machine\<lparr>ram := demo_pages\<rparr>) = Some (-1, s') \<and>
    ram s' 0x80104FFE = demo_pages 0x80106000 \<and> ram s' 0x80104FFF = demo_pages 0x80106001"
proof -
  let ?s = "boot_machine\<lparr>ram := demo_pages\<rparr>" and ?pd = "0x80102000 :: u32"
  have sp: "present (pde demo_pages ?pd (4094 + of_nat i))" if "i < 4" for i
  proof -
    have "unat (4094 + of_nat i :: u32) = 4094 + i" using that by (simp add: unat_u32_plus unat_of_nat_u32)
    then have "unat (PDX (4094 + of_nat i)) = unat (PDX 0)" using that by (simp add: unat_PDX)
    then have "PDX (4094 + of_nat i) = PDX 0" by (simp only: word_unat_eq_iff)
    then show ?thesis using demo_pages_ok(3) by (simp only: pde_def)
  qed
  have nb: "0x80106000 + of_nat i \<noteq> byte_of demo_pages ?pd wa" if i: "i < 4" and u: "user_page demo_pages ?pd wa" for i wa
  proof
    assume e: "0x80106000 + of_nat i = byte_of demo_pages ?pd wa"
    have "in_block (0x80106000 + of_nat i) 0x80106000 4096" by (rule in_block_offset) (use i in simp_all)
    then have "\<not> in_block (0x80106000 + of_nat i) 0x80104000 4096" by (intro pages_disjoint) simp_all
    then show False using byte_of_in_page [OF demo_pages_ok(2) u] demo_pages_ok(5) [OF u] e by simp
  qed
  have u: "user_page demo_pages ?pd (4094 + of_nat i) \<longleftrightarrow> i < 2" if "i < 4" for i
    using that by (simp add: demo_pages_ok(4) unat_u32_plus unat_of_nat_u32) arith
  have b: "byte_of demo_pages ?pd (4094 + of_nat i) = 0x80104FFE + of_nat i" if "i < 2" for i
  proof -
    have "PGROUNDDOWN (4094 + of_nat i) = 0" using that by (simp add: word_unat_eq_iff unat_PGROUNDDOWN unat_u32_plus unat_of_nat_u32)
    then show ?thesis using demo_pages_ok(5) u [of i] that by (simp add: byte_of_def)
  qed
  have "\<exists>k \<le> unat (4 :: u32). (\<forall>i < k. user_page (ram ?s) ?pd (4094 + of_nat i)) \<and>
      (k < unat (4 :: u32) \<longrightarrow> \<not> user_page (ram ?s) ?pd (4094 + of_nat k)) \<and>
      (if k < unat (4 :: u32) \<and> \<not> present (pde (ram ?s) ?pd (4094 + of_nat k)) then copyout 0 ?pd 4094 0x80106000 4 ?s = None
       else \<exists>m. copyout 0 ?pd 4094 0x80106000 4 ?s = Some (if k < unat (4 :: u32) then -1 else 0, ?s\<lparr>ram := m\<rparr>) \<and>
         copied ?pd 4094 0x80106000 k (ram ?s) m)"
    by (rule copyout_copies [where kend = "0x80100000" and ps = "[]"]) (use demo_pages_ok(1,2) nb in simp_all)
  moreover have "unat (4 :: u32) = 4" "ram ?s = demo_pages" by simp_all
  ultimately obtain k where k: "k \<le> 4" "\<forall>i < k. user_page demo_pages ?pd (4094 + of_nat i)"
      "k < 4 \<longrightarrow> \<not> user_page demo_pages ?pd (4094 + of_nat k)"
    and r: "if k < 4 \<and> \<not> present (pde demo_pages ?pd (4094 + of_nat k)) then copyout 0 ?pd 4094 0x80106000 4 ?s = None
       else \<exists>m. copyout 0 ?pd 4094 0x80106000 4 ?s = Some (if k < 4 then -1 else 0, ?s\<lparr>ram := m\<rparr>) \<and>
         copied ?pd 4094 0x80106000 k demo_pages m" by (simp only:) blast
  have "\<not> 2 < k" using k(1,2) u [of 2] by auto
  moreover have "\<not> k < 2" using k(3) u [of k] by auto
  ultimately have "k = 2" by simp
  then obtain m where "copyout 0 ?pd 4094 0x80106000 4 ?s = Some (-1, ?s\<lparr>ram := m\<rparr>)" "copied ?pd 4094 0x80106000 2 demo_pages m"
    using r sp [of 2] by auto
  then show ?thesis using b [of 0] b [of 1] by (auto simp: copied_def dest: spec [of _ 0] spec [of _ 1])
qed

theorem mappages_maps_witness:
  "\<exists>s r s'. kmem_rep 0x80100000 s [0x80101000] \<and> mappages 0 0x80102000 4096 4096 0x4000 PTE_U s = Some (r, s') \<and>
    pte (ram s') 0x80102000 4100 = (if r = 0 then 0x4000 OR PTE_U OR PTE_P else 0)"
proof -
  let ?pd = "0x80102000 :: u32"
  from kfree_page [OF kmem_rep_boot demo_page_ok(1), of 0] obtain s where
    s: "kmem_rep 0x80100000 s [0x80101000]" "\<forall>a. \<not> in_block a 0x80101000 4096 \<longrightarrow> ram s a = 0" by (auto simp: boot_machine_def)
  have pd: "pde (ram s) ?pd wa = 0" for wa
  proof -
    have "load32 (ram s) (word_at ?pd (PDX wa)) = load32 (\<lambda>_. 0) (word_at ?pd (PDX wa))"
    proof (rule load32_same_page [OF _ index_less(1)])
      fix a assume "in_block a ?pd 4096"
      then have "\<not> in_block a 0x80101000 4096" by (intro pages_disjoint [of ?pd]) simp_all
      then show "ram s a = 0" using s(2) by blast
    qed
    then show ?thesis using zero_mem(1) by (simp add: pde_def)
  qed
  then have np: "pte (ram s) ?pd wa = 0" for wa by (simp add: pte_def zero_mem)
  have ok: "pt_ok 0x80100000 (ram s) ?pd [0x80101000]" using demo_page_ok by (simp add: pt_ok_def pd zero_mem)
  have "\<exists>r s' qs k. mappages 0 ?pd 4096 4096 0x4000 PTE_U s = Some (r, s') \<and> kmem_rep 0x80100000 s' qs \<and> pt_ok 0x80100000 (ram s') ?pd qs \<and>
    pte (ram s') ?pd = mapped k (PGROUNDDOWN 4096) 0x4000 PTE_U (pte (ram s) ?pd) \<and> (\<forall>a. outside (ram s) ?pd [0x80101000] a \<longrightarrow> ram s' a = ram s a) \<and>
    (r = 0 \<and> k = (unat (4096 :: u32) + unat (4096 :: u32) - 1) div 4096 - unat (4096 :: u32) div 4096 + 1 \<or>
     r = -1 \<and> k \<le> (unat (4096 :: u32) + unat (4096 :: u32) - 1) div 4096 - unat (4096 :: u32) div 4096 \<and> qs = [])"
    by (rule mappages_maps [OF s(1) ok]) (simp_all add: np zero_mem)
  then obtain r s' k where m: "mappages 0 ?pd 4096 4096 0x4000 PTE_U s = Some (r, s')"
    "pte (ram s') ?pd = mapped k (PGROUNDDOWN 4096) 0x4000 PTE_U (pte (ram s) ?pd)" "r = 0 \<and> k = 1 \<or> r = -1 \<and> k = 0" by auto
  have g: "unat (4096 :: u32) mod 4096 = 0" "unat (4100 :: u32) div 4096 = unat (4096 :: u32) div 4096" by simp_all
  have "PGROUNDDOWN 4096 = 4096" "PGROUNDDOWN 4100 = 4096" by (rule PGROUNDDOWN_same [OF g(1)], simp, rule PGROUNDDOWN_same [OF g])
  then have "pte (ram s') ?pd 4100 = (if r = 0 then 0x4000 OR PTE_U OR PTE_P else 0)"
    using m(2,3) np by (auto simp: mapped_def)
  then show ?thesis using s(1) m(1) by blast
qed

end
