(* ===== verification/Exec.thy ===== *)
theory Exec
  imports FileCalls Vm
begin

text \<open>
  \<open>exec\<close> (\<open>exec.c\<close>, with \<open>elf.h\<close>) and the functions of \<open>vm.c\<close> it needs on the whole kernel: \<open>loaduvm\<close> and
  \<open>switchuvm\<close>. The state adds the machine of \<open>Vm\<close>, the registers that \<open>switchuvm\<close> loads and the text printed
  on the console. The arguments are the strings that \<open>sys_exec\<close> fetched. A jump to the label \<open>bad\<close> is the
  value \<open>None\<close> of the first component of a result.
\<close>

section \<open>State\<close>

record esys = ksys +
  mach :: kmachine
  cr3 :: u32
  ts_esp0 :: u32
  printed :: "byte list"

text \<open>The constants of a kernel: the linker's addresses, and the number of the processor.\<close>

record kernel =
  kend :: u32
  kdata :: u32
  cpu_no :: nat

definition ELF_MAGIC :: u32 where "ELF_MAGIC = 0x464C457F"
definition ELF_PROG_LOAD :: u32 where "ELF_PROG_LOAD = 1"
definition KSTACKSIZE :: u32 where "KSTACKSIZE = 4096"

text \<open>Offsets and sizes of \<open>struct elfhdr\<close> and \<open>struct proghdr\<close>.\<close>

definition elf_magic :: "byte list \<Rightarrow> u32" where "elf_magic e = get32 e 0"
definition elf_entry :: "byte list \<Rightarrow> u32" where "elf_entry e = get32 e 24"
definition elf_phoff :: "byte list \<Rightarrow> u32" where "elf_phoff e = get32 e 28"
definition elf_phnum :: "byte list \<Rightarrow> u16" where "elf_phnum e = get16 e 44"

definition ph_type :: "byte list \<Rightarrow> u32" where "ph_type p = get32 p 0"
definition ph_off :: "byte list \<Rightarrow> u32" where "ph_off p = get32 p 4"
definition ph_vaddr :: "byte list \<Rightarrow> u32" where "ph_vaddr p = get32 p 8"
definition ph_filesz :: "byte list \<Rightarrow> u32" where "ph_filesz p = get32 p 16"
definition ph_memsz :: "byte list \<Rightarrow> u32" where "ph_memsz p = get32 p 20"

section \<open>vm.c on the kernel\<close>

partial_function (option) loaduvm_loop ::
  "nat \<Rightarrow> 'a esys_scheme devsw list \<Rightarrow> u32 \<Rightarrow> u32 \<Rightarrow> nat \<Rightarrow> u32 \<Rightarrow> u32 \<Rightarrow> u32 \<Rightarrow> 'a esys_scheme \<Rightarrow> (int \<times> 'a esys_scheme) option" where
  "loaduvm_loop me ds pd addr ip off len i s =
     (if \<not> i < len then Some (0, s)
      else do {
        (pte, m) \<leftarrow> walkpgdir me pd (addr + i) False (mach s);
        (if pte = 0 then None
         else do {
           let pa = PTE_ADDR (get_word pte m);
           let n = (if len - i < PGSIZE then len - i else PGSIZE);
           (r, bs, s) \<leftarrow> readi ds ip (off + i) n (s\<lparr>mach := m\<rparr>);
           let s = s\<lparr>mach := (mach s)\<lparr>ram := store_bytes (ram (mach s)) (P2V pa) bs\<rparr>\<rparr>;
           (if of_int r \<noteq> n then Some (-1, s) else loaduvm_loop me ds pd addr ip off len (i + PGSIZE) s)
         })
      })"

definition loaduvm :: "nat \<Rightarrow> 'a esys_scheme devsw list \<Rightarrow> u32 \<Rightarrow> u32 \<Rightarrow> nat \<Rightarrow> u32 \<Rightarrow> u32 \<Rightarrow> 'a esys_scheme \<Rightarrow> (int \<times> 'a esys_scheme) option" where
  "loaduvm me ds pd addr ip off len s = (if addr mod PGSIZE \<noteq> 0 then None else loaduvm_loop me ds pd addr ip off len 0 s)"

text \<open>The stack pointer and the page directory that \<open>switchuvm\<close> loads; \<open>pushcli\<close> and \<open>popcli\<close> cancel.\<close>

definition switchuvm :: "proc \<Rightarrow> 'a esys_scheme \<Rightarrow> 'a esys_scheme option" where
  "switchuvm p s =
     (if kstack p = 0 then None
      else if pgdir p = 0 then None
      else Some (s\<lparr>ts_esp0 := kstack p + KSTACKSIZE, cr3 := V2P (pgdir p)\<rparr>))"

text \<open>\<open>copyout\<close> of bytes that do not lie in the memory of the machine: an argument of \<open>exec\<close>, the array \<open>ustack\<close>.\<close>

partial_function (option) copyout_bytes :: "nat \<Rightarrow> u32 \<Rightarrow> u32 \<Rightarrow> byte list \<Rightarrow> kmachine \<Rightarrow> (int \<times> kmachine) option" where
  "copyout_bytes me pd va bs s =
     (if bs = [] then Some (0, s)
      else do {
        let va0 = PGROUNDDOWN va;
        pa0 \<leftarrow> uva2ka me pd va0 s;
        (if pa0 = 0 then Some (-1, s)
         else do {
           let n = unat (PGSIZE - (va - va0));
           let s = s\<lparr>ram := store_bytes (ram s) (pa0 + (va - va0)) (take n bs)\<rparr>;
           copyout_bytes me pd (va0 + PGSIZE) (drop n bs) s
         })
      })"

definition set_mach :: "kmachine \<Rightarrow> 'a esys_scheme \<Rightarrow> 'a esys_scheme" where
  "set_mach m s = s\<lparr>mach := m\<rparr>"

definition print :: "byte list \<Rightarrow> 'a esys_scheme \<Rightarrow> 'a esys_scheme" where
  "print out s = s\<lparr>printed := printed s @ out\<rparr>"

section \<open>exec\<close>

text \<open>One program header: the size of the image, or \<open>None\<close> for \<open>goto bad\<close>.\<close>

definition load_segment :: "kernel \<Rightarrow> 'a esys_scheme devsw list \<Rightarrow> nat \<Rightarrow> u32 \<Rightarrow> u32 \<Rightarrow> u32 \<Rightarrow> 'a esys_scheme \<Rightarrow>
    (u32 option \<times> 'a esys_scheme) option" where
  "load_segment k ds ip pd off size' s = do {
     (r, ph, s) \<leftarrow> readi ds ip off 32 s;
     (if r \<noteq> 32 then Some (None, s)
      else if ph_type ph \<noteq> ELF_PROG_LOAD then Some (Some size', s)
      else if ph_memsz ph < ph_filesz ph then Some (None, s)
      else if ph_vaddr ph + ph_memsz ph < ph_vaddr ph then Some (None, s)
      else do {
        (size', out, m) \<leftarrow> allocuvm (kend k) (cpu_no k) pd size' (ph_vaddr ph + ph_memsz ph) (mach s);
        let s = print out (set_mach m s);
        (if size' = 0 then Some (None, s)
         else if ph_vaddr ph mod PGSIZE \<noteq> 0 then Some (None, s)
         else do {
           (r, s) \<leftarrow> loaduvm (cpu_no k) ds pd (ph_vaddr ph) ip (ph_off ph) (ph_filesz ph) s;
           (if r < 0 then Some (None, s) else Some (Some size', s))
         })
      })
   }"

text \<open>The loop over the program headers, with \<open>n\<close> of them left.\<close>

fun load_segments :: "kernel \<Rightarrow> 'a esys_scheme devsw list \<Rightarrow> nat \<Rightarrow> u32 \<Rightarrow> nat \<Rightarrow> u32 \<Rightarrow> u32 \<Rightarrow> 'a esys_scheme \<Rightarrow>
    (u32 option \<times> 'a esys_scheme) option" where
  "load_segments k ds ip pd 0 off size' s = Some (Some size', s)"
| "load_segments k ds ip pd (Suc n) off size' s = do {
     (r, s) \<leftarrow> load_segment k ds ip pd off size' s;
     (case r of
        None \<Rightarrow> Some (None, s)
      | Some size' \<Rightarrow> load_segments k ds ip pd n (off + 32) size' s)
   }"

text \<open>The part of \<open>exec\<close> that reads the file: the page directory (0 before it is made), and the start point and the
  size of the image.\<close>

definition load_image :: "kernel \<Rightarrow> 'a esys_scheme devsw list \<Rightarrow> nat \<Rightarrow> 'a esys_scheme \<Rightarrow> ((u32 \<times> u32) option \<times> u32 \<times> 'a esys_scheme) option" where
  "load_image k ds ip s = do {
     (r, elf, s) \<leftarrow> readi ds ip 0 52 s;
     (if r \<noteq> 52 then Some (None, 0, s)
      else if elf_magic elf \<noteq> ELF_MAGIC then Some (None, 0, s)
      else do {
        (pd, m) \<leftarrow> setupkvm (kend k) (kdata k) (cpu_no k) (mach s);
        let s = set_mach m s;
        (if pd = 0 then Some (None, 0, s)
         else do {
           (r, s) \<leftarrow> load_segments k ds ip pd (unat (elf_phnum elf)) (elf_phoff elf) 0 s;
           (case r of
              None \<Rightarrow> Some (None, pd, s)
            | Some size' \<Rightarrow> Some (Some (elf_entry elf, size'), pd, s))
         })
      })
   }"

text \<open>The strings of the arguments: the stack pointer and the entries of \<open>ustack\<close>, or \<open>None\<close> for \<open>goto bad\<close>.\<close>

fun push_args :: "nat \<Rightarrow> u32 \<Rightarrow> nat \<Rightarrow> byte list list \<Rightarrow> u32 \<Rightarrow> kmachine \<Rightarrow> ((u32 \<times> u32 list) option \<times> kmachine) option" where
  "push_args me pd argc [] sp m = Some (Some (sp, []), m)"
| "push_args me pd argc (a # as) sp m =
     (if MAXARG \<le> argc then Some (None, m)
      else do {
        let sp = (sp - (of_nat (length a) + 1)) AND NOT 3;
        (r, m) \<leftarrow> copyout_bytes me pd sp (a @ [0]) m;
        (if r < 0 then Some (None, m)
         else do {
           (x, m) \<leftarrow> push_args me pd (argc + 1) as sp m;
           Some (map_option (\<lambda>(sp', us). (sp', sp # us)) x, m)
         })
      })"

text \<open>The user stack: two pages, the first made inaccessible, the arguments, and \<open>ustack\<close>.\<close>

definition build_stack :: "kernel \<Rightarrow> u32 \<Rightarrow> u32 \<Rightarrow> byte list list \<Rightarrow> 'a esys_scheme \<Rightarrow> ((u32 \<times> u32) option \<times> 'a esys_scheme) option" where
  "build_stack k pd size' argv s = do {
     let size' = PGROUNDUP size';
     (size', out, m) \<leftarrow> allocuvm (kend k) (cpu_no k) pd size' (size' + 2 * PGSIZE) (mach s);
     let s = print out (set_mach m s);
     (if size' = 0 then Some (None, s)
      else do {
        m \<leftarrow> clearpteu (cpu_no k) pd (size' - 2 * PGSIZE) (mach s);
        (x, m) \<leftarrow> push_args (cpu_no k) pd 0 argv size' m;
        (case x of
           None \<Rightarrow> Some (None, set_mach m s)
         | Some (sp, us) \<Rightarrow> do {
             let argc = of_nat (length us);
             let ustack = [0xFFFFFFFF, argc, sp - (argc + 1) * 4] @ us @ [0];
             let sp = sp - (3 + argc + 1) * 4;
             (r, m) \<leftarrow> copyout_bytes (cpu_no k) pd sp (concat (map bytes32 ustack)) m;
             (if r < 0 then Some (None, set_mach m s) else Some (Some (sp, size'), set_mach m s))
           })
      })
   }"

definition base_name :: "byte list \<Rightarrow> byte list" where
  "base_name path = rev (takeWhile (\<lambda>c. c \<noteq> slash) (rev path))"

text \<open>The label \<open>bad\<close>, with the inode unless it has been put.\<close>

definition exec_bad :: "kernel \<Rightarrow> u32 \<Rightarrow> nat option \<Rightarrow> 'a esys_scheme \<Rightarrow> (int \<times> 'a esys_scheme) option" where
  "exec_bad k pd ip s = do {
     m \<leftarrow> (if pd \<noteq> 0 then freevm (kend k) (cpu_no k) pd (mach s) else Some (mach s));
     let s = set_mach m s;
     (case ip of
        None \<Rightarrow> Some (-1, s)
      | Some i \<Rightarrow> do {
          s \<leftarrow> iunlockput (self s) i s;
          Some (-1, end_tx s)
        })
   }"

text \<open>The new image of the process: the last part of \<open>exec\<close>.\<close>

definition commit_image :: "kernel \<Rightarrow> byte list \<Rightarrow> u32 \<Rightarrow> u32 \<Rightarrow> u32 \<Rightarrow> u32 \<Rightarrow> 'a esys_scheme \<Rightarrow> (int \<times> 'a esys_scheme) option" where
  "commit_image k path pd size' start sp s = do {
     let oldpgdir = pgdir (up s);
     let s = s\<lparr>up := (up s)\<lparr>name := proc_name (base_name path), pgdir := pd, sz := size',
       tf := (tf (up s))\<lparr>tf_eip := start, tf_esp := sp\<rparr>\<rparr>\<rparr>;
     s \<leftarrow> switchuvm (up s) s;
     m \<leftarrow> freevm (kend k) (cpu_no k) oldpgdir (mach s);
     Some (0, set_mach m s)
   }"

definition exec :: "kernel \<Rightarrow> 'a esys_scheme devsw list \<Rightarrow> byte list \<Rightarrow> byte list \<Rightarrow> byte list list \<Rightarrow> 'a esys_scheme \<Rightarrow>
    (int \<times> 'a esys_scheme) option" where
  "exec k ds stack path argv s = do {
     s \<leftarrow> begin_tx s;
     (ip, s) \<leftarrow> namei_cur ds stack path s;
     (case ip of
        None \<Rightarrow> Some (-1, print (bytes ''exec: fail'' @ [10]) (end_tx s))
      | Some ip \<Rightarrow> do {
          s \<leftarrow> ilock (self s) ip s;
          (r, pd, s) \<leftarrow> load_image k ds ip s;
          (case r of
             None \<Rightarrow> exec_bad k pd (Some ip) s
           | Some (start, size') \<Rightarrow> do {
               s \<leftarrow> iunlockput (self s) ip s;
               let s = end_tx s;
               (r, s) \<leftarrow> build_stack k pd size' argv s;
               (case r of
                  None \<Rightarrow> exec_bad k pd None s
                | Some (sp, size') \<Rightarrow> commit_image k path pd size' start sp s)
             })
        })
   }"

end
