(* ===== verification/Grep.thy ===== *)
theory Grep
  imports Printf
begin

text \<open>
  The pattern matcher and the line filter of \<open>grep.c\<close>. A string is the list of its bytes before the
  terminating zero. The functions \<open>read\<close>, \<open>open\<close> and \<open>close\<close> are arguments, on a state of their own;
  \<open>read n s\<close> returns at most \<open>n\<close> bytes, none at the end of the file or on an error.
\<close>

section \<open>The matcher\<close>

definition caret :: byte where "caret = 94"
definition dollar :: byte where "dollar = 36"
definition period :: byte where "period = 46"
definition star :: byte where "star = 42"

function matchhere :: "byte list \<Rightarrow> byte list \<Rightarrow> bool"
  and matchstar :: "byte \<Rightarrow> byte list \<Rightarrow> byte list \<Rightarrow> bool" where
  "matchhere re tx =
     (case re of
        [] \<Rightarrow> True
      | c # re' \<Rightarrow>
          if re' \<noteq> [] \<and> hd re' = star then matchstar c (tl re') tx
          else if c = dollar \<and> re' = [] then tx = []
          else if tx \<noteq> [] \<and> (c = period \<or> c = hd tx) then matchhere re' (tl tx)
          else False)"
| "matchstar c re tx =
     (if matchhere re tx then True
      else if tx \<noteq> [] \<and> (hd tx = c \<or> c = period) then matchstar c re (tl tx)
      else False)"
  by pat_completeness auto
termination
  by (relation "measure (\<lambda>x. case x of Inl (re, tx) \<Rightarrow> 2 * (length re + length tx) | Inr (_, re, tx) \<Rightarrow> 2 * (length re + length tx) + 1)")
    (auto simp: neq_Nil_conv)

declare matchhere.simps [simp del] matchstar.simps [simp del]

text \<open>The loop of \<open>match\<close>: at every suffix of the tx, the empty one too.\<close>

fun match_from :: "byte list \<Rightarrow> byte list \<Rightarrow> bool" where
  "match_from re tx = (if matchhere re tx then True else case tx of [] \<Rightarrow> False | _ # tx' \<Rightarrow> match_from re tx')"

declare match_from.simps [simp del]

definition match :: "byte list \<Rightarrow> byte list \<Rightarrow> bool" where
  "match re tx = (if re \<noteq> [] \<and> hd re = caret then matchhere (tl re) tx else match_from re tx)"

section \<open>The filter\<close>

definition newline :: byte where "newline = 10"

text \<open>The inner loop over the contents of the buffer: what is written, and what follows the last newline
  that \<open>strchr\<close> finds.\<close>

function grep_lines :: "byte list \<Rightarrow> byte list \<Rightarrow> byte list \<times> byte list" where
  "grep_lines pat p =
     (let l = takeWhile (\<lambda>c. c \<noteq> newline \<and> c \<noteq> 0) p; q = drop (length l) p in
      if q \<noteq> [] \<and> hd q = newline
      then (let (out, p') = grep_lines pat (tl q) in ((if match pat l then l @ [newline] else []) @ out, p'))
      else ([], p))"
  by auto
termination
proof (relation "measure (length \<circ> snd)", goal_cases)
  case (2 pat p l q)
  then have "q \<noteq> []" by simp
  then have "length (tl q) < length q" by simp
  also have "length q \<le> length p" using 2(2) by simp
  finally show ?case by simp
qed simp

declare grep_lines.simps [simp del]

definition grep_buf :: nat where "grep_buf = 1024"

text \<open>The outer loop; the buffer is the list of its \<open>m\<close> bytes. The result is what has been written.\<close>

partial_function (option) grep_loop ::
  "byte list \<Rightarrow> (nat \<Rightarrow> 's \<Rightarrow> byte list \<times> 's) \<Rightarrow> byte list \<Rightarrow> 's \<Rightarrow> (byte list \<times> 's) option" where
  "grep_loop pat read buf s =
     (let (bs, s) = read (grep_buf - length buf - 1) s in
      if bs = [] then Some ([], s)
      else
        let buf = buf @ bs;
            (out, p) = grep_lines pat buf;
            buf = (if length p = length buf then [] else p)
        in do {
          (out', s) \<leftarrow> grep_loop pat read buf s;
          Some (out @ out', s)
        })"

definition grep :: "byte list \<Rightarrow> (nat \<Rightarrow> 's \<Rightarrow> byte list \<times> 's) \<Rightarrow> 's \<Rightarrow> (byte list \<times> 's) option" where
  "grep pat read s = grep_loop pat read [] s"

text \<open>\<open>main\<close>: what is written to the output, and to the error output.\<close>

fun grep_files :: "byte list \<Rightarrow> (int \<Rightarrow> nat \<Rightarrow> 's \<Rightarrow> byte list \<times> 's) \<Rightarrow> (byte list \<Rightarrow> 's \<Rightarrow> int \<times> 's) \<Rightarrow> (int \<Rightarrow> 's \<Rightarrow> 's) \<Rightarrow>
    byte list list \<Rightarrow> 's \<Rightarrow> (byte list \<times> 's) option" where
  "grep_files pat read open' close [] s = Some ([], s)"
| "grep_files pat read open' close (f # fs) s =
     (let (fd, s) = open' f s in
      if fd < 0 then Some (bytes ''grep: cannot open '' @ f @ [10], s)
      else do {
        (out, s) \<leftarrow> grep pat (read fd) s;
        (out', s) \<leftarrow> grep_files pat read open' close fs (close fd s);
        Some (out @ out', s)
      })"

definition grep_main :: "(int \<Rightarrow> nat \<Rightarrow> 's \<Rightarrow> byte list \<times> 's) \<Rightarrow> (byte list \<Rightarrow> 's \<Rightarrow> int \<times> 's) \<Rightarrow> (int \<Rightarrow> 's \<Rightarrow> 's) \<Rightarrow>
    byte list list \<Rightarrow> 's \<Rightarrow> (byte list \<times> byte list \<times> 's) option" where
  "grep_main read open' close argv s =
     (case argv of
        _ # pat # fs \<Rightarrow>
          do {
            (out, s) \<leftarrow> (if fs = [] then grep pat (read 0) s else grep_files pat read open' close fs s);
            Some (out, [], s)
          }
      | _ \<Rightarrow> Some ([], bytes ''usage: grep pattern [file ...]'' @ [10], s))"

section \<open>The language of a pattern\<close>

text \<open>A pattern without its anchors is a list of pieces: one byte, or any number of bytes, of a class.\<close>

datatype piece = One byte | Many byte

definition in_class :: "byte \<Rightarrow> byte \<Rightarrow> bool" where
  "in_class c x \<longleftrightarrow> c = period \<or> x = c"

fun piece_lang :: "piece \<Rightarrow> byte list \<Rightarrow> bool" where
  "piece_lang (One c) u \<longleftrightarrow> (\<exists>x. u = [x] \<and> in_class c x)"
| "piece_lang (Many c) u \<longleftrightarrow> (\<forall>x \<in> set u. in_class c x)"

fun lang :: "piece list \<Rightarrow> byte list \<Rightarrow> bool" where
  "lang [] u \<longleftrightarrow> u = []"
| "lang (p # ps) u \<longleftrightarrow> (\<exists>v w. u = v @ w \<and> piece_lang p v \<and> lang ps w)"

text \<open>The pieces of a pattern, and whether it ends with the anchor \<open>$\<close>.\<close>

fun parse :: "byte list \<Rightarrow> piece list \<times> bool" where
  "parse [] = ([], False)"
| "parse [c] = (if c = dollar then ([], True) else ([One c], False))"
| "parse (c # d # re) =
     (if d = star then (let (ps, e) = parse re in (Many c # ps, e)) else (let (ps, e) = parse (d # re) in (One c # ps, e)))"

definition accepts :: "byte list \<Rightarrow> byte list \<Rightarrow> bool" where
  "accepts re tx \<longleftrightarrow> (\<exists>u v. tx = u @ v \<and> lang (fst (parse re)) u \<and> (snd (parse re) \<longrightarrow> v = []))"

lemma accepts_Nil [simp]: "accepts [] tx"
  by (simp add: accepts_def)

lemma accepts_end: "accepts [dollar] tx \<longleftrightarrow> tx = []"
  by (auto simp: accepts_def)

lemma lang_One: "lang (One c # ps) w \<longleftrightarrow> (\<exists>x u. w = x # u \<and> in_class c x \<and> lang ps u)"
  by (simp, metis append_Cons append_Nil)

lemma accepts_One:
  assumes "re = [] \<Longrightarrow> c \<noteq> dollar" "re \<noteq> [] \<Longrightarrow> hd re \<noteq> star"
  shows "accepts (c # re) tx \<longleftrightarrow> tx \<noteq> [] \<and> in_class c (hd tx) \<and> accepts re (tl tx)"
proof -
  have "parse (c # re) = (One c # fst (parse re), snd (parse re))"
    using assms by (cases re) (auto split: prod.split)
  then have p: "fst (parse (c # re)) = One c # fst (parse re)" "snd (parse (c # re)) = snd (parse re)" by simp_all
  have "accepts (c # re) tx \<longleftrightarrow> (\<exists>x u v. tx = x # u @ v \<and> in_class c x \<and> lang (fst (parse re)) u \<and> (snd (parse re) \<longrightarrow> v = []))"
    unfolding accepts_def p lang_One by (metis append_Cons)
  also have "\<dots> \<longleftrightarrow> tx \<noteq> [] \<and> in_class c (hd tx) \<and> accepts re (tl tx)"
    by (cases tx) (auto simp: accepts_def)
  finally show ?thesis .
qed

lemma accepts_Many:
  "accepts (c # star # re) tx \<longleftrightarrow> (\<exists>a b. tx = a @ b \<and> (\<forall>x \<in> set a. in_class c x) \<and> accepts re b)"
proof -
  have p: "parse (c # star # re) = (Many c # fst (parse re), snd (parse re))" by (simp split: prod.split)
  show ?thesis
    unfolding accepts_def p fst_conv snd_conv lang.simps piece_lang.simps
  proof (intro iffI; elim exE conjE)
    fix u v a w assume "tx = u @ v" "snd (parse re) \<longrightarrow> v = []" "u = a @ w" "\<forall>x \<in> set a. in_class c x" "lang (fst (parse re)) w"
    then show "\<exists>a b. tx = a @ b \<and> (\<forall>x \<in> set a. in_class c x) \<and> (\<exists>u v. b = u @ v \<and> lang (fst (parse re)) u \<and> (snd (parse re) \<longrightarrow> v = []))"
      by (intro exI [of _ a] exI [of _ "w @ v"] exI [of _ w] exI [of _ v] conjI) simp_all
  next
    fix a b u v assume "tx = a @ b" "\<forall>x \<in> set a. in_class c x" "b = u @ v" "lang (fst (parse re)) u" "snd (parse re) \<longrightarrow> v = []"
    then show "\<exists>u v. tx = u @ v \<and> (\<exists>a w. u = a @ w \<and> (\<forall>x \<in> set a. in_class c x) \<and> lang (fst (parse re)) w) \<and> (snd (parse re) \<longrightarrow> v = [])"
      by (intro exI [of _ "a @ u"] exI [of _ v] exI [of _ a] exI [of _ u] conjI) simp_all
  qed
qed

lemma accepts_star_step:
  "accepts (c # star # re) tx \<longleftrightarrow> accepts re tx \<or> (tx \<noteq> [] \<and> in_class c (hd tx) \<and> accepts (c # star # re) (tl tx))"
proof (cases tx)
  case Nil
  then show ?thesis by (auto simp: accepts_Many)
next
  case (Cons x xs)
  have "(\<exists>a b. x # xs = a @ b \<and> (\<forall>x \<in> set a. in_class c x) \<and> accepts re b) \<longleftrightarrow>
    accepts re (x # xs) \<or> in_class c x \<and> (\<exists>a b. xs = a @ b \<and> (\<forall>x \<in> set a. in_class c x) \<and> accepts re b)" (is "?l \<longleftrightarrow> ?r")
  proof
    assume ?l
    then obtain a b where "x # xs = a @ b" "\<forall>x \<in> set a. in_class c x" "accepts re b" by blast
    then show ?r by (cases a) auto
  next
    assume ?r
    then consider "accepts re (x # xs)" | a b where "in_class c x" "xs = a @ b" "\<forall>x \<in> set a. in_class c x" "accepts re b" by blast
    then show ?l
    proof cases
      case 1
      then show ?thesis by (intro exI [of _ "[]"] exI [of _ "x # xs"]) simp
    next
      case (2 a b)
      then show ?thesis by (intro exI [of _ "x # a"] exI [of _ b]) simp
    qed
  qed
  then show ?thesis using Cons by (simp add: accepts_Many)
qed

lemma matchhere_accepts:
  "matchhere re tx = accepts re tx"
  "matchstar c re tx = accepts (c # star # re) tx"
proof (induction re tx and c re tx rule: matchhere_matchstar.induct)
  case (1 re tx)
  show ?case
  proof (cases re)
    case Nil
    then show ?thesis by (simp add: matchhere.simps)
  next
    case (Cons c re')
    consider (many) "re' \<noteq> []" "hd re' = star" | (end_anchor) "\<not> (re' \<noteq> [] \<and> hd re' = star)" "c = dollar" "re' = []"
      | (one) "\<not> (re' \<noteq> [] \<and> hd re' = star)" "\<not> (c = dollar \<and> re' = [])" by blast
    then show ?thesis
    proof cases
      case many
      then have re: "re = c # star # tl re'" using Cons by (metis list.collapse)
      have "matchhere re tx = matchstar c (tl re') tx" using Cons many by (subst matchhere.simps) simp
      then show ?thesis using 1(1) [OF Cons] many re by simp
    next
      case end_anchor
      then show ?thesis using Cons by (simp add: matchhere.simps accepts_end)
    next
      case one
      have a: "accepts (c # re') tx \<longleftrightarrow> tx \<noteq> [] \<and> in_class c (hd tx) \<and> accepts re' (tl tx)"
        by (rule accepts_One) (use one in auto)
      show ?thesis
      proof (cases "tx \<noteq> [] \<and> (c = period \<or> c = hd tx)")
        case True
        then have "matchhere re tx = matchhere re' (tl tx)" using one Cons by (subst matchhere.simps) auto
        then show ?thesis using 1(2) [OF Cons one True] True a Cons by (auto simp: in_class_def)
      next
        case False
        then have "\<not> matchhere re tx" using one Cons by (subst matchhere.simps) auto
        then show ?thesis using False a Cons by (auto simp: in_class_def)
      qed
    qed
  qed
next
  case (2 c re tx)
  show ?case
    using 2 by (subst matchstar.simps, subst accepts_star_step) (auto simp: in_class_def)
qed

lemma match_from_accepts: "match_from re tx \<longleftrightarrow> (\<exists>a b. tx = a @ b \<and> accepts re b)"
proof (induction tx)
  case Nil
  show ?case by (subst match_from.simps) (simp add: matchhere_accepts)
next
  case (Cons x xs)
  have "match_from re (x # xs) \<longleftrightarrow> accepts re (x # xs) \<or> match_from re xs"
    by (subst match_from.simps) (simp add: matchhere_accepts)
  also have "\<dots> \<longleftrightarrow> (\<exists>a b. x # xs = a @ b \<and> accepts re b)"
  proof
    assume "accepts re (x # xs) \<or> match_from re xs"
    then show "\<exists>a b. x # xs = a @ b \<and> accepts re b"
    proof
      assume "match_from re xs"
      then obtain a b where "xs = a @ b" "accepts re b" using Cons by blast
      then show ?thesis by (intro exI [of _ "x # a"] exI [of _ b]) simp
    qed (intro exI [of _ "[]"] exI [of _ "x # xs"], simp)
  next
    assume "\<exists>a b. x # xs = a @ b \<and> accepts re b"
    then obtain a b where ab: "x # xs = a @ b" "accepts re b" by blast
    then show "accepts re (x # xs) \<or> match_from re xs" using Cons by (cases a) auto
  qed
  finally show ?case .
qed

section \<open>The lines that are printed\<close>

definition line_ok :: "byte list \<Rightarrow> bool" where
  "line_ok l \<longleftrightarrow> newline \<notin> set l \<and> 0 \<notin> set l"

definition unlines :: "byte list list \<Rightarrow> byte list" where
  "unlines ls = concat (map (\<lambda>l. l @ [newline]) ls)"

lemma unlines_simps [simp]: "unlines [] = []" "unlines (l # ls) = l @ newline # unlines ls" "unlines (ks @ ls) = unlines ks @ unlines ls"
  by (simp_all add: unlines_def)

lemma takeWhile_line:
  assumes "line_ok l"
  shows "takeWhile (\<lambda>c. c \<noteq> newline \<and> c \<noteq> 0) l = l"
    "takeWhile (\<lambda>c. c \<noteq> newline \<and> c \<noteq> 0) (l @ newline # xs) = l"
proof -
  have "\<forall>c \<in> set l. c \<noteq> newline \<and> c \<noteq> 0" using assms by (auto simp: line_ok_def)
  then show "takeWhile (\<lambda>c. c \<noteq> newline \<and> c \<noteq> 0) l = l"
    "takeWhile (\<lambda>c. c \<noteq> newline \<and> c \<noteq> 0) (l @ newline # xs) = l"
    by (simp_all add: takeWhile_eq_all_conv takeWhile_append2)
qed

lemma grep_lines_unlines:
  assumes "\<forall>l \<in> set ls. line_ok l" "line_ok r"
  shows "grep_lines pat (unlines ls @ r) = (unlines (filter (match pat) ls), r)"
  using assms
proof (induction ls)
  case Nil
  then show ?case by (subst grep_lines.simps) (simp add: takeWhile_line)
next
  case (Cons l ls)
  then show ?case by (subst grep_lines.simps) (simp add: takeWhile_line)
qed

text \<open>A source of bytes that delivers \<open>chunks\<close>, one for each \<open>read\<close>.\<close>

fun read_chunk :: "nat \<Rightarrow> byte list list \<Rightarrow> byte list \<times> byte list list" where
  "read_chunk n [] = ([], [])"
| "read_chunk n (c # cs) = (if n < length c then (take n c, drop n c # cs) else (c, cs))"

text \<open>The chunks are the bytes of lines: each is \<open>rest\<close>, at least one complete line, and the beginning of a line.\<close>

fun chunks_ok :: "byte list \<Rightarrow> (byte list list \<times> byte list) list \<Rightarrow> byte list list \<Rightarrow> bool" where
  "chunks_ok rest [] cs \<longleftrightarrow> cs = []"
| "chunks_ok rest ((ls, r) # ps) cs \<longleftrightarrow> (\<exists>c cs'. cs = c # cs' \<and> c \<noteq> [] \<and> rest @ c = unlines ls @ r \<and> ls \<noteq> [] \<and>
     (\<forall>l \<in> set ls. line_ok l) \<and> line_ok r \<and> length rest + length c < grep_buf \<and> chunks_ok r ps cs')"

lemma grep_loop_chunks:
  assumes "chunks_ok rest ps cs"
  shows "grep_loop pat read_chunk rest cs = Some (unlines (filter (match pat) (concat (map fst ps))), [])"
  using assms
proof (induction rest ps cs rule: chunks_ok.induct)
  case (1 rest cs)
  then show ?case by (subst grep_loop.simps) simp
next
  case (2 rest ls r ps cs)
  then obtain c cs' where c: "cs = c # cs'" "c \<noteq> []" "rest @ c = unlines ls @ r" "ls \<noteq> []" "\<forall>l \<in> set ls. line_ok l" "line_ok r"
    "length rest + length c < grep_buf" "chunks_ok r ps cs'" by auto
  have rd: "read_chunk (grep_buf - length rest - 1) cs = (c, cs')" using c(1,7) by simp
  obtain l ls' where "ls = l # ls'" using c(4) by (cases ls) auto
  then have ne: "unlines ls \<noteq> []" by simp
  have "grep_loop pat read_chunk r cs' = Some (unlines (filter (match pat) (concat (map fst ps))), [])"
    using "2.IH" c(1,8) by simp
  then show ?case
    using rd by (subst grep_loop.simps) (simp add: c(2,3) grep_lines_unlines [OF c(5,6)] ne)
qed

section \<open>Properties\<close>

text \<open>C37: The matcher accepts exactly the texts with a part that is in the language of the pattern: a byte for itself,
  a period for any byte, a star for any number of repetitions of the byte before it, a caret at the start and
  a dollar at the end for the ends of the text.\<close>

theorem match_is_language:
  "match re tx \<longleftrightarrow>
     (if re \<noteq> [] \<and> hd re = caret then accepts (tl re) tx else \<exists>a b. tx = a @ b \<and> accepts re b)"
  by (simp add: match_def matchhere_accepts match_from_accepts)

text \<open>C38: When every read fits the buffer and brings at least one line to its end, \<open>grep\<close> returns and has written
  exactly the complete lines that match, each with its newline.\<close>

theorem grep_prints_matching_lines:
  assumes "chunks_ok [] ps cs"
  shows "grep pat read_chunk cs = Some (unlines (filter (match pat) (concat (map fst ps))), [])"
  unfolding grep_def by (rule grep_loop_chunks [OF assms])

theorem grep_prints_matching_lines_witness:
  "grep [98, 42, 99] read_chunk [[97, 10, 98], [98, 99, 10]] = Some (unlines (filter (match [98, 42, 99]) [[97], [98, 98, 99]]), [])"
proof -
  have "chunks_ok [] [([[97]], [98]), ([[98, 98, 99]], [])] [[97, 10, 98], [98, 99, 10]]"
    by (simp add: line_ok_def newline_def grep_buf_def)
  from grep_prints_matching_lines [OF this] show ?thesis by simp
qed

text \<open>A line that comes in two reads, with no newline in the first, loses its beginning: the test for a full
  buffer in the outer loop throws the bytes away.\<close>

theorem grep_loses_partial_line:
  "grep [97] read_chunk [[97], [98, 10]] = Some ([], []) \<and> grep [97] read_chunk [[97, 98, 10]] = Some ([97, 98, 10], [])"
proof -
  have l: "grep_lines [97] [97] = ([], [97])" "grep_lines [97] [98, 10] = ([], [])" "grep_lines [97] [97, 98, 10] = ([97, 98, 10], [])"
    by (simp_all add: grep_lines.simps newline_def match_def caret_def match_from.simps matchhere.simps dollar_def period_def)
  show ?thesis
    by (simp add: grep_def grep_loop.simps grep_buf_def l)
qed

end
