(* ===== verification/Shell.thy ===== *)
theory Shell
  imports Sysfile Printf
begin

text \<open>
  The shell, \<open>sh.c\<close>. The command line is the bytes before its terminating NUL, and a pointer into it is a
  position; the byte at its end is 0. The node of a command keeps the type of the words it is built from: pairs
  of positions for the parser, strings for the commands that a user means. The calls of \<open>malloc\<close> succeed. The
  four functions of the parser call each other; each call costs one unit of fuel.
\<close>

section \<open>Commands\<close>

datatype 'w cmd =
    EXEC "'w list"
  | REDIR "'w cmd" 'w u32 int
  | PIPE "'w cmd" "'w cmd"
  | LIST "'w cmd" "'w cmd"
  | BACK "'w cmd"

type_synonym span = "nat \<times> nat"

definition MAXARGS :: nat where "MAXARGS = 10"

section \<open>Tokens\<close>

definition whitespace :: "byte list" where "whitespace = [32, 9, 13, 10, 11]"
definition symbols :: "byte list" where "symbols = bytes ''<|>&;()''"

definition char_at :: "byte list \<Rightarrow> nat \<Rightarrow> byte" where
  "char_at buf s = (if s < length buf then buf ! s else 0)"

function skip_space :: "byte list \<Rightarrow> nat \<Rightarrow> nat" where
  "skip_space buf s = (if s < length buf \<and> buf ! s \<in> set whitespace then skip_space buf (s + 1) else s)"
  by auto
termination by (relation "measure (\<lambda>(buf, s). length buf - s)") auto

function skip_word :: "byte list \<Rightarrow> nat \<Rightarrow> nat" where
  "skip_word buf s =
     (if s < length buf \<and> buf ! s \<notin> set whitespace \<and> buf ! s \<notin> set symbols then skip_word buf (s + 1) else s)"
  by auto
termination by (relation "measure (\<lambda>(buf, s). length buf - s)") auto

text \<open>\<open>gettoken\<close> returns the token, its first position, the position after it, and the new position.\<close>

definition gettoken :: "byte list \<Rightarrow> nat \<Rightarrow> byte \<times> nat \<times> nat \<times> nat" where
  "gettoken buf s =
     (let s = skip_space buf s;
          q = s;
          c = char_at buf s;
          (ret, s) =
            (if c = 0 then (c, s)
             else if c \<in> set (bytes ''|();&<'') then (c, s + 1)
             else if c = of_char CHR ''>'' then
               (if char_at buf (s + 1) = of_char CHR ''>'' then (of_char CHR ''+'', s + 2) else (c, s + 1))
             else (of_char CHR ''a'', skip_word buf s));
          eq = s
      in (ret, q, eq, skip_space buf s))"

definition peek :: "byte list \<Rightarrow> nat \<Rightarrow> string \<Rightarrow> bool \<times> nat" where
  "peek buf s toks = (let s = skip_space buf s in (char_at buf s \<noteq> 0 \<and> char_at buf s \<in> set (bytes toks), s))"

section \<open>The parser\<close>

text \<open>A parser stops the program after a message, or has no fuel left.\<close>

datatype 'a parsed = Got 'a | Panicked "byte list" | NoFuel

fun and_then :: "'a parsed \<Rightarrow> ('a \<Rightarrow> 'b parsed) \<Rightarrow> 'b parsed" where
  "and_then (Got x) f = f x"
| "and_then (Panicked m) f = Panicked m"
| "and_then NoFuel f = NoFuel"

definition panic :: "string \<Rightarrow> 'a parsed" where
  "panic m = Panicked (bytes m @ [10])"

declare skip_space.simps [simp del] skip_word.simps [simp del]

lemma skip_space_step: "s < length buf \<Longrightarrow> buf ! s \<in> set whitespace \<Longrightarrow> skip_space buf s = skip_space buf (s + 1)"
  by (subst skip_space.simps) simp

lemma skip_space_stop: "\<not> (s < length buf \<and> buf ! s \<in> set whitespace) \<Longrightarrow> skip_space buf s = s"
  by (subst skip_space.simps) auto

lemma skip_word_step:
  "s < length buf \<Longrightarrow> buf ! s \<notin> set whitespace \<Longrightarrow> buf ! s \<notin> set symbols \<Longrightarrow> skip_word buf s = skip_word buf (s + 1)"
  by (subst skip_word.simps) simp

lemma skip_word_stop: "\<not> (s < length buf \<and> buf ! s \<notin> set whitespace \<and> buf ! s \<notin> set symbols) \<Longrightarrow> skip_word buf s = s"
  by (subst skip_word.simps) auto

lemma skip_space_ge: "s \<le> skip_space buf s"
proof (induction buf s rule: skip_space.induct)
  case (1 buf s)
  then show ?case
    using skip_space_step [of s buf] skip_space_stop [of s buf] by (cases "s < length buf \<and> buf ! s \<in> set whitespace") auto
qed

lemma skip_word_ge: "s \<le> skip_word buf s"
proof (induction buf s rule: skip_word.induct)
  case (1 buf s)
  then show ?case using skip_word_step [of s buf] skip_word_stop [of s buf]
    by (cases "s < length buf \<and> buf ! s \<notin> set whitespace \<and> buf ! s \<notin> set symbols") auto
qed

lemma char_at_end: "char_at buf s \<noteq> 0 \<Longrightarrow> s < length buf"
  by (auto simp: char_at_def split: if_splits)

lemma gettoken_ge: "gettoken buf s = (t, q, eq, s') \<Longrightarrow> s \<le> s'"
proof -
  have "skip_space buf s \<le> skip_space buf x" if "skip_space buf s \<le> x" for x
    using skip_space_ge [of x buf] that by linarith
  then show "gettoken buf s = (t, q, eq, s') \<Longrightarrow> s \<le> s'"
    using skip_space_ge [of s buf] skip_word_ge [of "skip_space buf s" buf]
    by (auto simp: gettoken_def Let_def split: if_splits intro: order_trans)
qed

lemma skip_space_stops: "\<not> (skip_space buf s < length buf \<and> buf ! skip_space buf s \<in> set whitespace)"
proof (induction buf s rule: skip_space.induct)
  case (1 buf s)
  then show ?case using skip_space_step [of s buf] skip_space_stop [of s buf]
    by (cases "s < length buf \<and> buf ! s \<in> set whitespace") auto
qed

lemma skip_space_idem [simp]: "skip_space buf (skip_space buf s) = skip_space buf s"
  by (rule skip_space_stop [OF skip_space_stops])

lemma gettoken_gt:
  assumes "gettoken buf s = (t, q, eq, s')" and "t \<noteq> 0"
  shows "s < s'" and "s < length buf"
proof -
  let ?s = "skip_space buf s"
  have c: "char_at buf ?s \<noteq> 0" using assms by (auto simp: gettoken_def Let_def)
  then have l: "?s < length buf" by (rule char_at_end)
  show "s < length buf" using skip_space_ge [of s buf] l by simp
  have w: "?s < skip_word buf ?s" if "char_at buf ?s \<notin> set symbols"
    using skip_word_step [OF l] skip_space_stops [of buf s] l that skip_word_ge [of "?s + 1" buf] by (simp add: char_at_def)
  have "?s < skip_space buf x" if "?s < x" for x using skip_space_ge [of x buf] that by linarith
  moreover have "set symbols = insert (of_char CHR ''>'') (set (bytes ''|();&<''))" by (auto simp: symbols_def bytes_def)
  ultimately show "s < s'" using assms(1) c w skip_space_ge [of s buf]
    by (auto simp: gettoken_def Let_def split: if_splits intro: le_less_trans)
qed

lemma peek_found: "peek buf s toks = (True, s') \<Longrightarrow> s \<le> s' \<and> skip_space buf s' = s' \<and> char_at buf s' \<noteq> 0 \<and> char_at buf s' \<in> set (bytes toks)"
  using skip_space_ge by (auto simp: peek_def Let_def)

lemma peek_ge: "peek buf s toks = (b, s') \<Longrightarrow> s \<le> s'"
  using skip_space_ge by (auto simp: peek_def Let_def)

lemma gettoken_after_peek:
  assumes "peek buf s toks = (True, s')" and "gettoken buf s' = (t, q, eq, s'')"
  shows "t \<noteq> 0"
  using peek_found [OF assms(1)] assms(2) by (auto simp: gettoken_def Let_def split: if_splits)

text \<open>A redirection adds a node above the command; \<open>cmd\<close> in \<open>parseexec\<close> is the node of the arguments below them.\<close>

function parseredirs :: "byte list \<Rightarrow> span cmd \<Rightarrow> nat \<Rightarrow> (span cmd \<times> nat) parsed" where
  "parseredirs buf cmd s =
     (let (found, s) = peek buf s ''<>'' in
      if \<not> found then Got (cmd, s)
      else
        let (tok, _, _, s1) = gettoken buf s;
            (t, q, eq, s2) = gettoken buf s1
        in if t \<noteq> of_char CHR ''a'' then panic ''missing file for redirection''
           else parseredirs buf
             (if tok = of_char CHR ''<'' then REDIR cmd (q, eq) O_RDONLY 0
              else if tok = of_char CHR ''>'' then REDIR cmd (q, eq) (O_WRONLY OR O_CREATE) 1
              else if tok = of_char CHR ''+'' then REDIR cmd (q, eq) (O_WRONLY OR O_CREATE) 1
              else cmd) s2)"
  by auto
termination
proof (relation "measure (\<lambda>(buf, cmd, s). length buf - s)")
  fix buf :: "byte list" and cmd :: "span cmd" and s x found s' y tok y1 q1 y2 e1 s1 z t z1 q z2 eq s2
  assume p: "x = peek buf s ''<>''" "(found, s') = x" "\<not> \<not> found"
    and g: "y = gettoken buf s'" "(tok, y1) = y" "(q1, y2) = y1" "(e1, s1) = y2" "z = gettoken buf s1" "(t, z1) = z" "(q, z2) = z1" "(eq, s2) = z2"
  have p': "peek buf s ''<>'' = (True, s')" using p by simp
  have g': "gettoken buf s' = (tok, q1, e1, s1)" "gettoken buf s1 = (t, q, eq, s2)" using g by simp_all
  note gt = gettoken_gt [OF g'(1) gettoken_after_peek [OF p' g'(1)]]
  show "((buf, c, s2), buf, cmd, s) \<in> measure (\<lambda>(buf, cmd, s). length buf - s)" for c
    using gt gettoken_ge [OF g'(2)] peek_ge [OF p'] by auto
qed simp

declare parseredirs.simps [simp del]

lemma parseredirs_ge: "parseredirs buf cmd s = Got (cmd', s') \<Longrightarrow> s \<le> s'"
proof (induction buf cmd s arbitrary: cmd' s' rule: parseredirs.induct)
  case (1 buf cmd s)
  obtain found s0 where p: "peek buf s ''<>'' = (found, s0)" by (metis surj_pair)
  obtain tok q1 e1 s1 where g1: "gettoken buf s0 = (tok, q1, e1, s1)" by (metis surj_pair)
  obtain t q eq s2 where g2: "gettoken buf s1 = (t, q, eq, s2)" by (metis surj_pair)
  have o: "s \<le> s0" "s0 \<le> s1" "s1 \<le> s2" using peek_ge [OF p] gettoken_ge [OF g1] gettoken_ge [OF g2] by simp_all
  note IH = "1.IH" [OF p [symmetric] refl _ g1 [symmetric] refl refl refl g2 [symmetric] refl refl refl]
  show ?case
  proof (cases "found \<and> t = of_char CHR ''a''")
    case True
    then have "s2 \<le> s'" using "1.prems" IH [of cmd' s'] p g1 g2 by (subst (asm) parseredirs.simps) (auto simp: Let_def)
    then show ?thesis using o by simp
  next
    case False
    then show ?thesis using "1.prems" p g1 g2 o by (subst (asm) parseredirs.simps) (auto simp: Let_def panic_def split: if_splits)
  qed
qed

lemma and_then_cong [fundef_cong]:
  "m = m' \<Longrightarrow> (\<And>x. m' = Got x \<Longrightarrow> f x = f' x) \<Longrightarrow> and_then m f = and_then m' f'"
  by (cases m') auto

text \<open>The arguments are stored in the node that \<open>parseexec\<close> made, below the redirections.\<close>

fun add_arg :: "'w \<Rightarrow> 'w cmd \<Rightarrow> 'w cmd" where
  "add_arg a (EXEC as) = EXEC (as @ [a])"
| "add_arg a (REDIR c f m d) = REDIR (add_arg a c) f m d"
| "add_arg a c = c"

function parse_args :: "byte list \<Rightarrow> span cmd \<Rightarrow> nat \<Rightarrow> nat \<Rightarrow> (span cmd \<times> nat) parsed" where
  "parse_args buf cmd argc s =
     (let (found, s) = peek buf s ''|)&;'' in
      if found then Got (cmd, s)
      else
        let (tok, q, eq, s) = gettoken buf s in
        if tok = 0 then Got (cmd, s)
        else if tok \<noteq> of_char CHR ''a'' then panic ''syntax''
        else
          let cmd = add_arg (q, eq) cmd; argc = argc + 1 in
          if MAXARGS \<le> argc then panic ''too many args''
          else and_then (parseredirs buf cmd s) (\<lambda>(cmd, s). parse_args buf cmd argc s))"
  by auto
termination
proof (relation "measure (\<lambda>(buf, cmd, argc, s). length buf - s)", goal_cases)
  case 1
  show ?case by simp
next
  case (2 buf cmd argc s x found s0 y tok y1 q y2 eq s1 c n z c' s2)
  have p: "peek buf s ''|)&;'' = (found, s0)" and g: "gettoken buf s0 = (tok, q, eq, s1)" and r: "parseredirs buf c s1 = Got (c', s2)"
    using 2 by simp_all
  have "s0 < s1" "s0 < length buf" using gettoken_gt [OF g] 2 by simp_all
  then show ?case using peek_ge [OF p] parseredirs_ge [OF r] by auto
qed

declare parse_args.simps [simp del]

function parse_backs :: "byte list \<Rightarrow> span cmd \<Rightarrow> nat \<Rightarrow> span cmd \<times> nat" where
  "parse_backs buf cmd s =
     (let (found, s) = peek buf s ''&'' in
      if found then let (_, _, _, s) = gettoken buf s in parse_backs buf (BACK cmd) s else (cmd, s))"
  by auto
termination
proof (relation "measure (\<lambda>(buf, cmd, s). length buf - s)", goal_cases)
  case 1
  show ?case by simp
next
  case (2 buf cmd s x found s0 y tok y1 q y2 eq s1)
  have p: "peek buf s ''&'' = (True, s0)" and g: "gettoken buf s0 = (tok, q, eq, s1)" using 2 by simp_all
  show ?case using gettoken_gt [OF g gettoken_after_peek [OF p g]] peek_ge [OF p] by auto
qed

declare parse_backs.simps [simp del]

fun parseline :: "nat \<Rightarrow> byte list \<Rightarrow> nat \<Rightarrow> (span cmd \<times> nat) parsed"
  and parsepipe :: "nat \<Rightarrow> byte list \<Rightarrow> nat \<Rightarrow> (span cmd \<times> nat) parsed"
  and parseblock :: "nat \<Rightarrow> byte list \<Rightarrow> nat \<Rightarrow> (span cmd \<times> nat) parsed"
  and parseexec :: "nat \<Rightarrow> byte list \<Rightarrow> nat \<Rightarrow> (span cmd \<times> nat) parsed" where
  "parseline 0 buf s = NoFuel"
| "parseline (Suc n) buf s =
     and_then (parsepipe n buf s) (\<lambda>(cmd, s).
       let (cmd, s) = parse_backs buf cmd s;
           (found, s) = peek buf s '';''
       in if found then
            let (_, _, _, s) = gettoken buf s in
            and_then (parseline n buf s) (\<lambda>(right, s). Got (LIST cmd right, s))
          else Got (cmd, s))"
| "parsepipe 0 buf s = NoFuel"
| "parsepipe (Suc n) buf s =
     and_then (parseexec n buf s) (\<lambda>(cmd, s).
       let (found, s) = peek buf s ''|'' in
       if found then
         let (_, _, _, s) = gettoken buf s in
         and_then (parsepipe n buf s) (\<lambda>(right, s). Got (PIPE cmd right, s))
       else Got (cmd, s))"
| "parseblock 0 buf s = NoFuel"
| "parseblock (Suc n) buf s =
     (let (found, s) = peek buf s ''('' in
      if \<not> found then panic ''parseblock''
      else
        let (_, _, _, s) = gettoken buf s in
        and_then (parseline n buf s) (\<lambda>(cmd, s).
          let (found, s) = peek buf s '')'' in
          if \<not> found then panic ''syntax - missing )''
          else let (_, _, _, s) = gettoken buf s in parseredirs buf cmd s))"
| "parseexec 0 buf s = NoFuel"
| "parseexec (Suc n) buf s =
     (let (found, s) = peek buf s ''('' in
      if found then parseblock n buf s
      else and_then (parseredirs buf (EXEC []) s) (\<lambda>(cmd, s). parse_args buf cmd 0 s))"

fun nulterminate :: "span cmd \<Rightarrow> byte list \<Rightarrow> byte list" where
  "nulterminate (EXEC argv) buf = fold (\<lambda>(q, eq) buf. buf[eq := 0]) argv buf"
| "nulterminate (REDIR c (q, eq) m d) buf = (nulterminate c buf)[eq := 0]"
| "nulterminate (PIPE l r) buf = nulterminate r (nulterminate l buf)"
| "nulterminate (LIST l r) buf = nulterminate r (nulterminate l buf)"
| "nulterminate (BACK c) buf = nulterminate c buf"

text \<open>The result is the command and the buffer, with its terminator.\<close>

definition parse_fuel :: "byte list \<Rightarrow> nat" where
  "parse_fuel buf = 4 * length buf + 4"

definition parsecmd :: "byte list \<Rightarrow> (span cmd \<times> byte list) parsed" where
  "parsecmd line =
     (let buf = takeWhile (\<lambda>c. c \<noteq> 0) line in
      and_then (parseline (parse_fuel buf) buf 0) (\<lambda>(cmd, s).
        let (_, s) = peek buf s '''' in
        if s \<noteq> length buf then Panicked (bytes ''leftovers: '' @ drop s buf @ [10] @ bytes ''syntax'' @ [10])
        else Got (cmd, nulterminate cmd (buf @ [0]))))"

section \<open>Running a command\<close>

text \<open>The system calls that a process of the shell makes, in their order; what follows a call depends on its
  result. \<open>exec\<close> returns only when it fails, and \<open>write\<close> is to descriptor 2.\<close>

datatype prog =
    SysExit
  | SysExec "byte list list" prog
  | SysOpen "byte list" u32 "int \<Rightarrow> prog"
  | SysClose int prog
  | SysDup int prog
  | SysPipe "int \<Rightarrow> int \<Rightarrow> int \<Rightarrow> prog"
  | SysFork "int \<Rightarrow> prog"
  | SysWait prog
  | SysChdir "byte list" "int \<Rightarrow> prog"
  | SysWrite "byte list" prog

definition sh_panic :: "string \<Rightarrow> prog" where
  "sh_panic m = SysWrite (bytes m @ [10]) SysExit"

definition fork1 :: "(int \<Rightarrow> prog) \<Rightarrow> prog" where
  "fork1 k = SysFork (\<lambda>pid. if pid = -1 then sh_panic ''fork'' else k pid)"

text \<open>\<open>str\<close> gives the string that a word of the command points to.\<close>

fun runcmd :: "('w \<Rightarrow> byte list) \<Rightarrow> 'w cmd \<Rightarrow> prog" where
  "runcmd str (EXEC argv) =
     (case argv of
        [] \<Rightarrow> SysExit
      | a # _ \<Rightarrow> SysExec (map str argv) (SysWrite (bytes ''exec '' @ str a @ bytes '' failed'' @ [10]) SysExit))"
| "runcmd str (REDIR c f mode fd) =
     SysClose fd (SysOpen (str f) mode (\<lambda>r.
       if r < 0 then SysWrite (bytes ''open '' @ str f @ bytes '' failed'' @ [10]) SysExit else runcmd str c))"
| "runcmd str (LIST l r) = fork1 (\<lambda>pid. if pid = 0 then runcmd str l else SysWait (runcmd str r))"
| "runcmd str (PIPE l r) =
     SysPipe (\<lambda>x p0 p1.
       if x < 0 then sh_panic ''pipe''
       else fork1 (\<lambda>pid.
         if pid = 0 then SysClose 1 (SysDup p1 (SysClose p0 (SysClose p1 (runcmd str l))))
         else fork1 (\<lambda>pid.
           if pid = 0 then SysClose 0 (SysDup p0 (SysClose p0 (SysClose p1 (runcmd str r))))
           else SysClose p0 (SysClose p1 (SysWait (SysWait SysExit))))))"
| "runcmd str (BACK c) = fork1 (\<lambda>pid. if pid = 0 then runcmd str c else SysExit)"

definition word_at :: "byte list \<Rightarrow> nat \<Rightarrow> byte list" where
  "word_at buf q = takeWhile (\<lambda>c. c \<noteq> 0) (drop q buf)"

text \<open>What the child of \<open>main\<close> does with a line.\<close>

definition run_line :: "byte list \<Rightarrow> prog" where
  "run_line line =
     (case parsecmd line of
        Got (cmd, buf) \<Rightarrow> runcmd (\<lambda>(q, eq). word_at buf q) cmd
      | Panicked m \<Rightarrow> SysWrite m SysExit
      | NoFuel \<Rightarrow> SysExit)"

text \<open>The loop of \<open>main\<close> over the lines that \<open>gets\<close> returns; it ends at an empty line, the end of the input.\<close>

fun sh_loop :: "byte list list \<Rightarrow> prog" where
  "sh_loop [] = SysWrite (bytes ''$ '') SysExit"
| "sh_loop (line # lines) = SysWrite (bytes ''$ '')
     (let buf = takeWhile (\<lambda>c. c \<noteq> 0) line in
      if buf = [] then SysExit
      else if take 3 buf = bytes ''cd '' then
        let path = drop 3 (butlast buf) in
        SysChdir path (\<lambda>r. if r < 0 then SysWrite (bytes ''cannot cd '' @ path @ [10]) (sh_loop lines) else sh_loop lines)
      else fork1 (\<lambda>pid. if pid = 0 then run_line line else SysWait (sh_loop lines)))"

text \<open>The first loop of \<open>main\<close>, with a bound on its passes: each pass but the last takes one of the descriptors 0, 1 and 2.\<close>

fun open_console :: "nat \<Rightarrow> prog \<Rightarrow> prog" where
  "open_console 0 k = SysExit"
| "open_console (Suc n) k =
     SysOpen (bytes ''console'') O_RDWR (\<lambda>fd. if fd < 0 then k else if 3 \<le> fd then SysClose fd k else open_console n k)"

definition sh_main :: "byte list list \<Rightarrow> prog" where
  "sh_main input = open_console 4 (sh_loop input)"

end
