(* ===== verification/ShellSafety.thy ===== *)
theory ShellSafety
  imports Shell
begin

text \<open>
  The shell parses and runs what is typed. A command is printed as text (\<open>show_cmd\<close>); each of the parsers, on the
  text of a command before other text, returns that command and stops at the other text; the fuel covers every
  line; a word stays readable in the terminated buffer. The system calls that \<open>runcmd\<close> makes are executed on a table
  of descriptors (\<open>run\<close>) and compared with the programs that the command means (\<open>meaning\<close>).
\<close>

section \<open>Text before a position\<close>

definition spaces :: "byte list \<Rightarrow> byte list" where
  "spaces = dropWhile (\<lambda>c. c \<in> set whitespace)"

definition nxt :: "byte list \<Rightarrow> byte" where
  "nxt t = (case spaces t of [] \<Rightarrow> 0 | c # _ \<Rightarrow> c)"

text \<open>Up to white space, the text from position \<open>s\<close> on is \<open>t\<close>.\<close>

definition at :: "byte list \<Rightarrow> nat \<Rightarrow> byte list \<Rightarrow> bool" where
  "at buf s t \<longleftrightarrow> s \<le> length buf \<and> spaces (drop s buf) = spaces t"

definition word_char :: "byte \<Rightarrow> bool" where
  "word_char c \<longleftrightarrow> c \<noteq> 0 \<and> c \<notin> set whitespace \<and> c \<notin> set symbols"

definition word_ok :: "byte list \<Rightarrow> bool" where
  "word_ok w \<longleftrightarrow> w \<noteq> [] \<and> (\<forall>c \<in> set w. word_char c)"

text \<open>A word of the text: a longest run of bytes that are neither white space nor symbols.\<close>

definition token :: "byte list \<Rightarrow> span \<Rightarrow> bool" where
  "token buf = (\<lambda>(q, eq). q < eq \<and> eq \<le> length buf \<and> (\<forall>i. q \<le> i \<longrightarrow> i < eq \<longrightarrow> word_char (buf ! i)) \<and>
     (eq < length buf \<longrightarrow> \<not> word_char (buf ! eq)))"

definition reads :: "byte list \<Rightarrow> span \<Rightarrow> byte list \<Rightarrow> bool" where
  "reads buf x w \<longleftrightarrow> token buf x \<and> segment buf (fst x) (snd x - fst x) = w"

lemma skip_space_drop: "s \<le> length buf \<Longrightarrow> skip_space buf s \<le> length buf \<and> drop (skip_space buf s) buf = spaces (drop s buf)"
proof (induction buf s rule: skip_space.induct)
  case (1 buf s)
  show ?case
  proof (cases "s < length buf")
    case True
    then have d: "drop s buf = buf ! s # drop (s + 1) buf" by (simp add: Cons_nth_drop_Suc)
    show ?thesis using 1 True skip_space_step [of s buf] skip_space_stop [of s buf]
      by (cases "buf ! s \<in> set whitespace") (simp_all add: d spaces_def)
  next
    case False
    then show ?thesis using 1 skip_space_stop [of s buf] by (simp add: spaces_def)
  qed
qed

lemma skip_word_run:
  "s \<le> length buf \<Longrightarrow> skip_word buf s \<le> length buf \<and> (\<forall>i. s \<le> i \<longrightarrow> i < skip_word buf s \<longrightarrow> buf ! i \<notin> set whitespace \<and> buf ! i \<notin> set symbols) \<and>
     (skip_word buf s < length buf \<longrightarrow> buf ! skip_word buf s \<in> set whitespace \<union> set symbols)"
proof (induction buf s rule: skip_word.induct)
  case (1 buf s)
  show ?case
  proof (cases "s < length buf \<and> buf ! s \<notin> set whitespace \<and> buf ! s \<notin> set symbols")
    case True
    then have k: "skip_word buf s = skip_word buf (s + 1)" by (intro skip_word_step) auto
    have "\<forall>i. s \<le> i \<longrightarrow> i < skip_word buf s \<longrightarrow> i = s \<or> s + 1 \<le> i" by auto
    then show ?thesis using "1.IH" True k by (metis Suc_eq_plus1 Suc_leI)
  next
    case False
    then show ?thesis using "1.prems" skip_word_stop [OF False] by auto
  qed
qed

lemma spaces_idem [simp]: "spaces (spaces t) = spaces t"
  by (induction t) (auto simp: spaces_def)

lemma at_skip: "at buf s t \<Longrightarrow> at buf (skip_space buf s) t"
  using skip_space_drop [of s buf] by (simp add: at_def)

lemma char_at_drop: "s \<le> length buf \<Longrightarrow> char_at buf s = (case drop s buf of [] \<Rightarrow> 0 | c # _ \<Rightarrow> c)"
  by (cases "s < length buf") (simp_all add: char_at_def Cons_nth_drop_Suc [symmetric])

lemma at_char: "at buf s t \<Longrightarrow> char_at buf (skip_space buf s) = nxt t"
  using skip_space_drop [of s buf] char_at_drop [of "skip_space buf s" buf] by (simp add: at_def nxt_def)

lemma peek_at: "at buf s t \<Longrightarrow> peek buf s toks = (nxt t \<noteq> 0 \<and> nxt t \<in> set (bytes toks), skip_space buf s)"
  by (simp add: peek_def at_char)

lemma token_symbols: "set symbols = insert (of_char CHR ''>'') (set (bytes ''|();&<''))"
  by (auto simp: symbols_def bytes_def)

lemma gettoken_sym:
  assumes a: "at buf s (c # t)"
    and c: "c \<in> set (bytes ''|();&<'') \<or> c = of_char CHR ''>'' \<and> (\<forall>t'. t \<noteq> of_char CHR ''>'' # t')"
  shows "\<exists>q eq s'. gettoken buf s = (c, q, eq, s') \<and> at buf s' t"
proof -
  let ?s = "skip_space buf s"
  have w: "c \<notin> set whitespace" "c \<noteq> 0" using c by (auto simp: whitespace_def bytes_def)
  have d: "drop ?s buf = c # t" "?s \<le> length buf"
    using a skip_space_drop [of s buf] w by (auto simp: at_def spaces_def)
  have "?s < length buf" using d by (metis drop_eq_Nil le_neq_implies_less list.distinct(1) order_refl)
  moreover have "drop (?s + 1) buf = tl (drop ?s buf)" by (simp add: drop_Suc tl_drop)
  ultimately have d': "drop (?s + 1) buf = t" "?s + 1 \<le> length buf" using d by simp_all
  have "char_at buf ?s = c" using d by (simp add: char_at_drop)
  moreover have "char_at buf (?s + 1) = of_char CHR ''>'' \<Longrightarrow> \<exists>t'. t = of_char CHR ''>'' # t'"
    using d' by (cases t) (simp_all add: char_at_drop)
  ultimately have "gettoken buf s = (c, ?s, ?s + 1, skip_space buf (?s + 1))"
    using c w(2) by (auto simp: gettoken_def Let_def)
  moreover have "at buf (skip_space buf (?s + 1)) t" using d' by (intro at_skip) (simp add: at_def)
  ultimately show ?thesis by blast
qed

lemma gettoken_a:
  assumes "gettoken buf s = (of_char CHR ''a'', q, eq, s')" and "0 \<notin> set buf"
  shows "token buf (q, eq)" and "q = skip_space buf s" and "eq = skip_word buf q" and "s' = skip_space buf eq"
proof -
  let ?s = "skip_space buf s"
  have c: "char_at buf ?s \<noteq> 0" "char_at buf ?s \<notin> set (bytes ''|();&<'')" "char_at buf ?s \<noteq> of_char CHR ''>''"
    using assms(1) by (auto simp: gettoken_def Let_def bytes_def split: if_splits)
  show q: "q = ?s" and e: "eq = skip_word buf q" and "s' = skip_space buf eq"
    using c assms(1) by (auto simp: gettoken_def Let_def)
  have l: "?s < length buf" using c(1) by (rule char_at_end)
  have w: "?s < eq" using c l skip_word_step [OF l] skip_space_stops [of buf s] skip_word_ge [of "?s + 1" buf]
    by (simp add: q e char_at_def token_symbols)
  have "buf ! i \<noteq> 0" if "i < length buf" for i using assms(2) that by (metis nth_mem)
  then show "token buf (q, eq)" using skip_word_run [of ?s buf] l w by (auto simp: token_def word_char_def e q)
qed

lemma skip_word_exact:
  assumes "s \<le> length buf" and "drop s buf = w @ t" and "\<forall>c \<in> set w. word_char c" and "\<And>c t'. t = c # t' \<Longrightarrow> \<not> word_char c" and "0 \<notin> set buf"
  shows "skip_word buf s = s + length w"
  using assms(1-3)
proof (induction w arbitrary: s)
  case Nil
  have "\<not> (buf ! s \<notin> set whitespace \<and> buf ! s \<notin> set symbols)" if l: "s < length buf"
  proof -
    have "t = buf ! s # drop (Suc s) buf" using Nil.prems(2) Cons_nth_drop_Suc [OF l] by simp
    then have "\<not> word_char (buf ! s)" by (rule assms(4))
    moreover have "buf ! s \<noteq> 0" using assms(5) l by (metis nth_mem)
    ultimately show ?thesis by (simp add: word_char_def)
  qed
  then show ?case using skip_word_stop [of s buf] by auto
next
  case (Cons c w)
  have l: "s < length buf" using Cons.prems(2) by (metis append_Cons drop_eq_Nil list.distinct(1) not_le)
  have "buf ! s # drop (Suc s) buf = c # w @ t" using Cons.prems(2) Cons_nth_drop_Suc [OF l] by simp
  then have d: "buf ! s = c" "drop (s + 1) buf = w @ t" by simp_all
  have "skip_word buf s = skip_word buf (s + 1)" using d l Cons.prems(3) by (intro skip_word_step) (auto simp: word_char_def)
  then show ?case using Cons.IH [of "s + 1"] d l Cons.prems(3) by simp
qed

lemma gettoken_word:
  assumes a: "at buf s (w @ t)" and w: "word_ok w" and t: "\<And>c t'. t = c # t' \<Longrightarrow> \<not> word_char c" and z: "0 \<notin> set buf"
  shows "\<exists>q eq s'. gettoken buf s = (of_char CHR ''a'', q, eq, s') \<and> at buf s' t \<and> reads buf (q, eq) w"
proof -
  let ?s = "skip_space buf s"
  obtain c w' where cw: "w = c # w'" "word_char c" using w by (cases w) (auto simp: word_ok_def)
  have d: "drop ?s buf = w @ t" "?s \<le> length buf"
    using a skip_space_drop [of s buf] cw by (auto simp: at_def spaces_def word_char_def)
  have "char_at buf ?s = c" using d cw by (simp add: char_at_drop)
  moreover have e: "skip_word buf ?s = ?s + length w"
    using d w t z by (intro skip_word_exact [where t = t]) (auto simp: word_ok_def)
  ultimately have g: "gettoken buf s = (of_char CHR ''a'', ?s, ?s + length w, skip_space buf (?s + length w))"
    using cw(2) by (auto simp: gettoken_def Let_def word_char_def token_symbols)
  have l: "?s + length w \<le> length buf" using skip_word_run [OF d(2)] e by simp
  have "drop (?s + length w) buf = t" using d(1) by (metis add.commute append_eq_conv_conj drop_drop)
  then have "at buf (skip_space buf (?s + length w)) t" using l by (intro at_skip) (simp add: at_def)
  moreover have "reads buf (?s, ?s + length w) w"
    using gettoken_a(1) [OF g z] d(1) by (simp add: reads_def segment_def)
  ultimately show ?thesis using g by blast
qed

lemma gettoken_end:
  assumes "at buf s t" and "nxt t = 0"
  shows "\<exists>q eq. gettoken buf s = (0, q, eq, skip_space buf s)"
  using at_char [OF assms(1)] assms(2) by (simp add: gettoken_def Let_def)

lemma at_cong: "spaces t = spaces t' \<Longrightarrow> at buf s t = at buf s t'"
  by (simp add: at_def)

lemma at_space: "c \<in> set whitespace \<Longrightarrow> at buf s (c # t) = at buf s t"
  by (intro at_cong) (simp add: spaces_def)

lemma nxt_Cons: "c \<notin> set whitespace \<Longrightarrow> nxt (c # t) = c"
  by (simp add: nxt_def spaces_def)

section \<open>Where a parser stops\<close>

lemma at_nxt0:
  assumes "at buf s t" and "nxt t = 0" and "0 \<notin> set buf"
  shows "skip_space buf s = length buf"
proof (rule ccontr)
  assume "skip_space buf s \<noteq> length buf"
  then have l: "skip_space buf s < length buf" using skip_space_drop [of s buf] assms(1) by (simp add: at_def)
  then have "buf ! skip_space buf s \<in> set buf" by (rule nth_mem)
  moreover have "buf ! skip_space buf s = 0" using at_char [OF assms(1)] assms(2) l by (simp add: char_at_def)
  ultimately show False using assms(3) by simp
qed

text \<open>A printed redirection.\<close>

definition redir_ok :: "byte list \<Rightarrow> u32 \<Rightarrow> int \<Rightarrow> bool" where
  "redir_ok f m d \<longleftrightarrow> word_ok f \<and> (m = O_RDONLY \<and> d = 0 \<or> m = O_WRONLY OR O_CREATE \<and> d = 1)"

definition show_redir :: "byte list \<Rightarrow> int \<Rightarrow> byte list" where
  "show_redir f d = (if d = 0 then of_char CHR ''<'' else of_char CHR ''>'') # f @ [32]"

lemma not_word_chars: "\<not> word_char 32" "\<not> word_char 0" "c \<in> set whitespace \<Longrightarrow> \<not> word_char c" "c \<in> set symbols \<Longrightarrow> \<not> word_char c"
  by (auto simp: word_char_def whitespace_def)

lemma symbol_bytes: "of_char CHR ''<'' = (60 :: byte)" "of_char CHR ''>'' = (62 :: byte)" "of_char CHR ''a'' = (97 :: byte)"
  "of_char CHR ''+'' = (43 :: byte)" "of_char CHR ''('' = (40 :: byte)" "of_char CHR '')'' = (41 :: byte)"
  "of_char CHR ''|'' = (124 :: byte)" "of_char CHR ''&'' = (38 :: byte)" "of_char CHR '';'' = (59 :: byte)"
  by simp_all

lemma set_tokens: "set (bytes ''<>'') = {60, 62}" "set (bytes ''|)&;'') = {124, 41, 38, 59}" "set (bytes ''&'') = {38}" "set (bytes '';'') = {59}"
  "set (bytes ''|'') = {124}" "set (bytes ''('') = {40}" "set (bytes '')'') = {41}" "set (bytes ''|();&<'') = {124, 40, 41, 59, 38, 60}"
  "set whitespace = {32, 9, 13, 10, 11}" "bytes '''' = []"
  by (simp_all add: bytes_def whitespace_def)

lemma parseredirs_none:
  assumes "at buf s t" and "nxt t \<notin> {60, 62}"
  shows "parseredirs buf c s = Got (c, skip_space buf s)"
  using peek_at [OF assms(1), of "''<>''"] assms(2) by (subst parseredirs.simps) (simp add: set_tokens)

lemma parseredirs_skip: "at buf s t \<Longrightarrow> parseredirs buf c (skip_space buf s) = parseredirs buf c s"
  using peek_at [of buf s t "''<>''"] peek_at [OF at_skip, of buf s t "''<>''"]
  by (subst (1 2) parseredirs.simps) simp

lemma parseredirs_one:
  assumes a: "at buf s (show_redir f d @ t)" and r: "redir_ok f m d" and z: "0 \<notin> set buf"
  shows "\<exists>x s'. parseredirs buf c s = parseredirs buf (REDIR c x m d) s' \<and> at buf s' t \<and> reads buf x f"
proof -
  define y :: byte where "y = (if d = 0 then 60 else 62)"
  have sh: "show_redir f d @ t = y # f @ 32 # t" by (simp add: show_redir_def y_def)
  have y: "y \<in> {60, 62}" "y \<noteq> 0" by (simp_all add: y_def)
  have p: "peek buf s ''<>'' = (True, skip_space buf s)"
    using peek_at [OF a, of "''<>''"] y by (auto simp: sh set_tokens nxt_Cons)
  obtain c' f' where f: "f = c' # f'" "word_char c'" using r by (cases f) (auto simp: redir_ok_def word_ok_def)
  have nf: "c' \<noteq> 62" using f(2) by (auto simp: word_char_def token_symbols)
  have yc: "y \<in> set (bytes ''|();&<'') \<or> y = of_char CHR ''>'' \<and> (\<forall>t'. f @ 32 # t \<noteq> of_char CHR ''>'' # t')"
    using y nf f(1) by (auto simp: set_tokens)
  have "at buf (skip_space buf s) (y # f @ 32 # t)" using at_skip [OF a] by (simp add: sh)
  then obtain q1 e1 s1 where g1: "gettoken buf (skip_space buf s) = (y, q1, e1, s1)" and a1: "at buf s1 (f @ 32 # t)"
    using gettoken_sym [OF _ yc] by blast
  obtain q eq s2 where g2: "gettoken buf s1 = (97, q, eq, s2)" and a2: "at buf s2 (32 # t)" and x: "reads buf (q, eq) f"
    using gettoken_word [OF a1 _ _ z] r not_word_chars by (fastforce simp: redir_ok_def)
  have "parseredirs buf c s = parseredirs buf (REDIR c (q, eq) m d) s2"
    using p g1 g2 r y by (subst parseredirs.simps) (auto simp: y_def redir_ok_def)
  moreover have "at buf s2 t" using a2 at_space [of 32 buf s2 t] by (simp add: set_tokens)
  ultimately show ?thesis using x by blast
qed

text \<open>A command as text. Its first argument is the place it is printed for: 0 for a line, 1 for a command in the
  background, 2 for a pipeline, 3 for a simple command.\<close>

definition paren :: "bool \<Rightarrow> byte list \<Rightarrow> byte list" where
  "paren b t = (if b then [40] @ t @ [41] else t)"

fun show_cmd :: "nat \<Rightarrow> byte list cmd \<Rightarrow> byte list" where
  "show_cmd l (EXEC ws) = concat (map (\<lambda>w. w @ [32]) ws)"
| "show_cmd l (REDIR c f m d) = show_cmd 3 c @ show_redir f d"
| "show_cmd l (PIPE a b) = paren (2 < l) (show_cmd 3 a @ [124] @ show_cmd 2 b)"
| "show_cmd l (BACK a) = paren (1 < l) (show_cmd 1 a @ [38])"
| "show_cmd l (LIST a b) = paren (0 < l) (show_cmd 1 a @ [59] @ show_cmd 0 b)"

fun cmd_ok :: "byte list cmd \<Rightarrow> bool" where
  "cmd_ok (EXEC ws) \<longleftrightarrow> length ws < MAXARGS \<and> (\<forall>w \<in> set ws. word_ok w)"
| "cmd_ok (REDIR c f m d) \<longleftrightarrow> cmd_ok c \<and> redir_ok f m d"
| "cmd_ok (PIPE a b) \<longleftrightarrow> cmd_ok a \<and> cmd_ok b"
| "cmd_ok (BACK a) \<longleftrightarrow> cmd_ok a"
| "cmd_ok (LIST a b) \<longleftrightarrow> cmd_ok a \<and> cmd_ok b"

text \<open>What the parsers do on the text of \<open>c\<close> before the text \<open>t\<close>; \<open>m\<close> is the parser's result.\<close>

definition parses :: "byte list \<Rightarrow> byte list cmd \<Rightarrow> byte list \<Rightarrow> (span cmd \<times> nat) parsed \<Rightarrow> ((span cmd \<times> nat) \<Rightarrow> (span cmd \<times> nat) parsed) \<Rightarrow> bool" where
  "parses buf c t m k \<longleftrightarrow> m = NoFuel \<or> (\<exists>c' s'. m = k (c', s') \<and> at buf s' t \<and> rel_cmd (reads buf) c' c)"

text \<open>The continuation after redirections, in \<open>parseblock\<close> and in the loop of \<open>parseexec\<close>, that ends the simple command.\<close>

definition finishes :: "byte list \<Rightarrow> (span cmd \<times> nat \<Rightarrow> (span cmd \<times> nat) parsed) \<Rightarrow> bool" where
  "finishes buf k \<longleftrightarrow> (\<forall>c s t. at buf s t \<longrightarrow> skip_space buf s = s \<longrightarrow> nxt t \<in> {0, 124, 41, 38, 59} \<longrightarrow> k (c, s) = Got (c, s))"

lemma finishes_Got: "finishes buf Got"
  by (simp add: finishes_def)

lemma finishes_args: "finishes buf (\<lambda>(c, s). parse_args buf c n s)"
  unfolding finishes_def
proof (intro allI impI)
  fix c s t
  assume a: "at buf s t" and s: "skip_space buf s = s" and t: "nxt t \<in> {0, 124, 41, 38, 59}"
  have p: "peek buf s ''|)&;'' = (nxt t \<noteq> 0, s)" using peek_at [OF a, of "''|)&;''"] t s by (auto simp: set_tokens)
  show "(case (c, s) of (c, s) \<Rightarrow> parse_args buf c n s) = Got (c, s)"
    using p gettoken_end [OF a] s by (cases "nxt t = 0") (auto simp: parse_args.simps [of buf c n s])
qed

text \<open>The arguments of a simple command, \<open>ds\<close> stored already.\<close>

lemma parse_args_words:
  assumes "at buf s (concat (map (\<lambda>w. w @ [32]) ws) @ t)" and "\<forall>w \<in> set ws. word_ok w" and "length ds + length ws < MAXARGS" and z: "0 \<notin> set buf"
  shows "\<exists>as s' n. and_then (parseredirs buf (EXEC ds) s) (\<lambda>(c, s). parse_args buf c (length ds) s) =
      and_then (parseredirs buf (EXEC (ds @ as)) s') (\<lambda>(c, s). parse_args buf c n s) \<and> at buf s' t \<and> list_all2 (reads buf) as ws"
  using assms(1-3)
proof (induction ws arbitrary: ds s)
  case Nil
  then show ?case by (intro exI [of _ "[]"] exI [of _ s] exI [of _ "length ds"]) simp
next
  case (Cons w ws)
  let ?t = "concat (map (\<lambda>w. w @ [32]) ws) @ t"
  have a: "at buf s (w @ 32 # ?t)" using Cons.prems(1) by simp
  have w: "word_ok w" using Cons.prems(2) by simp
  have n: "nxt (w @ 32 # ?t) = hd w" "word_char (hd w)" using w by (cases w; auto simp: word_ok_def word_char_def nxt_Cons)+
  have c: "nxt (w @ 32 # ?t) \<notin> {0, 60, 62, 124, 41, 38, 59}" using n by (auto simp: word_char_def token_symbols set_tokens)
  let ?s = "skip_space buf s"
  have r: "parseredirs buf (EXEC ds) s = Got (EXEC ds, ?s)" using parseredirs_none [OF a] c by simp
  have p: "peek buf ?s ''|)&;'' = (False, ?s)" using peek_at [OF at_skip [OF a], of "''|)&;''"] c by (auto simp: set_tokens)
  obtain q eq s2 where g: "gettoken buf ?s = (97, q, eq, s2)" and a2: "at buf s2 (32 # ?t)" and x: "reads buf (q, eq) w"
    using gettoken_word [OF at_skip [OF a] w _ z] not_word_chars by fastforce
  have "at buf s2 ?t" using a2 at_space [of 32 buf s2 ?t] by (simp add: set_tokens)
  from Cons.IH [OF this, of "ds @ [(q, eq)]"] Cons.prems(2,3)
  obtain as s' n where IH: "and_then (parseredirs buf (EXEC (ds @ [(q, eq)])) s2) (\<lambda>(c, s). parse_args buf c (length ds + 1) s) =
      and_then (parseredirs buf (EXEC ((ds @ [(q, eq)]) @ as)) s') (\<lambda>(c, s). parse_args buf c n s)" "at buf s' t" "list_all2 (reads buf) as ws"
    by auto
  have "parse_args buf (EXEC ds) (length ds) ?s = and_then (parseredirs buf (EXEC (ds @ [(q, eq)])) s2) (\<lambda>(c, s). parse_args buf c (length ds + 1) s)"
    using p g Cons.prems(3) by (subst parse_args.simps) simp
  then show ?case using r IH x by (intro exI [of _ "(q, eq) # as"] exI [of _ s'] exI [of _ n]) simp
qed

section \<open>The parsers on printed text\<close>

text \<open>The claim for each parser, on the text \<open>u\<close> that \<open>c\<close> has at its level.\<close>

definition line_parses :: "byte list \<Rightarrow> byte list cmd \<Rightarrow> byte list \<Rightarrow> bool" where
  "line_parses buf c u \<longleftrightarrow> (\<forall>n s t. at buf s (u @ t) \<longrightarrow> nxt t \<in> {0, 41} \<longrightarrow> parses buf c t (parseline n buf s) Got)"

definition backs_parses :: "byte list \<Rightarrow> byte list cmd \<Rightarrow> byte list \<Rightarrow> bool" where
  "backs_parses buf c u \<longleftrightarrow> (\<forall>n s t. at buf s (u @ t) \<longrightarrow> nxt t \<in> {0, 41, 38, 59} \<longrightarrow>
     parses buf c t (and_then (parsepipe n buf s) (\<lambda>(c, s). Got (parse_backs buf c s))) (\<lambda>(c, s). Got (parse_backs buf c s)))"

definition pipe_parses :: "byte list \<Rightarrow> byte list cmd \<Rightarrow> byte list \<Rightarrow> bool" where
  "pipe_parses buf c u \<longleftrightarrow> (\<forall>n s t. at buf s (u @ t) \<longrightarrow> nxt t \<in> {0, 41, 38, 59} \<longrightarrow> parses buf c t (parsepipe n buf s) Got)"

definition exec_parses :: "byte list \<Rightarrow> byte list cmd \<Rightarrow> byte list \<Rightarrow> bool" where
  "exec_parses buf c u \<longleftrightarrow> (\<forall>n s t. at buf s (u @ t) \<longrightarrow> nxt t \<in> {0, 124, 41, 38, 59, 60, 62} \<longrightarrow>
     (\<exists>k. finishes buf k \<and> parses buf c t (parseexec n buf s) (\<lambda>(c, s). and_then (parseredirs buf c s) k)))"

text \<open>A symbol that a parser found is skipped.\<close>

lemma take_sym:
  assumes "at buf s t" and "nxt t = c" and "c \<in> {124, 40, 41, 59, 38}" and "spaces t = c # t'"
  shows "\<exists>q eq s'. gettoken buf (skip_space buf s) = (c, q, eq, s') \<and> at buf s' t'"
proof -
  have "at buf (skip_space buf s) (c # t')" using at_skip [OF assms(1)] assms(4) at_cong [of "c # t'" t buf "skip_space buf s"]
    by (metis spaces_idem)
  then show ?thesis using gettoken_sym [of buf "skip_space buf s" c t'] assms(3) by (auto simp: set_tokens)
qed

lemma at_sym:
  assumes "at buf s (c # t)" and "c \<in> {124, 40, 41, 59, 38}"
  shows "\<exists>q eq s'. gettoken buf (skip_space buf s) = (c, q, eq, s') \<and> at buf s' t"
  using take_sym [OF assms(1) _ assms(2), of t] assms(2) by (auto simp: nxt_Cons set_tokens spaces_def)

lemma exec_finished:
  assumes "exec_parses buf c u" and "at buf s (u @ t)" and "nxt t \<in> {0, 124, 41, 38, 59}"
  shows "parses buf c t (parseexec n buf s) (\<lambda>(c, s). Got (c, skip_space buf s))"
proof -
  obtain k where k: "finishes buf k" "parses buf c t (parseexec n buf s) (\<lambda>(c, s). and_then (parseredirs buf c s) k)"
    using assms unfolding exec_parses_def by blast
  have "and_then (parseredirs buf c' s') k = Got (c', skip_space buf s')" if "at buf s' t" for c' s'
    using parseredirs_none [OF that, of c'] assms(3) k(1) at_skip [OF that] unfolding finishes_def by auto
  then show ?thesis using k(2) unfolding parses_def by fastforce
qed

lemma pipe_of_exec:
  assumes e: "exec_parses buf c u"
  shows "pipe_parses buf c u"
  unfolding pipe_parses_def
proof (intro allI impI)
  fix n s t assume a: "at buf s (u @ t)" and t: "nxt t \<in> {0, 41, 38, 59}"
  show "parses buf c t (parsepipe n buf s) Got"
  proof (cases n)
    case (Suc m)
    have t': "nxt t \<in> {0, 124, 41, 38, 59}" using t by auto
    from exec_finished [OF e a t', of m] consider "parseexec m buf s = NoFuel"
      | c' s' where "parseexec m buf s = Got (c', skip_space buf s')" "at buf s' t" "rel_cmd (reads buf) c' c"
      unfolding parses_def by auto
    then show ?thesis
    proof cases
      case 2
      have "peek buf (skip_space buf s') ''|'' = (False, skip_space buf s')"
        using peek_at [OF at_skip [OF 2(2)], of "''|''"] t by (auto simp: set_tokens)
      then show ?thesis using 2 at_skip [OF 2(2)] Suc by (auto simp: parses_def)
    qed (simp add: parses_def Suc)
  qed (simp add: parses_def)
qed

lemma pipe_step:
  assumes e: "exec_parses buf a u" and p: "pipe_parses buf b v"
  shows "pipe_parses buf (PIPE a b) (u @ 124 # v)"
  unfolding pipe_parses_def
proof (intro allI impI)
  fix n s t assume a: "at buf s ((u @ 124 # v) @ t)" and t: "nxt t \<in> {0, 41, 38, 59}"
  have a: "at buf s (u @ 124 # v @ t)" using a by simp
  have n: "nxt (124 # v @ t) = 124" by (simp add: nxt_Cons set_tokens)
  show "parses buf (PIPE a b) t (parsepipe n buf s) Got"
  proof (cases n)
    case (Suc m)
    from exec_finished [OF e a, of m] n consider "parseexec m buf s = NoFuel"
      | a' s' where "parseexec m buf s = Got (a', skip_space buf s')" "at buf s' (124 # v @ t)" "rel_cmd (reads buf) a' a"
      unfolding parses_def by auto
    then show ?thesis
    proof cases
      case 2
      obtain q eq s2 where g: "gettoken buf (skip_space buf s') = (124, q, eq, s2)" "at buf s2 (v @ t)" using at_sym [OF 2(2)] by auto
      have k: "peek buf (skip_space buf s') ''|'' = (True, skip_space buf s')"
        using peek_at [OF at_skip [OF 2(2)], of "''|''"] n by (simp add: set_tokens)
      have "parses buf b t (parsepipe m buf s2) Got" using p g(2) t unfolding pipe_parses_def by blast
      then show ?thesis using 2 k g Suc by (auto simp: parses_def)
    qed (simp add: parses_def Suc)
  qed (simp add: parses_def)
qed

lemma parses_then: "parses buf c t m Got \<Longrightarrow> parses buf c t (and_then m f) f"
  unfolding parses_def by (cases m) auto

lemma backs_of_pipe: "pipe_parses buf c u \<Longrightarrow> backs_parses buf c u"
  unfolding pipe_parses_def backs_parses_def by (blast intro: parses_then)

lemma backs_step:
  assumes "backs_parses buf a u"
  shows "backs_parses buf (BACK a) (u @ [38])"
  unfolding backs_parses_def
proof (intro allI impI)
  fix n s t assume a: "at buf s ((u @ [38]) @ t)" and t: "nxt t \<in> {0, 41, 38, 59}"
  have n: "nxt (38 # t) = 38" by (simp add: nxt_Cons set_tokens)
  let ?k = "\<lambda>(c, s). Got (parse_backs buf c s)"
  have "parses buf a (38 # t) (and_then (parsepipe n buf s) ?k) ?k"
    using assms a n unfolding backs_parses_def by simp
  moreover have "\<exists>s2. parse_backs buf c' s' = parse_backs buf (BACK c') s2 \<and> at buf s2 t" if x: "at buf s' (38 # t)" for c' s'
  proof -
    obtain q eq s2 where g: "gettoken buf (skip_space buf s') = (38, q, eq, s2)" "at buf s2 t" using at_sym [OF x] by auto
    have "peek buf s' ''&'' = (True, skip_space buf s')" using peek_at [OF x, of "''&''"] n by (simp add: set_tokens)
    then show ?thesis using g by (subst parse_backs.simps) auto
  qed
  ultimately show "parses buf (BACK a) t (and_then (parsepipe n buf s) ?k) ?k" unfolding parses_def by fastforce
qed

lemma parse_backs_none: "at buf s t \<Longrightarrow> nxt t \<noteq> 38 \<Longrightarrow> parse_backs buf c s = (c, skip_space buf s)"
  using peek_at [of buf s t "''&''"] by (subst parse_backs.simps) (simp add: set_tokens)

lemma line_of_backs:
  assumes "backs_parses buf c u"
  shows "line_parses buf c u"
  unfolding line_parses_def
proof (intro allI impI)
  fix n s t assume a: "at buf s (u @ t)" and t: "nxt t \<in> {0, 41}"
  show "parses buf c t (parseline n buf s) Got"
  proof (cases n)
    case (Suc m)
    let ?k = "\<lambda>(c, s). Got (parse_backs buf c s)"
    have t': "nxt t \<in> {0, 41, 38, 59}" using t by auto
    then have "parses buf c t (and_then (parsepipe m buf s) ?k) ?k" using assms a unfolding backs_parses_def by blast
    then consider "parsepipe m buf s = NoFuel"
      | c1 s1 c' s' where "parsepipe m buf s = Got (c1, s1)" "parse_backs buf c1 s1 = parse_backs buf c' s'" "at buf s' t" "rel_cmd (reads buf) c' c"
      unfolding parses_def by (cases "parsepipe m buf s") auto
    then show ?thesis
    proof cases
      case 2
      have "parse_backs buf c1 s1 = (c', skip_space buf s')" using parse_backs_none [OF 2(3)] 2(2) t by auto
      moreover have "peek buf (skip_space buf s') '';'' = (False, skip_space buf s')"
        using peek_at [OF at_skip [OF 2(3)], of "'';''"] t by (auto simp: set_tokens)
      ultimately show ?thesis using 2(1,4) at_skip [OF 2(3)] Suc by (auto simp: parses_def)
    qed (simp add: parses_def Suc)
  qed (simp add: parses_def)
qed

lemma line_step:
  assumes b: "backs_parses buf a u" and l: "line_parses buf b v"
  shows "line_parses buf (LIST a b) (u @ 59 # v)"
  unfolding line_parses_def
proof (intro allI impI)
  fix n s t assume a: "at buf s ((u @ 59 # v) @ t)" and t: "nxt t \<in> {0, 41}"
  have a: "at buf s (u @ 59 # v @ t)" using a by simp
  have n: "nxt (59 # v @ t) = 59" by (simp add: nxt_Cons set_tokens)
  show "parses buf (LIST a b) t (parseline n buf s) Got"
  proof (cases n)
    case (Suc m)
    let ?k = "\<lambda>(c, s). Got (parse_backs buf c s)"
    have "parses buf a (59 # v @ t) (and_then (parsepipe m buf s) ?k) ?k" using b a n unfolding backs_parses_def by simp
    then consider "parsepipe m buf s = NoFuel"
      | c1 s1 c' s' where "parsepipe m buf s = Got (c1, s1)" "parse_backs buf c1 s1 = parse_backs buf c' s'" "at buf s' (59 # v @ t)" "rel_cmd (reads buf) c' a"
      unfolding parses_def by (cases "parsepipe m buf s") auto
    then show ?thesis
    proof cases
      case 2
      have b1: "parse_backs buf c1 s1 = (c', skip_space buf s')" using parse_backs_none [OF 2(3)] 2(2) n by auto
      obtain q eq s2 where g: "gettoken buf (skip_space buf s') = (59, q, eq, s2)" "at buf s2 (v @ t)" using at_sym [OF 2(3)] by auto
      have k: "peek buf (skip_space buf s') '';'' = (True, skip_space buf s')"
        using peek_at [OF at_skip [OF 2(3)], of "'';''"] n by (simp add: set_tokens)
      have "parses buf b t (parseline m buf s2) Got" using l g(2) t unfolding line_parses_def by blast
      then show ?thesis using 2(1,4) b1 k g Suc by (auto simp: parses_def)
    qed (simp add: parses_def Suc)
  qed (simp add: parses_def)
qed

text \<open>A command in parentheses.\<close>

lemma exec_of_line:
  assumes l: "line_parses buf c u"
  shows "exec_parses buf c (paren True u)"
  unfolding exec_parses_def
proof (intro allI impI)
  fix n s t assume a: "at buf s (paren True u @ t)" and t: "nxt t \<in> {0, 124, 41, 38, 59, 60, 62}"
  have a: "at buf s (40 # u @ 41 # t)" using a by (simp add: paren_def)
  have n: "nxt (40 # u @ 41 # t) = 40" "nxt (41 # t) = 41" by (simp_all add: nxt_Cons set_tokens)
  let ?k = "\<lambda>(c, s). and_then (parseredirs buf c s) Got"
  have k: "and_then (parseredirs buf c' s') Got = parseredirs buf c' s'" for c' s' by (cases "parseredirs buf c' s'") auto
  have p: "peek buf s ''('' = (True, skip_space buf s)" "peek buf (skip_space buf s) ''('' = (True, skip_space buf s)"
    using peek_at [OF a, of "''(''"] peek_at [OF at_skip [OF a], of "''(''"] n by (simp_all add: set_tokens)
  obtain q eq s1 where g: "gettoken buf (skip_space buf s) = (40, q, eq, s1)" "at buf s1 (u @ 41 # t)" using at_sym [OF a] by auto
  have "parses buf c t (parseexec n buf s) ?k"
  proof (cases n)
    case (Suc m)
    show ?thesis
    proof (cases m)
      case (Suc i)
      have "parses buf c (41 # t) (parseline i buf s1) Got" using l g(2) n unfolding line_parses_def by simp
      then consider "parseline i buf s1 = NoFuel"
        | c' s' where "parseline i buf s1 = Got (c', s')" "at buf s' (41 # t)" "rel_cmd (reads buf) c' c"
        unfolding parses_def by auto
      then show ?thesis
      proof cases
        case 2
        obtain q2 eq2 s2 where g2: "gettoken buf (skip_space buf s') = (41, q2, eq2, s2)" "at buf s2 t" using at_sym [OF 2(2)] by auto
        have "peek buf s' '')'' = (True, skip_space buf s')" using peek_at [OF 2(2), of "'')''"] n by (simp add: set_tokens)
        then have "parseexec n buf s = ?k (c', s2)" using 2 p g g2 \<open>n = Suc m\<close> Suc k by simp
        then show ?thesis using 2(3) g2(2) unfolding parses_def by blast
      qed (simp add: parses_def Suc \<open>n = Suc m\<close> p g)
    qed (simp add: parses_def Suc p)
  qed (simp add: parses_def)
  then show "\<exists>k. finishes buf k \<and> parses buf c t (parseexec n buf s) (\<lambda>(c, s). and_then (parseredirs buf c s) k)"
    using finishes_Got by blast
qed

lemma exec_redir:
  assumes e: "exec_parses buf c u" and r: "redir_ok f m d" and z: "0 \<notin> set buf"
  shows "exec_parses buf (REDIR c f m d) (u @ show_redir f d)"
  unfolding exec_parses_def
proof (intro allI impI)
  fix n s t assume a: "at buf s ((u @ show_redir f d) @ t)" and t: "nxt t \<in> {0, 124, 41, 38, 59, 60, 62}"
  have a: "at buf s (u @ show_redir f d @ t)" using a by simp
  have "nxt (show_redir f d @ t) \<in> {60, 62}" by (auto simp: show_redir_def nxt_Cons set_tokens)
  then obtain k where k: "finishes buf k"
    and x: "parses buf c (show_redir f d @ t) (parseexec n buf s) (\<lambda>(c, s). and_then (parseredirs buf c s) k)"
    using e a unfolding exec_parses_def by blast
  from x consider "parseexec n buf s = NoFuel"
    | c' s' where "parseexec n buf s = and_then (parseredirs buf c' s') k" "at buf s' (show_redir f d @ t)" "rel_cmd (reads buf) c' c"
    unfolding parses_def by auto
  then have "parses buf (REDIR c f m d) t (parseexec n buf s) (\<lambda>(c, s). and_then (parseredirs buf c s) k)"
  proof cases
    case 2
    obtain y s2 where y: "parseredirs buf c' s' = parseredirs buf (REDIR c' y m d) s2" "at buf s2 t" "reads buf y f"
      using parseredirs_one [OF 2(2) r z] by blast
    then show ?thesis using 2 unfolding parses_def by (intro disjI2 exI [of _ "REDIR c' y m d"] exI [of _ s2]) auto
  qed (simp add: parses_def)
  then show "\<exists>k. finishes buf k \<and> parses buf (REDIR c f m d) t (parseexec n buf s) (\<lambda>(c, s). and_then (parseredirs buf c s) k)"
    using k by blast
qed

lemma exec_words:
  assumes ok: "cmd_ok (EXEC ws)" and z: "0 \<notin> set buf"
  shows "exec_parses buf (EXEC ws) (show_cmd 3 (EXEC ws))"
  unfolding exec_parses_def
proof (intro allI impI)
  fix n s t assume a: "at buf s (show_cmd 3 (EXEC ws) @ t)" and t: "nxt t \<in> {0, 124, 41, 38, 59, 60, 62}"
  have "nxt (show_cmd 3 (EXEC ws) @ t) \<noteq> 40"
    using t ok by (cases ws; cases "hd ws") (auto simp: nxt_Cons word_ok_def word_char_def token_symbols set_tokens)
  then have p: "peek buf s ''('' = (False, skip_space buf s)" using peek_at [OF a, of "''(''"] by (simp add: set_tokens)
  obtain as s' i where w: "and_then (parseredirs buf (EXEC []) s) (\<lambda>(c, s). parse_args buf c 0 s) =
      and_then (parseredirs buf (EXEC as) s') (\<lambda>(c, s). parse_args buf c i s)" "at buf s' t" "list_all2 (reads buf) as ws"
    using parse_args_words [of buf s ws t "[]"] a ok z by auto
  let ?k = "\<lambda>(c, s). parse_args buf c i s"
  have "parses buf (EXEC ws) t (parseexec n buf s) (\<lambda>(c, s). and_then (parseredirs buf c s) ?k)"
  proof (cases n)
    case (Suc m)
    have "parseredirs buf (EXEC []) (skip_space buf s) = parseredirs buf (EXEC []) s" by (rule parseredirs_skip [OF a])
    then show ?thesis using w p Suc unfolding parses_def by (intro disjI2 exI [of _ "EXEC as"] exI [of _ s']) simp
  qed (simp add: parses_def)
  then show "\<exists>k. finishes buf k \<and> parses buf (EXEC ws) t (parseexec n buf s) (\<lambda>(c, s). and_then (parseredirs buf c s) k)"
    using finishes_args by blast
qed

text \<open>All levels at once.\<close>

lemma shown_parses:
  assumes "cmd_ok c" and z: "0 \<notin> set buf"
  shows "exec_parses buf c (show_cmd 3 c) \<and> pipe_parses buf c (show_cmd 2 c) \<and> backs_parses buf c (show_cmd 1 c) \<and> line_parses buf c (show_cmd 0 c)"
  using assms(1)
proof (induction c)
  case (EXEC ws)
  have e: "exec_parses buf (EXEC ws) (concat (map (\<lambda>w. w @ [32]) ws))" using exec_words [OF EXEC z] by simp
  then show ?case using pipe_of_exec [OF e] backs_of_pipe [OF pipe_of_exec [OF e]] line_of_backs [OF backs_of_pipe [OF pipe_of_exec [OF e]]] by simp
next
  case (REDIR c f m d)
  then have e: "exec_parses buf (REDIR c f m d) (show_cmd 3 c @ show_redir f d)" by (intro exec_redir z) auto
  then show ?case using pipe_of_exec [OF e] backs_of_pipe [OF pipe_of_exec [OF e]] line_of_backs [OF backs_of_pipe [OF pipe_of_exec [OF e]]] by simp
next
  case (PIPE a b)
  then have p: "pipe_parses buf (PIPE a b) (show_cmd 3 a @ 124 # show_cmd 2 b)" by (intro pipe_step) auto
  note l = line_of_backs [OF backs_of_pipe [OF p]]
  show ?case using p backs_of_pipe [OF p] l exec_of_line [OF l] by (simp add: paren_def)
next
  case (LIST a b)
  then have l: "line_parses buf (LIST a b) (show_cmd 1 a @ 59 # show_cmd 0 b)" by (intro line_step) auto
  note e = exec_of_line [OF l]
  show ?case using l e pipe_of_exec [OF e] backs_of_pipe [OF pipe_of_exec [OF e]] by (simp add: paren_def)
next
  case (BACK a)
  then have b: "backs_parses buf (BACK a) (show_cmd 1 a @ [38])" by (intro backs_step) auto
  note l = line_of_backs [OF b]
  note e = exec_of_line [OF l]
  show ?case using b l e pipe_of_exec [OF e] by (simp add: paren_def)
qed

section \<open>The parser on any text\<close>

fun few_args :: "'w cmd \<Rightarrow> bool" where
  "few_args (EXEC ws) \<longleftrightarrow> length ws < MAXARGS"
| "few_args (REDIR c f m d) \<longleftrightarrow> few_args c"
| "few_args (PIPE a b) \<longleftrightarrow> few_args a \<and> few_args b"
| "few_args (LIST a b) \<longleftrightarrow> few_args a \<and> few_args b"
| "few_args (BACK a) \<longleftrightarrow> few_args a"

text \<open>The result of a parser at \<open>s\<close>: words of the text, at most nine arguments, and no step back.\<close>

definition parsed_ok :: "byte list \<Rightarrow> span cmd \<Rightarrow> bool" where
  "parsed_ok buf c \<longleftrightarrow> (\<forall>x \<in> set_cmd c. token buf x) \<and> few_args c"

definition sound :: "byte list \<Rightarrow> nat \<Rightarrow> (span cmd \<times> nat) parsed \<Rightarrow> bool" where
  "sound buf s m \<longleftrightarrow> (\<forall>c s'. m = Got (c, s') \<longrightarrow> s \<le> s' \<and> parsed_ok buf c)"

lemma parsed_ok_simps:
  "parsed_ok buf (REDIR c x m d) \<longleftrightarrow> parsed_ok buf c \<and> token buf x"
  "parsed_ok buf (PIPE a b) \<longleftrightarrow> parsed_ok buf a \<and> parsed_ok buf b"
  "parsed_ok buf (LIST a b) \<longleftrightarrow> parsed_ok buf a \<and> parsed_ok buf b"
  "parsed_ok buf (BACK a) \<longleftrightarrow> parsed_ok buf a" "parsed_ok buf (EXEC [])"
  by (auto simp: parsed_ok_def MAXARGS_def)

lemma sound_leaf: "sound buf s (panic msg)" "sound buf s NoFuel" "s \<le> s' \<Longrightarrow> parsed_ok buf c \<Longrightarrow> sound buf s (Got (c, s'))"
  by (simp_all add: sound_def panic_def)

lemma sound_then:
  "sound buf s m \<Longrightarrow> (\<And>c s'. m = Got (c, s') \<Longrightarrow> s \<le> s' \<Longrightarrow> parsed_ok buf c \<Longrightarrow> sound buf s (k (c, s'))) \<Longrightarrow> sound buf s (and_then m k)"
  by (cases m) (auto simp: sound_def)

lemma sound_mono: "sound buf s1 m \<Longrightarrow> s \<le> s1 \<Longrightarrow> sound buf s m"
  by (cases m) (auto simp: sound_def)

lemma parseredirs_returns: "parseredirs buf c s \<noteq> NoFuel"
proof (induction buf c s rule: parseredirs.induct)
  case (1 buf cmd s)
  obtain found s0 where p: "peek buf s ''<>'' = (found, s0)" by (metis surj_pair)
  obtain tok q1 e1 s1 where g1: "gettoken buf s0 = (tok, q1, e1, s1)" by (metis surj_pair)
  obtain t q eq s2 where g2: "gettoken buf s1 = (t, q, eq, s2)" by (metis surj_pair)
  note IH = "1.IH" [OF p [symmetric] refl _ g1 [symmetric] refl refl refl g2 [symmetric] refl refl refl]
  show ?case using IH p g1 g2 by (subst parseredirs.simps) (auto simp: panic_def)
qed

lemma parseredirs_sound:
  assumes "0 \<notin> set buf" and "parsed_ok buf c"
  shows "sound buf s (parseredirs buf c s)"
  using assms
proof (induction buf c s rule: parseredirs.induct)
  case (1 buf cmd s)
  obtain found s0 where p: "peek buf s ''<>'' = (found, s0)" by (metis surj_pair)
  obtain tok q1 e1 s1 where g1: "gettoken buf s0 = (tok, q1, e1, s1)" by (metis surj_pair)
  obtain t q eq s2 where g2: "gettoken buf s1 = (t, q, eq, s2)" by (metis surj_pair)
  have o: "s \<le> s2" using peek_ge [OF p] gettoken_ge [OF g1] gettoken_ge [OF g2] by simp
  note IH = "1.IH" [OF p [symmetric] refl _ g1 [symmetric] refl refl refl g2 [symmetric] refl refl refl _ "1.prems"(1), THEN sound_mono, OF _ _ _ o]
  have "t = 97 \<Longrightarrow> token buf (q, eq)" using gettoken_a(1) [of buf s1 q eq s2] g2 "1.prems"(1) by simp
  then show ?case using IH p g1 g2 peek_ge [OF p] "1.prems"(2)
    by (subst parseredirs.simps) (auto simp: sound_leaf parsed_ok_simps)
qed

text \<open>The node that \<open>parseexec\<close> fills lies below redirections only.\<close>

fun args_node :: "'w cmd \<Rightarrow> 'w list option" where
  "args_node (EXEC ws) = Some ws"
| "args_node (REDIR c f m d) = args_node c"
| "args_node c = None"

lemma add_arg_node: "args_node c = Some ws \<Longrightarrow> args_node (add_arg a c) = Some (ws @ [a]) \<and> set_cmd (add_arg a c) = insert a (set_cmd c)"
  by (induction c) auto

lemma few_args_node: "args_node c = Some ws \<Longrightarrow> few_args c \<longleftrightarrow> length ws < MAXARGS"
  by (induction c) auto

lemma parseredirs_node: "parseredirs buf c s = Got (c', s') \<Longrightarrow> args_node c' = args_node c"
proof (induction buf c s arbitrary: c' s' rule: parseredirs.induct)
  case (1 buf cmd s)
  obtain found s0 where p: "peek buf s ''<>'' = (found, s0)" by (metis surj_pair)
  obtain tok q1 e1 s1 where g1: "gettoken buf s0 = (tok, q1, e1, s1)" by (metis surj_pair)
  obtain t q eq s2 where g2: "gettoken buf s1 = (t, q, eq, s2)" by (metis surj_pair)
  note IH = "1.IH" [OF p [symmetric] refl _ g1 [symmetric] refl refl refl g2 [symmetric] refl refl refl]
  show ?case using IH [of c' s'] p g1 g2 "1.prems" by (subst (asm) parseredirs.simps) (auto simp: panic_def split: if_splits)
qed

lemma parse_args_sound:
  assumes "0 \<notin> set buf" and "parsed_ok buf c" and "args_node c = Some ws" and "argc = length ws"
  shows "sound buf s (parse_args buf c argc s) \<and> parse_args buf c argc s \<noteq> NoFuel"
  using assms
proof (induction buf c argc s arbitrary: ws rule: parse_args.induct)
  case (1 buf cmd argc s)
  obtain found s0 where p: "peek buf s ''|)&;'' = (found, s0)" by (metis surj_pair)
  obtain t q eq s1 where g: "gettoken buf s0 = (t, q, eq, s1)" by (metis surj_pair)
  have o: "s \<le> s0" "s0 \<le> s1" using peek_ge [OF p] gettoken_ge [OF g] by simp_all
  let ?c = "add_arg (q, eq) cmd"
  show ?case
  proof (cases "\<not> found \<and> t = 97 \<and> argc + 1 < MAXARGS")
    case False
    then show ?thesis using p g o "1.prems"(2) by (subst (1 2) parse_args.simps) (auto simp: sound_leaf panic_def sound_def)
  next
    case True
    then have "token buf (q, eq)" using gettoken_a(1) [of buf s0 q eq s1] g "1.prems"(1) by simp
    then have c: "parsed_ok buf ?c" "args_node ?c = Some (ws @ [(q, eq)])"
      using add_arg_node [OF "1.prems"(3), of "(q, eq)"] "1.prems" True few_args_node [of ?c "ws @ [(q, eq)]"] by (auto simp: parsed_ok_def)
    have x: "parse_args buf cmd argc s = and_then (parseredirs buf ?c s1) (\<lambda>(cmd, s). parse_args buf cmd (argc + 1) s)"
      using True p g by (subst parse_args.simps) simp
    have k: "sound buf s' (parse_args buf c' (argc + 1) s') \<and> parse_args buf c' (argc + 1) s' \<noteq> NoFuel"
      if r: "parseredirs buf ?c s1 = Got (c', s')" for c' s'
    proof (rule "1.IH" [OF p [symmetric] refl _ g [symmetric] refl refl refl _ _ refl refl _ r refl "1.prems"(1)])
      show "parsed_ok buf c'" using parseredirs_sound [OF "1.prems"(1) c(1), of s1] r by (auto simp: sound_def)
      show "args_node c' = Some (ws @ [(q, eq)])" using parseredirs_node [OF r] c(2) by simp
    qed (use True "1.prems"(4) in auto)
    have "sound buf s1 (and_then (parseredirs buf ?c s1) (\<lambda>(cmd, s). parse_args buf cmd (argc + 1) s))"
      using parseredirs_sound [OF "1.prems"(1) c(1)] k by (intro sound_then) (auto intro: sound_mono)
    moreover have "and_then (parseredirs buf ?c s1) (\<lambda>(cmd, s). parse_args buf cmd (argc + 1) s) \<noteq> NoFuel"
      using parseredirs_returns [of buf ?c s1] k by (cases "parseredirs buf ?c s1") auto
    ultimately show ?thesis using x o sound_mono by simp
  qed
qed

lemma parse_backs_ok: "parse_backs buf c s = (c', s') \<Longrightarrow> s \<le> s' \<and> parsed_ok buf c' = parsed_ok buf c"
proof (induction buf c s rule: parse_backs.induct)
  case (1 buf cmd s)
  obtain found s0 where p: "peek buf s ''&'' = (found, s0)" by (metis surj_pair)
  obtain t q eq s1 where g: "gettoken buf s0 = (t, q, eq, s1)" by (metis surj_pair)
  have o: "s \<le> s0" "s0 \<le> s1" using peek_ge [OF p] gettoken_ge [OF g] by simp_all
  show ?case
    using "1.IH" [OF p [symmetric] refl _ g [symmetric] refl refl refl] "1.prems" p g o
    by (subst (asm) parse_backs.simps) (auto simp: parsed_ok_simps split: if_splits)
qed

lemma parsers_sound:
  assumes z: "0 \<notin> set buf"
  shows "sound buf s (parseline n buf s)" "sound buf s (parsepipe n buf s)" "sound buf s (parseblock n buf s)" "sound buf s (parseexec n buf s)"
proof (induction n arbitrary: s)
  case (Suc n)
  { case 1
    show ?case unfolding parseline.simps
    proof (rule sound_then [OF Suc(2)])
      fix c s1 assume c: "s \<le> s1" "parsed_ok buf c"
      obtain c2 s2 where b: "parse_backs buf c s1 = (c2, s2)" by (metis surj_pair)
      obtain f s3 where p: "peek buf s2 '';'' = (f, s3)" by (metis surj_pair)
      obtain t q eq s4 where g: "gettoken buf s3 = (t, q, eq, s4)" by (metis surj_pair)
      have o: "s \<le> s3" "s \<le> s4" "parsed_ok buf c2" using c parse_backs_ok [OF b] peek_ge [OF p] gettoken_ge [OF g] by auto
      have "sound buf s (and_then (parseline n buf s4) (\<lambda>(right, s). Got (LIST c2 right, s)))"
        by (rule sound_then [OF sound_mono [OF Suc(1) o(2)]]) (use o in \<open>auto intro: sound_leaf simp: parsed_ok_simps\<close>)
      then show "sound buf s (case (c, s1) of (cmd, s) \<Rightarrow> let (cmd, s) = parse_backs buf cmd s; (found, s) = peek buf s '';''
          in if found then let (_, _, _, s) = gettoken buf s in and_then (parseline n buf s) (\<lambda>(right, s). Got (LIST cmd right, s)) else Got (cmd, s))"
        using b p g o by (simp add: sound_leaf)
    qed
  next
    case 2
    show ?case unfolding parsepipe.simps
    proof (rule sound_then [OF Suc(4)])
      fix c s1 assume c: "s \<le> s1" "parsed_ok buf c"
      obtain f s3 where p: "peek buf s1 ''|'' = (f, s3)" by (metis surj_pair)
      obtain t q eq s4 where g: "gettoken buf s3 = (t, q, eq, s4)" by (metis surj_pair)
      have o: "s \<le> s3" "s \<le> s4" using c peek_ge [OF p] gettoken_ge [OF g] by auto
      have "sound buf s (and_then (parsepipe n buf s4) (\<lambda>(right, s). Got (PIPE c right, s)))"
        by (rule sound_then [OF sound_mono [OF Suc(2) o(2)]]) (use o c in \<open>auto intro: sound_leaf simp: parsed_ok_simps\<close>)
      then show "sound buf s (case (c, s1) of (cmd, s) \<Rightarrow> let (found, s) = peek buf s ''|''
          in if found then let (_, _, _, s) = gettoken buf s in and_then (parsepipe n buf s) (\<lambda>(right, s). Got (PIPE cmd right, s)) else Got (cmd, s))"
        using p g o c by (simp add: sound_leaf)
    qed
  next
    case 3
    obtain f s1 where p: "peek buf s ''('' = (f, s1)" by (metis surj_pair)
    obtain t q eq s2 where g: "gettoken buf s1 = (t, q, eq, s2)" by (metis surj_pair)
    have o: "s \<le> s2" using peek_ge [OF p] gettoken_ge [OF g] by simp
    have "sound buf s (and_then (parseline n buf s2) (\<lambda>(cmd, s). let (found, s) = peek buf s '')'' in
          if \<not> found then panic ''syntax - missing )'' else let (_, _, _, s) = gettoken buf s in parseredirs buf cmd s))"
    proof (rule sound_then [OF sound_mono [OF Suc(1) o]])
      fix c s3 assume c: "s \<le> s3" "parsed_ok buf c"
      obtain f s4 where p: "peek buf s3 '')'' = (f, s4)" by (metis surj_pair)
      obtain t q eq s5 where g: "gettoken buf s4 = (t, q, eq, s5)" by (metis surj_pair)
      have o: "s \<le> s5" using c peek_ge [OF p] gettoken_ge [OF g] by simp
      show "sound buf s (case (c, s3) of (cmd, s) \<Rightarrow> let (found, s) = peek buf s '')'' in
          if \<not> found then panic ''syntax - missing )'' else let (_, _, _, s) = gettoken buf s in parseredirs buf cmd s)"
        using p g sound_mono [OF parseredirs_sound [OF z c(2), of s5] o] by (simp add: sound_leaf)
    qed
    then show ?case using p g by (simp add: sound_leaf)
  next
    case 4
    obtain f s1 where p: "peek buf s ''('' = (f, s1)" by (metis surj_pair)
    have o: "s \<le> s1" using peek_ge [OF p] by simp
    have "sound buf s (and_then (parseredirs buf (EXEC []) s1) (\<lambda>(cmd, s). parse_args buf cmd 0 s))"
    proof (rule sound_then [OF sound_mono [OF parseredirs_sound [OF z parsed_ok_simps(5)] o]])
      fix c s2 assume r: "parseredirs buf (EXEC []) s1 = Got (c, s2)" and c: "s \<le> s2" "parsed_ok buf c"
      show "sound buf s (case (c, s2) of (cmd, s) \<Rightarrow> parse_args buf cmd 0 s)"
        using sound_mono [OF _ c(1)] parse_args_sound [OF z c(2), of "[]" 0 s2] parseredirs_node [OF r] by simp
    qed
    then show ?case using p sound_mono [OF Suc(3) o] by simp }
qed (simp_all add: sound_leaf)

text \<open>Each recursive call is further on in the text or lower in the grammar, so the fuel is enough.\<close>

lemma and_then_returns: "m \<noteq> NoFuel \<Longrightarrow> (\<And>c s'. m = Got (c, s') \<Longrightarrow> k (c, s') \<noteq> NoFuel) \<Longrightarrow> and_then m k \<noteq> NoFuel"
  by (cases m) auto

lemma and_then_Got: "and_then m (\<lambda>(r, s). Got (g r, s)) = NoFuel \<longleftrightarrow> m = NoFuel"
  by (cases m) auto

lemma parsers_return:
  assumes z: "0 \<notin> set buf"
  shows "4 * (length buf - s) + 4 \<le> n \<Longrightarrow> parseline n buf s \<noteq> NoFuel" "4 * (length buf - s) + 3 \<le> n \<Longrightarrow> parsepipe n buf s \<noteq> NoFuel"
    "4 * (length buf - s) + 1 \<le> n \<Longrightarrow> parseblock n buf s \<noteq> NoFuel" "4 * (length buf - s) + 2 \<le> n \<Longrightarrow> parseexec n buf s \<noteq> NoFuel"
proof (induction n arbitrary: s)
  case (Suc n)
  have found: "s < s2 \<and> s < length buf" if "peek buf s1 toks = (True, s')" "gettoken buf s' = (t, q, eq, s2)" "s \<le> s1" for s s1 toks s' t q eq s2
    using gettoken_gt [OF that(2) gettoken_after_peek [OF that(1,2)]] peek_ge [OF that(1)] that(3) by simp
  { case 1
    show ?case unfolding parseline.simps
    proof (rule and_then_returns)
      show "parsepipe n buf s \<noteq> NoFuel" using Suc(2) [of s] 1 by simp
      fix c s1 assume r: "parsepipe n buf s = Got (c, s1)"
      have c: "s \<le> s1" using parsers_sound(2) [OF z, of s n] r by (simp add: sound_def)
      obtain c2 s2 where b: "parse_backs buf c s1 = (c2, s2)" by (metis surj_pair)
      obtain f s3 where p: "peek buf s2 '';'' = (f, s3)" by (metis surj_pair)
      obtain t q eq s4 where g: "gettoken buf s3 = (t, q, eq, s4)" by (metis surj_pair)
      have s: "s \<le> s2" using c parse_backs_ok [OF b] by simp
      have p': "peek buf s2 '';'' = (True, s3)" if f using p that by simp
      have "s < s4 \<and> s < length buf" if f by (rule found [OF p' [OF that] g s])
      then have "parseline n buf s4 \<noteq> NoFuel" if f using that 1 by (intro Suc(1)) auto
      then show "(case (c, s1) of (cmd, s) \<Rightarrow> let (cmd, s) = parse_backs buf cmd s; (found, s) = peek buf s '';''
          in if found then let (_, _, _, s) = gettoken buf s in and_then (parseline n buf s) (\<lambda>(right, s). Got (LIST cmd right, s)) else Got (cmd, s)) \<noteq> NoFuel"
        using b p g by (auto simp: and_then_Got)
    qed
  next
    case 2
    show ?case unfolding parsepipe.simps
    proof (rule and_then_returns)
      show "parseexec n buf s \<noteq> NoFuel" using Suc(4) [of s] 2 by simp
      fix c s1 assume r: "parseexec n buf s = Got (c, s1)"
      have c: "s \<le> s1" using parsers_sound(4) [OF z, of s n] r by (simp add: sound_def)
      obtain f s3 where p: "peek buf s1 ''|'' = (f, s3)" by (metis surj_pair)
      obtain t q eq s4 where g: "gettoken buf s3 = (t, q, eq, s4)" by (metis surj_pair)
      have "parsepipe n buf s4 \<noteq> NoFuel" if f
        using found [of s1 "''|''" s3 t q eq s4 s] p g that c 2 by (intro Suc(2)) auto
      then show "(case (c, s1) of (cmd, s) \<Rightarrow> let (found, s) = peek buf s ''|''
          in if found then let (_, _, _, s) = gettoken buf s in and_then (parsepipe n buf s) (\<lambda>(right, s). Got (PIPE cmd right, s)) else Got (cmd, s)) \<noteq> NoFuel"
        using p g by (auto simp: and_then_Got)
    qed
  next
    case 3
    obtain f s1 where p: "peek buf s ''('' = (f, s1)" by (metis surj_pair)
    obtain t q eq s2 where g: "gettoken buf s1 = (t, q, eq, s2)" by (metis surj_pair)
    have "and_then (parseline n buf s2) (\<lambda>(cmd, s). let (found, s) = peek buf s '')'' in
          if \<not> found then panic ''syntax - missing )'' else let (_, _, _, s) = gettoken buf s in parseredirs buf cmd s) \<noteq> NoFuel" if f
    proof (rule and_then_returns)
      show "parseline n buf s2 \<noteq> NoFuel" using found [of s "''(''" s1 t q eq s2 s] p g that 3 by (intro Suc(1)) auto
      fix c s3
      obtain f s4 where p: "peek buf s3 '')'' = (f, s4)" by (metis surj_pair)
      obtain t q eq s5 where g: "gettoken buf s4 = (t, q, eq, s5)" by (metis surj_pair)
      show "(case (c, s3) of (cmd, s) \<Rightarrow> let (found, s) = peek buf s '')'' in
          if \<not> found then panic ''syntax - missing )'' else let (_, _, _, s) = gettoken buf s in parseredirs buf cmd s) \<noteq> NoFuel"
        using p g parseredirs_returns by (simp add: panic_def)
    qed
    then show ?case using p g by (simp add: panic_def)
  next
    case 4
    obtain f s1 where p: "peek buf s ''('' = (f, s1)" by (metis surj_pair)
    have "and_then (parseredirs buf (EXEC []) s1) (\<lambda>(cmd, s). parse_args buf cmd 0 s) \<noteq> NoFuel"
    proof (rule and_then_returns [OF parseredirs_returns])
      fix c s2 assume r: "parseredirs buf (EXEC []) s1 = Got (c, s2)"
      show "(case (c, s2) of (cmd, s) \<Rightarrow> parse_args buf cmd 0 s) \<noteq> NoFuel"
        using parse_args_sound [OF z _, of c "[]" 0 s2] parseredirs_node [OF r] parseredirs_sound [OF z parsed_ok_simps(5), of s1] r by (simp add: sound_def)
    qed
    moreover have "parseblock n buf s1 \<noteq> NoFuel" using peek_ge [OF p] 4 by (intro Suc(3)) auto
    ultimately show ?case using p by simp }
qed simp_all

section \<open>The terminated buffer\<close>

lemma nulterminate_nth:
  "length (nulterminate c b) = length b \<and>
   (i < length b \<longrightarrow> nulterminate c b ! i = (if \<exists>x \<in> set_cmd c. snd x = i then 0 else b ! i))"
proof (induction c b rule: nulterminate.induct)
  case (1 argv b)
  have m: "(\<exists>x \<in> set argv. snd x = i) \<longleftrightarrow> list_ex (\<lambda>x. snd x = i) argv" by (simp add: list_ex_iff)
  have "length (fold (\<lambda>(q, eq) b. b[eq := 0]) argv b) = length b \<and>
    (i < length b \<longrightarrow> fold (\<lambda>(q, eq) b. b[eq := 0]) argv b ! i = (if list_ex (\<lambda>x. snd x = i) argv then 0 else b ! i))"
    by (induction argv arbitrary: b) (auto simp: nth_list_update)
  then show ?case unfolding m [symmetric] by simp
next
  case (2 c q eq m d b)
  then show ?case by (cases "i = eq") auto
qed auto

text \<open>A word stays readable, and ends where it ends: only bytes after words are overwritten.\<close>

lemma terminated_word:
  assumes w: "\<forall>x \<in> set_cmd c. token buf x" and x: "(q, eq) \<in> set_cmd c" and z: "0 \<notin> set buf"
  shows "word_at (nulterminate c (buf @ [0])) q = segment buf q (eq - q)"
proof -
  let ?b = "nulterminate c (buf @ [0])"
  have t: "token buf (q, eq)" using w x by blast
  have len: "length ?b = length buf + 1" using nulterminate_nth [of c "buf @ [0]"] by simp
  have eq0: "?b ! eq = 0" using nulterminate_nth [of c "buf @ [0]" eq] x t by (force simp: token_def)
  have body: "?b ! i = buf ! i" if i: "q \<le> i" "i < eq" for i
  proof -
    have c: "word_char (buf ! i)" "i < length buf" using t i by (auto simp: token_def)
    then have "\<not> (\<exists>x \<in> set_cmd c. snd x = i)" using w by (fastforce simp: token_def)
    then show ?thesis using nulterminate_nth [of c "buf @ [0]" i] c(2) by (simp add: nth_append)
  qed
  have len_seg: "length (segment buf q (eq - q)) = eq - q" using t by (auto simp: token_def segment_def)
  have s: "drop q ?b = segment buf q (eq - q) @ 0 # drop (eq + 1) ?b"
  proof (rule nth_equalityI)
    show "length (drop q ?b) = length (segment buf q (eq - q) @ 0 # drop (eq + 1) ?b)" using len len_seg t by (auto simp: token_def)
    fix i assume "i < length (drop q ?b)"
    then have l: "q + i < length ?b" by simp
    have e: "q \<le> eq" "eq \<le> length buf" using t by (auto simp: token_def)
    consider "i < eq - q" | "i = eq - q" | "eq - q < i" by linarith
    then show "drop q ?b ! i = (segment buf q (eq - q) @ 0 # drop (eq + 1) ?b) ! i"
    proof cases
      case 1
      then show ?thesis using body [of "q + i"] e len l len_seg by (simp add: nth_append)
    next
      case 2
      then show ?thesis using eq0 e len l len_seg by (simp add: nth_append)
    next
      case 3
      then have "i - (eq - q) = Suc (i - (eq - q) - 1)" "eq + 1 + (i - (eq - q) - 1) = q + i" using e by simp_all
      then show ?thesis using 3 e len l len_seg by (simp add: nth_append nth_Cons' add.commute [of q i])
    qed
  qed
  have "\<forall>y \<in> set (segment buf q (eq - q)). y \<noteq> 0"
    using t by (auto simp: token_def in_set_conv_nth word_char_def segment_def)
  then show ?thesis unfolding word_at_def s by (subst takeWhile_append2) auto
qed

section \<open>Programs run with their descriptors\<close>

text \<open>The reference: which programs a command runs, each with the descriptors it starts with. The descriptors are a
  table of objects; \<open>openable\<close> and \<open>runnable\<close> say which files can be opened and which programs can be run, and
  forks succeed. The position \<open>p\<close> of a process in the tree of forks names the pipe that it makes.\<close>

datatype obj = Inherited nat | Opened "byte list" u32 | ReadEnd "bool list" | WriteEnd "bool list"

type_synonym fds = "obj option list"

fun meaning :: "(byte list \<Rightarrow> u32 \<Rightarrow> bool) \<Rightarrow> (byte list list \<Rightarrow> bool) \<Rightarrow> bool list \<Rightarrow> fds \<Rightarrow> byte list cmd \<Rightarrow> (byte list list \<times> fds) list" where
  "meaning openable runnable p T (EXEC ws) = (if ws \<noteq> [] \<and> runnable ws then [(ws, T)] else [])"
| "meaning openable runnable p T (REDIR c f m d) =
     (if openable f m then meaning openable runnable p (T[nat d := Some (Opened f m)]) c else [])"
| "meaning openable runnable p T (PIPE a b) =
     meaning openable runnable (p @ [False]) (T[1 := Some (WriteEnd p)]) a @
     meaning openable runnable (p @ [True, False]) (T[0 := Some (ReadEnd p)]) b"
| "meaning openable runnable p T (LIST a b) = meaning openable runnable (p @ [False]) T a @ meaning openable runnable (p @ [True]) T b"
| "meaning openable runnable p T (BACK a) = meaning openable runnable (p @ [False]) T a"

text \<open>The system calls on such a table: a new descriptor is the lowest one that is free.\<close>

fun lowest :: "fds \<Rightarrow> nat option" where
  "lowest [] = None"
| "lowest (x # T) = (if x = None then Some 0 else map_option Suc (lowest T))"

primrec run :: "prog \<Rightarrow> (byte list \<Rightarrow> u32 \<Rightarrow> bool) \<Rightarrow> (byte list list \<Rightarrow> bool) \<Rightarrow> bool list \<Rightarrow> fds \<Rightarrow> (byte list list \<times> fds) list" where
  "run SysExit = (\<lambda>openable runnable p T. [])"
| "run (SysExec argv k) = (\<lambda>openable runnable p T. if runnable argv then [(argv, T)] else run k openable runnable p T)"
| "run (SysOpen f m k) = (\<lambda>openable runnable p T. case lowest T of
     Some i \<Rightarrow> if openable f m then run (k (int i)) openable runnable p (T[i := Some (Opened f m)]) else run (k (-1)) openable runnable p T
   | None \<Rightarrow> run (k (-1)) openable runnable p T)"
| "run (SysClose d k) = (\<lambda>openable runnable p T. run k openable runnable p (T[nat d := None]))"
| "run (SysDup d k) = (\<lambda>openable runnable p T. case lowest T of
     Some i \<Rightarrow> run k openable runnable p (T[i := T ! nat d]) | None \<Rightarrow> run k openable runnable p T)"
| "run (SysPipe k) = (\<lambda>openable runnable p T. case lowest T of
     None \<Rightarrow> run (k (-1) 0 0) openable runnable p T
   | Some i \<Rightarrow> (case lowest (T[i := Some (ReadEnd p)]) of
       None \<Rightarrow> run (k (-1) 0 0) openable runnable p T
     | Some j \<Rightarrow> run (k 0 (int i) (int j)) openable runnable p (T[i := Some (ReadEnd p), j := Some (WriteEnd p)])))"
| "run (SysFork k) = (\<lambda>openable runnable p T. run (k 0) openable runnable (p @ [False]) T @ run (k 1) openable runnable (p @ [True]) T)"
| "run (SysWait k) = run k"
| "run (SysChdir f k) = run (k 0)"
| "run (SysWrite bs k) = run k"

text \<open>Standard input and output are open, and two descriptors are free for a pipe.\<close>

definition fds_ok :: "fds \<Rightarrow> bool" where
  "fds_ok T \<longleftrightarrow> 2 \<le> length T \<and> T ! 0 \<noteq> None \<and> T ! 1 \<noteq> None \<and> (\<exists>i j. i < j \<and> j < length T \<and> T ! i = None \<and> T ! j = None)"

lemma lowest_Some: "lowest T = Some i \<longleftrightarrow> i < length T \<and> T ! i = None \<and> (\<forall>j < i. T ! j \<noteq> None)"
  by (induction T arbitrary: i) (force simp: nth_Cons' less_Suc_eq_0_disj split: if_splits nat.splits)+

lemma lowest_None: "lowest T = None \<longleftrightarrow> (\<forall>i < length T. T ! i \<noteq> None)"
  by (induction T) (auto simp: nth_Cons' less_Suc_eq_0_disj split: if_splits)

lemma lowest_free:
  assumes "i < length T" and "T ! i = None"
  shows "\<exists>l \<le> i. lowest T = Some l"
proof -
  obtain l where l: "lowest T = Some l" using assms lowest_None [of T] by (cases "lowest T") auto
  then have "\<not> i < l" using assms(2) unfolding lowest_Some by auto
  then show ?thesis using l by auto
qed

lemma fds_ok_update:
  assumes "fds_ok T" and "d \<le> 1"
  shows "fds_ok (T[d := Some x])"
proof -
  obtain i j where T: "2 \<le> length T" "T ! 0 \<noteq> None" "T ! 1 \<noteq> None" and ij: "i < j" "j < length T" "T ! i = None" "T ! j = None"
    using assms(1) unfolding fds_ok_def by blast
  have "i \<noteq> 0" "i \<noteq> 1" using T ij by metis+
  then have "i \<noteq> d" "j \<noteq> d" using ij assms(2) by auto
  then show ?thesis using T ij assms(2) unfolding fds_ok_def by (intro conjI exI [of _ i] exI [of _ j]) (auto simp: nth_list_update)
qed

lemma run_panic [simp]: "run (sh_panic m) openable runnable p T = []"
  by (simp add: sh_panic_def)

lemma run_fork1 [simp]:
  "run (fork1 k) openable runnable p T = run (k 0) openable runnable (p @ [False]) T @ run (k 1) openable runnable (p @ [True]) T"
  by (simp add: fork1_def)

lemma lowest_after_close:
  assumes "fds_ok T" and "d \<le> 1"
  shows "lowest (T[d := None]) = Some d"
proof -
  have T: "d < length T" "0 < length T" "T ! 0 \<noteq> None" using assms by (auto simp: fds_ok_def)
  have "d = 0 \<or> d = 1" using assms(2) by auto
  then show ?thesis using T unfolding lowest_Some by auto
qed

text \<open>The descriptors of the new pipe.\<close>

lemma pipe_fds:
  assumes "fds_ok T"
  shows "\<exists>i j. lowest T = Some i \<and> lowest (T[i := Some x]) = Some j \<and> 1 < i \<and> 1 < j \<and> i \<noteq> j \<and> i < length T \<and> j < length T \<and> T ! i = None \<and> T ! j = None"
proof -
  obtain a b where ab: "a < b" "b < length T" "T ! a = None" "T ! b = None" and T: "T ! 0 \<noteq> None" "T ! 1 \<noteq> None"
    using assms unfolding fds_ok_def by blast
  obtain i where i: "lowest T = Some i" "i \<le> a" using lowest_free [of a T] ab by auto
  have "T[i := Some x] ! b = None" using ab i by simp
  then obtain j where j: "lowest (T[i := Some x]) = Some j" using lowest_free [of b "T[i := Some x]"] ab by auto
  have I: "i < length T" "T ! i = None" using i lowest_Some by auto
  have J: "j < length T" "T[i := Some x] ! j = None" using j unfolding lowest_Some by auto
  have ij: "i \<noteq> j" using J I by auto
  then have "T ! j = None" using J by simp
  then have "1 < i" "1 < j" using I T by (metis One_nat_def less_one linorder_neqE_nat)+
  then show ?thesis using i j I J ij \<open>T ! j = None\<close> by blast
qed

lemma run_meaning:
  assumes "cmd_ok c" and "fds_ok T"
  shows "run (runcmd (\<lambda>w. w) c) openable runnable p T = meaning openable runnable p T c"
  using assms
proof (induction c arbitrary: p T)
  case (EXEC ws)
  show ?case by (cases ws) simp_all
next
  case (REDIR c f m d)
  have d: "nat d \<le> 1" "0 \<le> d" using REDIR.prems(1) by (auto simp: redir_ok_def)
  show ?case using lowest_after_close [OF REDIR.prems(2) d(1)] REDIR fds_ok_update [OF REDIR.prems(2) d(1)] by simp
next
  case (PIPE a b)
  obtain i j where ij: "lowest T = Some i" "lowest (T[i := Some (ReadEnd p)]) = Some j" "1 < i" "1 < j" "i \<noteq> j"
      "i < length T" "j < length T" "T ! i = None" "T ! j = None"
    using pipe_fds [OF PIPE.prems(2)] by blast
  let ?T = "T[i := Some (ReadEnd p), j := Some (WriteEnd p)]"
  have T: "0 < length T" "1 < length T" "T ! 0 \<noteq> None" "T ! 1 \<noteq> None" using PIPE.prems(2) by (auto simp: fds_ok_def)
  have l: "lowest (?T[1 := None]) = Some 1" "lowest (?T[0 := None]) = Some 0"
    using ij T unfolding lowest_Some by (auto simp: nth_list_update)
  have w: "?T[1 := None, 1 := ?T[1 := None] ! j, i := None, j := None] = T[1 := Some (WriteEnd p)]"
    using ij T by (intro nth_equalityI) (auto simp: nth_list_update)
  have r: "?T[0 := None, 0 := ?T[0 := None] ! i, i := None, j := None] = T[0 := Some (ReadEnd p)]"
    using ij T by (intro nth_equalityI) (auto simp: nth_list_update)
  show ?case using PIPE fds_ok_update [OF PIPE.prems(2)] ij l w r by simp
qed simp_all

lemma runcmd_map: "runcmd str c = runcmd (\<lambda>w. w) (map_cmd str c)"
  by (induction c) (auto split: list.splits cong: if_cong)

section \<open>Whole lines\<close>

lemma spaces_white: "set ws \<subseteq> set whitespace \<Longrightarrow> spaces ws = []"
  by (auto simp: spaces_def)

lemma paren_bytes: "set (paren b t) \<subseteq> {40, 41} \<union> set t"
  by (auto simp: paren_def)

lemma show_cmd_nonzero: "cmd_ok c \<Longrightarrow> 0 \<notin> set (show_cmd l c)"
proof (induction c arbitrary: l)
  case (PIPE a b)
  then show ?case using paren_bytes [of "2 < l" "show_cmd 3 a @ [124] @ show_cmd 2 b"] by force
next
  case (LIST a b)
  then show ?case using paren_bytes [of "0 < l" "show_cmd 1 a @ [59] @ show_cmd 0 b"] by force
next
  case (BACK a)
  then show ?case using paren_bytes [of "1 < l" "show_cmd 1 a @ [38]"] by force
qed (auto simp: word_ok_def word_char_def show_redir_def redir_ok_def symbol_bytes)

text \<open>The buffer of \<open>main\<close> holds the line, the white space after it, a NUL and what was there before.\<close>

lemma line_bytes:
  assumes "cmd_ok c" "set ws \<subseteq> set whitespace"
  shows "takeWhile (\<lambda>c. c \<noteq> 0) (show_cmd 0 c @ ws @ 0 # junk) = show_cmd 0 c @ ws" "0 \<notin> set (show_cmd 0 c @ ws)"
proof -
  have w: "0 \<notin> set ws" using assms(2) set_tokens(9) by auto
  then show z: "0 \<notin> set (show_cmd 0 c @ ws)" using show_cmd_nonzero [OF assms(1)] by simp
  have "takeWhile (\<lambda>c. c \<noteq> 0) (xs @ 0 # junk) = xs" if "0 \<notin> set xs" for xs :: "byte list"
    using that by (induction xs) auto
  from this [OF z] show "takeWhile (\<lambda>c. c \<noteq> 0) (show_cmd 0 c @ ws @ 0 # junk) = show_cmd 0 c @ ws" by simp
qed

lemma rel_cmd_map:
  assumes "rel_cmd (\<lambda>x w. f x = w) c' c"
  shows "map_cmd f c' = c"
  using assms by (simp add: cmd.rel_eq [symmetric] cmd.rel_map)

lemma parsecmd_shown:
  assumes ok: "cmd_ok c" and ws: "set ws \<subseteq> set whitespace"
  shows "\<exists>c' buf. parsecmd (show_cmd 0 c @ ws @ 0 # junk) = Got (c', buf) \<and> map_cmd (\<lambda>(q, eq). word_at buf q) c' = c"
proof -
  let ?b = "show_cmd 0 c @ ws"
  note B = line_bytes [OF ok ws]
  have a: "at ?b 0 (show_cmd 0 c @ ws)" by (simp add: at_def)
  have n0: "nxt ws = 0" using spaces_white [OF ws] by (simp add: nxt_def)
  have "parses ?b c ws (parseline (parse_fuel ?b) ?b 0) Got"
    using shown_parses [OF ok B(2)] a n0 unfolding line_parses_def by blast
  moreover have "parseline (parse_fuel ?b) ?b 0 \<noteq> NoFuel" by (rule parsers_return(1) [OF B(2)]) (simp add: parse_fuel_def)
  ultimately obtain c' s where p: "parseline (parse_fuel ?b) ?b 0 = Got (c', s)" "at ?b s ws" "rel_cmd (reads ?b) c' c"
    unfolding parses_def by blast
  have e: "peek ?b s '''' = (False, length ?b)"
    using peek_at [OF p(2), of "''''"] at_nxt0 [OF p(2) n0 B(2)] n0 by simp
  let ?t = "nulterminate c' (?b @ [0])"
  have g: "parsecmd (show_cmd 0 c @ ws @ 0 # junk) = Got (c', ?t)"
    unfolding parsecmd_def B(1) Let_def p(1) by (simp add: e)
  have tok: "\<forall>x \<in> set_cmd c'. token ?b x"
    using parsers_sound(1) [OF B(2), of 0 "parse_fuel ?b"] p(1) by (simp add: sound_def parsed_ok_def)
  have "rel_cmd (\<lambda>x w. (\<lambda>(q, eq). word_at ?t q) x = w) c' c"
  proof (rule cmd.rel_mono_strong [OF p(3)])
    fix x w assume x: "x \<in> set_cmd c'" "reads ?b x w"
    obtain q eq where q: "x = (q, eq)" by (cases x)
    show "(\<lambda>(q, eq). word_at ?t q) x = w"
      using terminated_word [OF tok _ B(2), of q eq] x by (simp add: q reads_def)
  qed
  from g rel_cmd_map [OF this] show ?thesis by blast
qed

text \<open>Every line is parsed or rejected: the fuel is enough, a command has at most nine arguments and consists of words of
  the line, each of which can be read back from the terminated buffer.\<close>

lemma parsecmd_total:
  "case parsecmd line of
     Got (c, buf) \<Rightarrow> few_args c \<and> (\<forall>(q, eq) \<in> set_cmd c. token (takeWhile (\<lambda>c. c \<noteq> 0) line) (q, eq) \<and>
       word_at buf q = segment line q (eq - q))
   | Panicked m \<Rightarrow> True
   | NoFuel \<Rightarrow> False"
proof -
  let ?b = "takeWhile (\<lambda>c. c \<noteq> 0) line"
  have z: "0 \<notin> set ?b" by (auto dest: set_takeWhileD)
  have pre: "segment ?b q (eq - q) = segment line q (eq - q)" if "token ?b (q, eq)" for q eq
  proof -
    have "eq \<le> length ?b" using that by (simp add: token_def)
    then have "eq - q \<le> length ?b - q" by (rule diff_le_mono)
    moreover have "segment (take m line) q (eq - q) = segment line q (eq - q)" if "eq - q \<le> m - q" for m
      using that by (simp add: segment_def drop_take min_def)
    ultimately show ?thesis by (metis takeWhile_eq_take)
  qed
  show ?thesis
  proof (cases "parseline (parse_fuel ?b) ?b 0")
    case (Got x)
    obtain c s where x: "x = (c, s)" by (cases x)
    have s: "\<forall>x \<in> set_cmd c. token ?b x" "few_args c"
      using parsers_sound(1) [OF z, of 0 "parse_fuel ?b"] Got x by (simp_all add: sound_def parsed_ok_def)
    obtain f s1 where pk: "peek ?b s '''' = (f, s1)" by (metis surj_pair)
    have "\<forall>(q, eq) \<in> set_cmd c. token ?b (q, eq) \<and> word_at (nulterminate c (?b @ [0])) q = segment line q (eq - q)"
      using terminated_word [OF s(1) _ z] s(1) pre by fastforce
    then show ?thesis using Got x pk s(2) by (simp add: parsecmd_def Let_def)
  next
    case (Panicked m)
    then show ?thesis by (simp add: parsecmd_def Let_def)
  next
    case NoFuel
    then show ?thesis using parsers_return(1) [OF z, of 0 "parse_fuel ?b"] by (simp add: parse_fuel_def)
  qed
qed

section \<open>Properties\<close>

text \<open>C40: The shell understands what is typed: for every command built of simple commands with at most nine words,
  redirections, pipes, lists and background commands, its line is parsed without a panic to a command whose words, read
  from the terminated buffer, are the words typed; and the child that runs the line starts exactly the programs the
  command means, in order, each with its arguments and with standard input and output connected as the
  redirections and pipes say, when the forks succeed.\<close>

theorem shell_runs_line:
  assumes "cmd_ok c" and "set ws \<subseteq> set whitespace" and "fds_ok T"
  shows "(\<exists>c' buf. parsecmd (show_cmd 0 c @ ws @ 0 # junk) = Got (c', buf) \<and> map_cmd (\<lambda>(q, eq). word_at buf q) c' = c) \<and>
    run (run_line (show_cmd 0 c @ ws @ 0 # junk)) openable runnable p T = meaning openable runnable p T c"
proof -
  obtain c' buf where g: "parsecmd (show_cmd 0 c @ ws @ 0 # junk) = Got (c', buf)" "map_cmd (\<lambda>(q, eq). word_at buf q) c' = c"
    using parsecmd_shown [OF assms(1,2)] by blast
  then have "run_line (show_cmd 0 c @ ws @ 0 # junk) = runcmd (\<lambda>w. w) c"
    using runcmd_map [of "\<lambda>(q, eq). word_at buf q" c'] by (simp add: run_line_def)
  then show ?thesis using g run_meaning [OF assms(1,3)] by auto
qed

text \<open>\<open>cat f | wc > g\<close> and a newline, in a shell with the three standard descriptors.\<close>

theorem shell_runs_line_witness:
  "run (run_line (bytes ''cat f |wc >g '' @ [10, 0])) (\<lambda>f m. True) (\<lambda>argv. True) []
     [Some (Inherited 0), Some (Inherited 1), Some (Inherited 2), None, None] =
   [([bytes ''cat'', bytes ''f''], [Some (Inherited 0), Some (WriteEnd []), Some (Inherited 2), None, None]),
    ([bytes ''wc''], [Some (ReadEnd []), Some (Opened (bytes ''g'') (O_WRONLY OR O_CREATE)), Some (Inherited 2), None, None])]"
proof -
  let ?c = "PIPE (EXEC [bytes ''cat'', bytes ''f'']) (REDIR (EXEC [bytes ''wc'']) (bytes ''g'') (O_WRONLY OR O_CREATE) 1)"
  let ?T = "[Some (Inherited 0), Some (Inherited 1), Some (Inherited 2), None, None]"
  have c: "cmd_ok ?c" by (simp add: MAXARGS_def redir_ok_def word_ok_def word_char_def bytes_def whitespace_def symbols_def)
  have "\<exists>i j. i < j \<and> j < length ?T \<and> ?T ! i = None \<and> ?T ! j = None" by (rule exI [of _ 3], rule exI [of _ 4]) simp
  then have T: "fds_ok ?T" by (simp add: fds_ok_def)
  have w: "set [10] \<subseteq> set whitespace" by (simp add: whitespace_def)
  have s: "show_cmd 0 ?c @ [10] @ 0 # [] = bytes ''cat f |wc >g '' @ [10, 0]"
    by (simp add: paren_def show_redir_def bytes_def)
  show ?thesis using shell_runs_line [OF c w T, of "[]" "\<lambda>f m. True" "\<lambda>argv. True" "[]"] unfolding s by simp
qed

end
