(* ===== verification/Spec2Isabelle.thy ===== *)
theory Spec2Isabelle
  imports UserUtils CpuBound IoBound Printf Experiment CMem Scheduling Pipe Console Kbd FsDirs FileCalls VmSafety ExecSafety Grep ShellSafety
begin

text \<open>
  A verification library for the xv6 variants of this repository: the kernel of
  \<open>src/xv6-add_FAIRNESS\<close> with its priority scheduler, and the user programs that measure it.
\<close>

end
